(* ===== verification/Prelude.thy ===== *)
theory Prelude imports Main "HOL-Library.Word" begin

text \<open>
  Shared vocabulary of the development: machine words, byte-addressed memory, C strings in
  memory, and the generic lemmas that the component theories use.

  A pointer of the C code is a \<open>nat\<close> address (\<open>NULL\<close> is 0) into a memory that maps every
  address to a byte; \<open>p + 1\<close> on a \<open>char *\<close> is \<open>Suc p\<close>. Pointer arithmetic that leaves the
  address space is undefined in C and does not occur in the modelled code. A \<open>size_t\<close> or
  another count that the code only tests against zero and decrements is a \<open>nat\<close>; integers
  whose wrap-around matters are words of their width.
\<close>

unbundle bit_operations_syntax

type_synonym byte = "8 word"
type_synonym u16 = "16 word"
type_synonym u32 = "32 word"
type_synonym u64 = "64 word"
type_synonym mem = "nat \<Rightarrow> byte"

named_theorems mem_simps \<open>evaluation of reads and writes of byte memory\<close>

abbreviation (input) NULL :: nat where "NULL \<equiv> 0"

section \<open>Reading and writing runs of bytes\<close>

definition read_bytes :: "mem \<Rightarrow> nat \<Rightarrow> nat \<Rightarrow> byte list" where
  "read_bytes m s n = map m [s..<s + n]"

primrec write_bytes :: "mem \<Rightarrow> nat \<Rightarrow> byte list \<Rightarrow> mem" where
  "write_bytes m d [] = m"
| "write_bytes m d (x # xs) = write_bytes (m(d := x)) (Suc d) xs"

lemma length_read_bytes [simp]: "length (read_bytes m s n) = n"
  by (simp add: read_bytes_def)

lemma nth_read_bytes [simp]: "i < n \<Longrightarrow> read_bytes m s n ! i = m (s + i)"
  by (simp add: read_bytes_def)

lemma read_bytes_0 [simp]: "read_bytes m s 0 = []"
  by (simp add: read_bytes_def)

lemma read_bytes_Suc: "read_bytes m s (Suc n) = m s # read_bytes m (Suc s) n"
  by (simp add: read_bytes_def upt_conv_Cons del: upt_Suc)

lemma read_bytes_add: "read_bytes m s (a + b) = read_bytes m s a @ read_bytes m (s + a) b"
  by (induction a arbitrary: s) (simp_all add: read_bytes_Suc)

lemma write_bytes_apply [mem_simps]:
  "write_bytes m d xs a =
     (if d \<le> a \<and> a < d + length xs then xs ! (a - d) else m a)"
proof (induction xs arbitrary: m d a)
  case Nil
  then show ?case by auto
next
  case (Cons x xs)
  show ?case
  proof (cases "a = d")
    case True
    then show ?thesis by (simp add: Cons.IH)
  next
    case False
    then show ?thesis by (auto simp: Cons.IH nth_Cons' Suc_le_eq)
  qed
qed

lemma write_bytes_other: "a < d \<or> d + length xs \<le> a \<Longrightarrow> write_bytes m d xs a = m a"
  by (auto simp: write_bytes_apply)

lemma read_write_bytes [simp]: "read_bytes (write_bytes m d xs) d (length xs) = xs"
  by (rule nth_equalityI) (simp_all add: write_bytes_apply)

lemma write_bytes_append:
  "write_bytes m d (xs @ ys) = write_bytes (write_bytes m d xs) (d + length xs) ys"
  by (induction xs arbitrary: m d) simp_all

lemma write_bytes_snoc:
  "write_bytes m d (xs @ [x]) = (write_bytes m d xs)(d + length xs := x)"
  by (simp add: write_bytes_append)

section \<open>C strings in memory\<close>

text \<open>\<open>cstr m s xs\<close>: the bytes \<open>xs\<close>, none of them NUL, stand at \<open>s\<close> and a NUL follows.\<close>

primrec cstr :: "mem \<Rightarrow> nat \<Rightarrow> byte list \<Rightarrow> bool" where
  "cstr m s [] \<longleftrightarrow> m s = 0"
| "cstr m s (x # xs) \<longleftrightarrow> m s = x \<and> x \<noteq> 0 \<and> cstr m (Suc s) xs"

lemma cstr_iff:
  "cstr m s xs \<longleftrightarrow>
     (\<forall>i < length xs. m (s + i) = xs ! i) \<and> m (s + length xs) = 0 \<and> 0 \<notin> set xs"
proof (induction xs arbitrary: s)
  case Nil
  then show ?case by simp
next
  case (Cons x xs)
  show ?case by (auto simp: Cons.IH nth_Cons' less_Suc_eq_0_disj)
qed

lemma cstr_nth: "cstr m s xs \<Longrightarrow> i < length xs \<Longrightarrow> m (s + i) = xs ! i"
  by (simp add: cstr_iff)

lemma cstr_end: "cstr m s xs \<Longrightarrow> m (s + length xs) = 0"
  by (simp add: cstr_iff)

lemma cstr_no_nul: "cstr m s xs \<Longrightarrow> 0 \<notin> set xs"
  by (simp add: cstr_iff)

lemma cstr_unique: "cstr m s xs \<Longrightarrow> cstr m s ys \<Longrightarrow> xs = ys"
  by (induction xs arbitrary: s ys) (case_tac ys; auto)+

lemma cstr_cong:
  "(\<And>i. i \<le> length xs \<Longrightarrow> m' (s + i) = m (s + i)) \<Longrightarrow> cstr m' s xs = cstr m s xs"
  by (auto simp: cstr_iff)

lemma cstr_write: "0 \<notin> set xs \<Longrightarrow> cstr (write_bytes m d (xs @ [0])) d xs"
  by (auto simp: cstr_iff write_bytes_apply nth_append)

lemma cstr_write_other:
  "d + length ys \<le> s \<or> s + length xs < d \<Longrightarrow> cstr (write_bytes m d ys) s xs = cstr m s xs"
  by (rule cstr_cong) (auto simp: write_bytes_apply)

lemma cstr_drop: "cstr m s xs \<Longrightarrow> k \<le> length xs \<Longrightarrow> cstr m (s + k) (drop k xs)"
  by (auto simp: cstr_iff add.assoc dest: in_set_dropD)

lemma cstr_read: "cstr m s xs \<Longrightarrow> read_bytes m s (length xs) = xs"
  by (rule nth_equalityI) (simp_all add: cstr_iff)

section \<open>Checking a property of every byte\<close>

definition all_bytes :: "byte list" where
  "all_bytes =
    [0, 1, 2, 3, 4, 5, 6, 7, 8, 9, 10, 11, 12, 13, 14, 15, 16, 17, 18, 19, 20, 21, 22, 23, 24,
     25, 26, 27, 28, 29, 30, 31, 32, 33, 34, 35, 36, 37, 38, 39, 40, 41, 42, 43, 44, 45, 46,
     47, 48, 49, 50, 51, 52, 53, 54, 55, 56, 57, 58, 59, 60, 61, 62, 63, 64, 65, 66, 67, 68,
     69, 70, 71, 72, 73, 74, 75, 76, 77, 78, 79, 80, 81, 82, 83, 84, 85, 86, 87, 88, 89, 90,
     91, 92, 93, 94, 95, 96, 97, 98, 99, 100, 101, 102, 103, 104, 105, 106, 107, 108, 109, 110,
     111, 112, 113, 114, 115, 116, 117, 118, 119, 120, 121, 122, 123, 124, 125, 126, 127, 128,
     129, 130, 131, 132, 133, 134, 135, 136, 137, 138, 139, 140, 141, 142, 143, 144, 145, 146,
     147, 148, 149, 150, 151, 152, 153, 154, 155, 156, 157, 158, 159, 160, 161, 162, 163, 164,
     165, 166, 167, 168, 169, 170, 171, 172, 173, 174, 175, 176, 177, 178, 179, 180, 181, 182,
     183, 184, 185, 186, 187, 188, 189, 190, 191, 192, 193, 194, 195, 196, 197, 198, 199, 200,
     201, 202, 203, 204, 205, 206, 207, 208, 209, 210, 211, 212, 213, 214, 215, 216, 217, 218,
     219, 220, 221, 222, 223, 224, 225, 226, 227, 228, 229, 230, 231, 232, 233, 234, 235, 236,
     237, 238, 239, 240, 241, 242, 243, 244, 245, 246, 247, 248, 249, 250, 251, 252, 253, 254,
     255]"

lemma all_bytes_upt: "map of_nat [0..<256] = all_bytes"
  by (simp add: all_bytes_def upt_rec)

lemma length_all_bytes: "length all_bytes = 256"
  using arg_cong [OF all_bytes_upt, of length] by simp

lemma all_bytes_nth: "all_bytes ! unat (c :: byte) = c"
proof -
  have "unat c < 256" using unsigned_less [of c, where ?'a = nat] by simp
  then show ?thesis by (simp add: all_bytes_upt [symmetric])
qed

lemma word_le_1_iff [simp]: "(x :: 'a::len word) \<le> 1 \<longleftrightarrow> x = 0 \<or> x = 1"
proof -
  have "x \<le> 1 \<longleftrightarrow> unat x \<le> 1" by (simp add: word_le_nat_alt)
  also have "\<dots> \<longleftrightarrow> unat x = 0 \<or> unat x = 1" by arith
  also have "\<dots> \<longleftrightarrow> x = 0 \<or> x = 1" by (simp add: word_unat_eq_iff)
  finally show ?thesis .
qed

text \<open>A decidable property of bytes is checked by evaluation on the 256 literals.\<close>

lemma byte_all: "(\<forall>c. P c) \<longleftrightarrow> list_all P all_bytes"
proof
  assume all: "list_all P all_bytes"
  show "\<forall>c. P c"
  proof
    fix c :: byte
    have "unat c < length all_bytes"
      using unsigned_less [of c, where ?'a = nat] by (simp add: length_all_bytes)
    then have "P (all_bytes ! unat c)" using all by (simp add: list_all_length)
    then show "P c" by (simp add: all_bytes_nth)
  qed
qed (simp add: list_all_iff)

section \<open>Exclusive or\<close>

lemma xor_cancel [simp]: "((a :: 'a::len word) XOR b) XOR b = a" "b XOR (b XOR a) = a"
  by (simp_all add: xor.assoc)

lemma xor_right_cancel [simp]: "(a :: 'a::len word) XOR c = b XOR c \<longleftrightarrow> a = b"
  by (metis xor_cancel(1))

lemma xor_left_cancel [simp]: "(c :: 'a::len word) XOR a = c XOR b \<longleftrightarrow> a = b"
  by (metis xor_cancel(2))

lemma xor_eq_0_iff [simp]: "(a :: 'a::len word) XOR b = 0 \<longleftrightarrow> a = b"
  using xor_right_cancel [of a b b] by simp

text \<open>Text literals as bytes.\<close>

definition bytes :: "string \<Rightarrow> byte list" where
  "bytes s = map of_char s"

lemma bytes_Nil [simp]: "bytes [] = []"
  by (simp add: bytes_def)

lemma bytes_Cons [simp]: "bytes (c # s) = of_char c # bytes s"
  by (simp add: bytes_def)

end
