(* ===== verification/CType.thy ===== *)
theory CType imports Prelude begin

text \<open>
  Character classes: \<open>lib_generic/ctype.c\<close> (the table) and \<open>include/linux/ctype.h\<close> (the
  macros over it).
\<close>

section \<open>The table\<close>

definition ct_U :: byte where "ct_U = 0x01"
definition ct_L :: byte where "ct_L = 0x02"
definition ct_D :: byte where "ct_D = 0x04"
definition ct_C :: byte where "ct_C = 0x08"
definition ct_P :: byte where "ct_P = 0x10"
definition ct_S :: byte where "ct_S = 0x20"
definition ct_X :: byte where "ct_X = 0x40"
definition ct_SP :: byte where "ct_SP = 0x80"

definition ctype_table :: "byte list" where
  "ctype_table =
     [ct_C, ct_C, ct_C, ct_C, ct_C, ct_C, ct_C, ct_C] @
     [ct_C, ct_C OR ct_S, ct_C OR ct_S, ct_C OR ct_S, ct_C OR ct_S, ct_C OR ct_S, ct_C, ct_C] @
     [ct_C, ct_C, ct_C, ct_C, ct_C, ct_C, ct_C, ct_C] @
     [ct_C, ct_C, ct_C, ct_C, ct_C, ct_C, ct_C, ct_C] @
     [ct_S OR ct_SP, ct_P, ct_P, ct_P, ct_P, ct_P, ct_P, ct_P] @
     [ct_P, ct_P, ct_P, ct_P, ct_P, ct_P, ct_P, ct_P] @
     [ct_D, ct_D, ct_D, ct_D, ct_D, ct_D, ct_D, ct_D] @
     [ct_D, ct_D, ct_P, ct_P, ct_P, ct_P, ct_P, ct_P] @
     [ct_P, ct_U OR ct_X, ct_U OR ct_X, ct_U OR ct_X, ct_U OR ct_X, ct_U OR ct_X, ct_U OR ct_X,
      ct_U] @
     [ct_U, ct_U, ct_U, ct_U, ct_U, ct_U, ct_U, ct_U] @
     [ct_U, ct_U, ct_U, ct_U, ct_U, ct_U, ct_U, ct_U] @
     [ct_U, ct_U, ct_U, ct_P, ct_P, ct_P, ct_P, ct_P] @
     [ct_P, ct_L OR ct_X, ct_L OR ct_X, ct_L OR ct_X, ct_L OR ct_X, ct_L OR ct_X, ct_L OR ct_X,
      ct_L] @
     [ct_L, ct_L, ct_L, ct_L, ct_L, ct_L, ct_L, ct_L] @
     [ct_L, ct_L, ct_L, ct_L, ct_L, ct_L, ct_L, ct_L] @
     [ct_L, ct_L, ct_L, ct_P, ct_P, ct_P, ct_P, ct_C] @
     [0, 0, 0, 0, 0, 0, 0, 0, 0, 0, 0, 0, 0, 0, 0, 0] @
     [0, 0, 0, 0, 0, 0, 0, 0, 0, 0, 0, 0, 0, 0, 0, 0] @
     [ct_S OR ct_SP, ct_P, ct_P, ct_P, ct_P, ct_P, ct_P, ct_P, ct_P, ct_P, ct_P, ct_P, ct_P,
      ct_P, ct_P, ct_P] @
     [ct_P, ct_P, ct_P, ct_P, ct_P, ct_P, ct_P, ct_P, ct_P, ct_P, ct_P, ct_P, ct_P, ct_P, ct_P,
      ct_P] @
     [ct_U, ct_U, ct_U, ct_U, ct_U, ct_U, ct_U, ct_U, ct_U, ct_U, ct_U, ct_U, ct_U, ct_U, ct_U,
      ct_U] @
     [ct_U, ct_U, ct_U, ct_U, ct_U, ct_U, ct_U, ct_P, ct_U, ct_U, ct_U, ct_U, ct_U, ct_U, ct_U,
      ct_L] @
     [ct_L, ct_L, ct_L, ct_L, ct_L, ct_L, ct_L, ct_L, ct_L, ct_L, ct_L, ct_L, ct_L, ct_L, ct_L,
      ct_L] @
     [ct_L, ct_L, ct_L, ct_L, ct_L, ct_L, ct_L, ct_P, ct_L, ct_L, ct_L, ct_L, ct_L, ct_L, ct_L,
      ct_L]"

definition ismask :: "byte \<Rightarrow> byte" where
  "ismask x = ctype_table ! unat x"

section \<open>The macros\<close>

definition isalnum :: "byte \<Rightarrow> bool" where
  "isalnum c \<longleftrightarrow> ismask c AND (ct_U OR ct_L OR ct_D) \<noteq> 0"
definition isalpha :: "byte \<Rightarrow> bool" where
  "isalpha c \<longleftrightarrow> ismask c AND (ct_U OR ct_L) \<noteq> 0"
definition iscntrl :: "byte \<Rightarrow> bool" where
  "iscntrl c \<longleftrightarrow> ismask c AND ct_C \<noteq> 0"
definition isdigit :: "byte \<Rightarrow> bool" where
  "isdigit c \<longleftrightarrow> ismask c AND ct_D \<noteq> 0"
definition isgraph :: "byte \<Rightarrow> bool" where
  "isgraph c \<longleftrightarrow> ismask c AND (ct_P OR ct_U OR ct_L OR ct_D) \<noteq> 0"
definition islower :: "byte \<Rightarrow> bool" where
  "islower c \<longleftrightarrow> ismask c AND ct_L \<noteq> 0"
definition isprint :: "byte \<Rightarrow> bool" where
  "isprint c \<longleftrightarrow> ismask c AND (ct_P OR ct_U OR ct_L OR ct_D OR ct_SP) \<noteq> 0"
definition ispunct :: "byte \<Rightarrow> bool" where
  "ispunct c \<longleftrightarrow> ismask c AND ct_P \<noteq> 0"
definition isspace :: "byte \<Rightarrow> bool" where
  "isspace c \<longleftrightarrow> ismask c AND ct_S \<noteq> 0"
definition isupper :: "byte \<Rightarrow> bool" where
  "isupper c \<longleftrightarrow> ismask c AND ct_U \<noteq> 0"
definition isxdigit :: "byte \<Rightarrow> bool" where
  "isxdigit c \<longleftrightarrow> ismask c AND (ct_D OR ct_X) \<noteq> 0"

definition tolower :: "byte \<Rightarrow> byte" where
  "tolower c = (if isupper c then c - (of_char CHR ''A'' - of_char CHR ''a'') else c)"

definition toupper :: "byte \<Rightarrow> byte" where
  "toupper c = (if islower c then c - (of_char CHR ''a'' - of_char CHR ''A'') else c)"

lemmas ct_bits = ct_U_def ct_L_def ct_D_def ct_C_def ct_P_def ct_S_def ct_X_def ct_SP_def

lemmas ctype_defs = isalnum_def isalpha_def iscntrl_def isdigit_def isgraph_def islower_def
  isprint_def ispunct_def isspace_def isupper_def isxdigit_def tolower_def toupper_def

section \<open>What the classes are\<close>

lemma length_ctype_table: "length ctype_table = 256"
  by (simp add: ctype_table_def)

text \<open>The table covers every value an unsigned char can take: no read is out of range.\<close>

lemma ctype_table_range: "unat (c :: byte) < length ctype_table"
  using unsigned_less [of c, where ?'a = nat] by (simp add: length_ctype_table)

text \<open>
  One pass over the table decides every class as a set of code ranges; the word comparisons are
  the unsigned ones.
\<close>

definition upper_range :: "byte \<Rightarrow> bool" where
  "upper_range c \<longleftrightarrow> 0x41 \<le> c \<and> c \<le> 0x5A \<or> 0xC0 \<le> c \<and> c \<le> 0xDE \<and> c \<noteq> 0xD7"
definition lower_range :: "byte \<Rightarrow> bool" where
  "lower_range c \<longleftrightarrow> 0x61 \<le> c \<and> c \<le> 0x7A \<or> 0xDF \<le> c \<and> c \<noteq> 0xF7"

definition class_ranges :: "byte \<Rightarrow> byte \<Rightarrow> bool" where
  "class_ranges c f \<longleftrightarrow>
     ((f AND ct_D \<noteq> 0) = (0x30 \<le> c \<and> c \<le> 0x39)) \<and>
     ((f AND (ct_D OR ct_X) \<noteq> 0) =
        (0x30 \<le> c \<and> c \<le> 0x39 \<or> 0x41 \<le> c \<and> c \<le> 0x46 \<or> 0x61 \<le> c \<and> c \<le> 0x66)) \<and>
     ((f AND ct_U \<noteq> 0) = upper_range c) \<and>
     ((f AND ct_L \<noteq> 0) = lower_range c) \<and>
     ((f AND ct_S \<noteq> 0) = (c = 0x20 \<or> 0x09 \<le> c \<and> c \<le> 0x0D \<or> c = 0xA0))"

lemma class_ranges_table: "list_all2 class_ranges all_bytes ctype_table"
  by (simp add: all_bytes_def ctype_table_def ct_bits class_ranges_def upper_range_def lower_range_def)

lemma class_ranges_ismask: "class_ranges c (ismask c)"
proof -
  have "unat c < length all_bytes"
    using ctype_table_range [of c] by (simp add: length_ctype_table length_all_bytes)
  then have "class_ranges (all_bytes ! unat c) (ctype_table ! unat c)"
    using class_ranges_table by (rule list_all2_nthD [rotated])
  then show ?thesis by (simp add: ismask_def all_bytes_nth)
qed

lemma isdigit_iff: "isdigit c \<longleftrightarrow> 0x30 \<le> c \<and> c \<le> 0x39"
  using class_ranges_ismask [of c] by (simp add: class_ranges_def isdigit_def)

lemma isxdigit_iff:
  "isxdigit c \<longleftrightarrow> 0x30 \<le> c \<and> c \<le> 0x39 \<or> 0x41 \<le> c \<and> c \<le> 0x46 \<or> 0x61 \<le> c \<and> c \<le> 0x66"
  using class_ranges_ismask [of c] by (simp add: class_ranges_def isxdigit_def)

lemma isupper_iff: "isupper c \<longleftrightarrow> upper_range c"
  using class_ranges_ismask [of c] by (simp add: class_ranges_def isupper_def)

lemma islower_iff: "islower c \<longleftrightarrow> lower_range c"
  using class_ranges_ismask [of c] by (simp add: class_ranges_def islower_def)

lemma isspace_iff: "isspace c \<longleftrightarrow> c = 0x20 \<or> 0x09 \<le> c \<and> c \<le> 0x0D \<or> c = 0xA0"
  using class_ranges_ismask [of c] by (simp add: class_ranges_def isspace_def)

text \<open>
  Upper and lower case over the whole Latin-1 table: the two maps are inverse on letters with a
  partner. Two lower-case letters of the table have no upper-case partner in it: 0xDF (sharp s)
  maps to 0xBF and 0xFF (y diaeresis) to 0xDF.
\<close>

definition case_laws :: "byte \<Rightarrow> bool" where
  "case_laws c \<longleftrightarrow>
     (upper_range c \<longrightarrow> lower_range (c + 32)) \<and>
     (lower_range c \<longrightarrow> c \<noteq> 0xDF \<longrightarrow> c \<noteq> 0xFF \<longrightarrow> upper_range (c - 32)) \<and>
     (lower_range c \<longrightarrow> \<not> upper_range c)"

lemma case_laws: "case_laws c"
  unfolding case_laws_def upper_range_def lower_range_def
  apply unat_arith
  apply simp
  apply presburger
  done

lemma tolower_range: "tolower c = (if upper_range c then c + 32 else c)"
  by (simp add: tolower_def isupper_iff)

lemma toupper_range: "toupper c = (if lower_range c then c - 32 else c)"
  by (simp add: toupper_def islower_iff)

lemma tolower_idem: "tolower (tolower c) = tolower c"
  using case_laws [of c] case_laws [of "c + 32"] by (auto simp: tolower_range case_laws_def)

lemma toupper_tolower: "isupper c \<Longrightarrow> toupper (tolower c) = c"
  using case_laws [of c] by (simp add: toupper_range tolower_range case_laws_def isupper_iff)

lemma tolower_toupper: "islower c \<Longrightarrow> c \<noteq> 0xDF \<Longrightarrow> c \<noteq> 0xFF \<Longrightarrow> tolower (toupper c) = c"
  using case_laws [of c] by (simp add: toupper_range tolower_range case_laws_def islower_iff)

lemma isalnum_iff: "isalnum c \<longleftrightarrow> isalpha c \<or> isdigit c"
  by (simp add: ctype_defs bit.conj_disj_distrib or_eq_0_iff) blast

end
