(* ===== verification/CMem.thy ===== *)
theory CMem imports Prelude begin

text \<open>
  The block operations of \<open>lib_generic/string.c\<close>: \<open>memset\<close>, \<open>bcopy\<close>, \<open>memcpy\<close>, \<open>memmove\<close>,
  \<open>memcmp\<close>, \<open>memscan\<close>, \<open>memchr\<close>. Each loop reads the memory it has itself already written,
  so overlapping areas behave as in the code.
\<close>

section \<open>Operations\<close>

primrec memset_loop :: "nat \<Rightarrow> mem \<Rightarrow> nat \<Rightarrow> byte \<Rightarrow> mem" where
  "memset_loop 0 m xs c = m"
| "memset_loop (Suc count) m xs c = memset_loop count (m(xs := c)) (Suc xs) c"

text \<open>The \<open>int c\<close> is truncated by the store \<open>*xs++ = c\<close>.\<close>

definition memset :: "mem \<Rightarrow> nat \<Rightarrow> u32 \<Rightarrow> nat \<Rightarrow> mem \<times> nat" where
  "memset m s c count = (memset_loop count m s (ucast c), s)"

primrec copy_up :: "nat \<Rightarrow> mem \<Rightarrow> nat \<Rightarrow> nat \<Rightarrow> mem" where
  "copy_up 0 m tmp s = m"
| "copy_up (Suc count) m tmp s = copy_up count (m(tmp := m s)) (Suc tmp) (Suc s)"

primrec copy_down :: "nat \<Rightarrow> mem \<Rightarrow> nat \<Rightarrow> nat \<Rightarrow> mem" where
  "copy_down 0 m tmp s = m"
| "copy_down (Suc count) m tmp s =
     copy_down count (m(tmp - 1 := m (s - 1))) (tmp - 1) (s - 1)"

text \<open>
  \<open>bcopy\<close> takes a signed \<open>int count\<close> and stops when it reaches 0: a negative count runs through
  \<open>2 ^ 32 + count\<close> bytes, which is the unsigned reading of the word.
\<close>

definition bcopy :: "mem \<Rightarrow> nat \<Rightarrow> nat \<Rightarrow> u32 \<Rightarrow> mem \<times> nat" where
  "bcopy m src dest count = (copy_up (unat count) m dest src, dest)"

definition memcpy :: "mem \<Rightarrow> nat \<Rightarrow> nat \<Rightarrow> nat \<Rightarrow> mem \<times> nat" where
  "memcpy m dest src count = (copy_up count m dest src, dest)"

definition memmove :: "mem \<Rightarrow> nat \<Rightarrow> nat \<Rightarrow> nat \<Rightarrow> mem \<times> nat" where
  "memmove m dest src count =
     (if dest \<le> src then (copy_up count m dest src, dest)
      else (copy_down count m (dest + count) (src + count), dest))"

primrec memcmp :: "mem \<Rightarrow> nat \<Rightarrow> nat \<Rightarrow> nat \<Rightarrow> int" where
  "memcmp m su1 su2 0 = 0"
| "memcmp m su1 su2 (Suc count) =
     (let res = int (unat (m su1)) - int (unat (m su2))
      in if res \<noteq> 0 then res else memcmp m (Suc su1) (Suc su2) count)"

text \<open>\<open>memscan\<close> compares with the whole \<open>int c\<close>, \<open>memchr\<close> with \<open>(unsigned char) c\<close>.\<close>

primrec memscan :: "mem \<Rightarrow> nat \<Rightarrow> int \<Rightarrow> nat \<Rightarrow> nat" where
  "memscan m p c 0 = p"
| "memscan m p c (Suc sz) =
     (if int (unat (m p)) = c then p else memscan m (Suc p) c sz)"

primrec memchr_loop :: "mem \<Rightarrow> nat \<Rightarrow> byte \<Rightarrow> nat \<Rightarrow> nat" where
  "memchr_loop m p c 0 = NULL"
| "memchr_loop m p c (Suc n) = (if c = m p then p else memchr_loop m (Suc p) c n)"

definition memchr :: "mem \<Rightarrow> nat \<Rightarrow> u32 \<Rightarrow> nat \<Rightarrow> nat" where
  "memchr m s c n = memchr_loop m s (ucast c) n"

section \<open>Filling and copying\<close>

lemma memset_loop_write: "memset_loop n m s c = write_bytes m s (replicate n c)"
  by (induction n arbitrary: m s) simp_all

lemma memset_correct: "memset m s c n = (write_bytes m s (replicate n (ucast c)), s)"
  by (simp add: memset_def memset_loop_write)

lemma read_bytes_upd_before: "a < s \<Longrightarrow> read_bytes (m(a := x)) s n = read_bytes m s n"
  by (simp add: read_bytes_def)

lemma copy_up_write:
  "\<not> (s < d \<and> d < s + n) \<Longrightarrow> copy_up n m d s = write_bytes m d (read_bytes m s n)"
proof (induction n arbitrary: m d s)
  case 0
  then show ?case by simp
next
  case (Suc n)
  from Suc.prems consider "d \<le> s" | "s + Suc n \<le> d" by linarith
  then have same: "read_bytes (m(d := m s)) (Suc s) n = read_bytes m (Suc s) n"
    by cases (auto simp: read_bytes_def)
  have "copy_up n (m(d := m s)) (Suc d) (Suc s)
      = write_bytes (m(d := m s)) (Suc d) (read_bytes (m(d := m s)) (Suc s) n)"
    using Suc.prems by (intro Suc.IH) linarith
  then show ?case by (simp add: read_bytes_Suc same)
qed

lemma read_bytes_snoc: "read_bytes m s (Suc n) = read_bytes m s n @ [m (s + n)]"
  by (simp add: read_bytes_def)

lemma write_bytes_upd_after:
  "d + length xs \<le> a \<Longrightarrow> write_bytes (m(a := x)) d xs = (write_bytes m d xs)(a := x)"
  by (rule ext) (auto simp: write_bytes_apply)

lemma copy_down_write:
  "s \<le> d \<Longrightarrow> copy_down n m (d + n) (s + n) = write_bytes m d (read_bytes m s n)"
proof (induction n arbitrary: m)
  case 0
  then show ?case by simp
next
  case (Suc n)
  let ?m = "m(d + n := m (s + n))"
  have "copy_down (Suc n) m (d + Suc n) (s + Suc n) = copy_down n ?m (d + n) (s + n)"
    by simp
  also have "\<dots> = write_bytes ?m d (read_bytes ?m s n)"
    using Suc.prems by (rule Suc.IH)
  also have "read_bytes ?m s n = read_bytes m s n"
    using Suc.prems by (auto simp: read_bytes_def)
  also have "write_bytes ?m d (read_bytes m s n) = write_bytes m d (read_bytes m s (Suc n))"
    by (simp add: write_bytes_upd_after read_bytes_snoc write_bytes_snoc)
  finally show ?case .
qed

lemma memcpy_correct:
  "\<not> (src < dest \<and> dest < src + n) \<Longrightarrow>
   memcpy m dest src n = (write_bytes m dest (read_bytes m src n), dest)"
  by (simp add: memcpy_def copy_up_write)

lemma bcopy_correct:
  "\<not> (src < dest \<and> dest < src + unat n) \<Longrightarrow>
   bcopy m src dest n = (write_bytes m dest (read_bytes m src (unat n)), dest)"
  by (simp add: bcopy_def copy_up_write)

lemma memmove_correct: "memmove m dest src n = (write_bytes m dest (read_bytes m src n), dest)"
  by (simp add: memmove_def copy_up_write copy_down_write)

text \<open>An overlap that \<open>memcpy\<close> does not handle: one byte up, it smears the first byte.\<close>

lemma copy_up_smear: "copy_up n m (Suc s) s = write_bytes m (Suc s) (replicate n (m s))"
proof (induction n arbitrary: m s)
  case 0
  then show ?case by simp
next
  case (Suc n)
  show ?case by (simp add: Suc.IH fun_upd_def)
qed

section \<open>Comparing and searching\<close>

lemma memcmp_eq_0: "memcmp m a b n = 0 \<longleftrightarrow> read_bytes m a n = read_bytes m b n"
proof (induction n arbitrary: a b)
  case 0
  then show ?case by simp
next
  case (Suc n)
  then show ?case by (auto simp: read_bytes_Suc Let_def word_uint_eq_iff)
qed

text \<open>The sign is that of the first differing byte, read as unsigned.\<close>

lemma memcmp_less_0:
  "memcmp m a b n < 0 \<longleftrightarrow>
     (\<exists>i < n. read_bytes m a i = read_bytes m b i \<and> m (a + i) < m (b + i))"
proof (induction n arbitrary: a b)
  case 0
  then show ?case by simp
next
  case (Suc n)
  have ex: "(\<exists>i < Suc n. P i) \<longleftrightarrow> P 0 \<or> (\<exists>i < n. P (Suc i))" for P
    by (metis less_Suc_eq_0_disj)
  show ?case
    by (auto simp: ex Suc.IH read_bytes_Suc Let_def word_less_def word_uint_eq_iff)
qed

text \<open>
  Both searches find the first match: the length of the unmatched prefix is what they skip.
\<close>

lemma memscan_prefix:
  "memscan m p c n = p + length (takeWhile (\<lambda>x. int (unat x) \<noteq> c) (read_bytes m p n))"
  by (induction n arbitrary: p) (auto simp: read_bytes_Suc)

lemma memchr_loop_cases:
  "memchr_loop m p c n =
     (if c \<in> set (read_bytes m p n) then p + length (takeWhile (\<lambda>x. x \<noteq> c) (read_bytes m p n)) else NULL)"
  by (induction n arbitrary: p) (auto simp: read_bytes_Suc)

lemma memchr_cases:
  "memchr m s c n =
     (if ucast c \<in> set (read_bytes m s n)
      then s + length (takeWhile (\<lambda>x. x \<noteq> ucast c) (read_bytes m s n)) else NULL)"
  by (simp add: memchr_def memchr_loop_cases)

section \<open>Properties\<close>

text \<open>
  C22. \<open>memmove\<close> is right for every pair of areas, overlapping or not: the destination ends up with
  the bytes the source held before the call, and no other byte of the memory changes.
\<close>

theorem memmove_overlap:
  "memmove m dest src n = (write_bytes m dest (read_bytes m src n), dest) \<and>
   read_bytes (fst (memmove m dest src n)) dest n = read_bytes m src n"
proof -
  have "read_bytes (write_bytes m dest (read_bytes m src n)) dest n = read_bytes m src n"
    using read_write_bytes [of m dest "read_bytes m src n"] by simp
  then show ?thesis by (simp add: memmove_correct)
qed

text \<open>
  \<open>memcmp\<close> is the lexicographic order on unsigned bytes: it is 0 exactly when the areas agree
  and negative exactly when, at the first difference, the first area has the smaller byte.
\<close>

theorem memcmp_order:
  "(memcmp m a b n = 0 \<longleftrightarrow> read_bytes m a n = read_bytes m b n) \<and>
   (memcmp m a b n < 0 \<longleftrightarrow>
      (\<exists>i < n. read_bytes m a i = read_bytes m b i \<and> m (a + i) < m (b + i)))"
  by (simp add: memcmp_eq_0 memcmp_less_0)

end
