(* ===== verification/CString.thy ===== *)
theory CString imports CMem CType "HOL-Library.Sublist" begin

text \<open>
  The NUL-terminated string operations of \<open>lib_generic/string.c\<close>.

  A loop that runs until it meets a NUL need not stop, so it is a \<open>partial_function (option)\<close>:
  \<open>None\<close> means that the loop does not return. The lemmas show that it returns, and what, whenever
  a string stands where the code expects one (\<open>cstr\<close>). A \<open>char\<close> is a byte; where the code
  subtracts two chars the result is truncated to \<open>signed char\<close>, so the signedness of \<open>char\<close>
  (which differs between the ports) does not matter.
\<close>

section \<open>Operations\<close>

subsection \<open>Lengths\<close>

partial_function (option) strlen_loop :: "mem \<Rightarrow> nat \<Rightarrow> nat option" where
  "strlen_loop m sc = (if m sc \<noteq> 0 then strlen_loop m (Suc sc) else Some sc)"

definition strlen :: "mem \<Rightarrow> nat \<Rightarrow> nat option" where
  "strlen m s = map_option (\<lambda>sc. sc - s) (strlen_loop m s)"

fun strnlen_loop :: "mem \<Rightarrow> nat \<Rightarrow> nat \<Rightarrow> nat" where
  "strnlen_loop m sc count =
     (if count \<noteq> 0 \<and> m sc \<noteq> 0 then strnlen_loop m (Suc sc) (count - 1) else sc)"

declare strnlen_loop.simps [simp del]

definition strnlen :: "mem \<Rightarrow> nat \<Rightarrow> nat \<Rightarrow> nat" where
  "strnlen m s count = strnlen_loop m s count - s"

subsection \<open>Copying and appending\<close>

partial_function (option) strcpy_loop :: "mem \<Rightarrow> nat \<Rightarrow> nat \<Rightarrow> mem option" where
  "strcpy_loop m dest src =
     (let c = m src; m' = m(dest := c)
      in if c \<noteq> 0 then strcpy_loop m' (Suc dest) (Suc src) else Some m')"

definition strcpy :: "mem \<Rightarrow> nat \<Rightarrow> nat \<Rightarrow> (mem \<times> nat) option" where
  "strcpy m dest src = map_option (\<lambda>m'. (m', dest)) (strcpy_loop m dest src)"

fun strncpy_loop :: "mem \<Rightarrow> nat \<Rightarrow> nat \<Rightarrow> nat \<Rightarrow> mem" where
  "strncpy_loop m dest src count =
     (if count \<noteq> 0
      then let c = m src; m' = m(dest := c)
           in if c \<noteq> 0 then strncpy_loop m' (Suc dest) (Suc src) (count - 1) else m'
      else m)"

declare strncpy_loop.simps [simp del]

definition strncpy :: "mem \<Rightarrow> nat \<Rightarrow> nat \<Rightarrow> nat \<Rightarrow> mem \<times> nat" where
  "strncpy m dest src count = (strncpy_loop m dest src count, dest)"

definition strcat :: "mem \<Rightarrow> nat \<Rightarrow> nat \<Rightarrow> (mem \<times> nat) option" where
  "strcat m dest src =
     Option.bind (strlen_loop m dest)
       (\<lambda>e. map_option (\<lambda>m'. (m', dest)) (strcpy_loop m e src))"

fun strncat_loop :: "mem \<Rightarrow> nat \<Rightarrow> nat \<Rightarrow> nat \<Rightarrow> mem" where
  "strncat_loop m dest src count =
     (let c = m src; m' = m(dest := c)
      in if c = 0 then m'
         else if count \<le> 1 then m'(Suc dest := 0)
         else strncat_loop m' (Suc dest) (Suc src) (count - 1))"

declare strncat_loop.simps [simp del]

text \<open>The loop is entered with \<open>count\<close> at least 1, so \<open>--count == 0\<close> is \<open>count \<le> 1\<close>.\<close>

definition strncat :: "mem \<Rightarrow> nat \<Rightarrow> nat \<Rightarrow> nat \<Rightarrow> (mem \<times> nat) option" where
  "strncat m dest src count =
     (if count \<noteq> 0
      then map_option (\<lambda>e. (strncat_loop m e src count, dest)) (strlen_loop m dest)
      else Some (m, dest))"

text \<open>\<open>malloc\<close> is the allocator of the C library part of the program; it returns NULL or a block.\<close>

definition strdup :: "(nat \<Rightarrow> nat) \<Rightarrow> mem \<Rightarrow> nat \<Rightarrow> (mem \<times> nat) option" where
  "strdup malloc m s =
     (if s = NULL then Some (m, NULL)
      else Option.bind (strlen m s) (\<lambda>l.
        let new = malloc (l + 1)
        in if new = NULL then Some (m, NULL)
           else map_option (\<lambda>(m', _). (m', new)) (strcpy m new s)))"

subsection \<open>Comparing\<close>

fun strnicmp_loop :: "mem \<Rightarrow> nat \<Rightarrow> nat \<Rightarrow> nat \<Rightarrow> byte \<times> byte \<Rightarrow> byte \<times> byte" where
  "strnicmp_loop m s1 s2 len cs =
     (if len = 0 then cs
      else let c1 = m s1; c2 = m s2
           in if c1 = 0 \<or> c2 = 0 then (c1, c2)
              else if c1 = c2 then strnicmp_loop m (Suc s1) (Suc s2) (len - 1) (c1, c2)
              else if tolower c1 \<noteq> tolower c2 then (tolower c1, tolower c2)
              else strnicmp_loop m (Suc s1) (Suc s2) (len - 1) (tolower c1, tolower c2))"

declare strnicmp_loop.simps [simp del]

definition strnicmp :: "mem \<Rightarrow> nat \<Rightarrow> nat \<Rightarrow> nat \<Rightarrow> int" where
  "strnicmp m s1 s2 len =
     (case strnicmp_loop m s1 s2 len (0, 0) of (c1, c2) \<Rightarrow> int (unat c1) - int (unat c2))"

partial_function (option) strcmp_loop :: "mem \<Rightarrow> nat \<Rightarrow> nat \<Rightarrow> byte option" where
  "strcmp_loop m cs ct =
     (let res = m cs - m ct
      in if res \<noteq> 0 \<or> m cs = 0 then Some res else strcmp_loop m (Suc cs) (Suc ct))"

definition strcmp :: "mem \<Rightarrow> nat \<Rightarrow> nat \<Rightarrow> int option" where
  "strcmp m cs ct = map_option sint (strcmp_loop m cs ct)"

fun strncmp_loop :: "mem \<Rightarrow> nat \<Rightarrow> nat \<Rightarrow> nat \<Rightarrow> byte \<Rightarrow> byte" where
  "strncmp_loop m cs ct count res0 =
     (if count = 0 then res0
      else let res = m cs - m ct
           in if res \<noteq> 0 \<or> m cs = 0 then res
              else strncmp_loop m (Suc cs) (Suc ct) (count - 1) res)"

declare strncmp_loop.simps [simp del]

definition strncmp :: "mem \<Rightarrow> nat \<Rightarrow> nat \<Rightarrow> nat \<Rightarrow> int" where
  "strncmp m cs ct count = sint (strncmp_loop m cs ct count 0)"

subsection \<open>Searching\<close>

partial_function (option) strchr_loop :: "mem \<Rightarrow> nat \<Rightarrow> byte \<Rightarrow> nat option" where
  "strchr_loop m s c =
     (if m s \<noteq> c then (if m s = 0 then Some NULL else strchr_loop m (Suc s) c) else Some s)"

definition strchr :: "mem \<Rightarrow> nat \<Rightarrow> u32 \<Rightarrow> nat option" where
  "strchr m s c = strchr_loop m s (ucast c)"

text \<open>\<open>--p >= s\<close> holds iff \<open>p > s\<close> before the decrement.\<close>

fun strrchr_loop :: "mem \<Rightarrow> nat \<Rightarrow> byte \<Rightarrow> nat \<Rightarrow> nat" where
  "strrchr_loop m s c p = (if m p = c then p else if s < p then strrchr_loop m s c (p - 1) else NULL)"

declare strrchr_loop.simps [simp del]

definition strrchr :: "mem \<Rightarrow> nat \<Rightarrow> u32 \<Rightarrow> nat option" where
  "strrchr m s c = map_option (\<lambda>l. strrchr_loop m s (ucast c) (s + l)) (strlen m s)"

text \<open>The inner loop over \<open>accept\<close> (\<open>ct\<close>): it stops at the match or at the NUL.\<close>

partial_function (option) accept_loop :: "mem \<Rightarrow> byte \<Rightarrow> nat \<Rightarrow> nat option" where
  "accept_loop m c a =
     (if m a \<noteq> 0 then (if c = m a then Some a else accept_loop m c (Suc a)) else Some a)"

partial_function (option) strspn_loop :: "mem \<Rightarrow> nat \<Rightarrow> nat \<Rightarrow> nat \<Rightarrow> nat option" where
  "strspn_loop m accept p count =
     (if m p \<noteq> 0
      then Option.bind (accept_loop m (m p) accept)
             (\<lambda>a. if m a = 0 then Some count else strspn_loop m accept (Suc p) (Suc count))
      else Some count)"

definition strspn :: "mem \<Rightarrow> nat \<Rightarrow> nat \<Rightarrow> nat option" where
  "strspn m s accept = strspn_loop m accept s 0"

partial_function (option) strpbrk :: "mem \<Rightarrow> nat \<Rightarrow> nat \<Rightarrow> nat option" where
  "strpbrk m sc1 ct =
     (if m sc1 \<noteq> 0
      then Option.bind (accept_loop m (m sc1) ct)
             (\<lambda>sc2. if m sc2 \<noteq> 0 then Some sc1 else strpbrk m (Suc sc1) ct)
      else Some NULL)"

fun strstr_loop :: "mem \<Rightarrow> nat \<Rightarrow> nat \<Rightarrow> nat \<Rightarrow> nat \<Rightarrow> nat" where
  "strstr_loop m s1 s2 l1 l2 =
     (if l2 \<le> l1 \<and> 0 < l1
      then if memcmp m s1 s2 l2 = 0 then s1 else strstr_loop m (Suc s1) s2 (l1 - 1) l2
      else NULL)"

declare strstr_loop.simps [simp del]

text \<open>The loop runs with \<open>l2 > 0\<close>, so its guard \<open>l1 >= l2\<close> implies \<open>0 < l1\<close>.\<close>

definition strstr :: "mem \<Rightarrow> nat \<Rightarrow> nat \<Rightarrow> nat option" where
  "strstr m s1 s2 =
     Option.bind (strlen m s2) (\<lambda>l2.
       if l2 = 0 then Some s1
       else map_option (\<lambda>l1. strstr_loop m s1 s2 l1 l2) (strlen m s1))"

subsection \<open>Tokens\<close>

text \<open>
  \<open>strtok\<close> keeps its position in the global \<open>___strtok\<close>, passed and returned here; \<open>strsep\<close> in
  the caller's \<open>*s\<close>. The result is the memory, the new position and the token.
\<close>

definition strtok :: "mem \<Rightarrow> nat \<Rightarrow> nat \<Rightarrow> nat \<Rightarrow> (mem \<times> nat \<times> nat) option" where
  "strtok m save s ct =
     (let sbegin = (if s \<noteq> NULL then s else save)
      in if sbegin = NULL then Some (m, save, NULL)
         else Option.bind (strspn m sbegin ct) (\<lambda>n.
           let sbegin = sbegin + n
           in if m sbegin = 0 then Some (m, NULL, NULL)
              else map_option
                (\<lambda>send. if send \<noteq> NULL \<and> m send \<noteq> 0
                        then (m(send := 0), Suc send, sbegin) else (m, send, sbegin))
                (strpbrk m sbegin ct)))"

definition strsep :: "mem \<Rightarrow> nat \<Rightarrow> nat \<Rightarrow> (mem \<times> nat \<times> nat) option" where
  "strsep m s ct =
     (if s = NULL then Some (m, s, NULL)
      else map_option
        (\<lambda>e. if e \<noteq> NULL then (m(e := 0), Suc e, s) else (m, e, s))
        (strpbrk m s ct))"

partial_function (option) strswab_loop :: "mem \<Rightarrow> nat \<Rightarrow> nat \<Rightarrow> mem option" where
  "strswab_loop m p q =
     (if m p \<noteq> 0 \<and> m q \<noteq> 0
      then let tmp = m p; m1 = m(p := m q); m2 = m1(q := tmp) in strswab_loop m2 (p + 2) (q + 2)
      else Some m)"

definition strswab :: "mem \<Rightarrow> nat \<Rightarrow> (mem \<times> nat) option" where
  "strswab m s =
     (if s = NULL \<or> m s = 0 then Some (m, NULL)
      else map_option (\<lambda>m'. (m', s)) (strswab_loop m s (s + 1)))"

section \<open>Lengths\<close>

lemma strlen_loop_cstr: "cstr m s xs \<Longrightarrow> strlen_loop m s = Some (s + length xs)"
  by (induction xs arbitrary: s) (auto simp: strlen_loop.simps)

lemma strlen_cstr: "cstr m s xs \<Longrightarrow> strlen m s = Some (length xs)"
  by (simp add: strlen_def strlen_loop_cstr)

lemma strnlen_loop_cstr: "cstr m s xs \<Longrightarrow> strnlen_loop m s n = s + min n (length xs)"
proof (induction xs arbitrary: s n)
  case Nil
  then show ?case by (simp add: strnlen_loop.simps)
next
  case (Cons x xs)
  then show ?case by (cases n) (auto simp: strnlen_loop.simps [of m s])
qed

lemma strnlen_cstr: "cstr m s xs \<Longrightarrow> strnlen m s n = min n (length xs)"
  by (simp add: strnlen_def strnlen_loop_cstr)

section \<open>Copying and appending\<close>

text \<open>The destination may not start inside the source, past its first byte.\<close>

lemma strcpy_loop_cstr:
  "cstr m s xs \<Longrightarrow> \<not> (s < d \<and> d \<le> s + length xs) \<Longrightarrow>
   strcpy_loop m d s = Some (write_bytes m d (xs @ [0]))"
proof (induction xs arbitrary: m s d)
  case Nil
  then show ?case by (simp add: strcpy_loop.simps Let_def fun_upd_def)
next
  case (Cons x xs)
  let ?m = "m(d := x)"
  have "cstr ?m (Suc s) xs = cstr m (Suc s) xs"
    using Cons.prems(2) by (intro cstr_cong) auto
  with Cons.prems have "strcpy_loop ?m (Suc d) (Suc s) = Some (write_bytes ?m (Suc d) (xs @ [0]))"
    by (intro Cons.IH) (auto simp: fun_upd_def)
  with Cons.prems show ?case by (simp add: strcpy_loop.simps [of m] Let_def fun_upd_def)
qed

lemma strcpy_cstr:
  "cstr m s xs \<Longrightarrow> \<not> (s < d \<and> d \<le> s + length xs) \<Longrightarrow>
   strcpy m d s = Some (write_bytes m d (xs @ [0]), d)"
  by (simp add: strcpy_def strcpy_loop_cstr)

lemma strncpy_loop_cstr:
  "cstr m s xs \<Longrightarrow> \<not> (s < d \<and> d \<le> s + length xs) \<Longrightarrow>
   strncpy_loop m d s n = write_bytes m d (take n (xs @ [0]))"
proof (induction xs arbitrary: m s d n)
  case Nil
  then show ?case by (cases n) (simp_all add: strncpy_loop.simps Let_def fun_upd_def)
next
  case (Cons x xs)
  show ?case
  proof (cases n)
    case 0
    then show ?thesis by (simp add: strncpy_loop.simps)
  next
    case (Suc k)
    let ?m = "m(d := x)"
    have "cstr ?m (Suc s) xs = cstr m (Suc s) xs"
      using Cons.prems(2) by (intro cstr_cong) auto
    with Cons.prems have "strncpy_loop ?m (Suc d) (Suc s) k = write_bytes ?m (Suc d) (take k (xs @ [0]))"
      by (intro Cons.IH) (auto simp: fun_upd_def)
    with Cons.prems Suc show ?thesis by (simp add: strncpy_loop.simps [of m] Let_def fun_upd_def)
  qed
qed

lemma strncpy_cstr:
  "cstr m s xs \<Longrightarrow> \<not> (s < d \<and> d \<le> s + length xs) \<Longrightarrow>
   strncpy m d s n = (write_bytes m d (take n (xs @ [0])), d)"
  by (simp add: strncpy_def strncpy_loop_cstr)

text \<open>The appended string may not overlap the place it is written to.\<close>

lemma strcat_cstr:
  assumes "cstr m d xs" and "cstr m s ys"
    and "\<not> (s < d + length xs \<and> d + length xs \<le> s + length ys)"
  shows "strcat m d s = Some (write_bytes m (d + length xs) (ys @ [0]), d)"
  using assms by (simp add: strcat_def strlen_loop_cstr strcpy_loop_cstr)

lemma strncat_loop_cstr:
  "cstr m s ys \<Longrightarrow> \<not> (s < d \<and> d \<le> s + length ys) \<Longrightarrow> n \<noteq> 0 \<Longrightarrow>
   strncat_loop m d s n = write_bytes m d (take n ys @ [0])"
proof (induction ys arbitrary: m s d n)
  case Nil
  then show ?case by (simp add: strncat_loop.simps Let_def fun_upd_def)
next
  case (Cons y ys)
  show ?case
  proof (cases "n \<le> 1")
    case True
    with Cons.prems have "n = 1" by simp
    with Cons.prems show ?thesis by (simp add: strncat_loop.simps Let_def fun_upd_def)
  next
    case False
    then obtain k where k: "n = Suc k" "k \<noteq> 0" by (cases n) auto
    let ?m = "m(d := y)"
    have "cstr ?m (Suc s) ys = cstr m (Suc s) ys"
      using Cons.prems(2) by (intro cstr_cong) auto
    with Cons.prems k have "strncat_loop ?m (Suc d) (Suc s) k = write_bytes ?m (Suc d) (take k ys @ [0])"
      by (intro Cons.IH) (auto simp: fun_upd_def)
    with Cons.prems k show ?thesis by (simp add: strncat_loop.simps [of m] Let_def fun_upd_def)
  qed
qed

lemma strncat_cstr:
  assumes "cstr m d xs" and "cstr m s ys" and "n \<noteq> 0"
    and "\<not> (s < d + length xs \<and> d + length xs \<le> s + length ys)"
  shows "strncat m d s n = Some (write_bytes m (d + length xs) (take n ys @ [0]), d)"
  using assms by (simp add: strncat_def strlen_loop_cstr strncat_loop_cstr)

text \<open>What the appended memory holds, and that the source is kept.\<close>

lemma cstr_append:
  assumes "cstr m d xs" and "0 \<notin> set zs"
  shows "cstr (write_bytes m (d + length xs) (zs @ [0])) d (xs @ zs)"
  using assms by (auto simp: cstr_iff write_bytes_apply nth_append)

lemma strdup_cstr:
  assumes "cstr m s xs" and "s \<noteq> NULL" and "malloc (length xs + 1) \<noteq> NULL"
    and "malloc (length xs + 1) + length xs < s \<or> s + length xs < malloc (length xs + 1)"
  shows "strdup malloc m s = Some (write_bytes m (malloc (length xs + 1)) (xs @ [0]), malloc (length xs + 1))"
proof -
  have "strcpy m (malloc (length xs + 1)) s
      = Some (write_bytes m (malloc (length xs + 1)) (xs @ [0]), malloc (length xs + 1))"
    using assms by (intro strcpy_cstr) auto
  with assms show ?thesis by (simp add: strdup_def strlen_cstr Let_def)
qed

section \<open>Comparing\<close>

lemma strcmp_loop_cstr:
  "cstr m a xs \<Longrightarrow> cstr m b ys \<Longrightarrow>
   \<exists>r. strcmp_loop m a b = Some r \<and> (r = 0 \<longleftrightarrow> xs = ys)"
proof (induction xs arbitrary: a b ys)
  case Nil
  then show ?case by (cases ys) (auto simp: strcmp_loop.simps Let_def)
next
  case (Cons x xs)
  show ?case
  proof (cases ys)
    case Nil
    with Cons.prems show ?thesis by (simp add: strcmp_loop.simps Let_def)
  next
    case (Cons y ys')
    show ?thesis
    proof (cases "x = y")
      case False
      with Cons Cons.prems show ?thesis by (simp add: strcmp_loop.simps Let_def)
    next
      case True
      with Cons Cons.prems Cons.IH [of "Suc a" "Suc b" ys'] show ?thesis
        by (simp add: strcmp_loop.simps [of m a b] Let_def)
    qed
  qed
qed

lemma sint_eq_0_iff: "sint (w :: 'a::len word) = 0 \<longleftrightarrow> w = 0"
  by (metis signed_0 signed_word_eqI)

lemma strcmp_eq_0:
  assumes "cstr m a xs" and "cstr m b ys"
  shows "\<exists>r. strcmp m a b = Some r \<and> (r = 0 \<longleftrightarrow> xs = ys)"
proof -
  obtain r where "strcmp_loop m a b = Some r" "r = 0 \<longleftrightarrow> xs = ys"
    using strcmp_loop_cstr [OF assms] by blast
  then show ?thesis by (simp add: strcmp_def sint_eq_0_iff)
qed

lemma strncmp_loop_cstr:
  "cstr m a xs \<Longrightarrow> cstr m b ys \<Longrightarrow>
   strncmp_loop m a b n 0 = 0 \<longleftrightarrow> take n xs = take n ys"
proof (induction xs arbitrary: a b ys n)
  case Nil
  then show ?case by (cases ys; cases n) (auto simp: strncmp_loop.simps Let_def)
next
  case (Cons x xs)
  show ?case
  proof (cases n)
    case 0
    then show ?thesis by (simp add: strncmp_loop.simps)
  next
    case (Suc k)
    show ?thesis
    proof (cases ys)
      case Nil
      with Suc Cons.prems show ?thesis by (simp add: strncmp_loop.simps Let_def)
    next
      case (Cons y ys')
      with Suc Cons.prems Cons.IH [of "Suc a" "Suc b" ys' k] show ?thesis
        by (auto simp: strncmp_loop.simps [of m a b] Let_def)
    qed
  qed
qed

lemma strncmp_eq_0:
  "cstr m a xs \<Longrightarrow> cstr m b ys \<Longrightarrow> strncmp m a b n = 0 \<longleftrightarrow> take n xs = take n ys"
  by (simp add: strncmp_def sint_eq_0_iff strncmp_loop_cstr)

text \<open>
  The sign of \<open>strcmp\<close>: on 7-bit characters the truncated difference is the difference, so the
  result orders strings lexicographically.
\<close>

lemma signed_take_bit_byte: "- 128 \<le> k \<Longrightarrow> k < 128 \<Longrightarrow> signed_take_bit 7 k = (k :: int)"
  by (rule signed_take_bit_int_eq_self) simp_all

lemma sint_ascii:
  assumes "x < 128"
  shows "sint (x :: byte) = uint x"
proof -
  have "- 128 \<le> uint x" using uint_ge_0 [of x] by linarith
  with assms show ?thesis by (simp add: sint_uint signed_take_bit_byte word_less_def)
qed

lemma sint_diff_ascii:
  assumes "x < 128" and "y < 128"
  shows "sint (x - y :: byte) = uint x - uint y"
proof -
  have "uint x < 128" "uint y < 128" using assms by (simp_all add: word_less_def)
  then have "- 128 \<le> uint x - uint y" "uint x - uint y < 128"
    using uint_ge_0 [of x] uint_ge_0 [of y] by linarith+
  then show ?thesis using assms by (simp add: sint_word_diff sint_ascii signed_take_bit_byte)
qed

lemma uint_gt_0_iff_word: "0 < uint (w :: 'a::len word) \<longleftrightarrow> w \<noteq> 0"
  by (metis less_le uint_0_iff uint_ge_0)

lemma strcmp_sign:
  "cstr m a xs \<Longrightarrow> cstr m b ys \<Longrightarrow> \<forall>x \<in> set xs \<union> set ys. x < 128 \<Longrightarrow>
   \<exists>r. strcmp m a b = Some r \<and> (r < 0 \<longleftrightarrow> ord_class.lexordp xs ys)"
proof (induction xs arbitrary: a b ys)
  case Nil
  show ?case
  proof (cases ys)
    case Nil
    with Nil.prems show ?thesis by (simp add: strcmp_def strcmp_loop.simps Let_def)
  next
    case (Cons y ys')
    with Nil.prems sint_diff_ascii [of 0 y] show ?thesis
      by (simp add: strcmp_def strcmp_loop.simps Let_def word_less_def uint_gt_0_iff_word)
  qed
next
  case (Cons x xs)
  have asc: "sint (x - y) = uint x - uint y" if "y < 128" for y
    using Cons.prems that by (intro sint_diff_ascii) auto
  show ?case
  proof (cases ys)
    case Nil
    with Cons.prems asc [of 0] show ?thesis
      by (simp add: strcmp_def strcmp_loop.simps Let_def)
  next
    case (Cons y ys')
    show ?thesis
    proof (cases "x = y")
      case False
      have "strcmp m a b = Some (uint x - uint y)"
        using False Cons Cons.prems asc [of y] by (simp add: strcmp_def strcmp_loop.simps Let_def)
      moreover have "uint x - uint y < 0 \<longleftrightarrow> x < y" by (simp add: word_less_def)
      moreover have "x < y \<or> y < x" using False by auto
      ultimately show ?thesis using Cons by auto
    next
      case True
      with Cons Cons.prems Cons.IH [of "Suc a" "Suc b" ys'] show ?thesis
        by (simp add: strcmp_def strcmp_loop.simps [of m a b] Let_def)
    qed
  qed
qed

lemma tolower_eq_0: "tolower c = 0 \<longleftrightarrow> c = 0"
proof -
  have "upper_range c \<Longrightarrow> c + 32 \<noteq> 0"
    unfolding upper_range_def by (unat_arith; simp)
  then show ?thesis by (auto simp: tolower_range upper_range_def)
qed

definition same_cs :: "byte \<times> byte \<Rightarrow> bool" where
  "same_cs cs \<longleftrightarrow> fst cs = snd cs"

lemma strnicmp_loop_cstr:
  "cstr m a xs \<Longrightarrow> cstr m b ys \<Longrightarrow> same_cs cs \<Longrightarrow>
   same_cs (strnicmp_loop m a b n cs) \<longleftrightarrow>
   map tolower (take n xs) = map tolower (take n ys)"
proof (induction xs arbitrary: a b ys n cs)
  case Nil
  then show ?case by (cases ys; cases n) (auto simp: strnicmp_loop.simps Let_def same_cs_def)
next
  case (Cons x xs)
  show ?case
  proof (cases n)
    case 0
    with Cons.prems show ?thesis by (simp add: strnicmp_loop.simps)
  next
    case (Suc k)
    show ?thesis
    proof (cases ys)
      case Nil
      with Suc Cons.prems show ?thesis by (simp add: strnicmp_loop.simps Let_def same_cs_def)
    next
      case (Cons y ys')
      with Suc Cons.prems Cons.IH [of "Suc a" "Suc b" ys' _ k] show ?thesis
        by (auto simp: strnicmp_loop.simps [of m a b] Let_def same_cs_def)
    qed
  qed
qed

lemma strnicmp_eq_0:
  assumes "cstr m a xs" and "cstr m b ys"
  shows "strnicmp m a b n = 0 \<longleftrightarrow> map tolower (take n xs) = map tolower (take n ys)"
proof -
  have "same_cs (0, 0)" by (simp add: same_cs_def)
  from strnicmp_loop_cstr [OF assms this, of n] show ?thesis
    by (auto simp: strnicmp_def same_cs_def word_uint_eq_iff split: prod.splits)
qed

section \<open>Searching\<close>

lemma strchr_loop_cstr:
  "cstr m s xs \<Longrightarrow>
   strchr_loop m s c =
     Some (if c \<in> set (xs @ [0]) then s + length (takeWhile (\<lambda>x. x \<noteq> c) (xs @ [0])) else NULL)"
  by (induction xs arbitrary: s) (auto simp: strchr_loop.simps)

lemma strchr_cstr:
  "cstr m s xs \<Longrightarrow>
   strchr m s c =
     Some (if ucast c \<in> set (xs @ [0])
           then s + length (takeWhile (\<lambda>x. x \<noteq> ucast c) (xs @ [0])) else NULL)"
  by (simp add: strchr_def strchr_loop_cstr)

text \<open>\<open>strrchr\<close> returns the greatest address of the string, its NUL included, that holds \<open>c\<close>.\<close>

lemma strrchr_loop_last:
  "strrchr_loop m s c (s + k) =
     (if c \<in> set (read_bytes m s (Suc k))
      then s + k - length (takeWhile (\<lambda>x. x \<noteq> c) (rev (read_bytes m s (Suc k)))) else NULL)"
proof (induction k)
  case 0
  then show ?case by (simp add: strrchr_loop.simps read_bytes_Suc)
next
  case (Suc k)
  then show ?case
    by (simp add: strrchr_loop.simps [of m s c "Suc (s + k)"] read_bytes_snoc [of m s "Suc k"])
qed

lemma read_bytes_cstr: "cstr m s xs \<Longrightarrow> read_bytes m s (Suc (length xs)) = xs @ [0]"
  by (simp add: read_bytes_snoc cstr_read cstr_end)

lemma strrchr_cstr:
  assumes "cstr m s xs"
  shows "strrchr m s c =
     Some (if ucast c \<in> set (xs @ [0])
           then s + length xs - length (takeWhile (\<lambda>x. x \<noteq> ucast c) (rev (xs @ [0]))) else NULL)"
  using assms by (simp only: strrchr_def strlen_cstr strrchr_loop_last read_bytes_cstr option.map)

lemma accept_loop_cstr:
  "cstr m a ys \<Longrightarrow> accept_loop m c a = Some (a + length (takeWhile (\<lambda>y. y \<noteq> c) ys))"
  by (induction ys arbitrary: a) (auto simp: accept_loop.simps)

lemma takeWhile_hit:
  assumes "cstr m a ys"
  shows "m (a + length (takeWhile (\<lambda>y. y \<noteq> c) ys)) = 0 \<longleftrightarrow> c \<notin> set ys"
proof (cases "c \<in> set ys")
  case True
  let ?k = "length (takeWhile (\<lambda>y. y \<noteq> c) ys)"
  have k: "?k < length ys" using True by (induction ys) auto
  then have "ys ! ?k = c" using nth_length_takeWhile by blast
  then have "m (a + ?k) = c" using cstr_nth [OF assms k] by simp
  moreover have "c \<noteq> 0" using cstr_no_nul [OF assms] True by auto
  ultimately show ?thesis using True by simp
next
  case False
  then show ?thesis
    using cstr_end [OF assms] by (subst takeWhile_eq_all_conv [THEN iffD2]) auto
qed

lemma strspn_loop_cstr:
  "cstr m p xs \<Longrightarrow> cstr m acc ys \<Longrightarrow>
   strspn_loop m acc p n = Some (n + length (takeWhile (\<lambda>x. x \<in> set ys) xs))"
proof (induction xs arbitrary: p n)
  case Nil
  then show ?case by (simp add: strspn_loop.simps)
next
  case (Cons x xs)
  then show ?case
    by (auto simp: strspn_loop.simps [of m acc p] accept_loop_cstr takeWhile_hit)
qed

lemma strspn_cstr:
  "cstr m s xs \<Longrightarrow> cstr m acc ys \<Longrightarrow>
   strspn m s acc = Some (length (takeWhile (\<lambda>x. x \<in> set ys) xs))"
  by (simp add: strspn_def strspn_loop_cstr)

lemma strpbrk_cstr:
  "cstr m s xs \<Longrightarrow> cstr m ct ys \<Longrightarrow>
   strpbrk m s ct =
     Some (if set xs \<inter> set ys \<noteq> {} then s + length (takeWhile (\<lambda>x. x \<notin> set ys) xs) else NULL)"
proof (induction xs arbitrary: s)
  case Nil
  then show ?case by (simp add: strpbrk.simps)
next
  case (Cons x xs)
  then show ?case by (auto simp: strpbrk.simps [of m s ct] accept_loop_cstr takeWhile_hit)
qed

text \<open>The first occurrence of one string in another, as an offset.\<close>

primrec first_sub :: "byte list \<Rightarrow> byte list \<Rightarrow> nat option" where
  "first_sub ys [] = (if ys = [] then Some 0 else None)"
| "first_sub ys (x # xs) =
     (if prefix ys (x # xs) then Some 0 else map_option Suc (first_sub ys xs))"

lemma first_sub_None: "first_sub ys xs = None \<longleftrightarrow> \<not> sublist ys xs"
  by (induction xs) (auto simp: sublist_Cons_right)

lemma first_sub_Some:
  "first_sub ys xs = Some k \<Longrightarrow>
   k \<le> length xs \<and> prefix ys (drop k xs) \<and> (\<forall>i < k. \<not> prefix ys (drop i xs))"
proof (induction xs arbitrary: k)
  case Nil
  then show ?case by (auto split: if_splits)
next
  case (Cons x xs)
  show ?case
  proof (cases "prefix ys (x # xs)")
    case True
    with Cons.prems show ?thesis by simp
  next
    case False
    with Cons.prems obtain j where j: "first_sub ys xs = Some j" "k = Suc j" by auto
    have "\<not> prefix ys (drop i (x # xs))" if "i < k" for i
      using that j False Cons.IH [OF j(1)] by (cases i) auto
    with j Cons.IH [OF j(1)] show ?thesis by simp
  qed
qed

lemma prefix_take_iff: "prefix ys xs \<longleftrightarrow> length ys \<le> length xs \<and> take (length ys) xs = ys"
  by (metis append_eq_conv_conj prefix_def prefix_length_le take_is_prefix)

lemma first_sub_short: "length xs < length ys \<Longrightarrow> first_sub ys xs = None"
  by (induction xs) (auto dest: prefix_length_le)

lemma memcmp_cstr:
  assumes "cstr m s xs" and "cstr m t ys" and "length ys \<le> length xs"
  shows "memcmp m s t (length ys) = 0 \<longleftrightarrow> prefix ys xs"
proof -
  have "read_bytes m s (length ys) = take (length ys) xs"
    using assms by (intro nth_equalityI) (simp_all add: cstr_nth)
  with assms show ?thesis by (simp add: memcmp_eq_0 cstr_read prefix_take_iff)
qed

lemma strstr_loop_cstr:
  "cstr m s xs \<Longrightarrow> cstr m t ys \<Longrightarrow> ys \<noteq> [] \<Longrightarrow>
   strstr_loop m s t (length xs) (length ys) =
     (case first_sub ys xs of None \<Rightarrow> NULL | Some k \<Rightarrow> s + k)"
proof (induction xs arbitrary: s)
  case Nil
  then show ?case by (simp add: strstr_loop.simps)
next
  case (Cons x xs)
  show ?case
  proof (cases "length ys \<le> length (x # xs)")
    case True
    with Cons.prems Cons.IH [of "Suc s"] memcmp_cstr [OF Cons.prems(1,2) True] show ?thesis
      by (auto simp: strstr_loop.simps [of m s] split: option.splits)
  next
    case False
    with first_sub_short [of "x # xs" ys] show ?thesis by (simp add: strstr_loop.simps)
  qed
qed

lemma strstr_cstr:
  assumes "cstr m s xs" and "cstr m t ys"
  shows "strstr m s t = Some (case first_sub ys xs of None \<Rightarrow> NULL | Some k \<Rightarrow> s + k)"
proof (cases "ys = []")
  case True
  then have "first_sub ys xs = Some 0" by (cases xs) simp_all
  with strlen_cstr [OF assms(2)] True show ?thesis by (simp add: strstr_def)
next
  case False
  with assms show ?thesis by (simp add: strstr_def strlen_cstr strstr_loop_cstr)
qed

section \<open>Tokens\<close>

definition apart :: "nat \<Rightarrow> byte list \<Rightarrow> nat \<Rightarrow> byte list \<Rightarrow> bool" where
  "apart s xs t ys \<longleftrightarrow> s + length xs < t \<or> t + length ys < s"

lemma dropWhile_empty: "dropWhile P xs = [] \<longleftrightarrow> (\<forall>x \<in> set xs. P x)"
  by (induction xs) auto

text \<open>
  One call of \<open>strsep\<close>: the token is the longest prefix without a delimiter; it is terminated in
  place, and the position moves past the delimiter, or to NULL when none is left.
\<close>

lemma strsep_cstr:
  assumes "cstr m s xs" and "cstr m ct ys" and "s \<noteq> NULL"
  shows "strsep m s ct =
     (let tok = takeWhile (\<lambda>x. x \<notin> set ys) xs; e = s + length tok
      in if dropWhile (\<lambda>x. x \<notin> set ys) xs = [] then Some (m, NULL, s)
         else Some (m(e := 0), Suc e, s))"
  using assms by (auto simp: strsep_def strpbrk_cstr dropWhile_empty Let_def)

lemma cut_token:
  assumes "cstr m s xs" and "dropWhile P xs \<noteq> []"
  defines "e \<equiv> s + length (takeWhile P xs)"
  shows "cstr (m(e := 0)) s (takeWhile P xs)"
    and "cstr (m(e := 0)) (Suc e) (tl (dropWhile P xs))"
proof -
  let ?k = "length (takeWhile P xs)"
  have k: "?k < length xs"
    by (metis assms(2) dropWhile_eq_drop drop_eq_Nil2 not_le)
  have nth: "i < ?k \<Longrightarrow> m (s + i) = takeWhile P xs ! i" for i
    using assms(1) k by (simp add: cstr_nth takeWhile_nth)
  show "cstr (m(e := 0)) s (takeWhile P xs)"
    using assms(1) by (auto simp: cstr_iff e_def nth dest: set_takeWhileD)
  have "cstr m (s + Suc ?k) (drop (Suc ?k) xs)"
    using assms(1) k by (intro cstr_drop) simp_all
  then have "cstr (m(e := 0)) (s + Suc ?k) (drop (Suc ?k) xs)"
    by (subst cstr_cong [where m = m]) (simp_all add: e_def)
  then show "cstr (m(e := 0)) (Suc e) (tl (dropWhile P xs))"
    by (simp add: e_def dropWhile_eq_drop tl_drop drop_Suc)
qed

lemma strtok_cstr:
  assumes "cstr m s xs" and "cstr m ct ys" and "s \<noteq> NULL"
  defines "b \<equiv> s + length (takeWhile (\<lambda>x. x \<in> set ys) xs)"
    and "rest \<equiv> dropWhile (\<lambda>x. x \<in> set ys) xs"
  shows "strtok m save s ct =
     (if rest = [] then Some (m, NULL, NULL)
      else if dropWhile (\<lambda>x. x \<notin> set ys) rest = [] then Some (m, NULL, b)
      else let e = b + length (takeWhile (\<lambda>x. x \<notin> set ys) rest)
           in Some (m(e := 0), Suc e, b))"
proof -
  have rest: "rest = drop (length (takeWhile (\<lambda>x. x \<in> set ys) xs)) xs"
    by (simp add: rest_def dropWhile_eq_drop)
  have c: "cstr m b rest"
    unfolding b_def rest using assms(1) by (intro cstr_drop) (simp_all add: length_takeWhile_le)
  then have z: "m b = 0 \<longleftrightarrow> rest = []" by (cases rest) auto
  have b_pos: "b \<noteq> NULL" using assms(3) by (simp add: b_def)
  have e: "cstr m b rest \<Longrightarrow> set rest \<inter> set ys \<noteq> {} \<Longrightarrow>
      m (b + length (takeWhile (\<lambda>x. x \<notin> set ys) rest)) \<noteq> 0"
    by (metis (mono_tags, lifting) cstr_nth cstr_no_nul disjoint_iff dropWhile_eq_drop
        drop_eq_Nil2 dropWhile_empty not_le nth_mem)
  show ?thesis
    using assms(1-3) c z e [OF c] b_pos
    by (auto simp: strtok_def strspn_cstr strpbrk_cstr b_def [symmetric] dropWhile_empty Let_def)
qed

section \<open>Swapping byte pairs\<close>

fun swab :: "byte list \<Rightarrow> byte list" where
  "swab (x # y # zs) = y # x # swab zs"
| "swab zs = zs"

lemma length_swab [simp]: "length (swab xs) = length xs"
  by (induction xs rule: swab.induct) auto

lemma swab_swab: "swab (swab xs) = xs"
  by (induction xs rule: swab.induct) auto

lemma strswab_loop_cstr:
  "cstr m s xs \<Longrightarrow> strswab_loop m s (Suc s) = Some (write_bytes m s (swab xs))"
proof (induction xs arbitrary: m s rule: swab.induct)
  case (1 x y zs)
  let ?m = "m(s := y, Suc s := x)"
  have "cstr ?m (s + 2) zs = cstr m (s + 2) zs" by (intro cstr_cong) auto
  with 1 have "strswab_loop ?m (s + 2) (Suc (s + 2)) = Some (write_bytes ?m (s + 2) (swab zs))"
    by (intro "1.IH") (simp add: fun_upd_def)
  with "1.prems" show ?case
    by (simp add: strswab_loop.simps [of m s] Let_def fun_upd_def)
qed (simp_all add: strswab_loop.simps fun_upd_idem)

lemma strswab_cstr:
  "cstr m s xs \<Longrightarrow> xs \<noteq> [] \<Longrightarrow> s \<noteq> NULL \<Longrightarrow> strswab m s = Some (write_bytes m s (swab xs), s)"
  by (cases xs) (auto simp: strswab_def strswab_loop_cstr)

section \<open>Properties\<close>

text \<open>
  \<open>strcpy\<close> returns, copies the whole string with its NUL and nothing else, even when the
  destination lies below an overlapping source; if it lies clear of the source, both places hold
  the string afterwards.
\<close>

theorem strcpy_correct:
  assumes "cstr m s xs" and "\<not> (s < d \<and> d \<le> s + length xs)"
  shows "\<exists>m'. strcpy m d s = Some (m', d) \<and> cstr m' d xs \<and>
     (d + length xs < s \<or> s + length xs < d \<longrightarrow> cstr m' s xs) \<and>
     m' = write_bytes m d (xs @ [0])"
proof -
  let ?m = "write_bytes m d (xs @ [0])"
  have "cstr ?m d xs" using assms(1) cstr_no_nul by (intro cstr_write) auto
  moreover have "cstr ?m s xs" if "d + length xs < s \<or> s + length xs < d"
    using that assms(1) by (subst cstr_write_other) auto
  ultimately show ?thesis using strcpy_cstr [OF assms] by blast
qed

theorem strcpy_correct_witness:
  "\<exists>m'. strcpy (write_bytes (\<lambda>_. 0) 8 [97, 98]) 16 8 = Some (m', 16) \<and> cstr m' 16 [97, 98] \<and>
     (16 + length [97, 98 :: byte] < 8 \<or> 8 + length [97, 98 :: byte] < 16 \<longrightarrow> cstr m' 8 [97, 98]) \<and>
     m' = write_bytes (write_bytes (\<lambda>_. 0) 8 [97, 98]) 16 ([97, 98] @ [0])"
  by (rule strcpy_correct) simp_all

text \<open>
  \<open>strncat\<close> always terminates what it builds: the destination then holds its old string followed
  by at most \<open>n\<close> characters of the source and a NUL, for every \<open>n > 0\<close>.
\<close>

theorem strncat_terminates:
  assumes "cstr m d xs" and "cstr m s ys" and "n \<noteq> 0"
    and "\<not> (s < d + length xs \<and> d + length xs \<le> s + length ys)"
  shows "\<exists>m'. strncat m d s n = Some (m', d) \<and> cstr m' d (xs @ take n ys)"
proof -
  have "0 \<notin> set (take n ys)" using cstr_no_nul [OF assms(2)] by (auto dest: in_set_takeD)
  then show ?thesis using strncat_cstr [OF assms] cstr_append [OF assms(1)] by blast
qed

theorem strncat_terminates_witness:
  "\<exists>m'. strncat (write_bytes (\<lambda>_. 0) 8 [97, 98, 99]) 16 8 2 = Some (m', 16) \<and>
     cstr m' 16 ([] @ take 2 [97, 98, 99])"
  by (rule strncat_terminates [where s = 8 and d = 16]) simp_all

text \<open>
  \<open>strcmp\<close> returns for any two strings, is 0 exactly when they are equal, whatever their bytes,
  and on 7-bit characters is negative exactly when the first string is lexicographically smaller.
\<close>

theorem strcmp_order:
  assumes "cstr m a xs" and "cstr m b ys"
  shows "\<exists>r. strcmp m a b = Some r \<and> (r = 0 \<longleftrightarrow> xs = ys) \<and>
     ((\<forall>x \<in> set xs \<union> set ys. x < 128) \<longrightarrow> (r < 0 \<longleftrightarrow> ord_class.lexordp xs ys))"
  using strcmp_eq_0 [OF assms] strcmp_sign [OF assms] by auto

theorem strcmp_order_witness:
  "\<exists>r. strcmp (write_bytes (\<lambda>_. 0) 8 [97, 98, 0, 97, 99]) 8 11 = Some r \<and>
     (r = 0 \<longleftrightarrow> [97, 98 :: byte] = [97, 99]) \<and>
     ((\<forall>x \<in> set [97, 98 :: byte] \<union> set [97, 99]. x < 128) \<longrightarrow>
        (r < 0 \<longleftrightarrow> ord_class.lexordp [97, 98 :: byte] [97, 99]))"
  by (rule strcmp_order) simp_all

text \<open>
  \<open>strstr\<close> finds the first occurrence: if it returns \<open>s + k\<close> then the pattern stands at offset
  \<open>k\<close> of the string and at no smaller one, and it returns NULL only if the pattern occurs nowhere.
\<close>

theorem strstr_first:
  assumes "cstr m s xs" and "cstr m t ys" and "s \<noteq> NULL"
  shows "\<exists>p. strstr m s t = Some p \<and> (p = NULL \<longleftrightarrow> \<not> sublist ys xs) \<and>
     (p \<noteq> NULL \<longrightarrow> s \<le> p \<and> prefix ys (drop (p - s) xs) \<and> (\<forall>i < p - s. \<not> prefix ys (drop i xs)))"
proof (cases "first_sub ys xs")
  case None
  then show ?thesis using assms first_sub_None [of ys xs] by (simp add: strstr_cstr)
next
  case (Some k)
  then have "sublist ys xs" using first_sub_None [of ys xs] by auto
  with Some first_sub_Some [OF Some] assms show ?thesis by (simp add: strstr_cstr)
qed

theorem strstr_first_witness:
  "\<exists>p. strstr (write_bytes (\<lambda>_. 0) 8 [97, 98, 98, 0, 98, 98]) 8 12 = Some p \<and>
     (p = NULL \<longleftrightarrow> \<not> sublist [98, 98] [97, 98, 98 :: byte]) \<and>
     (p \<noteq> NULL \<longrightarrow> 8 \<le> p \<and> prefix [98, 98] (drop (p - 8) [97, 98, 98 :: byte]) \<and>
        (\<forall>i < p - 8. \<not> prefix [98, 98] (drop i [97, 98, 98 :: byte])))"
  by (rule strstr_first) simp_all

text \<open>
  One call of \<open>strsep\<close> cuts the string at its first delimiter: the token it returns is the
  longest prefix without a delimiter, terminated in place, and \<open>*s\<close> is left on the text after the
  delimiter, or is NULL when there was none (the token then is the whole string, and memory is
  untouched).
\<close>

theorem strsep_token:
  assumes "cstr m s xs" and "cstr m ct ys" and "s \<noteq> NULL"
  shows "\<exists>m' s'. strsep m s ct = Some (m', s', s) \<and> cstr m' s (takeWhile (\<lambda>x. x \<notin> set ys) xs) \<and>
     (if set xs \<inter> set ys = {} then s' = NULL \<and> m' = m
      else cstr m' s' (tl (dropWhile (\<lambda>x. x \<notin> set ys) xs)))"
proof (cases "set xs \<inter> set ys = {}")
  case True
  then have "dropWhile (\<lambda>x. x \<notin> set ys) xs = []" by (auto simp: dropWhile_empty)
  moreover have "cstr m s (takeWhile (\<lambda>x. x \<notin> set ys) xs)"
    using True assms(1) by (subst takeWhile_eq_all_conv [THEN iffD2]) auto
  ultimately have "dropWhile (\<lambda>x. x \<notin> set ys) xs = []" "cstr m s (takeWhile (\<lambda>x. x \<notin> set ys) xs)"
    by simp_all
  with True assms strsep_cstr [OF assms] show ?thesis by (simp add: Let_def)
next
  case False
  then have ne: "dropWhile (\<lambda>x. x \<notin> set ys) xs \<noteq> []" by (auto simp: dropWhile_empty)
  with False strsep_cstr [OF assms] cut_token [OF assms(1) ne] show ?thesis
    by (simp only: Let_def if_False ne) blast
qed

theorem strsep_token_witness:
  "\<exists>m' s'. strsep (write_bytes (\<lambda>_. 0) 8 [97, 44, 98, 0, 44]) 8 12 = Some (m', s', 8) \<and>
     cstr m' 8 (takeWhile (\<lambda>x. x \<notin> set [44]) [97, 44, 98]) \<and>
     (if set [97, 44, 98 :: byte] \<inter> set [44] = {} then s' = NULL \<and> m' = write_bytes (\<lambda>_. 0) 8 [97, 44, 98, 0, 44]
      else cstr m' s' (tl (dropWhile (\<lambda>x. x \<notin> set [44]) [97, 44, 98])))"
  by (rule strsep_token) simp_all

end
