(* ===== verification/Vsprintf.thy ===== *)
theory Vsprintf imports CType begin

text \<open>
  Number parsing and formatted output: \<open>lib_generic/vsprintf.c\<close>.

  A \<open>const char *\<close> that the code only walks forward is the list of the bytes up to its NUL; the
  byte it points at is \<open>peek\<close>, which is NUL at the end. The characters a function stores through
  \<open>str\<close> are the list it returns. An \<open>int\<close> or \<open>long\<close> is 32 bits, as on the ports of the program;
  \<open>CFG_64BIT_STRTOUL\<close> adds \<open>simple_strtoull\<close>, and \<open>CFG_64BIT_VSPRINTF\<close> is off.
\<close>

section \<open>Parsing\<close>

abbreviation chr :: "char \<Rightarrow> byte" where "chr c \<equiv> of_char c"

definition peek :: "byte list \<Rightarrow> byte" where
  "peek s = (case s of [] \<Rightarrow> 0 | c # _ \<Rightarrow> c)"

lemma peek_simps [simp]: "peek [] = 0" "peek (c # s) = c"
  by (simp_all add: peek_def)

definition digit_value :: "byte \<Rightarrow> 'a::len word" where
  "digit_value c =
     (if isdigit c then ucast c - 48
      else ucast (if islower c then toupper c else c) - 65 + 10)"

fun strtoul_loop :: "'a::len word \<Rightarrow> byte list \<Rightarrow> 'a word \<Rightarrow> 'a word \<times> byte list" where
  "strtoul_loop base [] result = (result, [])"
| "strtoul_loop base (c # cp) result =
     (if isxdigit c \<and> digit_value c < base
      then strtoul_loop base cp (result * base + digit_value c) else (result, c # cp))"

text \<open>The prefix: 0x selects base 16 whatever was asked, a leading 0 selects 8 if nothing was.\<close>

definition strtoul_prefix :: "byte list \<Rightarrow> u32 \<Rightarrow> byte list \<times> u32" where
  "strtoul_prefix cp base =
     (let (cp, base) =
        (if peek cp = chr CHR ''0''
         then let cp = tl cp;
                  (cp, base) = (if peek cp = chr CHR ''x'' \<and> isxdigit (peek (tl cp))
                                then (tl cp, 16) else (cp, base))
              in (cp, if base = 0 then 8 else base)
         else (cp, base))
      in (cp, if base = 0 then 10 else base))"

text \<open>The result is the value and \<open>*endp\<close>.\<close>

definition simple_strtoul :: "byte list \<Rightarrow> u32 \<Rightarrow> u32 \<times> byte list" where
  "simple_strtoul cp base =
     (let (cp, base) = strtoul_prefix cp base in strtoul_loop base cp 0)"

definition simple_strtol :: "byte list \<Rightarrow> u32 \<Rightarrow> u32 \<times> byte list" where
  "simple_strtol cp base =
     (if peek cp = chr CHR ''-''
      then (case simple_strtoul (tl cp) base of (v, endp) \<Rightarrow> (- v, endp))
      else simple_strtoul cp base)"

definition simple_strtoull :: "byte list \<Rightarrow> u32 \<Rightarrow> u64 \<times> byte list" where
  "simple_strtoull cp base =
     (let (cp, base) = strtoul_prefix cp base in strtoul_loop (ucast base) cp 0)"

definition is_digit :: "byte \<Rightarrow> bool" where
  "is_digit c \<longleftrightarrow> chr CHR ''0'' \<le> c \<and> c \<le> chr CHR ''9''"

text \<open>\<open>skip_atoi\<close>: the \<open>int\<close> result wraps; the second component is \<open>*s\<close>.\<close>

fun skip_atoi :: "byte list \<Rightarrow> u32 \<Rightarrow> u32 \<times> byte list" where
  "skip_atoi [] i = (i, [])"
| "skip_atoi (c # s) i =
     (if is_digit c then skip_atoi s (i * 10 + ucast c - 48) else (i, c # s))"

section \<open>Formatting a number\<close>

definition ZEROPAD :: u32 where "ZEROPAD = 1"
definition SIGN :: u32 where "SIGN = 2"
definition PLUS :: u32 where "PLUS = 4"
definition SPACE :: u32 where "SPACE = 8"
definition LEFT :: u32 where "LEFT = 16"
definition SPECIAL :: u32 where "SPECIAL = 32"
definition LARGE :: u32 where "LARGE = 64"

lemmas flag_defs = ZEROPAD_def SIGN_def PLUS_def SPACE_def LEFT_def SPECIAL_def LARGE_def

definition flag :: "u32 \<Rightarrow> u32 \<Rightarrow> bool" where
  "flag ty f \<longleftrightarrow> ty AND f \<noteq> 0"

definition lower_digits :: "byte list" where
  "lower_digits = bytes ''0123456789abcdefghijklmnopqrstuvwxyz''"
definition upper_digits :: "byte list" where
  "upper_digits = bytes ''0123456789ABCDEFGHIJKLMNOPQRSTUVWXYZ''"

text \<open>The macro \<open>do_div\<close>: unsigned remainder, and the quotient left in \<open>n\<close>.\<close>

definition do_div :: "u32 \<Rightarrow> u32 \<Rightarrow> u32 \<times> u32" where
  "do_div n base = (n mod base, n div base)"

text \<open>
  The loop \<open>while (num != 0) tmp[i++] = digits[do_div(num, base)]\<close>: the digits, lowest first.
  With \<open>base < 2\<close> it would not stop; \<open>number\<close> has left by then, and the guard here says so.
\<close>

function number_digits :: "byte list \<Rightarrow> u32 \<Rightarrow> u32 \<Rightarrow> byte list" where
  "number_digits digits num base =
     (if num = 0 \<or> base < 2 then []
      else let (res, num') = do_div num base
           in digits ! unat res # number_digits digits num' base)"
  by pat_completeness auto
termination
proof (relation "measure (\<lambda>(_, num, _). unat num)")
  fix num base :: u32 and digits :: "byte list" and x y z
  assume a: "\<not> (num = 0 \<or> base < 2)" "x = do_div num base" "(y, z) = x"
  then have z: "z = num div base" by (simp add: do_div_def)
  from a have "0 < unat num" "1 < unat base"
    by (simp_all add: unat_gt_0 word_less_nat_alt)
  then have "unat num div unat base < unat num" by (rule div_less_dividend [rotated])
  then show "((digits, z, base), (digits, num, base)) \<in> measure (\<lambda>(_, num, _). unat num)"
    by (simp add: z unat_div)
qed simp

declare number_digits.simps [simp del]

text \<open>\<open>while (size-- > 0) *str++ = c\<close>: what it stores, and \<open>size\<close> afterwards.\<close>

function pad_loop :: "int \<Rightarrow> byte \<Rightarrow> byte list \<times> int" where
  "pad_loop sz c =
     (if sz > 0 then (case pad_loop (sz - 1) c of (out, e) \<Rightarrow> (c # out, e)) else ([], sz - 1))"
  by pat_completeness auto
termination by (relation "measure (\<lambda>(sz, _). nat sz)") auto

declare pad_loop.simps [simp del]

text \<open>\<open>while (i < precision--) *str++ = c\<close>, also used for string fields.\<close>

function upto_loop :: "int \<Rightarrow> int \<Rightarrow> byte \<Rightarrow> byte list \<times> int" where
  "upto_loop i p c =
     (if i < p then (case upto_loop i (p - 1) c of (out, e) \<Rightarrow> (c # out, e)) else ([], p - 1))"
  by pat_completeness auto
termination by (relation "measure (\<lambda>(i, p, _). nat (p - i))") auto

declare upto_loop.simps [simp del]

text \<open>
  \<open>number\<close>: \<open>None\<close> is the return of a null pointer for a base outside 2..36. The sign character is
  0 when there is none.
\<close>

definition number_sign :: "u32 \<Rightarrow> int \<Rightarrow> u32 \<Rightarrow> byte \<times> u32 \<times> int" where
  "number_sign num sz ty =
     (if flag ty SIGN
      then if sint num < 0 then (chr CHR ''-'', - num, sz - 1)
           else if flag ty PLUS then (chr CHR ''+'', num, sz - 1)
           else if flag ty SPACE then (chr CHR '' '', num, sz - 1)
           else (0, num, sz)
      else (0, num, sz))"

definition number :: "u32 \<Rightarrow> int \<Rightarrow> int \<Rightarrow> int \<Rightarrow> u32 \<Rightarrow> byte list option" where
  "number num base sz precision ty =
     (let digits = (if flag ty LARGE then upper_digits else lower_digits);
          ty = (if flag ty LEFT then ty AND NOT ZEROPAD else ty)
      in if base < 2 \<or> 36 < base then None
      else let c = (if flag ty ZEROPAD then chr CHR ''0'' else chr CHR '' '');
          (sign, num, sz) = number_sign num sz ty;
          sz = (if flag ty SPECIAL
                then if base = 16 then sz - 2 else if base = 8 then sz - 1 else sz
                else sz);
          tmp = (if num = 0 then [chr CHR ''0''] else number_digits digits num (word_of_int base));
          i = int (length tmp);
          precision = (if i > precision then i else precision);
          sz = sz - precision;
          (out1, sz) = (if \<not> flag ty (ZEROPAD + LEFT) then pad_loop sz (chr CHR '' '') else ([], sz));
          out2 = (if sign \<noteq> 0 then [sign] else []);
          out3 = (if flag ty SPECIAL
                  then if base = 8 then [chr CHR ''0'']
                       else if base = 16 then [chr CHR ''0'', digits ! 33] else []
                  else []);
          (out4, sz) = (if \<not> flag ty LEFT then pad_loop sz c else ([], sz));
          (out5, _) = upto_loop i precision (chr CHR ''0'');
          out6 = rev tmp;
          (out7, _) = pad_loop sz (chr CHR '' '')
        in Some (out1 @ out2 @ out3 @ out4 @ out5 @ out6 @ out7))"

section \<open>vsprintf\<close>

text \<open>
  The variable arguments: a 32-bit word (\<open>int\<close>, \<open>long\<close>, \<open>char\<close> or a pointer to print), a string
  (None for NULL) or the address an \<open>%n\<close> stores to. Reading an argument of another kind, or one
  that was not passed, is undefined in C; it makes the result \<open>None\<close> here.
\<close>

datatype varg = ArgInt u32 | ArgStr "byte list option" | ArgOut nat

record fmt_state =
  fs_fmt :: "byte list"          \<comment> \<open>what is left of the format\<close>
  fs_args :: "varg list"         \<comment> \<open>what is left of the arguments\<close>
  fs_flags :: u32
  fs_width :: int
  fs_precision :: int
  fs_qualifier :: byte           \<comment> \<open>0 where the code has -1\<close>

fun flags_loop :: "u32 \<Rightarrow> byte list \<Rightarrow> u32 \<times> byte list" where
  "flags_loop flags [] = (flags, [])"
| "flags_loop flags (c # fmt) =
     (if c = chr CHR ''-'' then flags_loop (flags OR LEFT) fmt
      else if c = chr CHR ''+'' then flags_loop (flags OR PLUS) fmt
      else if c = chr CHR '' '' then flags_loop (flags OR SPACE) fmt
      else if c = chr CHR ''#'' then flags_loop (flags OR SPECIAL) fmt
      else if c = chr CHR ''0'' then flags_loop (flags OR ZEROPAD) fmt
      else (flags, c # fmt))"

fun va_int :: "varg list \<Rightarrow> (u32 \<times> varg list) option" where
  "va_int (ArgInt w # args) = Some (w, args)"
| "va_int _ = None"

fun va_str :: "varg list \<Rightarrow> (byte list option \<times> varg list) option" where
  "va_str (ArgStr s # args) = Some (s, args)"
| "va_str _ = None"

fun va_out :: "varg list \<Rightarrow> (nat \<times> varg list) option" where
  "va_out (ArgOut a # args) = Some (a, args)"
| "va_out _ = None"

definition get_width :: "fmt_state \<Rightarrow> fmt_state option" where
  "get_width st =
     (if is_digit (peek (fs_fmt st))
      then (case skip_atoi (fs_fmt st) 0 of (i, fmt) \<Rightarrow>
              Some (st\<lparr>fs_fmt := fmt, fs_width := sint i\<rparr>))
      else if peek (fs_fmt st) = chr CHR ''*''
      then map_option (\<lambda>(w, args).
             if sint w < 0
             then st\<lparr>fs_fmt := tl (fs_fmt st), fs_args := args, fs_width := sint (- w),
                     fs_flags := fs_flags st OR LEFT\<rparr>
             else st\<lparr>fs_fmt := tl (fs_fmt st), fs_args := args, fs_width := sint w\<rparr>)
           (va_int (fs_args st))
      else Some st)"

definition clip_precision :: "fmt_state \<Rightarrow> fmt_state" where
  "clip_precision st = (if fs_precision st < 0 then st\<lparr>fs_precision := 0\<rparr> else st)"

definition get_precision :: "fmt_state \<Rightarrow> fmt_state option" where
  "get_precision st =
     (if peek (fs_fmt st) = chr CHR ''.''
      then let st = st\<lparr>fs_fmt := tl (fs_fmt st)\<rparr>
           in map_option clip_precision
             (if is_digit (peek (fs_fmt st))
              then (case skip_atoi (fs_fmt st) 0 of (i, fmt) \<Rightarrow>
                      Some (st\<lparr>fs_fmt := fmt, fs_precision := sint i\<rparr>))
              else if peek (fs_fmt st) = chr CHR ''*''
              then map_option (\<lambda>(w, args).
                     st\<lparr>fs_fmt := tl (fs_fmt st), fs_args := args, fs_precision := sint w\<rparr>)
                   (va_int (fs_args st))
              else Some st)
      else Some st)"

definition get_qualifier :: "fmt_state \<Rightarrow> fmt_state" where
  "get_qualifier st =
     (if peek (fs_fmt st) \<in> {chr CHR ''h'', chr CHR ''l'', chr CHR ''q''}
      then st\<lparr>fs_qualifier := peek (fs_fmt st), fs_fmt := tl (fs_fmt st)\<rparr> else st)"

text \<open>\<open>while (--field_width > 0) *str++ = ' '\<close>.\<close>

function dec_loop :: "int \<Rightarrow> byte list \<times> int" where
  "dec_loop w =
     (if w - 1 > 0 then (case dec_loop (w - 1) of (out, e) \<Rightarrow> (chr CHR '' '' # out, e))
      else ([], w - 1))"
  by pat_completeness auto
termination by (relation "measure nat") auto

declare dec_loop.simps [simp del]

definition format_char :: "fmt_state \<Rightarrow> u32 \<Rightarrow> byte list" where
  "format_char st w =
     (let (out1, fw) = (if \<not> flag (fs_flags st) LEFT then dec_loop (fs_width st)
                        else ([], fs_width st));
          (out3, _) = dec_loop fw
      in out1 @ [ucast w] @ out3)"

text \<open>\<open>strnlen (s, precision)\<close> reads the negative precision as a huge \<open>size_t\<close>.\<close>

definition format_str :: "fmt_state \<Rightarrow> byte list option \<Rightarrow> byte list" where
  "format_str st sopt =
     (let s = (case sopt of None \<Rightarrow> bytes ''<NULL>'' | Some s \<Rightarrow> s);
          len = min (unat (word_of_int (fs_precision st) :: u32)) (length s);
          (out1, fw) = (if \<not> flag (fs_flags st) LEFT
                        then upto_loop (int len) (fs_width st) (chr CHR '' '')
                        else ([], fs_width st));
          out2 = take len s;
          (out3, _) = upto_loop (int len) fw (chr CHR '' '')
      in out1 @ out2 @ out3)"

text \<open>The integer conversions: the base, the added flags, and the reading of the argument.\<close>

definition int_conversion :: "byte \<Rightarrow> (int \<times> u32) option" where
  "int_conversion c =
     (if c = chr CHR ''o'' then Some (8, 0)
      else if c = chr CHR ''X'' then Some (16, LARGE)
      else if c = chr CHR ''x'' then Some (16, 0)
      else if c = chr CHR ''d'' \<or> c = chr CHR ''i'' then Some (10, SIGN)
      else if c = chr CHR ''u'' then Some (10, 0)
      else None)"

definition int_arg :: "fmt_state \<Rightarrow> u32 \<Rightarrow> u32" where
  "int_arg st w =
     (if fs_qualifier st = chr CHR ''h''
      then if flag (fs_flags st) SIGN then scast (ucast w :: u16) else ucast (ucast w :: u16)
      else w)"

text \<open>
  One conversion, after its \<open>%\<close>: the characters it stores, the \<open>%n\<close> stores (address and count),
  and the state with the format after it. \<open>count\<close> is \<open>str - buf\<close>.
\<close>

definition parse_spec :: "byte list \<Rightarrow> varg list \<Rightarrow> fmt_state option" where
  "parse_spec fmt args =
     (case flags_loop 0 fmt of (flags, fmt) \<Rightarrow>
        Option.bind (get_width \<lparr>fs_fmt = fmt, fs_args = args, fs_flags = flags, fs_width = -1,
                       fs_precision = -1, fs_qualifier = 0\<rparr>)
          (\<lambda>st. map_option get_qualifier (get_precision st)))"

definition convert ::
    "fmt_state \<Rightarrow> nat \<Rightarrow> (byte list \<times> (nat \<times> nat) list \<times> fmt_state) option" where
  "convert st count =
     (let c = peek (fs_fmt st); st' = st\<lparr>fs_fmt := tl (fs_fmt st)\<rparr>
      in if c = chr CHR ''c''
         then map_option (\<lambda>(w, args). (format_char st w, [], st'\<lparr>fs_args := args\<rparr>)) (va_int (fs_args st))
         else if c = chr CHR ''s''
         then map_option (\<lambda>(s, args). (format_str st s, [], st'\<lparr>fs_args := args\<rparr>)) (va_str (fs_args st))
         else if c = chr CHR ''p''
         then Option.bind (va_int (fs_args st)) (\<lambda>(w, args).
                let (fw, flags) = (if fs_width st = -1 then (8, fs_flags st OR ZEROPAD)
                                   else (fs_width st, fs_flags st))
                in map_option (\<lambda>out. (out, [], st'\<lparr>fs_args := args\<rparr>))
                     (number w 16 fw (fs_precision st) flags))
         else if c = chr CHR ''n''
         then map_option (\<lambda>(a, args). ([], [(a, count)], st'\<lparr>fs_args := args\<rparr>)) (va_out (fs_args st))
         else if c = chr CHR ''%'' then Some ([chr CHR ''%''], [], st')
         else case int_conversion c of
           Some (base, fl) \<Rightarrow>
             let st = st\<lparr>fs_flags := fs_flags st OR fl\<rparr>
             in Option.bind (va_int (fs_args st)) (\<lambda>(w, args).
                  map_option (\<lambda>out. (out, [], st'\<lparr>fs_args := args\<rparr>))
                    (number (int_arg st w) base (fs_width st) (fs_precision st) (fs_flags st)))
         | None \<Rightarrow> Some (if c \<noteq> 0 then [chr CHR ''%'', c] else [chr CHR ''%''], [], st'))"

lemma flags_loop_length: "flags_loop fl fmt = (fl', fmt') \<Longrightarrow> length fmt' \<le> length fmt"
  by (induction fl fmt rule: flags_loop.induct) (auto split: if_splits)

lemma skip_atoi_length: "skip_atoi s i = (i', s') \<Longrightarrow> length s' \<le> length s"
  by (induction s i rule: skip_atoi.induct) (auto split: if_splits)

lemma get_width_length: "get_width st = Some st' \<Longrightarrow> length (fs_fmt st') \<le> length (fs_fmt st)"
  by (auto simp: get_width_def dest: skip_atoi_length split: if_splits prod.splits)

lemma get_precision_length:
  "get_precision st = Some st' \<Longrightarrow> length (fs_fmt st') \<le> length (fs_fmt st)"
  by (fastforce simp: get_precision_def clip_precision_def Let_def dest: skip_atoi_length
      split: if_splits prod.splits)

lemma parse_spec_length: "parse_spec fmt args = Some st \<Longrightarrow> length (fs_fmt st) \<le> length fmt"
  by (auto simp: parse_spec_def get_qualifier_def bind_eq_Some_conv split: prod.splits if_splits
      dest!: flags_loop_length get_width_length get_precision_length)

lemma convert_length:
  "convert st count = Some (out, n, st') \<Longrightarrow> fs_fmt st' = tl (fs_fmt st)"
  by (auto simp: convert_def Let_def bind_eq_Some_conv split: if_splits option.splits prod.splits)

text \<open>
  \<open>vsprintf\<close>: the stored characters (without the final NUL) and the \<open>%n\<close> stores; the value
  returned is the number of characters. Each round consumes a byte of the format.
\<close>

function vsprintf_loop ::
    "byte list \<Rightarrow> varg list \<Rightarrow> byte list \<Rightarrow> (nat \<times> nat) list \<Rightarrow> (byte list \<times> (nat \<times> nat) list) option"
where
  "vsprintf_loop [] args out ns = Some (out, ns)"
| "vsprintf_loop (c # fmt) args out ns =
     (if c \<noteq> chr CHR ''%'' then vsprintf_loop fmt args (out @ [c]) ns
      else case parse_spec fmt args of
        None \<Rightarrow> None
      | Some st \<Rightarrow>
          (case convert st (length out) of
             None \<Rightarrow> None
           | Some (o1, n1, st') \<Rightarrow> vsprintf_loop (fs_fmt st') (fs_args st') (out @ o1) (ns @ n1)))"
  by pat_completeness auto
termination
  by (relation "measure (\<lambda>(fmt, _). length fmt)")
    (auto dest!: parse_spec_length convert_length)

definition vsprintf :: "byte list \<Rightarrow> varg list \<Rightarrow> (byte list \<times> (nat \<times> nat) list) option" where
  "vsprintf fmt args = vsprintf_loop fmt args [] []"

text \<open>\<open>sprintf\<close> for formats that store nothing else than characters.\<close>

definition sprintf :: "string \<Rightarrow> varg list \<Rightarrow> byte list option" where
  "sprintf fmt args = map_option fst (vsprintf (bytes fmt) args)"

section \<open>The padding loops in closed form\<close>

lemma pad_loop_eq: "pad_loop sz c = (replicate (nat sz) c, if sz > 0 then -1 else sz - 1)"
proof (induction sz c rule: pad_loop.induct)
  case (1 sz c)
  show ?case
  proof (cases "sz > 0")
    case True
    then have "nat sz = Suc (nat (sz - 1))" by arith
    with True 1 show ?thesis by (simp add: pad_loop.simps [of sz c])
  next
    case False
    then show ?thesis by (simp add: pad_loop.simps)
  qed
qed

lemma upto_loop_eq: "upto_loop i p c = (replicate (nat (p - i)) c, min p i - 1)"
proof (induction i p c rule: upto_loop.induct)
  case (1 i p c)
  show ?case
  proof (cases "i < p")
    case True
    then have "nat (p - i) = Suc (nat (p - 1 - i))" by arith
    with True 1 show ?thesis by (simp add: upto_loop.simps [of i p c] min_def)
  next
    case False
    then show ?thesis by (simp add: upto_loop.simps min_def)
  qed
qed

lemma dec_loop_eq: "dec_loop w = (replicate (nat (w - 1)) (chr CHR '' ''), min (w - 1) 0)"
proof (induction w rule: dec_loop.induct)
  case (1 w)
  show ?case
  proof (cases "w - 1 > 0")
    case True
    then have "nat (w - 1) = Suc (nat (w - 1 - 1))" by arith
    with True 1 show ?thesis by (simp add: dec_loop.simps [of w] min_def)
  next
    case False
    then show ?thesis by (simp add: dec_loop.simps min_def)
  qed
qed

lemmas loop_eqs = pad_loop_eq upto_loop_eq dec_loop_eq

section \<open>Digits\<close>

lemma unat_div_lt:
  assumes "2 \<le> unat (b :: u32)" and "unat n < 2 ^ Suc k"
  shows "unat (n div b) < 2 ^ k"
proof -
  have "unat n div unat b \<le> unat n div 2" using assms(1) by (intro div_le_mono2) auto
  also have "\<dots> < 2 ^ k" using assms(2) by simp
  finally show ?thesis by (simp add: unat_div)
qed

lemma number_digits_length_aux:
  "unat num < 2 ^ k \<Longrightarrow> length (number_digits ds num base) \<le> k"
proof (induction k arbitrary: num)
  case 0
  then show ?case by (simp add: number_digits.simps unat_eq_0)
next
  case (Suc k)
  show ?case
  proof (cases "num = 0 \<or> base < 2")
    case True
    then show ?thesis by (simp add: number_digits.simps)
  next
    case False
    then have "2 \<le> unat base" by (simp add: word_less_nat_alt)
    with Suc.prems have "unat (num div base) < 2 ^ k" by (intro unat_div_lt) simp_all
    with False Suc.IH [of "num div base"] show ?thesis
      by (simp add: number_digits.simps [of ds num] do_div_def)
  qed
qed

text \<open>At most 32 digits: the buffer \<open>tmp[66]\<close> is never overrun.\<close>

lemma number_digits_length: "length (number_digits ds num base) \<le> 32"
  using unsigned_less [of num, where ?'a = nat] by (intro number_digits_length_aux) simp

lemma number_digits_0 [simp]: "number_digits ds 0 base = []"
  by (simp add: number_digits.simps)

lemma number_digits_step:
  "num \<noteq> 0 \<Longrightarrow> 2 \<le> base \<Longrightarrow>
   number_digits ds num base = ds ! unat (num mod base) # number_digits ds (num div base) base"
  by (subst number_digits.simps) (auto simp: do_div_def not_less)

lemma word_mod_lt: "(2 :: u32) \<le> base \<Longrightarrow> num mod base < base"
  by (simp add: word_less_nat_alt word_le_nat_alt unat_mod)

lemma word_div_lt: "num \<noteq> 0 \<Longrightarrow> (2 :: u32) \<le> base \<Longrightarrow> num div base < num"
  by (simp add: word_less_nat_alt word_le_nat_alt unat_div word_unat_eq_iff)

text \<open>Induction over the digits of a number.\<close>

lemma digits_induct [consumes 1, case_names zero step]:
  assumes "2 \<le> base" and "P 0"
    and "\<And>num :: u32. num \<noteq> 0 \<Longrightarrow> P (num div base) \<Longrightarrow> P num"
  shows "P num"
proof (induction "unat num" arbitrary: num rule: less_induct)
  case less
  show ?case
  proof (cases "num = 0")
    case False
    then have "unat (num div base) < unat num"
      using word_div_lt [OF False assms(1)] by (simp add: word_less_nat_alt)
    with False show ?thesis using less assms(3) by blast
  qed (simp add: assms(2))
qed

lemma number_digits_nonempty: "num \<noteq> 0 \<Longrightarrow> 2 \<le> base \<Longrightarrow> number_digits ds num base \<noteq> []"
  by (subst number_digits.simps) (auto simp: do_div_def not_less)

text \<open>The two digit strings, as the parser reads them back, for the bases that it knows.\<close>

definition hex_digit :: "byte list \<Rightarrow> nat \<Rightarrow> bool" where
  "hex_digit ds d \<longleftrightarrow> isxdigit (ds ! d) \<and> digit_value (ds ! d) = (of_nat d :: u32) \<and> 
     ds ! d \<noteq> chr CHR ''-'' \<and> (d \<noteq> 0 \<longrightarrow> ds ! d \<noteq> chr CHR ''0'') \<and> ds ! d \<noteq> 0"

lemma hex_digit_lower: "d < 16 \<Longrightarrow> hex_digit lower_digits d"
proof -
  have "\<forall>d \<in> {0, 1, 2, 3, 4, 5, 6, 7, 8, 9, 10, 11, 12, 13, 14, 15}. hex_digit lower_digits d"
    by (simp add: hex_digit_def lower_digits_def digit_value_def isdigit_iff isxdigit_iff
        islower_iff toupper_range lower_range_def)
  moreover assume "d < 16"
  then have "d \<in> {0, 1, 2, 3, 4, 5, 6, 7, 8, 9, 10, 11, 12, 13, 14, 15}" by simp presburger
  ultimately show ?thesis by blast
qed

lemma hex_digit_upper: "d < 16 \<Longrightarrow> hex_digit upper_digits d"
proof -
  have "\<forall>d \<in> {0, 1, 2, 3, 4, 5, 6, 7, 8, 9, 10, 11, 12, 13, 14, 15}. hex_digit upper_digits d"
    by (simp add: hex_digit_def upper_digits_def digit_value_def isdigit_iff isxdigit_iff
        islower_iff toupper_range lower_range_def)
  moreover assume "d < 16"
  then have "d \<in> {0, 1, 2, 3, 4, 5, 6, 7, 8, 9, 10, 11, 12, 13, 14, 15}" by simp presburger
  ultimately show ?thesis by blast
qed

definition digit_string :: "byte list \<Rightarrow> bool" where
  "digit_string ds \<longleftrightarrow> (\<forall>d < 16. hex_digit ds d)"

lemma digit_strings: "digit_string lower_digits" "digit_string upper_digits"
  by (simp_all add: digit_string_def hex_digit_lower hex_digit_upper)

lemma strtoul_loop_digits:
  assumes "digit_string ds" and "2 \<le> base" and "base \<le> 16"
  shows "strtoul_loop base (rev (number_digits ds num base) @ rest) 0 = strtoul_loop base rest num"
  using assms(2)
proof (induction num arbitrary: rest rule: digits_induct)
  case zero
  then show ?case by simp
next
  case (step num)
  let ?r = "num mod base"
  have lt: "?r < base" using assms(2) by (rule word_mod_lt)
  then have "unat ?r < 16" using assms(3) by (simp add: word_less_nat_alt word_le_nat_alt)
  then have d: "hex_digit ds (unat ?r)" using assms(1) by (simp add: digit_string_def)
  have "strtoul_loop base (rev (number_digits ds num base) @ rest) 0
      = strtoul_loop base (ds ! unat ?r # rest) (num div base)"
    using step.IH [of "ds ! unat ?r # rest"] number_digits_step [OF step.hyps assms(2)] by simp
  also have "\<dots> = strtoul_loop base rest (num div base * base + ?r)"
    using d lt by (simp add: hex_digit_def)
  also have "num div base * base + ?r = num" by (rule div_mult_mod_eq)
  finally show ?case .
qed

text \<open>The highest digit is not 0, so no number is read as octal.\<close>

lemma number_digits_last:
  assumes "digit_string ds" and "2 \<le> base" and "base \<le> 16"
  shows "num \<noteq> 0 \<longrightarrow> last (number_digits ds num base) \<noteq> chr CHR ''0'' \<and>
     last (number_digits ds num base) \<noteq> chr CHR ''-''"
  using assms(2)
proof (induction num rule: digits_induct)
  case zero
  then show ?case by simp
next
  case (step num)
  note eq = number_digits_step [OF step.hyps assms(2)]
  show ?case
  proof (cases "num div base = 0")
    case True
    then have mod: "num mod base = num" using div_mult_mod_eq [of num base] by simp
    have "num mod base < base" using assms(2) by (rule word_mod_lt)
    then have "unat num < 16" using assms(3) mod by (simp add: word_less_nat_alt word_le_nat_alt)
    then have "hex_digit ds (unat num)" using assms(1) by (simp add: digit_string_def)
    then show ?thesis using eq True mod step.hyps by (simp add: hex_digit_def unat_eq_0)
  next
    case False
    then have "number_digits ds (num div base) base \<noteq> []"
      using assms(2) by (intro number_digits_nonempty)
    moreover have "last (number_digits ds (num div base) base) \<noteq> chr CHR ''0'' \<and>
        last (number_digits ds (num div base) base) \<noteq> chr CHR ''-''"
      using step.IH False by blast
    ultimately show ?thesis using eq by simp
  qed
qed

section \<open>number in closed form\<close>

lemma flag_simps:
  "flag 0 f = False" "flag (ty AND NOT ZEROPAD) SIGN = flag ty SIGN"
  "flag (ty AND NOT ZEROPAD) PLUS = flag ty PLUS" "flag (ty AND NOT ZEROPAD) SPACE = flag ty SPACE"
  "flag (ty AND NOT ZEROPAD) LEFT = flag ty LEFT" "flag (ty AND NOT ZEROPAD) SPECIAL = flag ty SPECIAL"
  "flag (ty AND NOT ZEROPAD) ZEROPAD = False"
  by (simp_all add: flag_def flag_defs and.assoc)

lemma flag_pair: "flag ty (ZEROPAD + LEFT) \<longleftrightarrow> flag ty ZEROPAD \<or> flag ty LEFT"
proof -
  have "ZEROPAD + LEFT = ZEROPAD OR LEFT" by (simp add: flag_defs)
  then show ?thesis by (simp add: flag_def bit.conj_disj_distrib or_eq_0_iff)
qed

text \<open>What \<open>number\<close> stores: one run of padding, in one of three places.\<close>

definition sign_chars :: "u32 \<Rightarrow> u32 \<Rightarrow> byte list" where
  "sign_chars num ty =
     (if \<not> flag ty SIGN then []
      else if sint num < 0 then [chr CHR ''-''] else if flag ty PLUS then [chr CHR ''+'']
      else if flag ty SPACE then [chr CHR '' ''] else [])"

definition prefix_chars :: "int \<Rightarrow> u32 \<Rightarrow> byte list" where
  "prefix_chars base ty =
     (if \<not> flag ty SPECIAL then [] else if base = 8 then [chr CHR ''0'']
      else if base = 16 then [chr CHR ''0'', if flag ty LARGE then chr CHR ''X'' else chr CHR ''x'']
      else [])"

definition digit_chars :: "u32 \<Rightarrow> int \<Rightarrow> u32 \<Rightarrow> byte list" where
  "digit_chars num base ty =
     (let num = (if flag ty SIGN \<and> sint num < 0 then - num else num)
      in if num = 0 then [chr CHR ''0'']
         else rev (number_digits (if flag ty LARGE then upper_digits else lower_digits) num
                    (word_of_int base)))"

lemma digits_33: "lower_digits ! 33 = chr CHR ''x''" "upper_digits ! 33 = chr CHR ''X''"
  by (simp_all add: lower_digits_def upper_digits_def)

lemma chr_ne_0: "chr CHR ''-'' \<noteq> 0" "chr CHR ''+'' \<noteq> 0" "chr CHR '' '' \<noteq> 0"
  by simp_all

lemma number_sign_eq:
  "number_sign num sz ty =
     (case sign_chars num ty of [] \<Rightarrow> 0 | c # _ \<Rightarrow> c,
      if flag ty SIGN \<and> sint num < 0 then - num else num, sz - int (length (sign_chars num ty)))"
  by (simp add: number_sign_def sign_chars_def)

lemma sign_chars_out:
  "(if (case sign_chars num ty of [] \<Rightarrow> 0 | c # _ \<Rightarrow> c) \<noteq> 0
    then [case sign_chars num ty of [] \<Rightarrow> 0 | c # _ \<Rightarrow> c] else []) = sign_chars num ty"
  by (simp add: sign_chars_def)

definition number_pad :: "u32 \<Rightarrow> int \<Rightarrow> int \<Rightarrow> int \<Rightarrow> u32 \<Rightarrow> nat" where
  "number_pad num base sz precision ty =
     nat (sz - int (length (sign_chars num ty)) - int (length (prefix_chars base ty))
          - max precision (int (length (digit_chars num base ty))))"

lemma number_eq:
  assumes "2 \<le> base" and "base \<le> 36"
  shows "number num base sz precision ty =
     Some (let n = number_pad num base sz precision ty;
               digits = replicate (nat (precision - int (length (digit_chars num base ty)))) (chr CHR ''0'')
                        @ digit_chars num base ty;
               pre = sign_chars num ty @ prefix_chars base ty
           in if flag ty LEFT then pre @ digits @ replicate n (chr CHR '' '')
              else if flag ty ZEROPAD then pre @ replicate n (chr CHR ''0'') @ digits
              else replicate n (chr CHR '' '') @ pre @ digits)"
proof -
  let ?neg = "if flag ty SIGN \<and> sint num < 0 then - num else num"
  let ?ds = "if flag ty LARGE then upper_digits else lower_digits"
  have tmp: "(if ?neg = 0 then [chr CHR ''0''] else number_digits ?ds ?neg (word_of_int base))
     = rev (digit_chars num base ty)"
    by (simp add: digit_chars_def Let_def)
  have pre: "(if flag ty SPECIAL
       then if base = 8 then [chr CHR ''0''] else if base = 16 then [chr CHR ''0'', ?ds ! 33] else []
       else []) = prefix_chars base ty"
    by (simp add: prefix_chars_def digits_33)
  have sz: "(if flag ty SPECIAL then if base = 16 then k - 2 else if base = 8 then k - 1 else k else k)
     = k - int (length (prefix_chars base ty))" for k
    by (simp add: prefix_chars_def)
  have ty': "flag (if flag ty LEFT then ty AND NOT ZEROPAD else ty) f = flag ty f"
    if "f \<in> {SIGN, PLUS, SPACE, LEFT, SPECIAL}" for f
    using that by (auto simp: flag_simps)
  have sign': "number_sign num sz (if flag ty LEFT then ty AND NOT ZEROPAD else ty) = number_sign num sz ty"
    by (simp add: number_sign_def ty')
  have max: "(if i > precision then i else precision) = max precision i" for i :: int
    by simp
  have base: "(base < 2 \<or> 36 < base) = False" using assms by simp
  have len: "int (length (rev (digit_chars num base ty))) = int (length (digit_chars num base ty))"
    by simp
  have one: "nat (if k > 0 then -1 else k - 1) = 0" for k :: int by simp
  have pz: "nat (max precision l - l) = nat (precision - l)" for l :: int by simp
  note unf = number_def Let_def sign' number_sign_eq prod.case tmp pre sz max sign_chars_out loop_eqs
    flag_pair base if_False len rev_rev_ident pz
  consider (L) "flag ty LEFT" | (Z) "\<not> flag ty LEFT" "flag ty ZEROPAD"
    | (N) "\<not> flag ty LEFT" "\<not> flag ty ZEROPAD" by blast
  then show ?thesis
  proof cases
    case L
    then have t: "(if flag ty LEFT then ty AND NOT ZEROPAD else ty) = ty AND NOT ZEROPAD"
      "flag ty LEFT = True" by simp_all
    show ?thesis
      unfolding unf ty' [of SPECIAL, simplified] ty' [of LEFT, simplified] t flag_simps
        simp_thms if_True prod.case number_pad_def by (simp add: sign_chars_def flag_simps)
  next
    case Z
    then have t: "flag ty LEFT = False" "flag ty ZEROPAD = True" by simp_all
    show ?thesis
      unfolding unf t flag_simps simp_thms if_True if_False prod.case number_pad_def one by simp
  next
    case N
    then have t: "flag ty LEFT = False" "flag ty ZEROPAD = False" by simp_all
    show ?thesis
      unfolding unf t flag_simps simp_thms if_True if_False prod.case number_pad_def one by simp
  qed
qed

lemma number_none: "base < 2 \<or> 36 < base \<Longrightarrow> number num base sz precision ty = None"
  by (auto simp: number_def Let_def)

text \<open>A field is never narrower than its width, and wider only if the number needs it.\<close>

lemma number_length:
  assumes "2 \<le> base" and "base \<le> 36" and "number num base sz precision ty = Some out"
  shows "int (length out) = max sz (int (length (sign_chars num ty)) + int (length (prefix_chars base ty))
           + max precision (int (length (digit_chars num base ty))))"
  using assms(3) unfolding number_eq [OF assms(1,2)]
  by (auto simp: Let_def number_pad_def split: if_splits)

lemma number_plain:
  assumes "2 \<le> base" and "base \<le> 36" and "\<not> flag ty LEFT" and "\<not> flag ty ZEROPAD"
  shows "number num base (-1) (-1) ty =
     Some (sign_chars num ty @ prefix_chars base ty @ digit_chars num base ty)"
  unfolding number_eq [OF assms(1,2)] using assms(3,4) by (simp add: Let_def number_pad_def)

section \<open>Reading back what was printed\<close>

lemma word_of_int_bounds:
  "2 \<le> base \<Longrightarrow> base \<le> 16 \<Longrightarrow> (2 :: u32) \<le> word_of_int base \<and> word_of_int base \<le> (16 :: u32)"
  by (auto simp: word_le_def uint_word_of_int_eq take_bit_int_eq_self)

lemma digit_chars_parse:
  fixes num :: u32
  assumes "2 \<le> base" and "base \<le> 16" and "\<not> (flag ty SIGN \<and> sint num < 0)"
  shows "simple_strtoul (digit_chars num base ty) (word_of_int base) = (num, [])"
    and "strtoul_loop (word_of_int base) (digit_chars num base ty) 0 = (num, [])"
    and "peek (digit_chars num base ty) \<noteq> chr CHR ''-''"
proof -
  let ?b = "word_of_int base :: u32"
  let ?ds = "if flag ty LARGE then upper_digits else lower_digits"
  have ds: "digit_string ?ds" using digit_strings by simp
  have b: "2 \<le> ?b" "?b \<le> 16" using word_of_int_bounds [OF assms(1,2)] by auto
  then have b0: "?b \<noteq> 0" by auto
  have zero: "digit_value (chr CHR ''0'') = (0 :: u32)" "isxdigit (chr CHR ''0'')"
    by (simp_all add: digit_value_def isdigit_iff isxdigit_iff)
  have pos: "0 < ?b" using b0 by (simp add: word_neq_0_conv)
  have loop: "strtoul_loop ?b (rev (number_digits ?ds num ?b)) 0 = (num, [])"
    using strtoul_loop_digits [OF ds b, of num "[]"] by simp
  show parse: "strtoul_loop ?b (digit_chars num base ty) 0 = (num, [])"
    using assms(3) loop zero pos by (auto simp: digit_chars_def Let_def)
  have hd: "num \<noteq> 0 \<Longrightarrow> peek (digit_chars num base ty) = last (number_digits ?ds num ?b)"
    using assms(3) number_digits_nonempty [OF _ b(1), of num ?ds]
    by (auto simp: digit_chars_def Let_def peek_def hd_rev split: list.splits)
      (metis hd_rev list.sel(1))+
  have ne: "num \<noteq> 0 \<Longrightarrow> peek (digit_chars num base ty) \<noteq> chr CHR ''0'' \<and>
      peek (digit_chars num base ty) \<noteq> chr CHR ''-''"
    using hd number_digits_last [OF ds b, of num] by simp
  have z: "num = 0 \<Longrightarrow> digit_chars num base ty = [chr CHR ''0'']"
    by (simp add: digit_chars_def)
  show "peek (digit_chars num base ty) \<noteq> chr CHR ''-''"
    using ne z by (cases "num = 0") auto
  show "simple_strtoul (digit_chars num base ty) ?b = (num, [])"
    using ne z parse b0 zero pos
    by (cases "num = 0") (simp_all add: simple_strtoul_def strtoul_prefix_def)
qed

lemma digit_chars_unsigned: "\<not> flag ty SIGN \<Longrightarrow> flag ty' SIGN \<Longrightarrow> flag ty LARGE = flag ty' LARGE \<Longrightarrow>
   sint num < 0 \<Longrightarrow> digit_chars num base ty' = digit_chars (- num) base ty"
  by (simp add: digit_chars_def)

section \<open>Conversions\<close>

lemma plain_flags:
  "\<not> flag 0 f" "\<not> flag SIGN LEFT" "\<not> flag SIGN ZEROPAD" "\<not> flag SIGN SPECIAL" "\<not> flag SIGN LARGE"
  "\<not> flag LARGE LEFT" "\<not> flag LARGE ZEROPAD" "\<not> flag LARGE SIGN" "\<not> flag LARGE SPECIAL"
  "flag SIGN SIGN" "\<not> flag SIGN PLUS" "\<not> flag SIGN SPACE"
  by (simp_all add: flag_def flag_defs)

lemma int_conversion_chars:
  "int_conversion c = Some bf \<Longrightarrow>
   c \<in> {chr CHR ''o'', chr CHR ''X'', chr CHR ''x'', chr CHR ''d'', chr CHR ''i'', chr CHR ''u''}"
  by (auto simp: int_conversion_def split: if_splits)

lemma convert_int:
  assumes "int_conversion (peek (fs_fmt st)) = Some (base, fl)" and "fs_args st = ArgInt w # args"
  shows "convert st n =
     (let st' = st\<lparr>fs_flags := fs_flags st OR fl\<rparr>
      in map_option (\<lambda>out. (out, [], st\<lparr>fs_fmt := tl (fs_fmt st), fs_args := args\<rparr>))
           (number (int_arg st' w) base (fs_width st) (fs_precision st) (fs_flags st OR fl)))"
proof -
  have "peek (fs_fmt st) \<notin> {chr CHR ''c'', chr CHR ''s'', chr CHR ''p'', chr CHR ''n'', chr CHR ''%''}"
    using int_conversion_chars [OF assms(1)] by auto
  then show ?thesis by (simp add: convert_def assms Let_def)
qed

lemma parse_spec_plain:
  assumes "int_conversion c = Some bf \<or> c = chr CHR ''s''"
  shows "parse_spec (c # fmt) args =
     Some \<lparr>fs_fmt = c # fmt, fs_args = args, fs_flags = 0, fs_width = -1, fs_precision = -1,
       fs_qualifier = 0\<rparr>"
proof -
  have "c \<in> {chr CHR ''o'', chr CHR ''X'', chr CHR ''x'', chr CHR ''d'', chr CHR ''i'', chr CHR ''u'',
      chr CHR ''s''}"
    using assms int_conversion_chars by blast
  then show ?thesis
    by (auto simp: parse_spec_def get_width_def is_digit_def get_precision_def get_qualifier_def)
qed

lemma vsprintf_loop_int:
  assumes "int_conversion c = Some (base, fl)" and "2 \<le> base" and "base \<le> 36"
    and "\<not> flag fl LEFT" and "\<not> flag fl ZEROPAD" and "\<not> flag fl SPECIAL"
  shows "vsprintf_loop (chr CHR ''%'' # c # fmt) (ArgInt w # args) out ns =
     vsprintf_loop fmt args (out @ sign_chars w fl @ digit_chars w base fl) ns"
  using assms
  by (simp add: parse_spec_plain [OF disjI1 [OF assms(1)]] convert_int number_plain int_arg_def
      prefix_chars_def Let_def)

lemma unat_minus_1: "unat (-1 :: u32) = 4294967295"
  by (simp add: unsigned_minus_1_eq_mask mask_eq_exp_minus_1)

lemma vsprintf_loop_str:
  "vsprintf_loop (chr CHR ''%'' # chr CHR ''s'' # fmt) (ArgStr (Some s) # args) out ns =
   vsprintf_loop fmt args (out @ take 4294967295 s) ns"
  by (simp add: parse_spec_plain convert_def format_str_def plain_flags upto_loop_eq min_def
      unat_minus_1 Let_def)

lemma vsprintf_loop_lit:
  "chr CHR ''%'' \<notin> set xs \<Longrightarrow>
   vsprintf_loop (xs @ fmt) args out ns = vsprintf_loop fmt args (out @ xs) ns"
  by (induction xs arbitrary: out) simp_all

section \<open>Properties\<close>

text \<open>
  C32. Whatever unsigned conversion prints, \<open>simple_strtoul\<close> reads back: for every 32-bit value,
  \<open>sprintf\<close> with \<open>%u\<close>, \<open>%x\<close>, \<open>%X\<close> or \<open>%o\<close> succeeds, and parsing the output in the conversion's
  base returns exactly the value and consumes the whole string.
\<close>

theorem print_parse_unsigned:
  assumes "(fmt, base) \<in> {(''%u'', 10), (''%x'', 16), (''%X'', 16), (''%o'', 8)}"
  shows "\<exists>out. sprintf fmt [ArgInt n] = Some out \<and> simple_strtoul out base = (n, [])"
proof -
  have main: "\<exists>out. sprintf [CHR ''%'', ch] [ArgInt n] = Some out \<and> simple_strtoul out (word_of_int b) = (n, [])"
    if "int_conversion (of_char ch) = Some (b, fl)" and "2 \<le> b" and "b \<le> 16"
      and "\<not> flag fl LEFT" "\<not> flag fl ZEROPAD" "\<not> flag fl SPECIAL" "\<not> flag fl SIGN" for ch b fl
    using that vsprintf_loop_int [OF that(1), of "[]" n "[]" "[]" "[]"]
      digit_chars_parse(1) [of b fl n]
    by (simp add: sprintf_def vsprintf_def sign_chars_def)
  show ?thesis
    using assms main [of "CHR ''u''" 10 0] main [of "CHR ''x''" 16 0] main [of "CHR ''X''" 16 LARGE]
      main [of "CHR ''o''" 8 0]
    by (auto simp: int_conversion_def plain_flags)
qed

theorem print_parse_unsigned_witness:
  "\<exists>out. sprintf ''%x'' [ArgInt 3735928559] = Some out \<and> simple_strtoul out 16 = (3735928559, [])"
  by (rule print_parse_unsigned) simp

text \<open>
  The signed conversions \<open>%d\<close> and \<open>%i\<close> are read back by \<open>simple_strtol\<close>: for every 32-bit
  \<open>int\<close>, the most negative one included (whose negation wraps to itself).
\<close>

theorem print_parse_signed:
  "\<exists>out. sprintf ''%d'' [ArgInt n] = Some out \<and> sprintf ''%i'' [ArgInt n] = Some out \<and>
     simple_strtol out 10 = (n, [])"
proof -
  let ?out = "sign_chars n SIGN @ digit_chars n 10 SIGN"
  have "int_conversion (chr CHR ''d'') = Some (10, SIGN)" "int_conversion (chr CHR ''i'') = Some (10, SIGN)"
    by (simp_all add: int_conversion_def)
  from this [THEN vsprintf_loop_int, of "[]" n "[]" "[]" "[]"]
  have out: "sprintf ''%d'' [ArgInt n] = Some ?out" "sprintf ''%i'' [ArgInt n] = Some ?out"
    by (simp_all add: sprintf_def vsprintf_def plain_flags)
  have "simple_strtol ?out 10 = (n, [])"
  proof (cases "sint n < 0")
    case True
    have "digit_chars n 10 SIGN = digit_chars (- n) 10 0"
      using True by (intro digit_chars_unsigned) (simp_all add: plain_flags)
    with True digit_chars_parse(1) [of 10 0 "- n"] show ?thesis
      by (simp add: sign_chars_def plain_flags simple_strtol_def)
  next
    case False
    with digit_chars_parse(1,3) [of 10 SIGN n] show ?thesis
      by (simp add: sign_chars_def plain_flags simple_strtol_def)
  qed
  with out show ?thesis by blast
qed

text \<open>
  C33. A formatted field is never truncated and never narrower than asked: for every base that
  \<open>number\<close> accepts and all flags, its output is exactly as long as the wider of the field width
  and the sign, prefix and digits (zero-extended to the precision); the digits themselves are at
  most 32, so the scratch buffer \<open>tmp[66]\<close> cannot overflow.
\<close>

theorem number_field:
  assumes "2 \<le> base" and "base \<le> 36"
  shows "\<exists>out. number num base sz precision ty = Some out \<and>
     int (length out) = max sz (int (length (sign_chars num ty)) + int (length (prefix_chars base ty))
       + max precision (int (length (digit_chars num base ty)))) \<and>
     length (digit_chars num base ty) \<le> 32"
proof -
  have "length (digit_chars num base ty) \<le> 32"
    by (simp add: digit_chars_def number_digits_length Let_def)
  moreover obtain out where "number num base sz precision ty = Some out"
    using number_eq [OF assms] by blast
  ultimately show ?thesis using number_length [OF assms] by blast
qed

theorem number_field_witness:
  "\<exists>out. number 255 16 8 (-1) ZEROPAD = Some out \<and>
     int (length out) = max 8 (int (length (sign_chars 255 ZEROPAD)) + int (length (prefix_chars 16 ZEROPAD))
       + max (-1) (int (length (digit_chars 255 16 ZEROPAD)))) \<and>
     length (digit_chars 255 16 ZEROPAD) \<le> 32"
  by (rule number_field) simp_all

end
