(* ===== verification/Crc.thy ===== *)
theory Crc imports Prelude begin

text \<open>
  Checksums: \<open>lib_generic/crc32.c\<close> (the CRC-32 of the environment, of images and of JFFS2) and
  \<open>common/crc16.c\<close> (the CRC-16 of the X/Y-modem loader). \<open>uLong\<close> is 32 bits.
\<close>

section \<open>The tables\<close>

definition crc_table :: "u32 list" where
  "crc_table =
    [0x00000000, 0x77073096, 0xee0e612c, 0x990951ba, 0x076dc419, 0x706af48f, 0xe963a535, 0x9e6495a3,
     0x0edb8832, 0x79dcb8a4, 0xe0d5e91e, 0x97d2d988, 0x09b64c2b, 0x7eb17cbd, 0xe7b82d07, 0x90bf1d91,
     0x1db71064, 0x6ab020f2, 0xf3b97148, 0x84be41de, 0x1adad47d, 0x6ddde4eb, 0xf4d4b551, 0x83d385c7,
     0x136c9856, 0x646ba8c0, 0xfd62f97a, 0x8a65c9ec, 0x14015c4f, 0x63066cd9, 0xfa0f3d63, 0x8d080df5,
     0x3b6e20c8, 0x4c69105e, 0xd56041e4, 0xa2677172, 0x3c03e4d1, 0x4b04d447, 0xd20d85fd, 0xa50ab56b,
     0x35b5a8fa, 0x42b2986c, 0xdbbbc9d6, 0xacbcf940, 0x32d86ce3, 0x45df5c75, 0xdcd60dcf, 0xabd13d59,
     0x26d930ac, 0x51de003a, 0xc8d75180, 0xbfd06116, 0x21b4f4b5, 0x56b3c423, 0xcfba9599, 0xb8bda50f,
     0x2802b89e, 0x5f058808, 0xc60cd9b2, 0xb10be924, 0x2f6f7c87, 0x58684c11, 0xc1611dab, 0xb6662d3d,
     0x76dc4190, 0x01db7106, 0x98d220bc, 0xefd5102a, 0x71b18589, 0x06b6b51f, 0x9fbfe4a5, 0xe8b8d433,
     0x7807c9a2, 0x0f00f934, 0x9609a88e, 0xe10e9818, 0x7f6a0dbb, 0x086d3d2d, 0x91646c97, 0xe6635c01,
     0x6b6b51f4, 0x1c6c6162, 0x856530d8, 0xf262004e, 0x6c0695ed, 0x1b01a57b, 0x8208f4c1, 0xf50fc457,
     0x65b0d9c6, 0x12b7e950, 0x8bbeb8ea, 0xfcb9887c, 0x62dd1ddf, 0x15da2d49, 0x8cd37cf3, 0xfbd44c65,
     0x4db26158, 0x3ab551ce, 0xa3bc0074, 0xd4bb30e2, 0x4adfa541, 0x3dd895d7, 0xa4d1c46d, 0xd3d6f4fb,
     0x4369e96a, 0x346ed9fc, 0xad678846, 0xda60b8d0, 0x44042d73, 0x33031de5, 0xaa0a4c5f, 0xdd0d7cc9,
     0x5005713c, 0x270241aa, 0xbe0b1010, 0xc90c2086, 0x5768b525, 0x206f85b3, 0xb966d409, 0xce61e49f,
     0x5edef90e, 0x29d9c998, 0xb0d09822, 0xc7d7a8b4, 0x59b33d17, 0x2eb40d81, 0xb7bd5c3b, 0xc0ba6cad,
     0xedb88320, 0x9abfb3b6, 0x03b6e20c, 0x74b1d29a, 0xead54739, 0x9dd277af, 0x04db2615, 0x73dc1683,
     0xe3630b12, 0x94643b84, 0x0d6d6a3e, 0x7a6a5aa8, 0xe40ecf0b, 0x9309ff9d, 0x0a00ae27, 0x7d079eb1,
     0xf00f9344, 0x8708a3d2, 0x1e01f268, 0x6906c2fe, 0xf762575d, 0x806567cb, 0x196c3671, 0x6e6b06e7,
     0xfed41b76, 0x89d32be0, 0x10da7a5a, 0x67dd4acc, 0xf9b9df6f, 0x8ebeeff9, 0x17b7be43, 0x60b08ed5,
     0xd6d6a3e8, 0xa1d1937e, 0x38d8c2c4, 0x4fdff252, 0xd1bb67f1, 0xa6bc5767, 0x3fb506dd, 0x48b2364b,
     0xd80d2bda, 0xaf0a1b4c, 0x36034af6, 0x41047a60, 0xdf60efc3, 0xa867df55, 0x316e8eef, 0x4669be79,
     0xcb61b38c, 0xbc66831a, 0x256fd2a0, 0x5268e236, 0xcc0c7795, 0xbb0b4703, 0x220216b9, 0x5505262f,
     0xc5ba3bbe, 0xb2bd0b28, 0x2bb45a92, 0x5cb36a04, 0xc2d7ffa7, 0xb5d0cf31, 0x2cd99e8b, 0x5bdeae1d,
     0x9b64c2b0, 0xec63f226, 0x756aa39c, 0x026d930a, 0x9c0906a9, 0xeb0e363f, 0x72076785, 0x05005713,
     0x95bf4a82, 0xe2b87a14, 0x7bb12bae, 0x0cb61b38, 0x92d28e9b, 0xe5d5be0d, 0x7cdcefb7, 0x0bdbdf21,
     0x86d3d2d4, 0xf1d4e242, 0x68ddb3f8, 0x1fda836e, 0x81be16cd, 0xf6b9265b, 0x6fb077e1, 0x18b74777,
     0x88085ae6, 0xff0f6a70, 0x66063bca, 0x11010b5c, 0x8f659eff, 0xf862ae69, 0x616bffd3, 0x166ccf45,
     0xa00ae278, 0xd70dd2ee, 0x4e048354, 0x3903b3c2, 0xa7672661, 0xd06016f7, 0x4969474d, 0x3e6e77db,
     0xaed16a4a, 0xd9d65adc, 0x40df0b66, 0x37d83bf0, 0xa9bcae53, 0xdebb9ec5, 0x47b2cf7f, 0x30b5ffe9,
     0xbdbdf21c, 0xcabac28a, 0x53b39330, 0x24b4a3a6, 0xbad03605, 0xcdd70693, 0x54de5729, 0x23d967bf,
     0xb3667a2e, 0xc4614ab8, 0x5d681b02, 0x2a6f2b94, 0xb40bbe37, 0xc30c8ea1, 0x5a05df1b, 0x2d02ef8d]"

definition crc16_tab :: "u16 list" where
  "crc16_tab =
    [0x0000, 0x1021, 0x2042, 0x3063, 0x4084, 0x50a5, 0x60c6, 0x70e7, 0x8108, 0x9129, 0xa14a, 0xb16b,
     0xc18c, 0xd1ad, 0xe1ce, 0xf1ef, 0x1231, 0x0210, 0x3273, 0x2252, 0x52b5, 0x4294, 0x72f7, 0x62d6,
     0x9339, 0x8318, 0xb37b, 0xa35a, 0xd3bd, 0xc39c, 0xf3ff, 0xe3de, 0x2462, 0x3443, 0x0420, 0x1401,
     0x64e6, 0x74c7, 0x44a4, 0x5485, 0xa56a, 0xb54b, 0x8528, 0x9509, 0xe5ee, 0xf5cf, 0xc5ac, 0xd58d,
     0x3653, 0x2672, 0x1611, 0x0630, 0x76d7, 0x66f6, 0x5695, 0x46b4, 0xb75b, 0xa77a, 0x9719, 0x8738,
     0xf7df, 0xe7fe, 0xd79d, 0xc7bc, 0x48c4, 0x58e5, 0x6886, 0x78a7, 0x0840, 0x1861, 0x2802, 0x3823,
     0xc9cc, 0xd9ed, 0xe98e, 0xf9af, 0x8948, 0x9969, 0xa90a, 0xb92b, 0x5af5, 0x4ad4, 0x7ab7, 0x6a96,
     0x1a71, 0x0a50, 0x3a33, 0x2a12, 0xdbfd, 0xcbdc, 0xfbbf, 0xeb9e, 0x9b79, 0x8b58, 0xbb3b, 0xab1a,
     0x6ca6, 0x7c87, 0x4ce4, 0x5cc5, 0x2c22, 0x3c03, 0x0c60, 0x1c41, 0xedae, 0xfd8f, 0xcdec, 0xddcd,
     0xad2a, 0xbd0b, 0x8d68, 0x9d49, 0x7e97, 0x6eb6, 0x5ed5, 0x4ef4, 0x3e13, 0x2e32, 0x1e51, 0x0e70,
     0xff9f, 0xefbe, 0xdfdd, 0xcffc, 0xbf1b, 0xaf3a, 0x9f59, 0x8f78, 0x9188, 0x81a9, 0xb1ca, 0xa1eb,
     0xd10c, 0xc12d, 0xf14e, 0xe16f, 0x1080, 0x00a1, 0x30c2, 0x20e3, 0x5004, 0x4025, 0x7046, 0x6067,
     0x83b9, 0x9398, 0xa3fb, 0xb3da, 0xc33d, 0xd31c, 0xe37f, 0xf35e, 0x02b1, 0x1290, 0x22f3, 0x32d2,
     0x4235, 0x5214, 0x6277, 0x7256, 0xb5ea, 0xa5cb, 0x95a8, 0x8589, 0xf56e, 0xe54f, 0xd52c, 0xc50d,
     0x34e2, 0x24c3, 0x14a0, 0x0481, 0x7466, 0x6447, 0x5424, 0x4405, 0xa7db, 0xb7fa, 0x8799, 0x97b8,
     0xe75f, 0xf77e, 0xc71d, 0xd73c, 0x26d3, 0x36f2, 0x0691, 0x16b0, 0x6657, 0x7676, 0x4615, 0x5634,
     0xd94c, 0xc96d, 0xf90e, 0xe92f, 0x99c8, 0x89e9, 0xb98a, 0xa9ab, 0x5844, 0x4865, 0x7806, 0x6827,
     0x18c0, 0x08e1, 0x3882, 0x28a3, 0xcb7d, 0xdb5c, 0xeb3f, 0xfb1e, 0x8bf9, 0x9bd8, 0xabbb, 0xbb9a,
     0x4a75, 0x5a54, 0x6a37, 0x7a16, 0x0af1, 0x1ad0, 0x2ab3, 0x3a92, 0xfd2e, 0xed0f, 0xdd6c, 0xcd4d,
     0xbdaa, 0xad8b, 0x9de8, 0x8dc9, 0x7c26, 0x6c07, 0x5c64, 0x4c45, 0x3ca2, 0x2c83, 0x1ce0, 0x0cc1,
     0xef1f, 0xff3e, 0xcf5d, 0xdf7c, 0xaf9b, 0xbfba, 0x8fd9, 0x9ff8, 0x6e17, 0x7e36, 0x4e55, 0x5e74,
     0x2e93, 0x3eb2, 0x0ed1, 0x1ef0]"

text \<open>
  With \<open>DYNAMIC_CRC_TABLE\<close> the table is computed: the exclusive-or pattern from the terms of the
  polynomial, then eight shift steps for each byte value.
\<close>

definition crc_terms :: "nat list" where
  "crc_terms = [0, 1, 2, 4, 5, 7, 8, 10, 11, 12, 16, 22, 23, 26]"

definition make_poly :: "u32" where
  "make_poly = foldl (\<lambda>poly t. poly OR push_bit (31 - t) 1) 0 crc_terms"

primrec make_entry :: "nat \<Rightarrow> u32 \<Rightarrow> u32 \<Rightarrow> u32" where
  "make_entry 0 poly c = c"
| "make_entry (Suc k) poly c =
     make_entry k poly (if c AND 1 \<noteq> 0 then poly XOR drop_bit 1 c else drop_bit 1 c)"

definition make_crc_table :: "u32 list" where
  "make_crc_table = map (\<lambda>n. make_entry 8 make_poly (of_nat n)) [0..<256]"

section \<open>The byte loops\<close>

definition DO1 :: "mem \<Rightarrow> u32 \<times> nat \<Rightarrow> u32 \<times> nat" where
  "DO1 m s = (case s of (crc, buf) \<Rightarrow>
     (crc_table ! unat ((crc XOR ucast (m buf)) AND 0xff) XOR drop_bit 8 crc, Suc buf))"
definition DO2 :: "mem \<Rightarrow> u32 \<times> nat \<Rightarrow> u32 \<times> nat" where "DO2 m s = DO1 m (DO1 m s)"
definition DO4 :: "mem \<Rightarrow> u32 \<times> nat \<Rightarrow> u32 \<times> nat" where "DO4 m s = DO2 m (DO2 m s)"
definition DO8 :: "mem \<Rightarrow> u32 \<times> nat \<Rightarrow> u32 \<times> nat" where "DO8 m s = DO4 m (DO4 m s)"

primrec crc_tail :: "mem \<Rightarrow> u32 \<times> nat \<Rightarrow> nat \<Rightarrow> u32 \<times> nat" where
  "crc_tail m s 0 = s"
| "crc_tail m s (Suc len) = crc_tail m (DO1 m s) len"

fun crc_loop :: "mem \<Rightarrow> u32 \<times> nat \<Rightarrow> nat \<Rightarrow> u32 \<times> nat" where
  "crc_loop m s len = (if 8 \<le> len then crc_loop m (DO8 m s) (len - 8) else crc_tail m s len)"

declare crc_loop.simps [simp del]

definition crc32_no_comp :: "mem \<Rightarrow> u32 \<Rightarrow> nat \<Rightarrow> nat \<Rightarrow> u32" where
  "crc32_no_comp m crc buf len = fst (crc_loop m (crc, buf) len)"

definition crc32 :: "mem \<Rightarrow> u32 \<Rightarrow> nat \<Rightarrow> nat \<Rightarrow> u32" where
  "crc32 m crc buf len =
     fst (crc_loop m (crc XOR 0xffffffff, buf) len) XOR 0xffffffff"

primrec crc16_loop :: "mem \<Rightarrow> nat \<Rightarrow> nat \<Rightarrow> u16 \<Rightarrow> u16" where
  "crc16_loop m buf 0 cksum = cksum"
| "crc16_loop m buf (Suc len) cksum =
     crc16_loop m (Suc buf) len
       (crc16_tab ! unat ((drop_bit 8 cksum XOR ucast (m buf)) AND 0xFF) XOR push_bit 8 cksum)"

text \<open>The \<open>int len\<close> of \<open>cyg_crc16\<close>: no round when it is not positive.\<close>

definition cyg_crc16 :: "mem \<Rightarrow> nat \<Rightarrow> int \<Rightarrow> u16" where
  "cyg_crc16 m buf len = crc16_loop m buf (nat len) 0"

section \<open>Cyclic codes\<close>

text \<open>
  What both checksums share: a register map \<open>F\<close> (the register after one zero byte) that is linear
  over exclusive-or and loses nothing, and an embedding \<open>emb\<close> of a byte into the register.
\<close>

locale cyclic_code =
  fixes F :: "'w::len word \<Rightarrow> 'w word" and emb :: "byte \<Rightarrow> 'w word"
  assumes F_xor: "F (a XOR b) = F a XOR F b"
    and F_zero: "F a = 0 \<Longrightarrow> a = 0"
    and emb_xor: "emb (x XOR y) = emb x XOR emb y"
    and emb_zero: "emb x = 0 \<Longrightarrow> x = 0"
begin

definition run :: "'w word \<Rightarrow> byte list \<Rightarrow> 'w word" where
  "run c xs = foldl (\<lambda>c x. F (c XOR emb x)) c xs"

lemma run_Nil [simp]: "run c [] = c"
  by (simp add: run_def)

lemma run_Cons [simp]: "run c (x # xs) = run (F (c XOR emb x)) xs"
  by (simp add: run_def)

lemma run_append: "run c (xs @ ys) = run (run c xs) ys"
  by (simp add: run_def)

lemma F_inj: "F a = F b \<Longrightarrow> a = b"
  using F_zero [of "a XOR b"] by (simp add: F_xor)

lemma emb_inj: "emb a = emb b \<Longrightarrow> a = b"
  using emb_zero [of "a XOR b"] by (simp add: emb_xor)

lemma run_inj: "run c xs = run d xs \<Longrightarrow> c = d"
proof (induction xs arbitrary: c d)
  case Nil
  then show ?case by simp
next
  case (Cons x xs)
  have "F (c XOR emb x) = F (d XOR emb x)" by (rule Cons.IH) (use Cons.prems in simp)
  then show ?case by (auto dest: F_inj)
qed

text \<open>Linearity: the difference of two checksums depends on the difference of the data only.\<close>

lemma run_xor:
  "length xs = length ys \<Longrightarrow> run (c XOR d) (map2 (XOR) xs ys) = run c xs XOR run d ys"
proof (induction xs ys arbitrary: c d rule: list_induct2)
  case Nil
  then show ?case by simp
next
  case (Cons x xs y ys)
  have "(c XOR d) XOR emb (x XOR y) = (c XOR emb x) XOR (d XOR emb y)"
    by (simp add: emb_xor xor.assoc xor.left_commute)
  then have "F ((c XOR d) XOR emb (x XOR y)) = F (c XOR emb x) XOR F (d XOR emb y)"
    by (simp only: F_xor)
  then show ?case by (simp only: run_Cons list.map prod.case zip_Cons_Cons Cons.IH)
qed

lemma detects_byte: "x \<noteq> y \<Longrightarrow> run c (xs @ x # ys) \<noteq> run c (xs @ y # ys)"
  by (auto simp: run_append dest!: run_inj F_inj emb_inj)

end

text \<open>
  A register of \<open>width\<close> bytes: \<open>place i x\<close> is the register that holds \<open>x\<close> where a byte fed \<open>i\<close>
  rounds later would be added, \<open>sel i\<close> reads that place. Then up to \<open>width\<close> changed bytes in a row
  always change the checksum.
\<close>

locale burst_code = cyclic_code F emb for F :: "'w::len word \<Rightarrow> 'w word" and emb :: "byte \<Rightarrow> 'w word" +
  fixes place :: "nat \<Rightarrow> byte \<Rightarrow> 'w word" and sel :: "nat \<Rightarrow> 'w word \<Rightarrow> byte" and width :: nat
  assumes place_0: "place 0 x = emb x"
    and place_Suc: "Suc i < width \<Longrightarrow> F (place (Suc i) x) = place i x"
    and sel_xor: "sel i (a XOR b) = sel i a XOR sel i b"
    and sel_place: "i < width \<Longrightarrow> j < width \<Longrightarrow> sel i (place j x) = (if i = j then x else 0)"
begin

primrec pack :: "nat \<Rightarrow> byte list \<Rightarrow> 'w word" where
  "pack i [] = 0"
| "pack i (x # xs) = place i x XOR pack (Suc i) xs"

lemma F_0: "F 0 = 0"
  using F_xor [of 0 0] by simp

lemma sel_0: "sel i 0 = 0"
  using sel_xor [of i 0 0] by simp

lemma F_pack: "Suc i + length xs \<le> width \<Longrightarrow> F (pack (Suc i) xs) = pack i xs"
  by (induction xs arbitrary: i) (simp_all add: F_0 F_xor place_Suc)

lemma sel_pack:
  "i + length xs \<le> width \<Longrightarrow> j < width \<Longrightarrow>
   sel j (pack i xs) = (if i \<le> j \<and> j < i + length xs then xs ! (j - i) else 0)"
proof (induction xs arbitrary: i)
  case Nil
  then show ?case by (auto simp: sel_0)
next
  case (Cons x xs)
  then show ?case by (auto simp: sel_xor sel_place nth_Cons' Suc_le_eq)
qed

lemma run_pack: "length xs \<le> width \<Longrightarrow> run c xs = (F ^^ length xs) (c XOR pack 0 xs)"
proof (induction xs arbitrary: c)
  case Nil
  then show ?case by simp
next
  case (Cons x xs)
  have "run c (x # xs) = (F ^^ length xs) (F (c XOR emb x) XOR pack 0 xs)"
    using Cons by simp
  also have "pack 0 xs = F (pack (Suc 0) xs)"
    using Cons.prems by (simp add: F_pack)
  also have "F (c XOR emb x) XOR F (pack (Suc 0) xs) = F (c XOR pack 0 (x # xs))"
    by (simp add: place_0 xor.assoc flip: F_xor)
  finally show ?case by (simp add: funpow_swap1)
qed

lemma funpow_F_inj: "(F ^^ n) a = (F ^^ n) b \<Longrightarrow> a = b"
  by (induction n) (auto dest: F_inj)

lemma detects_burst:
  assumes "length xs = length ys" and "length xs \<le> width" and "xs \<noteq> ys"
  shows "run c (ps @ xs @ ss) \<noteq> run c (ps @ ys @ ss)"
proof
  assume "run c (ps @ xs @ ss) = run c (ps @ ys @ ss)"
  then have "run (run c ps) xs = run (run c ps) ys" by (auto simp: run_append dest: run_inj)
  then have eq: "pack 0 xs = pack 0 ys"
    using assms(1,2) by (auto simp: run_pack dest: funpow_F_inj)
  have "xs = ys"
  proof (rule nth_equalityI)
    fix i assume "i < length xs"
    with assms(1,2) sel_pack [of 0 xs i] sel_pack [of 0 ys i] show "xs ! i = ys ! i"
      by (simp add: eq)
  qed (rule assms(1))
  with assms(3) show False by simp
qed

end

section \<open>CRC-32 as a shift register\<close>

definition crc_bit :: "u32 \<Rightarrow> u32" where
  "crc_bit c = (if c AND 1 \<noteq> 0 then 0xedb88320 XOR drop_bit 1 c else drop_bit 1 c)"

lemma make_poly: "make_poly = 0xedb88320"
  by (simp add: make_poly_def crc_terms_def)

lemma make_entry_bits: "make_entry k make_poly c = (crc_bit ^^ k) c"
  by (induction k arbitrary: c) (simp_all add: crc_bit_def make_poly funpow_swap1)

lemma and_1_bit: "(c :: 'a::len word) AND 1 \<noteq> 0 \<longleftrightarrow> bit c 0"
  by (simp add: and_one_eq bit_0 odd_iff_mod_2_eq_one)

lemma crc_bit_xor: "crc_bit (a XOR b) = crc_bit a XOR crc_bit b"
  by (simp add: crc_bit_def and_1_bit bit_xor_iff drop_bit_xor xor.left_commute xor.assoc)

lemma crc_bit_even: "even c \<Longrightarrow> crc_bit c = drop_bit 1 c"
  by (simp add: crc_bit_def and_1_bit bit_0)

lemma crc_bit_zero:
  assumes "crc_bit c = 0"
  shows "c = 0"
proof (cases "bit c 0")
  case True
  with assms have "drop_bit 1 c = 0xedb88320" by (simp add: crc_bit_def and_1_bit)
  moreover have "\<not> bit (drop_bit 1 c) 31" 
    by (auto simp: bit_drop_bit_eq dest: bit_imp_le_length)
  moreover have "bit (0xedb88320 :: u32) 31" by simp
  ultimately show ?thesis by simp
next
  case False
  with assms have z: "drop_bit 1 c = 0" by (simp only: crc_bit_def and_1_bit if_False)
  show ?thesis
  proof (rule bit_word_eqI)
    fix n
    have "bit (drop_bit 1 c) (n - 1) = bit (0 :: u32) (n - 1)" by (simp only: z)
    with False show "bit c n = bit 0 n" by (cases n) (simp_all add: bit_drop_bit_eq)
  qed
qed

lemma funpow8: "(f ^^ 8) x = f (f (f (f (f (f (f (f x)))))))"
  by (simp add: numeral_eq_Suc)

lemma crc_bits_even: "take_bit k c = 0 \<Longrightarrow> (crc_bit ^^ k) c = drop_bit k c"
proof (induction k arbitrary: c)
  case 0
  then show ?case by simp
next
  case (Suc k)
  then have "even c" by (metis even_take_bit_eq even_zero nat.simps(3))
  moreover have "take_bit k (drop_bit 1 c) = 0"
    using Suc.prems by (simp add: take_bit_drop_bit)
  ultimately show ?case
    using Suc.IH [of "drop_bit 1 c"] by (simp add: crc_bit_even funpow_swap1 add.commute)
qed

lemma crc_bits_xor: "(crc_bit ^^ k) (a XOR b) = (crc_bit ^^ k) a XOR (crc_bit ^^ k) b"
  by (induction k) (simp_all add: crc_bit_xor)

lemma crc_bits_zero: "(crc_bit ^^ k) a = 0 \<Longrightarrow> a = 0"
  by (induction k) (auto dest: crc_bit_zero)

text \<open>Every one of the 256 entries is what eight shift steps give.\<close>

definition entry32 :: "byte \<Rightarrow> u32 \<Rightarrow> bool" where
  "entry32 x t \<longleftrightarrow> (crc_bit ^^ 8) (ucast x) = t"

lemma crc_table_entries: "list_all2 entry32 all_bytes crc_table"
  by (simp add: all_bytes_def crc_table_def entry32_def funpow8 crc_bit_def)

lemma length_crc_table: "length crc_table = 256"
  by (simp add: crc_table_def)

lemma list_all2_byte:
  assumes "list_all2 P all_bytes ts"
  shows "P x (ts ! unat x)"
proof -
  have "unat x < length all_bytes"
    using unsigned_less [of x, where ?'a = nat] by (simp add: length_all_bytes)
  with assms have "P (all_bytes ! unat x) (ts ! unat x)" by (rule list_all2_nthD)
  then show ?thesis by (simp add: all_bytes_nth)
qed

lemma crc_table_nth: "crc_table ! unat (x :: byte) = (crc_bit ^^ 8) (ucast x)"
  using list_all2_byte [OF crc_table_entries, of x] by (simp only: entry32_def)

lemma split_low_byte: "(c :: u32) = (c AND 0xff) XOR push_bit 8 (drop_bit 8 c)"
proof (rule bit_word_eqI)
  fix n assume "n < LENGTH(32)"
  have "bit (0xff :: u32) n \<longleftrightarrow> n < 8"
    using bit_mask_iff [of 8 n, where ?'a = u32] \<open>n < LENGTH(32)\<close> by (simp add: mask_eq_exp_minus_1)
  then show "bit c n = bit ((c AND 0xff) XOR push_bit 8 (drop_bit 8 c)) n"
    using \<open>n < LENGTH(32)\<close> by (auto simp: bit_and_iff bit_xor_iff bit_push_bit_iff bit_drop_bit_eq)
qed

definition F32 :: "u32 \<Rightarrow> u32" where
  "F32 c = crc_table ! unat (c AND 0xff) XOR drop_bit 8 c"

definition place32 :: "nat \<Rightarrow> byte \<Rightarrow> u32" where
  "place32 i x = push_bit (8 * i) (ucast x)"

definition sel32 :: "nat \<Rightarrow> u32 \<Rightarrow> byte" where
  "sel32 i c = ucast (drop_bit (8 * i) c)"

lemma and_ff_ucast: "(c :: u32) AND 0xff = ucast (ucast c :: byte)"
proof (rule bit_word_eqI)
  fix n assume n: "n < LENGTH(32)"
  have "bit (0xff :: u32) n \<longleftrightarrow> n < 8"
    using bit_mask_iff [of 8 n, where ?'a = u32] n by (simp add: mask_eq_exp_minus_1)
  then show "bit (c AND 0xff) n = bit (ucast (ucast c :: byte) :: u32) n"
    using n by (auto simp: bit_and_iff bit_unsigned_iff)
qed

lemma unat_and_ff: "unat ((c :: u32) AND 0xff) = unat (ucast c :: byte)"
  by (simp only: and_ff_ucast unsigned_ucast_eq [of "ucast c :: byte"])
    (simp add: take_bit_nat_eq_self unsigned_ucast_eq)

lemma F32_bits: "F32 c = (crc_bit ^^ 8) c"
proof -
  have "F32 c = (crc_bit ^^ 8) (c AND 0xff) XOR drop_bit 8 c"
    by (simp only: F32_def unat_and_ff crc_table_nth) (simp only: and_ff_ucast)
  also have "drop_bit 8 c = (crc_bit ^^ 8) (push_bit 8 (drop_bit 8 c))"
    by (subst crc_bits_even) (auto simp: take_bit_push_bit bit_eq_iff bit_simps dest: bit_imp_le_length)
  finally show ?thesis using split_low_byte [of c] by (simp only: crc_bits_xor [symmetric])
qed

lemma ucast_0_byte: "(ucast (x :: byte) :: 'a::len word) = 0 \<Longrightarrow> 8 \<le> LENGTH('a) \<Longrightarrow> x = 0"
  by (auto simp: bit_eq_iff bit_unsigned_iff dest: bit_imp_le_length)

interpretation c32: burst_code F32 "ucast :: byte \<Rightarrow> u32" place32 sel32 4
proof unfold_locales
  fix a b :: u32 and x y :: byte and i j :: nat
  show "F32 (a XOR b) = F32 a XOR F32 b" by (simp add: F32_bits crc_bits_xor)
  show "F32 a = 0 \<Longrightarrow> a = 0" by (simp add: F32_bits crc_bits_zero)
  show "(ucast (x XOR y) :: u32) = ucast x XOR ucast y" by (simp add: unsigned_xor_eq)
  show "(ucast x :: u32) = 0 \<Longrightarrow> x = 0" by (erule ucast_0_byte) simp
  show "place32 0 x = ucast x" by (simp add: place32_def)
  show "sel32 i (a XOR b) = sel32 i a XOR sel32 i b"
    by (simp add: sel32_def drop_bit_xor unsigned_xor_eq)
  show "sel32 i (place32 j x) = (if i = j then x else 0)" if "i < 4" "j < 4"
  proof (rule bit_word_eqI)
    fix n assume "n < LENGTH(8)"
    with that show "bit (sel32 i (place32 j x)) n = bit (if i = j then x else 0) n"
      by (auto simp: sel32_def place32_def bit_unsigned_iff bit_drop_bit_eq bit_push_bit_iff
          dest: bit_imp_le_length)
  qed
  show "F32 (place32 (Suc i) x) = place32 i x" if "Suc i < 4"
  proof -
    have "take_bit 8 (place32 (Suc i) x) = 0"
      by (auto simp: place32_def bit_eq_iff bit_simps)
    then have "F32 (place32 (Suc i) x) = drop_bit 8 (place32 (Suc i) x)"
      by (simp only: F32_bits crc_bits_even)
    also have "\<dots> = place32 i x"
      using that by (auto simp: place32_def bit_eq_iff bit_simps dest: bit_imp_le_length)
    finally show ?thesis .
  qed
qed

text \<open>One \<open>DO1\<close> is one round of the code; the unrolled loop is the plain one.\<close>

lemma DO1_F32: "DO1 m (c, buf) = (F32 (c XOR ucast (m buf)), Suc buf)"
proof -
  have "drop_bit 8 (ucast (m buf) :: u32) = 0"
    by (auto simp: bit_eq_iff bit_simps dest: bit_imp_le_length)
  then show ?thesis by (simp add: DO1_def F32_def drop_bit_xor)
qed

lemma crc_tail_run: "crc_tail m (c, buf) n = (c32.run c (read_bytes m buf n), buf + n)"
  by (induction n arbitrary: c buf) (simp_all add: DO1_F32 read_bytes_Suc)

lemma crc_tail_8: "crc_tail m s (8 + n) = crc_tail m (DO8 m s) n"
  by (simp add: DO8_def DO4_def DO2_def numeral_eq_Suc)

lemma crc_loop_tail: "crc_loop m s len = crc_tail m s len"
proof (induction m s len rule: crc_loop.induct)
  case (1 m s len)
  then show ?case
    using crc_tail_8 [of m s "len - 8"]
    by (cases "8 \<le> len") (simp_all add: crc_loop.simps [of m s len])
qed

lemma crc32_run:
  "crc32 m crc buf len = c32.run (crc XOR 0xffffffff) (read_bytes m buf len) XOR 0xffffffff"
  by (simp add: crc32_def crc_loop_tail crc_tail_run)

lemma crc32_no_comp_run: "crc32_no_comp m crc buf len = c32.run crc (read_bytes m buf len)"
  by (simp add: crc32_no_comp_def crc_loop_tail crc_tail_run)

section \<open>CRC-16 as a shift register\<close>

definition crc16_bit :: "u16 \<Rightarrow> u16" where
  "crc16_bit c = (if bit c 15 then push_bit 1 c XOR 0x1021 else push_bit 1 c)"

definition entry16 :: "byte \<Rightarrow> u16 \<Rightarrow> bool" where
  "entry16 x t \<longleftrightarrow> (crc16_bit ^^ 8) (push_bit 8 (ucast x)) = t"

lemma crc16_tab_entries: "list_all2 entry16 all_bytes crc16_tab"
  by (simp add: all_bytes_def crc16_tab_def entry16_def funpow8 crc16_bit_def)

lemma bit_shl1: "bit (push_bit 1 c) n \<longleftrightarrow> 0 < n \<and> n < 16 \<and> bit (c :: u16) (n - 1)"
  using bit_push_bit_iff [of 1 c n] by auto

lemma crc16_bit_xor: "crc16_bit (a XOR b) = crc16_bit a XOR crc16_bit b"
  by (simp add: crc16_bit_def bit_xor_iff push_bit_xor xor.left_commute xor.assoc xor.commute
      del: push_bit_Suc)

lemma crc16_bit_zero:
  assumes "crc16_bit c = 0"
  shows "c = 0"
proof -
  have top: "\<not> bit c 15"
  proof
    assume "bit c 15"
    with assms have "push_bit 1 c = 0x1021" by (simp add: crc16_bit_def)
    moreover have "\<not> bit (push_bit 1 c) 0" unfolding bit_shl1 by simp
    moreover have "bit (0x1021 :: u16) 0" by simp
    ultimately show False by simp
  qed
  with assms have z: "push_bit 1 c = 0" by (simp add: crc16_bit_def)
  show ?thesis
  proof (rule bit_word_eqI)
    fix n assume "n < LENGTH(16)"
    have "bit (push_bit 1 c) (Suc n) = bit (0 :: u16) (Suc n)" by (simp only: z)
    then have "\<not> (n < 15 \<and> bit c n)" by (simp only: bit_shl1) simp
    with \<open>n < LENGTH(16)\<close> top show "bit c n = bit 0 n" by (cases "n = 15") auto
  qed
qed

lemma crc16_bits_xor: "(crc16_bit ^^ k) (a XOR b) = (crc16_bit ^^ k) a XOR (crc16_bit ^^ k) b"
  by (induction k) (simp_all add: crc16_bit_xor)

lemma crc16_bits_zero: "(crc16_bit ^^ k) a = 0 \<Longrightarrow> a = 0"
  by (induction k) (auto dest: crc16_bit_zero)

lemma crc16_bits_small: "(\<And>n. 16 - k \<le> n \<Longrightarrow> \<not> bit c n) \<Longrightarrow> k \<le> 16 \<Longrightarrow> (crc16_bit ^^ k) c = push_bit k c"
proof (induction k arbitrary: c)
  case 0
  then show ?case by simp
next
  case (Suc k)
  have "\<not> bit c 15" using Suc.prems(1) [of 15] by simp
  then have "crc16_bit c = push_bit 1 c" by (simp add: crc16_bit_def)
  moreover have "\<not> bit (push_bit 1 c) n" if "16 - k \<le> n" for n
    using Suc.prems(1) [of "n - 1"] that Suc.prems(2) unfolding bit_shl1 by auto
  then have "(crc16_bit ^^ k) (push_bit 1 c) = push_bit k (push_bit 1 c)"
    using Suc.prems(2) by (intro Suc.IH) auto
  ultimately show ?case by (simp add: funpow_swap1)
qed

definition F16 :: "u16 \<Rightarrow> u16" where
  "F16 c = crc16_tab ! unat (drop_bit 8 c AND 0xFF) XOR push_bit 8 c"

definition place16 :: "nat \<Rightarrow> byte \<Rightarrow> u16" where
  "place16 i x = (if i = 0 then push_bit 8 (ucast x) else ucast x)"

definition sel16 :: "nat \<Rightarrow> u16 \<Rightarrow> byte" where
  "sel16 i c = (if i = 0 then ucast (drop_bit 8 c) else ucast c)"

lemma unat_high_byte: "unat (drop_bit 8 (c :: u16) AND 0xFF) = unat (ucast (drop_bit 8 c) :: byte)"
proof -
  have "drop_bit 8 c AND 0xFF = ucast (ucast (drop_bit 8 c) :: byte)"
  proof (rule bit_word_eqI)
    fix n assume n: "n < LENGTH(16)"
    have "bit (0xFF :: u16) n \<longleftrightarrow> n < 8"
      using bit_mask_iff [of 8 n, where ?'a = u16] n by (simp add: mask_eq_exp_minus_1)
    then show "bit (drop_bit 8 c AND 0xFF) n = bit (ucast (ucast (drop_bit 8 c) :: byte) :: u16) n"
      using n by (auto simp: bit_and_iff bit_unsigned_iff bit_drop_bit_eq)
  qed
  then show ?thesis
    by (simp only: unsigned_ucast_eq [of "ucast (drop_bit 8 c) :: byte"])
      (simp add: take_bit_nat_eq_self unsigned_ucast_eq)
qed

lemma F16_bits: "F16 c = (crc16_bit ^^ 8) c"
proof -
  let ?h = "ucast (drop_bit 8 c) :: byte"
  have "crc16_tab ! unat ?h = (crc16_bit ^^ 8) (push_bit 8 (ucast ?h))"
    using list_all2_byte [OF crc16_tab_entries, of ?h] by (simp only: entry16_def)
  moreover have "push_bit 8 c = (crc16_bit ^^ 8) (take_bit 8 c)"
    by (subst crc16_bits_small) (auto simp: bit_eq_iff bit_simps)
  moreover have "c = push_bit 8 (ucast ?h) XOR take_bit 8 c"
    by (auto simp: bit_eq_iff bit_simps)
  ultimately show ?thesis
    unfolding F16_def unat_high_byte by (simp only: crc16_bits_xor [symmetric])
qed

interpretation c16: burst_code F16 "\<lambda>x. push_bit 8 (ucast x)" place16 sel16 2
proof unfold_locales
  fix a b :: u16 and x y :: byte and i j :: nat
  show "F16 (a XOR b) = F16 a XOR F16 b" by (simp add: F16_bits crc16_bits_xor)
  show "F16 a = 0 \<Longrightarrow> a = 0" by (simp add: F16_bits crc16_bits_zero)
  show "push_bit 8 (ucast (x XOR y)) = push_bit 8 (ucast x) XOR (push_bit 8 (ucast y) :: u16)"
    by (simp add: unsigned_xor_eq push_bit_xor)
  show "x = 0" if "push_bit 8 (ucast x :: u16) = 0"
  proof (rule bit_word_eqI)
    fix n assume "n < LENGTH(8)"
    moreover have "\<not> bit (push_bit 8 (ucast x :: u16)) (n + 8)" by (simp only: that bit_0_eq) simp
    ultimately show "bit x n = bit 0 n" by (simp add: bit_simps)
  qed
  show "place16 0 x = push_bit 8 (ucast x)" by (simp add: place16_def)
  show "sel16 i (a XOR b) = sel16 i a XOR sel16 i b"
    by (simp add: sel16_def drop_bit_xor unsigned_xor_eq)
  show "sel16 i (place16 j x) = (if i = j then x else 0)" if "i < 2" "j < 2"
  proof (rule bit_word_eqI)
    fix n assume "n < LENGTH(8)"
    with that show "bit (sel16 i (place16 j x)) n = bit (if i = j then x else 0) n"
      by (auto simp: sel16_def place16_def bit_simps dest: bit_imp_le_length)
  qed
  show "F16 (place16 (Suc i) x) = place16 i x" if "Suc i < 2"
    using that unfolding F16_bits
    by (subst crc16_bits_small) (auto simp: place16_def bit_simps dest: bit_imp_le_length)
qed

lemma crc16_loop_run: "crc16_loop m buf n c = c16.run c (read_bytes m buf n)"
proof (induction n arbitrary: buf c)
  case 0
  then show ?case by simp
next
  case (Suc n)
  let ?x = "m buf"
  have "push_bit 8 (push_bit 8 (ucast ?x) :: u16) = 0" by (auto simp: bit_eq_iff bit_simps)
  moreover have "drop_bit 8 (push_bit 8 (ucast ?x) :: u16) = ucast ?x"
    by (auto simp: bit_eq_iff bit_simps dest: bit_imp_le_length)
  ultimately have "F16 (c XOR push_bit 8 (ucast ?x))
      = crc16_tab ! unat ((drop_bit 8 c XOR ucast ?x) AND 0xFF) XOR push_bit 8 c"
    by (simp add: F16_def drop_bit_xor push_bit_xor)
  with Suc show ?case by (simp add: read_bytes_Suc)
qed

section \<open>Properties\<close>

text \<open>
  C34. The table-driven, eight-times unrolled loop of \<open>crc32\<close> computes the bit-serial CRC-32: for
  every start value and every block, the result is that of shifting the register by one bit, with
  the polynomial 0xEDB88320 fed back, eight times per byte. The static table is the one that
  \<open>make_crc_table\<close> computes from the terms of the polynomial.
\<close>

theorem crc32_bit_serial:
  "crc32 m crc buf len =
     foldl (\<lambda>c x. (crc_bit ^^ 8) (c XOR ucast x)) (crc XOR 0xffffffff) (read_bytes m buf len)
       XOR 0xffffffff \<and>
   crc_table = make_crc_table"
proof -
  have "crc_table ! n = make_crc_table ! n" if "n < 256" for n
  proof -
    have n: "unat (of_nat n :: byte) = n" using that by (simp add: unat_of_nat take_bit_nat_eq_self)
    have "(ucast (of_nat n :: byte) :: u32) = of_nat n"
      using that by (simp add: word_unat_eq_iff unsigned_ucast_eq n unat_of_nat take_bit_nat_eq_self)
    with crc_table_nth [of "of_nat n"] that show ?thesis
      by (simp only: n) (simp add: make_crc_table_def make_entry_bits)
  qed
  then have "crc_table = make_crc_table"
    by (intro nth_equalityI) (simp_all add: length_crc_table make_crc_table_def)
  then show ?thesis by (simp add: crc32_run c32.run_def F32_bits)
qed

text \<open>
  A CRC-32 can be computed piecewise, as the callers that checksum an image in chunks do:
  continuing from the checksum of a first block over the block that follows it gives the checksum
  of both blocks together.
\<close>

theorem crc32_incremental:
  "crc32 m (crc32 m crc buf k) (buf + k) n = crc32 m crc buf (k + n)"
  by (simp add: crc32_run read_bytes_add c32.run_append)

text \<open>
  C35. CRC-32 detects every corruption that is confined to four consecutive bytes: if two blocks of
  the same length differ, and only inside such a window, their checksums differ.
\<close>

theorem crc32_detects_burst:
  assumes "read_bytes m buf len = ps @ xs @ ss" and "read_bytes m' buf' len = ps @ ys @ ss"
    and "length xs = length ys" and "length xs \<le> 4" and "xs \<noteq> ys"
  shows "crc32 m crc buf len \<noteq> crc32 m' crc buf' len"
  using c32.detects_burst [OF assms(3-5)] by (simp add: crc32_run assms(1,2))

theorem crc32_detects_burst_witness:
  "crc32 (write_bytes (\<lambda>_. 0) 8 [1, 2, 3]) 0 8 3 \<noteq> crc32 (write_bytes (\<lambda>_. 0) 8 [1, 7, 3]) 0 8 3"
  by (rule crc32_detects_burst [where ps = "[1]" and xs = "[2]" and ys = "[7]" and ss = "[3]"])
    (simp_all add: read_bytes_def upt_rec)

text \<open>
  The CRC-16 of the modem protocols is the bit-serial CCITT code: polynomial 0x1021, highest
  bit first, start value 0; a \<open>len\<close> that is not positive gives 0.
\<close>

theorem crc16_bit_serial:
  "cyg_crc16 m buf len =
     foldl (\<lambda>c x. (crc16_bit ^^ 8) (c XOR push_bit 8 (ucast x))) 0 (read_bytes m buf (nat len))"
  by (simp add: cyg_crc16_def crc16_loop_run c16.run_def F16_bits)

text \<open>
  CRC-16 detects every corruption confined to two consecutive bytes: two blocks of the same
  length that differ only inside such a window have different checksums.
\<close>

theorem crc16_detects_burst:
  assumes "read_bytes m buf (nat len) = ps @ xs @ ss" and "read_bytes m' buf' (nat len) = ps @ ys @ ss"
    and "length xs = length ys" and "length xs \<le> 2" and "xs \<noteq> ys"
  shows "cyg_crc16 m buf len \<noteq> cyg_crc16 m' buf' len"
  using c16.detects_burst [OF assms(3-5)] by (simp add: cyg_crc16_def crc16_loop_run assms(1,2))

theorem crc16_detects_burst_witness:
  "cyg_crc16 (write_bytes (\<lambda>_. 0) 8 [1, 2, 3]) 8 3 \<noteq> cyg_crc16 (write_bytes (\<lambda>_. 0) 8 [1, 7, 3]) 8 3"
  by (rule crc16_detects_burst [where ps = "[1]" and xs = "[2]" and ys = "[7]" and ss = "[3]"])
    (simp_all add: read_bytes_def upt_rec)

end
