(* ===== verification/NandEcc.thy ===== *)
theory NandEcc imports Prelude begin

text \<open>
  The NAND error-correcting code, \<open>drivers/nand/nand_ecc.c\<close>: \<open>nand_calculate_ecc\<close> computes
  three bytes from a block of 256, \<open>nand_correct_data\<close> compares the stored with the recomputed
  code and repairs one wrong bit. A block is a list of bytes, the three code bytes a triple;
  \<open>nand_correct_data\<close> returns its result code with the block and the code it may have changed.
  Every \<open>u_char\<close> is an 8-bit word: the integer promotions of \<open>~\<close> and \<open><<\<close> are undone by the
  store into a \<open>u_char\<close>.
\<close>

unbundle bit_operations_syntax

type_synonym ecc = "byte \<times> byte \<times> byte"

definition nand_ecc_precalc_table :: "byte list" where
  "nand_ecc_precalc_table =
    [0x00, 0x55, 0x56, 0x03, 0x59, 0x0c, 0x0f, 0x5a, 0x5a, 0x0f, 0x0c, 0x59, 0x03, 0x56, 0x55, 0x00,
     0x65, 0x30, 0x33, 0x66, 0x3c, 0x69, 0x6a, 0x3f, 0x3f, 0x6a, 0x69, 0x3c, 0x66, 0x33, 0x30, 0x65,
     0x66, 0x33, 0x30, 0x65, 0x3f, 0x6a, 0x69, 0x3c, 0x3c, 0x69, 0x6a, 0x3f, 0x65, 0x30, 0x33, 0x66,
     0x03, 0x56, 0x55, 0x00, 0x5a, 0x0f, 0x0c, 0x59, 0x59, 0x0c, 0x0f, 0x5a, 0x00, 0x55, 0x56, 0x03,
     0x69, 0x3c, 0x3f, 0x6a, 0x30, 0x65, 0x66, 0x33, 0x33, 0x66, 0x65, 0x30, 0x6a, 0x3f, 0x3c, 0x69,
     0x0c, 0x59, 0x5a, 0x0f, 0x55, 0x00, 0x03, 0x56, 0x56, 0x03, 0x00, 0x55, 0x0f, 0x5a, 0x59, 0x0c,
     0x0f, 0x5a, 0x59, 0x0c, 0x56, 0x03, 0x00, 0x55, 0x55, 0x00, 0x03, 0x56, 0x0c, 0x59, 0x5a, 0x0f,
     0x6a, 0x3f, 0x3c, 0x69, 0x33, 0x66, 0x65, 0x30, 0x30, 0x65, 0x66, 0x33, 0x69, 0x3c, 0x3f, 0x6a,
     0x6a, 0x3f, 0x3c, 0x69, 0x33, 0x66, 0x65, 0x30, 0x30, 0x65, 0x66, 0x33, 0x69, 0x3c, 0x3f, 0x6a,
     0x0f, 0x5a, 0x59, 0x0c, 0x56, 0x03, 0x00, 0x55, 0x55, 0x00, 0x03, 0x56, 0x0c, 0x59, 0x5a, 0x0f,
     0x0c, 0x59, 0x5a, 0x0f, 0x55, 0x00, 0x03, 0x56, 0x56, 0x03, 0x00, 0x55, 0x0f, 0x5a, 0x59, 0x0c,
     0x69, 0x3c, 0x3f, 0x6a, 0x30, 0x65, 0x66, 0x33, 0x33, 0x66, 0x65, 0x30, 0x6a, 0x3f, 0x3c, 0x69,
     0x03, 0x56, 0x55, 0x00, 0x5a, 0x0f, 0x0c, 0x59, 0x59, 0x0c, 0x0f, 0x5a, 0x00, 0x55, 0x56, 0x03,
     0x66, 0x33, 0x30, 0x65, 0x3f, 0x6a, 0x69, 0x3c, 0x3c, 0x69, 0x6a, 0x3f, 0x65, 0x30, 0x33, 0x66,
     0x65, 0x30, 0x33, 0x66, 0x3c, 0x69, 0x6a, 0x3f, 0x3f, 0x6a, 0x69, 0x3c, 0x66, 0x33, 0x30, 0x65,
     0x00, 0x55, 0x56, 0x03, 0x59, 0x0c, 0x0f, 0x5a, 0x5a, 0x0f, 0x0c, 0x59, 0x03, 0x56, 0x55, 0x00]"

section \<open>The code\<close>

fun trans_loop :: "nat \<Rightarrow> byte \<Rightarrow> byte \<Rightarrow> byte \<Rightarrow> byte \<Rightarrow> byte \<Rightarrow> byte \<times> byte" where
  "trans_loop 0 reg2 reg3 a b tmp = (a, tmp)"
| "trans_loop (Suc n) reg2 reg3 a b tmp =
     (let tmp = (if reg3 AND a \<noteq> 0 then tmp OR b else tmp);
          b = drop_bit 1 b;
          tmp = (if reg2 AND a \<noteq> 0 then tmp OR b else tmp);
          b = drop_bit 1 b;
          a = drop_bit 1 a
      in trans_loop n reg2 reg3 a b tmp)"

definition nand_trans_result :: "byte \<Rightarrow> byte \<Rightarrow> byte \<times> byte" where
  "nand_trans_result reg2 reg3 =
     (let (a, tmp1) = trans_loop 4 reg2 reg3 0x80 0x80 0;
          (a, tmp2) = trans_loop 4 reg2 reg3 a 0x80 0
      in (tmp1, tmp2))"

fun parity_loop :: "nat \<Rightarrow> byte list \<Rightarrow> byte \<Rightarrow> byte \<Rightarrow> byte \<Rightarrow> byte \<times> byte \<times> byte" where
  "parity_loop j [] reg1 reg2 reg3 = (reg1, reg2, reg3)"
| "parity_loop j (x # dat) reg1 reg2 reg3 =
     (let idx = nand_ecc_precalc_table ! unat x;
          reg1 = reg1 XOR (idx AND 0x3f)
      in if idx AND 0x40 \<noteq> 0
         then parity_loop (Suc j) dat reg1 (reg2 XOR NOT (of_nat j)) (reg3 XOR of_nat j)
         else parity_loop (Suc j) dat reg1 reg2 reg3)"

definition nand_calculate_ecc :: "byte list \<Rightarrow> ecc" where
  "nand_calculate_ecc dat =
     (let (reg1, reg2, reg3) = parity_loop 0 (take 256 dat) 0 0 0;
          (c0, c1) = nand_trans_result reg2 reg3
      in (NOT c0, NOT c1, push_bit 2 (NOT reg1) OR 0x03))"

fun gather_loop :: "nat \<Rightarrow> byte \<Rightarrow> byte \<Rightarrow> byte \<Rightarrow> byte \<Rightarrow> byte \<times> byte" where
  "gather_loop 0 d c a acc = (a, acc)"
| "gather_loop (Suc n) d c a acc =
     gather_loop n d (drop_bit 2 c) (drop_bit 1 a) (if d AND c \<noteq> 0 then acc OR a else acc)"

lemma shr1_less: "(d :: byte) \<noteq> 0 \<Longrightarrow> unat (drop_bit 1 d) < unat d"
proof -
  assume "d \<noteq> 0"
  then have "0 < unat d" by (simp add: word_unat_eq_iff)
  moreover have "unat (drop_bit 1 d) = unat d div 2"
    using unat_drop_bit_eq [of 1 d] by (simp add: drop_bit_eq_div [where ?'a = nat])
  ultimately show ?thesis by simp
qed

function count_loop :: "byte \<Rightarrow> byte \<Rightarrow> byte" where
  "count_loop d i =
     (if d \<noteq> 0 then count_loop (drop_bit 1 d) (if d AND 1 \<noteq> 0 then i + 1 else i) else i)"
  by pat_completeness auto
termination
  by (relation "measure (\<lambda>(d, i). unat d)")
    (simp_all del: One_nat_def add: shr1_less)

declare count_loop.simps [simp del]

definition nand_correct_data :: "byte list \<Rightarrow> ecc \<Rightarrow> ecc \<Rightarrow> int \<times> byte list \<times> ecc" where
  "nand_correct_data dat read_ecc calc_ecc =
     (let (r0, r1, r2) = read_ecc;
          (c0, c1, c2) = calc_ecc;
          d1 = c0 XOR r0;
          d2 = c1 XOR r1;
          d3 = c2 XOR r2
      in if (d1 OR d2) OR d3 = 0 then (0, dat, read_ecc)
         else
           let a = (d1 XOR drop_bit 1 d1) AND 0x55;
               b = (d2 XOR drop_bit 1 d2) AND 0x55;
               c = (d3 XOR drop_bit 1 d3) AND 0x54
           in if a = 0x55 \<and> b = 0x55 \<and> c = 0x54 then
                let (a, add) = gather_loop 4 d1 0x80 0x80 0;
                    (a, add) = gather_loop 4 d2 0x80 a add;
                    (b, bit) = gather_loop 3 d3 0x80 0x04 0;
                    a = dat ! unat add XOR push_bit (unat bit) 0x01
                in (1, dat[unat add := a], read_ecc)
              else
                let i = count_loop d3 (count_loop d2 (count_loop d1 0))
                in if i = 1 then (2, dat, calc_ecc) else (-1, dat, read_ecc))"

section \<open>The parity table\<close>

text \<open>
  The meaning of the table: bit 6 is the parity of the byte, bits 0 to 5 are the column
  parities CP0 to CP5; each set bit of the byte contributes one constant.
\<close>

definition column_parity :: "byte \<Rightarrow> byte" where
  "column_parity x =
     ((((((((if bit x 0 then 0x55 else 0) XOR (if bit x 1 then 0x56 else 0)) XOR
      (if bit x 2 then 0x59 else 0)) XOR (if bit x 3 then 0x5a else 0)) XOR
      (if bit x 4 then 0x65 else 0)) XOR (if bit x 5 then 0x66 else 0)) XOR
      (if bit x 6 then 0x69 else 0)) XOR (if bit x 7 then 0x6a else 0))"

definition ecc_entry :: "byte \<Rightarrow> byte \<Rightarrow> bool" where
  "ecc_entry x t \<longleftrightarrow> t = column_parity x"

lemma table_entries: "list_all2 ecc_entry all_bytes nand_ecc_precalc_table"
  by (simp add: all_bytes_def nand_ecc_precalc_table_def ecc_entry_def column_parity_def)

lemma table_parity: "nand_ecc_precalc_table ! unat x = column_parity x"
proof -
  have "unat x < length all_bytes"
    using unsigned_less [of x, where ?'a = nat] by (simp add: length_all_bytes)
  then have "ecc_entry (all_bytes ! unat x) (nand_ecc_precalc_table ! unat x)"
    using list_all2_nthD [OF table_entries] by simp
  then show ?thesis by (simp add: all_bytes_nth ecc_entry_def)
qed

lemma if_xor: "(if p \<noteq> q then c else 0) = (if p then c else 0) XOR (if q then c else (0 :: byte))"
  by simp

lemma column_parity_xor: "column_parity (x XOR y) = column_parity x XOR column_parity y"
  unfolding column_parity_def bit_xor_iff if_xor
  by (simp only: ac_simps)

section \<open>Line parity: bits and linearity\<close>

lemmas test_bit_simps =
  and_exp_eq_0_iff_not_bit [where ?'a = "8 word" and n = 0, simplified]
  and_exp_eq_0_iff_not_bit [where ?'a = "8 word" and n = 1, simplified]
  and_exp_eq_0_iff_not_bit [where ?'a = "8 word" and n = 2, simplified]
  and_exp_eq_0_iff_not_bit [where ?'a = "8 word" and n = 3, simplified]
  and_exp_eq_0_iff_not_bit [where ?'a = "8 word" and n = 4, simplified]
  and_exp_eq_0_iff_not_bit [where ?'a = "8 word" and n = 5, simplified]
  and_exp_eq_0_iff_not_bit [where ?'a = "8 word" and n = 6, simplified]
  and_exp_eq_0_iff_not_bit [where ?'a = "8 word" and n = 7, simplified]

lemma less_8_cases: "n < 8 \<longleftrightarrow> n = 0 \<or> n = 1 \<or> n = 2 \<or> n = 3 \<or> n = 4 \<or> n = 5 \<or> n = 6 \<or> n = (7 :: nat)"
  by arith

lemma if_or: "(if p then t OR b else t) = t OR (if p then b else (0 :: byte))"
  by simp

lemma if_not: "(if \<not> p then a else b) = (if p then b else a)"
  by simp

lemma trans_step:
  "trans_loop (Suc n) reg2 reg3 a b t =
     trans_loop n reg2 reg3 (drop_bit 1 a) (drop_bit 2 b)
       ((t OR (if reg3 AND a = 0 then 0 else b)) OR (if reg2 AND a = 0 then 0 else drop_bit 1 b))"
  by (simp add: Let_def drop_bit_drop_bit numeral_2_eq_2)

lemma trans_loop_4: "trans_loop 4 = trans_loop (Suc (Suc (Suc (Suc 0))))"
  by (simp add: numeral_eq_Suc)

definition pair_bits :: "nat \<Rightarrow> byte \<Rightarrow> byte \<Rightarrow> byte" where
  "pair_bits k x y =
     (((((((if bit y (k + 3) then 0x80 else 0) OR (if bit x (k + 3) then 0x40 else 0)) OR
        (if bit y (k + 2) then 0x20 else 0)) OR (if bit x (k + 2) then 0x10 else 0)) OR
        (if bit y (k + 1) then 0x08 else 0)) OR (if bit x (k + 1) then 0x04 else 0)) OR
        (if bit y k then 0x02 else 0)) OR (if bit x k then 0x01 else 0)"

lemma trans_pairs: "nand_trans_result reg2 reg3 = (pair_bits 4 reg2 reg3, pair_bits 0 reg2 reg3)"
  unfolding nand_trans_result_def pair_bits_def trans_loop_4
  by (simp add: trans_step test_bit_simps if_not
      del: trans_loop.simps(2) add_2_eq_Suc add_2_eq_Suc' split del: if_split cong del: if_weak_cong)

lemma pair_bits_bit:
  "n < 8 \<Longrightarrow> bit (pair_bits k x y) n = (if odd n then bit y (k + n div 2) else bit x (k + n div 2))"
  unfolding less_8_cases
  by (elim disjE) (simp_all add: pair_bits_def bit_or_iff if_distrib [of "\<lambda>w. bit w _"]
      del: add_2_eq_Suc add_2_eq_Suc' cong del: if_weak_cong)

lemma pair_bits_xor: "pair_bits k (x XOR x') (y XOR y') = pair_bits k x y XOR pair_bits k x' y'"
  by (rule bit_word_eqI) (simp add: pair_bits_bit bit_xor_iff)

section \<open>What a change of the block does to the code\<close>

definition ecc_xor :: "ecc \<Rightarrow> ecc \<Rightarrow> ecc" where
  "ecc_xor e f = (fst e XOR fst f, fst (snd e) XOR fst (snd f), snd (snd e) XOR snd (snd f))"

text \<open>The contribution of a byte with value \<open>x\<close> at index \<open>j\<close> to the three registers.\<close>

definition contribution :: "nat \<Rightarrow> byte \<Rightarrow> byte \<times> byte \<times> byte" where
  "contribution j x =
     (column_parity x AND 0x3f,
      if bit (column_parity x) 6 then NOT (of_nat j) else 0,
      if bit (column_parity x) 6 then of_nat j else 0)"

lemma ecc_xor_simps [simp]: "ecc_xor (a, b, c) (a', b', c') = (a XOR a', b XOR b', c XOR c')"
  by (simp add: ecc_xor_def)

lemma ecc_xor_ac: "ecc_xor (ecc_xor a b) c = ecc_xor a (ecc_xor b c)" "ecc_xor a b = ecc_xor b a"
  by (simp_all add: ecc_xor_def ac_simps)

lemma contribution_xor: "contribution j (x XOR y) = ecc_xor (contribution j x) (contribution j y)"
  by (auto simp: contribution_def column_parity_xor bit_xor_iff bit_and_iff intro!: bit_word_eqI)

abbreviation parity_regs :: "nat \<Rightarrow> byte list \<Rightarrow> byte \<times> byte \<times> byte \<Rightarrow> byte \<times> byte \<times> byte" where
  "parity_regs j xs r \<equiv> parity_loop j xs (fst r) (fst (snd r)) (snd (snd r))"

lemma parity_Cons: "parity_regs j (x # xs) r = parity_regs (Suc j) xs (ecc_xor r (contribution j x))"
  by (simp add: contribution_def table_parity Let_def ecc_xor_def test_bit_simps)

lemma parity_shift: "parity_regs j xs (ecc_xor r d) = ecc_xor (parity_regs j xs r) d"
proof (induction xs arbitrary: j r)
  case Nil
  then show ?case by simp
next
  case (Cons x xs)
  have "ecc_xor (ecc_xor r d) (contribution j x) = ecc_xor (ecc_xor r (contribution j x)) d"
    by (metis ecc_xor_ac)
  then show ?case by (simp only: parity_Cons Cons.IH)
qed

lemma parity_flip:
  "k < length xs \<Longrightarrow>
     parity_regs j (xs[k := xs ! k XOR e]) r = ecc_xor (parity_regs j xs r) (contribution (j + k) e)"
proof (induction xs arbitrary: j k r)
  case Nil
  then show ?case by simp
next
  case (Cons x xs)
  show ?case
  proof (cases k)
    case 0
    have "ecc_xor r (contribution j (x XOR e)) = ecc_xor (ecc_xor r (contribution j x)) (contribution j e)"
      by (metis contribution_xor ecc_xor_ac(1))
    then show ?thesis
      by (simp only: 0 list_update_code(2) nth_Cons_0 parity_Cons parity_shift add_0_right)
  next
    case (Suc i)
    then show ?thesis using Cons.prems Cons.IH [of i]
      by (simp only: list_update_code(3) nth_Cons_Suc parity_Cons) simp
  qed
qed

definition ecc_delta :: "byte \<Rightarrow> byte \<Rightarrow> byte \<Rightarrow> ecc" where
  "ecc_delta reg1 reg2 reg3 = (pair_bits 4 reg2 reg3, pair_bits 0 reg2 reg3, push_bit 2 reg1)"

definition ecc_syndrome :: "nat \<Rightarrow> byte \<Rightarrow> ecc" where
  "ecc_syndrome j e =
     (case contribution j e of (r1, r2, r3) \<Rightarrow> ecc_delta r1 r2 r3)"

lemma ecc_flip:
  assumes "k < 256" "length dat = 256"
  shows "nand_calculate_ecc (dat[k := dat ! k XOR e]) =
           ecc_xor (nand_calculate_ecc dat) (ecc_syndrome k e)"
proof -
  obtain r1 r2 r3 where r: "parity_loop 0 dat 0 0 0 = (r1, r2, r3)" by (metis prod_cases3)
  obtain s1 s2 s3 where s: "contribution k e = (s1, s2, s3)" by (metis prod_cases3)
  have f: "parity_loop 0 (dat[k := dat ! k XOR e]) 0 0 0 = (r1 XOR s1, r2 XOR s2, r3 XOR s3)"
    using parity_flip [of k dat 0 e "(0, 0, 0)"] assms r s by simp
  have n: "NOT (x XOR y) = NOT x XOR y" for x y :: byte
    by (rule bit_word_eqI) (auto simp: bit_not_iff bit_xor_iff)
  have "push_bit 2 (NOT (r1 XOR s1)) OR 3 = (push_bit 2 (NOT r1) OR 3) XOR push_bit 2 s1"
  proof (rule bit_word_eqI)
    fix n assume "n < LENGTH(8)"
    then have "n < 8" by simp
    then show "bit (push_bit 2 (NOT (r1 XOR s1)) OR 3) n =
        bit ((push_bit 2 (NOT r1) OR 3) XOR push_bit 2 s1) n"
      unfolding less_8_cases
      by (elim disjE) (simp_all add: bit_or_iff bit_xor_iff bit_push_bit_iff bit_not_iff)
  qed
  then show ?thesis
    using assms
    by (simp add: nand_calculate_ecc_def trans_pairs pair_bits_xor r f ecc_syndrome_def s ecc_delta_def)
qed

section \<open>Decoding\<close>

lemma bit_two: "bit (y :: byte) (Suc (Suc 0)) = bit y 2" "bit y (Suc (Suc (Suc 0))) = bit y 3"
  by (simp_all add: numeral_2_eq_2 numeral_3_eq_3)

lemma gather_step:
  "gather_loop (Suc n) d c a acc =
     gather_loop n d (drop_bit 2 c) (drop_bit 1 a) (acc OR (if d AND c = 0 then 0 else a))"
  by (simp add: numeral_2_eq_2)

lemma gather_loop_numeral:
  "gather_loop 4 = gather_loop (Suc (Suc (Suc (Suc 0))))"
  "gather_loop 3 = gather_loop (Suc (Suc (Suc 0)))"
  by (simp_all add: numeral_eq_Suc)

lemma gather_address:
  "gather_loop 4 (pair_bits 4 x y) 0x80 0x80 0 = (a, acc) \<Longrightarrow>
   snd (gather_loop 4 (pair_bits 0 x y) 0x80 a acc) = y"
proof (rule bit_word_eqI)
  fix n assume "n < LENGTH(8)"
  then have "n < 8" by simp
  moreover assume "gather_loop 4 (pair_bits 4 x y) 0x80 0x80 0 = (a, acc)"
  then have "a = 8" "acc =
      (((if bit y 7 then 0x80 else 0) OR (if bit y 6 then 0x40 else 0)) OR
       (if bit y 5 then 0x20 else 0)) OR (if bit y 4 then 0x10 else 0)"
    by (simp_all add: gather_loop_numeral gather_step test_bit_simps pair_bits_bit if_not
        del: gather_loop.simps(2) split del: if_split)
  ultimately show "bit (snd (gather_loop 4 (pair_bits 0 x y) 0x80 a acc)) n = bit y n"
    unfolding less_8_cases
    by (elim disjE) (simp_all add: gather_loop_numeral gather_step test_bit_simps pair_bits_bit if_not
        bit_or_iff if_distrib [of "\<lambda>w. bit w _"] bit_two del: gather_loop.simps(2) cong del: if_weak_cong)
qed

lemma pair_bits_complement:
  "k \<le> 4 \<Longrightarrow> (pair_bits k (NOT y) y XOR drop_bit 1 (pair_bits k (NOT y) y)) AND 0x55 = 0x55"
proof (rule bit_word_eqI)
  fix n assume "k \<le> 4" "n < LENGTH(8)"
  then have "k \<le> 4" "n < 8" by simp_all
  then show "bit ((pair_bits k (NOT y) y XOR drop_bit 1 (pair_bits k (NOT y) y)) AND 0x55) n
      = bit (0x55 :: byte) n"
    unfolding less_8_cases
    by (elim disjE) (simp_all add: pair_bits_bit bit_and_iff bit_xor_iff bit_drop_bit_eq bit_not_iff)
qed

definition single_syndrome :: "nat \<Rightarrow> byte \<Rightarrow> byte \<Rightarrow> bool" where
  "single_syndrome b e d \<longleftrightarrow>
     bit (column_parity e) 6 \<and> push_bit 2 (column_parity e AND 0x3f) = d \<and>
     (d XOR drop_bit 1 d) AND 0x54 = 0x54 \<and>
     snd (gather_loop 3 d 0x80 0x04 0) = of_nat b"

lemma single_syndrome_all:
  "b < 8 \<Longrightarrow> single_syndrome b (push_bit b 1) (push_bit 2 (column_parity (push_bit b 1) AND 0x3f))"
  unfolding less_8_cases
  by (elim disjE) (simp_all add: single_syndrome_def column_parity_def gather_loop_numeral)

lemma ecc_xor_cancel: "ecc_xor (ecc_xor e s) e = s" "ecc_xor (ecc_xor (ecc_xor e s) t) e = ecc_xor s t"
proof -
  show 1: "ecc_xor (ecc_xor e s) e = s" for s
    by (simp add: ecc_xor_def xor.commute)
  then show "ecc_xor (ecc_xor (ecc_xor e s) t) e = ecc_xor s t"
    by (simp only: ecc_xor_ac(1) [of e s t])
qed

text \<open>The syndrome, the difference of the two codes, decides what \<open>nand_correct_data\<close> does.\<close>

lemma correct_syndrome:
  assumes "ecc_xor calc rd = (d1, d2, d3)"
  shows "nand_correct_data dat rd calc =
     (if d1 = 0 \<and> d2 = 0 \<and> d3 = 0 then (0, dat, rd)
      else if (d1 XOR drop_bit 1 d1) AND 0x55 = 0x55 \<and> (d2 XOR drop_bit 1 d2) AND 0x55 = 0x55 \<and>
              (d3 XOR drop_bit 1 d3) AND 0x54 = 0x54 then
        (let (a, add) = gather_loop 4 d1 0x80 0x80 0;
             add = snd (gather_loop 4 d2 0x80 a add);
             bit = snd (gather_loop 3 d3 0x80 0x04 0)
         in (1, dat[unat add := dat ! unat add XOR push_bit (unat bit) 0x01], rd))
      else if count_loop d3 (count_loop d2 (count_loop d1 0)) = 1 then (2, dat, calc)
      else (-1, dat, rd))"
  using assms
  by (cases rd; cases calc) (simp add: nand_correct_data_def Let_def or_eq_0_iff case_prod_beta conj_assoc del: xor_eq_0_iff)

lemma unat_index: "k < 256 \<Longrightarrow> unat (of_nat k :: byte) = k"
  by (simp add: unat_of_nat)

lemma syndrome_bit:
  "b < 8 \<Longrightarrow> ecc_syndrome k (push_bit b 1) =
     (pair_bits 4 (NOT (of_nat k)) (of_nat k), pair_bits 0 (NOT (of_nat k)) (of_nat k),
      push_bit 2 (column_parity (push_bit b 1) AND 0x3f))"
  using single_syndrome_all [of b]
  by (simp add: ecc_syndrome_def contribution_def ecc_delta_def single_syndrome_def)

text \<open>
  C18. One wrong bit anywhere in the block of 256 bytes is found and repaired: comparing the code
  stored for the good block with the one computed from the bad block, \<open>nand_correct_data\<close>
  returns 1 and leaves exactly the good block, the stored code untouched.
\<close>

theorem nand_corrects_single_bit:
  assumes "length dat = 256" "k < 256" "b < 8"
    and "bad = dat[k := dat ! k XOR push_bit b 1]"
  shows "nand_correct_data bad (nand_calculate_ecc dat) (nand_calculate_ecc bad) =
           (1, dat, nand_calculate_ecc dat)"
proof -
  let ?j = "of_nat k :: byte"
  define d :: byte where "d = push_bit 2 (column_parity (push_bit b 1) AND 0x3f)"
  have syn: "ecc_xor (nand_calculate_ecc bad) (nand_calculate_ecc dat) =
      (pair_bits 4 (NOT ?j) ?j, pair_bits 0 (NOT ?j) ?j, d)"
    by (simp only: assms(4) ecc_flip [OF assms(2,1)] ecc_xor_cancel syndrome_bit [OF assms(3)] d_def)
  have d: "(d XOR drop_bit 1 d) AND 0x54 = 0x54" "snd (gather_loop 3 d 0x80 0x04 0) = of_nat b"
    using single_syndrome_all [OF assms(3)] by (simp_all only: single_syndrome_def d_def)
  then have nz: "d \<noteq> 0" by auto
  obtain a acc where g: "gather_loop 4 (pair_bits 4 (NOT ?j) ?j) 0x80 0x80 0 = (a, acc)" by fastforce
  have "bad[k := bad ! k XOR push_bit b 1] = dat"
    using assms by (simp add: list_eq_iff_nth_eq nth_list_update)
  moreover have "unat (of_nat b :: byte) = b" using assms(3) by (simp add: unat_index)
  ultimately show ?thesis
    using assms(2) nz d pair_bits_complement [of 4 ?j] pair_bits_complement [of 0 ?j]
    by (simp add: correct_syndrome [OF syn] g gather_address [OF g] unat_index)
qed

definition flip_bit_at :: "byte list \<Rightarrow> nat \<Rightarrow> nat \<Rightarrow> byte list" where
  "flip_bit_at dat k b = dat[k := dat ! k XOR push_bit b 1]"

lemma ecc_xor_flip_bit:
  assumes "length dat = 256" "k < 256"
  shows "nand_calculate_ecc (flip_bit_at dat k b) =
           ecc_xor (nand_calculate_ecc dat) (ecc_syndrome k (push_bit b 1))"
  by (simp only: flip_bit_at_def ecc_flip [OF assms(2,1)])

section \<open>Counting wrong code bits\<close>

lemma parity_shr: "bit (column_parity d) 6 \<longleftrightarrow> (bit d 0 \<noteq> bit (column_parity (drop_bit 1 d)) 6)"
  by (simp add: column_parity_def bit_xor_iff bit_drop_bit_eq if_distrib [of "\<lambda>w. bit w _"]
      bit_two cong del: if_weak_cong) (auto dest: bit_imp_le_length)

lemma bit_plus_1: "bit (i + 1 :: byte) 0 \<longleftrightarrow> \<not> bit i 0"
  by (simp add: bit_0)

text \<open>The lowest bit of the number of wrong code bits is the parity of the syndrome.\<close>

lemma count_parity: "bit (count_loop d i) 0 \<longleftrightarrow> (bit i 0 \<noteq> bit (column_parity d) 6)"
proof (induction d i rule: count_loop.induct)
  case (1 d i)
  show ?case
  proof (cases "d = 0")
    case True
    then show ?thesis by (simp add: count_loop.simps column_parity_def)
  next
    case False
    then have "bit (count_loop d i) 0 =
        (bit (if d AND 1 \<noteq> 0 then i + 1 else i) 0 \<noteq> bit (column_parity (drop_bit 1 d)) 6)"
      using 1 by (simp add: count_loop.simps [of d i])
    then show ?thesis
      using parity_shr [of d] by (simp only: test_bit_simps bit_plus_1 split: if_split) auto
  qed
qed

lemma pair_parity: "\<not> bit (column_parity (pair_bits k x x)) 6"
  by (simp add: column_parity_def bit_xor_iff pair_bits_bit if_distrib [of "\<lambda>w. bit w _"]
      cong del: if_weak_cong)

lemma pair_equal: "(pair_bits k x x XOR drop_bit 1 (pair_bits k x x)) AND 0x55 = 0"
proof (rule bit_word_eqI)
  fix n assume "n < LENGTH(8)"
  then have "n < 8" by simp
  then show "bit ((pair_bits k x x XOR drop_bit 1 (pair_bits k x x)) AND 0x55) n = bit (0 :: byte) n"
    unfolding less_8_cases
    by (elim disjE) (simp_all add: pair_bits_bit bit_and_iff bit_xor_iff bit_drop_bit_eq)
qed

text \<open>
  Two wrong bits in the block are never mistaken for a good block or for one wrong bit:
  \<open>nand_correct_data\<close> returns -1 and leaves block and code as they were.
\<close>

theorem nand_detects_double_bit:
  assumes len: "length dat = 256" and k: "k < 256" "k' < 256" and b: "b < 8" "b' < 8"
    and ne: "(k, b) \<noteq> (k', b')"
    and bad: "bad = flip_bit_at (flip_bit_at dat k b) k' b'"
  shows "nand_correct_data bad (nand_calculate_ecc dat) (nand_calculate_ecc bad) =
           (-1, bad, nand_calculate_ecc dat)"
proof -
  let ?j = "of_nat k :: byte" and ?j' = "of_nat k' :: byte"
  define x where "x = ?j XOR ?j'"
  define d where "d = (push_bit 2 (column_parity (push_bit b 1) AND 0x3f) :: byte)"
  define d' where "d' = (push_bit 2 (column_parity (push_bit b' 1) AND 0x3f) :: byte)"
  have len': "length (flip_bit_at dat k b) = 256" using len by (simp add: flip_bit_at_def)
  have x: "NOT ?j XOR NOT ?j' = x" by (simp add: x_def)
  have "ecc_xor (nand_calculate_ecc bad) (nand_calculate_ecc dat) =
      ecc_xor (ecc_syndrome k (push_bit b 1)) (ecc_syndrome k' (push_bit b' 1))"
    unfolding bad ecc_xor_flip_bit [OF len' k(2)] ecc_xor_flip_bit [OF len k(1)]
    by (rule ecc_xor_cancel)
  also have "\<dots> = (pair_bits 4 x x, pair_bits 0 x x, d XOR d')"
    by (simp only: syndrome_bit [OF b(1)] syndrome_bit [OF b(2)] ecc_xor_simps
        pair_bits_xor [symmetric] x x_def [symmetric] d_def d'_def)
  finally have syn: "ecc_xor (nand_calculate_ecc bad) (nand_calculate_ecc dat) =
      (pair_bits 4 x x, pair_bits 0 x x, d XOR d')" .
  have par: "bit (column_parity d) 6" "bit (column_parity d') 6"
    using b unfolding less_8_cases d_def d'_def by (elim disjE; simp add: column_parity_def)+
  have "x \<noteq> 0 \<or> d \<noteq> d'"
  proof (cases "k = k'")
    case True
    then have "b \<noteq> b'" using ne by simp
    moreover have "snd (gather_loop 3 d 0x80 0x04 0) = of_nat b"
        "snd (gather_loop 3 d' 0x80 0x04 0) = of_nat b'"
      using single_syndrome_all [OF b(1)] single_syndrome_all [OF b(2)]
      by (simp_all only: single_syndrome_def d_def d'_def)
    moreover have "unat (of_nat b :: byte) = b" "unat (of_nat b' :: byte) = b'"
      using b by (simp_all add: unat_index)
    ultimately show ?thesis by metis
  next
    case False
    then have "?j \<noteq> ?j'" using unat_index [OF k(1)] unat_index [OF k(2)] by metis
    then show ?thesis by (simp add: x_def)
  qed
  then have nz: "\<not> (pair_bits 4 x x = 0 \<and> pair_bits 0 x x = 0 \<and> d XOR d' = 0)"
  proof
    assume "x \<noteq> 0"
    then obtain n where "bit x n" by (metis bit_eqI bit_0_eq bot_fun_def bot_bool_def)
    moreover from this have "n < 8" using bit_imp_le_length by fastforce
    ultimately have "bit (pair_bits (if n < 4 then 0 else 4) x x) (2 * (n mod 4))"
      using le_mod_geq [of 4 n] by (cases "n < 4") (simp_all add: pair_bits_bit)
    then show ?thesis by (auto split: if_splits)
  qed simp
  have "\<not> bit (count_loop (d XOR d') (count_loop (pair_bits 0 x x) (count_loop (pair_bits 4 x x) 0))) 0"
    by (simp add: count_parity pair_parity column_parity_xor bit_xor_iff par)
  then have "count_loop (d XOR d') (count_loop (pair_bits 0 x x) (count_loop (pair_bits 4 x x) 0)) \<noteq> 1"
    by auto
  moreover have "(pair_bits 4 x x XOR drop_bit 1 (pair_bits 4 x x)) AND 0x55 \<noteq> 0x55"
    by (simp only: pair_equal) simp
  ultimately show ?thesis
    using nz unfolding correct_syndrome [OF syn] by (simp only: simp_thms if_False)
qed

definition code_bit :: "nat \<Rightarrow> ecc" where
  "code_bit n =
     (if n < 8 then (push_bit n 1, 0, 0)
      else if n < 16 then (0, push_bit (n - 8) 1, 0)
      else (0, 0, push_bit (n - 16) 1))"

lemma code_bit_parity:
  assumes "n < 8"
  shows "(push_bit n (1 :: byte) XOR drop_bit 1 (push_bit n 1)) AND 0x55 \<noteq> 0x55"
    and "(push_bit n (1 :: byte) XOR drop_bit 1 (push_bit n 1)) AND 0x54 \<noteq> 0x54"
    and "count_loop (push_bit n 1) 0 = 1" and "push_bit n (1 :: byte) \<noteq> 0"
  using assms unfolding less_8_cases by (elim disjE; simp add: count_loop.simps)+

text \<open>
  A single wrong bit in the stored code itself, at any of its 24 positions, does not touch
  the block: \<open>nand_correct_data\<close> returns 2 and repairs the code. It returns 0 exactly when stored
  and computed code agree.
\<close>

theorem nand_corrects_code_bit:
  "nand_correct_data dat e e = (0, dat, e) \<and>
   (rd \<noteq> e \<longrightarrow> fst (nand_correct_data dat rd e) \<noteq> 0) \<and>
   (n < 24 \<longrightarrow> nand_correct_data dat (ecc_xor e (code_bit n)) e = (2, dat, e))"
proof (intro conjI impI)
  show "nand_correct_data dat e e = (0, dat, e)"
    by (cases e) (simp add: nand_correct_data_def)
next
  assume ne: "rd \<noteq> e"
  obtain d1 d2 d3 where syn: "ecc_xor e rd = (d1, d2, d3)" by (metis prod_cases3)
  then have "\<not> (d1 = 0 \<and> d2 = 0 \<and> d3 = 0)"
    using ne by (cases e; cases rd) auto
  then show "fst (nand_correct_data dat rd e) \<noteq> 0"
    by (simp add: correct_syndrome [OF syn] Let_def case_prod_beta)
next
  assume "n < 24"
  then consider "n < 8" | "8 \<le> n" "n - 8 < 8" | "16 \<le> n" "n - 16 < 8" by linarith
  then show "nand_correct_data dat (ecc_xor e (code_bit n)) e = (2, dat, e)"
  proof cases
    case 1
    have syn: "ecc_xor e (ecc_xor e (code_bit n)) = (push_bit n 1, 0, 0)"
      using 1 by (cases e) (simp add: code_bit_def)
    show ?thesis using code_bit_parity [OF 1]
      by (simp add: correct_syndrome [OF syn] count_loop.simps [of 0] del: push_bit_of_1)
  next
    case 2
    have syn: "ecc_xor e (ecc_xor e (code_bit n)) = (0, push_bit (n - 8) 1, 0)"
      using 2 by (cases e) (simp add: code_bit_def)
    show ?thesis using code_bit_parity [OF 2(2)]
      by (simp add: correct_syndrome [OF syn] count_loop.simps [of 0] del: push_bit_of_1)
  next
    case 3
    have syn: "ecc_xor e (ecc_xor e (code_bit n)) = (0, 0, push_bit (n - 16) 1)"
      using 3 by (cases e) (simp add: code_bit_def)
    show ?thesis using code_bit_parity [OF 3(2)]
      by (simp add: correct_syndrome [OF syn] count_loop.simps [of 0] del: push_bit_of_1)
  qed
qed

lemma nand_corrects_single_bit_witness:
  "nand_correct_data ((replicate 256 0)[200 := 0x10]) (nand_calculate_ecc (replicate 256 0))
     (nand_calculate_ecc ((replicate 256 0)[200 := 0x10])) =
   (1, replicate 256 0, nand_calculate_ecc (replicate 256 0))"
  by (rule nand_corrects_single_bit [where k = 200 and b = 4]) (simp_all add: nth_replicate)

lemma nand_detects_double_bit_witness:
  "nand_correct_data (flip_bit_at (flip_bit_at (replicate 256 0) 7 1) 9 1)
     (nand_calculate_ecc (replicate 256 0))
     (nand_calculate_ecc (flip_bit_at (flip_bit_at (replicate 256 0) 7 1) 9 1)) =
   (-1, flip_bit_at (flip_bit_at (replicate 256 0) 7 1) 9 1, nand_calculate_ecc (replicate 256 0))"
  by (rule nand_detects_double_bit [where k = 7 and b = 1 and k' = 9 and b' = 1]) simp_all

lemma nand_corrects_code_bit_witness:
  "nand_correct_data [] (1, 2, 11) (1, 2, 3) = (2, [], (1, 2, 3))"
  using nand_corrects_code_bit [of "[]" "(1, 2, 3)" "(1, 2, 3)" 19] by (simp add: code_bit_def)

end
