(* ===== verification/RtcDate.thy ===== *)
theory RtcDate imports Prelude "HOL-Library.Signed_Division" begin

text \<open>
  Calendar arithmetic, \<open>rtc/date.c\<close>: \<open>to_tm\<close> splits seconds since 1970-01-01 into date and time,
  \<open>mktime\<close> is the opposite, \<open>GregorianDay\<close> computes the day of the week. \<open>int\<close> and \<open>long\<close> are
  unbounded integers with the truncating division of C (every value the code computes from a
  32-bit \<open>tim\<close> fits 32 bits); \<open>mktime\<close> works on \<open>unsigned\<close> words that wrap. The static table
  \<open>month_days\<close>, which \<open>to_tm\<close> changes and restores, is passed and returned.
\<close>

record rtc_time =
  tm_sec :: int
  tm_min :: int
  tm_hour :: int
  tm_mday :: int
  tm_mon :: int
  tm_year :: int
  tm_wday :: int
  tm_yday :: int
  tm_isdst :: int

definition STARTOFTIME :: int where "STARTOFTIME = 1970"

definition SECDAY :: int where "SECDAY = 86400"

definition leapyear :: "int \<Rightarrow> bool" where
  "leapyear year \<longleftrightarrow> year smod 4 = 0"

definition days_in_year :: "int \<Rightarrow> int" where
  "days_in_year a = (if leapyear a then 366 else 365)"

definition month_days :: "int list" where
  "month_days = [31, 28, 31, 30, 31, 30, 31, 31, 30, 31, 30, 31]"

definition MonthOffset :: "int list" where
  "MonthOffset = [0, 31, 59, 90, 120, 151, 181, 212, 243, 273, 304, 334]"

text \<open>\<open>None\<close>: the month is outside the table of offsets.\<close>

definition GregorianDay :: "rtc_time \<Rightarrow> rtc_time option" where
  "GregorianDay tm =
     (let lastYear = tm_year tm - 1;
          leapsToDate = lastYear sdiv 4 - lastYear sdiv 100 + lastYear sdiv 400;
          day = (if tm_year tm smod 4 = 0 \<and> (tm_year tm smod 100 \<noteq> 0 \<or> tm_year tm smod 400 = 0) \<and>
                    tm_mon tm > 2 then 1 else 0);
          day = day + (lastYear * 365 + leapsToDate + MonthOffset ! nat (tm_mon tm - 1) + tm_mday tm)
      in if 1 \<le> tm_mon tm \<and> tm_mon tm \<le> 12 then Some (tm\<lparr>tm_wday := day smod 7\<rparr>) else None)"

lemma days_in_year_pos: "0 < days_in_year i"
  by (simp add: days_in_year_def)

function year_loop :: "int \<Rightarrow> int \<Rightarrow> int \<times> int" where
  "year_loop i day =
     (if day \<ge> days_in_year i then year_loop (i + 1) (day - days_in_year i) else (i, day))"
  by pat_completeness auto
termination
  by (relation "measure (\<lambda>(i, day). nat day)") (use days_in_year_pos in \<open>auto simp: zless_nat_eq_int_zless\<close>)

declare year_loop.simps [simp del]

text \<open>The loop over the months reads the table from its start; \<open>None\<close> is a read past its end.\<close>

fun month_loop :: "int list \<Rightarrow> int \<Rightarrow> int \<Rightarrow> (int \<times> int) option" where
  "month_loop [] i day = None"
| "month_loop (x # xs) i day =
     (if day \<ge> x then month_loop xs (i + 1) (day - x) else Some (i, day))"

definition to_tm :: "int list \<Rightarrow> int \<Rightarrow> rtc_time \<Rightarrow> (rtc_time \<times> int list) option" where
  "to_tm table tim tm =
     (let day = tim sdiv SECDAY;
          hms = tim smod SECDAY;
          tm = tm\<lparr>tm_hour := hms sdiv 3600\<rparr>;
          tm = tm\<lparr>tm_min := (hms smod 3600) sdiv 60\<rparr>;
          tm = tm\<lparr>tm_sec := (hms smod 3600) smod 60\<rparr>;
          (i, day) = year_loop STARTOFTIME day;
          tm = tm\<lparr>tm_year := i\<rparr>;
          table = (if leapyear (tm_year tm) then table[1 := 29] else table)
      in case month_loop table 1 day of
           None \<Rightarrow> None
         | Some (i, day) \<Rightarrow>
             let table = table[1 := 28];
                 tm = tm\<lparr>tm_mon := i\<rparr>;
                 tm = tm\<lparr>tm_mday := day + 1\<rparr>
             in case GregorianDay tm of None \<Rightarrow> None | Some tm \<Rightarrow> Some (tm, table))"

definition mktime :: "u32 \<Rightarrow> u32 \<Rightarrow> u32 \<Rightarrow> u32 \<Rightarrow> u32 \<Rightarrow> u32 \<Rightarrow> u32" where
  "mktime year mon day hour minute sec =
     (let mon = mon - 2;
          (mon, year) = (if 0 \<ge> sint mon then (mon + 12, year - 1) else (mon, year))
      in (((year div 4 - year div 100 + year div 400 + 367 * mon div 12 + day +
            year * 365 - 719499) * 24 + hour) * 60 + minute) * 60 + sec)"

section \<open>The calendar\<close>

text \<open>
  Reference definitions: days before a year (counted from 1970), length and start of the months.
\<close>

definition days_before_year :: "int \<Rightarrow> int" where
  "days_before_year y = 365 * (y - 1970) + (y - 1969) div 4"

definition month_table :: "int \<Rightarrow> int list" where
  "month_table y = month_days[1 := if y mod 4 = 0 then 29 else 28]"

definition days_before_month :: "int \<Rightarrow> int \<Rightarrow> int" where
  "days_before_month y m = sum_list (take (nat (m - 1)) (month_table y))"

definition valid_date :: "int \<Rightarrow> int \<Rightarrow> int \<Rightarrow> bool" where
  "valid_date y m d \<longleftrightarrow> 1 \<le> m \<and> m \<le> 12 \<and> 1 \<le> d \<and> d \<le> month_table y ! nat (m - 1)"

definition epoch_seconds :: "rtc_time \<Rightarrow> int" where
  "epoch_seconds tm =
     86400 * (days_before_year (tm_year tm) + days_before_month (tm_year tm) (tm_mon tm) + tm_mday tm - 1) +
     3600 * tm_hour tm + 60 * tm_min tm + tm_sec tm"

lemma sdiv_nonneg [simp]: "0 \<le> a \<Longrightarrow> (a :: int) sdiv numeral k = a div numeral k"
  by (auto simp: signed_divide_int_def sgn_if)

lemma smod_nonneg [simp]: "0 \<le> a \<Longrightarrow> (a :: int) smod numeral k = a mod numeral k"
  by (auto simp: signed_modulo_int_def sgn_if minus_div_mult_eq_mod)

lemma year_loop_correct:
  assumes "year_loop i day = (y, r)" "0 \<le> day" "1970 \<le> i"
  shows "i \<le> y \<and> 0 \<le> r \<and> r < days_in_year y \<and> day = days_before_year y - days_before_year i + r"
  using assms
proof (induction i day rule: year_loop.induct)
  case (1 i day)
  show ?case
  proof (cases "day \<ge> days_in_year i")
    case True
    have "days_before_year (i + 1) = days_before_year i + days_in_year i"
      using "1.prems"(3) by (simp add: days_before_year_def days_in_year_def leapyear_def) presburger
    then show ?thesis using 1 True by (simp add: year_loop.simps [of i day])
  next
    case False
    then show ?thesis using 1 by (simp add: year_loop.simps [of i day])
  qed
qed

lemma month_loop_correct:
  "0 \<le> day \<Longrightarrow> day < sum_list t \<Longrightarrow>
     \<exists>k r. month_loop t i day = Some (i + int k, r) \<and> k < length t \<and> 0 \<le> r \<and> r < t ! k \<and>
           day = sum_list (take k t) + r"
proof (induction t arbitrary: i day)
  case Nil
  then show ?case by simp
next
  case (Cons x xs)
  show ?case
  proof (cases "day \<ge> x")
    case True
    then obtain k r where "month_loop xs (i + 1) (day - x) = Some (i + 1 + int k, r)" "k < length xs"
      "0 \<le> r" "r < xs ! k" "day - x = sum_list (take k xs) + r"
      using Cons.prems Cons.IH [of "day - x" "i + 1"] by auto
    then show ?thesis using True by (intro exI [of _ "Suc k"] exI [of _ r]) simp
  next
    case False
    then show ?thesis using Cons.prems by (intro exI [of _ 0] exI [of _ day]) simp
  qed
qed

section \<open>What \<open>to_tm\<close> computes\<close>

lemma month_table_sum: "sum_list (month_table y) = (if y mod 4 = 0 then 366 else 365)"
  by (simp add: month_table_def month_days_def)

lemma length_month_table [simp]: "length (month_table y) = 12"
  by (simp add: month_table_def month_days_def)

lemma month_cases:
  "valid_date y m d \<Longrightarrow> m = 1 \<or> m = 2 \<or> m = 3 \<or> m = 4 \<or> m = 5 \<or> m = 6 \<or> m = 7 \<or> m = 8 \<or> m = 9 \<or>
     m = 10 \<or> m = 11 \<or> m = 12"
  unfolding valid_date_def by presburger

lemma month_offset:
  assumes "valid_date y m d"
  shows "MonthOffset ! nat (m - 1) + (if y mod 4 = 0 \<and> m > 2 then 1 else 0) = days_before_month y m"
  using month_cases [OF assms]
  by (elim disjE) (simp_all add: MonthOffset_def days_before_month_def month_table_def month_days_def)

lemma days_before_month_nonneg: "valid_date y m d \<Longrightarrow> 0 \<le> days_before_month y m"
  by (drule month_cases, elim disjE)
    (simp_all add: days_before_month_def month_table_def month_days_def)

lemma century:
  assumes "1969 \<le> y" "y < 2100"
  shows "y div 100 - y div 400 = (15 :: int)"
proof (cases "y < 2000")
  case True
  have "y div 100 = 19" by (rule int_div_pos_eq [where r = "y - 1900"]) (use True assms in simp_all)
  moreover have "y div 400 = 4"
    by (rule int_div_pos_eq [where r = "y - 1600"]) (use True assms in simp_all)
  ultimately show ?thesis by simp
next
  case False
  have "y div 100 = 20" by (rule int_div_pos_eq [where r = "y - 2000"]) (use False assms in simp_all)
  moreover have "y div 400 = 5"
    by (rule int_div_pos_eq [where r = "y - 2000"]) (use False assms in simp_all)
  ultimately show ?thesis by simp
qed

lemma mod_719162: "((a :: int) + 719162) mod 7 = (a + 3) mod 7"
proof -
  have "a + 719162 = a + 3 + 7 * 102737" by simp
  then show ?thesis by (simp only: mod_mult_self2)
qed

lemma weekday_formula:
  assumes "1970 \<le> tm_year tm" "tm_year tm < 2100" "valid_date (tm_year tm) (tm_mon tm) (tm_mday tm)"
  shows "GregorianDay tm = Some (tm\<lparr>tm_wday :=
     (days_before_year (tm_year tm) + days_before_month (tm_year tm) (tm_mon tm) + tm_mday tm + 3) mod 7\<rparr>)"
proof -
  define y m d where "y = tm_year tm" and "m = tm_mon tm" and "d = tm_mday tm"
  have v: "valid_date y m d" "1970 \<le> y" "y < 2100" using assms by (simp_all add: y_def m_def d_def)
  then have m: "1 \<le> m" "m \<le> 12" "1 \<le> d" by (simp_all add: valid_date_def)
  have leap: "(y mod 4 = 0 \<and> (y mod 100 \<noteq> 0 \<or> y mod 400 = 0)) = (y mod 4 = 0)"
  proof -
    have "y = 2000" if "y mod 100 = 0"
    proof -
      have "y = 100 * (y div 100)" using that mult_div_mod_eq [of 100 y] by simp
      moreover from this have "y div 100 = 20" using v(2,3) by presburger
      ultimately show ?thesis by simp
    qed
    then show ?thesis by auto
  qed
  have cent: "(y - 1) div 100 - (y - 1) div 400 = 15"
    by (rule century) (use v(2,3) in simp_all)
  have quad: "(y - 1) div 4 = (y - 1969) div 4 + 492" by presburger
  have n: "(y - 1) * 365 + ((y - 1) div 4 - (y - 1) div 100 + (y - 1) div 400) + d =
      days_before_year y + d + 719162"
  proof -
    have "e - c + f = e - 15" if "c - f = 15" for c e f :: int using that by simp
    from this [OF cent, of "(y - 1) div 4"] show ?thesis
      by (simp only: quad days_before_year_def) simp
  qed
  let ?l = "if y mod 4 = 0 \<and> m > 2 then 1 else (0 :: int)"
  have day: "?l + ((y - 1) * 365 + ((y - 1) div 4 - (y - 1) div 100 + (y - 1) div 400) +
      MonthOffset ! nat (m - 1) + d) = days_before_year y + days_before_month y m + d + 719162"
    using n month_offset [OF v(1)] by linarith
  have "0 \<le> days_before_year y" using v(2) by (simp add: days_before_year_def)
  then have pos: "0 \<le> days_before_year y + days_before_month y m + d + 719162"
    using days_before_month_nonneg [OF v(1)] m(3) by linarith
  have "GregorianDay tm = Some (tm\<lparr>tm_wday :=
      (days_before_year y + days_before_month y m + d + 719162) smod 7\<rparr>)"
  proof -
    have sd: "(y - 1) sdiv 4 = (y - 1) div 4" "(y - 1) sdiv 100 = (y - 1) div 100"
        "(y - 1) sdiv 400 = (y - 1) div 400" "y smod 4 = y mod 4" "y smod 100 = y mod 100"
        "y smod 400 = y mod 400"
      using v(2) by simp_all
    have leap': "(y mod 4 = 0 \<and> (y mod 100 \<noteq> 0 \<or> y mod 400 = 0) \<and> 2 < m) = (y mod 4 = 0 \<and> 2 < m)" 
      by (simp only: conj_assoc [symmetric] leap)
    show ?thesis
      unfolding GregorianDay_def Let_def y_def [symmetric] m_def [symmetric] d_def [symmetric]
      by (simp only: sd leap' day m simp_thms if_True)
  qed
  moreover have "(days_before_year y + days_before_month y m + d + 719162) mod 7 =
      (days_before_year y + days_before_month y m + d + 3) mod 7"
    by (rule mod_719162)
  ultimately show ?thesis
    unfolding y_def [symmetric] m_def [symmetric] d_def [symmetric]
    by (simp only: smod_nonneg [OF pos])
qed


lemma to_tm_fields:
  assumes "0 \<le> t" "t < 2 ^ 31"
  shows "\<exists>tm'. to_tm month_days t tm = Some (tm', month_days) \<and>
     1970 \<le> tm_year tm' \<and> tm_year tm' \<le> 2038 \<and>
     valid_date (tm_year tm') (tm_mon tm') (tm_mday tm') \<and>
     0 \<le> tm_hour tm' \<and> tm_hour tm' < 24 \<and> 0 \<le> tm_min tm' \<and> tm_min tm' < 60 \<and>
     0 \<le> tm_sec tm' \<and> tm_sec tm' < 60 \<and>
     epoch_seconds tm' = t \<and> tm_wday tm' = (t div 86400 + 4) mod 7"
proof -
  define day hms where "day = t div 86400" and "hms = t mod 86400"
  have hms: "0 \<le> hms" "hms < 86400" and day: "0 \<le> day" "day < 24856"
    and t: "t = 86400 * day + hms"
    using assms by (simp_all add: day_def hms_def)
  obtain y r where yr: "year_loop 1970 day = (y, r)" by fastforce
  have "days_before_year 1970 = 0" by (simp add: days_before_year_def)
  then have y: "1970 \<le> y" "0 \<le> r" "r < days_in_year y" "day = days_before_year y + r"
    using year_loop_correct [OF yr day(1)] by simp_all
  then have y_le: "y \<le> 2038" using day(2) by (simp add: days_before_year_def)
  have tab: "(if leapyear y then month_days[1 := 29] else month_days) = month_table y"
    using y(1) by (simp add: leapyear_def month_table_def month_days_def)
  have "r < sum_list (month_table y)"
    using y(1,3) by (simp add: month_table_sum days_in_year_def leapyear_def)
  then obtain k q where ml: "month_loop (month_table y) 1 r = Some (1 + int k, q)"
    and k: "k < 12" "0 \<le> q" "q < month_table y ! k" "r = sum_list (take k (month_table y)) + q"
    using month_loop_correct [OF y(2)] by fastforce
  define tm1 where "tm1 = tm\<lparr>tm_hour := hms div 3600, tm_min := (hms mod 3600) div 60,
    tm_sec := (hms mod 3600) mod 60, tm_year := y, tm_mon := 1 + int k, tm_mday := q + 1\<rparr>"
  have sel: "tm_year tm1 = y" "tm_mon tm1 = 1 + int k" "tm_mday tm1 = q + 1" by (simp_all add: tm1_def)
  have v: "valid_date y (1 + int k) (q + 1)" using k by (simp add: valid_date_def)
  have m: "days_before_month y (1 + int k) + q = r" using k by (simp add: days_before_month_def)
  have e: "days_before_year y + days_before_month y (1 + int k) + (q + 1) + 3 = day + 4"
    using m y(4) by linarith
  have wd: "GregorianDay tm1 = Some (tm1\<lparr>tm_wday := (day + 4) mod 7\<rparr>)"
    using weekday_formula [of tm1] y(1) y_le v by (simp only: sel e)
  have "to_tm month_days t tm = Some (tm1\<lparr>tm_wday := (day + 4) mod 7\<rparr>, (month_table y)[1 := 28])"
    using hms assms(1) yr tab ml wd
    by (simp add: to_tm_def SECDAY_def STARTOFTIME_def day_def hms_def Let_def tm1_def)
  moreover have "(month_table y)[1 := 28] = month_days"
    by (simp add: month_table_def month_days_def)
  ultimately have ret: "to_tm month_days t tm = Some (tm1\<lparr>tm_wday := (day + 4) mod 7\<rparr>, month_days)"
    by simp
  have "3600 * (hms div 3600) + 60 * ((hms mod 3600) div 60) + (hms mod 3600) mod 60 = hms"
    by (simp add: minus_mod_eq_mult_div [symmetric])
  moreover have "days_before_year y + days_before_month y (1 + int k) + (q + 1) - 1 = day"
    using e by linarith
  ultimately have secs: "epoch_seconds (tm1\<lparr>tm_wday := (day + 4) mod 7\<rparr>) = t"
    unfolding t by (simp add: epoch_seconds_def tm1_def)
  have "hms mod 3600 < 3600" "0 \<le> hms mod 3600" by simp_all
  then have hour: "0 \<le> hms div 3600" "hms div 3600 < 24" "0 \<le> hms mod 3600 div 60"
      "hms mod 3600 div 60 < 60"
    using hms by (simp_all add: pos_imp_zdiv_nonneg_iff)
  define tm2 where "tm2 = tm1\<lparr>tm_wday := (day + 4) mod 7\<rparr>"
  have sel2: "tm_year tm2 = y" "tm_mon tm2 = 1 + int k" "tm_mday tm2 = q + 1"
    "tm_hour tm2 = hms div 3600" "tm_min tm2 = (hms mod 3600) div 60"
    "tm_sec tm2 = (hms mod 3600) mod 60" "tm_wday tm2 = (t div 86400 + 4) mod 7"
    by (simp_all add: tm2_def tm1_def day_def)
  have "0 \<le> (hms mod 3600) mod 60" "(hms mod 3600) mod 60 < 60" by simp_all
  then show ?thesis
    by (intro exI [of _ tm2] conjI)
      (simp_all only: sel2 hour v y(1) y_le ret [folded tm2_def] secs [folded tm2_def])
qed


section \<open>What \<open>mktime\<close> computes\<close>

lemma u32_div:
  assumes "0 \<le> a" "a < 2 ^ 32" "0 < b" "b < 2 ^ 32"
  shows "(of_int a :: u32) div of_int b = of_int (a div b)"
proof -
  have "0 \<le> a div b" "a div b < 2 ^ 32"
    using assms zdiv_mono2 [of a 1 b] by (simp_all add: pos_imp_zdiv_nonneg_iff)
  then show ?thesis using assms by (simp add: word_uint_eq_iff uint_div take_bit_int_eq_self uint_word_of_int_eq)
qed

lemma quad_days:
  "(y - 1) div 4 = (y - 1969) div 4 + (492 :: int)"
  "y div 4 = (y - 1969) div 4 + 492 + (if y mod 4 = 0 then 1 else (0 :: int))"
proof -
  show 1: "(y - 1) div 4 = (y - 1969) div 4 + (492 :: int)"
  proof -
    have "y - 1 = y - 1969 + 492 * 4" by simp
    then show ?thesis using div_mult_self1 [of 4 "y - 1969" 492] by simp
  qed
  have "(y - 1) div 4 = y div 4 - (if y mod 4 = 0 then 1 else 0)" by presburger
  then show "y div 4 = (y - 1969) div 4 + 492 + (if y mod 4 = 0 then 1 else (0 :: int))"
    using 1 by simp
qed

lemma mktime_days:
  assumes "1970 \<le> y" "y < 2100" "valid_date y m d"
  defines "Y \<equiv> if m \<le> 2 then y - 1 else y" and "M \<equiv> if m \<le> 2 then m + 10 else m - 2"
  shows "Y div 4 - Y div 100 + Y div 400 + 367 * M div 12 + d + Y * 365 - 719499 =
    days_before_year y + days_before_month y m + d - 1"
proof -
  have "1969 \<le> Y" "Y < 2100" using assms(1,2) by (simp_all add: Y_def)
  then have "Y div 100 - Y div 400 = 15" by (rule century)
  then have c: "Y div 4 - Y div 100 + Y div 400 = Y div 4 - 15" by simp
  have q: "Y div 4 = (y - 1969) div 4 + 492 + (if m > 2 \<and> y mod 4 = 0 then 1 else 0)"
  proof (cases "m \<le> 2")
    case True
    then show ?thesis using quad_days(1) [of y] by (simp add: Y_def)
  next
    case False
    then show ?thesis using quad_days(2) [of y] by (simp add: Y_def)
  qed
  have "365 * Y + 367 * M div 12 + (if m > 2 \<and> y mod 4 = 0 then 1 else 0) =
      365 * y + days_before_month y m - 29"
    using month_cases [OF assms(3)]
    by (elim disjE) (simp_all add: Y_def M_def days_before_month_def month_table_def month_days_def)
  moreover have "Y div 4 - Y div 100 + Y div 400 =
      (y - 1969) div 4 + 477 + (if m > 2 \<and> y mod 4 = 0 then 1 else 0)"
    by (subst c) (simp add: q)
  moreover have "A + B + d + Y * 365 - 719499 = 365 * (y - 1970) + Q + D + d - 1"
    if "365 * Y + B + L = 365 * y + D - 29" "A = Q + 477 + L" for A B Q D L :: int
    using that by algebra
  ultimately show ?thesis unfolding days_before_year_def by blast
qed


lemma mktime_correct:
  assumes y: "1970 \<le> y" "y < 2100" and v: "valid_date y m d"
  shows "mktime (of_int y) (of_int m) (of_int d) (of_int h) (of_int mi) (of_int s) =
    of_int (86400 * (days_before_year y + days_before_month y m + d - 1) + 3600 * h + 60 * mi + s)"
proof -
  define Y M where "Y = (if m \<le> 2 then y - 1 else y)" and "M = (if m \<le> 2 then m + 10 else m - 2)"
  have Y: "0 \<le> Y" "Y < 2 ^ 32" using y by (simp_all add: Y_def)
  have shift: "(if 0 \<ge> sint (of_int m - 2 :: u32) then (of_int m - 2 + 12 :: u32, of_int y - 1 :: u32)
      else (of_int m - 2, of_int y)) = (of_int M, of_int Y)"
    using month_cases [OF v] by (elim disjE) (simp_all add: M_def Y_def)
  have M: "367 * of_int M div 12 = (of_int (367 * M div 12) :: u32)"
    using month_cases [OF v] by (elim disjE) (simp_all add: M_def)
  have dv: "(of_int Y :: u32) div 4 = of_int (Y div 4)" "(of_int Y :: u32) div 100 = of_int (Y div 100)"
      "(of_int Y :: u32) div 400 = of_int (Y div 400)"
    using u32_div [OF Y, of 4] u32_div [OF Y, of 100] u32_div [OF Y, of 400] by simp_all
  have "mktime (of_int y) (of_int m) (of_int d) (of_int h) (of_int mi) (of_int s) =
      of_int ((((Y div 4 - Y div 100 + Y div 400 + 367 * M div 12 + d + Y * 365 - 719499) * 24 + h) * 60
        + mi) * 60 + s)"
    unfolding mktime_def Let_def shift prod.case M dv by simp
  also have "Y div 4 - Y div 100 + Y div 400 + 367 * M div 12 + d + Y * 365 - 719499 =
      days_before_year y + days_before_month y m + d - 1"
    using mktime_days [OF y v] by (simp add: Y_def M_def)
  finally show ?thesis by (simp add: algebra_simps)
qed

text \<open>
  For every 32-bit time not before 1970, \<open>to_tm\<close> stays inside its month table, restores it,
  and yields a valid date and time of day that stand for exactly that many seconds, with the
  right day of the week (1970-01-01 was a Thursday).
\<close>

theorem to_tm_correct:
  assumes "0 \<le> t" "t < 2 ^ 31"
  shows "\<exists>tm'. to_tm month_days t tm = Some (tm', month_days) \<and>
     1970 \<le> tm_year tm' \<and> tm_year tm' \<le> 2038 \<and>
     valid_date (tm_year tm') (tm_mon tm') (tm_mday tm') \<and>
     0 \<le> tm_hour tm' \<and> tm_hour tm' < 24 \<and> 0 \<le> tm_min tm' \<and> tm_min tm' < 60 \<and>
     0 \<le> tm_sec tm' \<and> tm_sec tm' < 60 \<and>
     epoch_seconds tm' = t \<and> tm_wday tm' = (t div 86400 + 4) mod 7"
  using assms by (rule to_tm_fields)

text \<open>
  C21. \<open>mktime\<close> undoes \<open>to_tm\<close>: the broken-down time of every second from 1970 to the end of
  the 32-bit \<open>time_t\<close> in 2038 is converted back to exactly that second.
\<close>

theorem mktime_to_tm:
  assumes "0 \<le> t" "t < 2 ^ 31" "to_tm month_days t tm0 = Some (tm, table)"
  shows "mktime (of_int (tm_year tm)) (of_int (tm_mon tm)) (of_int (tm_mday tm))
           (of_int (tm_hour tm)) (of_int (tm_min tm)) (of_int (tm_sec tm)) = of_int t"
proof -
  have "1970 \<le> tm_year tm" "tm_year tm < 2100" "valid_date (tm_year tm) (tm_mon tm) (tm_mday tm)"
    "epoch_seconds tm = t"
    using to_tm_fields [OF assms(1,2), of tm0] assms(3) by auto
  then show ?thesis by (simp add: mktime_correct epoch_seconds_def)
qed

definition blank_tm :: rtc_time where
  "blank_tm = \<lparr>tm_sec = 0, tm_min = 0, tm_hour = 0, tm_mday = 0, tm_mon = 0, tm_year = 0,
              tm_wday = 0, tm_yday = 0, tm_isdst = 0\<rparr>"

lemma to_tm_correct_witness:
  "\<exists>tm'. to_tm month_days 951868800 blank_tm = Some (tm', month_days) \<and> epoch_seconds tm' = 951868800"
  using to_tm_correct [of 951868800 blank_tm] by auto

lemma to_tm_leap_day:
  "to_tm month_days 951868800 blank_tm =
     Some (blank_tm\<lparr>tm_hour := 0, tm_mday := 1, tm_mon := 3, tm_year := 2000, tm_wday := 3\<rparr>, month_days)"
  by (simp add: to_tm_def SECDAY_def STARTOFTIME_def year_loop.simps days_in_year_def leapyear_def
      month_days_def GregorianDay_def MonthOffset_def blank_tm_def)

lemma mktime_to_tm_witness: "mktime 2000 3 1 0 0 0 = 951868800"
  using mktime_to_tm [OF _ _ to_tm_leap_day] by (simp add: blank_tm_def)

end
