(* ===== verification/CmdDate.thy ===== *)
theory CmdDate imports Vsprintf RtcDate begin

text \<open>
  The \<open>date\<close> command, \<open>common/cmd_date.c\<close>: \<open>mk_date\<close> parses MMDDhhmm[[CC]YY][.ss] into a
  broken-down time, \<open>do_date\<close> sets and shows the clock. The argument string is the list of its
  bytes; an \<open>int\<close> is unbounded (all values come from two digits or the clock). The clock driver
  (\<open>rtc_get\<close>, \<open>rtc_set\<close>, \<open>rtc_reset\<close>, chosen per board) and the \<open>usage\<close> text are arguments; the
  characters written to the console are a list that the command extends. \<open>strcmp\<close> is 0 exactly
  on equal strings (theory \<open>CString\<close>).
\<close>

definition digit :: "byte \<Rightarrow> bool" where
  "digit c \<longleftrightarrow> \<not> (sint c < 48 \<or> sint c > 57)"

text \<open>\<open>Some\<close> is the value stored through \<open>valp\<close>, \<open>None\<close> the return of -1.\<close>

definition cnvrt2 :: "byte list \<Rightarrow> int option" where
  "cnvrt2 str =
     (if \<not> digit (peek str) then None
      else let val = sint (peek str) - 48;
               str = tl str
           in if \<not> digit (peek str) then None else Some (10 * val + (sint (peek str) - 48)))"

text \<open>
  The four fields in front: each is stored as soon as it is accepted, so a rejected string leaves
  the fields before the bad one changed. \<open>GregorianDay\<close> gives \<open>None\<close> for a month outside its table.
\<close>

definition mk_fields :: "byte list \<Rightarrow> rtc_time \<Rightarrow> (int \<times> rtc_time) option" where
  "mk_fields datestr tm =
     (case cnvrt2 datestr of None \<Rightarrow> Some (-1, tm) | Some val \<Rightarrow>
      if val > 12 then Some (-1, tm) else
      let tm = tm\<lparr>tm_mon := val\<rparr> in
      case cnvrt2 (drop 2 datestr) of None \<Rightarrow> Some (-1, tm) | Some val \<Rightarrow>
      if val > (if tm_mon tm = 2 then 29 else 31) then Some (-1, tm) else
      let tm = tm\<lparr>tm_mday := val\<rparr> in
      case cnvrt2 (drop 4 datestr) of None \<Rightarrow> Some (-1, tm) | Some val \<Rightarrow>
      if val > 23 then Some (-1, tm) else
      let tm = tm\<lparr>tm_hour := val\<rparr> in
      case cnvrt2 (drop 6 datestr) of None \<Rightarrow> Some (-1, tm) | Some val \<Rightarrow>
      if val > 59 then Some (-1, tm) else
      let tm = tm\<lparr>tm_min := val\<rparr> in
      case GregorianDay tm of None \<Rightarrow> None | Some tm \<Rightarrow> Some (0, tm))"

definition mk_year :: "byte list \<Rightarrow> rtc_time \<Rightarrow> rtc_time option" where
  "mk_year datestr tm =
     (if length datestr = 12 then
        (case cnvrt2 (drop 8 datestr) of None \<Rightarrow> None | Some century \<Rightarrow>
           (case cnvrt2 (drop 10 datestr) of None \<Rightarrow> None | Some year \<Rightarrow>
              Some (tm\<lparr>tm_year := 100 * century + year\<rparr>)))
      else if length datestr = 10 then
        (let century = tm_year tm sdiv 100 in
           case cnvrt2 (drop 8 datestr) of None \<Rightarrow> None | Some year \<Rightarrow>
              Some (tm\<lparr>tm_year := 100 * century + year\<rparr>))
      else Some tm)"

definition not_dot :: "byte \<Rightarrow> bool" where
  "not_dot c \<longleftrightarrow> c \<noteq> chr CHR ''.''"

definition mk_seconds :: "byte list \<Rightarrow> rtc_time \<Rightarrow> (byte list \<times> rtc_time) option" where
  "mk_seconds datestr tm =
     (case dropWhile not_dot datestr of
        [] \<Rightarrow> Some (datestr, tm\<lparr>tm_sec := 0\<rparr>)
      | dot # ptr \<Rightarrow>
          if length ptr \<noteq> 2 then None
          else case cnvrt2 ptr of None \<Rightarrow> None | Some sec \<Rightarrow>
            Some (takeWhile not_dot datestr, tm\<lparr>tm_sec := sec\<rparr>))"

definition mk_date :: "byte list \<Rightarrow> rtc_time \<Rightarrow> (int \<times> rtc_time) option" where
  "mk_date datestr tm =
     (case mk_seconds datestr tm of None \<Rightarrow> Some (-1, tm) | Some (datestr, tm) \<Rightarrow>
      case mk_year datestr tm of None \<Rightarrow> Some (-1, tm) | Some tm \<Rightarrow>
      if length datestr \<in> {8, 10, 12} then mk_fields datestr tm else Some (-1, tm))"

definition weekdays :: "string list" where
  "weekdays = [''Sun'', ''Mon'', ''Tues'', ''Wednes'', ''Thurs'', ''Fri'', ''Satur'']"

definition show_date :: "rtc_time \<Rightarrow> byte list option" where
  "show_date tm =
     sprintf (''Date: %4d-%02d-%02d (%sday)    Time: %2d:%02d:%02d'' @ [CHR 0x0A])
       [ArgInt (of_int (tm_year tm)), ArgInt (of_int (tm_mon tm)), ArgInt (of_int (tm_mday tm)),
        ArgStr (Some (bytes (if tm_wday tm < 0 \<or> tm_wday tm > 6 then ''unknown ''
                             else weekdays ! nat (tm_wday tm)))),
        ArgInt (of_int (tm_hour tm)), ArgInt (of_int (tm_min tm)), ArgInt (of_int (tm_sec tm))]"

definition get_date ::
    "('hw \<Rightarrow> rtc_time) \<Rightarrow> 'hw \<Rightarrow> byte list \<Rightarrow> (int \<times> 'hw \<times> byte list) option" where
  "get_date rtc_get hw out = map_option (\<lambda>s. (0, hw, out @ s)) (show_date (rtc_get hw))"

definition do_date ::
    "('hw \<Rightarrow> rtc_time) \<Rightarrow> (rtc_time \<Rightarrow> 'hw \<Rightarrow> 'hw) \<Rightarrow> ('hw \<Rightarrow> 'hw) \<Rightarrow> byte list \<Rightarrow>
     byte list list \<Rightarrow> 'hw \<Rightarrow> byte list \<Rightarrow> (int \<times> 'hw \<times> byte list) option" where
  "do_date rtc_get rtc_set rtc_reset usage argv hw out =
     (if length argv = 2 then
        (if argv ! 1 = bytes ''reset''
         then get_date rtc_get (rtc_reset hw) (out @ bytes (''Reset RTC...'' @ [CHR 0x0A]))
         else case mk_date (argv ! 1) (rtc_get hw) of
           None \<Rightarrow> None
         | Some (r, tm) \<Rightarrow>
             if r \<noteq> 0 then Some (1, hw, out @ bytes (''## Bad date format'' @ [CHR 0x0A]))
             else get_date rtc_get (rtc_set tm hw) out)
      else if length argv = 1 then get_date rtc_get hw out
      else Some (1, hw, out @ bytes (''Usage:'' @ [CHR 0x0A]) @ usage @ [0x0A]))"

section \<open>Two digits\<close>

definition two_digits :: "int \<Rightarrow> byte list" where
  "two_digits n = [of_int (48 + n div 10), of_int (48 + n mod 10)]"

lemma sint_small: "0 \<le> k \<Longrightarrow> k < 128 \<Longrightarrow> sint (of_int k :: byte) = k"
  by (simp add: signed_of_int signed_take_bit_int_eq_self)

lemma cnvrt2_two_digits [simp]:
  assumes "0 \<le> n" "n < 100"
  shows "cnvrt2 (two_digits n @ s) = Some n"
proof -
  have "0 \<le> n div 10" "n div 10 < 10" "0 \<le> n mod 10" "n mod 10 < 10"
    using assms by (simp_all add: pos_imp_zdiv_nonneg_iff)
  then have "sint (of_int (48 + n div 10) :: byte) = 48 + n div 10"
      "sint (of_int (48 + n mod 10) :: byte) = 48 + n mod 10"
      "0 \<le> n div 10" "n div 10 < 10" "0 \<le> n mod 10" "n mod 10 < 10"
    by (simp_all only: sint_small)
  then show ?thesis by (simp add: cnvrt2_def two_digits_def digit_def Let_def not_less del: of_int_add)
qed


lemma cnvrt2_two_digits' [simp]: "0 \<le> n \<Longrightarrow> n < 100 \<Longrightarrow> cnvrt2 (two_digits n) = Some n"
  using cnvrt2_two_digits [of n "[]"] by simp

lemma length_two_digits [simp]: "length (two_digits n) = 2"
  by (simp add: two_digits_def)

lemma drop_two_digits [simp]:
  "drop 2 (two_digits a @ xs) = xs"
  "drop 4 (two_digits a @ two_digits b @ xs) = xs"
  "drop 6 (two_digits a @ two_digits b @ two_digits c @ xs) = xs"
  "drop 8 (two_digits a @ two_digits b @ two_digits c @ two_digits d @ xs) = xs"
  "drop 10 (two_digits a @ two_digits b @ two_digits c @ two_digits d @ two_digits e @ xs) = xs"
  by (simp_all add: two_digits_def numeral_eq_Suc)

lemma two_digits_no_dot:
  assumes "0 \<le> n" "n < 100"
  shows "list_all not_dot (two_digits n)"
proof -
  have "sint (of_int (48 + n div 10) :: byte) = 48 + n div 10"
      "sint (of_int (48 + n mod 10) :: byte) = 48 + n mod 10"
    using assms by (simp_all only: sint_small)
  moreover have "0 \<le> n div 10" using assms by (simp add: pos_imp_zdiv_nonneg_iff)
  moreover have "0 \<le> n mod 10" by simp
  moreover have "sint (chr CHR ''.'') = 46" by simp
  ultimately have "sint (of_int (48 + n div 10) :: byte) \<noteq> sint (chr CHR ''.'')"
      "sint (of_int (48 + n mod 10) :: byte) \<noteq> sint (chr CHR ''.'')"
    by linarith+
  then have "of_int (48 + n div 10) \<noteq> chr CHR ''.''" "of_int (48 + n mod 10) \<noteq> chr CHR ''.''"
    by metis+
  then show ?thesis by (simp add: two_digits_def not_dot_def del: of_int_add)
qed

lemma mk_seconds_plain:
  assumes "list_all not_dot xs"
  shows "mk_seconds xs tm = Some (xs, tm\<lparr>tm_sec := 0\<rparr>)"
  using assms by (simp add: mk_seconds_def list_all_iff dropWhile_eq_Nil_conv [THEN iffD2])

lemma mk_seconds_dot:
  assumes "list_all not_dot xs" "0 \<le> n" "n < 100"
  shows "mk_seconds (xs @ chr CHR ''.'' # two_digits n) tm = Some (xs, tm\<lparr>tm_sec := n\<rparr>)"
proof -
  have "\<not> not_dot (chr CHR ''.'')" by (simp add: not_dot_def)
  then show ?thesis
    using assms by (simp add: mk_seconds_def list_all_iff dropWhile_append2 takeWhile_append2)
qed

section \<open>Properties\<close>

text \<open>
  A well-formed string MMDDhhmmCCYY[.ss] naming a day of the calendar from 1970 to 2099 is
  accepted: every field is stored and the day of the week is the right one.
\<close>

theorem mk_date_accepts:
  fixes tm :: rtc_time
  assumes "1970 \<le> y" "y < 2100" "valid_date y m d" "0 \<le> h" "h < 24" "0 \<le> mi" "mi < 60"
    and "0 \<le> s" "s < 60"
  defines "str \<equiv> two_digits m @ two_digits d @ two_digits h @ two_digits mi @
    two_digits (y div 100) @ two_digits (y mod 100)"
    and "filled \<equiv> \<lambda>s. tm\<lparr>tm_sec := s, tm_min := mi, tm_hour := h, tm_mday := d, tm_mon := m, tm_year := y,
      tm_wday := (days_before_year y + days_before_month y m + d + 3) mod 7\<rparr>"
  shows "mk_date str tm = Some (0, filled 0) \<and>
    mk_date (str @ chr CHR ''.'' # two_digits s) tm = Some (0, filled s)"
proof -
  have m: "1 \<le> m" "m \<le> 12" "1 \<le> d" "d \<le> (if m = 2 then 29 else 31)"
    using assms(3) month_cases [OF assms(3)]
    by (auto simp: valid_date_def month_table_def month_days_def split: if_splits)
  have y: "0 \<le> y div 100" "y div 100 < 100" "0 \<le> y mod 100" "y mod 100 < 100"
    using assms(1,2) by (simp_all add: pos_imp_zdiv_nonneg_iff)
  have fields: "mk_fields str (tm\<lparr>tm_sec := sec, tm_year := y\<rparr>) = Some (0, filled sec)" for sec
  proof -
    let ?tm = "tm\<lparr>tm_sec := sec, tm_year := y, tm_mon := m, tm_mday := d, tm_hour := h, tm_min := mi\<rparr>"
    have "GregorianDay ?tm = Some (filled sec)"
      using weekday_formula [of ?tm] assms(1-3) by (simp add: filled_def)
    then show ?thesis
      using m assms(4-7) by (cases "m = 2") (simp_all add: mk_fields_def str_def Let_def)
  qed
  have year: "mk_year str (tm\<lparr>tm_sec := sec\<rparr>) = Some (tm\<lparr>tm_sec := sec, tm_year := y\<rparr>)" for sec
    using y by (simp add: mk_year_def str_def)
  have "d < 100" using m(4) by (simp split: if_splits)
  then have dots: "list_all not_dot str"
    using assms(4-7) m(1-3) y by (simp add: str_def two_digits_no_dot)
  have sec: "mk_seconds str tm = Some (str, tm\<lparr>tm_sec := 0\<rparr>)"
    "mk_seconds (str @ chr CHR ''.'' # two_digits s) tm = Some (str, tm\<lparr>tm_sec := s\<rparr>)"
    using dots assms(8,9) by (simp_all only: mk_seconds_plain) (rule mk_seconds_dot; simp)
  have "length str = 12" by (simp add: str_def)
  then show ?thesis unfolding mk_date_def sec by (simp add: year fields)
qed


lemma mk_date_accepts_witness:
  "mk_date (bytes ''022912302000'' @ chr CHR ''.'' # bytes ''59'') blank_tm =
     Some (0, blank_tm\<lparr>tm_sec := 59, tm_min := 30, tm_hour := 12, tm_mday := 29, tm_mon := 2,
       tm_year := 2000, tm_wday := 2\<rparr>)"
  using mk_date_accepts [of 2000 2 29 12 30 59 blank_tm]
  by (simp add: valid_date_def month_table_def month_days_def two_digits_def days_before_year_def
      days_before_month_def)

text \<open>Month 00 is not rejected: the code then reads the entry before its table of offsets.\<close>

lemma mk_date_month_zero: "mk_date (bytes ''00011200'') blank_tm = None"
  by (simp add: mk_date_def mk_seconds_def mk_year_def mk_fields_def cnvrt2_def digit_def not_dot_def
      Let_def GregorianDay_def)

end
