(* ===== verification/SRecord.thy ===== *)
theory SRecord imports Vsprintf begin

text \<open>
  Motorola S-records, \<open>common/s_record.c\<close>: \<open>srec_decode\<close> reads one record from a line of text
  (the list of its bytes), checks its checksum and returns the record type or a negative error
  code. The variables it stores through, \<open>*count\<close>, \<open>*addr\<close> and \<open>data\<close>, are a record that is
  returned also on an error, as far as it was filled. Plain \<open>char\<close> is read as signed.
\<close>

definition SREC_START :: int where "SREC_START = 0"
definition SREC_DATA2 :: int where "SREC_DATA2 = 1"
definition SREC_DATA3 :: int where "SREC_DATA3 = 2"
definition SREC_DATA4 :: int where "SREC_DATA4 = 3"
definition SREC_COUNT :: int where "SREC_COUNT = 5"
definition SREC_END4 :: int where "SREC_END4 = 7"
definition SREC_END3 :: int where "SREC_END3 = 8"
definition SREC_END2 :: int where "SREC_END2 = 9"
definition SREC_EMPTY :: int where "SREC_EMPTY = 10"
definition SREC_E_BADTYPE :: int where "SREC_E_BADTYPE = -1"
definition SREC_E_NOSREC :: int where "SREC_E_NOSREC = -2"
definition SREC_E_BADCHKS :: int where "SREC_E_BADCHKS = -3"
definition SREC_MAXRECLEN :: nat where "SREC_MAXRECLEN = 516"
definition SREC_MAXBINLEN :: nat where "SREC_MAXBINLEN = 255"

lemmas srec_codes = SREC_START_def SREC_DATA2_def SREC_DATA3_def SREC_DATA4_def SREC_COUNT_def
  SREC_END4_def SREC_END3_def SREC_END2_def SREC_EMPTY_def SREC_E_BADTYPE_def SREC_E_NOSREC_def
  SREC_E_BADCHKS_def

record srec_out =
  so_count :: int
  so_addr :: u32
  so_data :: "byte list"

section \<open>Hexadecimal input\<close>

definition hex1_bin :: "byte \<Rightarrow> int" where
  "hex1_bin c =
     (if 48 \<le> sint c \<and> sint c \<le> 57 then sint c - 48
      else if 97 \<le> sint c \<and> sint c \<le> 102 then sint c + 10 - 97
      else if 65 \<le> sint c \<and> sint c \<le> 70 then sint c + 10 - 65
      else -1)"

definition hex2_bin :: "byte list \<Rightarrow> int" where
  "hex2_bin s =
     (let i = hex1_bin (peek s) in
      if i < 0 then -1
      else let j = hex1_bin (peek (tl s)) in
           if j < 0 then -1 else push_bit 4 i + j)"

section \<open>Decoding\<close>

text \<open>
  The parts of \<open>srec_decode\<close>: \<open>Inl\<close> is a return from the function. The address fields fall
  through from four bytes to three to two, each part taking \<open>input\<close> and \<open>chksum\<close> along.
\<close>

definition srec_skip :: "byte list \<Rightarrow> byte list" where
  "srec_skip input = tl (dropWhile (\<lambda>c. c \<noteq> chr CHR ''S'') input)"

definition srec_header :: "byte \<Rightarrow> int \<Rightarrow> (int \<times> int) option" where
  "srec_header v count =
     (if v = chr CHR ''0'' then Some (SREC_START, count - 3)
      else if v = chr CHR ''1'' then Some (SREC_DATA2, count - 3)
      else if v = chr CHR ''2'' then Some (SREC_DATA3, count - 4)
      else if v = chr CHR ''3'' then Some (SREC_DATA4, count - 5)
      else if v = chr CHR ''5'' then Some (SREC_COUNT, 0)
      else if v = chr CHR ''7'' then Some (SREC_END4, count - 5)
      else if v = chr CHR ''8'' then Some (SREC_END3, count - 4)
      else if v = chr CHR ''9'' then Some (SREC_END2, count - 3)
      else None)"

type_synonym srec_step = "(int \<times> srec_out) + (byte list \<times> byte \<times> srec_out)"

definition srec_byte :: "byte list \<Rightarrow> byte \<Rightarrow> srec_out \<Rightarrow> srec_step" where
  "srec_byte input chksum so =
     (let v = hex2_bin input in
      if v < 0 then Inl (SREC_E_NOSREC, so)
      else Inr (drop 2 input, chksum + of_int v, so\<lparr>so_addr := push_bit 8 (so_addr so) + of_int v\<rparr>))"

definition srec_addr2 :: "byte list \<Rightarrow> byte \<Rightarrow> srec_out \<Rightarrow> srec_step" where
  "srec_addr2 input chksum so =
     (case srec_byte input chksum so of
        Inl r \<Rightarrow> Inl r
      | Inr (input, chksum, so) \<Rightarrow> srec_byte input chksum so)"

definition srec_addr3 :: "byte list \<Rightarrow> byte \<Rightarrow> srec_out \<Rightarrow> srec_step" where
  "srec_addr3 input chksum so =
     (case srec_byte input chksum so of
        Inl r \<Rightarrow> Inl r
      | Inr (input, chksum, so) \<Rightarrow> srec_addr2 input chksum so)"

definition srec_addr4 :: "byte list \<Rightarrow> byte \<Rightarrow> srec_out \<Rightarrow> srec_step" where
  "srec_addr4 input chksum so =
     (let v = hex2_bin input in
      if v < 0 then Inl (SREC_E_NOSREC, so)
      else srec_addr3 (drop 2 input) (chksum + of_int v) (so\<lparr>so_addr := so_addr so + of_int v\<rparr>))"

definition srec_address :: "byte \<Rightarrow> byte list \<Rightarrow> byte \<Rightarrow> srec_out \<Rightarrow> srec_step" where
  "srec_address v input chksum so =
     (if v \<in> {chr CHR ''3'', chr CHR ''7''} then srec_addr4 input chksum so
      else if v \<in> {chr CHR ''2'', chr CHR ''8''} then srec_addr3 input chksum so
      else srec_addr2 input chksum so)"

primrec srec_data :: "nat \<Rightarrow> byte list \<Rightarrow> byte \<Rightarrow> srec_out \<Rightarrow> srec_step" where
  "srec_data 0 input chksum so = Inr (input, chksum, so)"
| "srec_data (Suc n) input chksum so =
     (let v = hex2_bin input in
      if v < 0 then Inl (SREC_E_NOSREC, so)
      else srec_data n (drop 2 input) (chksum + of_int v) (so\<lparr>so_data := so_data so @ [of_int v]\<rparr>))"

definition srec_check :: "int \<Rightarrow> byte list \<Rightarrow> byte \<Rightarrow> int" where
  "srec_check srec_type input chksum =
     (let v = hex2_bin input in
      if v < 0 then SREC_E_NOSREC
      else if of_int v \<noteq> NOT chksum then SREC_E_BADCHKS else srec_type)"

definition srec_decode :: "byte list \<Rightarrow> srec_out \<Rightarrow> int \<times> srec_out" where
  "srec_decode input so =
     (let input = srec_skip input in
      if input = [] then (SREC_EMPTY, so)
      else
        let v = hd input;
            input = tl input;
            count = hex2_bin input;
            so = so\<lparr>so_count := count\<rparr>
        in if count < 0 then (SREC_E_NOSREC, so)
           else
             let chksum = of_int count;
                 input = drop 2 input
             in case srec_header v count of
                  None \<Rightarrow> (SREC_E_BADTYPE, so)
                | Some (srec_type, count) \<Rightarrow>
                    let so = so\<lparr>so_count := count, so_addr := 0, so_data := []\<rparr> in
                    case srec_address v input chksum so of
                      Inl r \<Rightarrow> r
                    | Inr (input, chksum, so) \<Rightarrow>
                        (case srec_data (nat count) input chksum so of
                           Inl r \<Rightarrow> r
                         | Inr (input, chksum, so) \<Rightarrow> (srec_check srec_type input chksum, so)))"

section \<open>What decoding reads\<close>

text \<open>The two hexadecimal digits of a byte, as the code prints them.\<close>

definition hex2 :: "byte \<Rightarrow> byte list" where
  "hex2 b = [upper_digits ! unat (b div 16), upper_digits ! unat (b mod 16)]"

lemma hex1_bin_upper: "n < 16 \<Longrightarrow> hex1_bin (upper_digits ! n) = int n"
proof -
  have "\<forall>n \<in> set [0, 1, 2, 3, 4, 5, 6, 7, 8, 9, 10, 11, 12, 13, 14, 15].
      hex1_bin (upper_digits ! n) = int n"
    by (simp add: hex1_bin_def upper_digits_def)
  moreover assume "n < 16"
  then have "n \<in> set [0, 1, 2, 3, 4, 5, 6, 7, 8, 9, 10, 11, 12, 13, 14, 15]" by simp arith
  ultimately show ?thesis by blast
qed

lemma hex2_bin_hex2 [simp]: "hex2_bin (hex2 b @ s) = uint b"
proof -
  have lt: "unat (b div 16) < 16" "unat (b mod 16) < 16"
    using unsigned_less [of b, where ?'a = nat] by (simp_all add: unat_div unat_mod)
  have "uint (16 :: byte) = 16" by simp
  then have "uint (b div 16) = uint b div 16" "uint (b mod 16) = uint b mod 16"
    by (simp_all only: uint_div uint_mod)
  then have "push_bit 4 (uint (b div 16)) + uint (b mod 16) = uint b"
    by (simp add: push_bit_eq_mult)
  then show ?thesis
    by (simp add: hex2_bin_def hex2_def hex1_bin_upper [OF lt(1)] hex1_bin_upper [OF lt(2)] not_less)
qed

lemma hex2_bin_hex2_only [simp]: "hex2_bin (hex2 b) = uint b"
  using hex2_bin_hex2 [of b "[]"] by simp

lemma drop_hex2 [simp]: "drop 2 (hex2 b @ s) = s"
  by (simp add: hex2_def)

lemma length_hex2 [simp]: "length (hex2 b) = 2"
  by (simp add: hex2_def)

lemma uint_not_neg [simp]: "\<not> uint (b :: byte) < 0"
  by (simp add: not_less)

abbreviation hexs :: "byte list \<Rightarrow> byte list" where "hexs xs \<equiv> concat (map hex2 xs)"

lemma srec_data_hexs:
  "srec_data (length xs) (hexs xs @ s) chksum so =
     Inr (s, chksum + sum_list xs, so\<lparr>so_data := so_data so @ xs\<rparr>)"
  by (induction xs arbitrary: chksum so) (simp_all add: ac_simps)

lemma srec_byte_hex2 [simp]:
  "srec_byte (hex2 b @ s) chksum so =
     Inr (s, chksum + b, so\<lparr>so_addr := push_bit 8 (so_addr so) + ucast b\<rparr>)"
  by (simp add: srec_byte_def Let_def)


section \<open>Properties\<close>

text \<open>The text of a record as its definition has it: any check byte \<open>c\<close>.\<close>

definition addr_bytes :: "byte \<Rightarrow> u32 \<Rightarrow> byte list" where
  "addr_bytes v a =
     (if v \<in> {chr CHR ''3'', chr CHR ''7''} then [ucast (drop_bit 24 a), ucast (drop_bit 16 a),
        ucast (drop_bit 8 a), ucast a]
      else if v \<in> {chr CHR ''2'', chr CHR ''8''} then [ucast (drop_bit 16 a), ucast (drop_bit 8 a), ucast a]
      else [ucast (drop_bit 8 a), ucast a])"

definition srec_line :: "byte \<Rightarrow> u32 \<Rightarrow> byte list \<Rightarrow> byte \<Rightarrow> byte list" where
  "srec_line v a xs c =
     chr CHR ''S'' # v # hexs (of_nat (length (addr_bytes v a) + length xs + 1) # addr_bytes v a @ xs @ [c])"

definition srec_sum :: "byte \<Rightarrow> u32 \<Rightarrow> byte list \<Rightarrow> byte" where
  "srec_sum v a xs = sum_list (of_nat (length (addr_bytes v a) + length xs + 1) # addr_bytes v a @ xs)"

definition addr_mask :: "byte \<Rightarrow> u32" where
  "addr_mask v =
     (if v \<in> {chr CHR ''3'', chr CHR ''7''} then 0xffffffff
      else if v \<in> {chr CHR ''2'', chr CHR ''8''} then 0xffffff else 0xffff)"

lemma append_byte: "push_bit 8 a + ucast (b :: byte) = (push_bit 8 a OR ucast b :: u32)"
  by (rule disjunctive_add) (auto simp: bit_simps dest: bit_imp_le_length)

lemma mask_lits: "(0xffffffff :: u32) = mask 32" "(0xffffff :: u32) = mask 24" "(0xffff :: u32) = mask 16"
  by (simp_all add: mask_eq_exp_minus_1)

lemma byte_addr2:
  fixes a :: u32
  shows "push_bit 8 (ucast (ucast (drop_bit 8 a) :: byte)) + ucast (ucast a :: byte) = a AND mask 16"
  unfolding append_byte
proof (rule bit_word_eqI)
  fix n
  show "bit ((push_bit 8 (ucast (ucast (drop_bit 8 a) :: byte)) OR ucast (ucast a :: byte)) :: u32) n = bit (a AND mask 16) n"
    by (cases "n < 16"; cases "n < 24") (auto simp: bit_simps)
qed

lemma byte_addr3:
  fixes a :: u32
  shows "push_bit 8 (push_bit 8 (ucast (ucast (drop_bit 16 a) :: byte)) + ucast (ucast (drop_bit 8 a) :: byte))
     + ucast (ucast a :: byte) = a AND mask 24"
  unfolding append_byte
proof (rule bit_word_eqI)
  fix n
  show "bit ((push_bit 8 (push_bit 8 (ucast (ucast (drop_bit 16 a) :: byte)) OR ucast (ucast (drop_bit 8 a) :: byte))
     OR ucast (ucast a :: byte)) :: u32) n = bit (a AND mask 24) n"
    by (cases "n < 16"; cases "n < 24") (auto simp: bit_simps)
qed

lemma byte_addr4:
  fixes a :: u32
  shows "push_bit 8 (push_bit 8 (push_bit 8 (ucast (ucast (drop_bit 24 a) :: byte))
     + ucast (ucast (drop_bit 16 a) :: byte)) + ucast (ucast (drop_bit 8 a) :: byte))
     + ucast (ucast a :: byte) = a AND mask 32"
  unfolding append_byte
proof (rule bit_word_eqI)
  fix n
  show "bit ((push_bit 8 (push_bit 8 (push_bit 8 (ucast (ucast (drop_bit 24 a) :: byte))
     OR ucast (ucast (drop_bit 16 a) :: byte)) OR ucast (ucast (drop_bit 8 a) :: byte))
     OR ucast (ucast a :: byte)) :: u32) n = bit (a AND mask 32) n"
    by (cases "n < 16"; cases "n < 24") (auto simp: bit_simps)
qed

lemma srec_address_hexs:
  "so_addr so = 0 \<Longrightarrow> srec_address v (hexs (addr_bytes v a) @ s) chksum so =
     Inr (s, chksum + sum_list (addr_bytes v a), so\<lparr>so_addr := a AND addr_mask v\<rparr>)"
  by (simp add: srec_address_def addr_bytes_def addr_mask_def srec_addr4_def srec_addr3_def
      srec_addr2_def Let_def byte_addr2 byte_addr3 byte_addr4 mask_lits add.assoc)


definition srec_type_of :: "byte \<Rightarrow> int" where
  "srec_type_of v =
     (if v = chr CHR ''0'' then SREC_START else if v = chr CHR ''1'' then SREC_DATA2
      else if v = chr CHR ''2'' then SREC_DATA3 else if v = chr CHR ''3'' then SREC_DATA4
      else if v = chr CHR ''7'' then SREC_END4 else if v = chr CHR ''8'' then SREC_END3
      else SREC_END2)"

definition srec_kinds :: "byte list" where
  "srec_kinds = bytes ''0123789''"

lemma srec_header_kind:
  "v \<in> set srec_kinds \<Longrightarrow>
     srec_header v count = Some (srec_type_of v, count - int (length (addr_bytes v a)) - 1)"
  by (auto simp: srec_kinds_def srec_header_def srec_type_of_def addr_bytes_def)

lemma srec_decode_line:
  assumes v: "v \<in> set srec_kinds" and len: "length (addr_bytes v a) + length xs < 255"
    and junk: "chr CHR ''S'' \<notin> set junk"
  shows "srec_decode (junk @ srec_line v a xs c @ rest) so =
    (if c = NOT (srec_sum v a xs) then srec_type_of v else SREC_E_BADCHKS,
     so\<lparr>so_count := int (length xs), so_addr := a AND addr_mask v, so_data := xs\<rparr>)"
proof -
  let ?n = "length (addr_bytes v a) + length xs + 1"
  let ?l = "of_nat ?n :: byte"
  have "unat ?l = ?n" using len by (subst unat_of_nat) simp
  then have l: "uint ?l = int ?n" by (simp only: uint_nat)
  have "dropWhile (\<lambda>c. c \<noteq> chr CHR ''S'') (junk @ chr CHR ''S'' # s) = chr CHR ''S'' # s" for s
    using junk by (subst dropWhile_append2) auto
  then have skip: "srec_skip (junk @ srec_line v a xs c @ rest) = v # hexs (?l # addr_bytes v a @ xs @ [c]) @ rest"
    unfolding srec_skip_def srec_line_def append_Cons by (simp only: list.sel)
  have n: "int ?n - int (length (addr_bytes v a)) - 1 = int (length xs)" by simp
  have input: "hexs (?l # addr_bytes v a @ xs @ [c]) @ rest =
      hex2 ?l @ hexs (addr_bytes v a) @ hexs xs @ hex2 c @ rest"
    by simp
  have sum: "of_int (int ?n) + sum_list (addr_bytes v a) + sum_list xs = srec_sum v a xs"
    by (simp add: srec_sum_def add.assoc)
  show ?thesis
    unfolding srec_decode_def Let_def skip input list.sel hex2_bin_hex2 l drop_hex2
      srec_header_kind [OF v, of _ a] n nat_int
    by (simp add: srec_address_hexs srec_data_hexs srec_check_def Let_def sum [simplified])
qed


lemma sum_list_upd:
  "i < length xs \<Longrightarrow> sum_list (xs[i := b]) = sum_list xs - xs ! i + (b :: 'a::ab_group_add)"
  by (induction xs arbitrary: i) (auto simp: less_Suc_eq_0_disj)

text \<open>
  A record with the right check byte is decoded to its type, its address (as wide as the
  type has it) and its data, whatever stands before the 'S' and after the record; when one data
  byte of it is changed, the record is rejected with the checksum error.
\<close>

theorem srec_decode_correct:
  assumes "v \<in> set srec_kinds" "length (addr_bytes v a) + length xs < 255"
    and "chr CHR ''S'' \<notin> set junk"
  shows "srec_decode (junk @ srec_line v a xs (NOT (srec_sum v a xs)) @ rest) so =
      (srec_type_of v, so\<lparr>so_count := int (length xs), so_addr := a AND addr_mask v, so_data := xs\<rparr>) \<and>
    (i < length xs \<and> b \<noteq> xs ! i \<longrightarrow>
       fst (srec_decode (junk @ srec_line v a (xs[i := b]) (NOT (srec_sum v a xs)) @ rest) so) =
       SREC_E_BADCHKS)"
proof (intro conjI impI)
  assume i: "i < length xs \<and> b \<noteq> xs ! i"
  then have "srec_sum v a (xs[i := b]) = srec_sum v a xs - xs ! i + b"
    by (simp add: srec_sum_def sum_list_upd)
  then have "srec_sum v a (xs[i := b]) \<noteq> srec_sum v a xs"
    using i by (simp add: diff_add_eq)
  then have "NOT (srec_sum v a xs) \<noteq> NOT (srec_sum v a (xs[i := b]))" by simp
  then show "fst (srec_decode (junk @ srec_line v a (xs[i := b]) (NOT (srec_sum v a xs)) @ rest) so) =
      SREC_E_BADCHKS"
    using srec_decode_line [OF assms(1) _ assms(3), of a "xs[i := b]"] assms(2)
    by (simp only: length_list_update if_False fst_conv)
next
  show "srec_decode (junk @ srec_line v a xs (NOT (srec_sum v a xs)) @ rest) so =
      (srec_type_of v, so\<lparr>so_count := int (length xs), so_addr := a AND addr_mask v, so_data := xs\<rparr>)"
    using srec_decode_line [OF assms] by (simp only: if_True refl)
qed

lemma srec_decode_correct_witness:
  "fst (srec_decode (srec_line (chr CHR ''1'') 0x100 [7, 9] (NOT (srec_sum (chr CHR ''1'') 0x100 [7, 8])))
     \<lparr>so_count = 0, so_addr = 0, so_data = []\<rparr>) = SREC_E_BADCHKS"
  using srec_decode_correct [of "chr CHR ''1''" "0x100" "[7, 8]" "[]" "[]"
      "\<lparr>so_count = 0, so_addr = 0, so_data = []\<rparr>" 1 9]
  by (simp add: srec_kinds_def addr_bytes_def)

text \<open>
  The count of a record may be smaller than its address and checksum: such a record is accepted
  with a negative number of data bytes.
\<close>

lemma srec_negative_count:
  "srec_decode (bytes ''S1020000FD'') so =
     (SREC_DATA2, so\<lparr>so_count := -1, so_addr := 0, so_data := []\<rparr>)"
  by (simp add: srec_decode_def srec_skip_def srec_header_def srec_address_def srec_addr2_def
      srec_byte_def srec_check_def hex2_bin_def hex1_bin_def Let_def)

end
