(* ===== verification/Flash.thy ===== *)
theory Flash imports Prelude begin

text \<open>
  Flash bookkeeping, \<open>common/flash.c\<close>: which bank an address is in (\<open>addr2info\<close>), the protection
  of sectors (\<open>flash_protect\<close>) and writing through the banks (\<open>flash_write\<close>), for a port without
  \<open>CFG_FLASH_PROTECTION\<close>. The array \<open>flash_info\<close> is a list, its length \<open>CFG_MAX_FLASH_BANKS\<close>; a
  pointer into it is an index. \<open>write_buff\<close>, the driver of the board, is an argument: it gets the
  bank, the data, the address and the length, and changes the flash contents, of any type \<open>'f\<close>.
\<close>

unbundle bit_operations_syntax

record flash_info =
  fi_size :: u32
  fi_sector_count :: u16
  fi_flash_id :: u32
  fi_start :: "u32 list"
  fi_protect :: "byte list"

definition FLASH_UNKNOWN :: u32 where "FLASH_UNKNOWN = 0xFFFF"

definition ERR_OK :: int where "ERR_OK = 0"
definition ERR_PROTECTED :: int where "ERR_PROTECTED = 4"
definition ERR_INVAL :: int where "ERR_INVAL = 8"

definition FLAG_PROTECT_SET :: u32 where "FLAG_PROTECT_SET = 1"
definition FLAG_PROTECT_CLEAR :: u32 where "FLAG_PROTECT_CLEAR = 2"

text \<open>The bank end address and the index of the last sector, a \<open>short\<close>.\<close>

definition last_sector :: "flash_info \<Rightarrow> int" where
  "last_sector info = sint (fi_sector_count info - 1)"

section \<open>The operations\<close>

definition protect_sector :: "u32 \<Rightarrow> u32 \<Rightarrow> u32 \<Rightarrow> u32 \<Rightarrow> nat \<Rightarrow> flash_info \<Rightarrow> flash_info" where
  "protect_sector flg from to b_end i info =
     (let end' = (if int i = last_sector info then b_end else fi_start info ! (i + 1) - 1)
      in if from \<le> end' \<and> to \<ge> fi_start info ! i
         then if flg AND FLAG_PROTECT_CLEAR \<noteq> 0
              then info\<lparr>fi_protect := (fi_protect info)[i := 0]\<rparr>
              else if flg AND FLAG_PROTECT_SET \<noteq> 0
              then info\<lparr>fi_protect := (fi_protect info)[i := 1]\<rparr>
              else info
         else info)"

definition flash_protect :: "u32 \<Rightarrow> u32 \<Rightarrow> u32 \<Rightarrow> flash_info \<Rightarrow> flash_info" where
  "flash_protect flg from to info =
     (let b_end = fi_start info ! 0 + fi_size info - 1
      in if fi_sector_count info = 0 \<or> fi_size info = 0 \<or> to < from then info
         else if fi_flash_id info = FLASH_UNKNOWN \<or> to < fi_start info ! 0 \<or> from > b_end then info
         else fold (protect_sector flg from to b_end) [0..<unat (fi_sector_count info)] info)"

definition in_bank :: "u32 \<Rightarrow> flash_info \<Rightarrow> bool" where
  "in_bank addr info \<longleftrightarrow>
     fi_flash_id info \<noteq> FLASH_UNKNOWN \<and> addr \<ge> fi_start info ! 0 \<and>
     addr \<le> fi_start info ! 0 + fi_size info - 1"

fun addr2info_loop :: "nat \<Rightarrow> flash_info list \<Rightarrow> u32 \<Rightarrow> nat option" where
  "addr2info_loop i [] addr = None"
| "addr2info_loop i (info # banks) addr =
     (if in_bank addr info then Some i else addr2info_loop (Suc i) banks addr)"

definition addr2info :: "flash_info list \<Rightarrow> u32 \<Rightarrow> nat option" where
  "addr2info banks addr = addr2info_loop 0 banks addr"

definition protected_hit :: "flash_info \<Rightarrow> u32 \<Rightarrow> u32 \<Rightarrow> nat \<Rightarrow> bool" where
  "protected_hit info addr end' i \<longleftrightarrow>
     (let b_end = fi_start info ! 0 + fi_size info;
          e_addr = (if int i = last_sector info then b_end else fi_start info ! (i + 1))
      in end' \<ge> fi_start info ! i \<and> addr < e_addr \<and> fi_protect info ! i \<noteq> 0)"

definition bank_hit :: "flash_info \<Rightarrow> u32 \<Rightarrow> u32 \<Rightarrow> bool" where
  "bank_hit info addr end' \<longleftrightarrow>
     list_ex (protected_hit info addr end') [0..<unat (fi_sector_count info)]"

function write_banks ::
    "(flash_info \<Rightarrow> byte list \<Rightarrow> u32 \<Rightarrow> u32 \<Rightarrow> 'f \<Rightarrow> int \<times> 'f) \<Rightarrow> flash_info list \<Rightarrow> nat \<Rightarrow> nat \<Rightarrow>
     byte list \<Rightarrow> u32 \<Rightarrow> u32 \<Rightarrow> 'f \<Rightarrow> int \<times> 'f" where
  "write_banks write_buff banks k final src addr cnt f =
     (if k \<le> final \<and> 0 < cnt then
        let info = banks ! k;
            len = fi_start info ! 0 + fi_size info - addr;
            len = (if len > cnt then cnt else len);
            (r, f) = write_buff info src addr len f
        in if r \<noteq> 0 then (r, f)
           else write_banks write_buff banks (Suc k) final (drop (unat len) src) (addr + len) (cnt - len) f
      else (ERR_OK, f))"
  by pat_completeness auto
termination
  by (relation "measure (\<lambda>(_, _, k, final, _). Suc final - k)") auto

declare write_banks.simps [simp del]

definition flash_write ::
    "(flash_info \<Rightarrow> byte list \<Rightarrow> u32 \<Rightarrow> u32 \<Rightarrow> 'f \<Rightarrow> int \<times> 'f) \<Rightarrow> flash_info list \<Rightarrow>
     byte list \<Rightarrow> u32 \<Rightarrow> u32 \<Rightarrow> 'f \<Rightarrow> int \<times> 'f" where
  "flash_write write_buff banks src addr cnt f =
     (let end' = addr + cnt - 1 in
      if cnt = 0 then (ERR_OK, f)
      else case (addr2info banks addr, addr2info banks end') of
        (Some first, Some final) \<Rightarrow>
          if list_ex (\<lambda>k. bank_hit (banks ! k) addr end') [first..<Suc final] then (ERR_PROTECTED, f)
          else write_banks write_buff banks first final src addr cnt f
      | _ \<Rightarrow> (ERR_INVAL, f))"


section \<open>Sectors\<close>

definition sector_end :: "flash_info \<Rightarrow> nat \<Rightarrow> u32" where
  "sector_end info i =
     (if i = unat (fi_sector_count info) - 1 then fi_start info ! 0 + fi_size info - 1
      else fi_start info ! (i + 1) - 1)"

definition sector_overlaps :: "flash_info \<Rightarrow> u32 \<Rightarrow> u32 \<Rightarrow> nat \<Rightarrow> bool" where
  "sector_overlaps info from to i \<longleftrightarrow> from \<le> sector_end info i \<and> fi_start info ! i \<le> to"

text \<open>A bank that is there, with sectors inside it.\<close>

definition wf_bank :: "flash_info \<Rightarrow> bool" where
  "wf_bank info \<longleftrightarrow>
     fi_flash_id info \<noteq> FLASH_UNKNOWN \<and> fi_size info \<noteq> 0 \<and>
     0 < fi_sector_count info \<and> unat (fi_sector_count info) \<le> 0x8000 \<and>
     unat (fi_sector_count info) \<le> length (fi_protect info) \<and>
     (\<forall>i < unat (fi_sector_count info).
        fi_start info ! 0 \<le> fi_start info ! i \<and> fi_start info ! i \<le> sector_end info i \<and>
        sector_end info i \<le> fi_start info ! 0 + fi_size info - 1)"

lemma last_sector_eq:
  assumes "0 < fi_sector_count info" "unat (fi_sector_count info) \<le> 0x8000"
  shows "last_sector info = int (unat (fi_sector_count info) - 1)"
proof -
  let ?c = "fi_sector_count info"
  have u: "unat (?c - 1) = unat ?c - 1"
    using assms(1) by (simp add: unat_sub word_le_nat_alt word_less_nat_alt)
  have "0 < unat ?c" using assms(1) by (simp add: word_less_nat_alt)
  then have lt: "unat (?c - 1) < 2 ^ 15" using assms(2) u by simp
  then have "int (unat (?c - 1)) < int (2 ^ 15)" by (simp only: of_nat_less_iff)
  then have "sint (?c - 1) = int (unat (?c - 1))"
    using order_trans [of "- 32768" 0 "uint (?c - 1)"]
    by (simp add: sint_uint signed_take_bit_int_eq_self)
  then show ?thesis using u by (simp only: last_sector_def)
qed

lemma protect_sector_eq:
  assumes "wf_bank info"
  shows "protect_sector FLAG_PROTECT_SET from to (fi_start info ! 0 + fi_size info - 1) i info =
    (if sector_overlaps info from to i then info\<lparr>fi_protect := (fi_protect info)[i := 1]\<rparr> else info)"
proof -
  have "(int i = last_sector info) = (i = unat (fi_sector_count info) - 1)"
    using assms by (simp add: wf_bank_def last_sector_eq)
  then show ?thesis
    by (simp add: protect_sector_def sector_overlaps_def sector_end_def FLAG_PROTECT_SET_def
        FLAG_PROTECT_CLEAR_def Let_def)
qed

lemma protect_sector_frame:
  "fi_start (protect_sector flg from to e i info) = fi_start info"
  "fi_size (protect_sector flg from to e i info) = fi_size info"
  "fi_sector_count (protect_sector flg from to e i info) = fi_sector_count info"
  "fi_flash_id (protect_sector flg from to e i info) = fi_flash_id info"
  "length (fi_protect (protect_sector flg from to e i info)) = length (fi_protect info)"
  by (simp_all add: protect_sector_def Let_def)

lemma wf_bank_cong:
  assumes "fi_start a = fi_start b" "fi_size a = fi_size b" "fi_sector_count a = fi_sector_count b"
    and "fi_flash_id a = fi_flash_id b" "length (fi_protect a) = length (fi_protect b)"
  shows "wf_bank a = wf_bank b"
  unfolding wf_bank_def sector_end_def assms ..

lemma protect_fold:
  assumes "wf_bank info" "n \<le> unat (fi_sector_count info)"
  shows "fold (protect_sector FLAG_PROTECT_SET from to (fi_start info ! 0 + fi_size info - 1)) [0..<n] info =
    info\<lparr>fi_protect := map (\<lambda>i. if i < n \<and> sector_overlaps info from to i then 1 else fi_protect info ! i)
      [0..<length (fi_protect info)]\<rparr>" (is "fold ?f _ _ = ?g n")
  using assms(2)
proof (induction n)
  case 0
  then show ?case by (simp add: map_nth)
next
  case (Suc n)
  have frame: "fi_start (?g n) = fi_start info" "fi_size (?g n) = fi_size info"
    "fi_sector_count (?g n) = fi_sector_count info" "fi_flash_id (?g n) = fi_flash_id info"
    "length (fi_protect (?g n)) = length (fi_protect info)" by simp_all
  then have wf: "wf_bank (?g n)" using wf_bank_cong [OF frame] assms(1) by simp
  have ov: "sector_overlaps (?g n) from to n = sector_overlaps info from to n"
    by (simp add: sector_overlaps_def sector_end_def)
  have "?f n (?g n) = (if sector_overlaps info from to n
      then (?g n)\<lparr>fi_protect := (fi_protect (?g n))[n := 1]\<rparr> else ?g n)"
    using protect_sector_eq [OF wf] by (simp only: frame ov)
  also have "\<dots> = ?g (Suc n)"
  proof -
    have "(fi_protect (?g n))[n := 1] = fi_protect (?g (Suc n))" if "sector_overlaps info from to n"
    proof (rule nth_equalityI)
      fix i assume "i < length ((fi_protect (?g n))[n := 1])"
      then show "(fi_protect (?g n))[n := 1] ! i = fi_protect (?g (Suc n)) ! i"
        using that by (cases "i = n") (auto simp: less_Suc_eq)
    qed simp
    moreover have "fi_protect (?g n) = fi_protect (?g (Suc n))" if "\<not> sector_overlaps info from to n"
      using that by (intro nth_equalityI) (auto simp: less_Suc_eq)
    ultimately show ?thesis by simp
  qed
  finally show ?case using Suc by simp
qed


section \<open>What the operations do\<close>

lemma flash_protect_set:
  assumes wf: "wf_bank info" and "from \<le> to"
  shows "flash_protect FLAG_PROTECT_SET from to info = info\<lparr>fi_protect :=
    map (\<lambda>i. if i < unat (fi_sector_count info) \<and> sector_overlaps info from to i then 1
             else fi_protect info ! i) [0..<length (fi_protect info)]\<rparr>"
proof -
  let ?e = "fi_start info ! 0 + fi_size info - 1"
  have out: "\<not> sector_overlaps info from to i"
    if "to < fi_start info ! 0 \<or> from > ?e" "i < unat (fi_sector_count info)" for i
  proof -
    have "fi_start info ! 0 \<le> fi_start info ! i" "sector_end info i \<le> ?e"
      using wf that(2) by (simp_all add: wf_bank_def)
    then show ?thesis using that(1) by (auto simp: sector_overlaps_def)
  qed
  have same: "info = info\<lparr>fi_protect := map (\<lambda>i. if i < unat (fi_sector_count info) \<and>
      sector_overlaps info from to i then 1 else fi_protect info ! i) [0..<length (fi_protect info)]\<rparr>"
    if "to < fi_start info ! 0 \<or> from > ?e"
  proof -
    have "map (\<lambda>i. if i < unat (fi_sector_count info) \<and> sector_overlaps info from to i then 1
        else fi_protect info ! i) [0..<length (fi_protect info)] = fi_protect info"
      using that out by (intro nth_equalityI) auto
    then show ?thesis by simp
  qed
  show ?thesis
  proof (cases "to < fi_start info ! 0 \<or> from > ?e")
    case True
    then have "flash_protect FLAG_PROTECT_SET from to info = info"
      by (auto simp: flash_protect_def Let_def)
    with same True show ?thesis by simp
  next
    case False
    then have c: "\<not> (fi_sector_count info = 0 \<or> fi_size info = 0 \<or> to < from)"
        "\<not> (fi_flash_id info = FLASH_UNKNOWN \<or> to < fi_start info ! 0 \<or> from > ?e)"
      using assms by (auto simp: wf_bank_def)
    show ?thesis
      unfolding flash_protect_def Let_def if_not_P [OF c(1)] if_not_P [OF c(2)]
      by (rule protect_fold [OF wf order_refl])
  qed
qed

lemma addr2info_bank:
  "addr2info_loop i banks addr = Some k \<Longrightarrow>
     i \<le> k \<and> k - i < length banks \<and> in_bank addr (banks ! (k - i)) \<and>
     (\<forall>j < k - i. \<not> in_bank addr (banks ! j))"
proof (induction i banks addr rule: addr2info_loop.induct)
  case (2 i info banks addr)
  show ?case
  proof (cases "in_bank addr info")
    case False
    then have IH: "Suc i \<le> k" "k - Suc i < length banks" "in_bank addr (banks ! (k - Suc i))"
      "\<forall>j < k - Suc i. \<not> in_bank addr (banks ! j)"
      using 2 by simp_all
    then have k: "k - i = Suc (k - Suc i)" by simp
    show ?thesis
      using IH False unfolding k by (auto simp: nth_Cons split: nat.splits)
  qed (use 2 in auto)
qed simp

lemma addr2info_none: "addr2info_loop i banks addr = None \<longleftrightarrow> (\<forall>b \<in> set banks. \<not> in_bank addr b)"
  by (induction i banks addr rule: addr2info_loop.induct) auto

lemma addr2info_update:
  assumes "in_bank addr b = in_bank addr (banks ! j)"
  shows "addr2info_loop i (banks[j := b]) addr = addr2info_loop i banks addr"
  using assms
proof (induction banks arbitrary: i j)
  case (Cons c banks)
  then show ?case by (cases j) auto
qed simp

lemma less_of_le_minus_1: "(x :: u32) \<le> y - 1 \<Longrightarrow> y \<noteq> 0 \<Longrightarrow> x < y"
  by (simp add: word_le_nat_alt word_less_nat_alt unat_sub_if' word_unat_eq_iff split: if_splits)

lemma protected_hit_overlap:
  assumes wf: "wf_bank info" and nowrap: "fi_start info ! 0 + fi_size info \<noteq> 0"
    and i: "i < unat (fi_sector_count info)" and ov: "sector_overlaps info addr end' i"
    and prot: "fi_protect info ! i \<noteq> 0"
  shows "bank_hit info addr end'"
proof -
  let ?b = "fi_start info ! 0 + fi_size info"
  have ls: "(int i = last_sector info) = (i = unat (fi_sector_count info) - 1)"
    using wf by (simp add: wf_bank_def last_sector_eq)
  have se: "sector_end info i \<le> ?b - 1" using wf i by (simp add: wf_bank_def)
  have "addr < (if int i = last_sector info then ?b else fi_start info ! (i + 1))"
  proof (cases "int i = last_sector info")
    case True
    then show ?thesis using less_of_le_minus_1 [OF _ nowrap, of addr] ov ls
      by (simp add: sector_overlaps_def sector_end_def)
  next
    case False
    have "fi_start info ! (i + 1) \<noteq> 0"
    proof
      assume "fi_start info ! (i + 1) = 0"
      then have "- 1 \<le> ?b - 1" using se False ls by (simp add: sector_end_def)
      then have "?b - 1 = - 1" by (simp add: word_order.extremum_unique)
      then show False using nowrap by simp
    qed
    then show ?thesis using less_of_le_minus_1 [of addr] ov False ls
      by (simp add: sector_overlaps_def sector_end_def)
  qed
  then have "protected_hit info addr end' i"
    using ov prot by (simp add: protected_hit_def sector_overlaps_def Let_def)
  then show ?thesis using i by (auto simp: bank_hit_def list_ex_iff)
qed


section \<open>Properties\<close>

text \<open>
  After \<open>flash_protect\<close> has protected an address range, \<open>flash_write\<close> of any data that would
  touch a sector of the bank overlapping that range is refused with \<open>ERR_PROTECTED\<close> and leaves
  the flash as it was, also when the data runs over several banks. The bank must not end at the
  end of the address space.
\<close>

theorem protected_not_written:
  assumes "j < length banks" and wf: "wf_bank (banks ! j)" and "from \<le> to"
    and nowrap: "fi_start (banks ! j) ! 0 + fi_size (banks ! j) \<noteq> 0"
    and i: "i < unat (fi_sector_count (banks ! j))" "sector_overlaps (banks ! j) from to i"
    and data: "cnt \<noteq> 0" "sector_overlaps (banks ! j) addr (addr + cnt - 1) i"
    and first: "addr2info banks addr = Some k" "k \<le> j"
    and final: "addr2info banks (addr + cnt - 1) = Some l" "j \<le> l"
  shows "flash_write write_buff (banks[j := flash_protect FLAG_PROTECT_SET from to (banks ! j)])
           src addr cnt f = (ERR_PROTECTED, f)"
proof -
  let ?b = "banks ! j" and ?p = "flash_protect FLAG_PROTECT_SET from to (banks ! j)"
  note p = flash_protect_set [OF wf \<open>from \<le> to\<close>]
  have frame: "fi_start ?p = fi_start ?b" "fi_size ?p = fi_size ?b"
    "fi_sector_count ?p = fi_sector_count ?b" "fi_flash_id ?p = fi_flash_id ?b"
    "length (fi_protect ?p) = length (fi_protect ?b)"
    by (simp_all add: p)
  have "wf_bank ?p" using wf_bank_cong [OF frame] wf by simp
  moreover have "fi_protect ?p ! i \<noteq> 0" using i wf by (simp add: p wf_bank_def)
  moreover have "sector_overlaps ?p addr (addr + cnt - 1) i"
    using data(2) unfolding sector_overlaps_def sector_end_def frame .
  ultimately have hit: "bank_hit ?p addr (addr + cnt - 1)"
    by (intro protected_hit_overlap [where i = i]) (use nowrap i in \<open>simp_all add: frame\<close>)
  have same: "addr2info (banks[j := ?p]) a = addr2info banks a" for a
    unfolding addr2info_def by (rule addr2info_update) (simp add: in_bank_def frame)
  have "j \<in> set [k..<Suc l]" "banks[j := ?p] ! j = ?p"
    using first(2) final(2) \<open>j < length banks\<close> by auto
  with hit have "list_ex (\<lambda>q. bank_hit (banks[j := ?p] ! q) addr (addr + cnt - 1)) [k..<Suc l]"
    unfolding list_ex_iff by (metis (no_types))
  then show ?thesis
    using data(1) first(1) final(1)
      same
    by (simp only: flash_write_def Let_def if_False prod.case option.case if_True)
qed

definition sample_bank :: "u32 \<Rightarrow> flash_info" where
  "sample_bank base = \<lparr>fi_size = 0x20000, fi_sector_count = 2, fi_flash_id = 1,
     fi_start = [base, base + 0x10000], fi_protect = [0, 0]\<rparr>"

lemma sample_wf: "wf_bank (sample_bank 0x1000000)"
proof -
  have "(i < 2) = (i = 0 \<or> i = (1 :: nat))" for i by arith
  then show ?thesis
    by (auto simp: wf_bank_def sample_bank_def FLASH_UNKNOWN_def sector_end_def)
qed

lemma protected_not_written_witness:
  "flash_write (\<lambda>_ _ _ _ n. (0, Suc n)) [flash_protect FLAG_PROTECT_SET 0x1010000 0x1010003 (sample_bank 0x1000000)]
     [1, 2] 0x100ffff 2 (0 :: nat) = (ERR_PROTECTED, 0)"
  using protected_not_written [of 0 "[sample_bank 0x1000000]" "0x1010000" "0x1010003" 1 2 "0x100ffff" 0 0
      "\<lambda>_ _ _ _ n. (0, Suc n)" "[1, 2]" "0 :: nat"] sample_wf
  by (simp add: sector_overlaps_def sector_end_def addr2info_def in_bank_def sample_bank_def FLASH_UNKNOWN_def)

text \<open>
  A bank at the end of the address space: the end of its last sector is computed as 0, so the
  protection of that sector is not seen and the data goes to the driver.
\<close>

lemma top_sector_unprotected:
  "flash_write write_buff [flash_protect FLAG_PROTECT_SET 0xffff0000 0xffffffff (sample_bank 0xfffe0000)]
     [1] 0xffff0000 1 f =
   (let (r, f') = write_buff ((sample_bank 0xfffe0000)\<lparr>fi_protect := [0, 1]\<rparr>) [1] 0xffff0000 1 f
    in (if r \<noteq> 0 then r else ERR_OK, f'))"
proof -
  have upt2: "[0..<2] = [0, 1 :: nat]" by (simp add: upt_rec)
  have "flash_protect FLAG_PROTECT_SET 0xffff0000 0xffffffff (sample_bank 0xfffe0000) =
      (sample_bank 0xfffe0000)\<lparr>fi_protect := [0, 1]\<rparr>"
    by (simp add: flash_protect_def sample_bank_def FLASH_UNKNOWN_def upt2 protect_sector_def
        last_sector_def FLAG_PROTECT_SET_def FLAG_PROTECT_CLEAR_def Let_def)
  moreover have "\<not> bank_hit ((sample_bank 0xfffe0000)\<lparr>fi_protect := [0, 1]\<rparr>) 0xffff0000 0xffff0000"
    by (simp add: bank_hit_def protected_hit_def last_sector_def sample_bank_def upt2)
  moreover have "addr2info [(sample_bank 0xfffe0000)\<lparr>fi_protect := [0, 1]\<rparr>] 0xffff0000 = Some 0"
    by (simp add: addr2info_def in_bank_def sample_bank_def FLASH_UNKNOWN_def)
  moreover have "fi_start (sample_bank 0xfffe0000) ! 0 + fi_size (sample_bank 0xfffe0000) - 0xffff0000 = 0x10000"
    by (simp add: sample_bank_def)
  ultimately show ?thesis
    by (simp add: flash_write_def write_banks.simps [of _ _ 0] write_banks.simps [of _ _ "Suc 0"]
        Let_def case_prod_beta)
qed

end
