(* ===== verification/CmdLoad.thy ===== *)
theory CmdLoad imports SRecord Flash begin

text \<open>
  S-record transfer over the console, \<open>common/cmd_load.c\<close>: \<open>load_serial\<close> reads records and stores
  their data in memory or flash, \<open>save_serial\<close> prints an area of memory as records.

  The characters that will come from the console are a list; where it ends the code waits for
  ever, which is the result \<open>None\<close>. After each stored character \<open>read_record\<close> calls \<open>ctrlc\<close>
  when \<open>gd->jt[XF_getc]\<close> differs from \<open>getc\<close>, and \<open>ctrlc\<close> takes a character that has already
  arrived; the argument \<open>waiting\<close> says, of the number of characters not yet read, whether at that
  moment the check is made and finds one.
  Memory is byte-addressed and holds RAM and flash; the flash banks and
  the driver's \<open>write_buff\<close> are arguments, as in theory \<open>Flash\<close>. \<open>udelay\<close> and \<open>flush_cache\<close> have
  no effect on this state; the variable \<open>filesize\<close> of the environment is a field of it.
\<close>

unbundle bit_operations_syntax

definition printf :: "string \<Rightarrow> varg list \<Rightarrow> byte list \<Rightarrow> byte list" where
  "printf fmt args out = (case sprintf fmt args of None \<Rightarrow> out | Some s \<Rightarrow> out @ s)"

definition puts :: "string \<Rightarrow> byte list \<Rightarrow> byte list" where
  "puts s out = out @ bytes s"

abbreviation nl :: string where "nl \<equiv> [CHR 0x0A]"

section \<open>Reading records\<close>

text \<open>
  The check for a hangup: whether \<open>ctrlc\<close> returns 1, and the characters it leaves. Only Control C
  stops the reading; any other character is dropped.
\<close>

definition hangup :: "(nat \<Rightarrow> bool) \<Rightarrow> byte list \<Rightarrow> bool \<times> byte list" where
  "hangup waiting inp =
     (case inp of
        [] \<Rightarrow> (False, [])
      | c # inp' \<Rightarrow> if waiting (length inp) then (c = 3, inp') else (False, inp))"

text \<open>
  The loop of \<open>read_record\<close>: \<open>n\<close> is the room left in the buffer, \<open>acc\<close> what it holds. The result
  is the return value, the record, the characters not yet read and the console output.
\<close>

function read_loop ::
    "(nat \<Rightarrow> bool) \<Rightarrow> nat \<Rightarrow> bool \<Rightarrow> byte list \<Rightarrow> byte list \<Rightarrow> byte list \<Rightarrow>
     (int \<times> byte list \<times> byte list \<times> byte list) option" where
  "read_loop waiting 0 do_echo inp acc out = Some (int (length acc), acc, inp, out)"
| "read_loop waiting (Suc n) do_echo [] acc out = None"
| "read_loop waiting (Suc n) do_echo (c # inp) acc out =
     (let out = (if do_echo then out @ [c] else out) in
      if c = 13 \<or> c = 10 then Some (int (length acc), acc, inp, out)
      else if c = 0 \<or> c = 3 then Some (-1, acc, inp, out)
      else
        let (stop, inp) = hangup waiting inp
        in if stop then Some (-1, acc @ [c], inp, out)
           else read_loop waiting n do_echo inp (acc @ [c]) out)"
  by pat_completeness auto
termination by (relation "measure (\<lambda>(w, n, e, i, a, o'). n)") auto

definition read_record ::
    "(nat \<Rightarrow> bool) \<Rightarrow> nat \<Rightarrow> bool \<Rightarrow> byte list \<Rightarrow> byte list \<Rightarrow>
     (int \<times> byte list \<times> byte list \<times> byte list) option" where
  "read_record waiting len do_echo inp out = read_loop waiting (len - 1) do_echo inp [] out"

lemma hangup_less: "hangup waiting inp = (stop, inp') \<Longrightarrow> length inp' \<le> length inp"
  by (auto simp: hangup_def split: list.splits if_splits)

lemma hangup_quiet [simp]: "hangup (\<lambda>_. False) inp = (False, inp)"
  by (simp add: hangup_def split: list.splits)

lemma read_loop_consumes:
  "read_loop waiting n do_echo inp acc out = Some (r, rec', inp', out') \<Longrightarrow>
     length inp' \<le> length inp \<and> (0 < n \<longrightarrow> length inp' < length inp)"
proof (induction waiting n do_echo inp acc out rule: read_loop.induct)
  case (3 waiting n do_echo c inp acc out)
  obtain stop inp1 where h: "hangup waiting inp = (stop, inp1)" by fastforce
  note l = hangup_less [OF h]
  show ?case
  proof (cases "c = 13 \<or> c = 10 \<or> c = 0 \<or> c = 3 \<or> stop")
    case True
    then show ?thesis using "3.prems" l by (auto simp: Let_def h split: if_splits)
  next
    case False
    then show ?thesis using "3.prems" "3.IH" [OF refl _ _ h [symmetric] refl] l by (auto simp: Let_def h)
  qed
qed auto

section \<open>Loading\<close>

record load_state =
  ls_mem :: mem
  ls_in :: "byte list"
  ls_out :: "byte list"
  ls_filesize :: "byte list option"

type_synonym driver = "flash_info \<Rightarrow> byte list \<Rightarrow> u32 \<Rightarrow> u32 \<Rightarrow> mem \<Rightarrow> int \<times> mem"

definition flash_perror :: "int \<Rightarrow> byte list \<Rightarrow> byte list" where
  "flash_perror err out =
     (if err = 0 then out
      else if err = 1 then puts (''Timeout writing to Flash'' @ nl) out
      else if err = 2 then puts (''Flash not Erased'' @ nl) out
      else if err = 4 then puts (''Can'' @ [CHR 0x27] @ ''t write to protected Flash sectors'' @ nl) out
      else if err = 8 then puts (''Outside available Flash'' @ nl) out
      else if err = 16 then puts (''Start and/or end address not on sector boundary'' @ nl) out
      else if err = 32 then puts (''Unknown Vendor of Flash'' @ nl) out
      else if err = 64 then puts (''Unknown Type of Flash'' @ nl) out
      else if err = 128 then puts (''General Flash Programming Error'' @ nl) out
      else printf (''%s[%d] FIXME: rc=%d'' @ nl)
             [ArgStr (Some (bytes ''flash.c'')), ArgInt 221, ArgInt (of_int err)] out)"

text \<open>
  A data record: \<open>None\<close> is a \<open>memcpy\<close> of more bytes than \<open>binbuf\<close> holds, \<open>Inl\<close> the return of an
  error, \<open>Inr\<close> the changed state. A negative length is a huge \<open>size_t\<close>.
\<close>

definition store_data ::
    "flash_info list \<Rightarrow> driver \<Rightarrow> srec_out \<Rightarrow> u32 \<Rightarrow> load_state \<Rightarrow> (load_state + load_state) option" where
  "store_data banks write_buff so store_addr st =
     (case addr2info banks store_addr of
        Some _ \<Rightarrow>
          let (rc, m) = flash_write write_buff banks (so_data so) store_addr (of_int (so_count so)) (ls_mem st);
              st = st\<lparr>ls_mem := m\<rparr>
          in Some (if rc \<noteq> 0 then Inl (st\<lparr>ls_out := flash_perror rc (ls_out st)\<rparr>) else Inr st)
      | None \<Rightarrow>
          if unat (of_int (so_count so) :: u32) \<le> length (so_data so)
          then Some (Inr (st\<lparr>ls_mem := write_bytes (ls_mem st) (unat store_addr)
                               (take (unat (of_int (so_count so) :: u32)) (so_data so))\<rparr>))
          else None)"

definition load_report :: "u32 \<Rightarrow> u32 \<Rightarrow> load_state \<Rightarrow> load_state" where
  "load_report start_addr end_addr st =
     (let size = end_addr - start_addr + 1
      in st\<lparr>ls_out := printf (nl @ ''## First Load Addr = 0x%08lX'' @ nl @
                ''## Last  Load Addr = 0x%08lX'' @ nl @
                ''## Total Size      = 0x%08lX = %ld Bytes'' @ nl)
                [ArgInt start_addr, ArgInt end_addr, ArgInt size, ArgInt size] (ls_out st),
            ls_filesize := sprintf ''%lX'' [ArgInt size]\<rparr>)"

definition line_dot :: "bool \<Rightarrow> int \<Rightarrow> load_state \<Rightarrow> int \<times> load_state" where
  "line_dot do_echo line_count st =
     (if \<not> do_echo then (line_count + 1,
        if (line_count + 1) mod 100 = 0 then st\<lparr>ls_out := ls_out st @ [chr CHR ''.'']\<rparr> else st)
      else (line_count, st))"

lemma line_dot_frame [simp]:
  "ls_mem (snd (line_dot e l st)) = ls_mem st" "ls_in (snd (line_dot e l st)) = ls_in st"
  by (simp_all add: line_dot_def)

lemma store_data_in: "store_data banks wb so a st = Some (Inr st') \<Longrightarrow> ls_in st' = ls_in st"
  by (auto simp: store_data_def Let_def case_prod_beta split: option.splits if_splits)

lemma line_dot_in: "line_dot e l st = (l', st') \<Longrightarrow> ls_in st' = ls_in st"
  using line_dot_frame(2) [of e l st] by simp

function load_loop ::
    "(nat \<Rightarrow> bool) \<Rightarrow> bool \<Rightarrow> flash_info list \<Rightarrow> driver \<Rightarrow> u32 \<Rightarrow> srec_out \<Rightarrow> u32 \<Rightarrow> u32 \<Rightarrow> int \<Rightarrow> load_state \<Rightarrow>
     (u32 \<times> load_state) option" where
  "load_loop waiting do_echo banks write_buff offset so start_addr end_addr line_count st =
     (case read_record waiting (SREC_MAXRECLEN + 1) do_echo (ls_in st) (ls_out st) of
        None \<Rightarrow> None
      | Some (r, rec, inp, out) \<Rightarrow>
          let st1 = st\<lparr>ls_in := inp, ls_out := out\<rparr> in
          if r < 0 then Some (NOT 0, st1)
          else
            let (ty, so) = srec_decode rec so in
            if ty < 0 then Some (NOT 0, st1)
            else if ty = SREC_DATA2 \<or> ty = SREC_DATA3 \<or> ty = SREC_DATA4 then
              let store_addr = so_addr so + offset in
              case store_data banks write_buff so store_addr st1 of
                None \<Rightarrow> None
              | Some (Inl st2) \<Rightarrow> Some (NOT 0, st2)
              | Some (Inr st2) \<Rightarrow>
                  let start_addr = (if store_addr < start_addr then store_addr else start_addr);
                      last' = store_addr + of_int (so_count so) - 1;
                      end_addr = (if last' > end_addr then last' else end_addr);
                      (line_count, st3) = line_dot do_echo line_count st2
                  in load_loop waiting do_echo banks write_buff offset so start_addr end_addr line_count st3
            else if ty = SREC_END2 \<or> ty = SREC_END3 \<or> ty = SREC_END4 then
              Some (so_addr so, load_report start_addr end_addr st1)
            else
              let (line_count, st2) = line_dot do_echo line_count st1
              in load_loop waiting do_echo banks write_buff offset so start_addr end_addr line_count st2)"
  by pat_completeness auto
termination
  by (relation "measure (\<lambda>(w', e, b, w, o', s, sa, ea, l, st). length (ls_in st))")
    (auto simp: read_record_def SREC_MAXRECLEN_def case_prod_beta
      dest!: read_loop_consumes store_data_in line_dot_in [OF sym])

declare load_loop.simps [simp del]

definition load_serial ::
    "(nat \<Rightarrow> bool) \<Rightarrow> bool \<Rightarrow> flash_info list \<Rightarrow> driver \<Rightarrow> u32 \<Rightarrow> srec_out \<Rightarrow> load_state \<Rightarrow> (u32 \<times> load_state) option" where
  "load_serial waiting do_echo banks write_buff offset so st =
     load_loop waiting do_echo banks write_buff offset so (NOT 0) 0 0 st"

text \<open>
  The command: \<open>so\<close> is what the automatic variables \<open>binlen\<close>, \<open>addr\<close> and \<open>binbuf\<close> happen to hold;
  \<open>pending\<close> says how many of the next characters are there while the trailing ones are gathered,
  \<open>load_addr\<close> is the global variable.
\<close>

definition do_load_serial ::
    "(nat \<Rightarrow> bool) \<Rightarrow> flash_info list \<Rightarrow> driver \<Rightarrow> byte list option \<Rightarrow> byte list list \<Rightarrow> srec_out \<Rightarrow> nat \<Rightarrow> u32 \<Rightarrow> load_state \<Rightarrow>
     (int \<times> u32 \<times> load_state) option" where
  "do_load_serial waiting banks write_buff env_echo argv so pending load_addr st =
     (let do_echo = (case env_echo of None \<Rightarrow> False | Some s \<Rightarrow> peek s = chr CHR ''1'');
          offset = (if length argv = 2 then fst (simple_strtoul (argv ! 1) 16) else 0);
          st = st\<lparr>ls_out := printf (''## Ready for S-Record download ...'' @ nl) [] (ls_out st)\<rparr>
      in case load_serial waiting do_echo banks write_buff offset so st of
           None \<Rightarrow> None
         | Some (addr, st) \<Rightarrow>
             let st = st\<lparr>ls_in := drop (min 100 pending) (ls_in st)\<rparr>
             in if addr = NOT 0
                then Some (1, load_addr,
                  st\<lparr>ls_out := printf (''## S-Record download aborted'' @ nl) [] (ls_out st)\<rparr>)
                else Some (0, addr,
                  st\<lparr>ls_out := printf (''## Start Addr      = 0x%08lX'' @ nl) [ArgInt addr] (ls_out st)\<rparr>))"

section \<open>Saving\<close>

definition SREC_BYTES_PER_RECORD :: nat where "SREC_BYTES_PER_RECORD = 16"

definition SREC3_START :: string where "SREC3_START = ''S0030000FC'' @ nl"
definition SREC3_FORMAT :: string where "SREC3_FORMAT = ''S3%02X%08lX%s%02X'' @ nl"
definition SREC3_END :: string where "SREC3_END = ''S70500000000FA'' @ nl"

text \<open>\<open>ctrlc\<close>: the position of the console output at which the user's Control C is seen.\<close>

definition write_record :: "(nat \<Rightarrow> bool) \<Rightarrow> byte list \<Rightarrow> byte list \<Rightarrow> int \<times> byte list" where
  "write_record ctrlc buf out =
     (let out = out @ takeWhile (\<lambda>c. c \<noteq> 0) buf
      in (if ctrlc (length out) then -1 else 0, out))"

definition srec3_checksum :: "nat \<Rightarrow> u32 \<Rightarrow> u32 \<Rightarrow> u32" where
  "srec3_checksum len address checksum =
     NOT (checksum + (of_nat len AND 0xff) + (drop_bit 8 (of_nat len) AND 0xff) +
          (address AND 0xff) + (drop_bit 8 address AND 0xff) + (drop_bit 16 address AND 0xff) +
          (drop_bit 24 address AND 0xff)) AND 0xff"

definition srec3_record :: "u32 \<Rightarrow> byte list \<Rightarrow> nat \<Rightarrow> u32 \<Rightarrow> byte list option" where
  "srec3_record address dat reclen checksum =
     sprintf SREC3_FORMAT
       [ArgInt (of_nat (4 + reclen + 1)), ArgInt address, ArgStr (Some dat),
        ArgInt (srec3_checksum (4 + reclen + 1) address checksum)]"

lemma unat_minus_one_lt: "(n :: u32) \<noteq> 0 \<Longrightarrow> unat (n - 1) < unat n"
  by (simp add: unat_minus_one unat_gt_0)

text \<open>
  The \<open>do ... while (count)\<close> loop; \<open>dat\<close> is the text collected so far. The result is the
  returned code and the console output; \<open>None\<close> is a failed \<open>sprintf\<close>.
\<close>

function save_loop ::
    "(nat \<Rightarrow> bool) \<Rightarrow> mem \<Rightarrow> u32 \<Rightarrow> u32 \<Rightarrow> byte list \<Rightarrow> nat \<Rightarrow> u32 \<Rightarrow> byte list \<Rightarrow> (int \<times> byte list) option" where
  "save_loop ctrlc m address count dat reclen checksum out =
     (let (dat, reclen, checksum, count) =
        (if count \<noteq> 0 then
           (let c = ucast (m (unat (address + of_nat reclen))) :: u32
            in (take (2 * reclen) dat @
                  [upper_digits ! unat (drop_bit 4 c AND 0x0f), upper_digits ! unat (c AND 0x0f)],
                reclen + 1, checksum + c, count - 1))
         else (dat, reclen, checksum, count))
      in if reclen = SREC_BYTES_PER_RECORD \<or> count = 0 then
           (if reclen \<noteq> 0 then
              (case srec3_record address dat reclen checksum of
                 None \<Rightarrow> None
               | Some record \<Rightarrow>
                   (case write_record ctrlc record out of (r, out) \<Rightarrow>
                      if r \<noteq> 0 then Some (-1, out)
                      else if count \<noteq> 0
                      then save_loop ctrlc m (address + of_nat reclen) count dat 0 0 out
                      else Some (0, out)))
            else if count \<noteq> 0 then save_loop ctrlc m (address + of_nat reclen) count dat 0 0 out
            else Some (0, out))
         else save_loop ctrlc m address count dat reclen checksum out)"
  by pat_completeness auto
termination
proof (relation "measure (\<lambda>(_, _, _, count, _). unat count)", goal_cases)
  case 1
  show ?case by simp
qed (auto simp: Let_def unat_minus_one_lt split: if_splits)

declare save_loop.simps [simp del]

definition save_serial :: "(nat \<Rightarrow> bool) \<Rightarrow> mem \<Rightarrow> u32 \<Rightarrow> u32 \<Rightarrow> byte list \<Rightarrow> (int \<times> byte list) option" where
  "save_serial ctrlc m address count out =
     (case write_record ctrlc (bytes SREC3_START) out of (r, out) \<Rightarrow>
        if r \<noteq> 0 then Some (-1, out)
        else case save_loop ctrlc m address count [] 0 0 out of
          None \<Rightarrow> None
        | Some (r, out) \<Rightarrow>
            if r \<noteq> 0 then Some (-1, out)
            else case write_record ctrlc (bytes SREC3_END) out of (r, out) \<Rightarrow>
              Some (if r \<noteq> 0 then -1 else 0, out))"

text \<open>The command waits for a carriage return; \<open>None\<close> also if none comes.\<close>

definition do_save_serial ::
    "(nat \<Rightarrow> bool) \<Rightarrow> byte list list \<Rightarrow> mem \<Rightarrow> byte list \<Rightarrow> byte list \<Rightarrow>
     (int \<times> byte list \<times> byte list) option" where
  "do_save_serial ctrlc argv m inp out =
     (let offset = (if length argv \<ge> 2 then fst (simple_strtoul (argv ! 1) 16) else 0);
          size = (if length argv = 3 then fst (simple_strtoul (argv ! 2) 16) else 0);
          out = printf (''## Ready for S-Record upload, press ENTER to proceed ...'' @ nl) [] out
      in case dropWhile (\<lambda>c. c \<noteq> 13) inp of
           [] \<Rightarrow> None
         | _ # inp \<Rightarrow>
             (case save_serial ctrlc m offset size out of
                None \<Rightarrow> None
              | Some (r, out) \<Rightarrow>
                  Some (0, inp,
                    printf (if r \<noteq> 0 then ''## S-Record upload aborted'' @ nl
                            else ''## S-Record upload complete'' @ nl) [] out)))"

section \<open>Hexadecimal fields\<close>

primrec fixed_hex :: "nat \<Rightarrow> u32 \<Rightarrow> byte list" where
  "fixed_hex 0 w = []"
| "fixed_hex (Suc k) w = fixed_hex k (w div 16) @ [upper_digits ! unat (w mod 16)]"

lemma fixed_hex_0: "fixed_hex k 0 = replicate k (chr CHR ''0'')"
  by (induction k) (simp_all add: upper_digits_def replicate_append_same)

lemma fixed_hex_digits:
  "unat w < 16 ^ k \<Longrightarrow> length (number_digits upper_digits w 16) \<le> k \<and>
     replicate (k - length (number_digits upper_digits w 16)) (chr CHR ''0'') @
     rev (number_digits upper_digits w 16) = fixed_hex k w"
proof (induction k arbitrary: w)
  case 0
  then have "w = 0" by (simp add: unat_eq_0)
  then show ?case by (simp add: number_digits_0)
next
  case (Suc k)
  show ?case
  proof (cases "w = 0")
    case True
    then show ?thesis by (simp add: fixed_hex_0 del: fixed_hex.simps replicate_Suc)
  next
    case False
    have "unat (w div 16) < 16 ^ k" using Suc.prems by (simp add: unat_div less_mult_imp_div_less mult.commute)
    moreover have "number_digits upper_digits w 16 =
        upper_digits ! unat (w mod 16) # number_digits upper_digits (w div 16) 16"
      using False by (subst number_digits_step) simp_all
    ultimately show ?thesis using Suc.IH [of "w div 16"] by simp
  qed
qed

lemma zero_large: "flag (ZEROPAD OR LARGE) ZEROPAD" "flag (ZEROPAD OR LARGE) LARGE"
  "\<not> flag (ZEROPAD OR LARGE) LEFT" "\<not> flag (ZEROPAD OR LARGE) SPECIAL" "\<not> flag (ZEROPAD OR LARGE) SIGN"
  by (simp_all add: flag_def flag_defs)

lemma number_fixed_hex:
  assumes "unat w < 16 ^ k" "0 < k"
  shows "number w 16 (int k) (-1) (ZEROPAD OR LARGE) = Some (fixed_hex k w)"
proof -
  have "digit_chars w 16 (ZEROPAD OR LARGE) = (if w = 0 then [chr CHR ''0''] else
      rev (number_digits upper_digits w 16))"
    by (simp add: digit_chars_def zero_large)
  moreover have "replicate (k - Suc 0) (chr CHR ''0'') @ [chr CHR ''0''] = fixed_hex k 0"
    using assms(2) by (cases k) (simp_all add: fixed_hex_0 replicate_append_same del: fixed_hex.simps)
  moreover note fixed_hex_digits [OF assms(1)]
  moreover have "nat (int k - 1) = k - Suc 0" by simp
  ultimately show ?thesis
    by (simp add: number_eq Let_def zero_large number_pad_def sign_chars_def prefix_chars_def nat_diff_distrib)
qed

lemma parse_02X: "parse_spec (chr CHR ''0'' # chr CHR ''2'' # chr CHR ''X'' # fmt) args =
  Some \<lparr>fs_fmt = chr CHR ''X'' # fmt, fs_args = args, fs_flags = ZEROPAD, fs_width = 2,
        fs_precision = -1, fs_qualifier = 0\<rparr>"
  by (simp add: parse_spec_def get_width_def is_digit_def get_precision_def get_qualifier_def)

lemma parse_08lX: "parse_spec (chr CHR ''0'' # chr CHR ''8'' # chr CHR ''l'' # chr CHR ''X'' # fmt) args =
  Some \<lparr>fs_fmt = chr CHR ''X'' # fmt, fs_args = args, fs_flags = ZEROPAD, fs_width = 8,
        fs_precision = -1, fs_qualifier = chr CHR ''l''\<rparr>"
  by (simp add: parse_spec_def get_width_def is_digit_def get_precision_def get_qualifier_def)

lemma conv_X: "int_conversion (chr CHR ''X'') = Some (16, LARGE)"
  by (simp add: int_conversion_def)

lemma vsprintf_loop_02X:
  assumes "unat w < 256"
  shows "vsprintf_loop (chr CHR ''%'' # chr CHR ''0'' # chr CHR ''2'' # chr CHR ''X'' # fmt) (ArgInt w # args) out ns =
    vsprintf_loop fmt args (out @ fixed_hex 2 w) ns"
  using assms number_fixed_hex [of w 2]
  unfolding vsprintf_loop.simps parse_02X
  by (simp add: convert_int conv_X [simplified] int_arg_def Let_def)

lemma vsprintf_loop_08lX:
  "vsprintf_loop (chr CHR ''%'' # chr CHR ''0'' # chr CHR ''8'' # chr CHR ''l'' # chr CHR ''X'' # fmt)
     (ArgInt w # args) out ns =
   vsprintf_loop fmt args (out @ fixed_hex 8 w) ns"
  using number_fixed_hex [of w 8] unsigned_less [of w, where ?'a = nat]
  unfolding vsprintf_loop.simps parse_08lX
  by (simp add: convert_int conv_X [simplified] int_arg_def Let_def)

lemma fixed_hex_byte: "fixed_hex (Suc (Suc k)) w = fixed_hex k (w div 256) @ hex2 (ucast w)"
proof -
  have u: "unat (ucast w :: byte) = unat w mod 256" by (simp add: unsigned_ucast_eq take_bit_eq_mod)
  have "unat w mod 256 div 16 = unat w div 16 mod 16"
    using mod_mult2_eq [of "unat w" 16 16] by simp
  moreover have "unat w mod 256 mod 16 = unat w mod 16" by (simp add: mod_mod_cancel)
  moreover have "w div 16 div 16 = w div 256"
    by (simp add: word_unat_eq_iff unat_div div_mult2_eq [symmetric])
  ultimately show ?thesis
    by (simp add: hex2_def unat_div unat_mod u)
qed

lemma fixed_hex_2: "fixed_hex 2 w = hex2 (ucast w)"
  using fixed_hex_byte [of 0 w] by (simp add: numeral_2_eq_2)

lemma fixed_hex_8:
  "fixed_hex 8 w = hexs [ucast (drop_bit 24 w), ucast (drop_bit 16 w), ucast (drop_bit 8 w), ucast w]"
proof -
  have d: "w div 256 = drop_bit 8 w" for w :: u32 by (simp add: drop_bit_eq_div)
  have "fixed_hex 8 = fixed_hex (Suc (Suc (Suc (Suc (Suc (Suc (Suc (Suc 0))))))))"
    by (simp add: numeral_eq_Suc del: fixed_hex.simps)
  then show ?thesis
    by (simp del: fixed_hex.simps(2) add: fixed_hex_byte d drop_bit_drop_bit)
qed

section \<open>A printed record\<close>

lemma ucast_byte:
  "(ucast (a + b) :: byte) = ucast a + ucast (b :: u32)"
  "(ucast (NOT a) :: byte) = NOT (ucast a)"
  "(ucast (a AND 0xff) :: byte) = ucast a"
proof -
  show "(ucast (a + b) :: byte) = ucast a + ucast b"
  proof -
    have "unat (ucast x :: byte) = unat x mod 256" for x :: u32
      by (simp add: unsigned_ucast_eq take_bit_eq_mod)
    then show ?thesis
      by (simp add: word_unat_eq_iff unat_word_ariths(1) mod_mod_cancel mod_add_eq)
  qed
  show "(ucast (NOT a) :: byte) = NOT (ucast a)"
    by (rule bit_word_eqI) (simp add: bit_simps)
  have "(0xff :: u32) = mask 8" by (simp add: mask_eq_exp_minus_1)
  moreover have "(ucast (a AND mask 8) :: byte) = ucast a"
    by (rule bit_word_eqI) (simp add: bit_simps)
  ultimately show "(ucast (a AND 0xff) :: byte) = ucast a" by (simp only:)
qed

lemma ucast_sum: "(ucast (sum_list (map ucast xs) :: u32) :: byte) = sum_list xs"
proof (induction xs)
  case (Cons x xs)
  have "(ucast (ucast x :: u32) :: byte) = x" by (rule bit_word_eqI) (simp add: bit_simps)
  then show ?case using Cons by (simp add: ucast_byte)
qed simp

lemma ucast_of_nat: "(ucast (of_nat n :: u32) :: byte) = of_nat n"
  by (simp add: word_unat_eq_iff unsigned_ucast_eq unat_of_nat take_bit_eq_mod mod_mod_cancel)

lemma srec3_checksum_byte:
  assumes "length xs \<le> 16"
  shows "(ucast (srec3_checksum (4 + length xs + 1) a (sum_list (map ucast xs))) :: byte) =
     NOT (srec_sum (chr CHR ''3'') a xs)"
proof -
  let ?n = "4 + length xs + 1"
  have "unat (of_nat ?n :: u32) = ?n" using assms by (subst unat_of_nat) simp
  then have "unat (drop_bit 8 (of_nat ?n :: u32)) = 0"
    using assms by (simp only: unat_drop_bit_eq) (simp add: drop_bit_eq_div)
  then have z: "drop_bit 8 (of_nat ?n :: u32) = 0" by (simp only: unat_eq_0)
  have len: "length (addr_bytes (chr CHR ''3'') a) = 4" by (simp add: addr_bytes_def)
  show ?thesis
    unfolding srec3_checksum_def ucast_byte ucast_sum z ucast_of_nat srec_sum_def len
    by (simp add: addr_bytes_def ac_simps)
qed

lemma and_ff_lt: "unat ((a :: u32) AND 0xff) < 256"
proof -
  have "unat (a AND 0xff) \<le> unat (0xff :: u32)"
    by (rule word_le_nat_alt [THEN iffD1]) (rule word_and_le1)
  then show ?thesis by simp
qed

lemma hexs_length: "length (hexs xs) = 2 * length xs"
  by (induction xs) simp_all

lemma srec3_record_line:
  assumes "length xs \<le> 16"
  shows "srec3_record a (hexs xs) (length xs) (sum_list (map ucast xs)) =
    Some (srec_line (chr CHR ''3'') a xs (NOT (srec_sum (chr CHR ''3'') a xs)) @ [10])"
proof -
  let ?n = "4 + length xs + 1"
  have fmt: "bytes SREC3_FORMAT = chr CHR ''S'' # chr CHR ''3'' #
      chr CHR ''%'' # chr CHR ''0'' # chr CHR ''2'' # chr CHR ''X'' #
      chr CHR ''%'' # chr CHR ''0'' # chr CHR ''8'' # chr CHR ''l'' # chr CHR ''X'' #
      chr CHR ''%'' # chr CHR ''s'' #
      chr CHR ''%'' # chr CHR ''0'' # chr CHR ''2'' # chr CHR ''X'' # [chr CHR 0x0A]"
    by (simp add: SREC3_FORMAT_def)
  have lit: "vsprintf_loop (chr CHR ''S'' # chr CHR ''3'' # f) args [] [] =
      vsprintf_loop f args [chr CHR ''S'', chr CHR ''3''] []" for f args
    by simp
  have nlc: "vsprintf_loop [chr CHR 0x0A] [] o' [] = Some (o' @ [10], [])" for o' by simp
  have len: "unat (of_nat ?n :: u32) < 256" using assms by (subst unat_of_nat) simp
  have tk: "take 4294967295 (hexs xs) = hexs xs" using assms hexs_length [of xs] by simp
  have c: "unat (srec3_checksum ?n a (sum_list (map ucast xs))) < 256"
    unfolding srec3_checksum_def by (rule and_ff_lt)
  have ab: "addr_bytes (chr CHR ''3'') a = [ucast (drop_bit 24 a), ucast (drop_bit 16 a),
      ucast (drop_bit 8 a), ucast a]" by (simp add: addr_bytes_def)
  show ?thesis
    unfolding srec3_record_def sprintf_def vsprintf_def fmt lit
      vsprintf_loop_02X [OF len] vsprintf_loop_08lX vsprintf_loop_str vsprintf_loop_02X [OF c] nlc
      fixed_hex_2 fixed_hex_8 srec3_checksum_byte [OF assms] ucast_of_nat tk srec_line_def ab
    by simp
qed

section \<open>What \<open>save_serial\<close> prints\<close>

definition srec3_line :: "u32 \<Rightarrow> byte list \<Rightarrow> byte list" where
  "srec3_line a xs = srec_line (chr CHR ''3'') a xs (NOT (srec_sum (chr CHR ''3'') a xs))"

function srec3_lines :: "u32 \<Rightarrow> byte list \<Rightarrow> byte list" where
  "srec3_lines a xs =
     (if xs = [] then [] else srec3_line a (take 16 xs) @ [10] @ srec3_lines (a + 16) (drop 16 xs))"
  by pat_completeness auto
termination by (relation "measure (\<lambda>(a, xs). length xs)") auto

declare srec3_lines.simps [simp del]

lemma upper_digits_ge: "n < 16 \<Longrightarrow> 48 \<le> upper_digits ! n"
proof -
  have "list_all (\<lambda>c. 48 \<le> c) upper_digits" by (simp add: upper_digits_def)
  moreover have "length upper_digits = 36" by (simp add: upper_digits_def)
  moreover assume "n < 16"
  ultimately show ?thesis by (simp add: list_all_length)
qed

lemma hex2_ge: "c \<in> set (hex2 b) \<Longrightarrow> 48 \<le> c"
proof -
  have "unat (b div 16) < 16" "unat (b mod 16) < 16"
    using unsigned_less [of b, where ?'a = nat] by (simp_all add: unat_div unat_mod)
  then show "c \<in> set (hex2 b) \<Longrightarrow> 48 \<le> c" by (auto simp: hex2_def upper_digits_ge)
qed

lemma srec_line_ge: "c \<in> set (srec3_line a xs) \<Longrightarrow> 48 \<le> c"
  by (auto simp: srec3_line_def srec_line_def dest: hex2_ge)

lemma srec3_line_plain: "0 \<notin> set (srec3_line a xs)"
  using srec_line_ge [of 0 a xs] by auto

lemma hex2_nibbles:
  "hex2 b = [upper_digits ! unat (drop_bit 4 (ucast b :: u32) AND 0x0f), upper_digits ! unat ((ucast b :: u32) AND 0x0f)]"
proof -
  have m: "(0x0f :: u32) = mask 4" by (simp add: mask_eq_exp_minus_1)
  have b: "unat b < 256" using unsigned_less [of b, where ?'a = nat] by simp
  have u: "unat (ucast b :: u32) = unat b" by (simp add: unsigned_ucast_eq take_bit_nat_eq_self b less_trans [OF b])
  have "unat (x AND mask 4) = unat x mod 16" for x :: u32
    by (simp add: take_bit_eq_mask [symmetric] unsigned_take_bit_eq take_bit_eq_mod unat_mod)
  then show ?thesis
    using b unfolding m by (simp add: hex2_def unat_div unat_mod unat_drop_bit_eq drop_bit_eq_div u)
qed

abbreviation no_ctrlc :: "nat \<Rightarrow> bool" where "no_ctrlc \<equiv> \<lambda>_. False"

lemma write_record_plain: "0 \<notin> set buf \<Longrightarrow> write_record no_ctrlc buf out = (0, out @ buf)"
  by (simp add: write_record_def) (metis (mono_tags, lifting) takeWhile_eq_all_conv)

definition mem_from :: "mem \<Rightarrow> u32 \<Rightarrow> nat \<Rightarrow> nat \<Rightarrow> byte list" where
  "mem_from m a k n = map (\<lambda>i. m (unat (a + of_nat (k + i)))) [0..<n]"

lemma mem_from_Suc: "mem_from m a k (Suc n) = m (unat (a + of_nat k)) # mem_from m a (Suc k) n"
  by (simp add: mem_from_def upt_conv_Cons map_Suc_upt [symmetric] comp_def ac_simps del: upt_Suc)

lemma mem_from_shift: "mem_from m (a + of_nat k) 0 n = mem_from m a k n"
  by (simp add: mem_from_def ac_simps)

lemma save_loop_dat:
  "count \<noteq> 0 \<Longrightarrow> save_loop ctrlc m a count dat 0 ck out = save_loop ctrlc m a count (hexs []) (length []) ck out"
  by (subst (1 2) save_loop.simps) simp

lemma save_loop_lines:
  assumes "unat count = Suc n" "length ys < 16"
  shows "save_loop no_ctrlc m a count (hexs ys) (length ys) (sum_list (map ucast ys)) out =
    Some (0, out @ srec3_lines a (ys @ mem_from m a (length ys) (Suc n)))"
  using assms
proof (induction n arbitrary: a count ys out rule: less_induct)
  case (less n)
  define c where "c = m (unat (a + of_nat (length ys)))"
  define ys' where "ys' = ys @ [c]"
  have c0: "count \<noteq> 0" using less.prems(1) by auto
  have u: "unat (count - 1) = n" using less.prems(1) c0 by (simp add: unat_minus_one)
  have tk: "take (2 * length ys) (hexs ys) = hexs ys" by (simp add: hexs_length)
  have mf: "ys @ mem_from m a (length ys) (Suc n) = ys' @ mem_from m a (length ys') n"
    by (simp add: mem_from_Suc ys'_def c_def)
  have hy: "hexs ys @ [upper_digits ! unat (drop_bit 4 (ucast c :: u32) AND 0x0f),
      upper_digits ! unat ((ucast c :: u32) AND 0x0f)] = hexs ys'"
    by (simp add: ys'_def hex2_nibbles [symmetric])
  have sy: "sum_list (map ucast ys) + ucast c = (sum_list (map ucast ys') :: u32)"
    by (simp add: ys'_def)
  have ly: "length ys + 1 = length ys'" "length ys' \<noteq> 0" "length ys' \<le> 16"
    using less.prems(2) by (simp_all add: ys'_def)
  have rec: "srec3_record a (hexs ys') (length ys') (sum_list (map ucast ys')) =
      Some (srec3_line a ys' @ [10])"
    using srec3_record_line [OF ly(3)] by (simp add: srec3_line_def)
  have wr: "write_record no_ctrlc (srec3_line a ys' @ [10]) out = (0, out @ srec3_line a ys' @ [10])"
    by (rule write_record_plain) (simp add: srec3_line_plain)
  have step: "save_loop no_ctrlc m a count (hexs ys) (length ys) (sum_list (map ucast ys)) out =
    (if length ys' = SREC_BYTES_PER_RECORD \<or> count - 1 = 0 then
       if count - 1 \<noteq> 0
       then save_loop no_ctrlc m (a + of_nat (length ys')) (count - 1) (hexs ys') 0 0
              (out @ srec3_line a ys' @ [10])
       else Some (0, out @ srec3_line a ys' @ [10])
     else save_loop no_ctrlc m a (count - 1) (hexs ys') (length ys') (sum_list (map ucast ys')) out)"
    by (subst save_loop.simps)
      (simp only: Let_def c0 if_True not_False_eq_True prod.case tk c_def [symmetric] hy sy ly(1,2) rec
        option.case wr if_False simp_thms)
  show ?case
  proof (cases "n = 0")
    case True
    then have "count - 1 = 0" using u by (simp add: unat_eq_0)
    moreover have "srec3_lines a ys' = srec3_line a ys' @ [10]"
      using ly by (simp add: srec3_lines.simps [of a ys'] srec3_lines.simps [of _ "[]"])
    ultimately show ?thesis unfolding step mf using True by (simp add: mem_from_def)
  next
    case False
    then have ne: "count - 1 \<noteq> 0" using u by auto
    obtain k where k: "n = Suc k" "k < n" using False by (cases n) auto
    show ?thesis
    proof (cases "length ys' = SREC_BYTES_PER_RECORD")
      case True
      then have l: "length ys' = 16" by (simp add: SREC_BYTES_PER_RECORD_def)
      have "srec3_lines a (ys' @ z) = srec3_line a ys' @ [10] @ srec3_lines (a + 16) z" for z
        using l ly(2) by (subst srec3_lines.simps) auto
      moreover have "save_loop no_ctrlc m (a + 16) (count - 1) (hexs ys') 0 0 o' =
          Some (0, o' @ srec3_lines (a + 16) (mem_from m a 16 (Suc k)))" for o'
        using less.IH [of k "count - 1" "[]" "a + 16" o'] k u mem_from_shift [of m a 16 "Suc k"]
        by (subst save_loop_dat [OF ne]) simp
      ultimately show ?thesis
        unfolding step mf l SREC_BYTES_PER_RECORD_def using ne by (simp add: k(1))
    next
      case False
      then have "length ys' < 16" using ly(3) by (simp add: SREC_BYTES_PER_RECORD_def)
      then show ?thesis
        unfolding step mf using False ne less.IH [of k "count - 1" ys' a out] k u by simp
    qed
  qed
qed


lemma save_serial_lines:
  assumes "count \<noteq> 0"
  shows "save_serial no_ctrlc m a count out =
    Some (0, out @ bytes SREC3_START @ srec3_lines a (mem_from m a 0 (unat count)) @ bytes SREC3_END)"
proof -
  obtain n where n: "unat count = Suc n" using assms by (cases "unat count") (auto simp: unat_eq_0)
  have plain: "0 \<notin> set (bytes SREC3_START)" "0 \<notin> set (bytes SREC3_END)"
    by (simp_all add: SREC3_START_def SREC3_END_def)
  show ?thesis
    using save_loop_lines [OF n, of "[]" m a] n
    by (simp add: save_serial_def write_record_plain plain)
qed

section \<open>What \<open>load_serial\<close> reads\<close>

definition line_chars :: "byte list \<Rightarrow> bool" where
  "line_chars l \<longleftrightarrow> list_all (\<lambda>c. c \<noteq> 13 \<and> c \<noteq> 10 \<and> c \<noteq> 0 \<and> c \<noteq> 3) l"

abbreviation quiet :: "nat \<Rightarrow> bool" where "quiet \<equiv> \<lambda>_. False"

lemma read_loop_line:
  "line_chars l \<Longrightarrow> length l < n \<Longrightarrow>
     read_loop quiet n do_echo (l @ 10 # rest) acc out =
       Some (int (length acc + length l), acc @ l, rest, if do_echo then out @ l @ [10] else out)"
proof (induction l arbitrary: n acc out)
  case Nil
  then show ?case by (cases n) simp_all
next
  case (Cons c l)
  then obtain k where k: "n = Suc k" "length l < k" by (cases n) auto
  have l: "line_chars l" "c \<noteq> 13 \<and> c \<noteq> 10 \<and> c \<noteq> 0 \<and> c \<noteq> 3"
    using Cons.prems(1) by (simp_all add: line_chars_def)
  show ?case
    using Cons.IH [OF l(1) k(2), of "acc @ [c]" "if do_echo then out @ [c] else out"] l(2)
    by (simp add: k(1) Let_def ac_simps)
qed

lemma read_record_line:
  assumes "line_chars l" "length l < 516"
  shows "read_record quiet (SREC_MAXRECLEN + 1) do_echo (l @ 10 # rest) out =
    Some (int (length l), l, rest, if do_echo then out @ l @ [10] else out)"
  using read_loop_line [OF assms, of do_echo rest "[]" out]
  by (simp add: read_record_def SREC_MAXRECLEN_def)

text \<open>
  With characters waiting, the check drops one after each character it stores.
\<close>

lemma check_drops_characters:
  "read_record (\<lambda>_. True) (SREC_MAXRECLEN + 1) False (bytes ''S123456'' @ [10, 10]) [] =
     Some (4, bytes ''S246'', [], [])"
  by code_simp

lemma line_chars_ge: "(\<And>c. c \<in> set l \<Longrightarrow> 48 \<le> c) \<Longrightarrow> line_chars l"
  by (fastforce simp: line_chars_def list_all_iff)

lemma srec3_line_length: "length xs \<le> 16 \<Longrightarrow> length (srec3_line a xs) < 516"
  by (simp add: srec3_line_def srec_line_def hexs_length addr_bytes_def)

lemma srec3_line_decode:
  assumes "length xs \<le> 16"
  shows "srec_decode (srec3_line a xs) so =
    (SREC_DATA4, so\<lparr>so_count := int (length xs), so_addr := a, so_data := xs\<rparr>)"
proof -
  have "a AND 0xFFFFFFFF = (a :: u32)"
    unfolding mask_lits by (rule bit_word_eqI) (simp add: bit_simps)
  then show ?thesis
    using srec_decode_line [of "chr CHR ''3''" a xs "[]" "NOT (srec_sum (chr CHR ''3'') a xs)" "[]" so] assms
    by (simp add: srec3_line_def srec_kinds_def addr_bytes_def srec_type_of_def addr_mask_def)
qed

lemma end_line_decode:
  "srec_decode (bytes ''S70500000000FA'') so = (SREC_END4, so\<lparr>so_count := 0, so_addr := 0, so_data := []\<rparr>)"
proof -
  have "hex2 5 = bytes ''05''" "hex2 0 = bytes ''00''" "hex2 0xFA = bytes ''FA''"
    by (simp_all add: hex2_def upper_digits_def)
  then have "srec_line (chr CHR ''7'') 0 [] 0xFA = bytes ''S70500000000FA''"
    by (simp add: srec_line_def addr_bytes_def)
  moreover have "NOT (srec_sum (chr CHR ''7'') 0 []) = 0xFA" by (simp add: srec_sum_def addr_bytes_def)
  ultimately show ?thesis
    using srec_decode_line [of "chr CHR ''7''" 0 "[]" "[]" "0xFA" "[]" so]
    by (simp add: srec_kinds_def addr_bytes_def srec_type_of_def)
qed

lemma start_line_decode:
  "srec_decode (bytes ''S0030000FC'') so = (SREC_START, so\<lparr>so_count := 0, so_addr := 0, so_data := []\<rparr>)"
proof -
  have "hex2 3 = bytes ''03''" "hex2 0 = bytes ''00''" "hex2 0xFC = bytes ''FC''"
    by (simp_all add: hex2_def upper_digits_def)
  then have "srec_line (chr CHR ''0'') 0 [] 0xFC = bytes ''S0030000FC''"
    by (simp add: srec_line_def addr_bytes_def)
  moreover have "NOT (srec_sum (chr CHR ''0'') 0 []) = 0xFC" by (simp add: srec_sum_def addr_bytes_def)
  ultimately show ?thesis
    using srec_decode_line [of "chr CHR ''0''" 0 "[]" "[]" "0xFC" "[]" so]
    by (simp add: srec_kinds_def addr_bytes_def srec_type_of_def)
qed

text \<open>No flash bank holds an address at which data is stored.\<close>

definition no_flash :: "flash_info list \<Rightarrow> u32 \<Rightarrow> nat \<Rightarrow> bool" where
  "no_flash banks a n \<longleftrightarrow> (\<forall>i < n. addr2info banks (a + of_nat i) = None)"

text \<open>What a loaded text leaves on the console: all of it with echo, else at most dots.\<close>

definition echoed :: "bool \<Rightarrow> byte list \<Rightarrow> byte list \<Rightarrow> byte list \<Rightarrow> bool" where
  "echoed do_echo chars out out' \<longleftrightarrow>
     (\<exists>shown. out' = out @ shown \<and> (if do_echo then shown = chars else set shown \<subseteq> {chr CHR ''.''}))"

lemma echoed_append:
  "echoed e xs out out1 \<Longrightarrow> echoed e ys out1 out2 \<Longrightarrow> echoed e (xs @ ys) out out2"
  by (fastforce simp: echoed_def split: if_splits)

lemma echoed_line:
  "ls_out st = (if do_echo then out @ l @ [10] else out) \<Longrightarrow>
     echoed do_echo (l @ [10]) out (ls_out (snd (line_dot do_echo lc st)))"
  by (auto simp: echoed_def line_dot_def)

lemma load_end:
  assumes "ls_in st = bytes SREC3_END @ rest"
  shows "\<exists>st'. load_loop quiet do_echo banks wb offset so sa ea lc st = Some (0, load_report sa ea st') \<and>
    ls_mem st' = ls_mem st \<and> ls_in st' = rest \<and> echoed do_echo (bytes SREC3_END) (ls_out st) (ls_out st')"
proof -
  let ?l = "bytes ''S70500000000FA''"
  have inp: "ls_in st = ?l @ 10 # rest" using assms by (simp add: SREC3_END_def)
  have lc: "line_chars ?l" "length ?l < 516" by (simp_all add: line_chars_def)
  have ty: "\<not> int (length ?l) < 0" "\<not> SREC_END4 < 0"
    "\<not> (SREC_END4 = SREC_DATA2 \<or> SREC_END4 = SREC_DATA3 \<or> SREC_END4 = SREC_DATA4)"
    "SREC_END4 = SREC_END2 \<or> SREC_END4 = SREC_END3 \<or> SREC_END4 = SREC_END4"
    by (simp_all add: srec_codes)
  have sel: "so_addr (so\<lparr>so_count := 0, so_addr := 0, so_data := []\<rparr>) = 0" by simp
  have "load_loop quiet do_echo banks wb offset so sa ea lc st = Some (0, load_report sa ea
      (st\<lparr>ls_in := rest, ls_out := if do_echo then ls_out st @ ?l @ [10] else ls_out st\<rparr>))"
    by (subst load_loop.simps)
      (simp only: inp read_record_line [OF lc] option.case prod.case Let_def end_line_decode ty if_True if_False sel)
  moreover have "bytes SREC3_END = ?l @ [10]" by (simp add: SREC3_END_def)
  ultimately show ?thesis by (auto simp: echoed_def)
qed

lemma next_chunk:
  assumes "unat (a + offset :: u32) + n \<le> 2 ^ 32" "16 < n"
  shows "unat (a + 16 + offset) = unat (a + offset) + 16"
proof -
  have "unat (a + offset + 16) = unat (a + offset) + unat (16 :: u32)"
    using assms by (subst unat_plus_simple [THEN iffD1]) (simp_all add: no_olen_add_nat)
  moreover have "a + 16 + offset = a + offset + 16" by simp
  moreover have "unat (16 :: u32) = 16" by simp
  ultimately show ?thesis by (simp only:)
qed

text \<open>The first and the last address that get bytes, given those met before.\<close>

definition addr_bounds :: "u32 \<Rightarrow> nat \<Rightarrow> u32 \<times> u32 \<Rightarrow> u32 \<times> u32" where
  "addr_bounds b n = (\<lambda>(sa, ea). if n = 0 then (sa, ea) else (min sa b, max ea (b + of_nat n - 1)))"

lemma addr_le:
  assumes "unat (b :: u32) + n \<le> 2 ^ 32" "i \<le> j" "j < n"
  shows "b + of_nat i \<le> b + of_nat j"
proof -
  have "unat (b + of_nat k) = unat b + k" if "k < n" for k
  proof -
    have u: "unat (of_nat k :: u32) = k" using assms(1) that by (simp add: unat_of_nat)
    have "unat b + unat (of_nat k :: u32) < 2 ^ LENGTH(32)" using assms(1) that by (simp add: u)
    then show ?thesis by (subst unat_plus_simple [THEN iffD1]) (simp_all add: no_olen_add_nat u)
  qed
  then show ?thesis using assms(2,3) by (simp add: word_le_nat_alt)
qed

lemma addr_bounds_add:
  assumes "unat (b :: u32) + (k + n) \<le> 2 ^ 32" "0 < k"
  shows "addr_bounds (b + of_nat k) n (addr_bounds b k (sa, ea)) = addr_bounds b (k + n) (sa, ea)"
proof (cases "n = 0")
  case True
  then show ?thesis by (simp add: addr_bounds_def)
next
  case False
  have "b + of_nat 0 \<le> b + of_nat k" "b + of_nat (k - 1) \<le> b + of_nat (k + n - 1)"
    using False assms(2) by (intro addr_le [OF assms(1)]; simp)+
  moreover have "b + of_nat (k - 1) = b + of_nat k - 1" "b + of_nat (k + n - 1) = b + of_nat (k + n) - 1"
    using False assms(2) by (simp_all add: of_nat_diff)
  ultimately have "b \<le> b + of_nat k" "b + of_nat k - 1 \<le> b + of_nat (k + n) - 1"
    by (simp, simp only:)
  then show ?thesis using False assms(2) by (simp add: addr_bounds_def add.assoc min.absorb1 max.absorb2 min.assoc max.assoc)
qed

lemma addr_bounds_step:
  "0 < length xs \<Longrightarrow>
     ((if b < sa then b else sa), (if ea < b + of_int (int (length xs)) - 1 then b + of_int (int (length xs)) - 1 else ea))
     = addr_bounds b (length xs) (sa, ea)"
  by (auto simp: addr_bounds_def min_def max_def dest: leD)

text \<open>One data record: what it stores and how the next round starts.\<close>

lemma load_line:
  assumes inp: "ls_in st = srec3_line a ys @ 10 # tail'"
    and ys: "length ys \<le> 16" "0 < length ys" and free: "addr2info banks (a + offset) = None"
  shows "\<exists>so' lc' st'. load_loop quiet do_echo banks wb offset so sa ea lc st =
      load_loop quiet do_echo banks wb offset so' (fst (addr_bounds (a + offset) (length ys) (sa, ea)))
        (snd (addr_bounds (a + offset) (length ys) (sa, ea))) lc' st' \<and>
    ls_mem st' = write_bytes (ls_mem st) (unat (a + offset)) ys \<and> ls_in st' = tail' \<and>
    echoed do_echo (srec3_line a ys @ [10]) (ls_out st) (ls_out st')"
proof -
  define l where "l = srec3_line a ys"
  have lc: "line_chars l" "length l < 516"
    using line_chars_ge srec_line_ge srec3_line_length [OF ys(1)] by (auto simp: l_def)
  define so' where "so' = so\<lparr>so_count := int (length ys), so_addr := a, so_data := ys\<rparr>"
  define st1 where "st1 = st\<lparr>ls_in := tail', ls_out := if do_echo then ls_out st @ l @ [10] else ls_out st\<rparr>"
  define st2 where "st2 = st1\<lparr>ls_mem := write_bytes (ls_mem st) (unat (a + offset)) ys\<rparr>"
  have "unat (of_nat (length ys) :: u32) = length ys" using ys(1) by (subst unat_of_nat) simp
  then have sd: "store_data banks wb so' (a + offset) st1 = Some (Inr st2)"
    using free by (simp add: store_data_def so'_def st1_def st2_def)
  obtain lc' st3 where ld: "line_dot do_echo lc st2 = (lc', st3)" by fastforce
  then have st3: "st3 = snd (line_dot do_echo lc st2)" by simp
  have dec: "srec_decode l so = (SREC_DATA4, so')"
    unfolding so'_def l_def by (rule srec3_line_decode [OF ys(1)])
  have so: "so_addr so' = a" "so_count so' = int (length ys)" by (simp_all add: so'_def)
  have n: "\<not> int (length l) < 0" "\<not> SREC_DATA4 < 0"
    "SREC_DATA4 = SREC_DATA2 \<or> SREC_DATA4 = SREC_DATA3 \<or> SREC_DATA4 = SREC_DATA4"
    by (simp_all add: SREC_DATA4_def)
  have i: "ls_in st = l @ 10 # tail'" by (simp add: inp l_def)
  have "load_loop quiet do_echo banks wb offset so sa ea lc st =
    load_loop quiet do_echo banks wb offset so' (if a + offset < sa then a + offset else sa)
      (if ea < a + offset + of_int (int (length ys)) - 1 then a + offset + of_int (int (length ys)) - 1 else ea) lc' st3"
    by (subst load_loop.simps)
      (simp only: i read_record_line [OF lc] option.case prod.case sum.case Let_def n dec if_True if_False
        st1_def [symmetric] sd ld so)
  moreover have "echoed do_echo (l @ [10]) (ls_out st) (ls_out st3)"
    unfolding st3 by (rule echoed_line) (simp add: st2_def st1_def)
  moreover have "ls_mem st3 = write_bytes (ls_mem st) (unat (a + offset)) ys" "ls_in st3 = tail'"
    unfolding st3 by (simp_all add: st2_def st1_def)
  ultimately show ?thesis
    using addr_bounds_step [OF ys(2), of "a + offset" sa ea] unfolding l_def by (metis fst_conv snd_conv)
qed

lemma load_lines:
  assumes "ls_in st = srec3_lines a xs @ bytes SREC3_END @ rest"
    and "no_flash banks (a + offset) (length xs)"
    and "unat (a + offset) + length xs \<le> 2 ^ 32"
    and "addr_bounds (a + offset) (length xs) (sa, ea) = (first, last')"
  shows "\<exists>st'. load_loop quiet do_echo banks wb offset so sa ea lc st = Some (0, load_report first last' st') \<and>
    ls_mem st' = write_bytes (ls_mem st) (unat (a + offset)) xs \<and> ls_in st' = rest \<and>
    echoed do_echo (srec3_lines a xs @ bytes SREC3_END) (ls_out st) (ls_out st')"
  using assms
proof (induction "length xs" arbitrary: a xs so sa ea lc st rule: less_induct)
  case less
  show ?case
  proof (cases "xs = []")
    case True
    then show ?thesis
      using load_end [of st rest] less.prems(1,4) by (simp add: srec3_lines.simps addr_bounds_def)
  next
    case False
    define ys zs where "ys = take 16 xs" and "zs = drop 16 xs"
    have xs: "xs = ys @ zs" and ys: "length ys \<le> 16" "0 < length ys"
      and zs: "length zs < length xs" "zs = [] \<or> length ys = 16"
      using False by (auto simp: ys_def zs_def)
    have sl: "srec3_lines a xs = srec3_line a ys @ [10] @ srec3_lines (a + 16) zs"
      using False by (simp add: srec3_lines.simps [of a xs] ys_def zs_def)
    have inp: "ls_in st = srec3_line a ys @ 10 # (srec3_lines (a + 16) zs @ bytes SREC3_END @ rest)"
      using less.prems(1) by (simp add: sl)
    have "addr2info banks (a + offset + of_nat 0) = None"
      using less.prems(2) False by (simp only: no_flash_def) (metis length_greater_0_conv)
    then have free: "addr2info banks (a + offset) = None" by simp
    obtain so' lc' st' sa' ea' where b: "addr_bounds (a + offset) (length ys) (sa, ea) = (sa', ea')"
      and step: "load_loop quiet do_echo banks wb offset so sa ea lc st =
        load_loop quiet do_echo banks wb offset so' sa' ea' lc' st'"
      and st': "ls_mem st' = write_bytes (ls_mem st) (unat (a + offset)) ys"
        "ls_in st' = srec3_lines (a + 16) zs @ bytes SREC3_END @ rest"
        "echoed do_echo (srec3_line a ys @ [10]) (ls_out st) (ls_out st')"
      using load_line [OF inp ys free, of do_echo wb so sa ea lc] by (metis prod.collapse)
    have bound: "unat (a + offset) + (length ys + length zs) \<le> 2 ^ 32" using less.prems(3) by (simp add: xs)
    have b2: "addr_bounds (a + 16 + offset) (length zs) (sa', ea') = (first, last')"
    proof (cases "zs = []")
      case True
      then show ?thesis using b less.prems(4) by (simp add: xs addr_bounds_def)
    next
      case False
      then have "length ys = 16" using zs(2) by simp
      then show ?thesis
        using addr_bounds_add [OF bound ys(2), of sa ea] b less.prems(4) by (simp add: xs ac_simps)
    qed
    have place: "unat (a + 16 + offset) = unat (a + offset) + length ys" if "zs \<noteq> []"
      using next_chunk [OF less.prems(3)] that zs(2) by (simp add: xs)
    have "\<exists>st''. load_loop quiet do_echo banks wb offset so' sa' ea' lc' st' = Some (0, load_report first last' st'') \<and>
        ls_mem st'' = write_bytes (ls_mem st') (unat (a + 16 + offset)) zs \<and> ls_in st'' = rest \<and>
        echoed do_echo (srec3_lines (a + 16) zs @ bytes SREC3_END) (ls_out st') (ls_out st'')"
    proof (rule less.hyps [OF zs(1) st'(2) _ _ b2])
      show "no_flash banks (a + 16 + offset) (length zs)"
        unfolding no_flash_def
      proof (intro allI impI)
        fix i assume i: "i < length zs"
        then have "zs \<noteq> []" by auto
        then have "length ys = 16" using zs(2) by simp
        then have "16 + i < length xs" using i by (simp add: xs)
        then have "addr2info banks (a + offset + of_nat (16 + i)) = None"
          using less.prems(2) unfolding no_flash_def by blast
        then show "addr2info banks (a + 16 + offset + of_nat i) = None" by (simp add: ac_simps)
      qed
      show "unat (a + 16 + offset) + length zs \<le> 2 ^ 32"
        using place bound unsigned_less [of "a + 16 + offset", where ?'a = nat] by (cases "zs = []") simp_all
    qed
    moreover have "write_bytes (ls_mem st') (unat (a + 16 + offset)) zs =
        write_bytes (ls_mem st) (unat (a + offset)) xs"
      using place by (cases "zs = []") (simp_all add: xs st'(1) write_bytes_append)
    ultimately show ?thesis
      using echoed_append [OF st'(3)] unfolding step sl by (metis append.assoc)
  qed
qed

section \<open>Properties\<close>

text \<open>
  C11. What \<open>save_serial\<close> prints of an area of memory is loaded by \<open>load_serial\<close> back to the same
  place, moved by the offset: the bytes of the area stand there, nothing else of the memory
  changes, the start address of the end record is returned, exactly the printed text is consumed,
  and what was loaded is reported: the first address, the last one and the number of bytes, on the
  console after the echo (or dots) and the number in the variable \<open>filesize\<close>. The target must lie
  outside the flash banks and inside the address space, and no character arrives before it is read
  (the check for a hangup would drop it).
\<close>

theorem save_load_roundtrip:
  assumes "count \<noteq> 0" "no_flash banks (a + offset) (unat count)"
    and "unat (a + offset) + unat count \<le> 2 ^ 32"
  shows "\<exists>dump. save_serial (\<lambda>_. False) m a count [] = Some (0, dump) \<and>
    (\<forall>rest (st :: load_state) so. ls_in st = dump @ rest \<longrightarrow>
      (\<exists>st' shown. load_serial (\<lambda>_. False) do_echo banks write_buff offset so st = Some (0, st') \<and> ls_in st' = rest \<and>
        ls_mem st' = write_bytes (ls_mem st) (unat (a + offset))
          (map (\<lambda>i. m (unat (a + of_nat i))) [0..<unat count]) \<and>
        (if do_echo then shown = dump else set shown \<subseteq> {chr CHR ''.''}) \<and>
        ls_out st' = printf (nl @ ''## First Load Addr = 0x%08lX'' @ nl @
            ''## Last  Load Addr = 0x%08lX'' @ nl @ ''## Total Size      = 0x%08lX = %ld Bytes'' @ nl)
          [ArgInt (a + offset), ArgInt (a + offset + count - 1), ArgInt count, ArgInt count]
          (ls_out st @ shown) \<and>
        ls_filesize st' = sprintf ''%lX'' [ArgInt count]))"
proof -
  let ?xs = "mem_from m a 0 (unat count)"
  let ?dump = "bytes SREC3_START @ srec3_lines a ?xs @ bytes SREC3_END"
  let ?final = "a + offset + count - 1"
  have saved: "save_serial (\<lambda>_. False) m a count [] = Some (0, ?dump)"
    using save_serial_lines [OF assms(1), of m a "[]"] by simp
  have len: "length ?xs = unat count" by (simp add: mem_from_def)
  have bounds: "addr_bounds (a + offset) (length ?xs) (NOT 0, 0) = (a + offset, ?final)"
    using assms(1) by (simp add: addr_bounds_def len unat_eq_0 min_def max_def not_le word_order.extremum_unique)
  have loaded: "\<exists>st'. load_serial quiet do_echo banks write_buff offset so st = Some (0, load_report (a + offset) ?final st') \<and>
      ls_in st' = rest \<and> ls_mem st' = write_bytes (ls_mem st) (unat (a + offset)) ?xs \<and>
      echoed do_echo ?dump (ls_out st) (ls_out st')" if start: "ls_in st = ?dump @ rest" for rest so st
  proof -
    let ?l = "bytes ''S0030000FC''" and ?rest = "srec3_lines a ?xs @ bytes SREC3_END @ rest"
    have inp: "ls_in st = ?l @ 10 # ?rest" using start by (simp add: SREC3_START_def)
    have lc: "line_chars ?l" "length ?l < 516" by (simp_all add: line_chars_def)
    define so' where "so' = so\<lparr>so_count := 0, so_addr := 0, so_data := []\<rparr>"
    define st1 where "st1 = st\<lparr>ls_in := ?rest, ls_out := if do_echo then ls_out st @ ?l @ [10] else ls_out st\<rparr>"
    obtain n st2 where ld: "line_dot do_echo 0 st1 = (n, st2)" by fastforce
    then have st2: "st2 = snd (line_dot do_echo 0 st1)" by simp
    have e: "echoed do_echo (bytes SREC3_START) (ls_out st) (ls_out st2)"
      using echoed_line [of st1 do_echo "ls_out st" ?l 0] unfolding st2 by (simp add: st1_def SREC3_START_def)
    have ty: "(int (length ?l) < 0) = False" "(SREC_START < 0) = False"
      "(SREC_START = SREC_DATA2 \<or> SREC_START = SREC_DATA3 \<or> SREC_START = SREC_DATA4) = False"
      "(SREC_START = SREC_END2 \<or> SREC_START = SREC_END3 \<or> SREC_START = SREC_END4) = False"
      by (simp_all add: srec_codes)
    have "load_serial quiet do_echo banks write_buff offset so st =
        load_loop quiet do_echo banks write_buff offset so' (NOT 0) 0 n st2"
      unfolding load_serial_def
      by (subst load_loop.simps)
        (simp only: inp read_record_line [OF lc] option.case prod.case Let_def ty start_line_decode if_False
          so'_def [symmetric] st1_def [symmetric] ld)
    moreover have "ls_in st2 = ?rest" "ls_mem st2 = ls_mem st" unfolding st2 by (simp_all add: st1_def)
    ultimately show ?thesis
      using load_lines [OF _ _ _ bounds, of st2 rest banks do_echo write_buff so' n] assms(2,3)
        echoed_append [OF e] unfolding len by (metis append.assoc)
  qed
  have n: "?final - (a + offset) + 1 = count" by simp
  show ?thesis
    apply (intro exI [of _ ?dump] conjI allI impI)
     apply (rule saved)
    subgoal premises start for rest st so
    proof -
      obtain st1 where l: "load_serial quiet do_echo banks write_buff offset so st =
          Some (0, load_report (a + offset) ?final st1)" "ls_in st1 = rest"
        "ls_mem st1 = write_bytes (ls_mem st) (unat (a + offset)) ?xs"
        "echoed do_echo ?dump (ls_out st) (ls_out st1)"
        using loaded [OF start] by blast
      obtain shown where "ls_out st1 = ls_out st @ shown"
        "if do_echo then shown = ?dump else set shown \<subseteq> {chr CHR ''.''}"
        using l(4) unfolding echoed_def by blast
      then show ?thesis
        using l(1-3)
        by (intro exI [of _ "load_report (a + offset) ?final st1"] exI [of _ shown])
          (simp add: load_report_def Let_def mem_from_def n)
    qed
    done
qed

lemma save_load_roundtrip_witness:
  "\<exists>dump. save_serial (\<lambda>_. False) (\<lambda>_. 7) 0x100 2 [] = Some (0, dump) \<and>
    (\<exists>st'. load_serial (\<lambda>_. False) True [] (\<lambda>_ _ _ _ m. (0, m)) 0x200 \<lparr>so_count = 0, so_addr = 0, so_data = []\<rparr>
       \<lparr>ls_mem = \<lambda>_. 0, ls_in = dump, ls_out = [], ls_filesize = None\<rparr> = Some (0, st') \<and>
       ls_mem st' 0x301 = 7 \<and> ls_mem st' 0x302 = 0 \<and> ls_filesize st' = Some (bytes ''2'') \<and>
       ls_out st' = dump @ bytes (nl @ ''## First Load Addr = 0x00000300'' @ nl @
         ''## Last  Load Addr = 0x00000301'' @ nl @ ''## Total Size      = 0x00000002 = 2 Bytes'' @ nl))"
proof -
  have nf: "no_flash [] (0x100 + 0x200) (unat (2 :: u32))" by (simp add: no_flash_def addr2info_def)
  obtain dump where d: "save_serial (\<lambda>_. False) (\<lambda>_. 7) 0x100 2 [] = Some (0, dump)"
    and l: "\<And>st so rest. ls_in st = dump @ rest \<Longrightarrow> \<exists>st' shown.
      load_serial (\<lambda>_. False) True [] (\<lambda>_ _ _ _ m. (0, m)) 0x200 so st = Some (0, st') \<and>
      ls_mem st' = write_bytes (ls_mem st) (unat (0x100 + 0x200 :: u32)) (map (\<lambda>i. 7) [0..<unat (2 :: u32)]) \<and>
      shown = dump \<and>
      ls_out st' = printf (nl @ ''## First Load Addr = 0x%08lX'' @ nl @
            ''## Last  Load Addr = 0x%08lX'' @ nl @ ''## Total Size      = 0x%08lX = %ld Bytes'' @ nl)
          [ArgInt (0x100 + 0x200), ArgInt (0x100 + 0x200 + 2 - 1), ArgInt 2, ArgInt 2] (ls_out st @ shown) \<and>
      ls_filesize st' = sprintf ''%lX'' [ArgInt 2]"
    using save_load_roundtrip [OF _ nf, of "\<lambda>_. 7" True "\<lambda>_ _ _ _ m. (0, m)"] by (auto split: if_splits) blast
  have "sprintf ''%lX'' [ArgInt 2] = Some (bytes ''2'')" by code_simp
  moreover have "sprintf (nl @ ''## First Load Addr = 0x%08lX'' @ nl @
            ''## Last  Load Addr = 0x%08lX'' @ nl @ ''## Total Size      = 0x%08lX = %ld Bytes'' @ nl)
          [ArgInt (0x100 + 0x200), ArgInt (0x100 + 0x200 + 2 - 1), ArgInt 2, ArgInt 2] =
     Some (bytes (nl @ ''## First Load Addr = 0x00000300'' @ nl @
         ''## Last  Load Addr = 0x00000301'' @ nl @ ''## Total Size      = 0x00000002 = 2 Bytes'' @ nl))"
    by code_simp
  ultimately show ?thesis
    using d l [of "\<lparr>ls_mem = \<lambda>_. 0, ls_in = dump, ls_out = [], ls_filesize = None\<rparr>" "[]"
        "\<lparr>so_count = 0, so_addr = 0, so_data = []\<rparr>"]
    by (auto simp: printf_def write_bytes_apply)
qed

text \<open>
  The record with the negative data length reaches \<open>memcpy\<close> with a length no buffer holds.
\<close>

lemma load_overrun:
  "load_serial quiet False [] write_buff 0 so
     \<lparr>ls_mem = m, ls_in = bytes ''S1020000FD'' @ [10], ls_out = [], ls_filesize = None\<rparr> = None"
proof -
  let ?l = "bytes ''S1020000FD''" and ?st = "\<lparr>ls_mem = m, ls_in = bytes ''S1020000FD'' @ [10], ls_out = [], ls_filesize = None\<rparr>"
  have "line_chars ?l" "length ?l < 516" by (simp_all add: line_chars_def)
  note rr = read_record_line [OF this, of False "[]" "[]"]
  have sel: "ls_in ?st = ?l @ [10]" "ls_out ?st = []" by simp_all
  have n: "(int (length ?l) < 0) = False" "(SREC_DATA2 < 0) = False"
    "(SREC_DATA2 = SREC_DATA2 \<or> SREC_DATA2 = SREC_DATA3 \<or> SREC_DATA2 = SREC_DATA4) = True"
    by (simp_all add: srec_codes)
  have sd: "store_data [] write_buff (so\<lparr>so_count := -1, so_addr := 0, so_data := []\<rparr>) a st = None" for a st
    by (simp add: store_data_def addr2info_def unat_minus_1)
  show ?thesis
    unfolding load_serial_def
    by (subst load_loop.simps)
      (simp only: sel rr option.case prod.case Let_def n srec_negative_count if_True if_False sd)
qed

end
