(* ===== verification/FlashCmd.thy ===== *)
theory FlashCmd imports CmdLoad begin

text \<open>
  The flash commands, \<open>common/cmd_flash.c\<close>: \<open>flinfo\<close>, \<open>erase\<close> and \<open>protect\<close>, with the way an address
  range is turned into sectors of banks. A port without \<open>CFG_FLASH_PROTECTION\<close> (the protection is
  a mark in \<open>flash_info\<close>), without \<open>CONFIG_HAS_DATAFLASH\<close> and without \<open>CONFIG_JFFS2_CMDLINE\<close>.

  The driver of the board, \<open>flash_erase\<close>, is an argument: it gets the bank and the first and last
  sector, and changes the flash contents, of any type \<open>'f\<close>. What the driver prints itself is
  not in \<open>fs_out\<close>. The usage text of the command's table entry is an argument. \<open>None\<close>: a
  store outside the array \<open>protect\<close>.
\<close>

unbundle bit_operations_syntax

record 'f flash_state =
  fs_banks :: "flash_info list"
  fs_flash :: 'f
  fs_out :: "byte list"

definition fs_printf :: "string \<Rightarrow> varg list \<Rightarrow> 'f flash_state \<Rightarrow> 'f flash_state" where
  "fs_printf fmt args st = st\<lparr>fs_out := printf fmt args (fs_out st)\<rparr>"

section \<open>Reading the arguments\<close>

definition cut_at :: "byte \<Rightarrow> byte list \<Rightarrow> (byte list \<times> byte list) option" where
  "cut_at c s = (if c \<in> set s then Some (takeWhile (\<lambda>x. x \<noteq> c) s, tl (dropWhile (\<lambda>x. x \<noteq> c) s)) else None)"

text \<open>A number that is the whole of the string, \<open>ep == str || *ep != 0\<close> otherwise.\<close>

definition whole_number :: "byte list \<Rightarrow> u32 \<Rightarrow> u32 option" where
  "whole_number s base = (let (v, ep) = simple_strtoul s base in if ep = s \<or> ep \<noteq> [] then None else Some v)"

definition sectors :: "flash_info \<Rightarrow> int" where
  "sectors info = int (unat (fi_sector_count info))"

datatype spec = NoSpec | BadSpec | Spec nat int int

definition abbrev_sectors :: "nat \<Rightarrow> flash_info \<Rightarrow> byte list \<Rightarrow> spec" where
  "abbrev_sectors k info s =
     (let (s, p) = (case cut_at (chr CHR ''-'') s of None \<Rightarrow> (s, None) | Some (a, b) \<Rightarrow> (a, Some b))
      in case whole_number s 10 of
           None \<Rightarrow> BadSpec
         | Some first \<Rightarrow>
             if sint first \<ge> sectors info then BadSpec
             else case p of
               None \<Rightarrow> Spec k (sint first) (sint first)
             | Some p \<Rightarrow>
                 (case whole_number p 10 of
                    None \<Rightarrow> BadSpec
                  | Some final \<Rightarrow>
                      if sint final < sint first \<or> sint final \<ge> sectors info then BadSpec
                      else Spec k (sint first) (sint final)))"

definition abbrev_spec :: "flash_info list \<Rightarrow> byte list \<Rightarrow> spec" where
  "abbrev_spec banks str =
     (case cut_at (chr CHR '':'') str of
        None \<Rightarrow> NoSpec
      | Some (str, p) \<Rightarrow>
          (case whole_number str 10 of
             None \<Rightarrow> BadSpec
           | Some bank \<Rightarrow>
               if sint bank < 1 \<or> sint bank > int (length banks) then BadSpec
               else
                 let k = nat (sint bank - 1); info = banks ! k
                 in if fi_flash_id info = FLASH_UNKNOWN then BadSpec else abbrev_sectors k info p))"

text \<open>The end of the sector that holds the address, the first one found.\<close>

fun round_to_sector :: "flash_info list \<Rightarrow> u32 \<Rightarrow> u32 option" where
  "round_to_sector [] a = None"
| "round_to_sector (info # banks) a =
     (case find (\<lambda>i. a \<le> sector_end info i \<and> a \<ge> fi_start info ! i) [0..<unat (fi_sector_count info)] of
        Some i \<Rightarrow> Some (sector_end info i)
      | None \<Rightarrow> round_to_sector banks a)"

definition addr_spec :: "flash_info list \<Rightarrow> byte list \<Rightarrow> byte list \<Rightarrow> byte list \<Rightarrow> (u32 \<times> u32) option \<times> byte list" where
  "addr_spec banks arg1 arg2 out =
     (case whole_number arg1 16 of
        None \<Rightarrow> (None, out)
      | Some addr_first \<Rightarrow>
          let len_used = (peek arg2 = chr CHR ''+'');
              arg2 = (if len_used then tl arg2 else arg2)
          in case whole_number arg2 16 of
               None \<Rightarrow> (None, out)
             | Some addr_last \<Rightarrow>
                 if \<not> len_used then (Some (addr_first, addr_last), out)
                 else
                   let addr_last = addr_first + addr_last - 1
                   in case round_to_sector banks addr_last of
                        None \<Rightarrow> (None, printf (''Error: end address (0x%08lx) not in flash!'' @ nl) [ArgInt addr_last] out)
                      | Some e \<Rightarrow> (Some (addr_first, e), out))"

section \<open>From an address range to sectors\<close>

definition scan_sector :: "flash_info \<Rightarrow> u32 \<Rightarrow> u32 \<Rightarrow> u32 \<Rightarrow> nat \<Rightarrow> int \<times> int \<Rightarrow> int \<times> int" where
  "scan_sector info b_end addr_first addr_last sect s =
     (let end' = (if int sect = last_sector info then b_end else fi_start info ! (sect + 1) - 1)
      in if addr_first > end' then s
         else if addr_last < fi_start info ! sect then s
         else (if addr_first = fi_start info ! sect then int sect else fst s,
               if addr_last = end' then int sect else snd s))"

definition scan_bank :: "flash_info \<Rightarrow> u32 \<Rightarrow> u32 \<Rightarrow> int \<times> int" where
  "scan_bank info addr_first addr_last =
     fold (scan_sector info (fi_start info ! 0 + fi_size info - 1) addr_first addr_last)
       [0..<unat (fi_sector_count info)] (-1, -1)"

text \<open>
  The result: the return code, the first and last sector of each bank (\<open>-1\<close> where there is none),
  their number and the console output.
\<close>

fun fill_banks :: "flash_info list \<Rightarrow> u32 \<Rightarrow> u32 \<Rightarrow> byte list \<Rightarrow> int \<times> (int \<times> int) list \<times> int \<times> byte list" where
  "fill_banks [] addr_first addr_last out = (0, [], 0, out)"
| "fill_banks (info # banks) addr_first addr_last out =
     (let none = map (\<lambda>_. (-1, -1)) banks
      in if \<not> addr_first \<le> addr_last then (0, (-1, -1) # none, 0, out)
         else if fi_flash_id info = FLASH_UNKNOWN then
           (let (rc, rs, n, out) = fill_banks banks addr_first addr_last out in (rc, (-1, -1) # rs, n, out))
         else
           let b_end = fi_start info ! 0 + fi_size info - 1;
               s_end = last_sector info;
               (sf, sl) = scan_bank info addr_first addr_last
           in if sf \<ge> 0 then
                if sl < 0 \<and> \<not> addr_last > b_end then
                  (1, (sf, sl) # none, 0, puts (''Error: end address not on sector boundary'' @ nl) out)
                else
                  let sl = (if sl < 0 then s_end else sl)
                  in if sl < sf then (1, (sf, sl) # none, 0, puts (''Error: end sector precedes start sector'' @ nl) out)
                     else
                       let (rc, rs, n, out) =
                             fill_banks banks (if sl = s_end then b_end + 1 else fi_start info ! nat (sl + 1)) addr_last out
                       in (rc, (sf, sl) # rs, sl - sf + 1 + n, out)
              else if addr_first \<ge> fi_start info ! 0 \<and> addr_first < b_end then
                (1, (sf, sl) # none, 0, puts (''Error: start address not on sector boundary'' @ nl) out)
              else if sl \<ge> 0 then
                (1, (sf, sl) # none, 0,
                 puts (''Error: cannot span across banks when they are mapped in reverse order'' @ nl) out)
              else
                let (rc, rs, n, out) = fill_banks banks addr_first addr_last out in (rc, (sf, sl) # rs, n, out))"

definition flash_fill_sect_ranges ::
    "flash_info list \<Rightarrow> u32 \<Rightarrow> u32 \<Rightarrow> byte list \<Rightarrow> int \<times> (int \<times> int) list \<times> int \<times> byte list" where
  "flash_fill_sect_ranges banks addr_first addr_last out = fill_banks banks addr_first addr_last out"

section \<open>Erasing and protecting a range\<close>

fun erase_ranges ::
    "(flash_info \<Rightarrow> int \<Rightarrow> int \<Rightarrow> 'f \<Rightarrow> int \<times> 'f) \<Rightarrow> flash_info list \<Rightarrow> (int \<times> int) list \<Rightarrow> 'f \<Rightarrow> int \<times> int \<times> 'f" where
  "erase_ranges flash_erase (info # banks) ((sf, sl) # rs) f =
     (if sf \<ge> 0 then
        let (rc, f) = flash_erase info sf sl f
        in if rc \<noteq> 0 then (rc, sl - sf + 1, f)
           else let (rc, n, f) = erase_ranges flash_erase banks rs f in (rc, sl - sf + 1 + n, f)
      else erase_ranges flash_erase banks rs f)"
| "erase_ranges flash_erase _ _ f = (0, 0, f)"

definition not_on_boundary :: "'f flash_state \<Rightarrow> int \<times> 'f flash_state" where
  "not_on_boundary st = (1, fs_printf (''Error: start and/or end address not on sector boundary'' @ nl) [] st)"

definition flash_sect_erase ::
    "(flash_info \<Rightarrow> int \<Rightarrow> int \<Rightarrow> 'f \<Rightarrow> int \<times> 'f) \<Rightarrow> u32 \<Rightarrow> u32 \<Rightarrow> 'f flash_state \<Rightarrow> int \<times> 'f flash_state" where
  "flash_sect_erase flash_erase addr_first addr_last st =
     (let (rc, rs, planned, out) = flash_fill_sect_ranges (fs_banks st) addr_first addr_last (fs_out st);
          st = st\<lparr>fs_out := out\<rparr>
      in if planned \<noteq> 0 \<and> rc = 0 then
           (let (rc, erased, f) = erase_ranges flash_erase (fs_banks st) rs (fs_flash st)
            in (rc, fs_printf (''Erased %d sectors'' @ nl) [ArgInt (of_int erased)] (st\<lparr>fs_flash := f\<rparr>)))
         else if rc = 0 then not_on_boundary st
         else (rc, st))"

text \<open>The loop that sets \<open>info->protect[i]\<close> for \<open>i\<close> from \<open>lo\<close> to \<open>hi\<close>.\<close>

definition set_protect :: "byte \<Rightarrow> int \<Rightarrow> int \<Rightarrow> flash_info \<Rightarrow> flash_info option" where
  "set_protect p lo hi info =
     (if lo \<le> hi \<and> (lo < 0 \<or> hi \<ge> int (length (fi_protect info))) then None
      else Some (info\<lparr>fi_protect := fold (\<lambda>i ps. ps[nat i := p]) [lo..hi] (fi_protect info)\<rparr>))"

fun protect_ranges :: "byte \<Rightarrow> flash_info list \<Rightarrow> (int \<times> int) list \<Rightarrow> (int \<times> flash_info list) option" where
  "protect_ranges p (info # banks) ((sf, sl) # rs) =
     (if fi_flash_id info = FLASH_UNKNOWN \<or> \<not> (sf \<ge> 0 \<and> sf \<le> sl)
      then map_option (\<lambda>(n, bs). (n, info # bs)) (protect_ranges p banks rs)
      else case set_protect p sf sl info of
        None \<Rightarrow> None
      | Some info' \<Rightarrow> map_option (\<lambda>(n, bs). (sl - sf + 1 + n, info' # bs)) (protect_ranges p banks rs))"
| "protect_ranges p banks _ = Some (0, banks)"

definition un :: "byte \<Rightarrow> varg" where
  "un p = ArgStr (Some (bytes (if p \<noteq> 0 then '''' else ''Un-'')))"

definition flash_sect_protect :: "byte \<Rightarrow> u32 \<Rightarrow> u32 \<Rightarrow> 'f flash_state \<Rightarrow> (int \<times> 'f flash_state) option" where
  "flash_sect_protect p addr_first addr_last st =
     (let (rc, rs, planned, out) = flash_fill_sect_ranges (fs_banks st) addr_first addr_last (fs_out st);
          st = st\<lparr>fs_out := out\<rparr>
      in if planned \<noteq> 0 \<and> rc = 0 then
           (case protect_ranges p (fs_banks st) rs of
              None \<Rightarrow> None
            | Some (n, banks) \<Rightarrow>
                Some (0, fs_printf (''%sProtected %d sectors'' @ nl) [un p, ArgInt (of_int n)] (st\<lparr>fs_banks := banks\<rparr>)))
         else if rc = 0 then Some (not_on_boundary st)
         else Some (rc, st))"

section \<open>The commands\<close>

definition flash_usage :: "byte list option \<Rightarrow> 'f flash_state \<Rightarrow> int \<times> 'f flash_state" where
  "flash_usage usage st = (1, fs_printf (''Usage:'' @ nl @ ''%s'' @ nl) [ArgStr usage] st)"

definition only_banks :: "'f flash_state \<Rightarrow> int \<times> 'f flash_state" where
  "only_banks st =
     (1, fs_printf (''Only FLASH Banks # 1 ... # %d supported'' @ nl) [ArgInt (of_nat (length (fs_banks st)))] st)"

fun flinfo_all :: "(flash_info \<Rightarrow> byte list \<Rightarrow> byte list) \<Rightarrow> u32 \<Rightarrow> flash_info list \<Rightarrow> byte list \<Rightarrow> byte list" where
  "flinfo_all flash_print_info bank [] out = out"
| "flinfo_all flash_print_info bank (info # banks) out =
     flinfo_all flash_print_info (bank + 1) banks
       (flash_print_info info (printf (nl @ ''Bank # %ld: '') [ArgInt (bank + 1)] out))"

definition bad_bank :: "u32 \<Rightarrow> flash_info list \<Rightarrow> bool" where
  "bad_bank bank banks \<longleftrightarrow> bank < 1 \<or> unat bank > length banks"

definition do_flinfo ::
    "(flash_info \<Rightarrow> byte list \<Rightarrow> byte list) \<Rightarrow> byte list list \<Rightarrow> 'f flash_state \<Rightarrow> int \<times> 'f flash_state" where
  "do_flinfo flash_print_info argv st =
     (if length argv = 1 then (0, st\<lparr>fs_out := flinfo_all flash_print_info 0 (fs_banks st) (fs_out st)\<rparr>)
      else
        let bank = fst (simple_strtoul (argv ! 1) 16)
        in if bad_bank bank (fs_banks st) then only_banks st
           else
             let st = fs_printf (nl @ ''Bank # %ld: '') [ArgInt bank] st
             in (0, st\<lparr>fs_out := flash_print_info (fs_banks st ! (unat bank - 1)) (fs_out st)\<rparr>))"

text \<open>\<open>erase all\<close>: the loop goes on after an error, the last return code is the result.\<close>

fun erase_all ::
    "(flash_info \<Rightarrow> int \<Rightarrow> int \<Rightarrow> 'f \<Rightarrow> int \<times> 'f) \<Rightarrow> u32 \<Rightarrow> flash_info list \<Rightarrow> int \<Rightarrow> 'f flash_state \<Rightarrow>
     int \<times> 'f flash_state" where
  "erase_all flash_erase bank [] rc st = (rc, st)"
| "erase_all flash_erase bank (info # banks) rc st =
     (let st = fs_printf ''Erase Flash Bank # %ld '' [ArgInt bank] st;
          (rc, f) = flash_erase info 0 (sectors info - 1) (fs_flash st)
      in erase_all flash_erase (bank + 1) banks rc (st\<lparr>fs_flash := f\<rparr>))"

definition do_flerase ::
    "(flash_info \<Rightarrow> int \<Rightarrow> int \<Rightarrow> 'f \<Rightarrow> int \<times> 'f) \<Rightarrow> byte list option \<Rightarrow> byte list list \<Rightarrow> 'f flash_state \<Rightarrow>
     int \<times> 'f flash_state" where
  "do_flerase flash_erase usage argv st =
     (if length argv < 2 then flash_usage usage st
      else if argv ! 1 = bytes ''all'' then erase_all flash_erase 1 (fs_banks st) 0 st
      else case abbrev_spec (fs_banks st) (argv ! 1) of
        BadSpec \<Rightarrow> (1, fs_printf (''Bad sector specification'' @ nl) [] st)
      | Spec k sf sl \<Rightarrow>
          let st = fs_printf ''Erase Flash Sectors %d-%d in Bank # %d ''
                     [ArgInt (of_int sf), ArgInt (of_int sl), ArgInt (of_nat (k + 1))] st;
              (rc, f) = flash_erase (fs_banks st ! k) sf sl (fs_flash st)
          in (rc, st\<lparr>fs_flash := f\<rparr>)
      | NoSpec \<Rightarrow>
          if length argv \<noteq> 3 then flash_usage usage st
          else if argv ! 1 = bytes ''bank'' then
            (let bank = fst (simple_strtoul (argv ! 2) 16)
             in if bad_bank bank (fs_banks st) then only_banks st
                else
                  let st = fs_printf ''Erase Flash Bank # %ld '' [ArgInt bank] st;
                      info = fs_banks st ! (unat bank - 1);
                      (rc, f) = flash_erase info 0 (sectors info - 1) (fs_flash st)
                  in (rc, st\<lparr>fs_flash := f\<rparr>))
          else
            let (r, out) = addr_spec (fs_banks st) (argv ! 1) (argv ! 2) (fs_out st); st = st\<lparr>fs_out := out\<rparr>
            in case r of
                 None \<Rightarrow> (1, fs_printf (''Bad address format'' @ nl) [] st)
               | Some (addr_first, addr_last) \<Rightarrow>
                   if addr_first \<ge> addr_last then flash_usage usage st
                   else flash_sect_erase flash_erase addr_first addr_last st)"

definition protect_banner :: "byte \<Rightarrow> u32 \<Rightarrow> 'f flash_state \<Rightarrow> 'f flash_state" where
  "protect_banner p bank st = fs_printf (''%sProtect Flash Bank # %ld'' @ nl) [un p, ArgInt bank] st"

fun protect_all :: "byte \<Rightarrow> nat \<Rightarrow> nat \<Rightarrow> 'f flash_state \<Rightarrow> 'f flash_state option" where
  "protect_all p 0 k st = Some st"
| "protect_all p (Suc n) k st =
     (let info = fs_banks st ! k
      in if fi_flash_id info = FLASH_UNKNOWN then protect_all p n (Suc k) st
         else case set_protect p 0 (sectors info - 1) info of
           None \<Rightarrow> None
         | Some info' \<Rightarrow>
             let st = protect_banner p (of_nat (k + 1)) st
             in protect_all p n (Suc k) (st\<lparr>fs_banks := (fs_banks st)[k := info']\<rparr>))"

definition protect_one :: "byte \<Rightarrow> nat \<Rightarrow> int \<Rightarrow> int \<Rightarrow> 'f flash_state \<Rightarrow> (int \<times> 'f flash_state) option" where
  "protect_one p k lo hi st =
     (case set_protect p lo hi (fs_banks st ! k) of
        None \<Rightarrow> None
      | Some info \<Rightarrow> Some (0, st\<lparr>fs_banks := (fs_banks st)[k := info]\<rparr>))"

definition do_protect ::
    "byte list option \<Rightarrow> byte list list \<Rightarrow> 'f flash_state \<Rightarrow> (int \<times> 'f flash_state) option" where
  "do_protect usage argv st =
     (if length argv < 3 \<or> (argv ! 1 \<noteq> bytes ''off'' \<and> argv ! 1 \<noteq> bytes ''on'') then Some (flash_usage usage st)
      else
        let p = (if argv ! 1 = bytes ''off'' then 0 else 1)
        in if argv ! 2 = bytes ''all'' then
             map_option (\<lambda>st. (0, st)) (protect_all p (length (fs_banks st)) 0 st)
           else case abbrev_spec (fs_banks st) (argv ! 2) of
             BadSpec \<Rightarrow> Some (1, fs_printf (''Bad sector specification'' @ nl) [] st)
           | Spec k sf sl \<Rightarrow>
               protect_one p k sf sl
                 (fs_printf (''%sProtect Flash Sectors %d-%d in Bank # %d'' @ nl)
                    [un p, ArgInt (of_int sf), ArgInt (of_int sl), ArgInt (of_nat (k + 1))] st)
           | NoSpec \<Rightarrow>
               if length argv \<noteq> 4 then Some (flash_usage usage st)
               else if argv ! 2 = bytes ''bank'' then
                 (let bank = fst (simple_strtoul (argv ! 3) 16)
                  in if bad_bank bank (fs_banks st) then Some (only_banks st)
                     else
                       let st = protect_banner p bank st; info = fs_banks st ! (unat bank - 1)
                       in if fi_flash_id info = FLASH_UNKNOWN
                          then Some (1, fs_printf (''missing or unknown FLASH type'' @ nl) [] st)
                          else protect_one p (unat bank - 1) 0 (sectors info - 1) st)
               else
                 let (r, out) = addr_spec (fs_banks st) (argv ! 2) (argv ! 3) (fs_out st); st = st\<lparr>fs_out := out\<rparr>
                 in case r of
                      None \<Rightarrow> Some (1, fs_printf (''Bad address format'' @ nl) [] st)
                    | Some (addr_first, addr_last) \<Rightarrow>
                        if addr_first \<ge> addr_last then Some (flash_usage usage st)
                        else flash_sect_protect p addr_first addr_last st)"

section \<open>The sectors of a bank\<close>

definition bank_end :: "flash_info \<Rightarrow> u32" where
  "bank_end info = fi_start info ! 0 + fi_size info - 1"

abbreviation sector_count :: "flash_info \<Rightarrow> nat" where
  "sector_count info \<equiv> unat (fi_sector_count info)"

definition known :: "flash_info \<Rightarrow> bool" where
  "known info \<longleftrightarrow> fi_flash_id info \<noteq> FLASH_UNKNOWN"

lemma wf_bank_bounds:
  assumes "wf_bank info" "i < sector_count info"
  shows "fi_start info ! 0 \<le> fi_start info ! i" "fi_start info ! i \<le> sector_end info i"
    "sector_end info i \<le> bank_end info"
  using assms by (auto simp: wf_bank_def bank_end_def)

lemma wf_bank_count: "wf_bank info \<Longrightarrow> 0 < sector_count info"
  by (simp add: wf_bank_def word_less_nat_alt)

lemma wf_bank_known: "wf_bank info \<Longrightarrow> known info"
  by (simp add: wf_bank_def known_def)

lemma wf_bank_last: "wf_bank info \<Longrightarrow> last_sector info = int (sector_count info - 1)"
  by (simp add: wf_bank_def last_sector_eq)

lemma last_sector_iff: "wf_bank info \<Longrightarrow> int j = last_sector info \<longleftrightarrow> j = sector_count info - 1"
  by (simp only: wf_bank_last of_nat_eq_iff)

lemma last_sector_le: "wf_bank info \<Longrightarrow> j < sector_count info \<Longrightarrow> int j \<le> last_sector info"
  unfolding wf_bank_last of_nat_le_iff by linarith

lemma last_sector_less: "wf_bank info \<Longrightarrow> last_sector info < sectors info"
  unfolding wf_bank_last sectors_def of_nat_less_iff using wf_bank_count [of info] by linarith

lemma sector_end_last: "i = sector_count info - 1 \<Longrightarrow> sector_end info i = bank_end info"
  by (simp add: sector_end_def bank_end_def)

lemma sector_next:
  assumes wf: "wf_bank info" and i: "Suc i < sector_count info"
  shows "sector_end info i < fi_start info ! Suc i" "fi_start info ! Suc i = sector_end info i + 1"
proof -
  have e: "sector_end info i = fi_start info ! Suc i - 1" using i by (auto simp: sector_end_def)
  have "fi_start info ! Suc i \<noteq> 0"
  proof
    assume z: "fi_start info ! Suc i = 0"
    then have "fi_start info ! 0 = 0" using wf_bank_bounds(1) [OF wf i] by simp
    moreover have "bank_end info = - 1"
      using wf_bank_bounds(3) [OF wf, of i] i e z by (simp add: word_order.extremum_unique)
    ultimately have "fi_size info = 0" by (simp add: bank_end_def)
    then show False using wf by (simp add: wf_bank_def)
  qed
  then show "sector_end info i < fi_start info ! Suc i"
    using less_of_le_minus_1 [of "sector_end info i" "fi_start info ! Suc i"] e by simp
  show "fi_start info ! Suc i = sector_end info i + 1" using e by simp
qed

lemma sectors_ascend:
  assumes wf: "wf_bank info"
  shows "i < j \<Longrightarrow> j < sector_count info \<Longrightarrow> sector_end info i < fi_start info ! j"
proof (induction j)
  case (Suc j)
  show ?case
  proof (cases "i = j")
    case True
    then show ?thesis using sector_next(1) [OF wf] Suc.prems by simp
  next
    case False
    then have "sector_end info i < fi_start info ! j" using Suc by simp
    also have "\<dots> \<le> sector_end info j" using wf_bank_bounds(2) [OF wf] Suc.prems by simp
    also have "\<dots> < fi_start info ! Suc j" using sector_next(1) [OF wf] Suc.prems by simp
    finally show ?thesis .
  qed
qed simp

lemma sector_le_iff:
  assumes "wf_bank info" "i < sector_count info" "j < sector_count info"
  shows "fi_start info ! i \<le> sector_end info j \<longleftrightarrow> i \<le> j"
proof (cases i j rule: linorder_cases)
  case less
  then show ?thesis using sectors_ascend [OF assms(1) less assms(3)] wf_bank_bounds(2) [OF assms(1)] assms
    by (meson less_imp_le order_trans)
next
  case greater
  then show ?thesis using sectors_ascend [OF assms(1) greater assms(2)] by simp
qed (use assms wf_bank_bounds(2) in auto)

section \<open>The scan of a bank\<close>

lemma scan_step:
  assumes wf: "wf_bank info" and "a \<le> b" and i: "i < sector_count info"
  shows "scan_sector info (bank_end info) a b i s =
    (if fi_start info ! i = a then int i else fst s, if sector_end info i = b then int i else snd s)"
proof -
  have "(int i = last_sector info) = (i = sector_count info - 1)" using wf_bank_last [OF wf] by simp
  then have e: "(if int i = last_sector info then bank_end info else fi_start info ! (i + 1) - 1) = sector_end info i"
    by (simp add: sector_end_def bank_end_def)
  show ?thesis
    using wf_bank_bounds(2) [OF wf i] \<open>a \<le> b\<close> unfolding scan_sector_def e Let_def by (cases s) auto
qed

lemma scan_fold:
  assumes wf: "wf_bank info" and "a \<le> b"
  shows "n \<le> sector_count info \<Longrightarrow>
    fold (scan_sector info (bank_end info) a b) [0..<n] (-1, -1) = (sf, sl) \<Longrightarrow>
    (sf = -1 \<and> (\<forall>i < n. fi_start info ! i \<noteq> a) \<or> (\<exists>i < n. sf = int i \<and> fi_start info ! i = a)) \<and>
    (sl = -1 \<and> (\<forall>i < n. sector_end info i \<noteq> b) \<or> (\<exists>i < n. sl = int i \<and> sector_end info i = b))"
proof (induction n arbitrary: sf sl)
  case (Suc n)
  obtain sf0 sl0 where s0: "fold (scan_sector info (bank_end info) a b) [0..<n] (-1, -1) = (sf0, sl0)"
    by (cases "fold (scan_sector info (bank_end info) a b) [0..<n] (-1, -1)")
  have step: "sf = (if fi_start info ! n = a then int n else sf0)" "sl = (if sector_end info n = b then int n else sl0)"
    using Suc.prems s0 scan_step [OF wf \<open>a \<le> b\<close>, of n "(sf0, sl0)"] by auto
  have IH: "sf0 = -1 \<and> (\<forall>i < n. fi_start info ! i \<noteq> a) \<or> (\<exists>i < n. sf0 = int i \<and> fi_start info ! i = a)"
    "sl0 = -1 \<and> (\<forall>i < n. sector_end info i \<noteq> b) \<or> (\<exists>i < n. sl0 = int i \<and> sector_end info i = b)"
    using Suc.IH [OF _ s0] Suc.prems(1) by simp_all
  have A: "sf = -1 \<and> (\<forall>i < Suc n. fi_start info ! i \<noteq> a) \<or> (\<exists>i < Suc n. sf = int i \<and> fi_start info ! i = a)"
    using IH(1) step(1) by (cases "fi_start info ! n = a") (auto simp: less_Suc_eq)
  have B: "sl = -1 \<and> (\<forall>i < Suc n. sector_end info i \<noteq> b) \<or> (\<exists>i < Suc n. sl = int i \<and> sector_end info i = b)"
    using IH(2) step(2) by (cases "sector_end info n = b") (auto simp: less_Suc_eq)
  show ?case using A B by blast
qed simp

lemma scan_bank_cases:
  assumes wf: "wf_bank info" and "a \<le> b"
  obtains sf sl where "scan_bank info a b = (sf, sl)"
    "sf = -1 \<and> (\<forall>i < sector_count info. fi_start info ! i \<noteq> a) \<or>
     (\<exists>i < sector_count info. sf = int i \<and> fi_start info ! i = a)"
    "sl = -1 \<and> (\<forall>i < sector_count info. sector_end info i \<noteq> b) \<or>
     (\<exists>i < sector_count info. sl = int i \<and> sector_end info i = b)"
  using scan_fold [OF assms order_refl]
  by (cases "scan_bank info a b") (auto simp: scan_bank_def bank_end_def)

section \<open>The banks\<close>

fun adjacent :: "flash_info list \<Rightarrow> bool" where
  "adjacent (x # y # bs) \<longleftrightarrow> bank_end x \<noteq> -1 \<and> fi_start y ! 0 = bank_end x + 1 \<and> adjacent (y # bs)"
| "adjacent _ \<longleftrightarrow> True"

definition banks_ok :: "flash_info list \<Rightarrow> bool" where
  "banks_ok banks \<longleftrightarrow> (\<forall>b \<in> set banks. known b \<longrightarrow> wf_bank b) \<and> adjacent (filter known banks)"

definition selected :: "int \<times> int \<Rightarrow> nat \<Rightarrow> bool" where
  "selected s i \<longleftrightarrow> 0 \<le> fst s \<and> fst s \<le> int i \<and> int i \<le> snd s"

lemma not_selected [simp]: "\<not> selected (-1, e) i"
  by (simp add: selected_def)

lemma adjacent_tl: "adjacent (x # bs) \<Longrightarrow> adjacent bs"
  by (cases bs) simp_all

lemma less_plus_1: "(x :: u32) \<noteq> -1 \<Longrightarrow> x < x + 1"
  using less_of_le_minus_1 [of x "x + 1"] by (metis add_diff_cancel_right' add_eq_0_iff2 order_refl)

lemma wf_bank_nonempty: "wf_bank info \<Longrightarrow> fi_start info ! 0 \<le> bank_end info"
  using wf_bank_bounds [of info 0] wf_bank_count [of info] by (metis order_trans)

lemma adjacent_above:
  "adjacent (x # bs) \<Longrightarrow> \<forall>y \<in> set bs. wf_bank y \<Longrightarrow> y \<in> set bs \<Longrightarrow> bank_end x < fi_start y ! 0"
proof (induction bs arbitrary: x)
  case (Cons z bs)
  have xz: "bank_end x < fi_start z ! 0" using Cons.prems(1) less_plus_1 [of "bank_end x"] by simp
  show ?case
  proof (cases "y = z")
    case False
    then have "y \<in> set bs" using Cons.prems(3) by simp
    then have "bank_end z < fi_start y ! 0" using Cons by simp
    moreover have "fi_start z ! 0 \<le> bank_end z" using Cons.prems(2) wf_bank_nonempty by simp
    ultimately show ?thesis using xz by simp
  qed (use xz in simp)
qed simp

lemma banks_ok_tl: "banks_ok (info # banks) \<Longrightarrow> banks_ok banks"
  by (auto simp: banks_ok_def intro: adjacent_tl split: if_splits)

lemma banks_ok_above:
  assumes "banks_ok (info # banks)" "known info" "y \<in> set banks" "known y"
  shows "bank_end info < fi_start y ! 0"
  using assms adjacent_above [of info "filter known banks" y] by (simp add: banks_ok_def)

lemma banks_ok_wf: "banks_ok banks \<Longrightarrow> y \<in> set banks \<Longrightarrow> known y \<Longrightarrow> wf_bank y"
  by (simp add: banks_ok_def)

section \<open>The result of the search\<close>

lemma fill_stop: "\<not> a \<le> b \<Longrightarrow> fill_banks banks a b out = (0, map (\<lambda>_. (-1, -1)) banks, 0, out)"
  by (cases banks) simp_all

lemma fill_unknown:
  assumes "a \<le> b" "\<not> known info" "fill_banks (info # banks) a b out = (rc, rs, n, out')"
  obtains rs' where "rs = (-1, -1) # rs'" "fill_banks banks a b out = (rc, rs', n, out')"
  using assms by (auto simp: known_def split: prod.splits)

lemma fill_hit_eq:
  assumes "a \<le> b" "known info" "scan_bank info a b = (sf, sl)" "sf \<ge> 0"
    and sl': "sl' = (if sl < 0 then last_sector info else sl)" "sl < 0 \<longrightarrow> bank_end info < b" "sf \<le> sl'"
    and f: "fill_banks banks (if sl' = last_sector info then bank_end info + 1 else fi_start info ! nat (sl' + 1)) b out =
      (rc, rs, n, out')"
  shows "fill_banks (info # banks) a b out = (rc, (sf, sl') # rs, sl' - sf + 1 + n, out')"
proof -
  have e: "\<not> (sl < 0 \<and> \<not> bank_end info < b)" "\<not> sl' < sf" using sl' by auto
  show ?thesis
    using assms(1-4) e f
    by (cases "sl' = last_sector info") (simp_all add: known_def Let_def sl'(1) [symmetric] bank_end_def)
qed

lemma fill_skip_eq:
  assumes "a \<le> b" "known info" "scan_bank info a b = (sf, sl)" "sf < 0" "sl < 0"
    and "a < fi_start info ! 0 \<or> bank_end info \<le> a"
    and "fill_banks banks a b out = (rc, rs, n, out')"
  shows "fill_banks (info # banks) a b out = (rc, (sf, sl) # rs, n, out')"
  using assms by (auto simp: known_def Let_def bank_end_def)

lemma fill_known:
  assumes "a \<le> b" "known info" "scan_bank info a b = (sf, sl)"
    and fill: "fill_banks (info # banks) a b out = (0, rs, n, out')"
  obtains (hit) sl' rs' n' where "sf \<ge> 0" "sl' = (if sl < 0 then last_sector info else sl)"
      "sl < 0 \<longrightarrow> bank_end info < b" "sf \<le> sl'" "rs = (sf, sl') # rs'" "n = sl' - sf + 1 + n'"
      "fill_banks banks (if sl' = last_sector info then bank_end info + 1 else fi_start info ! nat (sl' + 1)) b out =
         (0, rs', n', out')"
  | (skip) rs' where "sf < 0" "sl < 0" "a < fi_start info ! 0 \<or> bank_end info \<le> a"
      "rs = (sf, sl) # rs'" "fill_banks banks a b out = (0, rs', n, out')"
proof (cases "sf \<ge> 0")
  case True
  then have e: "\<not> (sl < 0 \<and> \<not> bank_end info < b)" "\<not> (if sl < 0 then last_sector info else sl) < sf"
    using assms by (auto simp: known_def bank_end_def Let_def split: if_splits)
  define sl' where "sl' = (if sl < 0 then last_sector info else sl)"
  obtain rc' rs' n' o' where f: "fill_banks banks (if sl' = last_sector info then bank_end info + 1
      else fi_start info ! nat (sl' + 1)) b out = (rc', rs', n', o')"
    by (rule prod_cases4)
  have "fill_banks (info # banks) a b out = (rc', (sf, sl') # rs', sl' - sf + 1 + n', o')"
    by (rule fill_hit_eq [OF assms(1-3) True sl'_def _ _ f]) (use e in \<open>auto simp: sl'_def\<close>)
  with fill have r: "rs = (sf, sl') # rs'" "n = sl' - sf + 1 + n'" "rc' = 0" "o' = out'" by simp_all
  show ?thesis by (rule hit [OF True sl'_def _ _ r(1,2)]) (use e f r(3,4) in \<open>auto simp: sl'_def\<close>)
next
  case False
  then have e: "\<not> (a \<ge> fi_start info ! 0 \<and> a < bank_end info)" "\<not> sl \<ge> 0"
    using assms by (auto simp: known_def bank_end_def Let_def split: if_splits)
  obtain rc' rs' n' o' where f: "fill_banks banks a b out = (rc', rs', n', o')" by (rule prod_cases4)
  have "fill_banks (info # banks) a b out = (rc', (sf, sl) # rs', n', o')"
    by (rule fill_skip_eq [OF assms(1-3) _ _ _ f]) (use False e in auto)
  with fill have r: "rs = (sf, sl) # rs'" "n = n'" "fill_banks banks a b out = (0, rs', n, out')"
    using f by simp_all
  show ?thesis by (rule skip [OF _ _ _ r(1,3)]) (use False e in auto)
qed

lemma fill_count: "fill_banks banks a b out = (0, rs, n, out') \<Longrightarrow> 0 \<le> n"
proof (induction banks arbitrary: a out rs n out')
  case (Cons info banks)
  show ?case
  proof (cases "a \<le> b")
    case True
    show ?thesis
    proof (cases "known info")
      case False
      then show ?thesis using Cons.IH fill_unknown [OF True False Cons.prems] by metis
    next
      case k: True
      obtain sf sl where s: "scan_bank info a b = (sf, sl)" by (cases "scan_bank info a b")
      show ?thesis using fill_known [OF True k s Cons.prems] Cons.IH by (cases; force)
    qed
  next
    case False
    then show ?thesis using Cons.prems fill_stop [OF False] by (metis eq_refl prod.inject)
  qed
qed simp

lemma fill_length: "fill_banks banks a b out = (rc, rs, n, out') \<Longrightarrow> length rs = length banks"
proof (induction banks arbitrary: a out rc rs n out')
  case (Cons info banks)
  show ?case
  proof (cases "a \<le> b")
    case True
    then show ?thesis using Cons by (auto simp: Let_def split: if_splits prod.splits)
  next
    case False
    then show ?thesis using Cons.prems fill_stop [OF False, of "info # banks" out] by auto
  qed
qed simp

lemma fill_start_found:
  assumes "\<forall>y \<in> set banks. known y \<longrightarrow> wf_bank y"
  shows "fill_banks banks a b out = (0, rs, n, out') \<Longrightarrow> n \<noteq> 0 \<Longrightarrow>
    \<exists>y \<in> set banks. known y \<and> (\<exists>i < sector_count y. fi_start y ! i = a)"
  using assms
proof (induction banks arbitrary: out rs n out')
  case (Cons info banks)
  have ab: "a \<le> b" using Cons.prems(1,2) fill_stop [of a b "info # banks" out] by (cases "a \<le> b") auto
  show ?case
  proof (cases "known info")
    case False
    from fill_unknown [OF ab this Cons.prems(1)] show ?thesis using Cons by (metis list.set_intros(2))
  next
    case k: True
    then have wf: "wf_bank info" using Cons.prems(3) by simp
    from scan_bank_cases [OF wf ab] obtain sf sl where s: "scan_bank info a b = (sf, sl)"
      and sf: "sf = -1 \<and> (\<forall>i < sector_count info. fi_start info ! i \<noteq> a) \<or>
        (\<exists>i < sector_count info. sf = int i \<and> fi_start info ! i = a)" by metis
    show ?thesis
    proof (cases rule: fill_known [OF ab k s Cons.prems(1), case_names hit skip])
      case hit
      then show ?thesis using sf k by auto
    next
      case skip
      then show ?thesis using Cons by (metis list.set_intros(2))
    qed
  qed
qed simp

definition range_ok :: "u32 \<Rightarrow> u32 \<Rightarrow> flash_info \<Rightarrow> int \<times> int \<Rightarrow> bool" where
  "range_ok a b info s \<longleftrightarrow>
     (if known info
      then (\<forall>i < sector_count info. selected s i \<longleftrightarrow> sector_overlaps info a b i) \<and>
           (0 \<le> fst s \<longrightarrow> fst s \<le> snd s \<and> snd s < sectors info)
      else s = (-1, -1))"

abbreviation no_ranges :: "flash_info list \<Rightarrow> (int \<times> int) list" where
  "no_ranges banks \<equiv> map (\<lambda>_. (-1, -1)) banks"

lemma fill_none: "\<forall>y \<in> set banks. \<not> known y \<Longrightarrow> fill_banks banks a b out = (0, no_ranges banks, 0, out)"
  by (induction banks arbitrary: out) (auto simp: known_def Let_def)

lemma no_ranges_ok:
  assumes "\<forall>y \<in> set banks. known y \<longrightarrow> (\<forall>i < sector_count y. \<not> sector_overlaps y a b i)"
  shows "list_all2 (range_ok a b) banks (no_ranges banks)"
  using assms by (auto simp: list_all2_conv_all_nth range_ok_def)

lemma fill_found_count:
  assumes "\<forall>y \<in> set banks. known y \<longrightarrow> wf_bank y" "\<exists>y \<in> set banks. known y \<and> (\<exists>i < sector_count y. fi_start y ! i = a)"
    and "a \<le> b"
  shows "fill_banks banks a b out = (0, rs, n, out') \<Longrightarrow> n \<noteq> 0"
  using assms(1,2)
proof (induction banks arbitrary: out rs)
  case (Cons info banks)
  show ?case
  proof (cases "known info")
    case False
    then have "\<exists>y \<in> set banks. known y \<and> (\<exists>i < sector_count y. fi_start y ! i = a)" using Cons.prems(3) by auto
    then show ?thesis
      using Cons.IH Cons.prems(2) fill_unknown [OF \<open>a \<le> b\<close> False Cons.prems(1)] by (metis list.set_intros(2))
  next
    case k: True
    have wf: "wf_bank info" using Cons.prems(2) k by simp
    obtain sf sl where s: "scan_bank info a b = (sf, sl)"
      and sf: "sf = -1 \<and> (\<forall>i < sector_count info. fi_start info ! i \<noteq> a) \<or>
        (\<exists>i < sector_count info. sf = int i \<and> fi_start info ! i = a)"
      by (rule scan_bank_cases [OF wf \<open>a \<le> b\<close>]) blast
    show ?thesis
    proof (cases rule: fill_known [OF \<open>a \<le> b\<close> k s Cons.prems(1), case_names hit skip])
      case (hit sl' rs' n')
      then show ?thesis using fill_count [OF hit(7)] by simp
    next
      case (skip rs')
      then have "\<forall>i < sector_count info. fi_start info ! i \<noteq> a" using sf by auto
      then have "\<exists>y \<in> set banks. known y \<and> (\<exists>i < sector_count y. fi_start y ! i = a)" using Cons.prems(3) by auto
      then show ?thesis using Cons.IH [OF skip(5)] Cons.prems(2) by simp
    qed
  qed
qed simp

lemma first_known:
  assumes "banks_ok banks" "filter known banks = y # ys"
  shows "y \<in> set banks \<and> known y \<and> (\<exists>i < sector_count y. fi_start y ! i = fi_start y ! 0)"
proof -
  have "y \<in> set (filter known banks)" using assms(2) by simp
  then have y: "y \<in> set banks" "known y" by simp_all
  then show ?thesis using wf_bank_count [OF banks_ok_wf [OF assms(1) y]] by blast
qed

lemma overlaps_above:
  assumes "wf_bank y" "i < sector_count y" "e < fi_start y ! 0"
  shows "e < fi_start y ! i" "e < sector_end y i"
proof -
  have "fi_start y ! 0 \<le> fi_start y ! i" "fi_start y ! i \<le> sector_end y i"
    using wf_bank_bounds [OF assms(1,2)] by simp_all
  then show "e < fi_start y ! i" "e < sector_end y i" using assms(3) by simp_all
qed

lemma range_ok_from:
  assumes wf: "known y \<longrightarrow> wf_bank y \<and> e < fi_start y ! 0" and "a \<le> e" "e \<noteq> -1" and r: "range_ok (e + 1) b y s"
  shows "range_ok a b y s"
proof -
  have "sector_overlaps y (e + 1) b i = sector_overlaps y a b i" if "known y" "i < sector_count y" for i
  proof -
    have "e < sector_end y i" using overlaps_above(2) [OF _ that(2)] wf that(1) by simp
    then have "e + 1 \<le> sector_end y i" "a \<le> sector_end y i" using \<open>a \<le> e\<close> by (simp_all add: inc_le)
    then show ?thesis by (simp add: sector_overlaps_def)
  qed
  then show ?thesis using r by (auto simp: range_ok_def)
qed

lemma fill_hit_tail:
  assumes ok: "banks_ok (info # banks)" "known info" and wf: "wf_bank info" and "a \<le> bank_end info"
    and sl: "sl' = last_sector info \<and> bank_end info < b \<or> (\<exists>j < sector_count info. sl' = int j \<and> sector_end info j = b)"
    and f: "fill_banks banks (if sl' = last_sector info then bank_end info + 1 else fi_start info ! nat (sl' + 1)) b out =
      (0, rs', n', out')" (is "fill_banks _ ?a' _ _ = _")
    and IH: "\<And>a out rs n out'. banks_ok banks \<Longrightarrow> a \<le> b \<Longrightarrow> fill_banks banks a b out = (0, rs, n, out') \<Longrightarrow>
      n \<noteq> 0 \<Longrightarrow> list_all2 (range_ok a b) banks rs"
  shows "list_all2 (range_ok a b) banks rs'"
proof -
  note okt = banks_ok_tl [OF ok(1)]
  have above: "bank_end info < fi_start y ! 0" "wf_bank y" if "y \<in> set banks" "known y" for y
    using banks_ok_above [OF ok that] banks_ok_wf [OF okt that] by simp_all
  show ?thesis
  proof (cases "\<exists>y \<in> set banks. known y")
    case False
    then have "rs' = no_ranges banks" using f fill_none [of banks ?a' b out] by simp
    then show ?thesis using no_ranges_ok [of banks a b] False by simp
  next
    case True
    then obtain y ys where y: "filter known banks = y # ys" by (cases "filter known banks") (auto simp: filter_empty_conv)
    have adj: "bank_end info \<noteq> -1" "fi_start y ! 0 = bank_end info + 1"
      using ok y by (simp_all add: banks_ok_def)
    from sl show ?thesis
    proof
      assume l: "sl' = last_sector info \<and> bank_end info < b"
      then have le: "bank_end info + 1 \<le> b" by (simp add: inc_le)
      have f': "fill_banks banks (bank_end info + 1) b out = (0, rs', n', out')" using f l by simp
      have "n' \<noteq> 0"
        by (rule fill_found_count [OF _ _ le f']) (use okt first_known [OF okt y] adj(2) in \<open>auto simp: banks_ok_def\<close>)
      then have "list_all2 (range_ok (bank_end info + 1) b) banks rs'" by (rule IH [OF okt le f'])
      then show ?thesis
        unfolding list_all2_conv_all_nth using range_ok_from [OF _ \<open>a \<le> bank_end info\<close> adj(1)] above by (meson nth_mem)
    next
      assume "\<exists>j < sector_count info. sl' = int j \<and> sector_end info j = b"
      then obtain j where j: "j < sector_count info" "sl' = int j" "sector_end info j = b" by blast
      have b: "b \<le> bank_end info" using wf_bank_bounds(3) [OF wf j(1)] j(3) by simp
      have "b < ?a'"
      proof (cases "j = sector_count info - 1")
        case True
        then have "b = bank_end info" using j(3) sector_end_last by simp
        moreover have "sl' = last_sector info" using True j(2) last_sector_iff [OF wf] by simp
        ultimately show ?thesis using less_plus_1 [OF adj(1)] by simp
      next
        case False
        then have "Suc j < sector_count info" "sl' \<noteq> last_sector info" using j last_sector_iff [OF wf] by auto
        then show ?thesis using sector_next(1) [OF wf, of j] j by (simp add: nat_add_distrib)
      qed
      then have "\<not> ?a' \<le> b" by (simp only: not_le)
      then have "rs' = no_ranges banks" using fill_stop [of ?a' b banks out] f by simp
      moreover have "\<not> sector_overlaps y a b i" if "y \<in> set banks" "known y" "i < sector_count y" for y i
        using overlaps_above(1) [OF above(2) [OF that(1,2)] that(3) above(1) [OF that(1,2)]] b by (auto simp: sector_overlaps_def)
      ultimately show ?thesis using no_ranges_ok [of banks a b] by simp
    qed
  qed
qed

lemma hit_range_ok:
  assumes wf: "wf_bank info" and i0: "i0 < sector_count info" "fi_start info ! i0 = a"
    and sl: "sl' = last_sector info \<and> bank_end info < b \<or> (\<exists>j < sector_count info. sl' = int j \<and> sector_end info j = b)"
    and le: "int i0 \<le> sl'"
  shows "range_ok a b info (int i0, sl')"
proof -
  have "selected (int i0, sl') i \<longleftrightarrow> sector_overlaps info a b i" if i: "i < sector_count info" for i
  proof -
    have a: "a \<le> sector_end info i \<longleftrightarrow> i0 \<le> i" using sector_le_iff [OF wf i0(1) i] i0(2) by simp
    have "fi_start info ! i \<le> b \<longleftrightarrow> int i \<le> sl'"
    proof (cases "sl' = last_sector info \<and> bank_end info < b")
      case True
      have "fi_start info ! i \<le> bank_end info" using wf_bank_bounds [OF wf i] by simp
      then show ?thesis using True last_sector_le [OF wf i] by auto
    next
      case False
      with sl obtain j where "j < sector_count info" "sl' = int j" "sector_end info j = b" by blast
      then show ?thesis using sector_le_iff [OF wf i] by auto
    qed
    with a show ?thesis by (simp add: selected_def sector_overlaps_def)
  qed
  moreover have "sl' < sectors info"
    using sl last_sector_less [OF wf] unfolding sectors_def by (metis of_nat_less_iff)
  ultimately show ?thesis using wf_bank_known [OF wf] le by (simp add: range_ok_def)
qed

lemma fill_exact:
  "banks_ok banks \<Longrightarrow> a \<le> b \<Longrightarrow> fill_banks banks a b out = (0, rs, n, out') \<Longrightarrow> n \<noteq> 0 \<Longrightarrow>
     list_all2 (range_ok a b) banks rs"
proof (induction banks arbitrary: a out rs n out')
  case (Cons info banks)
  note okt = banks_ok_tl [OF Cons.prems(1)]
  show ?case
  proof (cases "known info")
    case False
    obtain rs' where "rs = (-1, -1) # rs'" "fill_banks banks a b out = (0, rs', n, out')"
      by (rule fill_unknown [OF Cons.prems(2) False Cons.prems(3)])
    then show ?thesis using Cons.IH [OF okt Cons.prems(2) _ Cons.prems(4)] False by (simp add: range_ok_def)
  next
    case k: True
    have wf: "wf_bank info" using banks_ok_wf [OF Cons.prems(1)] k by simp
    obtain sf sl where s: "scan_bank info a b = (sf, sl)"
      and sf: "sf = -1 \<and> (\<forall>i < sector_count info. fi_start info ! i \<noteq> a) \<or>
        (\<exists>i < sector_count info. sf = int i \<and> fi_start info ! i = a)"
      and sl: "sl = -1 \<and> (\<forall>i < sector_count info. sector_end info i \<noteq> b) \<or>
        (\<exists>i < sector_count info. sl = int i \<and> sector_end info i = b)"
      by (rule scan_bank_cases [OF wf Cons.prems(2)]) blast
    show ?thesis
    proof (cases rule: fill_known [OF Cons.prems(2) k s Cons.prems(3), case_names hit skip])
      case (hit sl' rs' n')
      then obtain i0 where i0: "i0 < sector_count info" "sf = int i0" "fi_start info ! i0 = a" using sf by auto
      have sl': "sl' = last_sector info \<and> bank_end info < b \<or> (\<exists>j < sector_count info. sl' = int j \<and> sector_end info j = b)"
        using sl hit(2,3) by (auto split: if_splits)
      have "a \<le> bank_end info" using wf_bank_bounds [OF wf i0(1)] i0(3) by (simp add: order_trans)
      then have "list_all2 (range_ok a b) banks rs'"
        by (rule fill_hit_tail [OF Cons.prems(1) k wf _ sl' hit(7)]) (rule Cons.IH)
      moreover have "range_ok a b info (sf, sl')"
        using hit_range_ok [OF wf i0(1,3) sl'] hit(4) i0(2) by simp
      ultimately show ?thesis using hit(5) by simp
    next
      case (skip rs')
      have wfs: "\<forall>y \<in> set banks. known y \<longrightarrow> wf_bank y" using okt by (simp add: banks_ok_def)
      obtain y i where y: "y \<in> set banks" "known y" "i < sector_count y" "fi_start y ! i = a"
        using fill_start_found [OF wfs skip(5) Cons.prems(4)] by blast
      have above: "bank_end info < a"
        using overlaps_above(1) [OF banks_ok_wf [OF okt y(1,2)] y(3) banks_ok_above [OF Cons.prems(1) k y(1,2)]] y(4) by simp
      have "\<not> sector_overlaps info a b j" if "j < sector_count info" for j
        using wf_bank_bounds(3) [OF wf that] above by (auto simp: sector_overlaps_def)
      then have "range_ok a b info (sf, sl)" using skip(1) by (simp add: range_ok_def selected_def k)
      then show ?thesis using skip(4) Cons.IH [OF okt Cons.prems(2) skip(5) Cons.prems(4)] by simp
    qed
  qed
qed simp

section \<open>A range on sector boundaries is accepted\<close>

definition starts_at :: "flash_info list \<Rightarrow> u32 \<Rightarrow> bool" where
  "starts_at banks a \<longleftrightarrow> (\<exists>y \<in> set banks. known y \<and> (\<exists>i < sector_count y. fi_start y ! i = a))"

definition ends_at :: "flash_info list \<Rightarrow> u32 \<Rightarrow> bool" where
  "ends_at banks b \<longleftrightarrow> (\<exists>y \<in> set banks. known y \<and> (\<exists>i < sector_count y. sector_end y i = b))"

lemma starts_at_Cons:
  "starts_at (info # banks) a \<longleftrightarrow> known info \<and> (\<exists>i < sector_count info. fi_start info ! i = a) \<or> starts_at banks a"
  by (auto simp: starts_at_def)

lemma ends_at_Cons:
  "ends_at (info # banks) a \<longleftrightarrow> known info \<and> (\<exists>i < sector_count info. sector_end info i = a) \<or> ends_at banks a"
  by (auto simp: ends_at_def)

lemma at_above:
  assumes "banks_ok (info # banks)" "known info"
  shows "starts_at banks a \<Longrightarrow> bank_end info < a" "ends_at banks b \<Longrightarrow> bank_end info < b"
  using banks_ok_above [OF assms] banks_ok_wf [OF banks_ok_tl [OF assms(1)]] overlaps_above
  unfolding starts_at_def ends_at_def by blast+

lemma fill_aligned:
  "banks_ok banks \<Longrightarrow> a \<le> b \<Longrightarrow> starts_at banks a \<Longrightarrow> ends_at banks b \<Longrightarrow>
     \<exists>rs n out'. fill_banks banks a b out = (0, rs, n, out')"
proof (induction banks arbitrary: a out)
  case (Cons info banks)
  note okt = banks_ok_tl [OF Cons.prems(1)]
  show ?case
  proof (cases "known info")
    case False
    then obtain rs n out' where "fill_banks banks a b out = (0, rs, n, out')"
      using Cons.IH [OF okt Cons.prems(2), of out] Cons.prems(3,4) by (auto simp: starts_at_Cons ends_at_Cons)
    then show ?thesis using False Cons.prems(2) by (simp add: known_def Let_def)
  next
    case k: True
    have wf: "wf_bank info" using banks_ok_wf [OF Cons.prems(1)] k by simp
    note above = at_above [OF Cons.prems(1) k]
    obtain sf sl where s: "scan_bank info a b = (sf, sl)"
      and sf: "sf = -1 \<and> (\<forall>i < sector_count info. fi_start info ! i \<noteq> a) \<or>
        (\<exists>i < sector_count info. sf = int i \<and> fi_start info ! i = a)"
      and sl: "sl = -1 \<and> (\<forall>i < sector_count info. sector_end info i \<noteq> b) \<or>
        (\<exists>i < sector_count info. sl = int i \<and> sector_end info i = b)"
      by (rule scan_bank_cases [OF wf Cons.prems(2)]) blast
    show ?thesis
    proof (cases "sf = -1")
      case True
      then have "starts_at banks a" using sf Cons.prems(3) by (auto simp: starts_at_Cons)
      then have a: "bank_end info < a" by (rule above(1))
      have "sl = -1"
      proof (rule ccontr)
        assume "sl \<noteq> -1"
        then obtain j where "j < sector_count info" "sector_end info j = b" using sl by blast
        then have "b \<le> bank_end info" using wf_bank_bounds(3) [OF wf] by blast
        then show False using a Cons.prems(2) by simp
      qed
      moreover have "ends_at banks b" using sl \<open>sl = -1\<close> Cons.prems(4) by (auto simp: ends_at_Cons)
      ultimately obtain rs n out' where "fill_banks banks a b out = (0, rs, n, out')"
        using Cons.IH [OF okt Cons.prems(2) \<open>starts_at banks a\<close>] by blast
      from fill_skip_eq [OF Cons.prems(2) k s _ _ _ this] show ?thesis
        using True \<open>sl = -1\<close> less_imp_le [OF a] by (simp del: fill_banks.simps)
    next
      case False
      then obtain i0 where i0: "i0 < sector_count info" "sf = int i0" "fi_start info ! i0 = a" using sf by blast
      define sl' where "sl' = (if sl < 0 then last_sector info else sl)"
      define a' where "a' = (if sl' = last_sector info then bank_end info + 1 else fi_start info ! nat (sl' + 1))"
      have b: "sl < 0 \<longrightarrow> bank_end info < b"
      proof
        assume "sl < 0"
        then have "ends_at banks b" using sl Cons.prems(4) by (auto simp: ends_at_Cons)
        then show "bank_end info < b" by (rule above(2))
      qed
      have "int i0 \<le> sl'"
      proof (cases "sl < 0")
        case False
        then obtain j where "j < sector_count info" "sl = int j" "sector_end info j = b" using sl by auto
        then show ?thesis using sector_le_iff [OF wf i0(1)] i0(3) Cons.prems(2) by (auto simp: sl'_def)
      qed (simp add: sl'_def last_sector_le [OF wf i0(1)])
      have "\<exists>rs n out'. fill_banks banks a' b out = (0, rs, n, out')"
      proof (cases "(\<exists>y \<in> set banks. known y) \<and> a' \<le> b")
        case False
        then show ?thesis using fill_none [of banks a' b out] fill_stop [of a' b banks out] by blast
      next
        case True
        then obtain y ys where y: "filter known banks = y # ys"
          by (cases "filter known banks") (auto simp: filter_empty_conv)
        have adj: "bank_end info \<noteq> -1" "fi_start y ! 0 = bank_end info + 1"
          using Cons.prems(1) k y by (simp_all add: banks_ok_def)
        have "sl < 0"
        proof (rule ccontr)
          assume "\<not> sl < 0"
          then obtain j where j: "j < sector_count info" "sl' = int j" "sector_end info j = b"
            using sl by (auto simp: sl'_def)
          have "b < a'"
          proof (cases "sl' = last_sector info")
            case True
            then have "b = bank_end info" using j sector_end_last last_sector_iff [OF wf] by metis
            then show ?thesis using True less_plus_1 [OF adj(1)] by (simp add: a'_def)
          next
            case False
            then have "Suc j < sector_count info" using j last_sector_iff [OF wf, of j] by simp
            then show ?thesis using sector_next(1) [OF wf, of j] j False by (simp add: a'_def nat_add_distrib)
          qed
          then show False using True by (meson leD)
        qed
        then have "a' = fi_start y ! 0" "ends_at banks b"
          using sl Cons.prems(4) adj by (auto simp: a'_def sl'_def ends_at_Cons)
        moreover have "starts_at banks (fi_start y ! 0)"
          using first_known [OF okt y] by (auto simp: starts_at_def)
        ultimately show ?thesis using Cons.IH [OF okt, of a'] True by simp
      qed
      then obtain rs n out' where "fill_banks banks a' b out = (0, rs, n, out')" by blast
      from fill_hit_eq [OF Cons.prems(2) k s _ sl'_def b _ this [unfolded a'_def]]
      show ?thesis using \<open>int i0 \<le> sl'\<close> i0(2) by (simp del: fill_banks.simps)
    qed
  qed
qed (simp add: starts_at_def)

section \<open>Protecting a range\<close>

definition mark :: "byte \<Rightarrow> u32 \<Rightarrow> u32 \<Rightarrow> flash_info \<Rightarrow> flash_info" where
  "mark p a b info =
     (if known info
      then info\<lparr>fi_protect := map (\<lambda>i. if i < sector_count info \<and> sector_overlaps info a b i then p
                                      else fi_protect info ! i) [0..<length (fi_protect info)]\<rparr>
      else info)"

lemma set_fold:
  "\<forall>i \<in> set is. 0 \<le> i \<Longrightarrow> length (fold (\<lambda>i ps. ps[nat i := p]) is ps) = length ps \<and>
     (\<forall>j < length ps. fold (\<lambda>i ps. ps[nat i := p]) is ps ! j = (if int j \<in> set is then p else ps ! j))"
proof (induction "is" arbitrary: ps)
  case (Cons i "is")
  then show ?case by (auto simp: nth_list_update)
qed simp

lemma set_protect_eq:
  assumes "0 \<le> lo" "lo \<le> hi" "hi < int (length (fi_protect info))"
  shows "set_protect p lo hi info = Some (info\<lparr>fi_protect :=
    map (\<lambda>i. if selected (lo, hi) i then p else fi_protect info ! i) [0..<length (fi_protect info)]\<rparr>)"
proof -
  have "fold (\<lambda>i ps. ps[nat i := p]) [lo..hi] (fi_protect info) =
      map (\<lambda>i. if selected (lo, hi) i then p else fi_protect info ! i) [0..<length (fi_protect info)]"
    using set_fold [of "[lo..hi]" p "fi_protect info"] assms(1)
    by (intro nth_equalityI) (auto simp: selected_def)
  then show ?thesis using assms by (simp add: set_protect_def)
qed

lemma wf_bank_protect: "wf_bank info \<Longrightarrow> sector_count info \<le> length (fi_protect info)"
  by (simp add: wf_bank_def)

lemma range_ok_mark:
  assumes "wf_bank info" "range_ok a b info s"
  shows "mark p a b info = info\<lparr>fi_protect :=
    map (\<lambda>i. if selected s i then p else fi_protect info ! i) [0..<length (fi_protect info)]\<rparr>"
proof -
  have k: "known info" by (rule wf_bank_known [OF assms(1)])
  have s: "i < sector_count info" if "selected s i" for i
  proof -
    have "int i < sectors info" using that assms(2) k by (auto simp: range_ok_def selected_def)
    then show ?thesis unfolding sectors_def of_nat_less_iff .
  qed
  have "(i < sector_count info \<and> sector_overlaps info a b i) = selected s i" for i
    using assms(2) k s by (auto simp: range_ok_def)
  then show ?thesis using k by (simp add: mark_def)
qed

lemma protect_ranges_mark:
  assumes "list_all2 (range_ok a b) banks rs" "\<forall>y \<in> set banks. known y \<longrightarrow> wf_bank y"
  shows "\<exists>n. protect_ranges p banks rs = Some (n, map (mark p a b) banks)"
  using assms
proof (induction rule: list_all2_induct)
  case (Cons info banks s rs)
  then obtain n where IH: "protect_ranges p banks rs = Some (n, map (mark p a b) banks)" by auto
  obtain sf sl where s: "s = (sf, sl)" by (cases s)
  show ?case
  proof (cases "known info \<and> 0 \<le> sf")
    case False
    then have "protect_ranges p (info # banks) (s # rs) = Some (n, info # map (mark p a b) banks)"
      using IH by (auto simp: s known_def)
    moreover have "mark p a b info = info"
    proof (cases "known info")
      case True
      then have "\<not> selected s i" for i using False by (simp add: selected_def s)
      then show ?thesis using range_ok_mark [OF _ Cons(1)] Cons.prems True by (simp add: map_nth)
    qed (simp add: mark_def)
    ultimately show ?thesis by simp
  next
    case True
    then have wf: "wf_bank info" and r: "sf \<le> sl" "sl < sectors info" "0 \<le> sf"
      using Cons by (auto simp: range_ok_def s)
    have "sectors info \<le> int (length (fi_protect info))"
      unfolding sectors_def of_nat_le_iff by (rule wf_bank_protect [OF wf])
    with r(2) have "sl < int (length (fi_protect info))" by (rule less_le_trans)
    from set_protect_eq [OF r(3,1) this] have "set_protect p sf sl info = Some (mark p a b info)"
      using range_ok_mark [OF wf Cons(1)] by (simp add: s)
    then show ?thesis using IH r True by (simp add: s known_def)
  qed
qed simp

lemma flash_sect_protect_cases:
  assumes ok: "banks_ok (fs_banks st)"
  obtains st' where "flash_sect_protect p a b st = Some (0, st')" "a \<le> b"
      "fs_banks st' = map (mark p a b) (fs_banks st)" "fs_flash st' = fs_flash st"
  | rc st' where "flash_sect_protect p a b st = Some (rc, st')" "rc \<noteq> 0" "\<not> (a \<le> b \<and> starts_at (fs_banks st) a \<and> ends_at (fs_banks st) b)"
      "fs_banks st' = fs_banks st" "fs_flash st' = fs_flash st"
proof -
  obtain rc rs n out where f: "fill_banks (fs_banks st) a b (fs_out st) = (rc, rs, n, out)" by (rule prod_cases4)
  have wfs: "\<forall>y \<in> set (fs_banks st). known y \<longrightarrow> wf_bank y" using ok by (simp add: banks_ok_def)
  show thesis
  proof (cases "n \<noteq> 0 \<and> rc = 0")
    case True
    then have ab: "a \<le> b" using f fill_stop [of a b "fs_banks st" "fs_out st"] by (cases "a \<le> b") auto
    have r: "list_all2 (range_ok a b) (fs_banks st) rs" using fill_exact [OF ok ab] f True by blast
    obtain m where "protect_ranges p (fs_banks st) rs = Some (m, map (mark p a b) (fs_banks st))"
      using protect_ranges_mark [OF r wfs] by blast
    then show thesis using that(1) f True ab
      by (simp add: flash_sect_protect_def flash_fill_sect_ranges_def fs_printf_def)
  next
    case False
    have bad: "\<not> (a \<le> b \<and> starts_at (fs_banks st) a \<and> ends_at (fs_banks st) b)"
    proof
      assume al: "a \<le> b \<and> starts_at (fs_banks st) a \<and> ends_at (fs_banks st) b"
      then have "rc = 0" using fill_aligned [OF ok, of a b "fs_out st"] f by auto
      moreover from this have "n \<noteq> 0"
        using fill_found_count [OF wfs, of a b "fs_out st" rs n out] al f unfolding starts_at_def by blast
      ultimately show False using False by simp
    qed
    show thesis
    proof (cases "rc = 0")
      case True
      then have "n = 0" using False by simp
      then show thesis using that(2) [OF _ _ bad] f True
        by (simp add: flash_sect_protect_def flash_fill_sect_ranges_def not_on_boundary_def fs_printf_def)
    next
      case False
      then show thesis using that(2) [OF _ _ bad] f
        by (simp add: flash_sect_protect_def flash_fill_sect_ranges_def)
    qed
  qed
qed

section \<open>Erasing a range\<close>

text \<open>
  What erasing a range is to do, without the search: in the order of the banks, one call of the
  driver for every known bank with sectors that the range overlaps, for the first to the last of
  them, until a call fails. The result: the code of the last call, the number of sectors given to
  the driver, and the flash.
\<close>

definition touched :: "u32 \<Rightarrow> u32 \<Rightarrow> flash_info \<Rightarrow> nat list" where
  "touched a b info = filter (sector_overlaps info a b) [0..<sector_count info]"

fun erase_touched ::
    "(flash_info \<Rightarrow> int \<Rightarrow> int \<Rightarrow> 'f \<Rightarrow> int \<times> 'f) \<Rightarrow> u32 \<Rightarrow> u32 \<Rightarrow> flash_info list \<Rightarrow> 'f \<Rightarrow> int \<times> nat \<times> 'f" where
  "erase_touched flash_erase a b [] f = (0, 0, f)"
| "erase_touched flash_erase a b (info # banks) f =
     (if \<not> known info \<or> touched a b info = [] then erase_touched flash_erase a b banks f
      else
        let n = length (touched a b info);
            (rc, f) = flash_erase info (int (List.hd (touched a b info))) (int (last (touched a b info))) f
        in if rc \<noteq> 0 then (rc, n, f)
           else let (rc, m, f) = erase_touched flash_erase a b banks f in (rc, n + m, f))"

lemma filter_interval:
  fixes l k n :: nat
  assumes "l \<le> k" "k < n"
  shows "filter (\<lambda>i. l \<le> i \<and> i \<le> k) [0..<n] = [l..<Suc k]"
proof (rule sorted_distinct_set_unique)
  show "sorted (filter (\<lambda>i. l \<le> i \<and> i \<le> k) [0..<n])" using sorted_wrt_filter [OF sorted_upt] .
qed (use assms in \<open>auto simp del: upt_Suc\<close>)

lemma range_ok_touched:
  assumes "known info" "range_ok a b info s"
  shows "touched a b info = (if 0 \<le> fst s then [nat (fst s)..<Suc (nat (snd s))] else [])"
proof -
  have t: "touched a b info = filter (selected s) [0..<sector_count info]"
    using assms by (auto simp: touched_def range_ok_def intro: filter_cong)
  show ?thesis
  proof (cases "0 \<le> fst s")
    case True
    then have le: "fst s \<le> snd s" "snd s < sectors info" using assms by (auto simp: range_ok_def)
    then have "snd s < int (sector_count info)" by (simp only: sectors_def)
    then have "nat (snd s) < sector_count info" using le(1) True by (simp add: nat_less_iff)
    moreover have "selected s = (\<lambda>i. nat (fst s) \<le> i \<and> i \<le> nat (snd s))"
      using True le(1) by (auto simp: selected_def fun_eq_iff nat_le_iff le_nat_iff)
    ultimately show ?thesis using True le(1) t filter_interval [of "nat (fst s)" "nat (snd s)"] by (simp add: nat_mono)
  next
    case False
    then have "selected s = (\<lambda>i. False)" by (simp add: selected_def fun_eq_iff)
    then show ?thesis using t False by simp
  qed
qed

lemma erase_ranges_touched:
  assumes "list_all2 (range_ok a b) banks rs"
  shows "erase_ranges flash_erase banks rs f =
    (let (rc, n, f) = erase_touched flash_erase a b banks f in (rc, int n, f))"
  using assms
proof (induction arbitrary: f rule: list_all2_induct)
  case (Cons info banks s rs)
  obtain sf sl where s: "s = (sf, sl)" by (cases s)
  show ?case
  proof (cases "known info \<and> 0 \<le> sf")
    case False
    then have "\<not> 0 \<le> sf" "\<not> known info \<or> touched a b info = []"
      using range_ok_touched [OF _ Cons(1)] Cons(1) by (auto simp: s range_ok_def)
    then show ?thesis using Cons.IH by (simp add: s)
  next
    case True
    then have le: "sf \<le> sl" using Cons(1) by (auto simp: range_ok_def s)
    have t: "touched a b info = [nat sf..<Suc (nat sl)]" using range_ok_touched [OF _ Cons(1)] True by (simp add: s)
    have ne: "[nat sf..<Suc (nat sl)] \<noteq> []" using le True by simp
    have e: "int (List.hd (touched a b info)) = sf" "int (last (touched a b info)) = sl"
      "int (length (touched a b info)) = sl - sf + 1" "touched a b info \<noteq> []"
      using True le unfolding t by (simp_all add: nat_mono del: upt_Suc)
    obtain rc1 f1 where f1: "flash_erase info sf sl f = (rc1, f1)" by (cases "flash_erase info sf sl f")
    obtain rc2 m f2 where f2: "erase_touched flash_erase a b banks f1 = (rc2, m, f2)" by (rule prod_cases3)
    show ?thesis using True e Cons.IH [of f1] by (simp add: s f1 f2)
  qed
qed simp

lemma fill_out: "fill_banks banks a b out = (0, rs, n, out') \<Longrightarrow> out' = out"
proof (induction banks arbitrary: a out rs n out')
  case (Cons info banks)
  show ?case
  proof (cases "a \<le> b")
    case True
    show ?thesis
    proof (cases "known info")
      case False
      then show ?thesis using Cons.IH fill_unknown [OF True False Cons.prems] by metis
    next
      case k: True
      obtain sf sl where s: "scan_bank info a b = (sf, sl)" by (cases "scan_bank info a b")
      show ?thesis using fill_known [OF True k s Cons.prems] Cons.IH by metis
    qed
  next
    case False
    then show ?thesis using Cons.prems fill_stop [OF False, of "info # banks" out] by simp
  qed
qed simp

definition erase_result ::
    "(flash_info \<Rightarrow> int \<Rightarrow> int \<Rightarrow> 'f \<Rightarrow> int \<times> 'f) \<Rightarrow> u32 \<Rightarrow> u32 \<Rightarrow> 'f flash_state \<Rightarrow> int \<times> 'f flash_state" where
  "erase_result flash_erase a b st =
     (let (rc, n, f) = erase_touched flash_erase a b (fs_banks st) (fs_flash st)
      in (rc, fs_printf (''Erased %d sectors'' @ nl) [ArgInt (of_nat n)] (st\<lparr>fs_flash := f\<rparr>)))"

lemma flash_sect_erase_cases:
  assumes ok: "banks_ok (fs_banks st)"
  obtains (called) "flash_sect_erase flash_erase a b st = erase_result flash_erase a b st"
  | (refused) rc out where "flash_sect_erase flash_erase a b st = (rc, st\<lparr>fs_out := out\<rparr>)" "rc \<noteq> 0"
      "\<not> (a \<le> b \<and> starts_at (fs_banks st) a \<and> ends_at (fs_banks st) b)"
proof -
  obtain rc rs n out where f: "fill_banks (fs_banks st) a b (fs_out st) = (rc, rs, n, out)" by (rule prod_cases4)
  have wfs: "\<forall>y \<in> set (fs_banks st). known y \<longrightarrow> wf_bank y" using ok by (simp add: banks_ok_def)
  note defs = flash_sect_erase_def flash_fill_sect_ranges_def f not_on_boundary_def fs_printf_def Let_def
  show thesis
  proof (cases "n \<noteq> 0 \<and> rc = 0")
    case True
    then have ab: "a \<le> b" using f fill_stop [of a b "fs_banks st" "fs_out st"] by (cases "a \<le> b") auto
    have r: "list_all2 (range_ok a b) (fs_banks st) rs" using fill_exact [OF ok ab] f True by blast
    have "out = fs_out st" using fill_out f True by blast
    then show thesis using called f True
      by (auto simp: defs erase_result_def erase_ranges_touched [OF r] split: prod.splits)
  next
    case False
    have bad: "\<not> (a \<le> b \<and> starts_at (fs_banks st) a \<and> ends_at (fs_banks st) b)"
    proof
      assume al: "a \<le> b \<and> starts_at (fs_banks st) a \<and> ends_at (fs_banks st) b"
      then have "rc = 0" using fill_aligned [OF ok, of a b "fs_out st"] f by auto
      moreover from this have "n \<noteq> 0"
        using fill_found_count [OF wfs, of a b "fs_out st" rs n out] al f unfolding starts_at_def by blast
      ultimately show False using False by simp
    qed
    show thesis
    proof (cases "rc = 0")
      case True
      then have "n = 0" using False by simp
      then show thesis using refused [OF _ _ bad] True by (simp add: defs)
    next
      case False
      then show thesis using refused [OF _ _ bad] by (simp add: defs)
    qed
  qed
qed

section \<open>The commands on an address range\<close>

text \<open>The arguments give an address range that is not empty.\<close>

definition range_args :: "flash_info list \<Rightarrow> byte list \<Rightarrow> byte list \<Rightarrow> byte list \<Rightarrow> u32 \<Rightarrow> u32 \<Rightarrow> bool" where
  "range_args banks out s1 s2 a b \<longleftrightarrow>
     s1 \<notin> {bytes ''all'', bytes ''bank''} \<and> abbrev_spec banks s1 = NoSpec \<and>
     addr_spec banks s1 s2 out = (Some (a, b), out) \<and> a < b"

lemma range_argsD:
  assumes "range_args banks out s1 s2 a b"
  shows "s1 \<noteq> bytes ''all''" "s1 \<noteq> bytes ''bank''" "abbrev_spec banks s1 = NoSpec"
    "addr_spec banks s1 s2 out = (Some (a, b), out)" "\<not> b \<le> a"
  using assms by (simp_all add: range_args_def not_le del: bytes_Cons)

lemma do_protect_range:
  assumes "range_args (fs_banks st) (fs_out st) s1 s2 a b" "s0 = bytes ''on'' \<or> s0 = bytes ''off''"
  shows "do_protect usage [name, s0, s1, s2] st = flash_sect_protect (if s0 = bytes ''off'' then 0 else 1) a b st"
  using range_argsD [OF assms(1)] assms(2) by (auto simp add: do_protect_def Let_def simp del: bytes_Cons)

lemma do_flerase_range:
  assumes "range_args (fs_banks st) (fs_out st) s1 s2 a b"
  shows "do_flerase flash_erase usage [name, s1, s2] st = flash_sect_erase flash_erase a b st"
  using range_argsD [OF assms] by (simp add: do_flerase_def Let_def del: bytes_Cons)

lemma round_to_sector_end:
  "round_to_sector banks x = Some e \<Longrightarrow>
     \<exists>y \<in> set banks. \<exists>i < sector_count y. e = sector_end y i \<and> fi_start y ! i \<le> x \<and> x \<le> e"
proof (induction banks)
  case (Cons info banks)
  show ?case
  proof (cases "find (\<lambda>i. x \<le> sector_end info i \<and> x \<ge> fi_start info ! i) [0..<sector_count info]")
    case None
    then show ?thesis using Cons by simp
  next
    case (Some i)
    then have "i < sector_count info" "x \<le> sector_end info i" "fi_start info ! i \<le> x"
      by (auto simp: find_Some_iff)
    then show ?thesis using Cons.prems Some by auto
  qed
qed simp

lemma addr_spec_length:
  assumes "whole_number s1 16 = Some a" "whole_number s2 16 = Some len" "round_to_sector banks (a + len - 1) = Some e"
  shows "addr_spec banks s1 (chr CHR ''+'' # s2) out = (Some (a, e), out)"
  using assms by (simp add: addr_spec_def peek_def Let_def)

section \<open>Protected sectors\<close>

lemma mark_frame [simp]:
  "fi_start (mark p a b info) = fi_start info" "fi_size (mark p a b info) = fi_size info"
  "fi_sector_count (mark p a b info) = fi_sector_count info" "fi_flash_id (mark p a b info) = fi_flash_id info"
  "length (fi_protect (mark p a b info)) = length (fi_protect info)"
  by (simp_all add: mark_def)

lemma mark_same [simp]:
  "wf_bank (mark p a b info) = wf_bank info" "sector_end (mark p a b info) i = sector_end info i"
  "sector_overlaps (mark p a b info) x y i = sector_overlaps info x y i" "in_bank x (mark p a b info) = in_bank x info"
  "known (mark p a b info) = known info" "bank_end (mark p a b info) = bank_end info"
  using wf_bank_cong [of "mark p a b info" info]
  by (simp_all add: sector_end_def sector_overlaps_def in_bank_def known_def bank_end_def)

lemma mark_protect:
  "known info \<Longrightarrow> i < length (fi_protect info) \<Longrightarrow> fi_protect (mark p a b info) ! i =
     (if i < sector_count info \<and> sector_overlaps info a b i then p else fi_protect info ! i)"
  by (simp add: mark_def)

lemma addr2info_map: "\<forall>b. in_bank x (g b) = in_bank x b \<Longrightarrow> addr2info (map g banks) x = addr2info banks x"
proof -
  assume g: "\<forall>b. in_bank x (g b) = in_bank x b"
  have "addr2info_loop i (map g banks) x = addr2info_loop i banks x" for i
    by (induction banks arbitrary: i) (simp_all add: g)
  then show ?thesis by (simp add: addr2info_def)
qed

text \<open>\<open>protect on\<close> does to a bank what \<open>flash_protect\<close> does.\<close>

lemma mark_flash_protect: "wf_bank info \<Longrightarrow> a \<le> b \<Longrightarrow> mark 1 a b info = flash_protect FLAG_PROTECT_SET a b info"
  using wf_bank_known [of info] by (simp add: flash_protect_set mark_def)

lemma marked_hit:
  assumes "wf_bank info" "bank_end info \<noteq> -1" "i < sector_count info" "sector_overlaps info a b i"
    "sector_overlaps info addr end' i"
  shows "bank_hit (mark 1 a b info) addr end'"
proof (rule protected_hit_overlap)
  have "i < length (fi_protect info)" using assms(1,3) wf_bank_protect by fastforce
  then show "fi_protect (mark 1 a b info) ! i \<noteq> 0"
    using assms wf_bank_known [OF assms(1)] by (simp add: mark_protect)
  show "fi_start (mark 1 a b info) ! 0 + fi_size (mark 1 a b info) \<noteq> 0"
    using assms(2) by (simp add: bank_end_def)
qed (use assms in simp_all)

section \<open>Properties\<close>

text \<open>
  C19. \<open>protect on start end\<close> and \<open>protect on start +len\<close>, on banks whose known ones are well-formed
  and follow each other without a gap, for a range that begins and ends on sector boundaries of
  known banks, succeed. From then on \<open>flash_write\<close> of data that touches a sector of the range is
  refused with \<open>ERR_PROTECTED\<close> and leaves the flash as it was, when the first and the last byte of the
  data are in banks, the sector's bank is one of these or between them, and that bank does not
  end at the top of the address space (\<open>top_sector_unprotected\<close> shows that the test fails there).
\<close>

theorem protect_on_guards:
  assumes ok: "banks_ok (fs_banks st)" and args: "range_args (fs_banks st) (fs_out st) s1 s2 a b"
    and range: "starts_at (fs_banks st) a" "ends_at (fs_banks st) b"
    and j: "j < length (fs_banks st)" "known (fs_banks st ! j)" "bank_end (fs_banks st ! j) \<noteq> -1"
    and i: "i < sector_count (fs_banks st ! j)" "sector_overlaps (fs_banks st ! j) a b i"
    and data: "cnt \<noteq> 0" "sector_overlaps (fs_banks st ! j) addr (addr + cnt - 1) i"
    and first: "addr2info (fs_banks st) addr = Some k" "k \<le> j"
    and final: "addr2info (fs_banks st) (addr + cnt - 1) = Some l" "j \<le> l"
  shows "\<exists>st'. do_protect usage [name, bytes ''on'', s1, s2] st = Some (0, st') \<and>
    flash_write write_buff (fs_banks st') src addr cnt f = (ERR_PROTECTED, f)"
proof -
  have "a \<le> b" using range_argsD(5) [OF args] by simp
  have p: "do_protect usage [name, bytes ''on'', s1, s2] st = flash_sect_protect 1 a b st"
    using do_protect_range [OF args, of "bytes ''on''" usage name] by simp
  have wf: "wf_bank (fs_banks st ! j)" using banks_ok_wf [OF ok] j(1,2) by simp
  show ?thesis
  proof (cases rule: flash_sect_protect_cases [OF ok, of 1 a b, case_names marked failed])
    case (marked st')
    have hit: "bank_hit (fs_banks st' ! j) addr (addr + cnt - 1)"
      using marked_hit [OF wf j(3) i data(2)] marked(3) j(1) by simp
    have same: "addr2info (fs_banks st') x = addr2info (fs_banks st) x" for x
      using marked(3) by (simp add: addr2info_map)
    have "j \<in> set [k..<Suc l]" using first(2) final(2) by auto
    then have "list_ex (\<lambda>q. bank_hit (fs_banks st' ! q) addr (addr + cnt - 1)) [k..<Suc l]"
      using hit unfolding list_ex_iff by blast
    then have "flash_write write_buff (fs_banks st') src addr cnt f = (ERR_PROTECTED, f)"
      using data(1) first(1) final(1) same
      by (simp only: flash_write_def Let_def if_False prod.case option.case if_True)
    then show ?thesis using p marked(1) by simp
  next
    case (failed rc st')
    then show ?thesis using range \<open>a \<le> b\<close> by simp
  qed
qed

lemma sample_banks_ok: "banks_ok [sample_bank 0x1000000]"
  using sample_wf by (simp add: banks_ok_def)

lemma sample_args: "range_args [sample_bank 0x1000000] [] (bytes ''1010000'') (bytes ''101ffff'') 0x1010000 0x101ffff"
proof -
  have n: "whole_number (bytes ''1010000'') 16 = Some 0x1010000" "whole_number (bytes ''101ffff'') 16 = Some 0x101ffff"
    by code_simp+
  have "peek (bytes ''101ffff'') \<noteq> chr CHR ''+''" "abbrev_spec [sample_bank 0x1000000] (bytes ''1010000'') = NoSpec"
    by (simp_all add: peek_def abbrev_spec_def cut_at_def)
  moreover have "bytes ''1010000'' \<notin> {bytes ''all'', bytes ''bank''}" by simp
  ultimately show ?thesis using n unfolding range_args_def addr_spec_def by (simp del: bytes_Cons)
qed

lemma sample_edges: "starts_at [sample_bank 0x1000000] 0x1010000" "ends_at [sample_bank 0x1000000] 0x101ffff"
proof -
  let ?b = "sample_bank 0x1000000"
  have k: "known ?b" "1 < sector_count ?b" "fi_start ?b ! 1 = 0x1010000" "sector_end ?b 1 = 0x101ffff"
    by (simp_all add: known_def sample_bank_def FLASH_UNKNOWN_def sector_end_def)
  show "starts_at [?b] 0x1010000" "ends_at [?b] 0x101ffff"
    unfolding starts_at_def ends_at_def using k by auto
qed

lemma protect_on_guards_witness:
  "\<exists>st'. do_protect None [[], bytes ''on'', bytes ''1010000'', bytes ''101ffff'']
       \<lparr>fs_banks = [sample_bank 0x1000000], fs_flash = (), fs_out = []\<rparr> = Some (0, st') \<and>
     flash_write (\<lambda>_ _ _ _ n. (0, Suc n)) (fs_banks st') [1, 2] 0x100ffff 2 (0 :: nat) = (ERR_PROTECTED, 0)"
proof -
  let ?st = "\<lparr>fs_banks = [sample_bank 0x1000000], fs_flash = (), fs_out = []\<rparr>"
  have a: "range_args (fs_banks ?st) (fs_out ?st) (bytes ''1010000'') (bytes ''101ffff'') 0x1010000 0x101ffff"
    using sample_args by (simp del: bytes_Cons)
  have b: "1 < sector_count (fs_banks ?st ! 0)" "known (fs_banks ?st ! 0)" "bank_end (fs_banks ?st ! 0) \<noteq> -1"
    "sector_overlaps (fs_banks ?st ! 0) 0x1010000 0x101ffff 1" "sector_overlaps (fs_banks ?st ! 0) 0x100ffff (0x100ffff + 2 - 1) 1"
    "addr2info (fs_banks ?st) 0x100ffff = Some 0" "addr2info (fs_banks ?st) (0x100ffff + 2 - 1) = Some 0"
    by (simp_all add: known_def bank_end_def sector_overlaps_def sector_end_def addr2info_def in_bank_def sample_bank_def FLASH_UNKNOWN_def)
  show ?thesis
    by (rule protect_on_guards [OF _ a _ _ _ b(2,3,1,4) _ b(5,6) _ b(7)])
      (simp_all add: sample_banks_ok sample_edges)
qed

text \<open>
  C20. \<open>erase start end\<close> and \<open>erase start +len\<close>, on banks whose known ones are well-formed and follow
  each other without a gap, for every driver: either the command is as erasing the touched sectors
  directly: it calls \<open>flash_erase\<close> in the order of the banks, once for every known bank with sectors
  that the range overlaps, for exactly those sectors, stops at the first call that fails, returns
  the code of the last call, leaves the marks of the sectors as they were and prints the number of
  sectors given to the driver; or it returns an error, has not called the driver, and the range does not
  begin or does not end on a sector boundary.
\<close>

theorem erase_command_exact:
  assumes ok: "banks_ok (fs_banks st)"
    and args: "range_args (fs_banks st) (fs_out st) s1 s2 a b"
  shows "do_flerase flash_erase usage [name, s1, s2] st = erase_result flash_erase a b st \<or>
    \<not> (starts_at (fs_banks st) a \<and> ends_at (fs_banks st) b) \<and>
    (\<exists>rc out. do_flerase flash_erase usage [name, s1, s2] st = (rc, st\<lparr>fs_out := out\<rparr>) \<and> rc \<noteq> 0)"
proof (cases rule: flash_sect_erase_cases [OF ok, of flash_erase a b, case_names called refused])
  case (refused rc out)
  then have "\<not> (starts_at (fs_banks st) a \<and> ends_at (fs_banks st) b)"
    using range_argsD(5) [OF args] by simp
  moreover have "do_flerase flash_erase usage [name, s1, s2] st = (rc, st\<lparr>fs_out := out\<rparr>)"
    using refused(1) do_flerase_range [OF args] by simp
  ultimately show ?thesis using refused(2) by blast
qed (simp add: do_flerase_range [OF args])

text \<open>Two banks, a driver that notes its calls and fails for the bank at \<open>bad\<close>.\<close>

definition note_erase :: "u32 \<Rightarrow> flash_info \<Rightarrow> int \<Rightarrow> int \<Rightarrow> (u32 \<times> int \<times> int) list \<Rightarrow> int \<times> (u32 \<times> int \<times> int) list" where
  "note_erase bad info sf sl f = (if fi_start info ! 0 = bad then 5 else 0, f @ [(fi_start info ! 0, sf, sl)])"

definition two_banks :: "flash_info list" where
  "two_banks = [sample_bank 0x1000000, sample_bank 0x1020000]"

lemma two_banks_ok: "banks_ok two_banks"
proof -
  have two: "(i < 2) = (i = 0 \<or> i = (1 :: nat))" for i by arith
  have "wf_bank (sample_bank 0x1020000)"
    by (auto simp: wf_bank_def sample_bank_def FLASH_UNKNOWN_def sector_end_def two)
  moreover have "known (sample_bank x)" "bank_end (sample_bank x) = x + 0x1ffff" "fi_start (sample_bank x) ! 0 = x" for x
    by (simp_all add: known_def sample_bank_def FLASH_UNKNOWN_def bank_end_def)
  ultimately show ?thesis using sample_wf by (simp add: banks_ok_def two_banks_def)
qed

lemma two_banks_args: "range_args two_banks [] (bytes ''1010000'') (bytes ''102ffff'') 0x1010000 0x102ffff"
proof -
  have n: "whole_number (bytes ''1010000'') 16 = Some 0x1010000" "whole_number (bytes ''102ffff'') 16 = Some 0x102ffff"
    by code_simp+
  have "peek (bytes ''102ffff'') \<noteq> chr CHR ''+''" "abbrev_spec two_banks (bytes ''1010000'') = NoSpec"
    by (simp_all add: peek_def abbrev_spec_def cut_at_def)
  moreover have "bytes ''1010000'' \<notin> {bytes ''all'', bytes ''bank''}" by simp
  ultimately show ?thesis using n unfolding range_args_def addr_spec_def by (simp del: bytes_Cons)
qed

lemma erase_command_exact_witness:
  "\<forall>bad. do_flerase (note_erase bad) None [[], bytes ''1010000'', bytes ''102ffff'']
       \<lparr>fs_banks = two_banks, fs_flash = [], fs_out = []\<rparr> =
     (if bad = 0x1000000 then
        (5, \<lparr>fs_banks = two_banks, fs_flash = [(0x1000000, 1, 1)], fs_out = bytes (''Erased 1 sectors'' @ nl)\<rparr>)
      else (if bad = 0x1020000 then 5 else 0,
        \<lparr>fs_banks = two_banks, fs_flash = [(0x1000000, 1, 1), (0x1020000, 0, 0)], fs_out = bytes (''Erased 2 sectors'' @ nl)\<rparr>))" (is "\<forall>bad. ?result bad")
proof (rule allI)
  fix bad
  let ?st = "\<lparr>fs_banks = two_banks, fs_flash = [], fs_out = []\<rparr>"
  have a: "range_args (fs_banks ?st) (fs_out ?st) (bytes ''1010000'') (bytes ''102ffff'') 0x1010000 0x102ffff"
    using two_banks_args by (simp del: bytes_Cons)
  have ok: "banks_ok (fs_banks ?st)" using two_banks_ok by simp
  have t: "touched 0x1010000 0x102ffff (sample_bank 0x1000000) = [1]" "touched 0x1010000 0x102ffff (sample_bank 0x1020000) = [0]"
    by (simp_all add: touched_def upt_rec sector_overlaps_def sector_end_def sample_bank_def)
  have k: "known (sample_bank x)" "fi_start (sample_bank x) ! 0 = x" for x
    by (simp_all add: known_def sample_bank_def FLASH_UNKNOWN_def)
  have "starts_at two_banks 0x1010000"
    unfolding starts_at_def two_banks_def
    by (rule bexI [of _ "sample_bank 0x1000000"], intro conjI exI [of _ 1]) (simp_all add: k, simp_all add: sample_bank_def)
  moreover have "ends_at two_banks 0x102ffff"
    unfolding ends_at_def two_banks_def
    by (rule bexI [of _ "sample_bank 0x1020000"], intro conjI exI [of _ 0])
      (simp_all add: k, simp_all add: sample_bank_def sector_end_def)
  ultimately have edges: "starts_at two_banks 0x1010000" "ends_at two_banks 0x102ffff" .
  have p: "printf (''Erased %d sectors'' @ nl) [ArgInt 1] [] = bytes (''Erased 1 sectors'' @ nl)"
    "printf (''Erased %d sectors'' @ nl) [ArgInt 2] [] = bytes (''Erased 2 sectors'' @ nl)"
    by code_simp+
  show "?result bad"
    using erase_command_exact [OF ok a, of "note_erase bad" None "[]"] edges
    by (auto simp: erase_result_def two_banks_def t k note_erase_def fs_printf_def p [simplified append.simps] Let_def simp del: bytes_Cons)
qed

section \<open>Corner cases\<close>

text \<open>The sector numbers are compared as signed numbers: 4294967295 is sector \<open>-1\<close> and is accepted.\<close>

lemma negative_sector:
  "abbrev_spec [sample_bank 0x1000000] (bytes ''1:4294967295'') = Spec 0 (-1) (-1)"
  "do_protect None [[], bytes ''on'', bytes ''1:4294967295''] \<lparr>fs_banks = [sample_bank 0x1000000], fs_flash = (), fs_out = []\<rparr> = None"
proof -
  have c: "cut_at (chr CHR '':'') (bytes ''1:4294967295'') = Some (bytes ''1'', bytes ''4294967295'')"
    "cut_at 45 (bytes ''4294967295'') = None"
    by (simp_all add: cut_at_def)
  have n: "whole_number (bytes ''1'') 10 = Some 1" "whole_number (bytes ''4294967295'') 10 = Some 0xffffffff"
    by code_simp+
  have k: "fi_flash_id (sample_bank 0x1000000) \<noteq> FLASH_UNKNOWN" "sectors (sample_bank 0x1000000) = 2"
    "length (fi_protect (sample_bank 0x1000000)) = 2"
    by (simp_all add: sample_bank_def FLASH_UNKNOWN_def sectors_def)
  show a: "abbrev_spec [sample_bank 0x1000000] (bytes ''1:4294967295'') = Spec 0 (-1) (-1)"
    unfolding abbrev_spec_def abbrev_sectors_def c by (simp add: c n k Let_def del: bytes_Cons)
  have "set_protect 1 (-1) (-1) (sample_bank 0x1000000) = None" by (simp add: set_protect_def)
  moreover have "bytes ''on'' \<noteq> bytes ''off''" "bytes ''1:4294967295'' \<noteq> bytes ''all''" by simp_all
  ultimately show "do_protect None [[], bytes ''on'', bytes ''1:4294967295'']
      \<lparr>fs_banks = [sample_bank 0x1000000], fs_flash = (), fs_out = []\<rparr> = None"
    by (simp add: do_protect_def a protect_one_def fs_printf_def Let_def del: bytes_Cons)
qed

lemma upt_2: "[0..<2] = [0, 1 :: nat]"
  by (simp add: upt_rec)

text \<open>
  The bank before ends at the top of the address space: the search goes on at address 0 and takes
  the sectors of a bank there too.
\<close>

lemma fill_wraps:
  "fill_banks [sample_bank 0xfffe0000, sample_bank 0] 0xfffe0000 0xffffffff out = (0, [(0, 1), (0, 1)], 4, out)"
proof -
  have s: "scan_bank (sample_bank 0xfffe0000) 0xfffe0000 0xffffffff = (0, 1)"
    "scan_bank (sample_bank 0) 0 0xffffffff = (0, -1)"
    by (simp_all add: scan_bank_def scan_sector_def last_sector_def sample_bank_def upt_2)
  have f: "known (sample_bank b)" "last_sector (sample_bank b) = 1" "bank_end (sample_bank b) = b + 0x1ffff" for b
    by (simp_all add: known_def sample_bank_def FLASH_UNKNOWN_def last_sector_def bank_end_def)
  have z: "bank_end (sample_bank 0xfffe0000) + 1 = 0" by (simp add: bank_end_def sample_bank_def)
  have "fill_banks [sample_bank 0] 0 0xffffffff out = (0, [(0, 1)], 2, out)"
    using fill_hit_eq [of 0 "0xffffffff" "sample_bank 0" 0 "-1" 1 "[]" out 0 "[]" 0 out] s(2) f by simp
  then show ?thesis
    using fill_hit_eq [of "0xfffe0000" "0xffffffff" "sample_bank 0xfffe0000" 0 1 1 "[sample_bank 0]" out 0 "[(0, 1)]" 2 out] s(1) f(1,2) z
    by (simp del: fill_banks.simps)
qed

text \<open>
  Banks with a gap between them: a range that ends within the second bank, not at the end of a
  sector, is accepted and only the sectors of the first bank are taken.
\<close>

lemma fill_gap:
  "fill_banks [sample_bank 0x1000000, sample_bank 0x1040000] 0x1000000 0x1044567 out = (0, [(0, 1), (-1, -1)], 2, out)"
proof -
  have s: "scan_bank (sample_bank 0x1000000) 0x1000000 0x1044567 = (0, -1)"
    "scan_bank (sample_bank 0x1040000) 0x1020000 0x1044567 = (-1, -1)"
    by (simp_all add: scan_bank_def scan_sector_def last_sector_def sample_bank_def upt_2)
  have f: "known (sample_bank b)" "last_sector (sample_bank b) = 1" "bank_end (sample_bank b) = b + 0x1ffff"
    "fi_start (sample_bank b) ! 0 = b" for b
    by (simp_all add: known_def sample_bank_def FLASH_UNKNOWN_def last_sector_def bank_end_def)
  have "fill_banks [sample_bank 0x1040000] 0x1020000 0x1044567 out = (0, [(-1, -1)], 0, out)"
    using fill_skip_eq [of "0x1020000" "0x1044567" "sample_bank 0x1040000" "-1" "-1" "[]" out 0 "[]" 0 out] s(2) f by simp
  then show ?thesis
    using fill_hit_eq [of "0x1000000" "0x1044567" "sample_bank 0x1000000" 0 "-1" 1 "[sample_bank 0x1040000]" out 0 "[(-1, -1)]" 0 out] s(1) f
    by (simp del: fill_banks.simps)
qed

text \<open>\<open>erase all\<close> returns 0 when the last bank was erased, whatever became of the others.\<close>

lemma erase_all_result:
  "banks \<noteq> [] \<Longrightarrow> \<forall>f. fst (flash_erase (last banks) 0 (sectors (last banks) - 1) f) = 0 \<Longrightarrow>
     fst (erase_all flash_erase bank banks rc st) = 0"
proof (induction banks arbitrary: bank rc st)
  case (Cons info banks)
  then show ?case
    by (cases "banks = []") (auto simp: Let_def case_prod_beta)
qed simp

end
