(* ===== verification/CircBuf.thy ===== *)
theory CircBuf imports Prelude begin

text \<open>
  The circular buffer of \<open>common/circbuf.c\<close>, used by the USB serial gadget: \<open>buf_push\<close> stores
  bytes and overwrites the oldest when it is full, \<open>buf_pop\<close> takes bytes out. The buffer is the
  record of the C structure, with addresses for its pointers; its bytes are in memory. The
  source of a push and the destination of a pop are other objects: the source is the list of its
  bytes, and a pop returns the bytes it stores. \<open>malloc\<close> is an argument of \<open>buf_init\<close>.

  What a client may rely on is the locale \<open>byte_queue\<close>: a bounded queue of bytes that forgets
  from its front. The buffer is shown to implement it.
\<close>

section \<open>The interface\<close>

locale byte_queue =
  fixes ok :: "'s \<Rightarrow> bool" and cap :: "'s \<Rightarrow> nat" and contents :: "'s \<Rightarrow> byte list"
    and push :: "'s \<Rightarrow> byte list \<Rightarrow> 's" and pop :: "'s \<Rightarrow> nat \<Rightarrow> byte list \<times> 's"
  assumes bounded: "ok s \<Longrightarrow> length (contents s) \<le> cap s"
    and push_ok: "ok s \<Longrightarrow> ok (push s xs) \<and> cap (push s xs) = cap s"
    and push_contents: "ok s \<Longrightarrow>
      contents (push s xs) = drop (length (contents s) + length xs - cap s) (contents s @ xs)"
    and pop_ok: "ok s \<Longrightarrow> ok (snd (pop s n)) \<and> cap (snd (pop s n)) = cap s"
    and pop_result: "ok s \<Longrightarrow> fst (pop s n) = take n (contents s)"
    and pop_contents: "ok s \<Longrightarrow> contents (snd (pop s n)) = drop n (contents s)"
begin

text \<open>Runs of operations: what is pushed in sequence, and what a sequence of pops returns.\<close>

primrec pushes :: "'s \<Rightarrow> byte list list \<Rightarrow> 's" where
  "pushes s [] = s"
| "pushes s (xs # xss) = pushes (push s xs) xss"

primrec pops :: "'s \<Rightarrow> nat list \<Rightarrow> byte list \<times> 's" where
  "pops s [] = ([], s)"
| "pops s (n # ns) = (let (xs, s) = pop s n; (ys, s) = pops s ns in (xs @ ys, s))"

lemma pushes_ok: "ok s \<Longrightarrow> ok (pushes s xss) \<and> cap (pushes s xss) = cap s"
  by (induction xss arbitrary: s) (simp_all add: push_ok)

lemma pushes_contents:
  "ok s \<Longrightarrow> contents (pushes s xss) =
     drop (length (contents s) + length (concat xss) - cap s) (contents s @ concat xss)"
proof (induction xss arbitrary: s)
  case Nil
  then show ?case using bounded [of s] by simp
next
  case (Cons xs xss)
  have IH: "contents (pushes (push s xs) xss) =
      drop (length (contents (push s xs)) + length (concat xss) - cap s) (contents (push s xs) @ concat xss)"
    using Cons.IH [of "push s xs"] push_ok [OF Cons.prems, of xs] by simp
  let ?k = "length (contents s) + length xs - cap s"
  have len: "length (contents (push s xs)) = length (contents s) + length xs - ?k"
    by (simp add: push_contents [OF Cons.prems])
  let ?L = "contents s @ xs" and ?C = "concat xss"
  have "drop ?k ?L @ ?C = drop ?k (?L @ ?C)" by simp
  moreover have "length (contents s) + length xs - ?k + length ?C - cap s + ?k =
      length (contents s) + length (concat (xs # xss)) - cap s" by simp
  ultimately show ?case
    unfolding pushes.simps IH len push_contents [OF Cons.prems] by (simp add: drop_drop del: drop_append)
qed

lemma pops_take: "ok s \<Longrightarrow> fst (pops s ns) = take (sum_list ns) (contents s)"
proof (induction ns arbitrary: s)
  case (Cons n ns)
  then show ?case
    using pop_ok [OF Cons.prems, of n]
    by (simp add: Let_def case_prod_beta pop_result pop_contents take_add)
qed simp

text \<open>First in, first out: as long as nothing is overwritten, the pops return what was pushed.\<close>

lemma fifo:
  assumes "ok s" "contents s = []" "length (concat xss) \<le> cap s" "sum_list ns = length (concat xss)"
  shows "fst (pops (pushes s xss) ns) = concat xss"
  using assms pushes_ok [OF assms(1), of xss] pushes_contents [OF assms(1), of xss]
  by (simp add: pops_take)

end

section \<open>The code\<close>

record circbuf =
  cb_size :: u32
  cb_totalsize :: u32
  cb_top :: nat
  cb_tail :: nat
  cb_data :: nat
  cb_end :: nat

text \<open>\<open>None\<close>: the assertion that \<open>malloc\<close> returned memory fails.\<close>

definition buf_init :: "(nat \<Rightarrow> nat) \<Rightarrow> u32 \<Rightarrow> (int \<times> circbuf) option" where
  "buf_init malloc sz =
     (let p = malloc (unat sz) in
      if p = NULL then None
      else Some (1, \<lparr>cb_size = 0, cb_totalsize = sz, cb_top = p, cb_tail = p, cb_data = p,
                     cb_end = p + unat sz\<rparr>))"

definition buf_free :: "circbuf \<Rightarrow> int \<times> circbuf" where
  "buf_free buf =
     (1, \<lparr>cb_size = 0, cb_totalsize = 0, cb_top = NULL, cb_tail = NULL, cb_data = NULL, cb_end = NULL\<rparr>)"

definition wrap :: "circbuf \<Rightarrow> nat \<Rightarrow> nat" where
  "wrap buf p = (if p = cb_end buf then cb_data buf else p)"

primrec pop_loop :: "circbuf \<Rightarrow> mem \<Rightarrow> nat \<Rightarrow> nat \<Rightarrow> byte list \<times> nat" where
  "pop_loop buf m 0 p = ([], p)"
| "pop_loop buf m (Suc n) p =
     (case pop_loop buf m n (wrap buf (p + 1)) of (xs, q) \<Rightarrow> (m p # xs, q))"

definition buf_pop :: "circbuf \<Rightarrow> mem \<Rightarrow> u32 \<Rightarrow> u32 \<times> byte list \<times> circbuf" where
  "buf_pop buf m len =
     (let len = (if len > cb_size buf then cb_size buf else len);
          (xs, p) = pop_loop buf m (unat len) (cb_top buf)
      in (len, xs, buf\<lparr>cb_top := p, cb_size := cb_size buf - len\<rparr>))"

fun push_loop :: "circbuf \<Rightarrow> mem \<Rightarrow> nat \<Rightarrow> byte list \<Rightarrow> circbuf \<times> mem \<times> nat" where
  "push_loop buf m p [] = (buf, m, p)"
| "push_loop buf m p (c # src) =
     (let m = m(p := c);
          p = wrap buf (p + 1);
          buf = (if cb_size buf < cb_totalsize buf then buf\<lparr>cb_size := cb_size buf + 1\<rparr>
                 else buf\<lparr>cb_top := wrap buf (cb_top buf + 1)\<rparr>)
      in push_loop buf m p src)"

definition buf_push :: "circbuf \<Rightarrow> mem \<Rightarrow> byte list \<Rightarrow> u32 \<times> circbuf \<times> mem" where
  "buf_push buf m src =
     (let (buf, m, p) = push_loop buf m (cb_tail buf) src
      in (of_nat (length src), buf\<lparr>cb_tail := p\<rparr>, m))"

section \<open>The buffer as a queue\<close>

abbreviation capacity :: "circbuf \<Rightarrow> nat" where "capacity b \<equiv> unat (cb_totalsize b)"
abbreviation held :: "circbuf \<Rightarrow> nat" where "held b \<equiv> unat (cb_size b)"

definition at_offset :: "circbuf \<Rightarrow> nat \<Rightarrow> nat" where
  "at_offset b i = cb_data b + i mod capacity b"

text \<open>The invariant: \<open>t\<close> is the offset of the oldest byte.\<close>

definition cb_at :: "circbuf \<Rightarrow> nat \<Rightarrow> bool" where
  "cb_at b t \<longleftrightarrow> 0 < capacity b \<and> t < capacity b \<and> cb_end b = cb_data b + capacity b \<and> held b \<le> capacity b \<and>
     cb_top b = cb_data b + t \<and> cb_tail b = at_offset b (t + held b)"

definition cb_ok :: "circbuf \<times> mem \<Rightarrow> bool" where
  "cb_ok s \<longleftrightarrow> (\<exists>t. cb_at (fst s) t)"

definition cb_contents :: "circbuf \<times> mem \<Rightarrow> byte list" where
  "cb_contents s =
     map (\<lambda>i. snd s (at_offset (fst s) (cb_top (fst s) - cb_data (fst s) + i))) [0..<held (fst s)]"

definition cb_cap :: "circbuf \<times> mem \<Rightarrow> nat" where "cb_cap s = capacity (fst s)"

definition cb_push :: "circbuf \<times> mem \<Rightarrow> byte list \<Rightarrow> circbuf \<times> mem" where
  "cb_push s xs = snd (buf_push (fst s) (snd s) xs)"

definition cb_pop :: "circbuf \<times> mem \<Rightarrow> nat \<Rightarrow> byte list \<times> circbuf \<times> mem" where
  "cb_pop s n = (case buf_pop (fst s) (snd s) (of_nat (min n (2 ^ 32 - 1))) of
     (_, xs, b) \<Rightarrow> (xs, b, snd s))"

lemma wrap_next: "0 < capacity b \<Longrightarrow> cb_end b = cb_data b + capacity b \<Longrightarrow>
    wrap b (at_offset b i + 1) = at_offset b (i + 1)"
  by (auto simp: wrap_def at_offset_def mod_Suc)

lemma at_offset_mod: "at_offset b (i mod capacity b + j) = at_offset b (i + j)"
  by (simp add: at_offset_def mod_add_left_eq)

lemma at_offset_inj:
  assumes "i < n" "n < capacity b" shows "at_offset b (t + i) \<noteq> at_offset b (t + n)"
proof
  assume "at_offset b (t + i) = at_offset b (t + n)"
  then have "(t + i) mod capacity b = (t + n) mod capacity b" by (simp add: at_offset_def)
  then have "capacity b dvd (t + n) - (t + i)"
    using mod_eq_dvd_iff_nat [of "t + i" "t + n" "capacity b"] assms(1) by simp
  then show False using assms by (auto dest: dvd_imp_le)
qed

lemma cb_contents_at: "cb_at b t \<Longrightarrow> cb_contents (b, m) = map (\<lambda>i. m (at_offset b (t + i))) [0..<held b]"
  by (simp add: cb_contents_def cb_at_def)

definition push1 :: "circbuf \<times> mem \<Rightarrow> byte \<Rightarrow> circbuf \<times> mem" where
  "push1 s c =
     (let b = fst s;
          m = (snd s)(cb_tail b := c);
          b' = (if cb_size b < cb_totalsize b then b\<lparr>cb_size := cb_size b + 1\<rparr>
                else b\<lparr>cb_top := wrap b (cb_top b + 1)\<rparr>)
      in (b'\<lparr>cb_tail := wrap b (cb_tail b + 1)\<rparr>, m))"

lemma push1_room:
  assumes at: "cb_at b t" and room: "held b < capacity b"
  shows "cb_at (fst (push1 (b, m) c)) t \<and> cb_contents (push1 (b, m) c) = cb_contents (b, m) @ [c]"
proof -
  have lt: "cb_size b < cb_totalsize b" using room by (simp add: word_less_nat_alt)
  have u: "unat (cb_size b + 1) = held b + 1"
    using unat_add_lem [of "cb_size b" 1] room unsigned_less [of "cb_totalsize b", where ?'a = nat] by simp
  obtain b' where b': "push1 (b, m) c = (b', m(cb_tail b := c))"
    "b' = b\<lparr>cb_size := cb_size b + 1, cb_tail := wrap b (cb_tail b + 1)\<rparr>"
    using lt by (simp add: push1_def Let_def)
  have off: "at_offset b' i = at_offset b i" for i by (simp add: b'(2) at_offset_def)
  have hb: "held b' = held b + 1" by (simp add: b'(2) u)
  have at': "cb_at b' t"
    using at room wrap_next [of b "t + held b"] u by (simp add: cb_at_def off) (simp add: b'(2) ac_simps)
  have "m (at_offset b (t + i)) = (m(cb_tail b := c)) (at_offset b (t + i))" if "i < held b" for i
    using at_offset_inj [OF that room, of t] at by (simp add: cb_at_def)
  then have "cb_contents (b', m(cb_tail b := c)) = cb_contents (b, m) @ [c]"
    using at unfolding cb_contents_at [OF at] cb_contents_at [OF at']
    by (simp add: off hb cb_at_def)
  then show ?thesis using at' by (simp add: b'(1))
qed

lemma push1_full:
  assumes at: "cb_at b t" and full: "held b = capacity b"
  shows "cb_at (fst (push1 (b, m) c)) ((t + 1) mod capacity b) \<and>
    cb_contents (push1 (b, m) c) = drop 1 (cb_contents (b, m) @ [c])"
proof -
  have lt: "\<not> cb_size b < cb_totalsize b" using full by (simp add: word_less_nat_alt)
  have pos: "0 < capacity b" "cb_end b = cb_data b + capacity b" using at by (simp_all add: cb_at_def)
  have tail: "cb_tail b = at_offset b t" "cb_top b = at_offset b t"
    using at full by (simp_all add: cb_at_def at_offset_def)
  obtain b' where b': "push1 (b, m) c = (b', m(cb_tail b := c))"
    "b' = b\<lparr>cb_top := at_offset b (t + 1), cb_tail := at_offset b (t + 1)\<rparr>"
    using lt wrap_next [OF pos, of t] by (simp add: push1_def Let_def tail)
  have off: "at_offset b' i = at_offset b i" for i by (simp add: b'(2) at_offset_def)
  have hb: "held b' = held b" by (simp add: b'(2))
  let ?t = "(t + 1) mod capacity b"
  have at': "cb_at b' ?t"
    using at full pos by (simp add: cb_at_def off at_offset_mod)
      (simp add: b'(2) at_offset_def mod_add_self2 [of "Suc t", simplified])
  have "cb_contents (b', m(cb_tail b := c)) = map (\<lambda>i. (m(cb_tail b := c)) (at_offset b (t + 1 + i))) [0..<held b]"
    unfolding cb_contents_at [OF at'] by (simp only: off at_offset_mod hb)
  also have "\<dots> = drop 1 (cb_contents (b, m) @ [c])"
  proof (rule nth_equalityI)
    fix i assume "i < length (map (\<lambda>i. (m(cb_tail b := c)) (at_offset b (t + 1 + i))) [0..<held b])"
    then have i: "i < capacity b" by (simp add: full)
    show "map (\<lambda>i. (m(cb_tail b := c)) (at_offset b (t + 1 + i))) [0..<held b] ! i =
        drop 1 (cb_contents (b, m) @ [c]) ! i"
    proof (cases "Suc i < capacity b")
      case True
      have "at_offset b (t + 0) \<noteq> at_offset b (t + Suc i)" by (rule at_offset_inj) (use True in simp_all)
      moreover have "i < capacity b - Suc 0" using True by simp
      ultimately show ?thesis using i full True
        by (simp add: cb_contents_at [OF at] tail nth_append)
    next
      case False
      then have "Suc i = capacity b" using i by simp
      moreover from this have "t + 1 + i = t + capacity b" by simp
      then have "at_offset b (t + 1 + i) = at_offset b t" unfolding at_offset_def by (simp only: mod_add_self2)
      moreover have "\<not> i < capacity b - Suc 0" using False by simp
      ultimately show ?thesis using i full
        by (simp add: cb_contents_at [OF at] tail nth_append)
    qed
  qed (use pos in \<open>simp add: cb_contents_at [OF at]\<close>)
  finally show ?thesis using at' by (simp add: b'(1))
qed

lemma push1_queue:
  assumes "cb_ok s"
  shows "cb_ok (push1 s c) \<and> cb_cap (push1 s c) = cb_cap s \<and>
    cb_contents (push1 s c) = drop (length (cb_contents s) + 1 - cb_cap s) (cb_contents s @ [c])"
proof -
  obtain t where t: "cb_at (fst s) t" using assms by (auto simp: cb_ok_def)
  have len: "length (cb_contents s) = held (fst s)" by (simp add: cb_contents_def)
  have le: "held (fst s) \<le> capacity (fst s)" using t by (simp add: cb_at_def)
  have cap: "cb_cap (push1 s c) = cb_cap s" by (simp add: push1_def cb_cap_def Let_def)
  show ?thesis
  proof (cases "held (fst s) < capacity (fst s)")
    case True
    then show ?thesis using push1_room [OF t True, of "snd s" c] cap len by (auto simp: cb_ok_def cb_cap_def)
  next
    case False
    then have "held (fst s) = capacity (fst s)" using le by simp
    then show ?thesis using push1_full [OF t, of "snd s" c] cap len by (auto simp: cb_ok_def cb_cap_def)
  qed
qed

text \<open>The loop of \<open>buf_push\<close> keeps the tail in a local pointer; one turn of it is \<open>push1\<close>.\<close>

lemma push_loop_push1:
  "(case push_loop b m p xs of (b', m', q) \<Rightarrow> (b'\<lparr>cb_tail := q\<rparr>, m')) = foldl push1 (b\<lparr>cb_tail := p\<rparr>, m) xs"
proof (induction xs arbitrary: b m p)
  case (Cons c xs)
  have tl: "wrap (b\<lparr>cb_tail := p\<rparr>) i = wrap b i" for i by (simp add: wrap_def)
  show ?case
    by (simp add: Let_def Cons.IH) (simp add: push1_def [of "(b\<lparr>cb_tail := p\<rparr>, m)" c] Let_def tl fun_upd_def)
qed simp

lemma cb_push_foldl: "cb_push s xs = foldl push1 s xs"
  using push_loop_push1 [of "fst s" "snd s" "cb_tail (fst s)" xs]
  by (simp add: cb_push_def buf_push_def Let_def case_prod_beta)

lemma cb_push_queue:
  assumes "cb_ok s"
  shows "cb_ok (cb_push s xs) \<and> cb_cap (cb_push s xs) = cb_cap s \<and>
    cb_contents (cb_push s xs) = drop (length (cb_contents s) + length xs - cb_cap s) (cb_contents s @ xs)"
  using assms unfolding cb_push_foldl
proof (induction xs arbitrary: s)
  case Nil
  then have "held (fst s) \<le> capacity (fst s)" by (auto simp: cb_ok_def cb_at_def)
  then show ?case using Nil by (simp add: cb_cap_def cb_contents_def)
next
  case (Cons c xs)
  let ?L = "cb_contents s @ [c]" and ?k = "length (cb_contents s) + 1 - cb_cap s"
  note p = push1_queue [OF Cons.prems, of c]
  have "drop (length (drop ?k ?L) + length xs - cb_cap s) (drop ?k ?L @ xs) =
      drop (length (drop ?k ?L) + length xs - cb_cap s + ?k) (?L @ xs)"
  proof -
    have "?k \<le> length ?L" by simp
    then have "drop ?k ?L @ xs = drop ?k (?L @ xs)" by (simp only: drop_append) simp
    then show ?thesis by (simp only: drop_drop)
  qed
  also have "length (drop ?k ?L) + length xs - cb_cap s + ?k = length (cb_contents s) + length (c # xs) - cb_cap s"
    by simp
  finally show ?case using Cons.IH [of "push1 s c"] p by simp
qed

lemma pop_loop_at:
  assumes "0 < capacity b" "cb_end b = cb_data b + capacity b"
  shows "pop_loop b m n (at_offset b t) = (map (\<lambda>i. m (at_offset b (t + i))) [0..<n], at_offset b (t + n))"
proof (induction n arbitrary: t)
  case (Suc n)
  have "map (\<lambda>i. m (at_offset b (t + i))) [0..<Suc n] =
      m (at_offset b t) # map (\<lambda>i. m (at_offset b (t + 1 + i))) [0..<n]"
    by (simp add: upt_conv_Cons map_Suc_upt [symmetric] comp_def del: upt_Suc)
  then show ?case
    unfolding pop_loop.simps wrap_next [OF assms] Suc.IH by simp
qed simp

lemma cb_pop_queue:
  assumes "cb_ok s"
  shows "cb_ok (snd (cb_pop s n)) \<and> cb_cap (snd (cb_pop s n)) = cb_cap s \<and>
    fst (cb_pop s n) = take n (cb_contents s) \<and> cb_contents (snd (cb_pop s n)) = drop n (cb_contents s)"
proof -
  obtain b m where s: "s = (b, m)" by fastforce
  obtain t where at: "cb_at b t" using assms by (auto simp: cb_ok_def s)
  have pos: "0 < capacity b" "cb_end b = cb_data b + capacity b" "t < capacity b" using at by (simp_all add: cb_at_def)
  have top: "cb_top b = at_offset b t" using at by (simp add: cb_at_def at_offset_def)
  define k where "k = min n (held b)"
  define w where "w = (of_nat (min n (2 ^ 32 - 1)) :: u32)"
  have lt: "held b < 2 ^ 32" using unsigned_less [of "cb_size b", where ?'a = nat] by simp
  have uw: "unat w = min n (2 ^ 32 - 1)" unfolding w_def by (subst unat_of_nat) simp
  define l where "l = (if w > cb_size b then cb_size b else w)"
  have ul: "unat l = k" using uw lt by (auto simp: l_def k_def word_less_nat_alt min_def)
  define b' where "b' = b\<lparr>cb_top := at_offset b (t + k), cb_size := cb_size b - l\<rparr>"
  have pop: "cb_pop s n = (map (\<lambda>i. m (at_offset b (t + i))) [0..<k], b', m)"
    unfolding cb_pop_def buf_pop_def s fst_conv snd_conv Let_def w_def [symmetric] l_def [symmetric] ul top
      pop_loop_at [OF pos(1,2)] prod.case b'_def ..
  have "unat (cb_size b - l) = held b - unat l"
    using ul by (intro unat_sub) (simp add: k_def word_le_nat_alt)
  then have hb: "held b' = held b - k" by (simp add: b'_def ul)
  have off: "at_offset b' i = at_offset b i" for i by (simp add: b'_def at_offset_def)
  have "k \<le> held b" by (simp add: k_def)
  moreover from this have "at_offset b ((t + k) mod capacity b + held b') = cb_tail b"
    using at by (simp only: at_offset_mod) (simp add: hb cb_at_def)
  ultimately have at': "cb_at b' ((t + k) mod capacity b)"
    using at hb by (simp only: cb_at_def off) (auto simp: b'_def at_offset_def)
  have "cb_contents (b', m) = map (\<lambda>i. m (at_offset b (t + k + i))) [0..<held b - k]"
    unfolding cb_contents_at [OF at'] by (simp only: off at_offset_mod hb)
  moreover have "map (\<lambda>i. m (at_offset b (t + k + i))) [0..<held b - k] = drop n (cb_contents (b, m))"
    unfolding cb_contents_at [OF at] by (rule nth_equalityI) (auto simp: k_def ac_simps)
  moreover have "map (\<lambda>i. m (at_offset b (t + i))) [0..<k] = take n (cb_contents (b, m))"
    unfolding cb_contents_at [OF at] by (rule nth_equalityI) (auto simp: k_def)
  moreover have "capacity b' = capacity b" by (simp add: b'_def)
  ultimately show ?thesis
    using at' unfolding s pop [unfolded s] by (auto simp: cb_ok_def cb_cap_def)
qed

interpretation cb: byte_queue cb_ok cb_cap cb_contents cb_push cb_pop
proof unfold_locales
  fix s :: "circbuf \<times> mem" and xs n
  assume ok: "cb_ok s"
  then show "length (cb_contents s) \<le> cb_cap s"
    by (auto simp: cb_ok_def cb_at_def cb_contents_def cb_cap_def)
  show "cb_ok (cb_push s xs) \<and> cb_cap (cb_push s xs) = cb_cap s" 
    "cb_contents (cb_push s xs) = drop (length (cb_contents s) + length xs - cb_cap s) (cb_contents s @ xs)"
    using cb_push_queue [OF ok] by blast+
  show "cb_ok (snd (cb_pop s n)) \<and> cb_cap (snd (cb_pop s n)) = cb_cap s"
    "fst (cb_pop s n) = take n (cb_contents s)" "cb_contents (snd (cb_pop s n)) = drop n (cb_contents s)"
    using cb_pop_queue [OF ok] by blast+
qed

text \<open>Runs of pushes and of pops.\<close>

primrec push_pieces :: "circbuf \<times> mem \<Rightarrow> byte list list \<Rightarrow> circbuf \<times> mem" where
  "push_pieces s [] = s"
| "push_pieces s (xs # xss) = push_pieces (cb_push s xs) xss"

primrec pop_pieces :: "circbuf \<times> mem \<Rightarrow> nat list \<Rightarrow> byte list \<times> circbuf \<times> mem" where
  "pop_pieces s [] = ([], s)"
| "pop_pieces s (n # ns) = (let (xs, s) = cb_pop s n; (ys, s) = pop_pieces s ns in (xs @ ys, s))"

lemma push_pieces: "push_pieces s xss = cb.pushes s xss"
  by (induction xss arbitrary: s) simp_all

lemma pop_pieces: "pop_pieces s ns = cb.pops s ns"
  by (induction ns arbitrary: s) simp_all

section \<open>Properties\<close>

text \<open>
  C17. A buffer that \<open>buf_init\<close> has made is a bounded queue: whatever is pushed in whatever
  pieces, the buffer then holds the last bytes that fit, in order; and if no more was pushed than
  fits, pops in pieces of any sizes return all of it, first in first out.
\<close>

theorem circbuf_queue:
  assumes "buf_init malloc sz = Some (r, b)" "0 < sz"
  shows "cb_contents (push_pieces (b, m) xss) = drop (length (concat xss) - unat sz) (concat xss) \<and>
    (length (concat xss) \<le> unat sz \<longrightarrow> sum_list ns = length (concat xss) \<longrightarrow>
       fst (pop_pieces (push_pieces (b, m) xss) ns) = concat xss)"
proof -
  have "0 < unat sz" using assms(2) by (simp add: word_less_nat_alt)
  then have "cb_at b 0"
    using assms(1) by (auto simp: buf_init_def Let_def cb_at_def at_offset_def split: if_splits)
  then have ok: "cb_ok (b, m)" by (auto simp: cb_ok_def)
  have b: "cb_cap (b, m) = unat sz" "cb_contents (b, m) = []"
    using assms(1) by (auto simp: buf_init_def Let_def cb_cap_def cb_contents_def split: if_splits)
  show ?thesis
    using cb.pushes_contents [OF ok, of xss] cb.fifo [OF ok b(2), of xss ns] b by (simp add: push_pieces pop_pieces)
qed

lemma circbuf_queue_witness:
  "\<exists>b. buf_init (\<lambda>_. 0x1000) 4 = Some (1, b) \<and>
     cb_contents (push_pieces (b, \<lambda>_. 0) [[1, 2, 3], [4, 5, 6]]) = [3, 4, 5, 6]"
proof -
  obtain b where b: "buf_init (\<lambda>_. 0x1000) 4 = Some (1, b)" by (simp add: buf_init_def)
  then show ?thesis using circbuf_queue [OF b, of "\<lambda>_. 0" "[[1, 2, 3], [4, 5, 6]]"] by simp
qed

end
