(* ===== verification/Env.thy ===== *)
theory Env imports CmdLoad Crc begin

text \<open>
  The environment in RAM: \<open>common/cmd_nvedit.c\<close> (\<open>envmatch\<close>, \<open>getenv\<close>, \<open>getenv_r\<close>, \<open>_do_setenv\<close>,
  \<open>do_printenv\<close>) over the block of \<open>common/env_common.c\<close>. The block is \<open>ENV_SIZE\<close> bytes of
  \<open>name=value\<close> strings, each with its NUL, ended by one more NUL; here it is a function from
  indices to bytes (\<open>env_get_char i\<close> and \<open>env_data[i]\<close> are \<open>env i\<close> after relocation), so an
  address in it is an index. Names and values given to the code are lists of bytes without
  their NUL.

  Loops without a bound over the block are \<open>partial_function (option)\<close>; \<open>None\<close> is a scan that
  does not end, a read behind the end of an argument, or a NULL pointer that is followed.
  Modelled is a port with \<open>CFG_CMD_NET\<close>, without \<open>CONFIG_ENV_OVERWRITE\<close>, \<open>CONFIG_NET_MULTI\<close> and
  \<open>CONFIG_SERIAL_MULTI\<close>.
\<close>

abbreviation EQ :: byte where "EQ \<equiv> chr CHR ''=''"

section \<open>Looking up\<close>

text \<open>
  \<open>envmatch\<close>: the index of the value, or -1. Where the name ends the code compares its NUL with
  the block; if that is a NUL too, it reads on behind the name.
\<close>

fun envmatch :: "mem \<Rightarrow> byte list \<Rightarrow> nat \<Rightarrow> int option" where
  "envmatch env [] i =
     (if env i = 0 then None else Some (if env i = EQ then int (i + 1) else -1))"
| "envmatch env (c # s) i =
     (if c = env i then (if c = EQ then Some (int (i + 1)) else envmatch env s (i + 1)) else Some (-1))"

text \<open>The inner loop of \<open>getenv\<close> and \<open>getenv_r\<close>: the next NUL, if it comes before \<open>CFG_ENV_SIZE\<close>.\<close>

function scan_bounded :: "nat \<Rightarrow> mem \<Rightarrow> nat \<Rightarrow> nat option" where
  "scan_bounded env_size env nxt =
     (if env nxt = 0 then Some nxt
      else if nxt \<ge> env_size then None else scan_bounded env_size env (nxt + 1))"
  by pat_completeness auto
termination by (relation "measure (\<lambda>(n, env, nxt). n - nxt)") auto

declare scan_bounded.simps [simp del]

lemma scan_bounded_le: "scan_bounded n env i = Some k \<Longrightarrow> i \<le> k \<and> (env i \<noteq> 0 \<longrightarrow> i < k \<and> k \<le> n)"
proof (induction n env i rule: scan_bounded.induct)
  case (1 n env i)
  show ?case
  proof (cases "env i = 0 \<or> i \<ge> n")
    case True
    then show ?thesis using "1.prems" by (auto simp: scan_bounded.simps [of n env i] split: if_splits)
  next
    case False
    then have "scan_bounded n env (i + 1) = Some k" using "1.prems" by (simp add: scan_bounded.simps [of n env i])
    then have "i + 1 \<le> k \<and> (env (i + 1) \<noteq> 0 \<longrightarrow> i + 1 < k \<and> k \<le> n)" using False "1.IH" by simp
    moreover have "k = i + 1" if "env (i + 1) = 0"
      using that \<open>scan_bounded n env (i + 1) = Some k\<close> by (simp add: scan_bounded.simps)
    ultimately show ?thesis using False by (cases "env (i + 1) = 0") auto
  qed
qed

text \<open>
  The loop of \<open>getenv\<close> and \<open>getenv_r\<close> over the variables: the outer \<open>option\<close> is the read behind
  the name, the inner one NULL.
\<close>

function getenv_loop :: "nat \<Rightarrow> mem \<Rightarrow> byte list \<Rightarrow> nat \<Rightarrow> nat option option" where
  "getenv_loop env_size env name i =
     (if env i = 0 then Some None
      else case scan_bounded env_size env i of
        None \<Rightarrow> Some None
      | Some nxt \<Rightarrow>
          (case envmatch env name i of
             None \<Rightarrow> None
           | Some val \<Rightarrow>
               if val < 0 then getenv_loop env_size env name (nxt + 1) else Some (Some (nat val))))"
  by pat_completeness auto
termination
  by (relation "measure (\<lambda>(n, env, name, i). n + 1 - i)") (auto dest: scan_bounded_le)

declare getenv_loop.simps [simp del]

definition getenv :: "nat \<Rightarrow> mem \<Rightarrow> byte list \<Rightarrow> nat option option" where
  "getenv env_size env name = getenv_loop env_size env name 0"

text \<open>The copy of \<open>getenv_r\<close>: the bytes stored and \<open>n\<close> after the loop.\<close>

function copy_out :: "nat \<Rightarrow> nat \<Rightarrow> mem \<Rightarrow> nat \<Rightarrow> byte list \<times> nat" where
  "copy_out len n env val =
     (if len > n then
        (if env val \<noteq> 0
         then (case copy_out len (n + 1) env (val + 1) of (xs, k) \<Rightarrow> (env val # xs, k))
         else ([env val], n + 1))
      else ([], n + 1))"
  by pat_completeness auto
termination by (relation "measure (\<lambda>(len, n, _). len - n)") auto

declare copy_out.simps [simp del]

text \<open>The result and the bytes stored at \<open>buf[0]\<close>, \<open>buf[1]\<close>, ...\<close>

definition getenv_r :: "nat \<Rightarrow> mem \<Rightarrow> byte list \<Rightarrow> nat \<Rightarrow> (int \<times> byte list) option" where
  "getenv_r env_size env name len =
     (case getenv_loop env_size env name 0 of
        None \<Rightarrow> None
      | Some None \<Rightarrow> Some (-1, [])
      | Some (Some val) \<Rightarrow>
          (case copy_out len 0 env val of (xs, n) \<Rightarrow>
             Some (int n, if len = n then xs @ [0] else xs)))"

section \<open>Setting\<close>

partial_function (option) scan_nul :: "mem \<Rightarrow> nat \<Rightarrow> nat option" where
  "scan_nul env nxt = (if env nxt = 0 then Some nxt else scan_nul env (nxt + 1))"

text \<open>The search of \<open>_do_setenv\<close>: \<open>env\<close>, \<open>nxt\<close> and \<open>oldval\<close> where its loop stops.\<close>

partial_function (option) find_var :: "mem \<Rightarrow> byte list \<Rightarrow> nat \<Rightarrow> (nat \<times> nat \<times> int) option" where
  "find_var env name p =
     (if env p = 0 then Some (p, 0, -1)
      else Option.bind (scan_nul env p) (\<lambda>nxt.
           Option.bind (envmatch env name p) (\<lambda>oldval.
             if oldval \<ge> 0 then Some (p, nxt, oldval) else find_var env name (nxt + 1))))"

partial_function (option) shift_down :: "mem \<Rightarrow> nat \<Rightarrow> nat \<Rightarrow> (mem \<times> nat) option" where
  "shift_down env d s =
     (let env = env(d := env s); s = s + 1
      in if env d = 0 \<and> env s = 0 then Some (env, d) else shift_down env (d + 1) s)"

definition delete_var :: "mem \<Rightarrow> nat \<Rightarrow> nat \<Rightarrow> mem option" where
  "delete_var env p nxt =
     (let nxt = nxt + 1 in
      if env nxt = 0 then
        (if p > 0 then let p = p - 1 in Some (env(p + 1 := 0))
         else let env = env(p := 0) in Some (env(p + 1 := 0)))
      else map_option (\<lambda>(env, d). env(d + 1 := 0)) (shift_down env p nxt))"

partial_function (option) find_end :: "mem \<Rightarrow> nat \<Rightarrow> nat option" where
  "find_end env p = (if env p \<noteq> 0 \<or> env (p + 1) \<noteq> 0 then find_end env (p + 1) else Some p)"

text \<open>\<open>while ((*env = *s++) != 0) env++\<close>: the block and where its new NUL is.\<close>

fun store_str :: "mem \<Rightarrow> nat \<Rightarrow> byte list \<Rightarrow> mem \<times> nat" where
  "store_str env p [] = (env(p := 0), p)"
| "store_str env p (c # s) = store_str (env(p := c)) (p + 1) s"

fun store_args :: "mem \<Rightarrow> nat \<Rightarrow> byte \<Rightarrow> byte list list \<Rightarrow> mem \<times> nat" where
  "store_args env p sep [] = (env, p)"
| "store_args env p sep (val # vals) =
     (case store_str (env(p := sep)) (p + 1) val of (env, p) \<Rightarrow> store_args env p (chr CHR '' '') vals)"

text \<open>Appending: \<open>Inl\<close> is the overflow.\<close>

definition append_var :: "nat \<Rightarrow> mem \<Rightarrow> byte list \<Rightarrow> byte list list \<Rightarrow> (unit + mem) option" where
  "append_var ENV_SIZE env name vals =
     (case find_end env 0 of
        None \<Rightarrow> None
      | Some p \<Rightarrow>
          let p = (if p > 0 then p + 1 else p);
              len = length name + 2 + sum_list (map (\<lambda>v. length v + 1) vals)
          in if int len > int ENV_SIZE - int p then Some (Inl ())
             else case store_str env p name of (env, p) \<Rightarrow>
                  case store_args env p EQ vals of (env, p) \<Rightarrow> Some (Inr (env(p + 1 := 0))))"

text \<open>
  The state \<open>_do_setenv\<close> works on: the block and its checksum, the console with its characters
  in and out and its devices (of any type \<open>'c\<close>), and the settings that follow a variable. What
  differs between ports is the record \<open>board\<close>: the size of the block, the baud rates, the
  function \<open>console_assign\<close> of \<open>common/console.c\<close>, and the byte order.
\<close>

record 'c env_state =
  en_env :: mem
  en_crc :: u32
  en_in :: "byte list"
  en_out :: "byte list"
  en_console :: 'c
  en_baudrate :: u32
  en_enetaddr :: "byte list"
  en_ip_addr :: u32
  en_load_addr :: u32
  en_bootfile :: "byte list"

record 'c board =
  ENV_SIZE :: nat
  baudrate_table :: "u32 list"
  console_assign :: "nat \<Rightarrow> byte list \<Rightarrow> 'c \<Rightarrow> int \<times> 'c"
  htonl :: "u32 \<Rightarrow> u32"

text \<open>An argument of a command: \<open>argv[i]\<close>, NULL after the last one.\<close>

definition arg :: "byte list option list \<Rightarrow> nat \<Rightarrow> byte list option" where
  "arg argv i = (if i < length argv then argv ! i else None)"

definition env_crc_update :: "'c board \<Rightarrow> 'c env_state \<Rightarrow> 'c env_state" where
  "env_crc_update bo st = st\<lparr>en_crc := crc32 (en_env st) 0 0 (ENV_SIZE bo)\<rparr>"

definition std_console :: "byte list \<Rightarrow> nat option" where
  "std_console name =
     (if name = bytes ''stdin'' then Some 0
      else if name = bytes ''stdout'' then Some 1
      else if name = bytes ''stderr'' then Some 2 else None)"

text \<open>
  The checks and switches before an existing variable is deleted: \<open>Inl\<close> is a return from the
  function.
\<close>

definition switch_console ::
    "'c board \<Rightarrow> byte list option list \<Rightarrow> byte list \<Rightarrow> 'c env_state \<Rightarrow> ((int \<times> 'c env_state) + 'c env_state) option"
where
  "switch_console bo argv name st =
     (case std_console name of
        None \<Rightarrow> Some (Inr st)
      | Some console \<Rightarrow>
          if length argv < 3
          then Some (Inl (1, st\<lparr>en_out := printf (''Can'' @ [CHR 0x27] @ ''t delete '' @ [CHR 0x22] @ ''%s'' @
                 [CHR 0x22] @ nl) [ArgStr (Some name)] (en_out st)\<rparr>))
          else case arg argv 2 of
            None \<Rightarrow> None
          | Some dev \<Rightarrow>
              (case console_assign bo console dev (en_console st) of (r, c) \<Rightarrow>
                 let st = st\<lparr>en_console := c\<rparr>
                 in Some (if r < 0 then Inl (1, st) else Inr st)))"

definition switch_baudrate ::
    "'c board \<Rightarrow> byte list option list \<Rightarrow> byte list \<Rightarrow> 'c env_state \<Rightarrow> ((int \<times> 'c env_state) + 'c env_state) option"
where
  "switch_baudrate bo argv name st =
     (if name \<noteq> bytes ''baudrate'' then Some (Inr st)
      else case arg argv 2 of
        None \<Rightarrow> None
      | Some s \<Rightarrow>
          let baudrate = fst (simple_strtoul s 10) in
          if baudrate \<notin> set (baudrate_table bo)
          then Some (Inl (1, st\<lparr>en_out := printf (''## Baudrate %d bps not supported'' @ nl)
                 [ArgInt baudrate] (en_out st)\<rparr>))
          else
            let st = st\<lparr>en_out := printf (''## Switch baudrate to %d bps and press ENTER ...'' @ nl)
                   [ArgInt baudrate] (en_out st), en_baudrate := baudrate\<rparr>
            in case dropWhile (\<lambda>c. c \<noteq> 13) (en_in st) of
                 [] \<Rightarrow> None
               | _ # rest \<Rightarrow> Some (Inr (st\<lparr>en_in := rest\<rparr>)))"

definition setenv_checks ::
    "'c board \<Rightarrow> byte list option list \<Rightarrow> byte list \<Rightarrow> 'c env_state \<Rightarrow> ((int \<times> 'c env_state) + 'c env_state) option"
where
  "setenv_checks bo argv name st =
     (if name = bytes ''serial#'' \<or> name = bytes ''ethaddr''
      then Some (Inl (1, st\<lparr>en_out := printf (''Can'' @ [CHR 0x27] @ ''t overwrite '' @ [CHR 0x22] @ ''%s'' @
             [CHR 0x22] @ nl) [ArgStr (Some name)] (en_out st)\<rparr>))
      else case switch_console bo argv name st of
        None \<Rightarrow> None
      | Some (Inl r) \<Rightarrow> Some (Inl r)
      | Some (Inr st) \<Rightarrow> switch_baudrate bo argv name st)"

text \<open>What follows some variables after they were set.\<close>

primrec enetaddr_loop :: "nat \<Rightarrow> byte list \<Rightarrow> byte list" where
  "enetaddr_loop 0 s = []"
| "enetaddr_loop (Suc n) s =
     (case simple_strtoul s 16 of (v, e) \<Rightarrow> ucast v # enetaddr_loop n (tl e))"

primrec ipaddr_loop :: "nat \<Rightarrow> byte list \<Rightarrow> u32 \<Rightarrow> u32" where
  "ipaddr_loop 0 s addr = addr"
| "ipaddr_loop (Suc n) s addr =
     (case simple_strtoul s 10 of (v, e) \<Rightarrow> ipaddr_loop n (tl e) (push_bit 8 addr OR (v AND 0xFF)))"

fun copy_name :: "byte list \<Rightarrow> int \<Rightarrow> byte list" where
  "copy_name [] sz = []"
| "copy_name (c # src) sz = (if sz - 1 > 0 \<and> c \<noteq> 34 then c # copy_name src (sz - 1) else [])"

definition copy_filename :: "byte list \<Rightarrow> int \<Rightarrow> byte list" where
  "copy_filename src sz = (if peek src = 34 then copy_name (tl src) (sz - 1) else copy_name src sz)"

definition setenv_effects :: "'c board \<Rightarrow> byte list \<Rightarrow> byte list \<Rightarrow> 'c env_state \<Rightarrow> 'c env_state" where
  "setenv_effects bo name val st =
     (if name = bytes ''ethaddr'' then st\<lparr>en_enetaddr := enetaddr_loop 6 val\<rparr>
      else if name = bytes ''ipaddr'' then st\<lparr>en_ip_addr := htonl bo (ipaddr_loop 4 val 0)\<rparr>
      else if name = bytes ''loadaddr'' then st\<lparr>en_load_addr := fst (simple_strtoul val 16)\<rparr>
      else if name = bytes ''bootfile'' then st\<lparr>en_bootfile := copy_filename val 128\<rparr>
      else st)"

text \<open>From \<open>Delete only?\<close> to the end of the function.\<close>

definition setenv_tail ::
    "'c board \<Rightarrow> byte list option list \<Rightarrow> byte list \<Rightarrow> 'c env_state \<Rightarrow> (int \<times> 'c env_state) option" where
  "setenv_tail bo argv name st =
     (if length argv < 3 \<or> arg argv 2 = None then Some (0, env_crc_update bo st)
      else if None \<in> set (drop 2 argv) then None
      else
        let vals = map the (drop 2 argv) in
        case append_var (ENV_SIZE bo) (en_env st) name vals of
          None \<Rightarrow> None
        | Some (Inl _) \<Rightarrow>
            Some (1, st\<lparr>en_out := printf (''## Error: environment overflow, '' @ [CHR 0x22] @ ''%s'' @
              [CHR 0x22] @ '' deleted'' @ nl) [ArgStr (Some name)] (en_out st)\<rparr>)
        | Some (Inr env) \<Rightarrow>
            Some (0, setenv_effects bo name (hd vals) (env_crc_update bo (st\<lparr>en_env := env\<rparr>))))"

definition do_setenv0 :: "'c board \<Rightarrow> byte list option list \<Rightarrow> 'c env_state \<Rightarrow> (int \<times> 'c env_state) option" where
  "do_setenv0 bo argv st =
     (case arg argv 1 of None \<Rightarrow> None | Some name \<Rightarrow>
      case find_var (en_env st) name 0 of None \<Rightarrow> None | Some (p, nxt, oldval) \<Rightarrow>
      case (if oldval \<ge> 0 then
              (case setenv_checks bo argv name st of
                 None \<Rightarrow> None
               | Some (Inl r) \<Rightarrow> Some (Inl r)
               | Some (Inr st) \<Rightarrow>
                   map_option (\<lambda>env. Inr (st\<lparr>en_env := env\<rparr>)) (delete_var (en_env st) p nxt))
            else Some (Inr st)) of
        None \<Rightarrow> None
      | Some (Inl r) \<Rightarrow> Some r
      | Some (Inr st) \<Rightarrow> setenv_tail bo argv name st)"

definition setenv :: "'c board \<Rightarrow> byte list \<Rightarrow> byte list option \<Rightarrow> 'c env_state \<Rightarrow> 'c env_state option" where
  "setenv bo varname varvalue st =
     map_option snd (do_setenv0 bo [Some (bytes ''setenv''), Some varname, varvalue] st)"

definition do_setenv ::
    "'c board \<Rightarrow> byte list \<Rightarrow> byte list option list \<Rightarrow> 'c env_state \<Rightarrow> (int \<times> 'c env_state) option" where
  "do_setenv bo usage argv st =
     (if length argv < 2
      then Some (1, st\<lparr>en_out := printf (''Usage:'' @ nl @ ''%s'' @ nl) [ArgStr (Some usage)] (en_out st)\<rparr>)
      else do_setenv0 bo argv st)"

section \<open>What the block holds\<close>

text \<open>
  A block in order: the \<open>name=value\<close> strings of a list of variables, each with its NUL, and one
  more NUL; with no variable two NULs, as \<open>_do_setenv\<close> leaves it.
\<close>

primrec holds :: "mem \<Rightarrow> nat \<Rightarrow> byte list \<Rightarrow> bool" where
  "holds env p [] = True"
| "holds env p (x # xs) = (env p = x \<and> holds env (p + 1) xs)"

lemma holds_append: "holds env p (xs @ ys) \<longleftrightarrow> holds env p xs \<and> holds env (p + length xs) ys"
  by (induction xs arbitrary: p) auto

lemma holds_iff: "holds env p xs \<longleftrightarrow> (\<forall>i < length xs. env (p + i) = xs ! i)"
  by (induction xs arbitrary: p) (auto simp: less_Suc_eq_0_disj nth_Cons')

lemma holds_cong: "(\<And>i. p \<le> i \<Longrightarrow> i < p + length xs \<Longrightarrow> env' i = env i) \<Longrightarrow> holds env' p xs = holds env p xs"
  by (auto simp: holds_iff)

lemma holds_write: "holds (write_bytes env p xs) p xs"
  by (simp add: holds_iff write_bytes_apply)

type_synonym var = "byte list \<times> byte list"

definition entry :: "var \<Rightarrow> byte list" where
  "entry v = fst v @ EQ # snd v @ [0]"

definition good_name :: "byte list \<Rightarrow> bool" where
  "good_name n \<longleftrightarrow> 0 \<notin> set n \<and> EQ \<notin> set n"

definition good_var :: "var \<Rightarrow> bool" where
  "good_var v \<longleftrightarrow> good_name (fst v) \<and> 0 \<notin> set (snd v)"

definition vars_bytes :: "var list \<Rightarrow> byte list" where
  "vars_bytes vs = concat (map entry vs)"

definition env_bytes :: "var list \<Rightarrow> byte list" where
  "env_bytes vs = (if vs = [] then [0, 0] else vars_bytes vs @ [0])"

lemma vars_bytes_simps [simp]:
  "vars_bytes [] = []" "vars_bytes (v # vs) = entry v @ vars_bytes vs"
  "vars_bytes (vs @ ws) = vars_bytes vs @ vars_bytes ws"
  by (simp_all add: vars_bytes_def)

lemma length_entry [simp]: "length (entry v) = length (fst v) + length (snd v) + 2"
  by (simp add: entry_def)

lemma EQ_nonzero [simp]: "EQ \<noteq> 0" "0 \<noteq> EQ"
  by simp_all

text \<open>Scans over one entry.\<close>

lemma holds_entry_end: "holds env p (entry v) \<Longrightarrow> env (p + length (fst v) + length (snd v) + 1) = 0"
  by (simp add: entry_def holds_append)

lemma holds_entry_start: "holds env p (entry v) \<Longrightarrow> good_var v \<Longrightarrow> env p \<noteq> 0"
  by (cases "fst v") (auto simp: entry_def holds_append good_var_def good_name_def)

lemma holds_entry_nonzero:
  assumes "holds env p (entry v)" "good_var v" "i < length (fst v) + length (snd v) + 1"
  shows "env (p + i) \<noteq> 0"
proof -
  have "env (p + i) = entry v ! i" using assms by (simp add: holds_iff)
  also have "\<dots> = (fst v @ EQ # snd v) ! i"
    using assms(3) nth_append [of "fst v @ EQ # snd v" "[0]" i] by (simp add: entry_def)
  also have "\<dots> \<in> set (fst v @ EQ # snd v)" using assms(3) by (intro nth_mem) simp
  finally show ?thesis using assms(2) by (auto simp: good_var_def good_name_def)
qed

lemma scan_nul_run: "(\<And>i. i < n \<Longrightarrow> env (p + i) \<noteq> 0) \<Longrightarrow> env (p + n) = 0 \<Longrightarrow> scan_nul env p = Some (p + n)"
proof (induction n arbitrary: p)
  case 0
  then show ?case by (simp add: scan_nul.simps)
next
  case (Suc n)
  have "env p \<noteq> 0" using Suc.prems(1) [of 0] by simp
  moreover have "scan_nul env (p + 1) = Some (p + 1 + n)"
    using Suc.prems(1) [of "Suc i" for i] Suc.prems(2) by (intro Suc.IH) simp_all
  ultimately show ?case by (simp add: scan_nul.simps [of env p])
qed

lemma scan_bounded_run:
  "(\<And>i. i < n \<Longrightarrow> env (p + i) \<noteq> 0) \<Longrightarrow> env (p + n) = 0 \<Longrightarrow> p + n \<le> sz \<Longrightarrow>
   scan_bounded sz env p = Some (p + n)"
proof (induction n arbitrary: p)
  case 0
  then show ?case by (simp add: scan_bounded.simps)
next
  case (Suc n)
  have "env p \<noteq> 0" using Suc.prems(1) [of 0] by simp
  moreover have "scan_bounded sz env (p + 1) = Some (p + 1 + n)"
    using Suc.prems(1) [of "Suc i" for i] Suc.prems(2,3) by (intro Suc.IH) simp_all
  ultimately show ?case using Suc.prems(3) by (simp add: scan_bounded.simps [of sz env p])
qed

lemma scan_nul_entry:
  "holds env p (entry v) \<Longrightarrow> good_var v \<Longrightarrow>
   scan_nul env p = Some (p + (length (fst v) + length (snd v) + 1))"
  using holds_entry_end [of env p v] by (intro scan_nul_run holds_entry_nonzero) (simp_all add: add.assoc)

lemma scan_bounded_entry:
  "holds env p (entry v) \<Longrightarrow> good_var v \<Longrightarrow> p + length (entry v) \<le> sz \<Longrightarrow>
   scan_bounded sz env p = Some (p + (length (fst v) + length (snd v) + 1))"
  using holds_entry_end [of env p v] by (intro scan_bounded_run holds_entry_nonzero) (simp_all add: add.assoc)

lemma envmatch_run:
  "EQ \<notin> set name \<Longrightarrow> 0 \<notin> set name \<Longrightarrow> EQ \<notin> set n \<Longrightarrow> 0 \<notin> set n \<Longrightarrow> holds env p (n @ [EQ]) \<Longrightarrow>
   envmatch env name p = Some (if n = name then int (p + length name + 1) else -1)"
proof (induction env name p arbitrary: n rule: envmatch.induct)
  case (1 env i)
  then show ?case by (cases n) auto
next
  case (2 env c s i)
  then show ?case by (cases n) auto
qed

lemma envmatch_entry:
  "good_name name \<Longrightarrow> good_var v \<Longrightarrow> holds env p (entry v) \<Longrightarrow>
   envmatch env name p = Some (if fst v = name then int (p + length name + 1) else -1)"
  by (rule envmatch_run) (auto simp: good_name_def good_var_def entry_def holds_append)

text \<open>Scans over the block.\<close>

lemma find_var_absent:
  "\<lbrakk>holds env p (vars_bytes vs @ [0]); \<forall>v \<in> set vs. good_var v; good_name name; name \<notin> fst ` set vs\<rbrakk> \<Longrightarrow>
   find_var env name p = Some (p + length (vars_bytes vs), 0, -1)"
proof (induction vs arbitrary: p)
  case Nil
  then show ?case by (simp add: find_var.simps)
next
  case (Cons v vs)
  from Cons.prems have v: "holds env p (entry v)" "good_var v" "fst v \<noteq> name"
    and rest: "holds env (p + length (entry v)) (vars_bytes vs @ [0])"
    by (auto simp: holds_append add.assoc)
  have "find_var env name (p + length (entry v)) = Some (p + length (entry v) + length (vars_bytes vs), 0, -1)"
    using Cons.prems by (intro Cons.IH rest) auto
  then show ?case
    using v holds_entry_start [OF v(1,2)]
    by (simp add: find_var.simps [of env name p] scan_nul_entry envmatch_entry [OF Cons.prems(3)])
qed

lemma find_var_present:
  "\<lbrakk>holds env p (vars_bytes vs @ entry (name, val)); \<forall>v \<in> set vs. good_var v; good_var (name, val);
    name \<notin> fst ` set vs\<rbrakk> \<Longrightarrow>
   find_var env name p =
     Some (p + length (vars_bytes vs), p + length (vars_bytes vs) + (length name + length val + 1),
           int (p + length (vars_bytes vs) + length name + 1))"
proof (induction vs arbitrary: p)
  case Nil
  then have v: "holds env p (entry (name, val))" "good_name name" by (simp_all add: good_var_def)
  then show ?case
    using holds_entry_start [OF v(1) Nil(3)] Nil(3)
    by (simp add: find_var.simps [of env name p] scan_nul_entry envmatch_entry [OF v(2)])
next
  case (Cons v vs)
  from Cons.prems have v: "holds env p (entry v)" "good_var v" "fst v \<noteq> name" "good_name name"
    and rest: "holds env (p + length (entry v)) (vars_bytes vs @ entry (name, val))"
    by (auto simp: holds_append add.assoc good_var_def)
  have "find_var env name (p + length (entry v)) =
     Some (p + length (entry v) + length (vars_bytes vs),
       p + length (entry v) + length (vars_bytes vs) + (length name + length val + 1),
       int (p + length (entry v) + length (vars_bytes vs) + length name + 1))"
    using Cons.prems by (intro Cons.IH rest) auto
  then show ?case
    using v holds_entry_start [OF v(1,2)]
    by (simp add: find_var.simps [of env name p] scan_nul_entry envmatch_entry [OF v(4)])
qed

lemma getenv_loop_holds:
  "\<lbrakk>holds env p (vars_bytes vs @ [0]); \<forall>v \<in> set vs. good_var v; good_name name;
    p + length (vars_bytes vs) \<le> sz\<rbrakk> \<Longrightarrow>
   getenv_loop sz env name p =
     Some (if name \<in> fst ` set vs
           then Some (p + length (vars_bytes (takeWhile (\<lambda>v. fst v \<noteq> name) vs)) + length name + 1)
           else None)"
proof (induction vs arbitrary: p)
  case Nil
  then show ?case by (simp add: getenv_loop.simps)
next
  case (Cons v vs)
  from Cons.prems have v: "holds env p (entry v)" "good_var v"
    and rest: "holds env (p + length (entry v)) (vars_bytes vs @ [0])"
    by (auto simp: holds_append add.assoc)
  have "scan_bounded sz env p = Some (p + (length (fst v) + length (snd v) + 1))"
    using Cons.prems(4) by (intro scan_bounded_entry v) simp
  moreover have "getenv_loop sz env name (p + length (entry v)) =
     Some (if name \<in> fst ` set vs
           then Some (p + length (entry v) + length (vars_bytes (takeWhile (\<lambda>v. fst v \<noteq> name) vs)) + length name + 1)
           else None)"
    using Cons.prems by (intro Cons.IH rest) auto
  ultimately show ?case
    using v holds_entry_start [OF v]
    by (simp add: getenv_loop.simps [of sz env name p] envmatch_entry [OF Cons.prems(3)]
        del: of_nat_add of_nat_Suc)
qed

lemma find_end_skip:
  "(\<And>i. i < n \<Longrightarrow> env (p + i) \<noteq> 0 \<or> env (p + i + 1) \<noteq> 0) \<Longrightarrow> find_end env p = find_end env (p + n)"
proof (induction n arbitrary: p)
  case (Suc n)
  have "env p \<noteq> 0 \<or> env (p + 1) \<noteq> 0" using Suc.prems [of 0] by simp
  then have "find_end env p = find_end env (p + 1)" by (subst find_end.simps) simp
  also have "\<dots> = find_end env (p + 1 + n)" using Suc.prems [of "Suc i" for i] by (intro Suc.IH) simp
  finally show ?case by simp
qed simp

text \<open>Two NULs in a row stand only at the end.\<close>

lemma vars_no_double:
  "\<lbrakk>holds env p (vars_bytes vs @ [0]); \<forall>v \<in> set vs. good_var v; i + 1 < length (vars_bytes vs)\<rbrakk> \<Longrightarrow>
   env (p + i) \<noteq> 0 \<or> env (p + i + 1) \<noteq> 0"
proof (induction vs arbitrary: p i)
  case (Cons v vs)
  from Cons.prems have v: "holds env p (entry v)" "good_var v"
    and rest: "holds env (p + length (entry v)) (vars_bytes vs @ [0])"
    by (auto simp: holds_append add.assoc)
  let ?n = "length (fst v) + length (snd v) + 1"
  consider (inside) "i < ?n" | (last) "i = ?n" | (after) "i \<ge> length (entry v)" by fastforce
  then show ?case
  proof cases
    case inside
    then show ?thesis using holds_entry_nonzero [OF v] by simp
  next
    case last
    then obtain w ws where vs: "vs = w # ws" using Cons.prems(3) by (cases vs) auto
    then have "holds env (p + length (entry v)) (entry w)" "good_var w"
      using rest Cons.prems by (auto simp: holds_append)
    then show ?thesis using holds_entry_start last by fastforce
  next
    case after
    have "env (p + length (entry v) + (i - length (entry v))) \<noteq> 0 \<or>
        env (p + length (entry v) + (i - length (entry v)) + 1) \<noteq> 0"
      using Cons.prems after by (intro Cons.IH rest) auto
    moreover have "p + length (entry v) + (i - length (entry v)) = p + i" using after by simp
    ultimately show ?thesis by metis
  qed
qed simp

lemma vars_bytes_last: "vs \<noteq> [] \<Longrightarrow> vars_bytes vs = butlast (vars_bytes vs) @ [0]"
  by (induction vs rule: rev_induct) (simp_all add: entry_def butlast_append)

lemma vars_end:
  assumes "holds env p (vars_bytes vs @ [0])" "vs \<noteq> []"
  shows "0 < length (vars_bytes vs)" "env (p + (length (vars_bytes vs) - 1)) = 0"
    "env (p + (length (vars_bytes vs) - 1) + 1) = 0"
proof -
  show len: "0 < length (vars_bytes vs)" using assms(2) by (cases vs) auto
  have "holds env p (butlast (vars_bytes vs) @ [0, 0])"
    using assms(1) unfolding arg_cong [OF vars_bytes_last [OF assms(2)], of "\<lambda>xs. xs @ [0]"] by simp
  then show "env (p + (length (vars_bytes vs) - 1)) = 0" "env (p + (length (vars_bytes vs) - 1) + 1) = 0"
    by (simp_all add: holds_append)
qed

lemma find_end_vars:
  assumes "holds env p (vars_bytes vs @ [0])" "\<forall>v \<in> set vs. good_var v" "vs \<noteq> []"
  shows "find_end env p = Some (p + (length (vars_bytes vs) - 1))"
proof -
  let ?n = "length (vars_bytes vs) - 1"
  have "find_end env p = find_end env (p + ?n)"
    using vars_no_double [OF assms(1,2)] by (intro find_end_skip) simp
  moreover have "find_end env (p + ?n) = Some (p + ?n)"
    using vars_end [OF assms(1,3)] by (subst find_end.simps) simp
  ultimately show ?thesis by simp
qed

text \<open>The shift of the variables behind a deleted one, and the deletion.\<close>

lemma shift_down_run:
  "\<lbrakk>d < s; \<And>i. i < n \<Longrightarrow> env (s + i) \<noteq> 0 \<or> env (s + i + 1) \<noteq> 0; env (s + n) = 0; env (s + n + 1) = 0\<rbrakk> \<Longrightarrow>
   shift_down env d s = Some (write_bytes env d (read_bytes env s (n + 1)), d + n)"
proof (induction n arbitrary: env d s)
  case 0
  then show ?case by (subst shift_down.simps) (auto simp: Let_def read_bytes_Suc)
next
  case (Suc n)
  let ?e = "env(d := env s)"
  have "shift_down ?e (d + 1) (s + 1) = Some (write_bytes ?e (d + 1) (read_bytes ?e (s + 1) (n + 1)), d + 1 + n)"
    using Suc.prems(1) Suc.prems(2) [of "Suc i" for i] Suc.prems(3,4) by (intro Suc.IH) simp_all
  moreover have "read_bytes ?e (s + 1) (n + 1) = read_bytes env (s + 1) (n + 1)"
    using Suc.prems(1) by (auto simp: read_bytes_def)
  moreover have "\<not> (env s = 0 \<and> env (s + 1) = 0)" using Suc.prems(2) [of 0] by simp
  ultimately show ?case
    using Suc.prems(1) by (subst shift_down.simps) (simp add: Let_def read_bytes_Suc)
qed

lemma read_holds: "holds env p xs \<Longrightarrow> read_bytes env p (length xs) = xs"
  by (rule nth_equalityI) (simp_all add: holds_iff)

lemma delete_var_holds:
  assumes image: "holds env 0 (vars_bytes (vs @ v # ws) @ [0])"
    and good: "\<forall>u \<in> set (vs @ v # ws). good_var u"
    and p: "p = length (vars_bytes vs)" and nxt: "nxt = p + (length (fst v) + length (snd v) + 1)"
  shows "\<exists>env'. delete_var env p nxt = Some env' \<and> holds env' 0 (env_bytes (vs @ ws)) \<and>
    (\<forall>i \<ge> length (env_bytes (vs @ v # ws)). env' i = env i)"
proof (cases "ws = []")
  case True
  then have "env (nxt + 1) = 0" using image p nxt by (simp add: holds_append add.assoc)
  moreover have "p > 0 \<longleftrightarrow> vs \<noteq> []" using p by (cases vs) auto
  moreover have "holds (env(p := 0)) 0 (vars_bytes vs @ [0])"
    using image p holds_cong [of 0 "vars_bytes vs" "env(p := 0)" env] by (simp add: holds_append)
  ultimately show ?thesis using True p by (auto simp: delete_var_def Let_def env_bytes_def)
next
  case False
  let ?s = "p + length (entry v)" and ?n = "length (vars_bytes ws) - 1"
  have rest: "holds env ?s (vars_bytes ws @ [0])" and before: "holds env 0 (vars_bytes vs)"
    using image p by (simp_all add: holds_append add.assoc)
  have ws: "\<forall>u \<in> set ws. good_var u" using good by simp
  obtain w us where w: "ws = w # us" using False by (cases ws) auto
  then have "holds env ?s (entry w)" "good_var w" using rest good by (auto simp: holds_append)
  then have start: "env (nxt + 1) \<noteq> 0" using holds_entry_start nxt by fastforce
  have n: "?n + 1 = length (vars_bytes ws)" using vars_end(1) [OF rest False] by simp
  have moved: "read_bytes env ?s (?n + 1) = vars_bytes ws"
    unfolding n using rest by (intro read_holds) (simp add: holds_append)
  have "shift_down env p ?s = Some (write_bytes env p (read_bytes env ?s (?n + 1)), p + ?n)"
    using vars_no_double [OF rest ws] vars_end [OF rest False] by (intro shift_down_run) simp_all
  then have "shift_down env p (nxt + 1) = Some (write_bytes env p (vars_bytes ws), p + ?n)"
    unfolding moved using nxt by simp
  moreover have "p + ?n + 1 = p + length (vars_bytes ws)" using n by simp
  ultimately have "delete_var env p nxt = Some ((write_bytes env p (vars_bytes ws))(p + length (vars_bytes ws) := 0))"
    unfolding delete_var_def Let_def if_not_P [OF start] by (simp del: add_Suc_right)
  then have "delete_var env p nxt = Some (write_bytes env p (vars_bytes ws @ [0]))"
    by (simp add: write_bytes_snoc)
  moreover have "holds (write_bytes env p (vars_bytes ws @ [0])) 0 (vars_bytes vs)"
    using before p holds_cong [of 0 "vars_bytes vs" "write_bytes env p (vars_bytes ws @ [0])" env]
    by (simp add: write_bytes_other)
  moreover have "holds (write_bytes env p (vars_bytes ws @ [0])) p (vars_bytes ws @ [0])"
    by (rule holds_write)
  ultimately show ?thesis
    using False p by (auto simp: env_bytes_def holds_append write_bytes_other)
qed

text \<open>Appending.\<close>

lemma store_str_write:
  "store_str env p s = (write_bytes env p (s @ [0]), p + length s)"
  by (induction env p s rule: store_str.induct) (simp_all add: fun_upd_def)

primrec join :: "byte \<Rightarrow> byte list list \<Rightarrow> byte list" where
  "join sep [] = []"
| "join sep (v # vs) = sep # v @ join (chr CHR '' '') vs"

lemma write_bytes_over: "write_bytes (write_bytes m d (xs @ ys)) (d + length xs) zs =
   (if length ys \<le> length zs then write_bytes m d (xs @ zs) else write_bytes m d (xs @ zs @ drop (length zs) ys))"
  by (rule ext) (auto simp: write_bytes_apply nth_append)

lemma store_args_write:
  "vals \<noteq> [] \<Longrightarrow> store_args env p sep vals =
     (write_bytes env p (join sep vals @ [0]), p + length (join sep vals))"
proof (induction vals arbitrary: env p sep)
  case (Cons val vals)
  have first: "store_str (env(p := sep)) (p + 1) val = (write_bytes env p (sep # val @ [0]), p + 1 + length val)"
    by (simp add: store_str_write)
  show ?case
  proof (cases vals)
    case Nil
    then show ?thesis using first by simp
  next
    case (Cons w us)
    have over: "write_bytes (write_bytes env p (sep # val @ [0])) (p + 1 + length val) (join (chr CHR '' '') vals @ [0]) =
        write_bytes env p ((sep # val) @ join (chr CHR '' '') vals @ [0])"
      using write_bytes_over [of env p "sep # val" "[0]" "join (chr CHR '' '') vals @ [0]"] by (simp add: add.assoc)
    have "store_args env p sep (val # vals) =
        store_args (write_bytes env p (sep # val @ [0])) (p + 1 + length val) (chr CHR '' '') vals"
      unfolding store_args.simps first by simp
    also have "\<dots> = (write_bytes (write_bytes env p (sep # val @ [0])) (p + 1 + length val)
          (join (chr CHR '' '') vals @ [0]), p + 1 + length val + length (join (chr CHR '' '') vals))"
      using Cons by (intro Cons.IH) simp
    finally show ?thesis unfolding over by simp
  qed
qed simp

lemma length_join: "length (join sep vals) = sum_list (map (\<lambda>v. length v + 1) vals)"
  by (induction vals arbitrary: sep) simp_all

text \<open>The value that several arguments make: the arguments with spaces between them.\<close>

definition value_of :: "byte list list \<Rightarrow> byte list" where
  "value_of vals = tl (join EQ vals)"

lemma value_of_Cons: "value_of (v # vs) = v @ join (chr CHR '' '') vs"
  by (simp add: value_of_def)

lemma value_of_no_nul: "\<forall>v \<in> set vals. 0 \<notin> set v \<Longrightarrow> 0 \<notin> set (value_of vals)"
proof -
  have "0 \<notin> set (join (chr CHR '' '') vs)" if "\<forall>v \<in> set vs. 0 \<notin> set v" for vs
    using that by (induction vs) auto
  then show "\<forall>v \<in> set vals. 0 \<notin> set v \<Longrightarrow> 0 \<notin> set (value_of vals)"
    by (cases vals) (auto simp: value_of_Cons, simp add: value_of_def)
qed

lemma holds_env_bytes_start: "holds env 0 (env_bytes vs) \<Longrightarrow> holds env 0 (vars_bytes vs @ [0])"
  by (cases "vs = []") (simp_all add: env_bytes_def)

lemma length_env_bytes: "length (vars_bytes vs) < length (env_bytes vs)"
  by (simp add: env_bytes_def)

lemma append_var_holds:
  assumes "holds env 0 (env_bytes vs)" "\<forall>v \<in> set vs. good_var v" "vals \<noteq> []"
  shows "append_var n env name vals =
    Some (if length (env_bytes (vs @ [(name, value_of vals)])) > n then Inl ()
          else Inr (write_bytes env (length (vars_bytes vs)) (entry (name, value_of vals) @ [0])))"
proof -
  let ?p = "length (vars_bytes vs)" and ?v = "(name, value_of vals)"
  have "\<exists>q. find_end env 0 = Some q \<and> (if q > 0 then q + 1 else q) = ?p"
  proof (cases "vs = []")
    case True
    then have "find_end env 0 = Some 0" using assms(1) by (subst find_end.simps) (simp add: env_bytes_def)
    then show ?thesis using True by simp
  next
    case False
    have "2 \<le> ?p" using False by (cases vs) auto
    moreover have "find_end env 0 = Some (0 + (?p - 1))"
      by (rule find_end_vars [OF holds_env_bytes_start [OF assms(1)] assms(2) False])
    ultimately show ?thesis by simp
  qed
  then obtain q where q: "find_end env 0 = Some q" "(if q > 0 then q + 1 else q) = ?p" by blast
  have val: "join EQ vals = EQ # value_of vals" using assms(3) by (cases vals) (simp_all add: value_of_def)
  have sum: "sum_list (map (\<lambda>v. length v + 1) vals) = length (value_of vals) + 1"
    using length_join [of EQ vals] val by simp
  have str: "store_str env ?p name = (write_bytes env ?p (name @ [0]), ?p + length name)"
    by (rule store_str_write)
  have args: "store_args (write_bytes env ?p (name @ [0])) (?p + length name) EQ vals =
      (write_bytes env ?p (entry ?v), ?p + length name + length (EQ # value_of vals))"
    unfolding store_args_write [OF assms(3)] val
    using write_bytes_over [of env ?p name "[0]" "EQ # value_of vals @ [0]"] by (simp add: entry_def)
  have fits: "int (length name + 2 + (length (value_of vals) + 1)) > int n - int ?p \<longleftrightarrow>
      length (env_bytes (vs @ [?v])) > n" by (auto simp: env_bytes_def)
  have snoc: "(write_bytes env ?p (entry ?v))(?p + length name + length (EQ # value_of vals) + 1 := 0) =
      write_bytes env ?p (entry ?v @ [0])" by (simp add: write_bytes_snoc add.assoc)
  show ?thesis
    unfolding append_var_def q Let_def sum option.case fits str args split snoc by simp
qed

lemma append_holds:
  assumes "holds env 0 (env_bytes vs)"
  shows "holds (write_bytes env (length (vars_bytes vs)) (entry v @ [0])) 0 (env_bytes (vs @ [v]))"
proof -
  have "holds (write_bytes env (length (vars_bytes vs)) (entry v @ [0])) 0 (vars_bytes vs)"
    using holds_env_bytes_start [OF assms]
      holds_cong [of 0 "vars_bytes vs" "write_bytes env (length (vars_bytes vs)) (entry v @ [0])" env]
    by (simp add: holds_append write_bytes_other)
  then show ?thesis
    using holds_write [of env "length (vars_bytes vs)" "entry v @ [0]"]
    by (simp add: env_bytes_def holds_append)
qed

section \<open>The specification\<close>

text \<open>The block of a state: it holds the variables, each name once, within its size.\<close>

definition env_holds :: "'c board \<Rightarrow> 'c env_state \<Rightarrow> var list \<Rightarrow> bool" where
  "env_holds bo st vs \<longleftrightarrow>
     holds (en_env st) 0 (env_bytes vs) \<and> length (env_bytes vs) \<le> ENV_SIZE bo \<and>
     distinct (map fst vs) \<and> (\<forall>v \<in> set vs. good_var v)"

definition crc_ok :: "'c board \<Rightarrow> 'c env_state \<Rightarrow> bool" where
  "crc_ok bo st \<longleftrightarrow> en_crc st = crc32 (en_env st) 0 0 (ENV_SIZE bo)"

definition others :: "byte list \<Rightarrow> var list \<Rightarrow> var list" where
  "others name vs = filter (\<lambda>v. fst v \<noteq> name) vs"

definition set_result :: "nat \<Rightarrow> byte list \<Rightarrow> byte list list \<Rightarrow> var list \<Rightarrow> int \<times> var list" where
  "set_result n name vals vs =
     (let new = others name vs @ [(name, value_of vals)] in
      if vals = [] then (0, others name vs)
      else if length (env_bytes new) \<le> n then (0, new) else (1, others name vs))"

definition set_post :: "'c board \<Rightarrow> byte list \<Rightarrow> byte list list \<Rightarrow> var list \<Rightarrow> 'c env_state \<Rightarrow> int \<Rightarrow> 'c env_state \<Rightarrow> bool" where
  "set_post bo name vals vs st r st' \<longleftrightarrow>
     r = fst (set_result (ENV_SIZE bo) name vals vs) \<and>
     env_holds bo st' (snd (set_result (ENV_SIZE bo) name vals vs)) \<and>
     (if r = 0 then crc_ok bo st' else en_crc st' = en_crc st) \<and>
     (\<forall>i \<ge> ENV_SIZE bo. en_env st' i = en_env st i)"

lemma others_absent: "name \<notin> fst ` set vs \<Longrightarrow> others name vs = vs"
  by (auto simp: others_def intro: filter_True)

lemma others_split: "distinct (map fst (us @ v # ws)) \<Longrightarrow> others (fst v) (us @ v # ws) = us @ ws"
proof -
  assume "distinct (map fst (us @ v # ws))"
  then have "fst u \<noteq> fst v" if "u \<in> set us \<union> set ws" for u
    using that by (auto simp: image_iff)
  then show ?thesis by (simp add: others_def)
qed

lemma env_holds_others: "env_holds bo st vs \<Longrightarrow> v \<in> set (others name vs) \<Longrightarrow> good_var v"
  by (auto simp: others_def env_holds_def)

text \<open>The checks and the settings after a change leave the block alone.\<close>

lemma switch_console_frame:
  "switch_console bo argv name st = Some (Inr st') \<Longrightarrow> en_env st' = en_env st \<and> en_crc st' = en_crc st"
  by (auto simp: switch_console_def Let_def split: option.splits if_splits prod.splits)

lemma switch_console_frame_error:
  "switch_console bo argv name st = Some (Inl (r, st')) \<Longrightarrow> r = 1 \<and> en_env st' = en_env st \<and> en_crc st' = en_crc st"
  by (auto simp: switch_console_def Let_def split: option.splits if_splits prod.splits)

lemma switch_baudrate_frame:
  "switch_baudrate bo argv name st = Some (Inr st') \<Longrightarrow> en_env st' = en_env st \<and> en_crc st' = en_crc st"
  by (auto simp: switch_baudrate_def Let_def split: option.splits if_splits list.splits)

lemma switch_baudrate_frame_error:
  "switch_baudrate bo argv name st = Some (Inl (r, st')) \<Longrightarrow> r = 1 \<and> en_env st' = en_env st \<and> en_crc st' = en_crc st"
  by (auto simp: switch_baudrate_def Let_def split: option.splits if_splits list.splits)

lemma setenv_checks_frame:
  "setenv_checks bo argv name st = Some (Inr st') \<Longrightarrow> en_env st' = en_env st \<and> en_crc st' = en_crc st"
  by (auto simp: setenv_checks_def split: option.splits if_splits sum.splits
      dest!: switch_console_frame switch_baudrate_frame)

lemma setenv_checks_frame_error:
  "setenv_checks bo argv name st = Some (Inl (r, st')) \<Longrightarrow> r = 1 \<and> en_env st' = en_env st \<and> en_crc st' = en_crc st"
  by (auto simp: setenv_checks_def split: option.splits if_splits sum.splits
      dest!: switch_console_frame switch_baudrate_frame_error switch_console_frame_error)

lemma setenv_effects_frame [simp]:
  "en_env (setenv_effects bo name val st) = en_env st" "en_crc (setenv_effects bo name val st) = en_crc st"
  by (simp_all add: setenv_effects_def)


section \<open>Setting keeps the specification\<close>

lemma env_holds_frame:
  assumes "en_env st' = en_env st"
  shows "env_holds bo st' vs = env_holds bo st vs"
  by (simp add: env_holds_def assms)

lemma find_var_env:
  assumes "env_holds bo st vs" "good_name name"
  shows "name \<notin> fst ` set vs \<Longrightarrow> \<exists>p. find_var (en_env st) name 0 = Some (p, 0, -1)"
    and "vs = us @ (name, val) # ws \<Longrightarrow> name \<notin> fst ` set us \<Longrightarrow>
      find_var (en_env st) name 0 = Some (length (vars_bytes us),
        length (vars_bytes us) + (length name + length val + 1), int (length (vars_bytes us) + length name + 1))"
proof -
  have *: "holds (en_env st) 0 (vars_bytes vs @ [0])" "\<forall>v \<in> set vs. good_var v"
    using assms(1) holds_env_bytes_start [of "en_env st" vs] unfolding env_holds_def by blast+
  show "\<exists>p. find_var (en_env st) name 0 = Some (p, 0, -1)" if "name \<notin> fst ` set vs"
    using find_var_absent [OF * assms(2) that] by blast
  assume vs: "vs = us @ (name, val) # ws" and new: "name \<notin> fst ` set us"
  show "find_var (en_env st) name 0 = Some (length (vars_bytes us),
        length (vars_bytes us) + (length name + length val + 1), int (length (vars_bytes us) + length name + 1))"
    using find_var_present [of "en_env st" 0 us name val] * new by (simp add: vs holds_append)
qed

lemma delete_env:
  assumes env: "env_holds bo st (us @ (name, val) # ws)"
    and p: "p = length (vars_bytes us)" and nxt: "nxt = p + (length name + length val + 1)"
  shows "\<exists>env'. delete_var (en_env st) p nxt = Some env' \<and>
    env_holds bo (st\<lparr>en_env := env'\<rparr>) (others name (us @ (name, val) # ws)) \<and>
    (\<forall>i \<ge> ENV_SIZE bo. env' i = en_env st i)"
proof -
  let ?vs = "us @ (name, val) # ws"
  have *: "holds (en_env st) 0 (vars_bytes ?vs @ [0])" "\<forall>v \<in> set ?vs. good_var v"
    and len: "length (env_bytes ?vs) \<le> ENV_SIZE bo" and dist: "distinct (map fst ?vs)"
    using env holds_env_bytes_start [of "en_env st" ?vs] unfolding env_holds_def by blast+
  obtain env' where env': "delete_var (en_env st) p nxt = Some env'" "holds env' 0 (env_bytes (us @ ws))"
    "\<forall>i \<ge> length (env_bytes ?vs). env' i = en_env st i"
    using delete_var_holds [OF * p] nxt by auto
  have "length (env_bytes (us @ ws)) \<le> length (env_bytes ?vs)" by (simp add: env_bytes_def)
  then show ?thesis
    using env' len dist *(2) others_split [OF dist] by (auto simp: env_holds_def)
qed

text \<open>What follows the deletion.\<close>

lemma append_env:
  assumes env: "env_holds bo st vs" and "good_name name" "name \<notin> fst ` set vs"
    and vals: "vals \<noteq> []" "\<forall>v \<in> set vals. 0 \<notin> set v"
  defines "app \<equiv> append_var (ENV_SIZE bo) (en_env st) name vals"
  shows "case app of
      Some (Inl _) \<Rightarrow> length (env_bytes (vs @ [(name, value_of vals)])) > ENV_SIZE bo
    | Some (Inr env') \<Rightarrow> length (env_bytes (vs @ [(name, value_of vals)])) \<le> ENV_SIZE bo \<and>
        env_holds bo (st\<lparr>en_env := env'\<rparr>) (vs @ [(name, value_of vals)]) \<and>
        (\<forall>i \<ge> ENV_SIZE bo. env' i = en_env st i)
    | None \<Rightarrow> False"
proof -
  let ?env = "write_bytes (en_env st) (length (vars_bytes vs)) (entry (name, value_of vals) @ [0])"
  have app: "app = Some (if length (env_bytes (vs @ [(name, value_of vals)])) > ENV_SIZE bo then Inl () else Inr ?env)"
    unfolding app_def using env vals by (intro append_var_holds) (simp_all add: env_holds_def)
  show ?thesis
  proof (cases "length (env_bytes (vs @ [(name, value_of vals)])) > ENV_SIZE bo")
    case True
    then show ?thesis by (simp add: app)
  next
    case False
    have "holds ?env 0 (env_bytes (vs @ [(name, value_of vals)]))"
      using env by (intro append_holds) (simp add: env_holds_def)
    moreover have "good_var (name, value_of vals)"
      using assms(2) vals value_of_no_nul by (simp add: good_var_def)
    moreover have "?env i = en_env st i" if "i \<ge> ENV_SIZE bo" for i
      using False that by (intro write_bytes_other) (simp add: env_bytes_def)
    ultimately show ?thesis using False env assms(3) by (auto simp: env_holds_def app)
  qed
qed

text \<open>
  The arguments that name a variable and give \<open>vals\<close> as its value; without a value either there
  is no third argument or it is NULL, as in a call of \<open>setenv\<close>.
\<close>

definition set_args :: "byte list \<Rightarrow> byte list \<Rightarrow> byte list list \<Rightarrow> byte list option list" where
  "set_args cmd name vals = Some cmd # Some name # map Some vals"

definition gives :: "byte list option list \<Rightarrow> byte list \<Rightarrow> byte list list \<Rightarrow> bool" where
  "gives argv name vals \<longleftrightarrow>
     arg argv 1 = Some name \<and>
     (if vals = [] then length argv < 3 \<or> arg argv 2 = None
      else 3 \<le> length argv \<and> drop 2 argv = map Some vals)"

lemma gives_set_args: "gives (set_args cmd name vals) name vals"
  by (cases vals) (auto simp: gives_def set_args_def arg_def)

lemma gives_call: "gives [Some cmd, Some name, vo] name (case vo of None \<Rightarrow> [] | Some v \<Rightarrow> [v])"
  by (cases vo) (simp_all add: gives_def arg_def)

lemma gives_name: "gives argv name vals \<Longrightarrow> arg argv (Suc 0) = Some name"
  by (simp add: gives_def)

lemma gives_vals:
  assumes "gives argv name vals"
  shows "length argv < 3 \<or> arg argv 2 = None \<longleftrightarrow> vals = []" "None \<notin> set (drop 2 argv) \<or> vals = []"
    "vals = [] \<or> map the (drop 2 argv) = vals"
proof -
  show "length argv < 3 \<or> arg argv 2 = None \<longleftrightarrow> vals = []"
  proof (cases "vals = []")
    case True
    then show ?thesis using assms by (simp add: gives_def)
  next
    case False
    then have 3: "3 \<le> length argv" and drop: "drop 2 argv = map Some vals" using assms by (simp_all add: gives_def)
    have "argv ! 2 = hd (drop 2 argv)" using 3 by (simp add: hd_drop_conv_nth)
    also have "\<dots> \<noteq> None" unfolding drop using False by (simp add: hd_map)
    finally show ?thesis using False 3 by (simp add: arg_def)
  qed
  show "None \<notin> set (drop 2 argv) \<or> vals = []" "vals = [] \<or> map the (drop 2 argv) = vals"
    using assms by (auto simp: gives_def comp_def split: if_splits)
qed

text \<open>
  A name with \<open>=\<close>: \<open>envmatch\<close> compares only what stands before it, and what stands behind it becomes
  the beginning of the value.
\<close>

definition key_of :: "byte list \<Rightarrow> byte list" where
  "key_of name = takeWhile (\<lambda>c. c \<noteq> EQ) name"

definition value_args :: "byte list \<Rightarrow> byte list list \<Rightarrow> byte list list" where
  "value_args name vals =
     (if EQ \<in> set name \<and> vals \<noteq> []
      then (tl (dropWhile (\<lambda>c. c \<noteq> EQ) name) @ EQ # hd vals) # tl vals else vals)"

lemma key_of_good: "good_name name \<Longrightarrow> key_of name = name"
  by (auto simp: key_of_def good_name_def takeWhile_eq_all_conv)

lemma value_args_good: "good_name name \<Longrightarrow> value_args name vals = vals"
  by (simp add: value_args_def good_name_def)

lemma good_key: "0 \<notin> set name \<Longrightarrow> good_name (key_of name)"
  by (auto simp: key_of_def good_name_def dest: set_takeWhileD)

lemma name_split: "EQ \<in> set name \<Longrightarrow> name = key_of name @ EQ # tl (dropWhile (\<lambda>c. c \<noteq> EQ) name)"
  unfolding key_of_def by (induction name) auto

lemma value_args_no_nul:
  assumes "0 \<notin> set name" "\<forall>v \<in> set vals. 0 \<notin> set v"
  shows "\<forall>v \<in> set (value_args name vals). 0 \<notin> set v"
proof (cases "EQ \<in> set name \<and> vals \<noteq> []")
  case True
  have "x \<in> set name" if "x \<in> set (tl (dropWhile (\<lambda>c. c \<noteq> EQ) name))" for x
  proof -
    have "set (tl xs) \<subseteq> set xs" for xs :: "byte list" by (cases xs) auto
    then show ?thesis using that set_dropWhileD by fast
  qed
  then show ?thesis using assms True by (cases vals) (auto simp: value_args_def)
next
  case False
  then show ?thesis using assms(2) by (simp add: value_args_def del: de_Morgan_conj)
qed

lemma envmatch_key:
  "EQ \<notin> set n \<Longrightarrow> 0 \<notin> set n \<Longrightarrow> 0 \<notin> set name \<Longrightarrow> holds env p (n @ [EQ]) \<Longrightarrow>
   envmatch env name p = envmatch env (key_of name) p"
proof (induction env name p arbitrary: n rule: envmatch.induct)
  case (2 env c s i)
  then show ?case by (cases n) (auto simp: key_of_def)
qed (simp add: key_of_def)

lemma find_var_key:
  "\<lbrakk>holds env p (vars_bytes vs @ [0]); \<forall>v \<in> set vs. good_var v; 0 \<notin> set name\<rbrakk> \<Longrightarrow>
   find_var env name p = find_var env (key_of name) p"
proof (induction vs arbitrary: p)
  case Nil
  then show ?case by (simp add: find_var.simps)
next
  case (Cons v vs)
  from Cons.prems have v: "holds env p (entry v)" "good_var v"
    and rest: "holds env (p + length (entry v)) (vars_bytes vs @ [0])"
    by (auto simp: holds_append add.assoc)
  have "envmatch env name p = envmatch env (key_of name) p"
    using v Cons.prems(3) by (intro envmatch_key [of "fst v"]) (auto simp: good_var_def good_name_def entry_def holds_append)
  moreover have "find_var env name (p + length (entry v)) = find_var env (key_of name) (p + length (entry v))"
    using Cons.prems by (intro Cons.IH rest) auto
  ultimately show ?case
    using scan_nul_entry [OF v]
    by (simp add: find_var.simps [of env name p] find_var.simps [of env "key_of name" p] cong: if_cong)
qed

lemma append_var_key:
  assumes "holds env 0 (env_bytes vs)" "\<forall>v \<in> set vs. good_var v" "vals \<noteq> []"
  shows "append_var n env name vals = append_var n env (key_of name) (value_args name vals)"
proof (cases "EQ \<in> set name")
  case True
  let ?k = "key_of name" and ?r = "tl (dropWhile (\<lambda>c. c \<noteq> EQ) name)"
  obtain v us where vals: "vals = v # us" using assms(3) by (cases vals) auto
  have w: "value_args name (v # us) = (?r @ EQ # v) # us" using True by (simp add: value_args_def)
  have e: "entry (name, value_of vals) = entry (?k, value_of (value_args name vals))"
  proof -
    have "name @ xs = ?k @ EQ # ?r @ xs" for xs
      using arg_cong [OF name_split [OF True], of "\<lambda>z. z @ xs"] by (simp only: append_assoc append_Cons)
    then show ?thesis unfolding entry_def vals w value_of_Cons by simp
  qed
  then have "length (entry (name, value_of vals)) = length (entry (?k, value_of (value_args name vals)))" by simp
  then have l: "length (env_bytes (vs @ [(name, value_of vals)])) =
      length (env_bytes (vs @ [(?k, value_of (value_args name vals))]))" by (simp add: env_bytes_def)
  have "value_args name vals \<noteq> []" by (simp add: w vals)
  then show ?thesis
    using append_var_holds [OF assms(1,2), of vals n name] append_var_holds [OF assms(1,2), of "value_args name vals" n ?k]
      assms(3) e l by simp
next
  case False
  then have "key_of name = name" unfolding key_of_def by (auto simp: takeWhile_eq_all_conv)
  then show ?thesis using False by (simp add: value_args_def)
qed

lemma setenv_finish:
  assumes env: "env_holds bo st1 (others (key_of name) vs)" and name: "0 \<notin> set name" and vals: "\<forall>v \<in> set vals. 0 \<notin> set v"
    and argv: "gives argv name vals" and frame: "\<forall>i \<ge> ENV_SIZE bo. en_env st1 i = en_env st i" "en_crc st1 = en_crc st"
  shows "\<exists>r st'. setenv_tail bo argv name st1 = Some (r, st') \<and>
    set_post bo (key_of name) (value_args name vals) vs st r st'"
proof (cases "vals = []")
  case True
  then show ?thesis
    using env frame gives_vals [OF argv]
    by (auto simp: setenv_tail_def set_post_def set_result_def env_crc_update_def crc_ok_def env_holds_def value_args_def)
next
  case False
  have "key_of name \<notin> fst ` set (others (key_of name) vs)" by (auto simp: others_def)
  moreover have ne: "value_args name vals \<noteq> []" using False by (simp add: value_args_def)
  moreover have "append_var (ENV_SIZE bo) (en_env st1) name vals =
      append_var (ENV_SIZE bo) (en_env st1) (key_of name) (value_args name vals)"
    using env by (intro append_var_key [OF _ _ False]) (auto simp: env_holds_def)
  ultimately show ?thesis
    using append_env [OF env good_key [OF name] _ ne value_args_no_nul [OF name vals]] False env frame gives_vals [OF argv]
    by (auto simp: setenv_tail_def set_post_def set_result_def env_crc_update_def crc_ok_def
        env_holds_def Let_def
        split: option.splits sum.splits)
qed

lemma do_setenv0_key:
  assumes env: "env_holds bo st vs" and name: "0 \<notin> set name" and vals: "\<forall>v \<in> set vals. 0 \<notin> set v"
    and argv: "gives argv name vals"
  shows "case (if key_of name \<in> fst ` set vs then setenv_checks bo argv name st else Some (Inr st)) of
      None \<Rightarrow> do_setenv0 bo argv st = None
    | Some (Inl e) \<Rightarrow> do_setenv0 bo argv st = Some e
    | Some (Inr st1) \<Rightarrow> \<exists>r st'. do_setenv0 bo argv st = Some (r, st') \<and>
        set_post bo (key_of name) (value_args name vals) vs st r st'"
proof -
  let ?k = "key_of name"
  note good = good_key [OF name]
  have "holds (en_env st) 0 (vars_bytes vs @ [0])" "\<forall>v \<in> set vs. good_var v"
    using env holds_env_bytes_start [of "en_env st" vs] unfolding env_holds_def by blast+
  from find_var_key [OF this name] have find: "find_var (en_env st) name 0 = find_var (en_env st) ?k 0" .
  show ?thesis
  proof (cases "?k \<in> fst ` set vs")
    case False
    then obtain p where p: "find_var (en_env st) name 0 = Some (p, 0, -1)"
      using find_var_env(1) [OF env good] find by auto
    have "env_holds bo st (others ?k vs)" using env others_absent [OF False] by simp
    from setenv_finish [OF this name vals argv, of st] False p show ?thesis
      by (simp add: do_setenv0_def gives_name [OF argv])
  next
    case True
    then obtain us val ws where vs: "vs = us @ (?k, val) # ws" "?k \<notin> fst ` set us"
      using split_list_first_prop [of vs "\<lambda>v. fst v = ?k"] by fastforce
    note p = find_var_env(2) [OF env good vs, folded find]
    show ?thesis
    proof (cases "setenv_checks bo argv name st")
      case None
      then show ?thesis using True p by (simp add: do_setenv0_def gives_name [OF argv])
    next
      case (Some a)
      show ?thesis
      proof (cases a)
        case (Inl e)
        then show ?thesis using True p Some by (simp add: do_setenv0_def gives_name [OF argv])
      next
        case (Inr st1)
        have frame: "en_env st1 = en_env st" "en_crc st1 = en_crc st" using setenv_checks_frame Some Inr by blast+
        have "env_holds bo st1 (us @ (?k, val) # ws)" using env vs(1) env_holds_frame [OF frame(1)] by simp
        from delete_env [OF this refl refl] obtain env' where del:
          "delete_var (en_env st1) (length (vars_bytes us)) (length (vars_bytes us) + (length ?k + length val + 1)) = Some env'"
          "env_holds bo (st1\<lparr>en_env := env'\<rparr>) (others ?k vs)" "\<forall>i \<ge> ENV_SIZE bo. env' i = en_env st1 i"
          unfolding vs(1) by blast
        from setenv_finish [OF del(2) name vals argv, of st] del(3) frame p Some Inr del(1) show ?thesis
          by (simp add: do_setenv0_def gives_name [OF argv] True)
      qed
    qed
  qed
qed

lemma do_setenv0_steps:
  assumes "env_holds bo st vs" "good_name name" "\<forall>v \<in> set vals. 0 \<notin> set v" "gives argv name vals"
  shows "case (if name \<in> fst ` set vs then setenv_checks bo argv name st else Some (Inr st)) of
      None \<Rightarrow> do_setenv0 bo argv st = None
    | Some (Inl e) \<Rightarrow> do_setenv0 bo argv st = Some e
    | Some (Inr st1) \<Rightarrow> \<exists>r st'. do_setenv0 bo argv st = Some (r, st') \<and> set_post bo name vals vs st r st'"
proof -
  have "0 \<notin> set name" using assms(2) by (simp add: good_name_def)
  from do_setenv0_key [OF assms(1) this assms(3,4)] show ?thesis
    unfolding key_of_good [OF assms(2)] value_args_good [OF assms(2)] .
qed

text \<open>When the checks do not return.\<close>

lemma setenv_checks_None:
  assumes "setenv_checks bo argv name st = None" "gives argv name vals"
  shows "name = bytes ''baudrate'' \<and> (vals = [] \<or> 13 \<notin> set (en_in st)) \<or>
    name \<in> {bytes ''stdin'', bytes ''stdout'', bytes ''stderr''} \<and> vals = [] \<and> 3 \<le> length argv"
proof -
  have 2: "vals = []" if "arg argv 2 = None" using gives_vals(1) [OF assms(2)] that by simp
  have cr: "13 \<notin> set xs" if "dropWhile (\<lambda>c. c \<noteq> 13) xs = []" for xs :: "byte list"
    using that by (auto simp: dropWhile_eq_Nil_conv)
  from assms(1) consider "switch_console bo argv name st = None" |
      st1 where "switch_console bo argv name st = Some (Inr st1)" "switch_baudrate bo argv name st1 = None"
    by (auto simp: setenv_checks_def split: if_splits option.splits sum.splits)
  then show ?thesis
  proof cases
    case 1
    then show ?thesis using 2
      by (auto simp: switch_console_def std_console_def Let_def split: option.splits if_splits prod.splits)
  next
    case (2 st1)
    have "name = bytes ''baudrate''" using 2(2) by (auto simp: switch_baudrate_def split: if_splits)
    moreover from this have "st1 = st" using 2(1) by (simp add: switch_console_def std_console_def)
    ultimately show ?thesis
      using 2(2) \<open>arg argv 2 = None \<Longrightarrow> vals = []\<close> cr
      by (auto simp: switch_baudrate_def Let_def split: option.splits if_splits list.splits)
  qed
qed

section \<open>Reading keeps to the specification\<close>

text \<open>The string that \<open>getenv\<close> returns the address of.\<close>

definition env_value :: "nat \<Rightarrow> mem \<Rightarrow> byte list \<Rightarrow> byte list option" where
  "env_value env_size env name =
     (case getenv env_size env name of
        Some (Some i) \<Rightarrow> map_option (\<lambda>k. read_bytes env i (k - i)) (scan_nul env i)
      | _ \<Rightarrow> None)"

lemma first_var:
  assumes "name \<in> fst ` set vs"
  obtains us val ws where "vs = us @ (name, val) # ws" "name \<notin> fst ` set us"
    "takeWhile (\<lambda>v. fst v \<noteq> name) vs = us" "map_of vs name = Some val"
proof -
  obtain us v ws where vs: "vs = us @ v # ws" "fst v = name" "\<forall>u \<in> set us. fst u \<noteq> name"
    using split_list_first_prop [of vs "\<lambda>v. fst v = name"] assms by (metis (lifting) imageE)
  have "map_of us name = None" using vs(3) by (auto simp: map_of_eq_None_iff)
  then show ?thesis using vs that [of us "snd v" ws] by (cases v) (auto simp: map_add_def)
qed

text \<open>Where the value of a variable stands.\<close>

lemma getenv_at:
  assumes env: "env_holds bo st vs" and name: "good_name name" and n: "ENV_SIZE bo \<le> n"
  shows "case map_of vs name of
      None \<Rightarrow> getenv_loop n (en_env st) name 0 = Some None
    | Some val \<Rightarrow> \<exists>i. getenv_loop n (en_env st) name 0 = Some (Some i) \<and> holds (en_env st) i (val @ [0]) \<and> 0 \<notin> set val"
proof -
  have *: "holds (en_env st) 0 (vars_bytes vs @ [0])" "\<forall>v \<in> set vs. good_var v"
    using env holds_env_bytes_start [of "en_env st" vs] unfolding env_holds_def by blast+
  have "0 + length (vars_bytes vs) \<le> n" using env n length_env_bytes [of vs] by (simp add: env_holds_def)
  note get = getenv_loop_holds [OF * name this]
  show ?thesis
  proof (cases "name \<in> fst ` set vs")
    case False
    then show ?thesis using get by (simp add: map_of_eq_None_iff [THEN iffD2])
  next
    case True
    then obtain us val ws where vs: "vs = us @ (name, val) # ws" "takeWhile (\<lambda>v. fst v \<noteq> name) vs = us"
      "map_of vs name = Some val" using first_var by metis
    have "holds (en_env st) (length (vars_bytes us) + length name + 1) (val @ [0])"
      using *(1) by (simp add: vs(1) holds_append entry_def add.assoc)
    moreover have "0 \<notin> set val" using *(2) vs(1) by (simp add: good_var_def)
    ultimately show ?thesis using get True vs(2,3) by simp
  qed
qed

lemma scan_nul_holds: "holds env i (val @ [0]) \<Longrightarrow> 0 \<notin> set val \<Longrightarrow> scan_nul env i = Some (i + length val)"
  by (rule scan_nul_run) (auto simp: holds_append holds_iff [of env i val] dest: nth_mem)

lemma env_value_map_of:
  assumes "env_holds bo st vs" "good_name name" "ENV_SIZE bo \<le> n"
  shows "env_value n (en_env st) name = map_of vs name"
  using getenv_at [OF assms]
  by (auto simp: env_value_def getenv_def scan_nul_holds holds_append read_holds split: option.splits)

lemma copy_out_holds:
  "holds env i (val @ [0]) \<Longrightarrow> 0 \<notin> set val \<Longrightarrow>
   copy_out len n env i =
     (if len > n + length val then (val @ [0], n + length val + 1) else (take (len - n) val, max n len + 1))"
proof (induction val arbitrary: i n)
  case Nil
  then show ?case by (simp add: copy_out.simps)
next
  case (Cons c val)
  have IH: "copy_out len (n + 1) env (i + 1) =
     (if len > n + 1 + length val then (val @ [0], n + 1 + length val + 1)
      else (take (len - (n + 1)) val, max (n + 1) len + 1))"
    using Cons.prems by (intro Cons.IH) simp_all
  show ?case
  proof (cases "len > n")
    case True
    then have "take (len - n) (c # val) = c # take (len - (n + 1)) val"
      by (simp add: take_Cons')
    then show ?thesis using True IH Cons.prems by (subst copy_out.simps) (auto simp: max_def)
  qed (simp add: copy_out.simps)
qed

lemma getenv_r_map_of:
  assumes "env_holds bo st vs" "good_name name" "ENV_SIZE bo \<le> n"
  shows "getenv_r n (en_env st) name len = Some
    (case map_of vs name of
       None \<Rightarrow> (-1, [])
     | Some val \<Rightarrow>
         if len > length val + 1 then (int (length val + 1), val @ [0])
         else if len = length val + 1 then (int (length val + 1), val @ [0, 0])
         else (int (len + 1), take len val))"
proof (cases "map_of vs name")
  case None
  then show ?thesis using getenv_at [OF assms] by (simp add: getenv_r_def)
next
  case (Some val)
  then obtain i where i: "getenv_loop n (en_env st) name 0 = Some (Some i)" "holds (en_env st) i (val @ [0])"
    "0 \<notin> set val" using getenv_at [OF assms] by auto
  show ?thesis using i(1) by (auto simp: getenv_r_def copy_out_holds [OF i(2,3)] Some)
qed

section \<open>Printing\<close>

text \<open>
  \<open>do_printenv\<close>. All variables: \<open>ctrlc k\<close> is what \<open>ctrlc\<close> returns after line \<open>k\<close>; \<open>Inl\<close> is the
  abort, \<open>Inr\<close> carries \<open>i\<close>.
\<close>

partial_function (option) print_all ::
    "mem \<Rightarrow> (nat \<Rightarrow> bool) \<Rightarrow> nat \<Rightarrow> nat \<Rightarrow> byte list \<Rightarrow> (byte list + nat \<times> byte list) option" where
  "print_all env ctrlc k i out =
     (if env i = 0 then Some (Inr (i, out))
      else Option.bind (scan_nul env i) (\<lambda>nxt.
        let out = out @ read_bytes env i (nxt - i) @ bytes nl in
        if ctrlc k then Some (Inl (puts (nl @ '' ** Abort'' @ nl) out))
        else print_all env ctrlc (k + 1) (nxt + 1) out))"

fun print_vars :: "mem \<Rightarrow> byte list list \<Rightarrow> int \<Rightarrow> byte list \<Rightarrow> (int \<times> byte list) option" where
  "print_vars env [] rcode out = Some (rcode, out)"
| "print_vars env (name # names) rcode out =
     (case find_var env name 0 of
        None \<Rightarrow> None
      | Some (j, nxt, k) \<Rightarrow>
          if k < 0 then print_vars env names (rcode + 1)
            (printf (''## Error: '' @ [CHR 0x22] @ ''%s'' @ [CHR 0x22] @ '' not defined'' @ nl) [ArgStr (Some name)] out)
          else print_vars env names rcode
            (out @ name @ [EQ] @ read_bytes env (nat k) (nxt - nat k) @ bytes nl))"

text \<open>\<open>names\<close> are the arguments after the name of the command.\<close>

definition do_printenv ::
    "'c board \<Rightarrow> (nat \<Rightarrow> bool) \<Rightarrow> byte list list \<Rightarrow> 'c env_state \<Rightarrow> (int \<times> 'c env_state) option" where
  "do_printenv bo ctrlc names st =
     (if names = [] then
        (case print_all (en_env st) ctrlc 0 0 (en_out st) of
           None \<Rightarrow> None
         | Some (Inl out) \<Rightarrow> Some (1, st\<lparr>en_out := out\<rparr>)
         | Some (Inr (i, out)) \<Rightarrow>
             Some (0, st\<lparr>en_out := printf (nl @ ''Environment size: %d/%d bytes'' @ nl)
               [ArgInt (of_nat i), ArgInt (of_nat (ENV_SIZE bo))] out\<rparr>))
      else map_option (\<lambda>(rcode, out). (rcode, st\<lparr>en_out := out\<rparr>)) (print_vars (en_env st) names 0 (en_out st)))"

definition shown :: "var \<Rightarrow> byte list" where
  "shown v = fst v @ EQ # snd v @ bytes nl"

lemma print_all_holds:
  "\<lbrakk>holds env i (vars_bytes vs @ [0]); \<forall>v \<in> set vs. good_var v; \<forall>j. \<not> ctrlc j\<rbrakk> \<Longrightarrow>
   print_all env ctrlc k i out = Some (Inr (i + length (vars_bytes vs), out @ concat (map shown vs)))"
proof (induction vs arbitrary: i k out)
  case Nil
  then show ?case by (subst print_all.simps) simp
next
  case (Cons v vs)
  from Cons.prems have v: "holds env i (entry v)" "good_var v"
    and rest: "holds env (i + length (entry v)) (vars_bytes vs @ [0])"
    by (auto simp: holds_append add.assoc)
  have IH: "print_all env ctrlc (k + 1) (i + length (entry v)) (out @ shown v) =
     Some (Inr (i + length (entry v) + length (vars_bytes vs), (out @ shown v) @ concat (map shown vs)))"
    using Cons.prems by (intro Cons.IH rest) auto
  have "holds env i (fst v @ EQ # snd v)" using v(1) by (simp add: entry_def holds_append)
  then have "read_bytes env i (length (fst v) + length (snd v) + 1) = fst v @ EQ # snd v"
    using read_holds [of env i "fst v @ EQ # snd v"] by simp
  then have line: "out @ read_bytes env i (i + (length (fst v) + length (snd v) + 1) - i) @ bytes nl = out @ shown v"
    by (simp add: shown_def)
  have nxt: "i + (length (fst v) + length (snd v) + 1) + 1 = i + length (entry v)" by simp
  show ?case
    unfolding print_all.simps [of env ctrlc k i] scan_nul_entry [OF v] bind.simps Let_def line nxt IH
    using holds_entry_start [OF v] Cons.prems(3) by (simp add: add.assoc)
qed

lemma print_vars_holds:
  assumes env: "env_holds bo st vs" and names: "\<forall>name \<in> set names. good_name name \<and> name \<in> fst ` set vs"
  shows "print_vars (en_env st) names rcode out =
    Some (rcode, out @ concat (map (\<lambda>name. shown (name, the (map_of vs name))) names))"
  using names
proof (induction names arbitrary: out)
  case (Cons name names)
  have "name \<in> fst ` set vs" using Cons.prems by simp
  then obtain us val ws where vs: "vs = us @ (name, val) # ws" "name \<notin> fst ` set us" "map_of vs name = Some val"
    by (rule first_var)
  have find: "find_var (en_env st) name 0 = Some (length (vars_bytes us),
        length (vars_bytes us) + (length name + length val + 1), int (length (vars_bytes us) + length name + 1))"
    using Cons.prems by (intro find_var_env(2) [OF env _ vs(1,2)]) simp
  have "holds (en_env st) (length (vars_bytes us) + length name + 1) val"
    using env holds_env_bytes_start [of "en_env st" vs]
    by (simp add: env_holds_def vs(1) holds_append entry_def add.assoc)
  then have val: "read_bytes (en_env st) (length (vars_bytes us) + length name + 1) (length val) = val"
    by (rule read_holds)
  have diff: "length (vars_bytes us) + (length name + length val + 1) -
      nat (int (length (vars_bytes us) + length name + 1)) = length val" by simp
  have nonneg: "\<not> int (length (vars_bytes us) + length name + 1) < 0" by simp
  show ?case
    unfolding print_vars.simps find option.case split if_not_P [OF nonneg] diff nat_int val
    using Cons val by (simp add: shown_def vs(3))
qed simp

section \<open>The environment as a store of variables\<close>

text \<open>
  What the rest of the program relies on: an update with a value binds the key as long as there is
  room and unbinds it otherwise, an update without one unbinds it, and no other key changes.
\<close>

locale var_store =
  fixes ok :: "'s \<Rightarrow> bool" and key :: "'k \<Rightarrow> bool" and val :: "'v \<Rightarrow> bool"
    and room :: "'s \<Rightarrow> 'k \<Rightarrow> 'v \<Rightarrow> bool"
    and lookup :: "'s \<Rightarrow> 'k \<Rightarrow> 'v option" and update :: "'k \<Rightarrow> 'v option \<Rightarrow> 's \<Rightarrow> 's option"
  assumes update_set: "ok s \<Longrightarrow> key k \<Longrightarrow> val v \<Longrightarrow>
      \<exists>s'. update k (Some v) s = Some s' \<and> ok s' \<and>
        (\<forall>k'. key k' \<longrightarrow> lookup s' k' = ((lookup s)(k := if room s k v then Some v else None)) k')"
    and update_delete: "ok s \<Longrightarrow> key k \<Longrightarrow>
      \<exists>s'. update k None s = Some s' \<and> ok s' \<and> (\<forall>k'. key k' \<longrightarrow> lookup s' k' = ((lookup s)(k := None)) k')"
begin

primrec updates :: "('k \<times> 'v option) list \<Rightarrow> 's \<Rightarrow> 's option" where
  "updates [] s = Some s"
| "updates (u # us) s = Option.bind (update (fst u) (snd u) s) (updates us)"

definition valid :: "'k \<times> 'v option \<Rightarrow> bool" where
  "valid u \<longleftrightarrow> key (fst u) \<and> (\<forall>v. snd u = Some v \<longrightarrow> val v)"

lemma update_step:
  assumes "ok s" "valid u"
  obtains s' where "update (fst u) (snd u) s = Some s'" "ok s'"
    "\<And>k. key k \<Longrightarrow> k \<noteq> fst u \<Longrightarrow> lookup s' k = lookup s k"
    "lookup s' (fst u) = None \<or> lookup s' (fst u) = snd u"
proof (cases "snd u")
  case None
  then show ?thesis using update_delete [of s "fst u"] assms that unfolding valid_def by fastforce
next
  case (Some v)
  then obtain s' where s': "update (fst u) (snd u) s = Some s'" "ok s'"
    "\<forall>k'. key k' \<longrightarrow> lookup s' k' = ((lookup s)(fst u := if room s (fst u) v then Some v else None)) k'"
    using update_set [of s "fst u" v] assms unfolding valid_def by auto
  moreover have "lookup s' (fst u) = None \<or> lookup s' (fst u) = snd u"
    using s'(3) assms(2) Some by (simp add: valid_def)
  ultimately show ?thesis by (intro that [of s']) simp_all
qed

lemma updates_total: "ok s \<Longrightarrow> \<forall>u \<in> set us. valid u \<Longrightarrow> \<exists>s'. updates us s = Some s' \<and> ok s'"
proof (induction us arbitrary: s)
  case (Cons u us)
  then obtain s' where "update (fst u) (snd u) s = Some s'" "ok s'" by (meson list.set_intros(1) update_step)
  then show ?case using Cons by auto
qed simp

text \<open>What a run of updates does not name keeps its value; what it names has its last value or none.\<close>

lemma updates_lookup:
  "ok s \<Longrightarrow> \<forall>u \<in> set us. valid u \<Longrightarrow> updates us s = Some s' \<Longrightarrow> key k \<Longrightarrow>
   lookup s' k = (case map_of (rev us) k of None \<Rightarrow> lookup s k | Some vo \<Rightarrow> lookup s' k) \<and>
   (\<forall>vo. map_of (rev us) k = Some vo \<longrightarrow> lookup s' k = None \<or> lookup s' k = vo)"
proof (induction us arbitrary: s)
  case (Cons u us)
  then obtain s1 where s1: "update (fst u) (snd u) s = Some s1" "ok s1"
    "\<And>k. key k \<Longrightarrow> k \<noteq> fst u \<Longrightarrow> lookup s1 k = lookup s k"
    "lookup s1 (fst u) = None \<or> lookup s1 (fst u) = snd u"
    by (meson list.set_intros(1) update_step)
  then have "updates us s1 = Some s'" using Cons.prems by simp
  from Cons.IH [OF s1(2) _ this] Cons.prems s1(3) [of k] s1(4) show ?case
    by (auto simp: map_add_def split: option.splits)
qed simp

lemma updates_frame:
  "ok s \<Longrightarrow> \<forall>u \<in> set us. valid u \<Longrightarrow> updates us s = Some s' \<Longrightarrow> key k \<Longrightarrow> k \<notin> fst ` set us \<Longrightarrow>
   lookup s' k = lookup s k"
  using updates_lookup [of s us s' k] by (simp add: map_of_eq_None_iff [THEN iffD2])

end

text \<open>Names that \<open>_do_setenv\<close> treats as plain variables.\<close>

definition plain :: "byte list \<Rightarrow> bool" where
  "plain name \<longleftrightarrow> good_name name \<and>
     name \<notin> {bytes ''serial#'', bytes ''ethaddr'', bytes ''stdin'', bytes ''stdout'', bytes ''stderr'', bytes ''baudrate''}"

lemma setenv_checks_plain: "plain name \<Longrightarrow> setenv_checks bo argv name st = Some (Inr st)"
  by (simp add: plain_def setenv_checks_def switch_console_def std_console_def switch_baudrate_def)

lemma do_setenv0_plain:
  assumes "env_holds bo st vs" "plain name" "\<forall>v \<in> set vals. 0 \<notin> set v" "gives argv name vals"
  shows "\<exists>r st'. do_setenv0 bo argv st = Some (r, st') \<and> set_post bo name vals vs st r st'"
  using do_setenv0_steps [OF assms(1) _ assms(3,4)] assms(2) setenv_checks_plain [OF assms(2), of bo argv st]
  by (cases "name \<in> fst ` set vs") (simp_all add: plain_def)

lemma map_of_others: "map_of (others name vs) = (map_of vs)(name := None)"
  by (rule ext) (induction vs; auto simp: others_def)

lemma map_of_set_result:
  "map_of (snd (set_result n name vals vs)) =
     (map_of vs)(name := if vals \<noteq> [] \<and> length (env_bytes (others name vs @ [(name, value_of vals)])) \<le> n
                         then Some (value_of vals) else None)"
  by (rule ext) (auto simp: set_result_def Let_def map_of_others map_add_def split: option.splits)

definition env_room :: "'c board \<Rightarrow> 'c env_state \<Rightarrow> byte list \<Rightarrow> byte list \<Rightarrow> bool" where
  "env_room bo st name val \<longleftrightarrow>
     (\<exists>vs. env_holds bo st vs \<and> length (env_bytes (others name vs @ [(name, val)])) \<le> ENV_SIZE bo)"

lemma length_vars_bytes_sum: "length (vars_bytes vs) = (\<Sum>v \<leftarrow> vs. length (fst v) + length (snd v) + 2)"
  by (induction vs) simp_all

text \<open>A block determines the variables it holds.\<close>

lemma entry_inj:
  assumes "good_var v" "good_var w" "entry v @ xs = entry w @ ys"
  shows "v = w \<and> xs = ys"
proof -
  have split: "fst v = takeWhile (\<lambda>c. c \<noteq> EQ) (entry v @ xs)" "snd v = takeWhile (\<lambda>c. c \<noteq> 0) (tl (dropWhile (\<lambda>c. c \<noteq> EQ) (entry v @ xs)))"
    if "good_var v" for v xs
  proof -
    have "\<forall>c \<in> set (fst v). c \<noteq> EQ" "\<forall>c \<in> set (snd v). c \<noteq> 0"
      using that by (auto simp: good_var_def good_name_def)
    then show "fst v = takeWhile (\<lambda>c. c \<noteq> EQ) (entry v @ xs)" "snd v = takeWhile (\<lambda>c. c \<noteq> 0) (tl (dropWhile (\<lambda>c. c \<noteq> EQ) (entry v @ xs)))"
      by (simp_all add: entry_def takeWhile_append2 dropWhile_append2)
  qed
  have "v = w" using split [OF assms(1), of xs] split [OF assms(2), of ys] assms(3) by (simp add: prod_eq_iff)
  then show ?thesis using assms(3) by simp
qed

lemma holds_prefix: "holds env p xs \<Longrightarrow> holds env p ys \<Longrightarrow> length xs \<le> length ys \<Longrightarrow> \<exists>zs. ys = xs @ zs"
proof (induction xs arbitrary: p ys)
  case (Cons x xs)
  then show ?case by (cases ys) fastforce+
qed simp

lemma holds_entry_unique:
  assumes "holds env p (entry v @ xs)" "holds env p (entry w @ ys)" "good_var v" "good_var w"
  shows "v = w"
proof (cases "length (entry v @ xs) \<le> length (entry w @ ys)")
  case True
  then obtain zs where "entry w @ ys = entry v @ (xs @ zs)" using holds_prefix [OF assms(1,2)] by auto
  from entry_inj [OF assms(4,3) this] show ?thesis by simp
next
  case False
  then obtain zs where "entry v @ xs = entry w @ (ys @ zs)" using holds_prefix [OF assms(2,1)] by auto
  from entry_inj [OF assms(3,4) this] show ?thesis by simp
qed

lemma vars_bytes_unique:
  "\<lbrakk>holds env p (vars_bytes vs @ [0]); holds env p (vars_bytes ws @ [0]);
    \<forall>v \<in> set vs. good_var v; \<forall>w \<in> set ws. good_var w\<rbrakk> \<Longrightarrow> vs = ws"
proof (induction vs arbitrary: p ws)
  case Nil
  then show ?case using holds_entry_start by (cases ws) (fastforce simp: holds_append)+
next
  case (Cons v vs)
  show ?case
  proof (cases ws)
    case Nil
    then show ?thesis using Cons.prems holds_entry_start [of env p v] by (simp add: holds_append)
  next
    case (Cons w us)
    have "v = w"
      using Cons.prems holds_entry_unique [of env p v "vars_bytes vs @ [0]" w "vars_bytes us @ [0]"] Cons by simp
    moreover have "vs = us"
      using Cons.prems Cons \<open>v = w\<close>
      by (intro Cons.IH [of "p + length (entry v)"]) (simp_all add: holds_append add.assoc)
    ultimately show ?thesis using Cons by simp
  qed
qed

lemma env_holds_unique: "env_holds bo st vs \<Longrightarrow> env_holds bo st ws \<Longrightarrow> vs = ws"
  using vars_bytes_unique [of "en_env st" 0 vs ws] holds_env_bytes_start by (auto simp: env_holds_def)

lemma setenv_steps:
  assumes env: "env_holds bo st vs" and name: "plain name" and val: "\<forall>v. vo = Some v \<longrightarrow> 0 \<notin> set v"
  defines "vals \<equiv> (case vo of None \<Rightarrow> [] | Some v \<Rightarrow> [v])"
  shows "\<exists>r st'. setenv bo name vo st = Some st' \<and> set_post bo name vals vs st r st'"
proof -
  have "\<forall>v \<in> set vals. 0 \<notin> set v" using val by (auto simp: vals_def split: option.splits)
  then show ?thesis
    using do_setenv0_plain [OF env name _ gives_call [of _ name vo], of "bytes ''setenv''"]
    unfolding setenv_def vals_def by fastforce
qed

lemma value_of_single [simp]: "value_of [v] = v"
  by (simp add: value_of_Cons)

lemma env_room_holds:
  "env_holds bo st vs \<Longrightarrow>
   env_room bo st name val \<longleftrightarrow> length (env_bytes (others name vs @ [(name, val)])) \<le> ENV_SIZE bo"
  using env_holds_unique unfolding env_room_def by blast

lemma setenv_lookup:
  assumes ok: "\<exists>vs. env_holds bo st vs" and name: "plain name" and val: "\<forall>v. vo = Some v \<longrightarrow> 0 \<notin> set v"
  shows "\<exists>st'. setenv bo name vo st = Some st' \<and> (\<exists>vs. env_holds bo st' vs) \<and>
    (\<forall>n. plain n \<longrightarrow> env_value (ENV_SIZE bo) (en_env st') n =
       ((\<lambda>n. env_value (ENV_SIZE bo) (en_env st) n)
         (name := case vo of None \<Rightarrow> None | Some v \<Rightarrow> if env_room bo st name v then Some v else None)) n)"
proof -
  obtain vs where vs: "env_holds bo st vs" using ok by blast
  obtain r st' where st': "setenv bo name vo st = Some st'"
    "env_holds bo st' (snd (set_result (ENV_SIZE bo) name (case vo of None \<Rightarrow> [] | Some v \<Rightarrow> [v]) vs))"
    using setenv_steps [OF vs name val] by (auto simp: set_post_def)
  show ?thesis
  proof (intro exI conjI allI impI, rule st'(1), rule st'(2))
    fix n assume n: "plain n"
    then have good: "good_name n" by (simp add: plain_def)
    show "env_value (ENV_SIZE bo) (en_env st') n =
       ((\<lambda>n. env_value (ENV_SIZE bo) (en_env st) n)
         (name := case vo of None \<Rightarrow> None | Some v \<Rightarrow> if env_room bo st name v then Some v else None)) n"
      by (cases vo) (simp_all add: env_value_map_of [OF st'(2) good] env_value_map_of [OF vs good]
          map_of_set_result env_room_holds [OF vs])
  qed
qed

interpretation ev: var_store "\<lambda>st. \<exists>vs. env_holds bo st vs" plain "\<lambda>v. 0 \<notin> set v" "env_room bo"
    "\<lambda>st. env_value (ENV_SIZE bo) (en_env st)" "setenv bo" for bo
proof (unfold_locales, goal_cases)
  case (1 st name v)
  then show ?case using setenv_lookup [of bo st name "Some v"] by simp
next
  case (2 st name)
  then show ?case using setenv_lookup [of bo st name None] by simp
qed

text \<open>A run of calls of \<open>setenv\<close>.\<close>

primrec setenvs :: "'c board \<Rightarrow> (byte list \<times> byte list option) list \<Rightarrow> 'c env_state \<Rightarrow> 'c env_state option" where
  "setenvs bo [] st = Some st"
| "setenvs bo (u # us) st = Option.bind (setenv bo (fst u) (snd u) st) (setenvs bo us)"

lemma setenvs_updates: "setenvs bo us st = ev.updates bo us st"
  by (induction us arbitrary: st) (simp_all cong: bind_option_cong)

section \<open>Properties\<close>

lemma do_setenv_gives: "gives argv name vals \<Longrightarrow> do_setenv bo usage argv st = do_setenv0 bo argv st"
  by (auto simp: gives_def do_setenv_def arg_def split: if_splits)

text \<open>A board and a block for the witnesses: 64 bytes with the variables \<open>a=1\<close> and \<open>ip=10\<close>.\<close>

definition board0 :: "unit board" where
  "board0 = \<lparr>ENV_SIZE = 64, baudrate_table = [9600, 115200], console_assign = \<lambda>_ _ c. (0, c), htonl = id\<rparr>"

definition vars0 :: "var list" where
  "vars0 = [(bytes ''a'', bytes ''1''), (bytes ''ip'', bytes ''10'')]"

definition state0 :: "unit env_state" where
  "state0 = env_crc_update board0
     \<lparr>en_env = write_bytes (\<lambda>_. 0xFF) 0 (env_bytes vars0), en_crc = 0, en_in = [13], en_out = [],
      en_console = (), en_baudrate = 9600, en_enetaddr = [], en_ip_addr = 0, en_load_addr = 0, en_bootfile = []\<rparr>"

lemma size0: "ENV_SIZE board0 = 64"
  by (simp add: board0_def)

lemma state0_holds: "env_holds board0 state0 vars0"
  by (simp add: env_holds_def state0_def env_crc_update_def holds_write)
    (simp add: board0_def vars0_def env_bytes_def good_var_def good_name_def)

lemma state0_crc: "crc_ok board0 state0"
  by (simp add: state0_def env_crc_update_def crc_ok_def)

text \<open>
  C3. \<open>do_setenv\<close> on a plain variable always returns. Without a value it deletes the variable; with
  values it deletes the old definition and, if the new one fits into \<open>ENV_SIZE\<close> bytes, appends
  \<open>name=values\<close> with spaces between the values and returns 0 with the checksum brought up to date;
  if it does not fit the variable stays deleted, 1 is returned and the old checksum is kept. No byte
  behind the block is written.
\<close>

theorem do_setenv_correct:
  assumes "env_holds bo st vs" "plain name" "\<forall>v \<in> set vals. 0 \<notin> set v" "gives argv name vals"
  shows "\<exists>r st'. do_setenv bo usage argv st = Some (r, st') \<and>
    r = fst (set_result (ENV_SIZE bo) name vals vs) \<and>
      env_holds bo st' (snd (set_result (ENV_SIZE bo) name vals vs)) \<and>
      (if r = 0 then crc_ok bo st' else en_crc st' = en_crc st) \<and>
      (\<forall>i \<ge> ENV_SIZE bo. en_env st' i = en_env st i)"
  using do_setenv0_plain [OF assms] unfolding do_setenv_gives [OF assms(4)] set_post_def by blast

theorem do_setenv_correct_witness:
  "\<exists>r st'. do_setenv board0 [] (set_args [] (bytes ''a'') [bytes ''2'', bytes ''3'']) state0 = Some (r, st') \<and> r = 0 \<and>
     env_holds board0 st' [(bytes ''ip'', bytes ''10''), (bytes ''a'', bytes ''2 3'')] \<and> crc_ok board0 st'"
proof -
  have res: "set_result 64 (bytes ''a'') [bytes ''2'', bytes ''3''] vars0 =
      (0, [(bytes ''ip'', bytes ''10''), (bytes ''a'', bytes ''2 3'')])"
    by (simp add: set_result_def others_def vars0_def value_of_Cons env_bytes_def Let_def)
  have "plain (bytes ''a'')" "\<forall>v \<in> set [bytes ''2'', bytes ''3'']. 0 \<notin> set v"
    by (simp_all add: plain_def good_name_def)
  from do_setenv_correct [OF state0_holds this gives_set_args, of "[]" "[]"] show ?thesis
    unfolding size0 res by auto
qed

text \<open>
  C10. Invariant of the environment, for every name, also one with \<open>=\<close> in it, and every outcome: after
  \<open>do_setenv\<close> the block holds variables with distinct names within \<open>ENV_SIZE\<close> bytes, nothing behind it
  has changed, and when 0 is returned its checksum is right. It fails to return only for an existing
  \<open>baudrate\<close> (with no value, when NULL is followed, or when no carriage return comes) and for a call
  that gives NULL for an existing \<open>stdin\<close>, \<open>stdout\<close> or \<open>stderr\<close>.
\<close>

theorem do_setenv_invariant:
  assumes "env_holds bo st vs" "0 \<notin> set name" "\<forall>v \<in> set vals. 0 \<notin> set v" "gives argv name vals"
  shows "case do_setenv bo usage argv st of
      Some (r, st') \<Rightarrow> (\<exists>vs'. env_holds bo st' vs') \<and> (\<forall>i \<ge> ENV_SIZE bo. en_env st' i = en_env st i) \<and>
        (r = 0 \<longrightarrow> crc_ok bo st')
    | None \<Rightarrow> name \<in> fst ` set vs \<and>
        (name = bytes ''baudrate'' \<and> (vals = [] \<or> 13 \<notin> set (en_in st)) \<or>
         name \<in> {bytes ''stdin'', bytes ''stdout'', bytes ''stderr''} \<and> vals = [] \<and> 3 \<le> length argv)"
proof -
  note steps = do_setenv0_key [OF assms] and none = setenv_checks_None [OF _ assms(4), of bo st]
  have key: "key_of name = name" if "name = bytes ''baudrate'' \<or> name \<in> {bytes ''stdin'', bytes ''stdout'', bytes ''stderr''}"
    using that by (intro key_of_good) (auto simp: good_name_def)
  show ?thesis
  proof (cases "do_setenv0 bo argv st")
    case None
    then have "key_of name \<in> fst ` set vs" "setenv_checks bo argv name st = None"
      using steps by (auto split: option.splits sum.splits if_splits)
    moreover from none [OF this(2)] this(1) have "name \<in> fst ` set vs" using key by metis
    ultimately show ?thesis using none None unfolding do_setenv_gives [OF assms(4)] by simp
  next
    case (Some a)
    obtain r st' where a: "a = (r, st')" by fastforce
    have "(\<exists>vs'. env_holds bo st' vs') \<and> (\<forall>i \<ge> ENV_SIZE bo. en_env st' i = en_env st i) \<and> (r = 0 \<longrightarrow> crc_ok bo st')"
    proof (cases "set_post bo (key_of name) (value_args name vals) vs st r st'")
      case True
      then show ?thesis by (auto simp: set_post_def)
    next
      case False
      then have "r = 1 \<and> en_env st' = en_env st"
        using steps Some a setenv_checks_frame_error [of bo argv name st r st']
        by (auto split: option.splits sum.splits if_splits)
      then show ?thesis using assms(1) env_holds_frame [of st' st bo] by auto
    qed
    then show ?thesis unfolding do_setenv_gives [OF assms(4)] Some a by simp
  qed
qed

theorem do_setenv_invariant_witness:
  "\<exists>r st'. do_setenv board0 [] (set_args [] (bytes ''a=b'') [bytes ''7'']) state0 = Some (r, st') \<and>
     (\<exists>vs'. env_holds board0 st' vs') \<and> (r = 0 \<longrightarrow> crc_ok board0 st')"
proof -
  have "0 \<notin> set (bytes ''a=b'')" "\<forall>v \<in> set [bytes ''7'']. 0 \<notin> set v" by simp_all
  from do_setenv_invariant [OF state0_holds this gives_set_args, of "[]" "[]"] show ?thesis
    by (auto split: option.splits)
qed

text \<open>
  The protection of \<open>serial#\<close> is by the whole name: \<open>setenv serial#=\<close> deletes it.
\<close>

lemma protection_bypassed:
  assumes "env_holds bo st vs"
  shows "\<exists>st'. do_setenv bo usage (set_args cmd (bytes ''serial#='') []) st = Some (0, st') \<and>
    env_holds bo st' (others (bytes ''serial#'') vs)"
proof -
  let ?n = "bytes ''serial#=''"
  have name: "0 \<notin> set ?n" "\<forall>v \<in> set []. 0 \<notin> set (v :: byte list)" by simp_all
  have "setenv_checks bo argv ?n st = Some (Inr st)" for argv
    by (simp add: setenv_checks_def switch_console_def std_console_def switch_baudrate_def)
  moreover have "key_of ?n = bytes ''serial#''" "value_args ?n [] = []" by (simp_all add: key_of_def value_args_def)
  ultimately show ?thesis
    using do_setenv0_key [OF assms name gives_set_args, of cmd]
    unfolding do_setenv_gives [OF gives_set_args]
    by (auto simp: set_post_def set_result_def split: if_splits)
qed

text \<open>
  What a run of updates makes of a list of variables, on the level of names and values: a deletion
  drops the variable; a value replaces it, at the end, if all the variables then fit, else it only
  drops it.
\<close>

definition vars_size :: "var list \<Rightarrow> nat" where
  "vars_size vs = (\<Sum>v \<leftarrow> vs. length (fst v) + length (snd v) + 2) + 1"

fun vars_after :: "nat \<Rightarrow> (byte list \<times> byte list option) list \<Rightarrow> var list \<Rightarrow> var list" where
  "vars_after n [] vs = vs"
| "vars_after n ((name, None) # us) vs = vars_after n us (filter (\<lambda>v. fst v \<noteq> name) vs)"
| "vars_after n ((name, Some val) # us) vs =
     (let old = filter (\<lambda>v. fst v \<noteq> name) vs
      in vars_after n us (if vars_size (old @ [(name, val)]) \<le> n then old @ [(name, val)] else old))"

definition update_size :: "byte list \<times> byte list option \<Rightarrow> nat" where
  "update_size u = (case snd u of None \<Rightarrow> 0 | Some v \<Rightarrow> length (fst u) + length v + 2)"

lemma vars_size_filter: "vars_size (filter P vs) \<le> vars_size vs"
  by (induction vs) (auto simp: vars_size_def)

lemma vars_size_snoc: "vars_size (vs @ [v]) = vars_size vs + (length (fst v) + length (snd v) + 2)"
  by (simp add: vars_size_def)

lemma set_result_vars:
  "snd (set_result n name (case vo of None \<Rightarrow> [] | Some v \<Rightarrow> [v]) vs) = vars_after n [(name, vo)] vs"
  by (cases vo) (simp_all add: set_result_def others_def Let_def env_bytes_def vars_size_def length_vars_bytes_sum)

lemma vars_after_Cons: "vars_after n (u # us) vs = vars_after n us (vars_after n [u] vs)"
  by (cases u; cases "snd u") (auto simp: Let_def)

lemma setenvs_holds:
  "env_holds bo st vs \<Longrightarrow> \<forall>u \<in> set us. plain (fst u) \<and> (\<forall>v. snd u = Some v \<longrightarrow> 0 \<notin> set v) \<Longrightarrow>
   \<exists>st'. setenvs bo us st = Some st' \<and> env_holds bo st' (vars_after (ENV_SIZE bo) us vs)"
proof (induction us arbitrary: st vs)
  case (Cons u us)
  obtain r st1 where st1: "setenv bo (fst u) (snd u) st = Some st1"
    "env_holds bo st1 (vars_after (ENV_SIZE bo) [u] vs)"
    using setenv_steps [OF Cons.prems(1), of "fst u" "snd u"] Cons.prems(2) set_result_vars [of "ENV_SIZE bo" "fst u" "snd u" vs]
    by (auto simp: set_post_def)
  then show ?case using Cons.IH [OF st1(2)] Cons.prems(2) by (simp add: vars_after_Cons [of _ u us])
qed simp

lemma vars_after_fits:
  "vars_size vs + (\<Sum>u \<leftarrow> us. update_size u) \<le> n \<Longrightarrow>
   map_of (vars_after n us vs) = foldl (\<lambda>m u. m(fst u := snd u)) (map_of vs) us"
proof (induction us arbitrary: vs)
  case (Cons u us)
  have f: "map_of (filter (\<lambda>v. fst v \<noteq> k) vs) = (map_of vs)(k := None)" for k
    using map_of_others [of k vs] by (simp add: others_def)
  have g: "map_of (filter (\<lambda>v. fst v \<noteq> k) vs @ [(k, v)]) = (map_of vs)(k := Some v)" for k v
    by (rule ext) (auto simp: map_add_def f split: option.splits)
  obtain name vo where u: "u = (name, vo)" by fastforce
  let ?old = "filter (\<lambda>v. fst v \<noteq> name) vs"
  note le = vars_size_filter [of "\<lambda>v. fst v \<noteq> name" vs]
  show ?case
  proof (cases vo)
    case None
    then have "vars_size ?old + (\<Sum>u \<leftarrow> us. update_size u) \<le> n"
      using Cons.prems le by (simp add: u update_size_def)
    then show ?thesis
      using Cons.IH [of ?old] by (simp only: u None vars_after.simps f foldl.simps fst_conv snd_conv)
  next
    case (Some v)
    have "vars_size (?old @ [(name, v)]) + (\<Sum>u \<leftarrow> us. update_size u) \<le> n"
      using Cons.prems le by (simp add: u Some vars_size_snoc update_size_def)
    moreover from this have "(vars_size (?old @ [(name, v)]) \<le> n) = True" by simp
    ultimately show ?thesis
      using Cons.IH [of "?old @ [(name, v)]"] by (simp only: u Some vars_after.simps Let_def if_True g foldl.simps fst_conv snd_conv)
  qed
qed simp

text \<open>
  C7. The environment refines a finite map: a run of calls of \<open>setenv\<close> on plain variables always
  returns, and the block then holds exactly the variables that the updates give (deleted, replaced,
  or dropped where the new value did not fit at that moment), which is what \<open>getenv\<close> finds. When all
  the values together fit, \<open>getenv\<close> finds what it would find in the map updated once for each call.
\<close>

theorem setenv_run_refines_map:
  assumes "env_holds bo st vs" "\<forall>u \<in> set us. plain (fst u) \<and> (\<forall>v. snd u = Some v \<longrightarrow> 0 \<notin> set v)"
  shows "\<exists>st'. setenvs bo us st = Some st' \<and> env_holds bo st' (vars_after (ENV_SIZE bo) us vs) \<and>
    (\<forall>name. good_name name \<longrightarrow>
      env_value (ENV_SIZE bo) (en_env st') name = map_of (vars_after (ENV_SIZE bo) us vs) name \<and>
      (vars_size vs + (\<Sum>u \<leftarrow> us. update_size u) \<le> ENV_SIZE bo \<longrightarrow>
       env_value (ENV_SIZE bo) (en_env st') name = foldl (\<lambda>m u. m(fst u := snd u)) (map_of vs) us name))"
proof -
  obtain st' where st': "setenvs bo us st = Some st'" "env_holds bo st' (vars_after (ENV_SIZE bo) us vs)"
    using setenvs_holds [OF assms] by blast
  then show ?thesis using env_value_map_of [OF st'(2)] vars_after_fits [of vs us "ENV_SIZE bo"] by auto
qed

theorem setenv_run_refines_map_witness:
  "\<exists>st'. setenvs board0 [(bytes ''a'', None), (bytes ''ip'', Some (bytes ''7'')), (bytes ''b'', Some (bytes ''x''))] state0 = Some st' \<and>
     env_value 64 (en_env st') (bytes ''a'') = None \<and> env_value 64 (en_env st') (bytes ''ip'') = Some (bytes ''7'') \<and>
     env_value 64 (en_env st') (bytes ''b'') = Some (bytes ''x'')"
proof -
  let ?us = "[(bytes ''a'', None), (bytes ''ip'', Some (bytes ''7'')), (bytes ''b'', Some (bytes ''x''))]"
  have "\<forall>u \<in> set ?us. plain (fst u) \<and> (\<forall>v. snd u = Some v \<longrightarrow> 0 \<notin> set v)" by (simp add: plain_def good_name_def)
  from setenv_run_refines_map [OF state0_holds this] obtain st' where st': "setenvs board0 ?us state0 = Some st'"
    "\<forall>name. good_name name \<longrightarrow> vars_size vars0 + (\<Sum>u \<leftarrow> ?us. update_size u) \<le> 64 \<longrightarrow>
       env_value 64 (en_env st') name = foldl (\<lambda>m u. m(fst u := snd u)) (map_of vars0) ?us name"
    unfolding size0 by blast
  moreover have "vars_size vars0 + (\<Sum>u \<leftarrow> ?us. update_size u) \<le> 64"
    by (simp add: vars_size_def update_size_def vars0_def)
  moreover have "good_name (bytes ''a'')" "good_name (bytes ''ip'')" "good_name (bytes ''b'')"
    by (simp_all add: good_name_def)
  ultimately show ?thesis by (intro exI [of _ st']) auto
qed

text \<open>
  \<open>getenv_r\<close> copies the value of a variable with its NUL and returns their number if the
  buffer is longer than that. If the buffer has exactly their length one byte is written behind
  it, and if it is shorter the copy has no NUL and the length of the buffer plus one is returned.
\<close>

theorem getenv_r_correct:
  assumes "env_holds bo st vs" "good_name name" "ENV_SIZE bo \<le> n"
  shows "getenv_r n (en_env st) name len = Some
    (case map_of vs name of
       None \<Rightarrow> (-1, [])
     | Some val \<Rightarrow>
         if len > length val + 1 then (int (length val + 1), val @ [0])
         else if len = length val + 1 then (int (length val + 1), val @ [0, 0])
         else (int (len + 1), take len val))"
  by (rule getenv_r_map_of [OF assms])

theorem getenv_r_correct_witness:
  "getenv_r 70 (en_env state0) (bytes ''ip'') 3 = Some (3, bytes ''10'' @ [0, 0])"
  using getenv_r_correct [OF state0_holds, of "bytes ''ip''" 70 3]
  by (simp add: good_name_def board0_def vars0_def)

text \<open>
  \<open>printenv\<close> without arguments that is not interrupted prints every variable on a line of its
  own and the number of bytes in use; with the names of variables it prints those, and returns 0.
\<close>

theorem do_printenv_correct:
  assumes "env_holds bo st vs" "\<forall>k. \<not> ctrlc k" "\<forall>name \<in> set names. good_name name \<and> name \<in> fst ` set vs"
  shows "do_printenv bo ctrlc names st = Some (0, st\<lparr>en_out :=
    if names = []
    then printf (nl @ ''Environment size: %d/%d bytes'' @ nl)
           [ArgInt (of_nat (length (vars_bytes vs))), ArgInt (of_nat (ENV_SIZE bo))] (en_out st @ concat (map shown vs))
    else en_out st @ concat (map (\<lambda>name. shown (name, the (map_of vs name))) names)\<rparr>)"
proof (cases "names = []")
  case True
  have "holds (en_env st) 0 (vars_bytes vs @ [0])" "\<forall>v \<in> set vs. good_var v"
    using assms(1) holds_env_bytes_start [of "en_env st" vs] unfolding env_holds_def by blast+
  from print_all_holds [OF this assms(2)] True show ?thesis by (simp add: do_printenv_def del: append_assoc)
next
  case False
  then show ?thesis using print_vars_holds [OF assms(1,3)] by (simp add: do_printenv_def)
qed

theorem do_printenv_correct_witness:
  "do_printenv board0 (\<lambda>_. False) [bytes ''ip''] state0 = Some (0, state0\<lparr>en_out := bytes (''ip=10'' @ nl)\<rparr>)"
  using do_printenv_correct [OF state0_holds, of "\<lambda>_. False" "[bytes ''ip'']"]
  by (simp add: good_name_def vars0_def shown_def state0_def env_crc_update_def)


lemma read_bytes_split2: "2 \<le> n \<Longrightarrow> read_bytes env 0 n = [env 0, env 1] @ read_bytes env 2 (n - 2)"
  by (cases n; cases "n - 1") (auto simp: read_bytes_Suc numeral_2_eq_2)

lemma crc32_clear_start:
  assumes "2 \<le> n" "env 0 \<noteq> 0"
  shows "crc32 (env(0 := 0, 1 := 0)) c 0 n \<noteq> crc32 env c 0 n"
proof -
  let ?env = "env(0 := 0, 1 := 0)"
  have "read_bytes ?env 2 (n - 2) = read_bytes env 2 (n - 2)" by (auto simp: read_bytes_def)
  then show ?thesis
    using c32.detects_burst [of "[0, 0]" "[env 0, env 1]" "c XOR 0xffffffff" "[]" "read_bytes env 2 (n - 2)"] assms
    by (simp add: crc32_run read_bytes_split2 [OF assms(1)])
qed

text \<open>
  C36. The return for an overflow comes before the update of the checksum, but after the deletion:
  when the only variable is to get a value that does not fit, \<open>do_setenv\<close> returns 1 and leaves an
  empty block whose checksum is wrong.
\<close>

theorem do_setenv_overflow_checksum:
  assumes env: "env_holds bo st [(name, val)]" and "crc_ok bo st" and name: "plain name"
    and vals: "vals \<noteq> []" "\<forall>v \<in> set vals. 0 \<notin> set v"
    and over: "ENV_SIZE bo < length (env_bytes [(name, value_of vals)])"
  shows "\<exists>st'. do_setenv bo usage (set_args cmd name vals) st = Some (1, st') \<and>
    env_holds bo st' [] \<and> \<not> crc_ok bo st'"
proof -
  let ?argv = "set_args cmd name vals"
  have good: "good_name name" using name by (simp add: plain_def)
  have find: "find_var (en_env st) name 0 = Some (0, length name + length val + 1, int (length name + 1))"
    using find_var_env(2) [OF env good, of "[]" val "[]"] by simp
  have image: "holds (en_env st) 0 (entry (name, val) @ [0])" "good_var (name, val)"
    using env by (simp_all add: env_holds_def env_bytes_def)
  then have start: "en_env st 0 \<noteq> 0" by (intro holds_entry_start [of _ 0 "(name, val)"]) (simp_all add: holds_append)
  let ?env = "(en_env st)(0 := 0, 1 := 0)"
  have del: "delete_var (en_env st) 0 (length name + length val + 1) = Some ?env"
    using image by (simp add: delete_var_def Let_def holds_append)
  have size: "2 \<le> ENV_SIZE bo" using env by (simp add: env_holds_def env_bytes_def)
  have empty: "env_holds bo (st\<lparr>en_env := ?env\<rparr>) []" using size by (simp add: env_holds_def env_bytes_def)
  have app: "append_var (ENV_SIZE bo) ?env name vals = Some (Inl ())"
    using append_var_holds [of ?env "[]" vals "ENV_SIZE bo" name] vals(1) over by (simp add: env_bytes_def)
  obtain out where "do_setenv0 bo ?argv st = Some (1, st\<lparr>en_env := ?env, en_out := out\<rparr>)"
    using setenv_checks_plain [OF name, of bo ?argv st] gives_vals [OF gives_set_args [of cmd name vals]] vals(1) app del
    by (simp add: do_setenv0_def gives_name [OF gives_set_args] find setenv_tail_def Let_def)
  then have "do_setenv bo usage ?argv st = Some (1, st\<lparr>en_env := ?env, en_out := out\<rparr>)"
    unfolding do_setenv_gives [OF gives_set_args] .
  moreover have "env_holds bo (st\<lparr>en_env := ?env, en_out := out\<rparr>) []" using empty by (simp add: env_holds_def)
  moreover have "\<not> crc_ok bo (st\<lparr>en_env := ?env, en_out := out\<rparr>)"
    using crc32_clear_start [of _ "en_env st" 0, OF size start] assms(2) by (simp add: crc_ok_def)
  ultimately show ?thesis by blast
qed

definition state1 :: "unit env_state" where
  "state1 = env_crc_update board0 (state0\<lparr>en_env := write_bytes (\<lambda>_. 0xFF) 0 (env_bytes [(bytes ''a'', bytes ''1'')])\<rparr>)"

theorem do_setenv_overflow_checksum_witness:
  "\<exists>st'. do_setenv board0 [] (set_args [] (bytes ''a'') [replicate 61 1]) state1 = Some (1, st') \<and> \<not> crc_ok board0 st'"
proof -
  have "env_holds board0 state1 [(bytes ''a'', bytes ''1'')]"
    by (simp add: env_holds_def state1_def env_crc_update_def holds_write)
      (simp add: board0_def env_bytes_def good_var_def good_name_def)
  moreover have "crc_ok board0 state1" by (simp add: state1_def env_crc_update_def crc_ok_def)
  moreover have "plain (bytes ''a'')" "[replicate 61 (1 :: byte)] \<noteq> []" "\<forall>v \<in> set [replicate 61 (1 :: byte)]. 0 \<notin> set v"
    by (simp_all add: plain_def good_name_def)
  moreover have "ENV_SIZE board0 < length (env_bytes [(bytes ''a'', value_of [replicate 61 1])])"
    by (simp add: size0 env_bytes_def)
  ultimately show ?thesis using do_setenv_overflow_checksum by blast
qed

end
