(* ===== verification/NetHdr.thy ===== *)
theory NetHdr imports CmdLoad begin

text \<open>
  Addresses and packet headers: the byte order and layout of \<open>include/net.h\<close>, the checksum of the
  Internet protocol, and the text form of addresses, from \<open>net/net.c\<close>. The host is big-endian (as
  the MIPS and PowerPC ports are), so \<open>htons\<close>, \<open>ntohs\<close>, \<open>htonl\<close> and \<open>ntohl\<close> are the
  identity and do not appear; a header field is read and written at its offset in the structure.
\<close>

section \<open>Fields\<close>

definition be16 :: "u16 \<Rightarrow> byte list" where
  "be16 x = [ucast (drop_bit 8 x), ucast x]"

definition be32 :: "u32 \<Rightarrow> byte list" where
  "be32 x = [ucast (drop_bit 24 x), ucast (drop_bit 16 x), ucast (drop_bit 8 x), ucast x]"

definition rd16 :: "mem \<Rightarrow> nat \<Rightarrow> u16" where
  "rd16 m p = push_bit 8 (ucast (m p)) OR ucast (m (p + 1))"

definition NetReadIP :: "mem \<Rightarrow> nat \<Rightarrow> u32" where
  "NetReadIP m p =
     push_bit 24 (ucast (m p)) OR push_bit 16 (ucast (m (p + 1))) OR push_bit 8 (ucast (m (p + 2))) OR
     ucast (m (p + 3))"

definition NetWriteIP :: "mem \<Rightarrow> nat \<Rightarrow> u32 \<Rightarrow> mem" where
  "NetWriteIP m p ip = write_bytes m p (be32 ip)"

definition NetCopyIP :: "mem \<Rightarrow> nat \<Rightarrow> nat \<Rightarrow> mem" where
  "NetCopyIP m d s = write_bytes m d (read_bytes m s 4)"

section \<open>Constants\<close>

definition ETHER_HDR_SIZE :: nat where "ETHER_HDR_SIZE = 14"
definition E802_HDR_SIZE :: nat where "E802_HDR_SIZE = 22"
definition VLAN_ETHER_HDR_SIZE :: nat where "VLAN_ETHER_HDR_SIZE = 18"
definition PROT_IP :: u16 where "PROT_IP = 0x0800"
definition PROT_ARP :: u16 where "PROT_ARP = 0x0806"
definition PROT_RARP :: u16 where "PROT_RARP = 0x8035"
definition PROT_VLAN :: u16 where "PROT_VLAN = 0x8100"
definition IPPROTO_ICMP :: byte where "IPPROTO_ICMP = 1"
definition IPPROTO_UDP :: byte where "IPPROTO_UDP = 17"
definition IP_HDR_SIZE_NO_UDP :: nat where "IP_HDR_SIZE_NO_UDP = 20"
definition IP_HDR_SIZE :: nat where "IP_HDR_SIZE = 28"
definition ARP_ETHER :: u16 where "ARP_ETHER = 1"
definition ARPOP_REQUEST :: u16 where "ARPOP_REQUEST = 1"
definition ARPOP_REPLY :: u16 where "ARPOP_REPLY = 2"
definition RARPOP_REPLY :: u16 where "RARPOP_REPLY = 4"
definition ARP_HDR_SIZE :: nat where "ARP_HDR_SIZE = 28"
definition ICMP_ECHO_REPLY :: byte where "ICMP_ECHO_REPLY = 0"
definition ICMP_REDIRECT :: byte where "ICMP_REDIRECT = 5"
definition ICMP_REDIR_HOST :: byte where "ICMP_REDIR_HOST = 1"
definition VLAN_NONE :: u16 where "VLAN_NONE = 4095"
definition VLAN_IDMASK :: u16 where "VLAN_IDMASK = 0x0fff"

lemmas net_consts =
  ETHER_HDR_SIZE_def E802_HDR_SIZE_def VLAN_ETHER_HDR_SIZE_def PROT_IP_def PROT_ARP_def PROT_RARP_def
  PROT_VLAN_def IPPROTO_ICMP_def IPPROTO_UDP_def IP_HDR_SIZE_NO_UDP_def IP_HDR_SIZE_def ARP_ETHER_def
  ARPOP_REQUEST_def ARPOP_REPLY_def RARPOP_REPLY_def ARP_HDR_SIZE_def ICMP_ECHO_REPLY_def
  ICMP_REDIRECT_def ICMP_REDIR_HOST_def VLAN_NONE_def VLAN_IDMASK_def

text \<open>Offsets of the fields: \<open>Ethernet_t\<close>, \<open>VLAN_Ethernet_t\<close>, \<open>IP_t\<close>, \<open>ARP_t\<close>, \<open>ICMP_t\<close>.\<close>

definition et_src :: nat where "et_src = 6"
definition et_protlen :: nat where "et_protlen = 12"
definition et_prot :: nat where "et_prot = 20"
definition vet_tag :: nat where "vet_tag = 14"
definition vet_type :: nat where "vet_type = 16"
definition ip_hl_v :: nat where "ip_hl_v = 0"
definition ip_len :: nat where "ip_len = 2"
definition ip_off :: nat where "ip_off = 6"
definition ip_p :: nat where "ip_p = 9"
definition ip_sum :: nat where "ip_sum = 10"
definition ip_src :: nat where "ip_src = 12"
definition ip_dst :: nat where "ip_dst = 16"
definition udp_src :: nat where "udp_src = 20"
definition udp_dst :: nat where "udp_dst = 22"
definition udp_len :: nat where "udp_len = 24"
definition ar_hrd :: nat where "ar_hrd = 0"
definition ar_pro :: nat where "ar_pro = 2"
definition ar_hln :: nat where "ar_hln = 4"
definition ar_pln :: nat where "ar_pln = 5"
definition ar_op :: nat where "ar_op = 6"
definition ar_data :: nat where "ar_data = 8"
definition icmp_code :: nat where "icmp_code = 1"
definition icmp_gateway :: nat where "icmp_gateway = 4"

lemmas net_offsets =
  et_src_def et_protlen_def et_prot_def vet_tag_def vet_type_def ip_hl_v_def ip_len_def ip_off_def ip_p_def
  ip_sum_def ip_src_def ip_dst_def udp_src_def udp_dst_def udp_len_def ar_hrd_def ar_pro_def ar_hln_def
  ar_pln_def ar_op_def ar_data_def icmp_code_def icmp_gateway_def

section \<open>Checksum\<close>

primrec cksum_loop :: "nat \<Rightarrow> mem \<Rightarrow> nat \<Rightarrow> u32 \<Rightarrow> u32" where
  "cksum_loop 0 m p xsum = xsum"
| "cksum_loop (Suc len) m p xsum = cksum_loop len m (p + 2) (xsum + ucast (rd16 m p))"

definition NetCksum :: "mem \<Rightarrow> nat \<Rightarrow> nat \<Rightarrow> u32" where
  "NetCksum m ptr len =
     (let xsum = cksum_loop len m ptr 0;
          xsum = (xsum AND 0xffff) + drop_bit 16 xsum;
          xsum = (xsum AND 0xffff) + drop_bit 16 xsum
      in xsum AND 0xffff)"

definition NetCksumOk :: "mem \<Rightarrow> nat \<Rightarrow> nat \<Rightarrow> bool" where
  "NetCksumOk m ptr len \<longleftrightarrow> (NetCksum m ptr len + 1) AND 0xfffe = 0"

section \<open>Text form of addresses\<close>

definition ip_to_string :: "u32 \<Rightarrow> byte list option" where
  "ip_to_string x =
     sprintf ''%d.%d.%d.%d''
       [ArgInt (drop_bit 24 x AND 0xff), ArgInt (drop_bit 16 x AND 0xff), ArgInt (drop_bit 8 x AND 0xff),
        ArgInt (x AND 0xff)]"

primrec string_to_ip_loop :: "nat \<Rightarrow> byte list \<Rightarrow> u32 \<Rightarrow> u32" where
  "string_to_ip_loop 0 s addr = addr"
| "string_to_ip_loop (Suc n) s addr =
     (case simple_strtoul s 10 of (val, e) \<Rightarrow>
        string_to_ip_loop n (tl e) (push_bit 8 addr OR (val AND 0xFF)))"

text \<open>\<open>None\<close> is a NULL argument.\<close>

definition string_to_ip :: "byte list option \<Rightarrow> u32" where
  "string_to_ip so = (case so of None \<Rightarrow> 0 | Some s \<Rightarrow> string_to_ip_loop 4 s 0)"

definition VLAN_to_string :: "u16 \<Rightarrow> byte list option" where
  "VLAN_to_string x =
     (let x = (if x = -1 then VLAN_NONE else x) in
      if x = VLAN_NONE then Some (bytes ''none'') else sprintf ''%d'' [ArgInt (ucast (x AND VLAN_IDMASK))])"

definition string_to_VLAN :: "byte list option \<Rightarrow> u16" where
  "string_to_VLAN so =
     (case so of None \<Rightarrow> VLAN_NONE
      | Some s \<Rightarrow>
          if sint (peek s) < 48 \<or> sint (peek s) > 57 then VLAN_NONE else ucast (fst (simple_strtoul s 10)))"

definition print_IPaddr :: "u32 \<Rightarrow> byte list \<Rightarrow> byte list" where
  "print_IPaddr x out = (case ip_to_string x of None \<Rightarrow> out | Some tmp \<Rightarrow> out @ tmp)"

section \<open>Reading what was written\<close>

lemma length_be [simp]: "length (be16 x) = 2" "length (be32 y) = 4"
  by (simp_all add: be16_def be32_def)

lemma rd16_be16: "read_bytes m p 2 = be16 v \<Longrightarrow> rd16 m p = v"
  by (simp add: rd16_def be16_def read_bytes_def upt_rec)
    (rule bit_word_eqI, auto simp: bit_simps)

lemma NetReadIP_be32:
  assumes "read_bytes m p 4 = be32 v"
  shows "NetReadIP m p = v"
proof -
  have "m (p + i) = be32 v ! i" if "i < 4" for i using arg_cong [OF assms, of "\<lambda>xs. xs ! i"] that by simp
  from this [of 0] this [of 1] this [of 2] this [of 3]
  have b: "m p = ucast (drop_bit 24 v)" "m (p + 1) = ucast (drop_bit 16 v)" "m (p + 2) = ucast (drop_bit 8 v)"
    "m (p + 3) = ucast v" by (simp_all add: be32_def)
  have "bit (NetReadIP m p) i = bit v i" if "i < 32" for i
  proof -
    consider "i < 8" | "8 \<le> i" "i < 16" | "16 \<le> i" "i < 24" | "24 \<le> i" using that by linarith
    then show ?thesis unfolding NetReadIP_def b using that by cases (auto simp: bit_simps)
  qed
  then show ?thesis by (intro bit_word_eqI) simp
qed

lemma write_bytes_over_mid:
  "length ys = length ys' \<Longrightarrow>
   write_bytes (write_bytes m p (xs @ ys @ zs)) (p + length xs) ys' = write_bytes m p (xs @ ys' @ zs)"
  by (rule ext) (auto simp: write_bytes_apply nth_append)

lemma read_bytes_drop_take:
  "read_bytes m p n = xs \<Longrightarrow> i + k \<le> n \<Longrightarrow> read_bytes m (p + i) k = take k (drop i xs)"
  by (rule nth_equalityI) (auto simp: add.assoc)

lemma read_bytes_nth: "read_bytes m p n = xs \<Longrightarrow> i < n \<Longrightarrow> m (p + i) = xs ! i"
  by auto

section \<open>The checksum as arithmetic\<close>

definition sum16 :: "mem \<Rightarrow> nat \<Rightarrow> nat \<Rightarrow> nat" where
  "sum16 m p len = (\<Sum>i < len. unat (rd16 m (p + 2 * i)))"

lemma sum16_Suc: "sum16 m p (Suc len) = unat (rd16 m p) + sum16 m (p + 2) len"
  by (simp add: sum16_def sum.lessThan_Suc_shift add.assoc del: sum.lessThan_Suc)

lemma unat_u16: "unat (x :: u16) \<le> 65535"
  using unsigned_less [of x, where ?'a = nat] by simp

lemma sum16_le: "sum16 m p len \<le> len * 65535"
  unfolding sum16_def using sum_bounded_above [of "{..<len}" "\<lambda>i. unat (rd16 m (p + 2 * i))" 65535] unat_u16 by simp

lemma cksum_loop_sum:
  "unat xsum + sum16 m p len < 2 ^ 32 \<Longrightarrow> unat (cksum_loop len m p xsum) = unat xsum + sum16 m p len"
proof (induction len arbitrary: p xsum)
  case 0
  then show ?case by (simp add: sum16_def)
next
  case (Suc len)
  have small: "unat (ucast (rd16 m p) :: u32) = unat (rd16 m p)"
    using unat_u16 [of "rd16 m p"] by (simp add: unsigned_ucast_eq take_bit_nat_eq_self)
  have "unat (xsum + ucast (rd16 m p)) = unat xsum + unat (rd16 m p)"
    using Suc.prems unfolding sum16_Suc by (subst unat_add_lem [THEN iffD1]) (simp_all add: small)
  then show ?case using Suc.IH [of "xsum + ucast (rd16 m p)" "p + 2"] Suc.prems by (simp add: sum16_Suc)
qed

definition fold16 :: "nat \<Rightarrow> nat" where
  "fold16 s = s mod 65536 + s div 65536"

lemma and_ffff: "unat ((x :: u32) AND 0xffff) = unat x mod 65536"
proof -
  have "x AND 0xffff = take_bit 16 x" by (simp add: take_bit_eq_mask mask_eq_exp_minus_1)
  moreover have "unat (take_bit 16 x) = take_bit 16 (unat x)" by (rule unsigned_take_bit_eq)
  moreover have "take_bit 16 (unat x) = unat x mod 65536" by (simp add: take_bit_eq_mod)
  ultimately show ?thesis by simp
qed

lemma fold16_word: "unat ((x AND 0xffff) + drop_bit 16 (x :: u32)) = fold16 (unat x)"
proof -
  have "unat x < 4294967296" using unsigned_less [of x, where ?'a = nat] by simp
  then have hi: "unat x div 65536 < 65536" by (simp add: less_mult_imp_div_less)
  have "unat (drop_bit 16 x) = drop_bit 16 (unat x)" by (rule unat_drop_bit_eq)
  then have "unat (drop_bit 16 x) = unat x div 65536" by (simp add: drop_bit_eq_div)
  moreover have "unat x mod 65536 < 65536" by simp
  ultimately show ?thesis
    unfolding fold16_def using hi by (subst unat_add_lem [THEN iffD1]) (simp_all add: and_ffff)
qed

lemma fold16_eq_0: "fold16 n = 0 \<longleftrightarrow> n = 0"
proof
  assume "fold16 n = 0"
  then have "n mod 65536 = 0" "n div 65536 = 0" by (simp_all add: fold16_def)
  then show "n = 0" using div_mult_mod_eq [of n 65536] by simp
qed (simp add: fold16_def)

lemma fold16_twice:
  assumes "s < 2 ^ 32"
  shows "fold16 (fold16 s) < 65536" "fold16 (fold16 s) mod 65535 = s mod 65535" "fold16 (fold16 s) = 0 \<longleftrightarrow> s = 0"
proof -
  have step: "fold16 n mod 65535 = n mod 65535" for n
  proof -
    have "n = fold16 n + 65535 * (n div 65536)"
      unfolding fold16_def using div_mult_mod_eq [of n 65536] by simp
    then show ?thesis by (metis mod_mult_self2)
  qed
  have "s div 65536 < 65536" using assms by (simp add: less_mult_imp_div_less)
  moreover have "s mod 65536 < 65536" by simp
  ultimately have "fold16 s \<le> 131070" unfolding fold16_def by linarith
  then show "fold16 (fold16 s) < 65536" unfolding fold16_def [of "fold16 s"]
    by (cases "fold16 s < 65536") (auto simp: not_less le_mod_geq le_div_geq)
  show "fold16 (fold16 s) mod 65535 = s mod 65535" by (simp add: step)
  show "fold16 (fold16 s) = 0 \<longleftrightarrow> s = 0" by (simp add: fold16_eq_0)
qed

lemma NetCksum_fold:
  assumes "len \<le> 65536"
  shows "unat (NetCksum m p len) = fold16 (fold16 (sum16 m p len))"
proof -
  have s: "sum16 m p len < 2 ^ 32" using sum16_le [of m p len] assms by simp
  then have "unat (cksum_loop len m p 0) = sum16 m p len" using cksum_loop_sum [of 0 m p len] by simp
  then have "unat (NetCksum m p len) = fold16 (fold16 (sum16 m p len)) mod 65536"
    unfolding NetCksum_def Let_def by (simp only: fold16_word and_ffff)
  then show ?thesis using fold16_twice(1) [OF s] by simp
qed

lemma NetCksumOk_sum:
  assumes "len \<le> 65536" "sum16 m p len mod 65535 = 0"
  shows "NetCksumOk m p len"
proof -
  let ?c = "NetCksum m p len"
  have s: "sum16 m p len < 2 ^ 32" using sum16_le [of m p len] assms(1) by simp
  have "unat ?c < 65536" "unat ?c mod 65535 = 0"
    using fold16_twice(1,2) [OF s] assms(2) by (simp_all add: NetCksum_fold [OF assms(1)])
  moreover have "unat ?c = 0 \<or> unat ?c = 65535" if "unat ?c < 65536" "unat ?c mod 65535 = 0"
    using that by (auto elim!: dvdE)
  ultimately consider "?c = 0" | "?c = 65535" by (auto simp: word_unat_eq_iff)
  then show ?thesis by cases (simp_all add: NetCksumOk_def)
qed

lemma unat_not_u16: "unat (NOT (w :: u16)) = 65535 - unat w"
proof -
  have "NOT w = 65535 - w" by (simp add: not_eq_complement)
  moreover have "w \<le> 65535" using word_le_nat_alt unat_u16 by fastforce
  ultimately show ?thesis by (simp add: unat_sub)
qed

lemma rd16_cong: "m' p = m p \<Longrightarrow> m' (p + 1) = m (p + 1) \<Longrightarrow> rd16 m' p = rd16 m p"
  by (simp add: rd16_def)

text \<open>
  The complement of the checksum, stored where the checksum was taken over a zero, makes the
  checksum right.
\<close>

lemma cksum_inserted:
  assumes k: "k < len" and len: "len \<le> 65536" and zero: "rd16 m (p + 2 * k) = 0"
  defines "m' \<equiv> write_bytes m (p + 2 * k) (be16 (NOT (ucast (NetCksum m p len))))"
  shows "NetCksumOk m' p len"
proof (rule NetCksumOk_sum [OF len])
  let ?s = "sum16 m p len" and ?c = "NetCksum m p len"
  have s: "?s < 2 ^ 32" using sum16_le [of m p len] len by simp
  have c: "unat ?c < 65536" "unat ?c mod 65535 = ?s mod 65535"
    using fold16_twice(1,2) [OF s] by (simp_all add: NetCksum_fold [OF len])
  have "rd16 m' (p + 2 * k) = NOT (ucast ?c)"
    unfolding m'_def by (intro rd16_be16) (metis length_be(1) read_write_bytes)
  moreover have "unat (ucast ?c :: u16) = unat ?c" using c(1) by (simp add: unsigned_ucast_eq take_bit_nat_eq_self)
  ultimately have at_k: "unat (rd16 m' (p + 2 * k)) = 65535 - unat ?c" by (simp add: unat_not_u16)
  have other: "rd16 m' (p + 2 * i) = rd16 m (p + 2 * i)" if "i \<noteq> k" for i
  proof (rule rd16_cong)
    have "p + 2 * i + 1 < p + 2 * k \<or> p + 2 * k + 2 \<le> p + 2 * i" using that by arith
    then show "m' (p + 2 * i) = m (p + 2 * i)" "m' (p + 2 * i + 1) = m (p + 2 * i + 1)"
      unfolding m'_def by (auto intro!: write_bytes_other)
  qed
  have split: "sum16 n p len = unat (rd16 n (p + 2 * k)) + (\<Sum>i \<in> {..<len} - {k}. unat (rd16 n (p + 2 * i)))" for n
    unfolding sum16_def using k by (subst sum.remove [of _ k]) simp_all
  have "sum16 m' p len = ?s + (65535 - unat ?c)"
    unfolding split [of m'] split [of m] at_k by (simp add: other zero)
  then have "sum16 m' p len + unat ?c = ?s + 65535" using c(1) by simp
  then have "(sum16 m' p len + unat ?c) mod 65535 = ?s mod 65535" by simp
  then have "(sum16 m' p len + unat ?c) mod 65535 = unat ?c mod 65535" using c(2) by simp
  then show "sum16 m' p len mod 65535 = 0"
    using mod_eq_dvd_iff_nat [of "unat ?c" "sum16 m' p len + unat ?c" 65535] by (simp add: dvd_eq_mod_eq_0)
qed

section \<open>Addresses as text\<close>

lemma strtoul_field:
  assumes "\<not> sint v < 0" "rest = [] \<or> hd rest = chr CHR ''.''"
  shows "simple_strtoul (digit_chars v 10 SIGN @ rest) 10 = (v, rest)"
proof -
  have stop: "strtoul_loop 10 rest n = (n, rest)" for n :: u32
    using assms(2) by (cases rest) (auto simp: isxdigit_iff)
  have px: "peek rest \<noteq> chr CHR ''x''" using assms(2) by (cases rest) auto
  have ds: "digit_string lower_digits" using digit_strings by simp
  show ?thesis
  proof (cases "v = 0")
    case True
    then show ?thesis using stop px by (simp add: digit_chars_def simple_strtoul_def strtoul_prefix_def)
  next
    case False
    have chars: "digit_chars v 10 SIGN = rev (number_digits lower_digits v 10)"
      using False assms(1) by (simp add: digit_chars_def plain_flags)
    have "number_digits lower_digits v 10 \<noteq> []" using False by (intro number_digits_nonempty) simp_all
    then have "peek (digit_chars v 10 SIGN @ rest) = last (number_digits lower_digits v 10)"
      unfolding chars by (cases "rev (number_digits lower_digits v 10)") (auto simp: hd_rev [symmetric])
    moreover have "last (number_digits lower_digits v 10) \<noteq> chr CHR ''0''"
      using number_digits_last [OF ds, of 10 v] False by simp
    moreover have "strtoul_loop 10 (digit_chars v 10 SIGN @ rest) 0 = (v, rest)"
      unfolding chars using strtoul_loop_digits [OF ds, of 10 v rest] stop by simp
    ultimately show ?thesis by (simp add: simple_strtoul_def strtoul_prefix_def)
  qed
qed

lemma byte_field: "\<not> sint ((x :: u32) AND 0xff) < 0" "(x AND 0xff) AND 0xff = x AND 0xff"
  by (simp_all add: bit_last_iff [symmetric] bit_simps)

lemma sprintf_ip:
  "ip_to_string x = Some
     (digit_chars (drop_bit 24 x AND 0xff) 10 SIGN @ chr CHR ''.'' # digit_chars (drop_bit 16 x AND 0xff) 10 SIGN @
      chr CHR ''.'' # digit_chars (drop_bit 8 x AND 0xff) 10 SIGN @ chr CHR ''.'' # digit_chars (x AND 0xff) 10 SIGN)"
proof -
  have int: "int_conversion (chr CHR ''d'') = Some (10, SIGN)" by (simp add: int_conversion_def)
  note step = vsprintf_loop_int [OF int, simplified plain_flags, simplified]
  have sign: "sign_chars (a AND 0xff) SIGN = []" for a :: u32
    using byte_field(1) [of a] by (simp add: sign_chars_def plain_flags)
  show ?thesis
    by (simp add: ip_to_string_def sprintf_def vsprintf_def step sign)
qed

lemma decimal_digits: "unat num < 10 ^ k \<Longrightarrow> length (number_digits ds num 10) \<le> k"
proof (induction k arbitrary: num)
  case 0
  then have "num = 0" by (simp add: unat_eq_0)
  then show ?case by (simp add: number_digits_0)
next
  case (Suc k)
  show ?case
  proof (cases "num = 0")
    case True
    then show ?thesis by (simp add: number_digits_0)
  next
    case False
    have "unat (num div 10) < 10 ^ k" using Suc.prems by (simp add: unat_div less_mult_imp_div_less mult.commute)
    then show ?thesis using False Suc.IH by (subst number_digits_step) simp_all
  qed
qed

lemma byte_digits: "length (digit_chars ((x :: u32) AND 0xff) 10 SIGN) \<le> 3"
  using decimal_digits [of "x AND 0xff" 3 lower_digits] and_ff_lt [of x] byte_field(1) [of x]
  by (auto simp: digit_chars_def plain_flags Let_def)

text \<open>
  C37. \<open>string_to_ip\<close> reads back what \<open>ip_to_string\<close> prints, for every address, and the text with its NUL fits into
  the 16 bytes of \<open>tmp\<close> in \<open>print_IPaddr\<close>.
\<close>

theorem ip_string_roundtrip: "\<exists>s. ip_to_string x = Some s \<and> string_to_ip (Some s) = x \<and> length s < 16"
proof -
  let ?v = "push_bit 8 (push_bit 8 (push_bit 8 (drop_bit 24 x AND 0xff) OR (drop_bit 16 x AND 0xff)) OR
      (drop_bit 8 x AND 0xff)) OR (x AND 0xff)"
  have mask: "y AND 0xff = take_bit 8 y" for y :: u32 by (simp add: take_bit_eq_mask mask_eq_exp_minus_1)
  have "bit ?v i = bit x i" if "i < 32" for i
  proof -
    consider "i < 8" | "8 \<le> i" "i < 16" | "16 \<le> i" "i < 24" | "24 \<le> i" using that by linarith
    then show ?thesis unfolding mask using that by cases (auto simp: bit_simps)
  qed
  then have v: "?v = x" by (intro bit_word_eqI) simp
  have step: "string_to_ip_loop (Suc n) (digit_chars (y AND 0xff) 10 SIGN @ chr CHR ''.'' # s) addr =
      string_to_ip_loop n s (push_bit 8 addr OR (y AND 0xff))" for n y s addr
    by (simp add: strtoul_field [OF byte_field(1)] byte_field(2))
  have last: "string_to_ip_loop (Suc n) (digit_chars (y AND 0xff) 10 SIGN) addr =
      string_to_ip_loop n [] (push_bit 8 addr OR (y AND 0xff))" for n y addr
    using strtoul_field [OF byte_field(1), of "[]" y] by (simp add: byte_field(2))
  have four: "(4 :: nat) = Suc (Suc (Suc (Suc 0)))" by simp
  have "string_to_ip (ip_to_string x) = ?v"
    unfolding sprintf_ip string_to_ip_def option.case four step last string_to_ip_loop.simps(1)
    by (simp only: push_bit_of_0 or.left_neutral)
  moreover have "length (the (ip_to_string x)) < 16"
    using byte_digits [of "drop_bit 24 x"] byte_digits [of "drop_bit 16 x"] byte_digits [of "drop_bit 8 x"] byte_digits [of x]
    unfolding sprintf_ip by simp
  ultimately show ?thesis unfolding v sprintf_ip by simp
qed

end
