(* ===== verification/NetCore.thy ===== *)
theory NetCore imports NetHdr begin

text \<open>
  The network core of \<open>net/net.c\<close>: sending UDP packets with address resolution, ping, receiving,
  timeouts and restarts. The globals of the file are the fields of the record \<open>net\<close>, which the
  protocols extend with their own; \<open>NetTxPacket\<close> and the packet that waits for an ARP reply are
  buffers indexed from their start; what \<open>eth_send\<close> is given is appended to \<open>nt_sent\<close> and
  \<open>nt_clock\<close> is what \<open>get_timer(0)\<close> returns. Handlers are function pointers, so they are named by
  datatypes and \<open>NetReceive\<close> gets the function that runs them as an argument. \<open>None\<close> is a NULL
  pointer that is followed.

  Modelled is a port with \<open>CFG_CMD_PING\<close> and without \<open>CONFIG_NET_MULTI\<close>, \<open>CFG_CMD_CDP\<close>,
  \<open>CONFIG_NETCONSOLE\<close>, \<open>CONFIG_UDP_CHECKSUM\<close> and the Atheros header. Ethernet devices
  (\<open>eth_halt\<close>, \<open>eth_init\<close>) have no state here.
\<close>

section \<open>State\<close>

datatype loop_state = NETLOOP_CONTINUE | NETLOOP_RESTART | NETLOOP_SUCCESS | NETLOOP_FAIL

datatype proto = BOOTP | RARP | ARP | TFTP | DHCP | PING | DNS | NFS | CDP | NETCONS | SNTP

datatype rx_handler = Rx_Tftp | Rx_startAgain | Rx_Ping

datatype time_handler = Time_Tftp | Time_startAgain | Time_Ping

text \<open>What a pointer to an Ethernet address points to.\<close>

datatype mac_ptr = NetServerEther | NetBcastAddr | ping_mac

record net =
  nt_gateway :: u32
  nt_mask :: u32
  nt_our_ip :: u32
  nt_server_ip :: u32
  nt_our_ether :: "byte list"
  nt_server_ether :: "byte list"
  nt_ipid :: u32
  nt_vlan :: u16
  nt_native_vlan :: u16
  nt_state :: loop_state
  nt_xfer_size :: u32
  nt_boot_file :: "byte list"
  nt_handler :: "rx_handler option"
  nt_time_handler :: "time_handler option"
  nt_time_start :: u32
  nt_time_delta :: u32
  nt_clock :: u32
  nt_tx :: mem
  nt_arp_ip :: u32
  nt_arp_reply_ip :: u32
  nt_arp_mac :: "mac_ptr option"
  nt_arp_tx :: mem
  nt_arp_tx_size :: nat
  nt_arp_start :: u32
  nt_arp_try :: u32
  nt_ping_ip :: u32
  nt_ping_mac :: "byte list"
  nt_ping_seq :: u16
  nt_sent :: "byte list list"
  nt_out :: "byte list"
  nt_netretry :: "byte list option"
  nt_hz :: u32

definition NetEtherNullAddr :: "byte list" where "NetEtherNullAddr = replicate 6 0"

definition ARP_TIMEOUT :: u32 where "ARP_TIMEOUT = 5"
definition ARP_TIMEOUT_COUNT :: u32 where "ARP_TIMEOUT_COUNT = 5"

definition mac_at :: "'a net_scheme \<Rightarrow> mac_ptr \<Rightarrow> byte list" where
  "mac_at n p = (case p of NetServerEther \<Rightarrow> nt_server_ether n | NetBcastAddr \<Rightarrow> replicate 6 0xff
                         | ping_mac \<Rightarrow> nt_ping_mac n)"

definition store_mac :: "mac_ptr \<Rightarrow> byte list \<Rightarrow> 'a net_scheme \<Rightarrow> 'a net_scheme" where
  "store_mac p mac n = (case p of NetServerEther \<Rightarrow> n\<lparr>nt_server_ether := mac\<rparr> | NetBcastAddr \<Rightarrow> n
                                | ping_mac \<Rightarrow> n\<lparr>nt_ping_mac := mac\<rparr>)"

definition eth_send :: "byte list \<Rightarrow> 'a net_scheme \<Rightarrow> 'a net_scheme" where
  "eth_send frame n = n\<lparr>nt_sent := nt_sent n @ [frame]\<rparr>"

definition put :: "string \<Rightarrow> 'a net_scheme \<Rightarrow> 'a net_scheme" where
  "put s n = n\<lparr>nt_out := puts s (nt_out n)\<rparr>"

section \<open>Timeouts and restarts\<close>

definition NetSetHandler :: "rx_handler \<Rightarrow> 'a net_scheme \<Rightarrow> 'a net_scheme" where
  "NetSetHandler f n = n\<lparr>nt_handler := Some f\<rparr>"

definition NetSetTimeout :: "u32 \<Rightarrow> time_handler \<Rightarrow> 'a net_scheme \<Rightarrow> 'a net_scheme" where
  "NetSetTimeout iv f n =
     (if iv = 0 then n\<lparr>nt_time_handler := None\<rparr>
      else n\<lparr>nt_time_handler := Some f, nt_time_start := nt_clock n, nt_time_delta := iv\<rparr>)"

definition startAgainTimeout :: "'a net_scheme \<Rightarrow> 'a net_scheme" where
  "startAgainTimeout n = n\<lparr>nt_state := NETLOOP_RESTART\<rparr>"

definition startAgainHandler :: "'a net_scheme \<Rightarrow> 'a net_scheme" where
  "startAgainHandler n = n"

definition NetStartAgain :: "'a net_scheme \<Rightarrow> 'a net_scheme" where
  "NetStartAgain n =
     (if nt_netretry n = Some (bytes ''no'') then n\<lparr>nt_state := NETLOOP_FAIL\<rparr>
      else NetSetHandler Rx_startAgain (NetSetTimeout (10 * nt_hz n) Time_startAgain n))"

section \<open>Sending\<close>

definition my_vlan :: "u16 \<Rightarrow> u16" where
  "my_vlan v = (if v = -1 then VLAN_NONE else v)"

definition NetEthHdrSize :: "'a net_scheme \<Rightarrow> nat" where
  "NetEthHdrSize n =
     (if my_vlan (nt_vlan n) AND VLAN_IDMASK = VLAN_NONE then ETHER_HDR_SIZE else VLAN_ETHER_HDR_SIZE)"

definition NetSetEther :: "'a net_scheme \<Rightarrow> mem \<Rightarrow> nat \<Rightarrow> byte list \<Rightarrow> u16 \<Rightarrow> mem \<times> nat" where
  "NetSetEther n m xet addr prot =
     (let m = write_bytes m xet addr;
          m = write_bytes m (xet + et_src) (nt_our_ether n);
          v = my_vlan (nt_vlan n)
      in if v AND VLAN_IDMASK = VLAN_NONE
         then (write_bytes m (xet + et_protlen) (be16 prot), ETHER_HDR_SIZE)
         else
           let m = write_bytes m (xet + et_protlen) (be16 PROT_VLAN);
               m = write_bytes m (xet + vet_tag) (be16 (v AND VLAN_IDMASK))
           in (write_bytes m (xet + vet_type) (be16 prot), VLAN_ETHER_HDR_SIZE))"

definition NetSetIP ::
    "'a net_scheme \<Rightarrow> mem \<Rightarrow> nat \<Rightarrow> u32 \<Rightarrow> u16 \<Rightarrow> u16 \<Rightarrow> nat \<Rightarrow> mem \<times> 'a net_scheme" where
  "NetSetIP n m xip dest dport sport len =
     (let m = (if odd len then m(xip + IP_HDR_SIZE + len := 0) else m);
          m = write_bytes m xip
            ([0x45, 0] @ be16 (of_nat (IP_HDR_SIZE + len)) @ be16 (ucast (nt_ipid n)) @ be16 0x4000 @
             [255, 17] @ be16 0 @ be32 (nt_our_ip n) @ be32 dest @ be16 sport @ be16 dport @
             be16 (of_nat (8 + len)) @ be16 0);
          m = write_bytes m (xip + ip_sum) (be16 (NOT (ucast (NetCksum m xip (IP_HDR_SIZE_NO_UDP div 2)))))
      in (m, n\<lparr>nt_ipid := nt_ipid n + 1\<rparr>))"

definition ArpRequest :: "'a net_scheme \<Rightarrow> 'a net_scheme" where
  "ArpRequest n =
     (case NetSetEther n (nt_tx n) 0 (mac_at n NetBcastAddr) PROT_ARP of (m, pkt) \<Rightarrow>
        let m = write_bytes m pkt
              (be16 ARP_ETHER @ be16 PROT_IP @ [6, 4] @ be16 ARPOP_REQUEST @ nt_our_ether n @
               be32 (nt_our_ip n) @ replicate 6 0);
            n = (if nt_arp_ip n AND nt_mask n \<noteq> nt_our_ip n AND nt_mask n then
                   (if nt_gateway n = 0 then
                      put (''## Warning: gatewayip needed but not set'' @ nl) n\<lparr>nt_arp_reply_ip := nt_arp_ip n\<rparr>
                    else n\<lparr>nt_arp_reply_ip := nt_gateway n\<rparr>)
                 else n\<lparr>nt_arp_reply_ip := nt_arp_ip n\<rparr>);
            m = NetWriteIP m (pkt + ar_data + 16) (nt_arp_reply_ip n)
        in eth_send (read_bytes m 0 (pkt + ARP_HDR_SIZE)) (n\<lparr>nt_tx := m\<rparr>))"

definition ArpTimeoutCheck :: "'a net_scheme \<Rightarrow> 'a net_scheme" where
  "ArpTimeoutCheck n =
     (if nt_arp_ip n = 0 then n
      else if nt_clock n - nt_arp_start n > ARP_TIMEOUT * nt_hz n then
        let n = n\<lparr>nt_arp_try := nt_arp_try n + 1\<rparr> in
        if nt_arp_try n \<ge> ARP_TIMEOUT_COUNT
        then NetStartAgain (put (nl @ ''ARP Retry count exceeded; starting again'' @ nl) n\<lparr>nt_arp_try := 0\<rparr>)
        else ArpRequest (n\<lparr>nt_arp_start := nt_clock n\<rparr>)
      else n)"

text \<open>The result is 1 when the packet waits for an address, 0 when it was transmitted.\<close>

definition NetSendUDPPacket ::
    "mac_ptr \<Rightarrow> u32 \<Rightarrow> u16 \<Rightarrow> u16 \<Rightarrow> nat \<Rightarrow> 'a net_scheme \<Rightarrow> int \<times> 'a net_scheme" where
  "NetSendUDPPacket ether dest dport sport len n =
     (let dest = (if dest = 0 then 0xFFFFFFFF else dest);
          ether = (if dest = 0xFFFFFFFF then NetBcastAddr else ether)
      in if mac_at n ether = NetEtherNullAddr then
           let n = n\<lparr>nt_arp_ip := dest, nt_arp_mac := Some ether\<rparr>;
               (m, pkt) = NetSetEther n (nt_arp_tx n) 0 (mac_at n ether) PROT_IP;
               (m, n) = NetSetIP n m pkt dest dport sport len;
               m = write_bytes m (pkt + IP_HDR_SIZE) (read_bytes (nt_tx n) (pkt + IP_HDR_SIZE) len);
               n = n\<lparr>nt_arp_tx := m, nt_arp_tx_size := pkt + IP_HDR_SIZE + len, nt_arp_try := 1,
                     nt_arp_start := nt_clock n\<rparr>
           in (1, ArpRequest n)
         else
           let (m, pkt) = NetSetEther n (nt_tx n) 0 (mac_at n ether) PROT_IP;
               (m, n) = NetSetIP n m pkt dest dport sport len
           in (0, eth_send (read_bytes m 0 (pkt + IP_HDR_SIZE + len)) (n\<lparr>nt_tx := m\<rparr>)))"

section \<open>Ping\<close>

definition PingSend :: "'a net_scheme \<Rightarrow> int \<times> 'a net_scheme" where
  "PingSend n =
     (let n = n\<lparr>nt_ping_mac := NetEtherNullAddr, nt_arp_ip := nt_ping_ip n, nt_arp_mac := Some ping_mac\<rparr>;
          (m, pkt) = NetSetEther n (nt_arp_tx n) 0 (mac_at n ping_mac) PROT_IP;
          m = write_bytes m pkt
            ([0x45, 0] @ be16 (of_nat (IP_HDR_SIZE_NO_UDP + 8)) @ be16 (ucast (nt_ipid n)) @ be16 0x4000 @
             [255, 0x01] @ be16 0 @ be32 (nt_our_ip n) @ be32 (nt_ping_ip n));
          m = write_bytes m (pkt + ip_sum) (be16 (NOT (ucast (NetCksum m pkt (IP_HDR_SIZE_NO_UDP div 2)))));
          s = pkt + udp_src;
          m = write_bytes m s (be16 0x0800 @ be16 0 @ be16 0 @ be16 (nt_ping_seq n));
          m = write_bytes m (s + 2) (be16 (NOT (ucast (NetCksum m s (8 div 2)))));
          n = n\<lparr>nt_ipid := nt_ipid n + 1, nt_ping_seq := nt_ping_seq n + 1, nt_arp_tx := m,
                nt_arp_tx_size := pkt + IP_HDR_SIZE_NO_UDP + 8, nt_arp_try := 1, nt_arp_start := nt_clock n\<rparr>
      in (1, ArpRequest n))"

definition PingTimeout :: "'a net_scheme \<Rightarrow> 'a net_scheme" where
  "PingTimeout n = n\<lparr>nt_state := NETLOOP_FAIL\<rparr>"

definition PingHandler :: "(mem \<times> nat) option \<Rightarrow> 'a net_scheme \<Rightarrow> 'a net_scheme option" where
  "PingHandler pkt n =
     (case pkt of
        None \<Rightarrow> None
      | Some (m, p) \<Rightarrow>
          if NetReadIP m (p + ip_src) \<noteq> nt_ping_ip n then Some n else Some (n\<lparr>nt_state := NETLOOP_SUCCESS\<rparr>))"

definition PingStart :: "'a net_scheme \<Rightarrow> 'a net_scheme" where
  "PingStart n = snd (PingSend (NetSetHandler Rx_Ping (NetSetTimeout (10 * nt_hz n) Time_Ping n)))"

section \<open>Receiving\<close>

text \<open>A handler gets the packet, \<open>None\<close> for a NULL pointer, the two ports and the length.\<close>

type_synonym 'n rx_fun = "rx_handler \<Rightarrow> (mem \<times> nat) option \<Rightarrow> u32 \<Rightarrow> u32 \<Rightarrow> u32 \<Rightarrow> 'n \<Rightarrow> 'n option"

definition call_handler ::
    "'a net_scheme rx_fun \<Rightarrow> (mem \<times> nat) option \<Rightarrow> u32 \<Rightarrow> u32 \<Rightarrow> u32 \<Rightarrow> 'a net_scheme \<Rightarrow> 'a net_scheme option" where
  "call_handler run pkt dest src len n =
     (case nt_handler n of None \<Rightarrow> None | Some h \<Rightarrow> run h pkt dest src len n)"

definition receive_arp :: "mem \<Rightarrow> nat \<Rightarrow> int \<Rightarrow> 'a net_scheme \<Rightarrow> 'a net_scheme" where
  "receive_arp m arp len n =
     (if len < int ARP_HDR_SIZE then
        n\<lparr>nt_out := printf (''bad length %d < %d'' @ nl) [ArgInt (word_of_int len), ArgInt (of_nat ARP_HDR_SIZE)] (nt_out n)\<rparr>
      else if rd16 m (arp + ar_hrd) \<noteq> ARP_ETHER then n
      else if rd16 m (arp + ar_pro) \<noteq> PROT_IP then n
      else if m (arp + ar_hln) \<noteq> 6 then n
      else if m (arp + ar_pln) \<noteq> 4 then n
      else if nt_our_ip n = 0 then n
      else if NetReadIP m (arp + ar_data + 16) \<noteq> nt_our_ip n then n
      else if rd16 m (arp + ar_op) = ARPOP_REQUEST then
        (case NetSetEther n m 0 (read_bytes m et_src 6) PROT_ARP of (m, pkt) \<Rightarrow>
           let m = write_bytes m (arp + ar_op) (be16 ARPOP_REPLY);
               m = write_bytes m (arp + ar_data + 10) (read_bytes m (arp + ar_data) 6);
               m = NetCopyIP m (arp + ar_data + 16) (arp + ar_data + 6);
               m = write_bytes m (arp + ar_data) (nt_our_ether n);
               m = NetWriteIP m (arp + ar_data + 6) (nt_our_ip n)
           in eth_send (read_bytes m 0 (pkt + ARP_HDR_SIZE)) n)
      else if rd16 m (arp + ar_op) = ARPOP_REPLY then
        (if nt_arp_ip n = 0 then n
         else case nt_arp_mac n of
           None \<Rightarrow> n
         | Some mac \<Rightarrow>
             if NetReadIP m (arp + ar_data + 6) = nt_arp_reply_ip n then
               let n = store_mac mac (read_bytes m (arp + ar_data) 6) n;
                   tx = write_bytes (nt_arp_tx n) 0 (mac_at n mac);
                   n = eth_send (read_bytes tx 0 (nt_arp_tx_size n)) (n\<lparr>nt_arp_tx := tx\<rparr>)
               in n\<lparr>nt_arp_ip := 0, nt_arp_tx_size := 0, nt_arp_mac := None\<rparr>
             else n)
      else n)"

definition receive_rarp ::
    "'a net_scheme rx_fun \<Rightarrow> mem \<Rightarrow> nat \<Rightarrow> int \<Rightarrow> 'a net_scheme \<Rightarrow> 'a net_scheme option" where
  "receive_rarp run m arp len n =
     (if len < int ARP_HDR_SIZE then
        Some (n\<lparr>nt_out := printf (''bad length %d < %d'' @ nl) [ArgInt (word_of_int len), ArgInt (of_nat ARP_HDR_SIZE)] (nt_out n)\<rparr>)
      else if rd16 m (arp + ar_op) \<noteq> RARPOP_REPLY \<or> rd16 m (arp + ar_hrd) \<noteq> ARP_ETHER \<or>
              rd16 m (arp + ar_pro) \<noteq> PROT_IP \<or> m (arp + ar_hln) \<noteq> 6 \<or> m (arp + ar_pln) \<noteq> 4 then
        Some (put (''invalid RARP header'' @ nl) n)
      else
        let n = n\<lparr>nt_our_ip := NetReadIP m (arp + ar_data + 16)\<rparr>;
            n = (if nt_server_ip n = 0 then n\<lparr>nt_server_ip := NetReadIP m (arp + ar_data + 6)\<rparr> else n);
            n = n\<lparr>nt_server_ether := read_bytes m (arp + ar_data) 6\<rparr>
        in call_handler run None 0 0 0 n)"

definition receive_ip ::
    "'a net_scheme rx_fun \<Rightarrow> mem \<Rightarrow> nat \<Rightarrow> int \<Rightarrow> 'a net_scheme \<Rightarrow> 'a net_scheme option" where
  "receive_ip run m ip len n =
     (if len < int IP_HDR_SIZE then Some n
      else if len < uint (rd16 m (ip + ip_len)) then
        Some (n\<lparr>nt_out := printf (''len bad %d < %d'' @ nl)
          [ArgInt (word_of_int len), ArgInt (ucast (rd16 m (ip + ip_len)))] (nt_out n)\<rparr>)
      else if m (ip + ip_hl_v) AND 0xf0 \<noteq> 0x40 then Some n
      else if rd16 m (ip + ip_off) AND 0x1fff \<noteq> 0 then Some n
      else if \<not> NetCksumOk m ip (IP_HDR_SIZE_NO_UDP div 2) then Some (put (''checksum bad'' @ nl) n)
      else if nt_our_ip n \<noteq> 0 \<and> NetReadIP m (ip + ip_dst) \<noteq> nt_our_ip n \<and> NetReadIP m (ip + ip_dst) \<noteq> 0xFFFFFFFF
      then Some n
      else if m (ip + ip_p) = IPPROTO_ICMP then
        (if m (ip + udp_src) = ICMP_REDIRECT then
           (if m (ip + udp_src + icmp_code) \<noteq> ICMP_REDIR_HOST then Some n
            else
              let n = put '' ICMP Host Redirect to '' n;
                  n = n\<lparr>nt_out := print_IPaddr (NetReadIP m (ip + udp_src + icmp_gateway)) (nt_out n)\<rparr>
              in Some (put '' '' n))
         else if m (ip + udp_src) = ICMP_ECHO_REPLY then call_handler run (Some (m, ip)) 0 0 0 n
         else Some n)
      else if m (ip + ip_p) \<noteq> IPPROTO_UDP then Some n
      else call_handler run (Some (m, ip + IP_HDR_SIZE)) (ucast (rd16 m (ip + udp_dst)))
             (ucast (rd16 m (ip + udp_src))) (ucast (rd16 m (ip + udp_len)) - 8) n)"

definition receive_payload ::
    "'a net_scheme rx_fun \<Rightarrow> mem \<Rightarrow> nat \<Rightarrow> int \<Rightarrow> u16 \<Rightarrow> u16 \<Rightarrow> 'a net_scheme \<Rightarrow> 'a net_scheme option" where
  "receive_payload run m ip len x vlanid n =
     (let myvlanid = my_vlan (nt_vlan n);
          mynvlanid = my_vlan (nt_native_vlan n);
          vlanid = (if vlanid = VLAN_NONE then mynvlanid AND VLAN_IDMASK else vlanid)
      in if myvlanid AND VLAN_IDMASK \<noteq> VLAN_NONE \<and> vlanid \<noteq> myvlanid AND VLAN_IDMASK then Some n
         else if x = PROT_ARP then Some (receive_arp m ip len n)
         else if x = PROT_RARP then receive_rarp run m ip len n
         else if x = PROT_IP then receive_ip run m ip len n
         else Some n)"

definition NetReceive :: "'a net_scheme rx_fun \<Rightarrow> mem \<Rightarrow> int \<Rightarrow> 'a net_scheme \<Rightarrow> 'a net_scheme option" where
  "NetReceive run m len n =
     (if len < int ETHER_HDR_SIZE then Some n
      else
        let x = rd16 m et_protlen in
        if x < 1514 then receive_payload run m E802_HDR_SIZE (len - int E802_HDR_SIZE) (rd16 m et_prot) VLAN_NONE n
        else if x \<noteq> PROT_VLAN then receive_payload run m ETHER_HDR_SIZE (len - int ETHER_HDR_SIZE) x VLAN_NONE n
        else if len < int VLAN_ETHER_HDR_SIZE then Some n
        else if nt_vlan n AND VLAN_IDMASK = VLAN_NONE then Some n
        else receive_payload run m VLAN_ETHER_HDR_SIZE (len - int VLAN_ETHER_HDR_SIZE) (rd16 m vet_type)
               (rd16 m vet_tag AND VLAN_IDMASK) n)"

section \<open>Prerequisites\<close>

definition prereq_ether :: "'a net_scheme \<Rightarrow> int \<times> 'a net_scheme" where
  "prereq_ether n =
     (if nt_our_ether n = replicate 6 0 then (1, put (''*** ERROR: `ethaddr'' @ [CHR 0x27] @ '' not set'' @ nl) n)
      else (0, n))"

definition prereq_ip :: "'a net_scheme \<Rightarrow> int \<times> 'a net_scheme" where
  "prereq_ip n =
     (if nt_our_ip n = 0 then (1, put (''*** ERROR: `ipaddr'' @ [CHR 0x27] @ '' not set'' @ nl) n) else prereq_ether n)"

definition net_check_prereq :: "proto \<Rightarrow> 'a net_scheme \<Rightarrow> int \<times> 'a net_scheme" where
  "net_check_prereq protocol n =
     (if protocol = PING then
        (if nt_ping_ip n = 0 then (1, put (''*** ERROR: ping address not given'' @ nl) n) else prereq_ip n)
      else if protocol \<in> {NFS, NETCONS, TFTP} then
        (if nt_server_ip n = 0
         then (1, put (''*** ERROR: `serverip'' @ [CHR 0x27] @ '' not set'' @ nl) n) else prereq_ip n)
      else if protocol \<in> {DHCP, RARP, BOOTP, CDP} then prereq_ether n
      else (0, n))"

section \<open>Headers as lists of bytes\<close>

lemma rd16_at:
  assumes "read_bytes m p n = xs" "i + 1 < n" "xs ! i = ucast (drop_bit 8 v)" "xs ! (i + 1) = ucast v"
  shows "rd16 m (p + i) = v"
proof (rule rd16_be16)
  have "m (p + i) = xs ! i" "m (p + (i + 1)) = xs ! (i + 1)"
    using read_bytes_nth [OF assms(1), of i] read_bytes_nth [OF assms(1), of "i + 1"] assms(2) by simp_all
  then show "read_bytes m (p + i) 2 = be16 v" using assms(3,4) by (simp add: read_bytes_def upt_rec be16_def)
qed

lemma NetReadIP_at:
  assumes "read_bytes m p n = xs" "i + 4 \<le> n" "take 4 (drop i xs) = be32 v"
  shows "NetReadIP m (p + i) = v"
  using assms(3) read_bytes_drop_take [OF assms(1,2)] by (intro NetReadIP_be32) simp

lemma my_vlan_none: "my_vlan v AND VLAN_IDMASK = VLAN_NONE \<longleftrightarrow> v AND VLAN_IDMASK = VLAN_NONE"
  by (auto simp: my_vlan_def net_consts)

lemma my_vlan_mask: "my_vlan v AND VLAN_IDMASK = v AND VLAN_IDMASK"
  by (auto simp: my_vlan_def net_consts)

definition eth_header :: "'a net_scheme \<Rightarrow> byte list \<Rightarrow> u16 \<Rightarrow> byte list" where
  "eth_header n addr prot = addr @ nt_our_ether n @
     (if nt_vlan n AND VLAN_IDMASK = VLAN_NONE then be16 prot
      else be16 PROT_VLAN @ be16 (nt_vlan n AND VLAN_IDMASK) @ be16 prot)"

definition ether_ok :: "'a net_scheme \<Rightarrow> bool" where
  "ether_ok n \<longleftrightarrow> length (nt_our_ether n) = 6"

lemma length_eth_header:
  "ether_ok n \<Longrightarrow> length addr = 6 \<Longrightarrow> length (eth_header n addr prot) = NetEthHdrSize n"
  by (simp add: eth_header_def NetEthHdrSize_def ether_ok_def my_vlan_none ETHER_HDR_SIZE_def VLAN_ETHER_HDR_SIZE_def)

lemma NetSetEther_write:
  assumes "ether_ok n" "length addr = 6"
  shows "NetSetEther n m xet addr prot = (write_bytes m xet (eth_header n addr prot), NetEthHdrSize n)"
  using assms
  by (simp add: NetSetEther_def eth_header_def NetEthHdrSize_def ether_ok_def my_vlan_mask Let_def
      write_bytes_append net_offsets add.assoc add.commute [of _ xet])

definition ip_header :: "'a net_scheme \<Rightarrow> u16 \<Rightarrow> u32 \<Rightarrow> u16 \<Rightarrow> u16 \<Rightarrow> nat \<Rightarrow> byte list" where
  "ip_header n c dest dport sport len =
     ([0x45, 0] @ be16 (of_nat (28 + len)) @ be16 (ucast (nt_ipid n)) @ be16 0x4000 @ [255, 17]) @ be16 c @
     (be32 (nt_our_ip n) @ be32 dest @ be16 sport @ be16 dport @ be16 (of_nat (8 + len)) @ be16 0)"

lemma length_ip_header [simp]: "length (ip_header n c dest dport sport len) = 28"
  by (simp add: ip_header_def)

lemma cksum_cong:
  assumes "read_bytes m p (2 * len) = read_bytes m' p' (2 * len)"
  shows "NetCksum m p len = NetCksum m' p' len"
proof -
  have "cksum_loop len m p x = cksum_loop len m' p' x" for x
    using assms
  proof (induction len arbitrary: p p' x)
    case (Suc len)
    from Suc.prems have "m p = m' p'" "m (p + 1) = m' (p' + 1)"
      "read_bytes m (p + 2) (2 * len) = read_bytes m' (p' + 2) (2 * len)"
      by (simp_all add: read_bytes_Suc)
    moreover from this have "rd16 m p = rd16 m' p'" by (simp add: rd16_def)
    ultimately show ?case unfolding cksum_loop.simps by (simp only: Suc.IH [of "p + 2" "p' + 2"])
  qed simp
  then show ?thesis by (simp add: NetCksum_def)
qed

lemma cksum_ok_cong:
  "read_bytes m p (2 * len) = read_bytes m' p' (2 * len) \<Longrightarrow> NetCksumOk m p len = NetCksumOk m' p' len"
  using cksum_cong [of m p len m' p'] by (simp add: NetCksumOk_def)

definition pad_odd :: "mem \<Rightarrow> nat \<Rightarrow> nat \<Rightarrow> mem" where
  "pad_odd m xip len = (if odd len then m(xip + 28 + len := 0) else m)"

lemma NetSetIP_write:
  "\<exists>c. NetSetIP n m p dest dport sport len =
     (write_bytes (pad_odd m p len) p (ip_header n c dest dport sport len), n\<lparr>nt_ipid := nt_ipid n + 1\<rparr>) \<and>
   NetCksumOk (write_bytes (pad_odd m p len) p (ip_header n c dest dport sport len)) p 10"
proof -
  let ?m = "pad_odd m p len"
  let ?m1 = "write_bytes ?m p (ip_header n 0 dest dport sport len)"
  define c :: u16 where "c = NOT (ucast (NetCksum ?m1 p 10))"
  have "ip_header n 0 dest dport sport len =
      ([0x45, 0] @ be16 (of_nat (28 + len)) @ be16 (ucast (nt_ipid n)) @ be16 0x4000 @ [255, 17]) @ be16 0 @
      (be32 (nt_our_ip n) @ be32 dest @ be16 sport @ be16 dport @ be16 (of_nat (8 + len)) @ be16 0)"
    by (simp add: ip_header_def)
  then have over: "write_bytes ?m1 (p + 10) (be16 c) = write_bytes ?m p (ip_header n c dest dport sport len)"
    using write_bytes_over_mid [of "be16 0" "be16 c" ?m p
        "[0x45, 0] @ be16 (of_nat (28 + len)) @ be16 (ucast (nt_ipid n)) @ be16 0x4000 @ [255, 17]"
        "be32 (nt_our_ip n) @ be32 dest @ be16 sport @ be16 dport @ be16 (of_nat (8 + len)) @ be16 0"]
    unfolding ip_header_def by simp
  have "read_bytes ?m1 p 28 = ip_header n 0 dest dport sport len"
    using read_write_bytes [of ?m p "ip_header n 0 dest dport sport len"] by simp
  then have "rd16 ?m1 (p + 10) = 0" by (rule rd16_at) (simp_all add: ip_header_def be16_def be32_def)
  then have "rd16 ?m1 (p + 2 * 5) = 0" by simp
  from cksum_inserted [OF _ _ this, of 10]
  have "NetCksumOk (write_bytes ?m1 (p + 10) (be16 c)) p 10" by (simp add: c_def)
  moreover have "NetSetIP n m p dest dport sport len =
     (write_bytes ?m1 (p + 10) (be16 c), n\<lparr>nt_ipid := nt_ipid n + 1\<rparr>)"
    by (simp add: NetSetIP_def Let_def pad_odd_def c_def ip_header_def net_consts net_offsets)
  ultimately show ?thesis unfolding over by blast
qed

section \<open>A packet that is received\<close>

lemma receive_ip_accepts:
  assumes hdr: "read_bytes m p 28 = ip_header n c dest dport sport len" and ok: "NetCksumOk m p 10"
    and len: "28 + len < 65536" "28 + int len \<le> k"
    and addr: "nt_our_ip b = 0 \<or> dest = nt_our_ip b \<or> dest = 0xFFFFFFFF"
  shows "receive_ip run m p k b =
    call_handler run (Some (m, p + 28)) (ucast dport) (ucast sport) (of_nat len) b"
proof -
  have "rd16 m (p + 2) = of_nat (28 + len)" "rd16 m (p + 6) = 0x4000" "rd16 m (p + 20) = sport"
    "rd16 m (p + 22) = dport" "rd16 m (p + 24) = of_nat (8 + len)"
    by (rule rd16_at [OF hdr], simp_all add: ip_header_def be16_def be32_def)+
  moreover have "NetReadIP m (p + 16) = dest"
    by (rule NetReadIP_at [OF hdr]) (simp_all add: ip_header_def be16_def be32_def drop_Cons' take_Cons')
  moreover have "m p = 0x45" "m (p + 9) = 17"
    using read_bytes_nth [OF hdr, of 0] read_bytes_nth [OF hdr, of 9] by (simp_all add: ip_header_def be16_def)
  moreover have "uint (of_nat (28 + len) :: u16) = int (28 + len)"
    using len(1) by (simp add: uint_nat unat_of_nat take_bit_nat_eq_self flip: of_nat_add)
  moreover have "(ucast (of_nat (8 + len) :: u16) :: u32) = of_nat (8 + len)"
    using len(1) by (simp add: word_unat_eq_iff unsigned_ucast_eq unat_of_nat take_bit_nat_eq_self flip: of_nat_add)
  ultimately show ?thesis
    using len(2) ok addr by (auto simp: receive_ip_def net_consts net_offsets)
qed

text \<open>The frame a received buffer holds.\<close>

definition holds_frame :: "mem \<Rightarrow> byte list \<Rightarrow> bool" where
  "holds_frame m frame \<longleftrightarrow> read_bytes m 0 (length frame) = frame"

definition same_vlan :: "'a net_scheme \<Rightarrow> 'b net_scheme \<Rightarrow> bool" where
  "same_vlan a b \<longleftrightarrow> nt_vlan a = nt_vlan b"

lemma same_hdr_size: "same_vlan a b \<Longrightarrow> NetEthHdrSize b = NetEthHdrSize a"
  by (simp add: same_vlan_def NetEthHdrSize_def)

text \<open>What \<open>NetReceive\<close> does with a frame that another machine of the same VLAN addressed.\<close>

lemma NetReceive_frame:
  assumes hdr: "read_bytes m 0 (NetEthHdrSize a) = eth_header a addr prot" "ether_ok a" "length addr = 6"
    and vlan: "same_vlan a b" and len: "int (NetEthHdrSize a) \<le> k"
    and prot: "prot \<ge> 1514" "prot \<noteq> PROT_VLAN"
  shows "NetReceive run m k b =
    (if prot = PROT_ARP then Some (receive_arp m (NetEthHdrSize a) (k - int (NetEthHdrSize a)) b)
     else if prot = PROT_RARP then receive_rarp run m (NetEthHdrSize a) (k - int (NetEthHdrSize a)) b
     else if prot = PROT_IP then receive_ip run m (NetEthHdrSize a) (k - int (NetEthHdrSize a)) b
     else Some b)"
proof (cases "nt_vlan a AND VLAN_IDMASK = VLAN_NONE")
  case True
  have np: "\<not> prot < 1514" using prot(1) by simp
  from True have size: "NetEthHdrSize a = 14" by (simp add: NetEthHdrSize_def my_vlan_none ETHER_HDR_SIZE_def)
  have hb: "eth_header a addr prot = addr @ nt_our_ether a @ be16 prot" using True by (simp add: eth_header_def)
  have "rd16 m (0 + 12) = prot"
    using hdr(2,3) by (intro rd16_at [OF hdr(1)]) (simp_all add: size hb nth_append be16_def ether_ok_def)
  moreover have "my_vlan (nt_vlan b) AND VLAN_IDMASK = VLAN_NONE" using True vlan by (simp add: my_vlan_none same_vlan_def)
  ultimately show ?thesis
    using prot(2) np len by (simp add: NetReceive_def receive_payload_def Let_def size ETHER_HDR_SIZE_def et_protlen_def)
next
  case False
  from False have size: "NetEthHdrSize a = 18" by (simp add: NetEthHdrSize_def my_vlan_none VLAN_ETHER_HDR_SIZE_def)
  have hb: "eth_header a addr prot = addr @ nt_our_ether a @ be16 PROT_VLAN @ be16 (nt_vlan a AND VLAN_IDMASK) @ be16 prot"
    using False by (simp add: eth_header_def)
  have lens: "length (nt_our_ether a) = 6" "length addr = 6" using hdr(2,3) by (simp_all add: ether_ok_def)
  note at = rd16_at [OF hdr(1), unfolded size hb]
  have "rd16 m (0 + 12) = PROT_VLAN" by (rule at) (simp_all add: lens nth_append be16_def)
  moreover have "rd16 m (0 + 14) = nt_vlan a AND VLAN_IDMASK" by (rule at) (simp_all add: lens nth_append be16_def)
  moreover have "rd16 m (0 + 16) = prot" by (rule at) (simp_all add: lens nth_append be16_def)
  moreover have "my_vlan (nt_vlan b) AND VLAN_IDMASK = nt_vlan a AND VLAN_IDMASK"
    using vlan by (simp add: my_vlan_mask same_vlan_def)
  moreover have "\<not> PROT_VLAN < 1514" by (simp add: PROT_VLAN_def)
  moreover have "(nt_vlan a AND VLAN_IDMASK) AND VLAN_IDMASK = nt_vlan a AND VLAN_IDMASK" by (simp add: and.assoc)
  ultimately show ?thesis
    using len False vlan
    by (simp add: NetReceive_def receive_payload_def Let_def size ETHER_HDR_SIZE_def VLAN_ETHER_HDR_SIZE_def
        et_protlen_def vet_tag_def vet_type_def same_vlan_def)
qed

lemma holds_frame_parts:
  assumes "holds_frame m (xs @ ys @ zs)"
  shows "read_bytes m 0 (length xs) = xs" "read_bytes m (length xs) (length ys) = ys"
    "read_bytes m (length xs + length ys) (length zs) = zs"
proof -
  have *: "read_bytes m 0 (length (xs @ ys @ zs)) = xs @ ys @ zs" using assms by (simp add: holds_frame_def)
  show "read_bytes m 0 (length xs) = xs" "read_bytes m (length xs) (length ys) = ys"
    "read_bytes m (length xs + length ys) (length zs) = zs"
    using read_bytes_drop_take [OF *, of 0 "length xs"] read_bytes_drop_take [OF *, of "length xs" "length ys"]
      read_bytes_drop_take [OF *, of "length xs + length ys" "length zs"] by simp_all
qed

text \<open>The frame that \<open>NetSendUDPPacket\<close> makes of the data in the transmit buffer.\<close>

definition udp_frame :: "'a net_scheme \<Rightarrow> byte list \<Rightarrow> u16 \<Rightarrow> u32 \<Rightarrow> u16 \<Rightarrow> u16 \<Rightarrow> byte list \<Rightarrow> byte list" where
  "udp_frame n addr c dest dport sport data =
     eth_header n addr PROT_IP @ ip_header n c dest dport sport (length data) @ data"

definition cksum_right :: "byte list \<Rightarrow> bool" where
  "cksum_right hdr \<longleftrightarrow> (\<forall>m p. read_bytes m p (length hdr) = hdr \<longrightarrow> NetCksumOk m p 10)"

lemma prot_distinct:
  "1514 \<le> PROT_IP" "1514 \<le> PROT_ARP" "PROT_IP \<noteq> PROT_VLAN" "PROT_ARP \<noteq> PROT_VLAN" "PROT_IP \<noteq> PROT_ARP"
  "PROT_IP \<noteq> PROT_RARP"
  by (simp_all add: net_consts)

lemma udp_frame_received:
  assumes frame: "holds_frame m (udp_frame a addr c dest dport sport data)" and a: "ether_ok a" "length addr = 6"
    and c: "cksum_right (ip_header a c dest dport sport (length data))"
    and len: "28 + length data < 65536" and b: "same_vlan a b" "dest = nt_our_ip b \<or> dest = 0xFFFFFFFF"
  shows "NetReceive run m (int (length (udp_frame a addr c dest dport sport data))) b =
      call_handler run (Some (m, NetEthHdrSize a + 28)) (ucast dport) (ucast sport) (of_nat (length data)) b \<and>
    read_bytes m (NetEthHdrSize a + 28) (length data) = data"
proof -
  note parts = holds_frame_parts [OF frame [unfolded udp_frame_def]]
  have lh: "length (eth_header a addr PROT_IP) = NetEthHdrSize a" by (rule length_eth_header [OF a])
  have hdr: "read_bytes m 0 (NetEthHdrSize a) = eth_header a addr PROT_IP" using parts(1) by (simp add: lh)
  have ip: "read_bytes m (NetEthHdrSize a) 28 = ip_header a c dest dport sport (length data)"
    using parts(2) by (simp add: lh)
  have ok: "NetCksumOk m (NetEthHdrSize a) 10" using c ip by (simp add: cksum_right_def)
  have total: "int (length (udp_frame a addr c dest dport sport data)) - int (NetEthHdrSize a) = 28 + int (length data)"
    by (simp add: udp_frame_def lh)
  have "NetReceive run m (int (length (udp_frame a addr c dest dport sport data))) b =
      receive_ip run m (NetEthHdrSize a) (28 + int (length data)) b"
    unfolding total [symmetric]
    by (subst NetReceive_frame [OF hdr a b(1)]) (simp_all add: prot_distinct udp_frame_def lh)
  also have "\<dots> = call_handler run (Some (m, NetEthHdrSize a + 28)) (ucast dport) (ucast sport) (of_nat (length data)) b"
    using b(2) by (intro receive_ip_accepts [OF ip ok len]) auto
  finally show ?thesis using parts(3) by (simp add: lh)
qed

lemma pad_odd_before: "a < p + 28 + len \<Longrightarrow> pad_odd m p len a = m a"
  by (simp add: pad_odd_def)

lemma read_bytes_write_after:
  "d + length xs \<le> p \<Longrightarrow> read_bytes (write_bytes m d xs) p n = read_bytes m p n"
  by (auto simp: read_bytes_def write_bytes_apply)

lemma read_bytes_write_before:
  "p + n \<le> d \<Longrightarrow> read_bytes (write_bytes m d xs) p n = read_bytes m p n"
  by (auto simp: read_bytes_def write_bytes_apply)

lemma read_bytes_pad_odd: "a + n \<le> p + 28 + len \<Longrightarrow> read_bytes (pad_odd m p len) a n = read_bytes m a n"
  by (auto simp: read_bytes_def pad_odd_before)

text \<open>The two headers written into a buffer.\<close>

lemma headers_in_buffer:
  assumes "ether_ok n" "length addr = 6"
  shows "\<exists>c m'. NetSetIP n (write_bytes m 0 (eth_header n addr PROT_IP)) (NetEthHdrSize n) dest dport sport len =
      (m', n\<lparr>nt_ipid := nt_ipid n + 1\<rparr>) \<and>
    cksum_right (ip_header n c dest dport sport len) \<and>
    read_bytes m' 0 (NetEthHdrSize n + 28) = eth_header n addr PROT_IP @ ip_header n c dest dport sport len \<and>
    read_bytes m' (NetEthHdrSize n + 28) len = read_bytes m (NetEthHdrSize n + 28) len"
proof -
  let ?h = "NetEthHdrSize n" and ?m = "write_bytes m 0 (eth_header n addr PROT_IP)"
  have lh: "length (eth_header n addr PROT_IP) = ?h" by (rule length_eth_header [OF assms])
  obtain c where c: "NetSetIP n ?m ?h dest dport sport len =
     (write_bytes (pad_odd ?m ?h len) ?h (ip_header n c dest dport sport len), n\<lparr>nt_ipid := nt_ipid n + 1\<rparr>)"
   "NetCksumOk (write_bytes (pad_odd ?m ?h len) ?h (ip_header n c dest dport sport len)) ?h 10"
    using NetSetIP_write by blast
  let ?m' = "write_bytes (pad_odd ?m ?h len) ?h (ip_header n c dest dport sport len)"
  have ip: "read_bytes ?m' ?h 28 = ip_header n c dest dport sport len"
    using read_write_bytes [of _ _ "ip_header n c dest dport sport len"] by simp
  have eth: "read_bytes ?m' 0 ?h = eth_header n addr PROT_IP"
    using read_write_bytes [of m 0 "eth_header n addr PROT_IP"]
    by (simp add: read_bytes_write_before read_bytes_pad_odd lh)
  have data: "read_bytes ?m' (?h + 28) len = read_bytes m (?h + 28) len"
    by (simp add: read_bytes_write_after read_bytes_pad_odd lh)
  have "cksum_right (ip_header n c dest dport sport len)"
    unfolding cksum_right_def
  proof (intro allI impI)
    fix m2 p2 assume "read_bytes m2 p2 (length (ip_header n c dest dport sport len)) = ip_header n c dest dport sport len"
    then have "read_bytes m2 p2 28 = read_bytes ?m' ?h 28" using ip by simp
    then have "read_bytes m2 p2 (2 * 10) = read_bytes ?m' ?h (2 * 10)"
      using read_bytes_drop_take [of m2 p2 28 _ 0 20] read_bytes_drop_take [of ?m' ?h 28 _ 0 20] by simp
    then show "NetCksumOk m2 p2 10" using c(2) cksum_ok_cong by blast
  qed
  then show ?thesis using c(1) eth ip data by (auto simp: read_bytes_add)
qed

section \<open>Sending and address resolution\<close>

definition send_data :: "'a net_scheme \<Rightarrow> nat \<Rightarrow> byte list" where
  "send_data n len = read_bytes (nt_tx n) (NetEthHdrSize n + 28) len"

lemma length_send_data [simp]: "length (send_data n len) = len"
  by (simp add: send_data_def)

lemma net_update_simps [simp]:
  "NetEthHdrSize (n\<lparr>nt_arp_ip := x, nt_arp_mac := y\<rparr>) = NetEthHdrSize n"
  "eth_header (n\<lparr>nt_arp_ip := x, nt_arp_mac := y\<rparr>) = eth_header n"
  "ip_header (n\<lparr>nt_arp_ip := x, nt_arp_mac := y\<rparr>) = ip_header n"
  "ether_ok (n\<lparr>nt_arp_ip := x, nt_arp_mac := y\<rparr>) = ether_ok n"
  "mac_at (n\<lparr>nt_arp_ip := x, nt_arp_mac := y\<rparr>) = mac_at n"
  by (simp_all add: NetEthHdrSize_def eth_header_def ip_header_def ether_ok_def mac_at_def fun_eq_iff
      split: mac_ptr.splits)

lemma read_bytes_take: "read_bytes m p n = xs \<Longrightarrow> k \<le> n \<Longrightarrow> read_bytes m p k = take k xs"
  using read_bytes_drop_take [of m p n xs 0 k] by simp

lemma send_known:
  assumes ok: "ether_ok n" "length (mac_at n ether) = 6" and mac: "mac_at n ether \<noteq> NetEtherNullAddr"
    and dest: "dest \<noteq> 0" "dest \<noteq> 0xFFFFFFFF"
  shows "\<exists>c m'. NetSendUDPPacket ether dest dport sport len n =
      (0, n\<lparr>nt_ipid := nt_ipid n + 1, nt_tx := m',
            nt_sent := nt_sent n @ [udp_frame n (mac_at n ether) c dest dport sport (send_data n len)]\<rparr>) \<and>
    cksum_right (ip_header n c dest dport sport len)"
proof -
  let ?h = "NetEthHdrSize n"
  obtain c m' where buf: "NetSetIP n (write_bytes (nt_tx n) 0 (eth_header n (mac_at n ether) PROT_IP)) ?h dest dport sport len =
      (m', n\<lparr>nt_ipid := nt_ipid n + 1\<rparr>)"
    and c: "cksum_right (ip_header n c dest dport sport len)"
    and hdrs: "read_bytes m' 0 (?h + 28) = eth_header n (mac_at n ether) PROT_IP @ ip_header n c dest dport sport len"
    and data: "read_bytes m' (?h + 28) len = read_bytes (nt_tx n) (?h + 28) len"
    using headers_in_buffer [OF ok] by blast
  have frame: "read_bytes m' 0 (?h + 28 + len) = udp_frame n (mac_at n ether) c dest dport sport (send_data n len)"
    unfolding read_bytes_add [of m' 0 "?h + 28" len] hdrs using data by (simp add: udp_frame_def send_data_def)
  show ?thesis
    using dest mac frame c
    by (intro exI [of _ c] exI [of _ m'])
      (simp add: NetSendUDPPacket_def Let_def NetSetEther_write [OF ok] buf IP_HDR_SIZE_def eth_send_def)
qed

lemma send_unknown:
  assumes ok: "ether_ok n" and mac: "mac_at n ether = NetEtherNullAddr" and dest: "dest \<noteq> 0" "dest \<noteq> 0xFFFFFFFF"
  shows "\<exists>c m'. NetSendUDPPacket ether dest dport sport len n =
      (1, ArpRequest (n\<lparr>nt_arp_ip := dest, nt_arp_mac := Some ether, nt_ipid := nt_ipid n + 1, nt_arp_tx := m',
            nt_arp_tx_size := NetEthHdrSize n + 28 + len, nt_arp_try := 1, nt_arp_start := nt_clock n\<rparr>)) \<and>
    read_bytes m' 0 (NetEthHdrSize n + 28 + len) =
      udp_frame n NetEtherNullAddr c dest dport sport (send_data n len) \<and>
    cksum_right (ip_header n c dest dport sport len)"
proof -
  let ?h = "NetEthHdrSize n" and ?n = "n\<lparr>nt_arp_ip := dest, nt_arp_mac := Some ether\<rparr>"
  have ok': "ether_ok ?n" "length NetEtherNullAddr = 6" using ok by (simp_all add: NetEtherNullAddr_def)
  obtain c m' where buf: "NetSetIP ?n (write_bytes (nt_arp_tx n) 0 (eth_header n NetEtherNullAddr PROT_IP)) ?h dest dport sport len =
      (m', ?n\<lparr>nt_ipid := nt_ipid n + 1\<rparr>)"
    and c: "cksum_right (ip_header n c dest dport sport len)"
    and hdrs: "read_bytes m' 0 (?h + 28) = eth_header n NetEtherNullAddr PROT_IP @ ip_header n c dest dport sport len"
    using headers_in_buffer [OF ok', of "nt_arp_tx n" dest dport sport len] by auto
  let ?m = "write_bytes m' (?h + 28) (send_data n len)"
  have "read_bytes ?m 0 (?h + 28) = read_bytes m' 0 (?h + 28)" by (rule read_bytes_write_before) simp
  moreover have "read_bytes ?m (?h + 28) len = send_data n len"
    using read_write_bytes [of m' "?h + 28" "send_data n len"] by simp
  ultimately have frame: "read_bytes ?m 0 (?h + 28 + len) = udp_frame n NetEtherNullAddr c dest dport sport (send_data n len)"
    unfolding read_bytes_add [of ?m 0 "?h + 28" len] hdrs by (simp add: udp_frame_def)
  have eth: "NetSetEther ?n (nt_arp_tx n) 0 NetEtherNullAddr PROT_IP =
      (write_bytes (nt_arp_tx n) 0 (eth_header n NetEtherNullAddr PROT_IP), ?h)"
    using NetSetEther_write [OF ok'] by simp
  show ?thesis
    using dest mac frame c
    by (intro exI [of _ c] exI [of _ ?m])
      (simp add: NetSendUDPPacket_def Let_def eth buf IP_HDR_SIZE_def send_data_def)
qed

definition arp_packet :: "u16 \<Rightarrow> byte list \<Rightarrow> u32 \<Rightarrow> byte list \<Rightarrow> u32 \<Rightarrow> byte list" where
  "arp_packet op sha spa tha tpa =
     be16 ARP_ETHER @ be16 PROT_IP @ [6, 4] @ be16 op @ sha @ be32 spa @ tha @ be32 tpa"

definition next_hop :: "'a net_scheme \<Rightarrow> u32" where
  "next_hop n =
     (if nt_arp_ip n AND nt_mask n \<noteq> nt_our_ip n AND nt_mask n \<and> nt_gateway n \<noteq> 0 then nt_gateway n else nt_arp_ip n)"

lemma ArpRequest_frame:
  assumes ok: "ether_ok n"
  shows "\<exists>m' out. ArpRequest n = n\<lparr>nt_out := out, nt_arp_reply_ip := next_hop n, nt_tx := m',
     nt_sent := nt_sent n @ [eth_header n (replicate 6 0xff) PROT_ARP @
       arp_packet ARPOP_REQUEST (nt_our_ether n) (nt_our_ip n) (replicate 6 0) (next_hop n)]\<rparr>"
proof -
  let ?h = "NetEthHdrSize n" and ?eth = "eth_header n (replicate 6 0xff) PROT_ARP"
  let ?arp = "be16 ARP_ETHER @ be16 PROT_IP @ [6, 4] @ be16 ARPOP_REQUEST @ nt_our_ether n @
               be32 (nt_our_ip n) @ replicate 6 0"
  have lh: "length ?eth = ?h" using length_eth_header [OF ok] by simp
  have la: "length ?arp = 24" using ok by (simp add: ether_ok_def)
  define m where "m = write_bytes (write_bytes (write_bytes (nt_tx n) 0 ?eth) ?h ?arp) (?h + 24) (be32 (next_hop n))"
  have "m = write_bytes (nt_tx n) 0 (?eth @ ?arp @ be32 (next_hop n))"
    unfolding m_def by (simp only: write_bytes_append lh la add_0)
  then have "read_bytes m 0 (length (?eth @ ?arp @ be32 (next_hop n))) = ?eth @ ?arp @ be32 (next_hop n)"
    by (simp only: read_write_bytes)
  then have frame: "read_bytes m 0 (?h + 28) = ?eth @ arp_packet ARPOP_REQUEST (nt_our_ether n) (nt_our_ip n) (replicate 6 0) (next_hop n)"
    using lh la by (simp add: arp_packet_def)
  have eth: "NetSetEther n (nt_tx n) 0 (mac_at n NetBcastAddr) PROT_ARP = (write_bytes (nt_tx n) 0 ?eth, ?h)"
    using NetSetEther_write [OF ok, of "replicate 6 0xff"] by (simp add: mac_at_def)
  have "\<exists>out. ArpRequest n = eth_send (read_bytes m 0 (?h + 28)) (n\<lparr>nt_out := out, nt_arp_reply_ip := next_hop n, nt_tx := m\<rparr>)"
    by (intro exI [of _ "if nt_arp_ip n AND nt_mask n \<noteq> nt_our_ip n AND nt_mask n \<and> nt_gateway n = 0
          then puts (''## Warning: gatewayip needed but not set'' @ nl) (nt_out n) else nt_out n"])
      (simp add: ArpRequest_def eth Let_def m_def next_hop_def put_def ARP_HDR_SIZE_def ar_data_def NetWriteIP_def
        add.commute [of 24 ?h])
  then show ?thesis unfolding frame by (auto simp: eth_send_def)
qed

text \<open>Receiving a request and a reply.\<close>

lemma arp_fields:
  assumes "read_bytes m p 28 = arp_packet op sha spa tha tpa" "length sha = 6" "length tha = 6"
  shows "rd16 m (p + 0) = ARP_ETHER" "rd16 m (p + 2) = PROT_IP" "m (p + 4) = 6" "m (p + 5) = 4"
    "rd16 m (p + 6) = op" "read_bytes m (p + 8) 6 = sha" "NetReadIP m (p + 14) = spa"
    "read_bytes m (p + 14) 4 = be32 spa" "NetReadIP m (p + 24) = tpa"
proof -
  let ?xs = "be16 ARP_ETHER @ be16 PROT_IP @ [6, 4] @ be16 op @ sha @ be32 spa @ tha @ be32 tpa"
  have hdr: "read_bytes m p 28 = ?xs" using assms(1) by (simp add: arp_packet_def)
  note simps = be16_def nth_append assms(2,3)
  show "rd16 m (p + 0) = ARP_ETHER" by (rule rd16_at [OF hdr]) (simp_all add: simps)
  show "rd16 m (p + 2) = PROT_IP" by (rule rd16_at [OF hdr]) (simp_all add: simps)
  show "rd16 m (p + 6) = op" by (rule rd16_at [OF hdr]) (simp_all add: simps)
  show "m (p + 4) = 6" "m (p + 5) = 4"
    using read_bytes_nth [OF hdr, of 4] read_bytes_nth [OF hdr, of 5] by (simp_all add: simps)
  show "NetReadIP m (p + 14) = spa" by (rule NetReadIP_at [OF hdr]) (simp_all add: simps)
  show "NetReadIP m (p + 24) = tpa" by (rule NetReadIP_at [OF hdr]) (simp_all add: simps)
  show "read_bytes m (p + 8) 6 = sha" "read_bytes m (p + 14) 4 = be32 spa"
    by (subst read_bytes_drop_take [OF hdr]; simp add: simps)+
qed

lemma receive_arp_request:
  assumes b: "ether_ok b" "nt_our_ip b = tpa" "tpa \<noteq> 0"
    and arp: "read_bytes m (NetEthHdrSize b) 28 = arp_packet ARPOP_REQUEST sha spa tha tpa" "length sha = 6" "length tha = 6"
    and src: "read_bytes m 6 6 = sha" and len: "k \<ge> 28"
  shows "receive_arp m (NetEthHdrSize b) k b =
    b\<lparr>nt_sent := nt_sent b @ [eth_header b sha PROT_ARP @ arp_packet ARPOP_REPLY (nt_our_ether b) tpa sha spa]\<rparr>"
proof -
  let ?h = "NetEthHdrSize b" and ?eth = "eth_header b sha PROT_ARP"
  have lh: "length ?eth = ?h" using length_eth_header [OF b(1) arp(2)] .
  have h14: "14 \<le> ?h" by (simp add: NetEthHdrSize_def ETHER_HDR_SIZE_def VLAN_ETHER_HDR_SIZE_def)
  note f = arp_fields [OF arp, simplified]
  define m0 where "m0 = write_bytes m 0 ?eth"
  have keep: "read_bytes m0 (?h + i) n = read_bytes m (?h + i) n" for i n
    unfolding m0_def by (rule read_bytes_write_after) (simp add: lh)
  define m1 where "m1 = write_bytes m0 (?h + 6) (be16 ARPOP_REPLY)"
  define m2 where "m2 = write_bytes m1 (?h + 18) (read_bytes m1 (?h + 8) 6)"
  define m3 where "m3 = write_bytes m2 (?h + 24) (read_bytes m2 (?h + 14) 4)"
  define m4 where "m4 = write_bytes m3 (?h + 8) (nt_our_ether b)"
  define m5 where "m5 = write_bytes m4 (?h + 14) (be32 (nt_our_ip b))"
  have e6: "length (nt_our_ether b) = 6" using b(1) by (simp add: ether_ok_def)
  have r1: "read_bytes m1 (?h + 8) 6 = sha"
    unfolding m1_def using f(6) by (simp add: read_bytes_write_after keep)
  have m2: "m2 = write_bytes m1 (?h + 18) sha" unfolding m2_def r1 ..
  have r2: "read_bytes m2 (?h + 14) 4 = be32 spa"
    unfolding m2 m1_def using f(8) arp(2) by (simp add: read_bytes_write_before read_bytes_write_after keep)
  have m3: "m3 = write_bytes m2 (?h + 24) (be32 spa)" unfolding m3_def r2 ..
  have "read_bytes m5 0 (?h + 28) = ?eth @ arp_packet ARPOP_REPLY (nt_our_ether b) tpa sha spa"
  proof -
    have "read_bytes m5 0 ?h = ?eth"
      unfolding m5_def m4_def m3 m2 m1_def m0_def
      using read_write_bytes [of m 0 ?eth] by (simp add: read_bytes_write_before lh)
    moreover have "read_bytes m5 ?h 6 = be16 ARP_ETHER @ be16 PROT_IP @ [6, 4]"
    proof -
      have "read_bytes m5 ?h 6 = read_bytes m ?h 6"
        unfolding m5_def m4_def m3 m2 m1_def using keep [of 0 6] by (simp add: read_bytes_write_before)
      also have "\<dots> = be16 ARP_ETHER @ be16 PROT_IP @ [6, 4]"
        using read_bytes_take [OF arp(1), of 6] by (simp add: arp_packet_def)
      finally show ?thesis .
    qed
    moreover have "read_bytes m5 (?h + 6) 2 = be16 ARPOP_REPLY"
      unfolding m5_def m4_def m3 m2 m1_def
      using read_write_bytes [of m0 "?h + 6" "be16 ARPOP_REPLY"] by (simp add: read_bytes_write_before)
    moreover have "read_bytes m5 (?h + 8) 6 = nt_our_ether b"
      unfolding m5_def m4_def using read_write_bytes [of m3 "?h + 8" "nt_our_ether b"]
      by (simp add: read_bytes_write_before e6)
    moreover have "read_bytes m5 (?h + 14) 4 = be32 tpa"
      unfolding m5_def using read_write_bytes [of m4 "?h + 14" "be32 (nt_our_ip b)"] b(2) by simp
    moreover have "read_bytes m5 (?h + 18) 6 = sha"
      unfolding m5_def m4_def m3 m2 using read_write_bytes [of m1 "?h + 18" sha] arp(2)
      by (simp add: read_bytes_write_before read_bytes_write_after e6)
    moreover have "read_bytes m5 (?h + 24) 4 = be32 spa"
      unfolding m5_def m4_def m3 using read_write_bytes [of m2 "?h + 24" "be32 spa"]
      by (simp add: read_bytes_write_after e6)
    moreover have "read_bytes m5 0 (?h + 28) = read_bytes m5 0 ?h @ read_bytes m5 ?h 6 @ read_bytes m5 (?h + 6) 2 @
        read_bytes m5 (?h + 8) 6 @ read_bytes m5 (?h + 14) 4 @ read_bytes m5 (?h + 18) 6 @ read_bytes m5 (?h + 24) 4"
      using read_bytes_add [of m5 0 "?h" 28] read_bytes_add [of m5 ?h 6 22] read_bytes_add [of m5 "?h + 6" 2 20]
        read_bytes_add [of m5 "?h + 8" 6 14] read_bytes_add [of m5 "?h + 14" 4 10] read_bytes_add [of m5 "?h + 18" 6 4]
      by (simp add: add.assoc add.commute [of 8 ?h])
    ultimately show ?thesis by (simp add: arp_packet_def)
  qed
  moreover have "NetSetEther b m 0 (read_bytes m et_src 6) PROT_ARP = (m0, ?h)"
    using NetSetEther_write [OF b(1) arp(2)] src by (simp add: m0_def et_src_def)
  ultimately show ?thesis
    using f b len
    by (simp add: receive_arp_def ARP_HDR_SIZE_def ar_hrd_def ar_pro_def ar_hln_def ar_pln_def ar_op_def ar_data_def
        Let_def eth_send_def NetCopyIP_def NetWriteIP_def m1_def m2_def m3_def m4_def m5_def add.assoc)
qed

lemma receive_arp_reply:
  assumes arp: "read_bytes m h 28 = arp_packet ARPOP_REPLY sha spa tha tpa" "length sha = 6" "length tha = 6"
    and a: "nt_our_ip a = tpa" "tpa \<noteq> 0" "nt_arp_ip a \<noteq> 0" "nt_arp_mac a = Some mac" "mac \<noteq> NetBcastAddr"
      "nt_arp_reply_ip a = spa" and len: "k \<ge> 28"
  shows "receive_arp m h k a =
    (store_mac mac sha a)\<lparr>nt_arp_tx := write_bytes (nt_arp_tx a) 0 sha,
      nt_sent := nt_sent a @ [read_bytes (write_bytes (nt_arp_tx a) 0 sha) 0 (nt_arp_tx_size a)],
      nt_arp_ip := 0, nt_arp_tx_size := 0, nt_arp_mac := None\<rparr>"
proof -
  note f = arp_fields [OF arp, simplified]
  have "mac_at (store_mac mac sha a) mac = sha" using a(5) by (cases mac) (simp_all add: mac_at_def store_mac_def)
  moreover have "nt_arp_tx (store_mac mac sha a) = nt_arp_tx a" "nt_sent (store_mac mac sha a) = nt_sent a"
    "nt_arp_tx_size (store_mac mac sha a) = nt_arp_tx_size a"
    by (cases mac; simp add: store_mac_def)+
  moreover have "ARPOP_REPLY \<noteq> ARPOP_REQUEST" by (simp add: net_consts)
  ultimately show ?thesis
    using f a len
    by (simp add: receive_arp_def ARP_HDR_SIZE_def ar_hrd_def ar_pro_def ar_hln_def ar_pln_def ar_op_def ar_data_def
        Let_def eth_send_def add.assoc)
qed

section \<open>Properties\<close>

text \<open>A frame that reaches a machine, in a receive buffer with anything behind it.\<close>

definition deliver :: "'a net_scheme rx_fun \<Rightarrow> mem \<Rightarrow> byte list \<Rightarrow> 'a net_scheme \<Rightarrow> 'a net_scheme option" where
  "deliver run g frame n = NetReceive run (write_bytes g 0 frame) (int (length frame)) n"

lemma deliver_holds: "holds_frame (write_bytes g 0 frame) frame"
  by (simp add: holds_frame_def)

lemma deliver_udp:
  assumes "ether_ok a" "length addr = 6" "cksum_right (ip_header a c dest dport sport (length data))"
    and "28 + length data < 65536" "same_vlan a b" "dest = nt_our_ip b \<or> dest = 0xFFFFFFFF"
  defines "frame \<equiv> udp_frame a addr c dest dport sport data"
  shows "deliver run g frame b =
      call_handler run (Some (write_bytes g 0 frame, NetEthHdrSize b + 28)) (ucast dport) (ucast sport)
        (of_nat (length data)) b \<and>
    read_bytes (write_bytes g 0 frame) (NetEthHdrSize b + 28) (length data) = data"
  using udp_frame_received [OF deliver_holds [of g] assms(1-6), of run]
  unfolding frame_def deliver_def same_hdr_size [OF assms(5)] by blast

lemma NetReceive_arp:
  assumes "read_bytes m 0 (NetEthHdrSize a) = eth_header a addr PROT_ARP" "ether_ok a" "length addr = 6"
    "same_vlan a b" "k = int (NetEthHdrSize a) + j" "0 \<le> j"
  shows "NetReceive run m k b = Some (receive_arp m (NetEthHdrSize a) j b)"
proof -
  have "int (NetEthHdrSize a) \<le> k" using assms(5,6) by simp
  from NetReceive_frame [OF assms(1-4) this prot_distinct(2,4), of run] show ?thesis
    unfolding if_P [OF refl] using assms(5) by simp
qed

lemma overwrite_prefix:
  "read_bytes m p n = xs @ zs \<Longrightarrow> length xs = length ys \<Longrightarrow> read_bytes (write_bytes m p ys) p n = ys @ zs"
proof (rule nth_equalityI)
  assume m: "read_bytes m p n = xs @ zs" and len: "length xs = length ys"
  from arg_cong [OF m, of length] len show "length (read_bytes (write_bytes m p ys) p n) = length (ys @ zs)" by simp
  fix i assume "i < length (read_bytes (write_bytes m p ys) p n)"
  then show "read_bytes (write_bytes m p ys) p n ! i = (ys @ zs) ! i"
    using read_bytes_nth [OF m, of i] len by (auto simp: write_bytes_apply nth_append)
qed

text \<open>
  C8. What one machine sends another receives: a UDP packet that \<open>NetSendUDPPacket\<close> transmits to a
  known Ethernet address, delivered to a machine that has the destination address and is in the same
  VLAN (or none), passes every check of \<open>NetReceive\<close>, the header checksum included, and its handler
  is called with the ports, the length and the data that were sent.
\<close>

theorem udp_delivered:
  assumes "ether_ok a" "length (mac_at a ether) = 6" "mac_at a ether \<noteq> NetEtherNullAddr"
    and "dest \<noteq> 0" "dest \<noteq> 0xFFFFFFFF" "28 + len < 65536" "same_vlan a b" "nt_our_ip b = dest"
  shows "\<exists>a' frame. NetSendUDPPacket ether dest dport sport len a = (0, a') \<and>
    nt_sent a' = nt_sent a @ [frame] \<and>
    deliver run g frame b =
      call_handler run (Some (write_bytes g 0 frame, NetEthHdrSize b + 28)) (ucast dport) (ucast sport) (of_nat len) b \<and>
    read_bytes (write_bytes g 0 frame) (NetEthHdrSize b + 28) len = send_data a len"
proof -
  obtain c m' where send: "NetSendUDPPacket ether dest dport sport len a =
      (0, a\<lparr>nt_ipid := nt_ipid a + 1, nt_tx := m',
            nt_sent := nt_sent a @ [udp_frame a (mac_at a ether) c dest dport sport (send_data a len)]\<rparr>)"
    "cksum_right (ip_header a c dest dport sport len)"
    using send_known [OF assms(1-5)] by blast
  show ?thesis
    unfolding send(1)
    using deliver_udp [OF assms(1,2), of c dest dport sport "send_data a len" b] send(2) assms by simp
qed

text \<open>
  C6. Address resolution works between two machines of this program: \<open>NetSendUDPPacket\<close> to an
  address whose Ethernet address is not known broadcasts an ARP request; the machine with that
  address answers it; the answer makes the first machine store the Ethernet address and send the
  packet that waited; and that one is delivered to the other machine's handler with its data.
\<close>

theorem arp_resolution:
  assumes a: "ether_ok a" "mac_at a ether = NetEtherNullAddr" "nt_our_ip a \<noteq> 0"
    and b: "ether_ok b" "nt_our_ip b = dest" "same_vlan a b"
    and dest: "dest \<noteq> 0" "dest \<noteq> 0xFFFFFFFF" "dest AND nt_mask a = nt_our_ip a AND nt_mask a" and len: "28 + len < 65536"
  shows "\<exists>a1 request b1 reply a2 frame.
    NetSendUDPPacket ether dest dport sport len a = (1, a1) \<and> nt_sent a1 = nt_sent a @ [request] \<and>
    deliver run_b g1 request b = Some b1 \<and> nt_sent b1 = nt_sent b @ [reply] \<and>
    deliver run_a g2 reply a1 = Some a2 \<and> nt_sent a2 = nt_sent a1 @ [frame] \<and>
    mac_at a2 ether = nt_our_ether b \<and> nt_arp_ip a2 = 0 \<and>
    deliver run_b g3 frame b1 =
      call_handler run_b (Some (write_bytes g3 0 frame, NetEthHdrSize b + 28)) (ucast dport) (ucast sport) (of_nat len) b1 \<and>
    read_bytes (write_bytes g3 0 frame) (NetEthHdrSize b + 28) len = send_data a len"
proof -
  let ?h = "NetEthHdrSize a"
  have hb: "NetEthHdrSize b = ?h" by (rule same_hdr_size [OF b(3)])
  have bcast: "ether \<noteq> NetBcastAddr" using a(2) by (auto simp: mac_at_def NetEtherNullAddr_def)
  obtain c m' where send: "NetSendUDPPacket ether dest dport sport len a =
      (1, ArpRequest (a\<lparr>nt_arp_ip := dest, nt_arp_mac := Some ether, nt_ipid := nt_ipid a + 1, nt_arp_tx := m',
            nt_arp_tx_size := ?h + 28 + len, nt_arp_try := 1, nt_arp_start := nt_clock a\<rparr>))"
    and wait: "read_bytes m' 0 (?h + 28 + len) = udp_frame a NetEtherNullAddr c dest dport sport (send_data a len)"
    and c: "cksum_right (ip_header a c dest dport sport len)"
    using send_unknown [OF a(1,2) dest(1,2)] by blast
  define n where "n = a\<lparr>nt_arp_ip := dest, nt_arp_mac := Some ether, nt_ipid := nt_ipid a + 1, nt_arp_tx := m',
            nt_arp_tx_size := ?h + 28 + len, nt_arp_try := 1, nt_arp_start := nt_clock a\<rparr>"
  have n: "ether_ok n" "NetEthHdrSize n = ?h" "next_hop n = dest" "eth_header n = eth_header a" "same_vlan n b"
    using a(1) b(3) dest(3)
    by (simp_all add: n_def ether_ok_def NetEthHdrSize_def next_hop_def eth_header_def fun_eq_iff same_vlan_def)
  let ?req = "eth_header a (replicate 6 0xff) PROT_ARP @
       arp_packet ARPOP_REQUEST (nt_our_ether a) (nt_our_ip a) (replicate 6 0) dest"
  obtain tx out where req: "ArpRequest n = n\<lparr>nt_out := out, nt_arp_reply_ip := dest, nt_tx := tx, nt_sent := nt_sent n @ [?req]\<rparr>"
    using ArpRequest_frame [OF n(1)] n(3,4) by (auto simp: n_def)
  define a1 where "a1 = ArpRequest n"
  have ea: "length (nt_our_ether a) = 6" and eb: "length (nt_our_ether b) = 6" using a(1) b(1) by (simp_all add: ether_ok_def)
  have lreq: "length (eth_header a (replicate 6 0xff) PROT_ARP) = ?h" using length_eth_header [OF a(1)] by simp
  have larp: "length (arp_packet op sha x tha y) = 28" if "length sha = 6" "length tha = 6" for op sha x tha y
    using that by (simp add: arp_packet_def)
  \<comment> \<open>the request\<close>
  let ?m1 = "write_bytes g1 0 ?req"
  note p1 = holds_frame_parts(1,2) [OF deliver_holds [of g1 "?req @ []", unfolded append_assoc], unfolded append_Nil2 lreq]
  have arp1: "read_bytes ?m1 ?h 28 = arp_packet ARPOP_REQUEST (nt_our_ether a) (nt_our_ip a) (replicate 6 0) dest"
    using p1(2) larp ea by simp
  have src1: "read_bytes ?m1 6 6 = nt_our_ether a"
    using read_bytes_drop_take [OF p1(1), of 6 6] ea
    by (simp add: NetEthHdrSize_def ETHER_HDR_SIZE_def VLAN_ETHER_HDR_SIZE_def eth_header_def)
  let ?rep = "eth_header b (nt_our_ether a) PROT_ARP @ arp_packet ARPOP_REPLY (nt_our_ether b) dest (nt_our_ether a) (nt_our_ip a)"
  define b1 where "b1 = b\<lparr>nt_sent := nt_sent b @ [?rep]\<rparr>"
  have "deliver run_b g1 ?req b = Some b1"
  proof -
    have "receive_arp ?m1 ?h 28 b = b1"
      using receive_arp_request [OF b(1,2) dest(1), of ?m1] arp1 ea src1 hb by (simp add: b1_def)
    moreover have "int (length ?req) = int ?h + 28" using lreq larp ea by simp
    ultimately show ?thesis
      using NetReceive_arp [OF p1(1) a(1) _ b(3), of "int (length ?req)" 28 run_b] by (simp add: deliver_def)
  qed
  note d1 = this
  \<comment> \<open>the reply\<close>
  let ?m2 = "write_bytes g2 0 ?rep"
  have lrep: "length (eth_header b (nt_our_ether a) PROT_ARP) = ?h" using length_eth_header [OF b(1) ea] hb by simp
  note p2 = holds_frame_parts(1,2) [OF deliver_holds [of g2 "?rep @ []", unfolded append_assoc], unfolded append_Nil2 lrep]
  have arp2: "read_bytes ?m2 ?h 28 = arp_packet ARPOP_REPLY (nt_our_ether b) dest (nt_our_ether a) (nt_our_ip a)"
    using p2(2) larp ea eb by simp
  have a1: "nt_our_ip a1 = nt_our_ip a" "nt_arp_ip a1 = dest" "nt_arp_mac a1 = Some ether" "nt_arp_reply_ip a1 = dest"
    "same_vlan b a1" "nt_arp_tx a1 = m'" "nt_arp_tx_size a1 = ?h + 28 + len" "nt_sent a1 = nt_sent a @ [?req]"
    using b(3) unfolding a1_def req same_vlan_def by (simp_all add: n_def)
  define a2 where "a2 = (store_mac ether (nt_our_ether b) a1)\<lparr>nt_arp_tx := write_bytes m' 0 (nt_our_ether b),
      nt_sent := nt_sent a1 @ [read_bytes (write_bytes m' 0 (nt_our_ether b)) 0 (?h + 28 + len)],
      nt_arp_ip := 0, nt_arp_tx_size := 0, nt_arp_mac := None\<rparr>"
  have "receive_arp ?m2 ?h 28 a1 = a2"
    using receive_arp_reply [OF arp2 eb ea a1(1) a(3) _ a1(3) bcast a1(4), of 28] a1 dest(1) by (simp add: a2_def)
  then have d2: "deliver run_a g2 ?rep a1 = Some a2"
  proof -
    assume "receive_arp ?m2 ?h 28 a1 = a2"
    moreover have "int (length ?rep) = int (NetEthHdrSize b) + 28" using lrep larp ea eb hb by simp
    ultimately show ?thesis
      using NetReceive_arp [OF _ b(1) ea a1(5), of ?m2 "int (length ?rep)" 28 run_a] p2(1) hb by (simp add: deliver_def)
  qed
  \<comment> \<open>the packet that waited\<close>
  let ?frame = "udp_frame a (nt_our_ether b) c dest dport sport (send_data a len)"
  have frame: "read_bytes (write_bytes m' 0 (nt_our_ether b)) 0 (?h + 28 + len) = ?frame"
  proof -
    have "udp_frame a addr c dest dport sport (send_data a len) = addr @ drop 6 ?frame" if "length addr = 6" for addr
      using that eb by (simp add: udp_frame_def eth_header_def)
    from this [of NetEtherNullAddr] this [OF eb] show ?thesis
      using wait eb overwrite_prefix [of m' 0 "?h + 28 + len" NetEtherNullAddr "drop 6 ?frame" "nt_our_ether b"]
      by (simp add: NetEtherNullAddr_def)
  qed
  have sent: "nt_sent a2 = nt_sent a1 @ [?frame]" "nt_arp_ip a2 = 0" by (simp_all add: a2_def frame)
  have mac: "mac_at a2 ether = nt_our_ether b"
    using bcast by (cases ether) (simp_all add: a2_def mac_at_def store_mac_def)
  have b1: "same_vlan a b1" "dest = nt_our_ip b1 \<or> dest = 0xFFFFFFFF" "NetEthHdrSize b1 = NetEthHdrSize b"
    using b by (simp_all add: b1_def same_vlan_def NetEthHdrSize_def)
  have d3: "deliver run_b g3 ?frame b1 =
      call_handler run_b (Some (write_bytes g3 0 ?frame, NetEthHdrSize b + 28)) (ucast dport) (ucast sport) (of_nat len) b1 \<and>
    read_bytes (write_bytes g3 0 ?frame) (NetEthHdrSize b + 28) len = send_data a len"
    using deliver_udp [OF a(1) eb _ _ b1(1,2), of c dport sport "send_data a len" run_b g3] c len by (simp add: b1(3))
  have "NetSendUDPPacket ether dest dport sport len a = (1, a1)" unfolding send a1_def n_def ..
  moreover have "nt_sent b1 = nt_sent b @ [?rep]" by (simp add: b1_def)
  ultimately show ?thesis using d1 d2 d3 sent mac a1(8) by blast
qed

text \<open>Two machines for the witnesses: 10.0.0.1 and 10.0.0.2, the second known to the first or not.\<close>

definition node :: "u32 \<Rightarrow> byte \<Rightarrow> byte list \<Rightarrow> net" where
  "node ip e server = \<lparr>nt_gateway = 0, nt_mask = 0xFFFFFF00, nt_our_ip = ip, nt_server_ip = 0x0A000002,
     nt_our_ether = [0, 1, 2, 3, 4, e], nt_server_ether = server, nt_ipid = 0, nt_vlan = 0xFFFF,
     nt_native_vlan = 0xFFFF, nt_state = NETLOOP_CONTINUE, nt_xfer_size = 0, nt_boot_file = [],
     nt_handler = Some Rx_Tftp, nt_time_handler = None, nt_time_start = 0, nt_time_delta = 0, nt_clock = 0,
     nt_tx = (\<lambda>_. 0x55), nt_arp_ip = 0, nt_arp_reply_ip = 0, nt_arp_mac = None, nt_arp_tx = (\<lambda>_. 0),
     nt_arp_tx_size = 0, nt_arp_start = 0, nt_arp_try = 0, nt_ping_ip = 0, nt_ping_mac = replicate 6 0,
     nt_ping_seq = 0, nt_sent = [], nt_out = [], nt_netretry = None, nt_hz = 1000\<rparr>"

lemma null6: "[0, 1, 2, 3, 4, 6] \<noteq> (replicate 6 0 :: byte list)"
  by (simp add: eval_nat_numeral)

theorem udp_delivered_witness:
  "\<exists>a' frame. NetSendUDPPacket NetServerEther 0x0A000002 69 1024 4 (node 0x0A000001 5 [0, 1, 2, 3, 4, 6]) = (0, a') \<and>
     nt_sent a' = [frame] \<and>
     deliver (\<lambda>_ _ _ _ len n. Some (n\<lparr>nt_xfer_size := len\<rparr>)) (\<lambda>_. 0) frame (node 0x0A000002 6 []) =
       Some ((node 0x0A000002 6 [])\<lparr>nt_xfer_size := 4\<rparr>)"
proof -
  let ?a = "node 0x0A000001 5 [0, 1, 2, 3, 4, 6]" and ?b = "node 0x0A000002 6 []"
  have "ether_ok ?a" "length (mac_at ?a NetServerEther) = 6" "mac_at ?a NetServerEther \<noteq> NetEtherNullAddr"
    "(0x0A000002 :: u32) \<noteq> 0" "(0x0A000002 :: u32) \<noteq> 0xFFFFFFFF" "28 + (4 :: nat) < 65536" "same_vlan ?a ?b"
    "nt_our_ip ?b = 0x0A000002"
    by (simp_all add: node_def ether_ok_def mac_at_def NetEtherNullAddr_def same_vlan_def null6)
  from udp_delivered [OF this, of 69 1024 "\<lambda>_ _ _ _ len n. Some (n\<lparr>nt_xfer_size := len\<rparr>)" "\<lambda>_. 0"]
  show ?thesis by (auto simp: node_def call_handler_def)
qed

theorem arp_resolution_witness:
  "\<exists>a1 request b1 reply a2.
    NetSendUDPPacket NetServerEther 0x0A000002 69 1024 4 (node 0x0A000001 5 (replicate 6 0)) = (1, a1) \<and>
    nt_sent a1 = [request] \<and>
    deliver (\<lambda>_ _ _ _ _. Some) (\<lambda>_. 0) request (node 0x0A000002 6 []) = Some b1 \<and> nt_sent b1 = [reply] \<and>
    deliver (\<lambda>_ _ _ _ _. Some) (\<lambda>_. 0) reply a1 = Some a2 \<and> nt_server_ether a2 = [0, 1, 2, 3, 4, 6]"
proof -
  let ?a = "node 0x0A000001 5 (replicate 6 0)" and ?b = "node 0x0A000002 6 []"
  have "ether_ok ?a" "mac_at ?a NetServerEther = NetEtherNullAddr" "nt_our_ip ?a \<noteq> 0"
    "ether_ok ?b" "nt_our_ip ?b = 0x0A000002" "same_vlan ?a ?b" "(0x0A000002 :: u32) \<noteq> 0"
    "(0x0A000002 :: u32) \<noteq> 0xFFFFFFFF" "0x0A000002 AND nt_mask ?a = nt_our_ip ?a AND nt_mask ?a"
    "28 + (4 :: nat) < 65536"
    by (simp_all add: node_def ether_ok_def mac_at_def NetEtherNullAddr_def same_vlan_def)
  from arp_resolution [OF this, of 69 1024 "\<lambda>_ _ _ _ _. Some" "\<lambda>_. 0" "\<lambda>_ _ _ _ _. Some" "\<lambda>_. 0" "\<lambda>_. 0"]
  obtain a1 request b1 reply a2 where
    "NetSendUDPPacket NetServerEther 0x0A000002 69 1024 4 ?a = (1, a1)" "nt_sent a1 = nt_sent ?a @ [request]"
    "deliver (\<lambda>_ _ _ _ _. Some) (\<lambda>_. 0) request ?b = Some b1" "nt_sent b1 = nt_sent ?b @ [reply]"
    "deliver (\<lambda>_ _ _ _ _. Some) (\<lambda>_. 0) reply a1 = Some a2" "mac_at a2 NetServerEther = nt_our_ether ?b"
    by blast
  moreover have "nt_sent ?a = []" "nt_sent ?b = []" "nt_our_ether ?b = [0, 1, 2, 3, 4, 6]" by (simp_all add: node_def)
  ultimately show ?thesis by (auto simp: mac_at_def)
qed

end
