(* ===== verification/Display.thy ===== *)
theory Display imports CmdLoad begin

text \<open>
  \<open>lib_generic/display_options.c\<close>: the banner with the version and the text of a size. The version is an argument;
  \<open>BUILD_TAG\<close> is not defined.
\<close>

definition display_options :: "byte list \<Rightarrow> byte list \<Rightarrow> int \<times> byte list" where
  "display_options version_string out =
     (0, printf (nl @ nl @ ''%s'' @ nl @ nl) [ArgStr (Some version_string)] out)"

text \<open>\<open>xxx kB\<close>, \<open>xxx.y kB\<close>, \<open>xxx MB\<close> or \<open>xxx.y MB\<close>, and a trailing string.\<close>

definition print_size :: "u32 \<Rightarrow> byte list \<Rightarrow> byte list \<Rightarrow> byte list" where
  "print_size sz s out =
     (let (c, d) = (if sz < 0x100000 then (chr CHR ''k'', 0x400) else (chr CHR ''M'', 0x100000));
          n = sz div d;
          m = (10 * (sz - n * d) + d div 2) div d;
          (m, n) = (if m \<ge> 10 then (m - 10, n + 1) else (m, n));
          out = printf ''%2ld'' [ArgInt n] out;
          out = (if m \<noteq> 0 then printf ''.%ld'' [ArgInt m] out else out)
      in printf '' %cB%s'' [ArgInt (ucast c), ArgStr (Some s)] out)"

end
