(* ===== verification/Tftp.thy ===== *)
theory Tftp imports NetCore CString Display begin

text \<open>
  The TFTP client of \<open>net/tftp.c\<close> and the loop \<open>NetLoop\<close> of \<open>net/net.c\<close> that drives it. The static
  variables of the file extend the record \<open>net\<close>; \<open>tf_mem\<close> is the memory the file is stored in and
  \<open>tf_settings\<close> the calls of \<open>setenv\<close> that \<open>NetLoop\<close> makes. A block is stored at
  \<open>load_addr + offset\<close>, an address of 32 bits.

  Modelled is a port without \<open>CFG_DIRECT_FLASH_TFTP\<close> and \<open>CONFIG_TFTP_PORT\<close>; \<open>NetLoop\<close> is modelled
  for the protocols TFTP and PING.
\<close>

section \<open>State\<close>

definition WELL_KNOWN_PORT :: u32 where "WELL_KNOWN_PORT = 69"
definition TIMEOUT :: u32 where "TIMEOUT = 5"
definition TIMEOUT_COUNT :: u32 where "TIMEOUT_COUNT = 10"
definition HASHES_PER_LINE :: u32 where "HASHES_PER_LINE = 65"
definition TFTP_RRQ :: u16 where "TFTP_RRQ = 1"
definition TFTP_DATA :: u16 where "TFTP_DATA = 3"
definition TFTP_ACK :: u16 where "TFTP_ACK = 4"
definition TFTP_ERROR :: u16 where "TFTP_ERROR = 5"
definition TFTP_OACK :: u16 where "TFTP_OACK = 6"
definition TFTP_BLOCK_SIZE :: u32 where "TFTP_BLOCK_SIZE = 512"
definition TFTP_SEQUENCE_SIZE :: u32 where "TFTP_SEQUENCE_SIZE = 0x10000"

lemmas tftp_consts =
  WELL_KNOWN_PORT_def TIMEOUT_def TIMEOUT_COUNT_def HASHES_PER_LINE_def TFTP_RRQ_def TFTP_DATA_def
  TFTP_ACK_def TFTP_ERROR_def TFTP_OACK_def TFTP_BLOCK_SIZE_def TFTP_SEQUENCE_SIZE_def

datatype tftp_state = STATE_RRQ | STATE_DATA | STATE_TOO_LARGE | STATE_BAD_MAGIC | STATE_OACK

record tftp = net +
  tf_server_port :: u32
  tf_our_port :: u32
  tf_timeout_count :: u32
  tf_block :: u32
  tf_last_block :: u32
  tf_block_wrap :: u32
  tf_wrap_offset :: u32
  tf_state :: tftp_state
  tf_filename :: "byte list"
  tf_boot_size :: u16
  tf_load_addr :: u32
  tf_mem :: mem
  tf_settings :: "(byte list \<times> byte list) list"

section \<open>The client\<close>

definition store_block :: "u32 \<Rightarrow> mem \<Rightarrow> nat \<Rightarrow> u32 \<Rightarrow> tftp \<Rightarrow> tftp" where
  "store_block block m src len t =
     (let offset = block * TFTP_BLOCK_SIZE + tf_wrap_offset t;
          newsize = offset + len;
          t = t\<lparr>tf_mem := write_bytes (tf_mem t) (unat (tf_load_addr t + offset)) (read_bytes m src (unat len))\<rparr>
      in if nt_xfer_size t < newsize then t\<lparr>nt_xfer_size := newsize\<rparr> else t)"

text \<open>The packet that \<open>TftpSend\<close> puts together.\<close>

definition tftp_packet :: "tftp \<Rightarrow> byte list" where
  "tftp_packet t =
     (case tf_state t of
        STATE_RRQ \<Rightarrow>
          be16 TFTP_RRQ @ tf_filename t @ [0] @ bytes ''octet'' @ [0] @ bytes ''timeout'' @ [0] @
          (case sprintf ''%d'' [ArgInt TIMEOUT] of None \<Rightarrow> [] | Some s \<Rightarrow> s) @ [0]
      | STATE_DATA \<Rightarrow> be16 TFTP_ACK @ be16 (ucast (tf_block t))
      | STATE_OACK \<Rightarrow> be16 TFTP_ACK @ be16 (ucast (tf_block t))
      | STATE_TOO_LARGE \<Rightarrow> be16 TFTP_ERROR @ be16 3 @ bytes ''File too large'' @ [0]
      | STATE_BAD_MAGIC \<Rightarrow> be16 TFTP_ERROR @ be16 2 @ bytes ''File has bad magic'' @ [0])"

definition TftpSend :: "tftp \<Rightarrow> tftp" where
  "TftpSend t =
     (let pkt = NetEthHdrSize t + IP_HDR_SIZE;
          data = tftp_packet t;
          t = t\<lparr>nt_tx := write_bytes (nt_tx t) pkt data\<rparr>
      in snd (NetSendUDPPacket NetServerEther (nt_server_ip t) (ucast (tf_server_port t)) (ucast (tf_our_port t))
           (length data) t))"

text \<open>Progress marks.\<close>

definition tftp_mark :: "tftp \<Rightarrow> tftp" where
  "tftp_mark t =
     (if tf_block t = 0 then
        let t = t\<lparr>tf_block_wrap := tf_block_wrap t + 1,
                  tf_wrap_offset := tf_wrap_offset t + TFTP_BLOCK_SIZE * TFTP_SEQUENCE_SIZE\<rparr>
        in t\<lparr>nt_out := printf (nl @ [CHR 0x09] @ '' %lu MB reveived'' @ nl @ [CHR 0x09] @ '' '')
               [ArgInt (drop_bit 20 (tf_wrap_offset t))] (nt_out t)\<rparr>
      else if (tf_block t - 1) mod 10 = 0 then put ''#'' t
      else if tf_block t mod (10 * HASHES_PER_LINE) = 0 then put (nl @ [CHR 0x09] @ '' '') t
      else t)"

definition tftp_first :: "u32 \<Rightarrow> tftp \<Rightarrow> tftp" where
  "tftp_first src t =
     t\<lparr>tf_state := STATE_DATA, tf_server_port := src, tf_last_block := 0, tf_block_wrap := 0, tf_wrap_offset := 0\<rparr>"

definition tftp_accept :: "mem \<Rightarrow> nat \<Rightarrow> u32 \<Rightarrow> tftp \<Rightarrow> tftp" where
  "tftp_accept m pkt len t =
     (if tf_block t = tf_last_block t then t
      else
        let t = t\<lparr>tf_last_block := tf_block t\<rparr>;
            t = NetSetTimeout (TIMEOUT * nt_hz t) Time_Tftp t;
            t = store_block (tf_block t - 1) m (pkt + 2) len t;
            t = TftpSend t
        in if len < TFTP_BLOCK_SIZE then (put (nl @ ''done'' @ nl) t)\<lparr>nt_state := NETLOOP_SUCCESS\<rparr> else t)"

definition tftp_data :: "mem \<Rightarrow> nat \<Rightarrow> u32 \<Rightarrow> u32 \<Rightarrow> tftp \<Rightarrow> tftp" where
  "tftp_data m pkt src len t =
     (if len < 2 then t
      else
        let len = len - 2;
            t = tftp_mark (t\<lparr>tf_block := ucast (rd16 m pkt)\<rparr>)
        in if tf_state t = STATE_RRQ \<or> tf_state t = STATE_OACK then
             (let t = tftp_first src t in
              if tf_block t \<noteq> 1 then
                NetStartAgain (t\<lparr>nt_out := printf (nl @ ''TFTP error: '' @ ''First block is not block 1 (%ld)'' @ nl @
                  ''Starting again'' @ nl @ nl) [ArgInt (tf_block t)] (nt_out t)\<rparr>)
              else tftp_accept m pkt len t)
           else tftp_accept m pkt len t)"

definition tftp_error :: "mem \<Rightarrow> nat \<Rightarrow> tftp \<Rightarrow> tftp option" where
  "tftp_error m pkt t =
     (case strlen m (pkt + 2) of
        None \<Rightarrow> None
      | Some k \<Rightarrow>
          let t = t\<lparr>nt_out := printf (nl @ ''TFTP error: '' @ [CHR 0x27] @ ''%s'' @ [CHR 0x27] @ '' (%d)'' @ nl)
                [ArgStr (Some (read_bytes m (pkt + 2) k)), ArgInt (ucast (rd16 m pkt))] (nt_out t)\<rparr>
          in Some (NetStartAgain (put (''Starting again'' @ nl @ nl) t)))"

definition TftpHandler :: "(mem \<times> nat) option \<Rightarrow> u32 \<Rightarrow> u32 \<Rightarrow> u32 \<Rightarrow> tftp \<Rightarrow> tftp option" where
  "TftpHandler pkt dest src len t =
     (if dest \<noteq> tf_our_port t then Some t
      else if tf_state t \<noteq> STATE_RRQ \<and> src \<noteq> tf_server_port t then Some t
      else if len < 2 then Some t
      else case pkt of
        None \<Rightarrow> None
      | Some (m, pkt) \<Rightarrow>
          let len = len - 2;
              proto = rd16 m pkt;
              pkt = pkt + 2
          in if proto = TFTP_OACK then Some (TftpSend (t\<lparr>tf_state := STATE_OACK, tf_server_port := src\<rparr>))
             else if proto = TFTP_DATA then Some (tftp_data m pkt src len t)
             else if proto = TFTP_ERROR then tftp_error m pkt t
             else Some t)"

definition TftpTimeout :: "tftp \<Rightarrow> tftp" where
  "TftpTimeout t =
     (let t = t\<lparr>tf_timeout_count := tf_timeout_count t + 1\<rparr> in
      if tf_timeout_count t > TIMEOUT_COUNT
      then NetStartAgain (put (nl @ ''Retry count exceeded; starting again'' @ nl) t)
      else TftpSend (NetSetTimeout (TIMEOUT * nt_hz t) Time_Tftp (put ''T '' t)))"

definition default_filename :: "u32 \<Rightarrow> byte list" where
  "default_filename ip =
     (case sprintf ''%02lX%02lX%02lX%02lX.img''
        [ArgInt (ip AND 0xFF), ArgInt (drop_bit 8 ip AND 0xFF), ArgInt (drop_bit 16 ip AND 0xFF),
         ArgInt (drop_bit 24 ip AND 0xFF)] of
        None \<Rightarrow> [] | Some s \<Rightarrow> s)"

text \<open>What \<open>TftpStart\<close> prints after the choice of the file name.\<close>

definition tftp_banner :: "tftp \<Rightarrow> byte list" where
  "tftp_banner t =
     (let out = print_IPaddr (nt_server_ip t) (puts ''TFTP from server '' (nt_out t));
          out = print_IPaddr (nt_our_ip t) (puts ''; our IP address is '' out);
          out = (if nt_gateway t \<noteq> 0 \<and> nt_mask t \<noteq> 0 \<and> nt_our_ip t AND nt_mask t \<noteq> nt_server_ip t AND nt_mask t
                 then print_IPaddr (nt_gateway t) (puts ''; sending through gateway '' out) else out);
          out = puts nl out;
          out = printf (''Filename '' @ [CHR 0x27] @ ''%s'' @ [CHR 0x27] @ ''.'') [ArgStr (Some (tf_filename t))] out;
          sz = push_bit 9 (ucast (tf_boot_size t));
          out = (if tf_boot_size t \<noteq> 0 then print_size sz [] (printf '' Size is 0x%x Bytes = '' [ArgInt sz] out)
                 else out);
          out = puts nl out;
          out = printf (''Load address: 0x%lx'' @ nl) [ArgInt (tf_load_addr t)] out
      in puts (''Loading: *'' @ [CHR 0x08]) out)"

definition TftpStart :: "tftp \<Rightarrow> tftp" where
  "TftpStart t =
     (let t = (if peek (nt_boot_file t) = 0 then
                 let t = t\<lparr>tf_filename := default_filename (nt_our_ip t)\<rparr>
                 in t\<lparr>nt_out := printf (''*** Warning: no boot file name; using '' @ [CHR 0x27] @ ''%s'' @ [CHR 0x27] @ nl)
                        [ArgStr (Some (tf_filename t))] (nt_out t)\<rparr>
               else t\<lparr>tf_filename := nt_boot_file t\<rparr>);
          t = t\<lparr>nt_out := tftp_banner t\<rparr>;
          t = NetSetHandler Rx_Tftp (NetSetTimeout (TIMEOUT * nt_hz t) Time_Tftp t);
          t = t\<lparr>tf_server_port := WELL_KNOWN_PORT, tf_timeout_count := 0, tf_state := STATE_RRQ,
                tf_our_port := 1024 + nt_clock t mod 3072, tf_block := 0, nt_server_ether := replicate 6 0\<rparr>
      in TftpSend t)"

section \<open>The loop\<close>

definition run_rx :: "rx_handler \<Rightarrow> (mem \<times> nat) option \<Rightarrow> u32 \<Rightarrow> u32 \<Rightarrow> u32 \<Rightarrow> tftp \<Rightarrow> tftp option" where
  "run_rx h pkt dest src len t =
     (case h of Rx_Tftp \<Rightarrow> TftpHandler pkt dest src len t
              | Rx_startAgain \<Rightarrow> Some (startAgainHandler t)
              | Rx_Ping \<Rightarrow> PingHandler pkt t)"

definition run_time :: "time_handler \<Rightarrow> tftp \<Rightarrow> tftp" where
  "run_time h t = (case h of Time_Tftp \<Rightarrow> TftpTimeout t | Time_startAgain \<Rightarrow> startAgainTimeout t
                           | Time_Ping \<Rightarrow> PingTimeout t)"

text \<open>
  What the loop reads in one round: the frames that \<open>eth_rx\<close> hands to \<open>NetReceive\<close>, the time, and
  whether \<open>ctrlc\<close> returns true.
\<close>

record round_input =
  ri_frames :: "(mem \<times> int) list"
  ri_time :: u32
  ri_ctrlc :: bool

fun receive_all :: "(mem \<times> int) list \<Rightarrow> tftp \<Rightarrow> tftp option" where
  "receive_all [] t = Some t"
| "receive_all ((m, len) # fs) t = Option.bind (NetReceive run_rx m len t) (receive_all fs)"

definition check_timer :: "tftp \<Rightarrow> tftp" where
  "check_timer t =
     (case nt_time_handler t of
        None \<Rightarrow> t
      | Some h \<Rightarrow>
          if nt_clock t - nt_time_start t > nt_time_delta t
          then run_time h (t\<lparr>nt_time_handler := None\<rparr>) else t)"

text \<open>What a round ends with: another round, \<open>goto restart\<close>, or a return from \<open>NetLoop\<close>.\<close>

datatype round_result = Again tftp | Restart tftp | Return int tftp

definition loop_success :: "tftp \<Rightarrow> tftp" where
  "loop_success t =
     (if nt_xfer_size t > 0 then
        t\<lparr>nt_out := printf (''Bytes transferred = %ld (%lx hex)'' @ nl)
              [ArgInt (nt_xfer_size t), ArgInt (nt_xfer_size t)] (nt_out t),
          tf_settings := tf_settings t @
            [(bytes ''filesize'', the (sprintf ''%lx'' [ArgInt (nt_xfer_size t)])),
             (bytes ''fileaddr'', the (sprintf ''%lX'' [ArgInt (tf_load_addr t)]))]\<rparr>
      else t)"

definition net_round :: "round_input \<Rightarrow> tftp \<Rightarrow> round_result option" where
  "net_round inp t =
     (case receive_all (ri_frames inp) (t\<lparr>nt_clock := ri_time inp\<rparr>) of
        None \<Rightarrow> None
      | Some t \<Rightarrow>
          if ri_ctrlc inp then Some (Return (-1) (put (nl @ ''Abort'' @ nl) t))
          else
            let t = check_timer (ArpTimeoutCheck t) in
            Some (case nt_state t of
                    NETLOOP_RESTART \<Rightarrow> Restart t
                  | NETLOOP_SUCCESS \<Rightarrow> Return (sint (nt_xfer_size t)) (loop_success t)
                  | NETLOOP_FAIL \<Rightarrow> Return (-1) t
                  | NETLOOP_CONTINUE \<Rightarrow> Again t))"

text \<open>
  From the label \<open>restart\<close> to the loop; \<open>Inl\<close> is a return. The settings come from the environment
  (\<open>getenv\<close>) and the board data: \<open>ip\<close> and \<open>ether\<close>.
\<close>

definition net_setup ::
    "(byte list \<Rightarrow> byte list option) \<Rightarrow> u32 \<Rightarrow> byte list \<Rightarrow> proto \<Rightarrow> tftp \<Rightarrow> (int \<times> tftp) + tftp" where
  "net_setup getenv ip ether protocol t =
     (let t = t\<lparr>nt_our_ether := ether, nt_state := NETLOOP_CONTINUE\<rparr>;
          t = t\<lparr>nt_our_ip := ip, nt_gateway := string_to_ip (getenv (bytes ''gatewayip'')),
                nt_mask := string_to_ip (getenv (bytes ''netmask'')),
                nt_vlan := string_to_VLAN (getenv (bytes ''vlan'')),
                nt_native_vlan := string_to_VLAN (getenv (bytes ''nvlan''))\<rparr>;
          t = (if protocol = TFTP then t\<lparr>nt_server_ip := string_to_ip (getenv (bytes ''serverip''))\<rparr> else t)
      in case net_check_prereq protocol t of
           (r, t) \<Rightarrow>
             if r = 1 then Inl (-1, t)
             else Inr ((if protocol = TFTP then TftpStart t else PingStart t)\<lparr>nt_xfer_size := 0\<rparr>))"

text \<open>\<open>Inr\<close>: the loop still runs when the inputs are used up.\<close>

fun net_rounds ::
    "(byte list \<Rightarrow> byte list option) \<Rightarrow> u32 \<Rightarrow> byte list \<Rightarrow> proto \<Rightarrow> round_input list \<Rightarrow> tftp \<Rightarrow>
     ((int \<times> tftp) + tftp) option"
where
  "net_rounds getenv ip ether protocol [] t = Some (Inr t)"
| "net_rounds getenv ip ether protocol (inp # inps) t =
     (case net_round inp t of
        None \<Rightarrow> None
      | Some (Return r t) \<Rightarrow> Some (Inl (r, t))
      | Some (Again t) \<Rightarrow> net_rounds getenv ip ether protocol inps t
      | Some (Restart t) \<Rightarrow>
          (case net_setup getenv ip ether protocol t of
             Inl r \<Rightarrow> Some (Inl r)
           | Inr t \<Rightarrow> net_rounds getenv ip ether protocol inps t))"

definition NetLoop ::
    "(byte list \<Rightarrow> byte list option) \<Rightarrow> u32 \<Rightarrow> byte list \<Rightarrow> proto \<Rightarrow> round_input list \<Rightarrow> tftp \<Rightarrow>
     ((int \<times> tftp) + tftp) option"
where
  "NetLoop getenv ip ether protocol inps t =
     (let t = t\<lparr>nt_arp_mac := None, nt_arp_ip := 0, nt_arp_reply_ip := 0, nt_arp_tx_size := 0\<rparr> in
      case net_setup getenv ip ether protocol t of
        Inl r \<Rightarrow> Some (Inl r)
      | Inr t \<Rightarrow> net_rounds getenv ip ether protocol inps t)"

section \<open>What sending leaves alone\<close>

text \<open>Equal in all but the transmit side: the buffers, the packets sent, the address resolution, the console.\<close>

definition tx_only :: "tftp \<Rightarrow> tftp \<Rightarrow> bool" where
  "tx_only t t' \<longleftrightarrow> t' = t\<lparr>nt_arp_ip := nt_arp_ip t', nt_arp_mac := nt_arp_mac t',
     nt_ipid := nt_ipid t', nt_arp_tx := nt_arp_tx t', nt_arp_tx_size := nt_arp_tx_size t', nt_arp_try := nt_arp_try t',
     nt_arp_start := nt_arp_start t', nt_arp_reply_ip := nt_arp_reply_ip t', nt_out := nt_out t', nt_tx := nt_tx t',
     nt_sent := nt_sent t'\<rparr>"

lemma tx_only_refl [simp]: "tx_only t t"
  by (simp add: tx_only_def)

lemma tx_only_trans: "tx_only a b \<Longrightarrow> tx_only b c \<Longrightarrow> tx_only a c"
  by (cases a, cases b, cases c) (simp add: tx_only_def)

lemma tx_only_updates:
  "tx_only t (t\<lparr>nt_arp_ip := x1\<rparr>)" "tx_only t (t\<lparr>nt_arp_mac := x2\<rparr>)" "tx_only t (t\<lparr>nt_ipid := x3\<rparr>)"
  "tx_only t (t\<lparr>nt_arp_tx := x4\<rparr>)" "tx_only t (t\<lparr>nt_arp_tx_size := x5\<rparr>)" "tx_only t (t\<lparr>nt_arp_try := x6\<rparr>)"
  "tx_only t (t\<lparr>nt_arp_start := x7\<rparr>)" "tx_only t (t\<lparr>nt_arp_reply_ip := x8\<rparr>)" "tx_only t (t\<lparr>nt_out := x9\<rparr>)"
  "tx_only t (t\<lparr>nt_tx := x10\<rparr>)" "tx_only t (t\<lparr>nt_sent := x11\<rparr>)"
  by (simp_all add: tx_only_def)

lemma tx_only_eth_send: "tx_only t t' \<Longrightarrow> tx_only t (eth_send f t')"
  unfolding eth_send_def by (rule tx_only_trans [OF _ tx_only_updates(11)])

lemma tx_only_put: "tx_only t (put s t)"
  by (simp add: put_def tx_only_updates)

lemma tx_only_ArpRequest: "tx_only t (ArpRequest t)"
proof -
  have "\<exists>x y z u. ArpRequest t = t\<lparr>nt_out := x, nt_arp_reply_ip := y, nt_tx := z, nt_sent := u\<rparr>"
  proof -
    obtain m p where eth: "NetSetEther t (nt_tx t) 0 (mac_at t NetBcastAddr) PROT_ARP = (m, p)" by fastforce
    define o1 where "o1 = (if nt_arp_ip t AND nt_mask t \<noteq> nt_our_ip t AND nt_mask t \<and> nt_gateway t = 0
      then puts (''## Warning: gatewayip needed but not set'' @ nl) (nt_out t) else nt_out t)"
    show ?thesis
      unfolding ArpRequest_def eth Let_def prod.case put_def eth_send_def
      by (rule exI [of _ o1]) (auto simp: o1_def)
  qed
  then obtain x y z u where "ArpRequest t = t\<lparr>nt_out := x, nt_arp_reply_ip := y, nt_tx := z, nt_sent := u\<rparr>" by blast
  then show ?thesis by (simp add: tx_only_def)
qed

lemma tx_only_NetSendUDPPacket: "tx_only t (snd (NetSendUDPPacket e d dp sp len t))"
proof -
  have ip: "\<exists>m. NetSetIP n m0 p d dp sp len = (m, n\<lparr>nt_ipid := nt_ipid n + 1\<rparr>)" for n :: tftp and m0 p d
    by (simp add: NetSetIP_def Let_def)
  show ?thesis
    unfolding NetSendUDPPacket_def Let_def
    by (auto simp: NetSetIP_def Let_def split: prod.split
        intro!: tx_only_trans [OF _ tx_only_ArpRequest] tx_only_eth_send) (simp_all add: tx_only_def)
qed

lemma tx_only_TftpSend: "tx_only t (TftpSend t)"
proof -
  have "tx_only t (t\<lparr>nt_tx := x\<rparr>)" for x by (rule tx_only_updates)
  then show ?thesis unfolding TftpSend_def Let_def using tx_only_trans tx_only_NetSendUDPPacket by blast
qed

lemma tx_only_keeps:
  assumes "tx_only t t'"
  shows "nt_state t' = nt_state t" "nt_xfer_size t' = nt_xfer_size t" "nt_clock t' = nt_clock t" "nt_hz t' = nt_hz t"
    "nt_handler t' = nt_handler t" "nt_time_handler t' = nt_time_handler t" "nt_netretry t' = nt_netretry t"
    "tf_server_port t' = tf_server_port t" "tf_our_port t' = tf_our_port t" "tf_timeout_count t' = tf_timeout_count t"
    "tf_block t' = tf_block t" "tf_last_block t' = tf_last_block t" "tf_block_wrap t' = tf_block_wrap t"
    "tf_wrap_offset t' = tf_wrap_offset t" "tf_state t' = tf_state t" "tf_load_addr t' = tf_load_addr t"
    "tf_mem t' = tf_mem t"
  by (subst assms [unfolded tx_only_def]; simp)+

lemmas send_keeps [simp] = tx_only_keeps [OF tx_only_TftpSend]
lemmas put_keeps [simp] = tx_only_keeps [OF tx_only_put]

section \<open>A transfer\<close>

text \<open>
  \<open>got F load server port t k\<close>: the first \<open>k\<close> blocks of the file \<open>F\<close> have been received and stored.
\<close>

definition blocks :: "byte list \<Rightarrow> nat" where
  "blocks F = length F div 512"

definition block :: "byte list \<Rightarrow> nat \<Rightarrow> byte list" where
  "block F k = take 512 (drop (512 * k) F)"

definition stored :: "byte list \<Rightarrow> tftp \<Rightarrow> nat \<Rightarrow> bool" where
  "stored F t k \<longleftrightarrow>
     read_bytes (tf_mem t) (unat (tf_load_addr t)) (min (512 * k) (length F)) = take (512 * k) F \<and>
     nt_xfer_size t = of_nat (min (512 * k) (length F))"

definition fits :: "byte list \<Rightarrow> tftp \<Rightarrow> bool" where
  "fits F t \<longleftrightarrow> unat (tf_load_addr t) + length F < 2 ^ 32"

definition got :: "byte list \<Rightarrow> u32 \<Rightarrow> u32 \<Rightarrow> u32 \<Rightarrow> tftp \<Rightarrow> nat \<Rightarrow> bool" where
  "got F load server port t k \<longleftrightarrow> tf_load_addr t = load \<and> fits F t \<and> stored F t k \<and> tf_our_port t = port \<and>
     (if k = 0 then tf_state t = STATE_RRQ \<or> tf_state t = STATE_OACK \<and> tf_server_port t = server
      else tf_state t = STATE_DATA \<and> tf_server_port t = server \<and> tf_last_block t = of_nat (k mod 65536) \<and>
        tf_wrap_offset t = of_nat (k div 65536 * 0x2000000))"

text \<open>A packet with block \<open>k + 1\<close>.\<close>

definition data_packet :: "byte list \<Rightarrow> nat \<Rightarrow> mem \<times> nat \<Rightarrow> u32 \<Rightarrow> bool" where
  "data_packet F k pkt len \<longleftrightarrow>
     len = of_nat (4 + length (block F k)) \<and>
     read_bytes (fst pkt) (snd pkt) (4 + length (block F k)) = be16 TFTP_DATA @ be16 (of_nat (k + 1)) @ block F k"

lemma length_block: "length (block F k) = min 512 (length F - 512 * k)"
  by (simp add: block_def)

lemma length_block_le: "length (block F k) \<le> 512"
  by (simp add: block_def)

lemma data_packet_fields:
  assumes "data_packet F k (m, p) len"
  shows "rd16 m p = TFTP_DATA" "rd16 m (p + 2) = of_nat (k + 1)"
    "read_bytes m (p + 4) (length (block F k)) = block F k" "unat len = 4 + length (block F k)"
proof -
  have hdr: "read_bytes m p (4 + length (block F k)) = be16 TFTP_DATA @ be16 (of_nat (k + 1)) @ block F k"
    and len: "len = of_nat (4 + length (block F k))"
    using assms by (simp_all add: data_packet_def)
  show "rd16 m p = TFTP_DATA" using rd16_at [OF hdr, of 0] by (simp add: be16_def)
  show "rd16 m (p + 2) = of_nat (k + 1)" by (rule rd16_at [OF hdr]) (simp_all add: be16_def)
  show "read_bytes m (p + 4) (length (block F k)) = block F k"
    by (subst read_bytes_drop_take [OF hdr]) (simp_all add: be16_def)
  show "unat len = 4 + length (block F k)"
    unfolding len using length_block_le [of F k] by (simp add: unat_of_nat take_bit_nat_eq_self flip: of_nat_add)
qed

lemma mark_keeps [simp]:
  "nt_state (tftp_mark t) = nt_state t" "nt_xfer_size (tftp_mark t) = nt_xfer_size t"
  "nt_hz (tftp_mark t) = nt_hz t" "tf_server_port (tftp_mark t) = tf_server_port t"
  "tf_our_port (tftp_mark t) = tf_our_port t" "tf_timeout_count (tftp_mark t) = tf_timeout_count t"
  "tf_block (tftp_mark t) = tf_block t" "tf_last_block (tftp_mark t) = tf_last_block t"
  "tf_state (tftp_mark t) = tf_state t" "tf_load_addr (tftp_mark t) = tf_load_addr t"
  "tf_mem (tftp_mark t) = tf_mem t"
  "tf_wrap_offset (tftp_mark t) = (if tf_block t = 0 then tf_wrap_offset t + 0x2000000 else tf_wrap_offset t)"
  by (simp_all add: tftp_mark_def Let_def tftp_consts)

lemma store_block_keeps [simp]:
  "nt_state (store_block b m s len t) = nt_state t" "nt_hz (store_block b m s len t) = nt_hz t"
  "tf_server_port (store_block b m s len t) = tf_server_port t" "tf_our_port (store_block b m s len t) = tf_our_port t"
  "tf_timeout_count (store_block b m s len t) = tf_timeout_count t" "tf_block (store_block b m s len t) = tf_block t"
  "tf_last_block (store_block b m s len t) = tf_last_block t" "tf_wrap_offset (store_block b m s len t) = tf_wrap_offset t"
  "tf_state (store_block b m s len t) = tf_state t" "tf_load_addr (store_block b m s len t) = tf_load_addr t"
  by (simp_all add: store_block_def Let_def)

lemma timeout_keeps [simp]:
  "nt_state (NetSetTimeout iv f t) = nt_state t" "nt_xfer_size (NetSetTimeout iv f t) = nt_xfer_size t"
  "tf_server_port (NetSetTimeout iv f t) = tf_server_port t" "tf_our_port (NetSetTimeout iv f t) = tf_our_port t"
  "tf_timeout_count (NetSetTimeout iv f t) = tf_timeout_count t" "tf_block (NetSetTimeout iv f t) = tf_block t"
  "tf_last_block (NetSetTimeout iv f t) = tf_last_block t" "tf_wrap_offset (NetSetTimeout iv f t) = tf_wrap_offset t"
  "tf_state (NetSetTimeout iv f t) = tf_state t" "tf_load_addr (NetSetTimeout iv f t) = tf_load_addr t"
  "tf_mem (NetSetTimeout iv f t) = tf_mem t"
  by (simp_all add: NetSetTimeout_def)

text \<open>The offset of a block, over any number of wraps of the sequence number.\<close>

lemma block_offset:
  "((of_nat ((k + 1) mod 65536) :: u32) - 1) * 512 + of_nat ((k + 1) div 65536 * 0x2000000) = of_nat (512 * k)"
proof -
  define s q where "s = (k + 1) mod 65536" and "q = (k + 1) div 65536"
  have "q * 65536 + s = k + 1" unfolding s_def q_def by (rule div_mult_mod_eq)
  then have "512 * s + q * 0x2000000 = 512 * k + 512" by linarith
  then have "512 * ((k + 1) mod 65536) + (k + 1) div 65536 * 0x2000000 = 512 * k + 512"
    unfolding s_def q_def .
  then have "(of_nat (512 * ((k + 1) mod 65536) + (k + 1) div 65536 * 0x2000000) :: u32) = of_nat (512 * k + 512)"
    by (rule arg_cong)
  then show ?thesis by (simp add: algebra_simps)
qed

lemma wrap_step:
  "(if (k + 1) mod 65536 = 0 then of_nat (k div 65536 * 0x2000000) + 0x2000000 else of_nat (k div 65536 * 0x2000000)) =
   (of_nat ((k + 1) div 65536 * 0x2000000) :: u32)"
  by (auto simp: mod_Suc div_Suc algebra_simps)

lemma seq_word: "(ucast (of_nat n :: u16) :: u32) = of_nat (n mod 65536)"
  by (simp add: word_unat_eq_iff unsigned_ucast_eq unat_of_nat take_bit_eq_mod)

lemma seq_eq: "(of_nat (i mod 65536) :: u32) = of_nat (j mod 65536) \<longleftrightarrow> i mod 65536 = j mod 65536"
proof -
  have "i mod 65536 < 65536" "j mod 65536 < 65536" by simp_all
  then have "i mod 65536 < 4294967296" "j mod 65536 < 4294967296" by linarith+
  then show ?thesis by (simp add: word_unat_eq_iff unat_of_nat take_bit_nat_eq_self)
qed

lemma stored_step:
  assumes st: "stored F t k" and fit: "fits F t" and k: "512 * k \<le> length F"
    and off: "(tf_block t - 1) * 512 + tf_wrap_offset t = of_nat (512 * k)"
    and data: "read_bytes m s (length (block F k)) = block F k" and len: "unat len = length (block F k)"
  shows "stored F (store_block (tf_block t - 1) m s len t) (k + 1)"
proof -
  let ?L = "unat (tf_load_addr t)" and ?n = "length (block F k)"
  have n: "512 * k + ?n = min (512 * (k + 1)) (length F)" using k by (simp add: length_block)
  have small: "?L + 512 * k + ?n < 2 ^ 32" using fit n unfolding fits_def by linarith
  have w: "unat (of_nat (512 * k) :: u32) = 512 * k"
    using small by (simp add: unat_of_nat take_bit_nat_eq_self del: of_nat_mult)
  have addr: "unat (tf_load_addr t + of_nat (512 * k)) = ?L + 512 * k"
    using small by (subst unat_add_lem [THEN iffD1]) (simp_all add: w del: of_nat_mult)
  have lenw: "len = of_nat ?n" unfolding len [symmetric] by simp
  have take: "take (512 * k) F @ block F k = take (512 * (k + 1)) F"
    unfolding block_def by (metis take_add mult.commute mult_Suc Suc_eq_plus1 add.commute)
  let ?mem = "write_bytes (tf_mem t) (?L + 512 * k) (block F k)"
  have "read_bytes ?mem ?L (512 * k + ?n) = take (512 * k) F @ block F k"
    using st k read_write_bytes [of "tf_mem t" "?L + 512 * k" "block F k"]
    by (simp add: read_bytes_add read_bytes_write_before stored_def)
  then have mem: "read_bytes ?mem ?L (min (512 * (k + 1)) (length F)) = take (512 * (k + 1)) F"
    unfolding n take .
  have size: "nt_xfer_size t = of_nat (512 * k)" using st k by (simp add: stored_def)
  have "of_nat (512 * k) < (of_nat (512 * k) + of_nat ?n :: u32) \<longleftrightarrow> 0 < ?n"
    using small by (simp add: word_less_nat_alt unat_of_nat take_bit_nat_eq_self del: of_nat_mult of_nat_add flip: of_nat_add)
  then have xfer: "(if nt_xfer_size t < of_nat (512 * k) + len then of_nat (512 * k) + len else nt_xfer_size t) =
      of_nat (min (512 * (k + 1)) (length F))"
    unfolding size lenw n [symmetric] by auto
  let ?t = "store_block (tf_block t - 1) m s len t"
  define t1 where "t1 = t\<lparr>tf_mem := ?mem\<rparr>"
  have eq: "?t = (if nt_xfer_size t < of_nat (512 * k) + len then t1\<lparr>nt_xfer_size := of_nat (512 * k) + len\<rparr> else t1)"
    unfolding store_block_def Let_def TFTP_BLOCK_SIZE_def off addr len data t1_def by simp
  have "tf_mem ?t = ?mem" "tf_load_addr ?t = tf_load_addr t" by (simp_all add: eq t1_def)
  moreover have "nt_xfer_size ?t = of_nat (min (512 * (k + 1)) (length F))"
    unfolding xfer [symmetric] by (simp add: eq t1_def)
  ultimately show ?thesis unfolding stored_def using mem by simp
qed

text \<open>The next block is stored; the last one ends the transfer.\<close>

lemma accept_fields:
  fixes m :: mem and p :: nat and len :: u32
  assumes "tf_block t \<noteq> tf_last_block t"
  defines "t1 \<equiv> store_block (tf_block t - 1) m (p + 2) len t"
  shows "tf_mem (tftp_accept m p len t) = tf_mem t1" "nt_xfer_size (tftp_accept m p len t) = nt_xfer_size t1"
    "tf_load_addr (tftp_accept m p len t) = tf_load_addr t" "tf_our_port (tftp_accept m p len t) = tf_our_port t"
    "tf_state (tftp_accept m p len t) = tf_state t" "tf_server_port (tftp_accept m p len t) = tf_server_port t"
    "tf_last_block (tftp_accept m p len t) = tf_block t" "tf_wrap_offset (tftp_accept m p len t) = tf_wrap_offset t"
    "tf_timeout_count (tftp_accept m p len t) = tf_timeout_count t"
    "nt_state (tftp_accept m p len t) = (if len < 512 then NETLOOP_SUCCESS else nt_state t)"
proof -
  have "tf_mem (store_block b m s len u) = tf_mem (store_block b m s len v) \<and>
      nt_xfer_size (store_block b m s len u) = nt_xfer_size (store_block b m s len v)"
    if "tf_mem u = tf_mem v" "tf_load_addr u = tf_load_addr v" "tf_wrap_offset u = tf_wrap_offset v"
      "nt_xfer_size u = nt_xfer_size v" for b m s len and u v :: tftp
    using that by (simp add: store_block_def Let_def)
  from this [of "NetSetTimeout (TIMEOUT * nt_hz t) Time_Tftp (t\<lparr>tf_last_block := tf_block t\<rparr>)" t]
  show "tf_mem (tftp_accept m p len t) = tf_mem t1" "nt_xfer_size (tftp_accept m p len t) = nt_xfer_size t1"
    using assms by (simp_all add: tftp_accept_def Let_def t1_def)
qed (use assms in \<open>simp_all add: tftp_accept_def Let_def tftp_consts\<close>)

lemma stored_cong:
  "tf_mem t' = tf_mem t \<Longrightarrow> tf_load_addr t' = tf_load_addr t \<Longrightarrow> nt_xfer_size t' = nt_xfer_size t \<Longrightarrow>
   stored F t' k = stored F t k" "tf_load_addr t' = tf_load_addr t \<Longrightarrow> fits F t' = fits F t"
  by (simp_all add: stored_def fits_def)

lemma accept_next:
  fixes m :: mem and p :: nat and len :: u32
  assumes st: "stored F t k" "fits F t" and k: "512 * k \<le> length F" and pkt: "data_packet F k (m, p) len"
    and blk: "tf_block t = of_nat ((k + 1) mod 65536)" "tf_last_block t = of_nat (k mod 65536)"
    and off: "tf_wrap_offset t = of_nat ((k + 1) div 65536 * 0x2000000)" and sd: "tf_state t = STATE_DATA"
  defines "t' \<equiv> tftp_accept m (p + 2) (len - 2 - 2) t"
  shows "got F (tf_load_addr t) (tf_server_port t) (tf_our_port t) t' (k + 1)"
    "nt_state t' = (if k < blocks F then nt_state t else NETLOOP_SUCCESS)"
    "tf_timeout_count t' = tf_timeout_count t"
proof -
  let ?n = "length (block F k)"
  have "(k + 1) mod 65536 \<noteq> k mod 65536" by (auto simp: mod_Suc)
  then have ne: "tf_block t \<noteq> tf_last_block t" unfolding blk seq_eq .
  have n: "unat (len - 2 - 2) = ?n"
    using data_packet_fields(4) [OF pkt] length_block_le [of F k] by (simp add: unat_sub_if_size word_size)
  have offset: "(tf_block t - 1) * 512 + tf_wrap_offset t = of_nat (512 * k)"
    unfolding blk off by (rule block_offset)
  have p4: "p + 2 + 2 = p + 4" by simp
  have data: "read_bytes m (p + 2 + 2) ?n = block F k" unfolding p4 by (rule data_packet_fields(3) [OF pkt])
  note step = stored_step [OF st k offset data n]
  note f = accept_fields [OF ne, of m "p + 2" "len - 2 - 2"]
  have "len - 2 - 2 < 512 \<longleftrightarrow> ?n < 512" unfolding word_less_nat_alt n by simp
  moreover have "?n < 512 \<longleftrightarrow> \<not> k < blocks F" using k by (auto simp: length_block blocks_def)
  ultimately show "nt_state t' = (if k < blocks F then nt_state t else NETLOOP_SUCCESS)"
    using f(10) by (simp add: t'_def)
  have "stored F t' (k + 1)" using step stored_cong(1) [of t' "store_block (tf_block t - 1) m (p + 2 + 2) (len - 2 - 2) t"]
    f(1-3) by (simp add: t'_def)
  then show "got F (tf_load_addr t) (tf_server_port t) (tf_our_port t) t' (k + 1)"
    using st(2) stored_cong(2) [of t' t F] f blk(1) off sd by (simp add: got_def t'_def)
  show "tf_timeout_count t' = tf_timeout_count t" using f(9) by (simp add: t'_def)
qed

lemma handler_next:
  assumes g: "got F load server port t k" and k: "512 * k \<le> length F" and pkt: "data_packet F k (m, p) len"
  shows "\<exists>t'. TftpHandler (Some (m, p)) port server len t = Some t' \<and> got F load server port t' (k + 1) \<and>
    nt_state t' = (if k < blocks F then nt_state t else NETLOOP_SUCCESS) \<and> tf_timeout_count t' = tf_timeout_count t"
proof -
  note f = data_packet_fields [OF pkt]
  have len: "\<not> len < 2" "\<not> len - 2 < 2"
    using f(4) length_block_le [of F k] by (simp_all add: word_less_nat_alt unat_sub_if_size word_size)
  define t1 where "t1 = tftp_mark (t\<lparr>tf_block := of_nat ((k + 1) mod 65536)\<rparr>)"
  have seq: "tf_block t1 = of_nat ((k + 1) mod 65536)" by (simp add: t1_def)
  have zero: "(of_nat ((k + 1) mod 65536) :: u32) = 0 \<longleftrightarrow> (k + 1) mod 65536 = 0"
    using seq_eq [of "k + 1" 0] by simp
  have data: "TftpHandler (Some (m, p)) port server len t = Some (tftp_data m (p + 2) server (len - 2) t)"
    using g len(1) f(1) by (auto simp: TftpHandler_def got_def Let_def tftp_consts split: if_splits)
  have blk: "t\<lparr>tf_block := ucast (rd16 m (p + 2))\<rparr> = t\<lparr>tf_block := of_nat ((k + 1) mod 65536)\<rparr>"
    unfolding f(2) seq_word ..
  show ?thesis
  proof (cases "k = 0")
    case True
    then have rrq: "tf_state t1 = STATE_RRQ \<or> tf_state t1 = STATE_OACK" using g by (auto simp: got_def t1_def)
    let ?t = "tftp_first server t1"
    have one: "tf_block ?t = 1" using seq True by (simp add: tftp_first_def)
    have "tftp_data m (p + 2) server (len - 2) t = tftp_accept m (p + 2) (len - 2 - 2) ?t"
      using len(2) rrq one unfolding tftp_data_def blk Let_def t1_def [symmetric] by simp
    moreover have "stored F ?t k" "fits F ?t" "tf_our_port ?t = port" "tf_state ?t = STATE_DATA" "tf_server_port ?t = server"
      "tf_load_addr ?t = load" "nt_state ?t = nt_state t" "tf_timeout_count ?t = tf_timeout_count t"
      using g stored_cong(1) [of ?t t F k] stored_cong(2) [of ?t t F] by (auto simp: got_def tftp_first_def t1_def)
    moreover have "tf_block ?t = of_nat ((k + 1) mod 65536)" "tf_last_block ?t = of_nat (k mod 65536)"
      "tf_wrap_offset ?t = of_nat ((k + 1) div 65536 * 0x2000000)"
      using one True by (simp_all add: tftp_first_def)
    ultimately show ?thesis using data accept_next [where F = F and t = ?t and k = k and m = m and p = p and len = len] k pkt by simp
  next
    case False
    then have old: "tf_state t1 = STATE_DATA" "tf_last_block t1 = of_nat (k mod 65536)" "tf_server_port t1 = server"
      "tf_our_port t1 = port" "tf_load_addr t1 = load" using g by (auto simp: got_def t1_def)
    have off: "tf_wrap_offset t1 = of_nat ((k + 1) div 65536 * 0x2000000)"
      unfolding wrap_step [symmetric] using g False zero by (simp add: t1_def got_def)
    have "tftp_data m (p + 2) server (len - 2) t = tftp_accept m (p + 2) (len - 2 - 2) t1"
      using len(2) old unfolding tftp_data_def blk Let_def t1_def [symmetric] by simp
    moreover have "stored F t1 k" "fits F t1" "nt_state t1 = nt_state t" "tf_timeout_count t1 = tf_timeout_count t"
      using g stored_cong(1) [of t1 t F k] stored_cong(2) [of t1 t F] by (auto simp: got_def t1_def)
    ultimately show ?thesis using data accept_next [OF _ _ k pkt seq old(2) off old(1)] old by simp
  qed
qed

text \<open>The other events: the block just received once more, a timeout, packets that are not for us.\<close>

lemma tftp_mark_got:
  "tf_block t \<noteq> 0 \<Longrightarrow> got F load server port (tftp_mark t) k = got F load server port t k"
  by (simp add: got_def stored_def fits_def)

lemma handler_again:
  assumes g: "got F load server port t k" and k: "0 < k" "512 * (k - 1) \<le> length F" "k mod 65536 \<noteq> 0"
    and pkt: "data_packet F (k - 1) (m, p) len"
  shows "\<exists>t'. TftpHandler (Some (m, p)) port server len t = Some t' \<and> got F load server port t' k \<and>
    nt_state t' = nt_state t \<and> tf_timeout_count t' = tf_timeout_count t"
proof -
  note f = data_packet_fields [OF pkt]
  have len: "\<not> len < 2" "\<not> len - 2 < 2"
    using f(4) length_block_le [of F "k - 1"] by (simp_all add: word_less_nat_alt unat_sub_if_size word_size)
  have old: "tf_state t = STATE_DATA" "tf_last_block t = of_nat (k mod 65536)" "tf_server_port t = server"
    "tf_our_port t = port" using g k(1) by (auto simp: got_def)
  let ?t = "tftp_mark (t\<lparr>tf_block := of_nat (k mod 65536)\<rparr>)"
  have blk: "t\<lparr>tf_block := ucast (rd16 m (p + 2))\<rparr> = t\<lparr>tf_block := of_nat (k mod 65536)\<rparr>"
    using k(1) unfolding f(2) seq_word by simp
  have nz: "(of_nat (k mod 65536) :: u32) \<noteq> 0" using seq_eq [of k 0] k(3) by simp
  have "tftp_data m (p + 2) server (len - 2) t = ?t"
    using len(2) old unfolding tftp_data_def blk Let_def by (simp add: tftp_accept_def)
  moreover have "TftpHandler (Some (m, p)) port server len t = Some (tftp_data m (p + 2) server (len - 2) t)"
    using old len(1) f(1) by (simp add: TftpHandler_def Let_def tftp_consts)
  moreover have "got F load server port ?t k"
    using g nz k(1) by (subst tftp_mark_got) (auto simp: got_def stored_def fits_def)
  ultimately show ?thesis by simp
qed

text \<open>
  Block 0, that is every 65536th, is counted as a wrap again when it comes again: what follows is
  stored 32 MB too far.
\<close>

lemma handler_again_wrap:
  assumes g: "got F load server port t k" and k: "0 < k" "k mod 65536 = 0" and pkt: "data_packet F (k - 1) (m, p) len"
  shows "\<exists>t'. TftpHandler (Some (m, p)) port server len t = Some t' \<and>
    tf_wrap_offset t' = tf_wrap_offset t + 0x2000000 \<and> \<not> got F load server port t' k"
proof -
  note f = data_packet_fields [OF pkt]
  have len: "\<not> len < 2" "\<not> len - 2 < 2"
    using f(4) length_block_le [of F "k - 1"] by (simp_all add: word_less_nat_alt unat_sub_if_size word_size)
  have old: "tf_state t = STATE_DATA" "tf_last_block t = 0" "tf_server_port t = server"
    "tf_our_port t = port" "tf_wrap_offset t = of_nat (k div 65536 * 0x2000000)" using g k by (auto simp: got_def)
  let ?t = "tftp_mark (t\<lparr>tf_block := 0\<rparr>)"
  have blk: "t\<lparr>tf_block := ucast (rd16 m (p + 2))\<rparr> = t\<lparr>tf_block := 0\<rparr>"
    using k unfolding f(2) seq_word by simp
  have "tftp_data m (p + 2) server (len - 2) t = ?t"
    using len(2) old unfolding tftp_data_def blk Let_def by (simp add: tftp_accept_def)
  moreover have "TftpHandler (Some (m, p)) port server len t = Some (tftp_data m (p + 2) server (len - 2) t)"
    using old len(1) f(1) by (simp add: TftpHandler_def Let_def tftp_consts)
  moreover have "\<not> got F load server port ?t k" using old(5) k(1) by (simp add: got_def)
  ultimately show ?thesis by simp
qed

lemma got_tx: "tx_only t t' \<Longrightarrow> got F load server port t' k = got F load server port t k"
  using tx_only_keeps [of t t'] by (simp add: got_def stored_def fits_def)

lemma timeout_step:
  assumes "got F load server port t k" "tf_timeout_count t = of_nat c" "c < 10"
  shows "got F load server port (TftpTimeout t) k \<and> nt_state (TftpTimeout t) = nt_state t \<and>
    tf_timeout_count (TftpTimeout t) = of_nat (c + 1)"
proof -
  have "unat (of_nat (c + 1) :: u32) = c + 1"
    using assms(3) by (simp add: unat_of_nat take_bit_nat_eq_self del: of_nat_add of_nat_Suc)
  then have "\<not> (of_nat (c + 1) :: u32) > 10" using assms(3) by (simp add: word_less_nat_alt del: of_nat_add of_nat_Suc)
  then have "\<not> (of_nat c + 1 :: u32) > 10" by (simp add: add.commute)
  then have "TftpTimeout t = TftpSend (NetSetTimeout (TIMEOUT * nt_hz t) Time_Tftp
      (put ''T '' (t\<lparr>tf_timeout_count := tf_timeout_count t + 1\<rparr>)))"
    using assms(2) by (simp add: TftpTimeout_def Let_def TIMEOUT_COUNT_def put_def)
  then show ?thesis using assms(1,2) by (auto simp: got_def stored_def fits_def)
qed

lemma handler_other:
  assumes "got F load server port t k" "dest \<noteq> port \<or> (0 < k \<and> src \<noteq> server) \<or> len < 2"
  shows "TftpHandler pkt dest src len t = Some t"
  using assms by (auto simp: TftpHandler_def got_def)

lemma handler_oack:
  assumes "got F load server port t 0" "len \<ge> 2" "rd16 m p = TFTP_OACK" "tf_state t = STATE_RRQ"
  shows "\<exists>t'. TftpHandler (Some (m, p)) port server len t = Some t' \<and> got F load server port t' 0 \<and>
    nt_state t' = nt_state t \<and> tf_timeout_count t' = tf_timeout_count t"
proof -
  have "TftpHandler (Some (m, p)) port server len t = Some (TftpSend (t\<lparr>tf_state := STATE_OACK, tf_server_port := server\<rparr>))"
    using assms by (simp add: TftpHandler_def got_def Let_def not_less)
  then show ?thesis using assms(1) by (simp add: got_tx [OF tx_only_TftpSend]) (auto simp: got_def stored_def fits_def)
qed

section \<open>Runs of events\<close>

datatype tftp_event = Received "mem \<times> nat" u32 u32 u32 | Timeout

definition tftp_step :: "tftp_event \<Rightarrow> tftp \<Rightarrow> tftp option" where
  "tftp_step ev t =
     (case ev of Received pkt dest src len \<Rightarrow> TftpHandler (Some pkt) dest src len t | Timeout \<Rightarrow> Some (TftpTimeout t))"

primrec tftp_run :: "tftp_event list \<Rightarrow> tftp \<Rightarrow> tftp option" where
  "tftp_run [] t = Some t"
| "tftp_run (ev # evs) t = Option.bind (tftp_step ev t) (tftp_run evs)"

text \<open>
  \<open>serves F server port k c evs\<close>: from the moment when \<open>k\<close> blocks have arrived and \<open>c\<close> timeouts have
  passed, \<open>evs\<close> is what a server that sends \<open>F\<close> and a network that loses, repeats and mixes in other
  packets may bring, up to the last block.
\<close>

inductive serves :: "byte list \<Rightarrow> u32 \<Rightarrow> u32 \<Rightarrow> nat \<Rightarrow> nat \<Rightarrow> tftp_event list \<Rightarrow> bool"
  for F server port
where
  finish: "k = blocks F + 1 \<Longrightarrow> serves F server port k c []"
| sent: "k \<le> blocks F \<Longrightarrow> data_packet F k pkt len \<Longrightarrow> serves F server port (k + 1) c evs \<Longrightarrow>
    serves F server port k c (Received pkt port server len # evs)"
| again: "0 < k \<Longrightarrow> k \<le> blocks F \<Longrightarrow> k mod 65536 \<noteq> 0 \<Longrightarrow> data_packet F (k - 1) pkt len \<Longrightarrow>
    serves F server port k c evs \<Longrightarrow> serves F server port k c (Received pkt port server len # evs)"
| other: "k \<le> blocks F \<Longrightarrow> dest \<noteq> port \<or> (0 < k \<and> src \<noteq> server) \<or> len < 2 \<Longrightarrow> serves F server port k c evs \<Longrightarrow>
    serves F server port k c (Received pkt dest src len # evs)"
| lost: "k \<le> blocks F \<Longrightarrow> c < 10 \<Longrightarrow> serves F server port k (c + 1) evs \<Longrightarrow>
    serves F server port k c (Timeout # evs)"

inductive_simps serves_Nil: "serves F server port k c []"
inductive_cases serves_TimeoutE: "serves F server port k c (Timeout # evs)"

lemma serves_run:
  "serves F server port k c evs \<Longrightarrow> got F load server port t k \<Longrightarrow> tf_timeout_count t = of_nat c \<Longrightarrow>
   nt_state t = (if k \<le> blocks F then NETLOOP_CONTINUE else NETLOOP_SUCCESS) \<Longrightarrow>
   \<exists>t'. tftp_run evs t = Some t' \<and> got F load server port t' (blocks F + 1) \<and> nt_state t' = NETLOOP_SUCCESS"
proof (induction arbitrary: t rule: serves.induct)
  case (finish k c)
  then show ?case by simp
next
  case (sent k pkt len c evs)
  then have "512 * k \<le> length F" by (simp add: blocks_def)
  then obtain t1 where "TftpHandler (Some pkt) port server len t = Some t1" "got F load server port t1 (k + 1)"
    "nt_state t1 = (if k < blocks F then nt_state t else NETLOOP_SUCCESS)" "tf_timeout_count t1 = tf_timeout_count t"
    using handler_next [of F load server port t k "fst pkt" "snd pkt" len] sent.prems sent.hyps by auto
  then show ?case using sent.IH [of t1] sent.prems sent.hyps(1) by (simp add: tftp_step_def)
next
  case (again k pkt len c evs)
  then have "512 * (k - 1) \<le> length F" by (simp add: blocks_def)
  then obtain t1 where "TftpHandler (Some pkt) port server len t = Some t1" "got F load server port t1 k"
    "nt_state t1 = nt_state t" "tf_timeout_count t1 = tf_timeout_count t"
    using handler_again [of F load server port t k "fst pkt" "snd pkt" len] again.prems again.hyps by auto
  then show ?case using again.IH [of t1] again.prems by (simp add: tftp_step_def)
next
  case (other k dest src len c evs pkt)
  then show ?case using handler_other [OF other.prems(1) other.hyps(2), of "Some pkt"] by (simp add: tftp_step_def)
next
  case (lost k c evs)
  then show ?case using timeout_step [of F load server port t k c] lost.IH [of "TftpTimeout t"] by (simp add: tftp_step_def)
qed

text \<open>A packet in a buffer.\<close>

definition packet_of :: "byte list \<Rightarrow> nat \<Rightarrow> mem \<times> nat" where
  "packet_of F k = (write_bytes (\<lambda>_. 0) 0 (be16 TFTP_DATA @ be16 (of_nat (k + 1)) @ block F k), 0)"

lemma data_packet_of: "data_packet F k (packet_of F k) (of_nat (4 + length (block F k)))"
proof -
  let ?p = "be16 TFTP_DATA @ be16 (of_nat (k + 1)) @ block F k"
  have "length ?p = 4 + length (block F k)" by simp
  then show ?thesis
    unfolding data_packet_def packet_of_def fst_conv snd_conv by (metis read_write_bytes)
qed

section \<open>Properties\<close>

text \<open>
  C4. A TFTP transfer ends well: a client that has sent its request ends with success, the whole file stands
  at the load address and its size is counted, for any file that fits into the address space, however
  often the 16-bit block number wraps, if what arrives is the blocks of the file in order, with at most ten timeouts in
  the whole transfer, and between them packets for other ports, of other machines or too short and
  repetitions of the block that arrived last, but no repetition of a block whose number is 0, that is of
  every 65536th: the code counts the wrap again and stores what follows in the wrong place
  (\<open>handler_again_wrap\<close>).
\<close>

theorem tftp_transfer:
  assumes "serves F server port 0 0 evs"
    and "tf_state t = STATE_RRQ" "tf_our_port t = port" "tf_timeout_count t = 0" "nt_xfer_size t = 0"
      "nt_state t = NETLOOP_CONTINUE" and "unat (tf_load_addr t) + length F < 2 ^ 32"
  shows "\<exists>t'. tftp_run evs t = Some t' \<and> nt_state t' = NETLOOP_SUCCESS \<and>
    unat (nt_xfer_size t') = length F \<and> read_bytes (tf_mem t') (unat (tf_load_addr t)) (length F) = F"
proof -
  have "got F (tf_load_addr t) server port t 0" using assms(2-7) by (simp add: got_def stored_def fits_def)
  from serves_run [OF assms(1) this] assms(4,6) obtain t' where
    t': "tftp_run evs t = Some t'" "got F (tf_load_addr t) server port t' (blocks F + 1)" "nt_state t' = NETLOOP_SUCCESS"
    by auto
  have "length F \<le> 512 * (blocks F + 1)"
    unfolding blocks_def using dividend_less_div_times [of 512 "length F"] by simp
  then have all: "min (512 * (blocks F + 1)) (length F) = length F" "take (512 * (blocks F + 1)) F = F" by simp_all
  have "nt_xfer_size t' = of_nat (length F)" "read_bytes (tf_mem t') (unat (tf_load_addr t)) (length F) = F"
    using t'(2) unfolding got_def stored_def all by auto
  then show ?thesis using t' assms(7) by (simp add: unat_of_nat take_bit_nat_eq_self)
qed

definition client :: tftp where
  "client = net.extend (node 0x0A000001 5 [0, 1, 2, 3, 4, 6])
     \<lparr>tf_server_port = 69, tf_our_port = 1024, tf_timeout_count = 0, tf_block = 0, tf_last_block = 0,
      tf_block_wrap = 0, tf_wrap_offset = 0, tf_state = STATE_RRQ, tf_filename = bytes ''f'', tf_boot_size = 0,
      tf_load_addr = 0x1000, tf_mem = (\<lambda>_. 0), tf_settings = []\<rparr>"

theorem tftp_transfer_witness:
  "\<exists>t'. tftp_run [Timeout, Received (packet_of (replicate 600 7) 0) 1024 2000 516,
       Received (packet_of (replicate 600 7) 0) 1024 2000 516, Received (packet_of (replicate 600 7) 1) 1024 2000 92] client = Some t' \<and>
     nt_state t' = NETLOOP_SUCCESS \<and> read_bytes (tf_mem t') 0x1000 600 = replicate 600 7"
proof -
  let ?F = "replicate 600 (7 :: byte)"
  have len: "length (block ?F 0) = 512" "length (block ?F 1) = 88" by (simp_all add: length_block)
  have pkt: "data_packet ?F 0 (packet_of ?F 0) 516" "data_packet ?F 1 (packet_of ?F 1) 92"
    using data_packet_of [of ?F 0] data_packet_of [of ?F 1] unfolding len by simp_all
  have blocks: "blocks ?F = 1" by (simp add: blocks_def)
  have "serves ?F 2000 1024 2 1 []" by (rule serves.finish) (simp add: blocks)
  then have "serves ?F 2000 1024 1 1 [Received (packet_of ?F 1) 1024 2000 92]"
    using serves.sent [of 1 ?F "packet_of ?F 1" 92] pkt(2) by (simp add: blocks numeral_2_eq_2)
  then have "serves ?F 2000 1024 1 1 [Received (packet_of ?F 0) 1024 2000 516, Received (packet_of ?F 1) 1024 2000 92]"
    using serves.again [of 1 ?F "packet_of ?F 0" 516] pkt(1) by (simp add: blocks)
  then have "serves ?F 2000 1024 0 1 [Received (packet_of ?F 0) 1024 2000 516, Received (packet_of ?F 0) 1024 2000 516,
      Received (packet_of ?F 1) 1024 2000 92]"
    using serves.sent [of 0 ?F "packet_of ?F 0" 516] pkt(1) by (simp add: blocks)
  then have "serves ?F 2000 1024 0 0 [Timeout, Received (packet_of ?F 0) 1024 2000 516,
      Received (packet_of ?F 0) 1024 2000 516, Received (packet_of ?F 1) 1024 2000 92]"
    using serves.lost [of 0 ?F 0] by (simp add: blocks)
  moreover have "tf_state client = STATE_RRQ" "tf_our_port client = 1024" "tf_timeout_count client = 0"
    "nt_xfer_size client = 0" "nt_state client = NETLOOP_CONTINUE" "tf_load_addr client = 0x1000"
    by (simp_all add: client_def node_def net.defs)
  moreover have "unat (tf_load_addr client) + length ?F < 2 ^ 32" by (simp add: client_def node_def net.defs)
  ultimately show ?thesis using tftp_transfer [of ?F 2000 1024 _ client] unfolding length_replicate by fastforce
qed

end
