(* ===== verification/Command.thy ===== *)
theory Command imports CmdLoad CString "HOL-Library.Multiset" begin

text \<open>
  The commands of \<open>common/command.c\<close> and its table of commands: \<open>find_cmd\<close>, \<open>help\<close>, \<open>echo\<close>, \<open>test\<close>,
  \<open>exit\<close> and \<open>version\<close>. The entries of the table are collected by the linker from all files, so the
  table is an argument; the function an entry points to is named by a value of any type \<open>'f\<close>.

  Strings are lists of bytes without their NUL. The arguments of a command are the list \<open>argv\<close> of
  length \<open>argc\<close>. Modelled is a port with \<open>CFG_LONGHELP\<close>; completion of commands
  (\<open>CONFIG_AUTO_COMPLETE\<close>) is not.
\<close>

record 'f cmd_tbl =
  ct_name :: "byte list"
  ct_maxargs :: int
  ct_repeatable :: int
  ct_cmd :: 'f
  ct_usage :: "byte list option"
  ct_help :: "byte list option"

definition CMD_FLAG_REPEAT :: u32 where "CMD_FLAG_REPEAT = 1"
definition CMD_FLAG_BOOTD :: u32 where "CMD_FLAG_BOOTD = 2"

section \<open>Comparing strings\<close>

text \<open>\<open>strcmp\<close> and \<open>strncmp\<close> of theory \<open>CString\<close> on strings as lists.\<close>

fun str_cmp :: "byte list \<Rightarrow> byte list \<Rightarrow> int" where
  "str_cmp [] [] = 0"
| "str_cmp [] (y # ys) = sint (0 - y)"
| "str_cmp (x # xs) [] = sint (x - 0)"
| "str_cmp (x # xs) (y # ys) = (if x = y then str_cmp xs ys else sint (x - y))"

lemma strcmp_str_cmp: "cstr m a xs \<Longrightarrow> cstr m b ys \<Longrightarrow> strcmp m a b = Some (str_cmp xs ys)"
proof (induction xs ys arbitrary: a b rule: str_cmp.induct)
  case 1
  then show ?case by (simp add: strcmp_def strcmp_loop.simps [of m a b] Let_def)
next
  case (2 y ys)
  then show ?case by (simp add: strcmp_def strcmp_loop.simps [of m a b] Let_def)
next
  case (3 x xs)
  then show ?case by (simp add: strcmp_def strcmp_loop.simps [of m a b] Let_def)
next
  case (4 x xs y ys)
  then show ?case by (auto simp: strcmp_def strcmp_loop.simps [of m a b] Let_def)
qed

lemma strncmp_take:
  "cstr m a xs \<Longrightarrow> cstr m b ys \<Longrightarrow> strncmp m a b n = 0 \<longleftrightarrow> take n xs = take n ys"
  unfolding strncmp_def sint_eq_0_iff by (rule strncmp_loop_cstr)

section \<open>The table\<close>

text \<open>\<open>cmdtp_temp\<close> is \<open>None\<close> until an abbreviation matches; the code then does not use it either.\<close>

fun find_loop :: "byte list \<Rightarrow> nat \<Rightarrow> 'f cmd_tbl list \<Rightarrow> 'f cmd_tbl option \<Rightarrow> nat \<Rightarrow> 'f cmd_tbl option" where
  "find_loop cmd len [] cmdtp_temp n_found = (if n_found = 1 then cmdtp_temp else None)"
| "find_loop cmd len (cmdtp # tbl) cmdtp_temp n_found =
     (if take len cmd = take len (ct_name cmdtp) then
        (if len = length (ct_name cmdtp) then Some cmdtp
         else find_loop cmd len tbl (Some cmdtp) (n_found + 1))
      else find_loop cmd len tbl cmdtp_temp n_found)"

definition find_cmd :: "'f cmd_tbl list \<Rightarrow> byte list \<Rightarrow> 'f cmd_tbl option" where
  "find_cmd tbl cmd =
     (let len = length (takeWhile (\<lambda>c. c \<noteq> chr CHR ''.'') cmd) in find_loop cmd len tbl None 0)"

section \<open>Commands\<close>

definition do_version :: "byte list \<Rightarrow> byte list \<Rightarrow> int \<times> byte list" where
  "do_version version_string out = (0, printf (nl @ ''%s'' @ nl) [ArgStr (Some version_string)] out)"

fun echo_arg :: "byte list \<Rightarrow> bool \<Rightarrow> byte list \<Rightarrow> bool \<times> byte list" where
  "echo_arg [] putnl out = (putnl, out)"
| "echo_arg (c # p) putnl out =
     (if c = chr CHR 0x5C \<and> peek p = chr CHR ''c'' then echo_arg (tl p) False out
      else echo_arg p putnl (out @ [c]))"

fun echo_loop :: "nat \<Rightarrow> byte list list \<Rightarrow> bool \<Rightarrow> byte list \<Rightarrow> bool \<times> byte list" where
  "echo_loop i [] putnl out = (putnl, out)"
| "echo_loop i (p # argv) putnl out =
     (case echo_arg p putnl (if i > 1 then puts '' '' out else out) of
        (putnl, out) \<Rightarrow> echo_loop (i + 1) argv putnl out)"

definition do_echo :: "byte list list \<Rightarrow> byte list \<Rightarrow> int \<times> byte list" where
  "do_echo argv out =
     (case echo_loop 1 (drop 1 argv) True out of (putnl, out) \<Rightarrow> (0, if putnl then puts nl out else out))"

text \<open>Truth values of C.\<close>

definition c_bool :: "bool \<Rightarrow> int" where "c_bool b = (if b then 1 else 0)"

definition test_binary :: "byte list \<Rightarrow> byte list \<Rightarrow> byte list \<Rightarrow> int option" where
  "test_binary a0 a1 a2 =
     (let n0 = sint (fst (simple_strtol a0 10)); n2 = sint (fst (simple_strtol a2 10)) in
      if a1 = bytes ''='' then Some (c_bool (str_cmp a0 a2 = 0))
      else if a1 = bytes ''!='' then Some (c_bool (str_cmp a0 a2 \<noteq> 0))
      else if a1 = bytes ''>'' then Some (c_bool (str_cmp a0 a2 > 0))
      else if a1 = bytes ''<'' then Some (c_bool (str_cmp a0 a2 < 0))
      else if a1 = bytes ''-eq'' then Some (c_bool (n0 = n2))
      else if a1 = bytes ''-ne'' then Some (c_bool (n0 \<noteq> n2))
      else if a1 = bytes ''-lt'' then Some (c_bool (n0 < n2))
      else if a1 = bytes ''-le'' then Some (c_bool (n0 \<le> n2))
      else if a1 = bytes ''-gt'' then Some (c_bool (n0 > n2))
      else if a1 = bytes ''-ge'' then Some (c_bool (n0 \<ge> n2))
      else None)"

definition test_join :: "int \<Rightarrow> int \<Rightarrow> int \<Rightarrow> int" where
  "test_join last_cmp last_expr expr =
     (if last_cmp = 0 then c_bool (last_expr \<noteq> 0 \<or> expr \<noteq> 0)
      else if last_cmp = 1 then c_bool (last_expr \<noteq> 0 \<and> expr \<noteq> 0) else expr)"

text \<open>The loop of \<open>do_test\<close>: the result is \<open>expr\<close> where it ends.\<close>

fun test_loop :: "byte list list \<Rightarrow> int \<Rightarrow> int \<Rightarrow> int \<Rightarrow> int" where
  "test_loop [] expr last_expr last_cmp = expr"
| "test_loop (a0 # ap) expr last_expr last_cmp =
     (if a0 = bytes ''-o'' then test_loop ap expr expr 0
      else if a0 = bytes ''-a'' then test_loop ap expr expr 1
      else if a0 = bytes ''-z'' \<or> a0 = bytes ''-n'' then
        (case ap of
           [] \<Rightarrow> 1
         | a1 # ap \<Rightarrow>
             test_loop ap (test_join last_cmp last_expr (c_bool ((length a1 = 0) = (a0 = bytes ''-z'')))) last_expr (-1))
      else
        (case ap of
           a1 # a2 # ap \<Rightarrow>
             (case test_binary a0 a1 a2 of
                None \<Rightarrow> 1
              | Some expr \<Rightarrow> test_loop ap (test_join last_cmp last_expr expr) last_expr (-1))
         | _ \<Rightarrow> 1))"

definition do_test :: "byte list list \<Rightarrow> int" where
  "do_test argv =
     (if length argv < 3 then 1
      else
        let neg = (argv ! 1 = bytes ''!'');
            ap = (if neg then drop 2 argv else drop 1 argv);
            expr = test_loop ap (-1) (-1) (-1);
            expr = (if neg then c_bool (expr = 0) else expr)
        in c_bool (expr = 0))"

definition do_exit :: "byte list list \<Rightarrow> int" where
  "do_exit argv =
     (let r = (if length argv > 1 then fst (simple_strtoul (argv ! 1) 10) else 0) in sint (- r - 2 :: u32))"

subsection \<open>Help\<close>

function bubble_inner :: "nat \<Rightarrow> nat \<Rightarrow> 'f cmd_tbl list \<Rightarrow> nat \<Rightarrow> 'f cmd_tbl list \<times> nat" where
  "bubble_inner i j arr swaps =
     (if j < i then
        (if str_cmp (ct_name (arr ! j)) (ct_name (arr ! (j + 1))) > 0
         then bubble_inner i (j + 1) (arr[j := arr ! (j + 1), j + 1 := arr ! j]) (swaps + 1)
         else bubble_inner i (j + 1) arr swaps)
      else (arr, swaps))"
  by pat_completeness auto
termination by (relation "measure (\<lambda>(i, j, _). i - j)") auto

declare bubble_inner.simps [simp del]

fun bubble_outer :: "nat \<Rightarrow> 'f cmd_tbl list \<Rightarrow> 'f cmd_tbl list" where
  "bubble_outer 0 arr = arr"
| "bubble_outer (Suc i) arr =
     (case bubble_inner (Suc i) 0 arr 0 of
        (arr, swaps) \<Rightarrow> if swaps = 0 then arr else bubble_outer i arr)"

text \<open>\<open>stop i\<close>: the result of the \<open>i\<close>-th call of \<open>ctrlc\<close>.\<close>

fun help_list :: "(nat \<Rightarrow> bool) \<Rightarrow> nat \<Rightarrow> 'f cmd_tbl list \<Rightarrow> byte list \<Rightarrow> int \<times> byte list" where
  "help_list stop i [] out = (0, out)"
| "help_list stop i (cmdtp # arr) out =
     (if stop i then (1, out)
      else case ct_usage cmdtp of
        None \<Rightarrow> help_list stop (i + 1) arr out
      | Some usage \<Rightarrow> help_list stop (i + 1) arr (out @ usage))"

definition help_one :: "'f cmd_tbl list \<Rightarrow> byte list \<Rightarrow> int \<times> byte list \<Rightarrow> int \<times> byte list" where
  "help_one tbl name = (\<lambda>(rcode, out).
     case find_cmd tbl name of
       Some cmdtp \<Rightarrow>
         (let out = puts '' '' (out @ ct_name cmdtp) in
          case ct_help cmdtp of
            Some help \<Rightarrow> (rcode, puts nl (out @ help))
          | None \<Rightarrow> (1, puts nl (puts (''- No help available.'' @ nl) out)))
     | None \<Rightarrow>
         (1, printf (''Unknown command '' @ [CHR 0x27] @ ''%s'' @ [CHR 0x27] @ '' - try '' @ [CHR 0x27] @ ''help'' @
               [CHR 0x27] @ '' without arguments for list of all known commands'' @ nl @ nl)
               [ArgStr (Some name)] out))"

definition do_help ::
    "'f cmd_tbl list \<Rightarrow> (nat \<Rightarrow> bool) \<Rightarrow> byte list list \<Rightarrow> byte list \<Rightarrow> int \<times> byte list" where
  "do_help tbl stop argv out =
     (if length argv = 1 then help_list stop 0 (bubble_outer (length tbl - 1) tbl) out
      else fold (help_one tbl) (drop 1 argv) (0, out))"

section \<open>Properties\<close>

subsection \<open>Order of names\<close>

lemma str_cmp_0: "0 \<notin> set xs \<Longrightarrow> 0 \<notin> set ys \<Longrightarrow> str_cmp xs ys = 0 \<longleftrightarrow> xs = ys"
  by (induction xs ys rule: str_cmp.induct) (auto simp: sint_eq_0_iff)

text \<open>On 7-bit characters the sign of \<open>strcmp\<close> is the lexicographic order.\<close>

lemma str_cmp_sign:
  "\<forall>x \<in> set xs \<union> set ys. 0 < x \<and> x < 128 \<Longrightarrow>
   (str_cmp xs ys < 0 \<longleftrightarrow> ord_class.lexordp xs ys) \<and> (str_cmp xs ys > 0 \<longleftrightarrow> ord_class.lexordp ys xs)"
proof (induction xs ys rule: str_cmp.induct)
  case (2 y ys)
  then show ?case using sint_diff_ascii [of 0 y] by (simp add: uint_gt_0_iff_word word_gt_0)
next
  case (3 x xs)
  then show ?case using sint_diff_ascii [of x 0] by (simp add: uint_gt_0_iff_word word_gt_0)
next
  case (4 x xs y ys)
  have "sint (x - y) = uint x - uint y" using "4.prems" by (intro sint_diff_ascii) auto
  moreover have "x \<noteq> y \<Longrightarrow> uint x < uint y \<or> uint y < uint x" by (metis linorder_neqE_linordered_idom word_uint_eqI)
  ultimately show ?case using 4 by (auto simp: word_less_def)
qed simp

lemma str_cmp_le: "\<forall>x \<in> set xs \<union> set ys. 0 < x \<and> x < 128 \<Longrightarrow> str_cmp xs ys \<le> 0 \<longleftrightarrow> \<not> ord_class.lexordp ys xs"
  using str_cmp_sign [of xs ys] by auto

text \<open>The order that the sort of \<open>do_help\<close> establishes, on entries with 7-bit names.\<close>

definition name_le :: "'f cmd_tbl \<Rightarrow> 'f cmd_tbl \<Rightarrow> bool" where
  "name_le a b \<longleftrightarrow> str_cmp (ct_name a) (ct_name b) \<le> 0"

definition text_name :: "'f cmd_tbl \<Rightarrow> bool" where
  "text_name c \<longleftrightarrow> (\<forall>x \<in> set (ct_name c). 0 < x \<and> x < 128)"

subsection \<open>Sorting\<close>

lemma bubble_inner_post:
  assumes "j \<le> i" "i < length arr" "\<forall>a \<in> set arr. \<forall>b \<in> set arr. \<not> name_le a b \<longrightarrow> name_le b a"
    and "\<forall>a \<in> set arr. \<forall>b \<in> set arr. \<forall>c \<in> set arr. name_le a b \<longrightarrow> name_le b c \<longrightarrow> name_le a c"
    and "\<forall>k < j. name_le (arr ! k) (arr ! j)" "bubble_inner i j arr sw = (arr', sw')"
  shows "mset arr' = mset arr \<and> (\<forall>k > i. arr' ! k = arr ! k) \<and> (\<forall>k < i. name_le (arr' ! k) (arr' ! i)) \<and>
    sw \<le> sw' \<and> (sw' = sw \<longrightarrow> arr' = arr \<and> (\<forall>k. j \<le> k \<and> k < i \<longrightarrow> name_le (arr ! k) (arr ! (k + 1))))"
  using assms
proof (induction i j arr sw rule: bubble_inner.induct)
  case (1 i j arr sw)
  show ?case
  proof (cases "j < i")
    case False
    then have "j = i" "arr' = arr" "sw' = sw" using "1.prems"(1,6) by (simp_all add: bubble_inner.simps [of i i])
    then show ?thesis using "1.prems"(5) by auto
  next
    case j: True
    show ?thesis
    proof (cases "str_cmp (ct_name (arr ! j)) (ct_name (arr ! (j + 1))) > 0")
      case swap: True
      let ?arr = "arr[j := arr ! (j + 1), j + 1 := arr ! j]"
      have nle: "\<not> name_le (arr ! j) (arr ! (j + 1))" using swap by (simp add: name_le_def)
      have perm: "mset ?arr = mset arr" using j "1.prems"(2) by (simp add: mset_swap)
      then have set: "set ?arr = set arr" by (rule mset_eq_setD)
      have "\<forall>k < j + 1. name_le (?arr ! k) (?arr ! (j + 1))"
      proof (intro allI impI)
        fix k assume k: "k < j + 1"
        have "arr ! j \<in> set arr" "arr ! (j + 1) \<in> set arr" using j "1.prems"(2) by (auto intro!: nth_mem)
        then have "name_le (arr ! (j + 1)) (arr ! j)" using "1.prems"(3) nle by blast
        then show "name_le (?arr ! k) (?arr ! (j + 1))"
          using k "1.prems"(2,5) j by (cases "k = j") (simp_all add: nth_list_update)
      qed
      moreover have "bubble_inner i (j + 1) ?arr (sw + 1) = (arr', sw')"
        using "1.prems"(6) swap j by (simp add: bubble_inner.simps [of i j])
      ultimately have "mset arr' = mset ?arr \<and> (\<forall>k > i. arr' ! k = ?arr ! k) \<and> (\<forall>k < i. name_le (arr' ! k) (arr' ! i)) \<and>
          sw + 1 \<le> sw'"
        using "1.IH"(1) [OF j swap _ _ "1.prems"(3,4) [folded set]] j "1.prems"(2) by simp
      then show ?thesis using perm j by auto
    next
      case keep: False
      then have le: "name_le (arr ! j) (arr ! (j + 1))" by (simp add: name_le_def)
      have "name_le (arr ! k) (arr ! (j + 1))" if "k < j + 1" for k
      proof (cases "k = j")
        case True
        then show ?thesis using le by simp
      next
        case False
        have "arr ! k \<in> set arr" "arr ! j \<in> set arr" "arr ! (j + 1) \<in> set arr"
          using j that "1.prems"(2) by (auto intro!: nth_mem)
        moreover have "name_le (arr ! k) (arr ! j)" using "1.prems"(5) False that by simp
        ultimately show ?thesis using "1.prems"(4) le by blast
      qed
      moreover have "bubble_inner i (j + 1) arr sw = (arr', sw')"
        using "1.prems"(6) keep j by (simp add: bubble_inner.simps [of i j])
      ultimately have IH: "mset arr' = mset arr \<and> (\<forall>k > i. arr' ! k = arr ! k) \<and> (\<forall>k < i. name_le (arr' ! k) (arr' ! i)) \<and>
          sw \<le> sw' \<and> (sw' = sw \<longrightarrow> arr' = arr \<and> (\<forall>k. j + 1 \<le> k \<and> k < i \<longrightarrow> name_le (arr ! k) (arr ! (k + 1))))"
        using "1.IH"(2) [OF j keep _ _ "1.prems"(3,4)] "1.prems"(2) j by simp
      then show ?thesis using le by (metis Suc_eq_plus1 le_antisym not_less_eq_eq)
    qed
  qed
qed

definition ordered_from :: "nat \<Rightarrow> 'f cmd_tbl list \<Rightarrow> bool" where
  "ordered_from i arr \<longleftrightarrow> (\<forall>a b. a < b \<and> b < length arr \<and> i < b \<longrightarrow> name_le (arr ! a) (arr ! b))"

lemma bubble_inner_ordered:
  assumes "i < length arr" "\<forall>a \<in> set arr. \<forall>b \<in> set arr. \<not> name_le a b \<longrightarrow> name_le b a"
    and "\<forall>a \<in> set arr. \<forall>b \<in> set arr. \<forall>c \<in> set arr. name_le a b \<longrightarrow> name_le b c \<longrightarrow> name_le a c"
    and "ordered_from i arr" "bubble_inner i 0 arr 0 = (arr', sw')"
  shows "mset arr' = mset arr" "ordered_from (i - 1) arr'" "sw' = 0 \<longrightarrow> ordered_from 0 arr'"
proof -
  have post: "mset arr' = mset arr" "\<forall>k > i. arr' ! k = arr ! k" "\<forall>k < i. name_le (arr' ! k) (arr' ! i)"
    "sw' = 0 \<longrightarrow> arr' = arr \<and> (\<forall>k < i. name_le (arr ! k) (arr ! (k + 1)))"
    using bubble_inner_post [OF _ assms(1-3) _ assms(5)] by simp_all
  show "mset arr' = mset arr" by (rule post(1))
  have len: "length arr' = length arr" using post(1) by (rule mset_eq_length)
  have "drop (i + 1) arr' = drop (i + 1) arr" by (rule nth_equalityI) (simp_all add: len post(2))
  moreover have "mset (take (i + 1) xs) + mset (drop (i + 1) xs) = mset xs" for xs :: "'a cmd_tbl list"
    by (simp flip: mset_append)
  ultimately have "mset (take (i + 1) arr') = mset (take (i + 1) arr)"
    using post(1) by (metis add_right_cancel)
  then have front: "set (take (i + 1) arr') = set (take (i + 1) arr)" by (rule mset_eq_setD)
  show "ordered_from (i - 1) arr'"
    unfolding ordered_from_def
  proof (intro allI impI)
    fix a b assume ab: "a < b \<and> b < length arr' \<and> i - 1 < b"
    consider "b = i" | "i < b" "i < a" | "i < b" "a \<le> i" using ab by linarith
    then show "name_le (arr' ! a) (arr' ! b)"
    proof cases
      case 1
      then show ?thesis using post(3) ab by simp
    next
      case 2
      then show ?thesis using post(2) assms(4) ab len by (simp add: ordered_from_def)
    next
      case 3
      have "arr' ! a \<in> set (take (i + 1) arr')" using 3 ab by (auto simp: in_set_conv_nth intro!: exI [of _ a])
      then obtain k where "k < i + 1" "arr ! k = arr' ! a" unfolding front by (auto simp: in_set_conv_nth)
      moreover have "arr' ! b = arr ! b" "name_le (arr ! k) (arr ! b)"
        using post(2) assms(4) ab 3 len calculation(1) by (simp_all add: ordered_from_def)
      ultimately show ?thesis by simp
    qed
  qed
  show "sw' = 0 \<longrightarrow> ordered_from 0 arr'"
    unfolding ordered_from_def
  proof (intro allI impI)
    fix a b assume sw: "sw' = 0" and ab: "a < b \<and> b < length arr' \<and> 0 < b"
    then have same: "arr' = arr" and adj: "\<And>k. k < i \<Longrightarrow> name_le (arr ! k) (arr ! (k + 1))" using post(4) by auto
    have "a < b \<Longrightarrow> b \<le> i \<Longrightarrow> name_le (arr ! a) (arr ! b)"
    proof (induction b)
      case (Suc b)
      show ?case
      proof (cases "a = b")
        case True
        then show ?thesis using adj [of b] Suc.prems by simp
      next
        case False
        have "arr ! a \<in> set arr" "arr ! b \<in> set arr" "arr ! Suc b \<in> set arr" using Suc.prems assms(1) by simp_all
        moreover have "name_le (arr ! a) (arr ! b)" "name_le (arr ! b) (arr ! Suc b)"
          using False Suc adj [of b] by simp_all
        ultimately show ?thesis using assms(3) by blast
      qed
    qed simp
    then show "name_le (arr' ! a) (arr' ! b)"
      using ab assms(4) same by (cases "b \<le> i") (simp_all add: ordered_from_def)
  qed
qed

lemma bubble_outer_sorts:
  assumes "i < length arr" "\<forall>a \<in> set arr. \<forall>b \<in> set arr. \<not> name_le a b \<longrightarrow> name_le b a"
    and "\<forall>a \<in> set arr. \<forall>b \<in> set arr. \<forall>c \<in> set arr. name_le a b \<longrightarrow> name_le b c \<longrightarrow> name_le a c"
    and "ordered_from i arr"
  shows "mset (bubble_outer i arr) = mset arr \<and> ordered_from 0 (bubble_outer i arr)"
  using assms
proof (induction i arr rule: bubble_outer.induct)
  case (2 i arr)
  obtain arr' sw where inner: "bubble_inner (Suc i) 0 arr 0 = (arr', sw)" by fastforce
  note post = bubble_inner_ordered [OF "2.prems" inner]
  from post(1) have same: "set arr' = set arr" "length arr' = length arr"
    by (auto dest: mset_eq_setD mset_eq_length)
  show ?case
  proof (cases "sw = 0")
    case True
    then show ?thesis using inner post by simp
  next
    case False
    have "i < length arr'" using "2.prems"(1) same(2) by simp
    moreover have "\<forall>a \<in> set arr'. \<forall>b \<in> set arr'. \<not> name_le a b \<longrightarrow> name_le b a"
      unfolding same(1) by (rule "2.prems"(2))
    moreover have "\<forall>a \<in> set arr'. \<forall>b \<in> set arr'. \<forall>c \<in> set arr'. name_le a b \<longrightarrow> name_le b c \<longrightarrow> name_le a c"
      unfolding same(1) by (rule "2.prems"(3))
    moreover have "ordered_from i arr'" using post(2) by (simp only: diff_Suc_1)
    ultimately have "mset (bubble_outer i arr') = mset arr' \<and> ordered_from 0 (bubble_outer i arr')"
      by (rule "2.IH" [OF inner [symmetric] False])
    then show ?thesis using inner False post(1) by simp
  qed
next
  case (1 arr)
  show ?case using "1.prems"(4) by simp
qed

lemma name_le_order:
  assumes "text_name a" "text_name b"
  shows "name_le a b \<longleftrightarrow> \<not> ord_class.lexordp (ct_name b) (ct_name a)"
  using assms by (auto simp: name_le_def text_name_def intro!: str_cmp_le)

lemma name_le_total: "text_name a \<Longrightarrow> text_name b \<Longrightarrow> \<not> name_le a b \<Longrightarrow> name_le b a"
  by (simp add: name_le_order) (meson lexordp_antisym)

lemma name_le_trans: "text_name a \<Longrightarrow> text_name b \<Longrightarrow> text_name c \<Longrightarrow> name_le a b \<Longrightarrow> name_le b c \<Longrightarrow> name_le a c"
  by (simp add: name_le_order) (metis lexordp_linear lexordp_trans)

lemma help_list_out: "\<forall>i. \<not> stop i \<Longrightarrow>
  help_list stop k arr out = (0, out @ concat (map (\<lambda>c. case ct_usage c of None \<Rightarrow> [] | Some u \<Rightarrow> u) arr))"
  by (induction stop k arr out rule: help_list.induct) (auto split: option.splits)

subsection \<open>Lookup\<close>

lemma find_loop_spec:
  assumes "len \<le> length cmd" "key = take len cmd"
  shows "find_loop cmd len tbl tmp n =
     (case find (\<lambda>c. ct_name c = key) tbl of
        Some c \<Rightarrow> Some c
      | None \<Rightarrow>
          if n + length (filter (\<lambda>c. prefix key (ct_name c)) tbl) = 1
          then (case filter (\<lambda>c. prefix key (ct_name c)) tbl of [] \<Rightarrow> tmp | cs \<Rightarrow> Some (last cs)) else None)"
proof (induction tbl arbitrary: tmp n)
  case (Cons c tbl)
  have pre: "take len cmd = take len (ct_name c) \<longleftrightarrow> prefix key (ct_name c)"
    using assms by (auto simp: prefix_def take_is_prefix) (metis append_take_drop_id)+
  have eq: "prefix key (ct_name c) \<Longrightarrow> len = length (ct_name c) \<longleftrightarrow> ct_name c = key"
  proof -
    assume "prefix key (ct_name c)"
    then obtain zs where "ct_name c = key @ zs" by (auto simp: prefix_def)
    moreover have "length key = len" using assms by simp
    ultimately show "len = length (ct_name c) \<longleftrightarrow> ct_name c = key" by auto
  qed
  show ?case
    using Cons.IH by (auto simp: pre eq split: option.splits list.splits)
qed simp

text \<open>
  \<open>find_cmd\<close> is the lookup its comments describe: of the name up to the first dot, an entry with
  exactly this name is found wherever it stands; without one, the entry the name abbreviates if
  there is one and only one; otherwise, for an ambiguous or unknown name, none.
\<close>

theorem find_cmd_lookup:
  "find_cmd tbl cmd =
     (let key = takeWhile (\<lambda>c. c \<noteq> chr CHR ''.'') cmd in
      case find (\<lambda>c. ct_name c = key) tbl of
        Some c \<Rightarrow> Some c
      | None \<Rightarrow> (case filter (\<lambda>c. prefix key (ct_name c)) tbl of [c] \<Rightarrow> Some c | _ \<Rightarrow> None))"
proof -
  let ?key = "takeWhile (\<lambda>c. c \<noteq> chr CHR ''.'') cmd"
  have "?key = take (length ?key) cmd" by (rule takeWhile_eq_take)
  then show ?thesis
    using find_loop_spec [of "length ?key" cmd ?key tbl None 0]
    by (auto simp: find_cmd_def Let_def length_takeWhile_le split: option.splits list.splits)
qed

text \<open>
  \<open>help\<close> without arguments lists every command once, in the order of the names: when it is not
  interrupted it prints the usage lines of an arrangement of the table sorted by name.
\<close>

theorem do_help_sorted:
  assumes "\<forall>c \<in> set tbl. text_name c" "\<forall>i. \<not> stop i"
  shows "\<exists>arr. mset arr = mset tbl \<and> sorted_wrt (\<lambda>a b. \<not> ord_class.lexordp (ct_name b) (ct_name a)) arr \<and>
    do_help tbl stop [cmd] out =
      (0, out @ concat (map (\<lambda>c. case ct_usage c of None \<Rightarrow> [] | Some u \<Rightarrow> u) arr))"
proof (cases tbl)
  case Nil
  then show ?thesis by (simp add: do_help_def)
next
  case (Cons c cs)
  let ?arr = "bubble_outer (length tbl - 1) tbl"
  have "mset ?arr = mset tbl \<and> ordered_from 0 ?arr"
  proof (rule bubble_outer_sorts)
    show "length tbl - 1 < length tbl" using Cons by simp
    show "ordered_from (length tbl - 1) tbl" by (auto simp: ordered_from_def)
  qed (use assms(1) name_le_total name_le_trans in blast)+
  then have perm: "mset ?arr = mset tbl" and ord: "ordered_from 0 ?arr" by blast+
  have names: "\<forall>c \<in> set ?arr. text_name c" using assms(1) mset_eq_setD [OF perm] by simp
  have "sorted_wrt (\<lambda>a b. \<not> ord_class.lexordp (ct_name b) (ct_name a)) ?arr"
    unfolding sorted_wrt_iff_nth_less
  proof (intro allI impI)
    fix i j assume ij: "i < j" "j < length ?arr"
    then have "name_le (?arr ! i) (?arr ! j)" using ord by (simp add: ordered_from_def)
    then show "\<not> ord_class.lexordp (ct_name (?arr ! j)) (ct_name (?arr ! i))"
      using names ij by (simp add: name_le_order)
  qed
  with perm show ?thesis using assms(2) by (auto simp: do_help_def help_list_out)
qed

definition entry_named :: "string \<Rightarrow> nat \<Rightarrow> nat cmd_tbl" where
  "entry_named s f = \<lparr>ct_name = bytes s, ct_maxargs = 2, ct_repeatable = 1, ct_cmd = f, ct_usage = Some (bytes s), ct_help = None\<rparr>"

theorem do_help_sorted_witness:
  "\<exists>arr. mset arr = mset [entry_named ''run'' 0, entry_named ''echo'' 1, entry_named ''setenv'' 2] \<and>
     sorted_wrt (\<lambda>a b. \<not> ord_class.lexordp (ct_name b) (ct_name a)) arr \<and>
     do_help [entry_named ''run'' 0, entry_named ''echo'' 1, entry_named ''setenv'' 2] (\<lambda>_. False) [bytes ''help''] [] =
       (0, [] @ concat (map (\<lambda>c. case ct_usage c of None \<Rightarrow> [] | Some u \<Rightarrow> u) arr))"
  by (rule do_help_sorted) (simp_all add: entry_named_def text_name_def)

end
