(* ===== verification/Console.thy ===== *)
theory Console imports CmdLoad begin

text \<open>
  What \<open>common/main.c\<close> does with the keyboard: the line editor \<open>readline\<close> with \<open>delete_char\<close>, and
  the wait before the automatic boot, \<open>abortboot\<close>, in both of its versions (any key, or the keys of
  \<open>CONFIG_AUTOBOOT_KEYED\<close>).

  The characters that arrive are a list; \<open>None\<close> is waiting for ever at its end. Where the code polls
  (\<open>tstc\<close>), every poll takes an element of a list: a character, or \<open>None\<close> when there is none.
  \<open>console_buffer\<close> is a memory indexed from 0. Not modelled: \<open>CONFIG_BOOT_RETRY_TIME\<close>,
  \<open>CONFIG_AUTO_COMPLETE\<close>, \<open>CONFIG_SILENT_CONSOLE\<close> and the configurable strings of the key version.
\<close>

definition CFG_CBSIZE :: nat where "CFG_CBSIZE = 256"
definition MAX_DELAY_STOP_STR :: nat where "MAX_DELAY_STOP_STR = 32"

section \<open>The line editor\<close>

definition erase_seq :: "byte list" where "erase_seq = [8, 32, 8]"
definition tab_seq :: "byte list" where "tab_seq = replicate 8 32"

text \<open>
  The local variables of \<open>readline\<close>: \<open>p\<close> as an index into the buffer, \<open>n\<close> and \<open>col\<close>.
\<close>

record rline =
  rl_buf :: mem
  rl_p :: nat
  rl_n :: nat
  rl_col :: int
  rl_out :: "byte list"

function erase_cols :: "int \<Rightarrow> int \<Rightarrow> byte list \<Rightarrow> int \<times> byte list" where
  "erase_cols plen col out = (if col > plen then erase_cols plen (col - 1) (out @ erase_seq) else (col, out))"
  by pat_completeness auto
termination by (relation "measure (\<lambda>(plen, col, _). nat (col - plen))") auto

declare erase_cols.simps [simp del]

fun retype :: "byte list \<Rightarrow> int \<Rightarrow> byte list \<Rightarrow> int \<times> byte list" where
  "retype [] col out = (col, out)"
| "retype (c # s) col out =
     (if c = 9 then retype s (col + (8 - col mod 8)) (out @ drop (nat (col mod 8)) tab_seq)
      else retype s (col + 1) (out @ [c]))"

definition delete_char :: "int \<Rightarrow> rline \<Rightarrow> rline" where
  "delete_char plen st =
     (if rl_n st = 0 then st
      else
        let p = rl_p st - 1;
            (col, out) =
              (if rl_buf st p = 9 then
                 (case erase_cols plen (rl_col st) (rl_out st) of (col, out) \<Rightarrow>
                    retype (read_bytes (rl_buf st) 0 p) col out)
               else (rl_col st - 1, rl_out st @ erase_seq))
        in st\<lparr>rl_p := p, rl_n := rl_n st - 1, rl_col := col, rl_out := out\<rparr>)"

lemma delete_char_n: "rl_n (delete_char plen st) = rl_n st - 1"
  by (simp add: delete_char_def Let_def split: prod.split)

function delete_word :: "int \<Rightarrow> rline \<Rightarrow> rline" where
  "delete_word plen st =
     (if rl_n st > 0 \<and> rl_buf st (rl_p st) \<noteq> 32 then delete_word plen (delete_char plen st) else st)"
  by pat_completeness auto
termination by (relation "measure (\<lambda>(_, st). rl_n st)") (auto simp: delete_char_n)

declare delete_word.simps [simp del]

definition type_char :: "byte \<Rightarrow> rline \<Rightarrow> rline" where
  "type_char c st =
     (if rl_n st < CFG_CBSIZE - 2 then
        let (col, out) =
              (if c = 9 then (rl_col st + (8 - rl_col st mod 8), rl_out st @ drop (nat (rl_col st mod 8)) tab_seq)
               else (rl_col st + 1, rl_out st @ [c]))
        in st\<lparr>rl_buf := (rl_buf st)(rl_p st := c), rl_p := rl_p st + 1, rl_n := rl_n st + 1, rl_col := col, rl_out := out\<rparr>
      else st\<lparr>rl_out := rl_out st @ [7]\<rparr>)"

definition erase_line :: "int \<Rightarrow> rline \<Rightarrow> rline" where
  "erase_line plen st =
     (case erase_cols plen (rl_col st) (rl_out st) of (col, out) \<Rightarrow>
        st\<lparr>rl_p := 0, rl_n := 0, rl_col := col, rl_out := out\<rparr>)"

text \<open>The loop: the result of \<open>readline\<close>, its variables and what was not read.\<close>

fun readline_loop :: "int \<Rightarrow> byte list \<Rightarrow> rline \<Rightarrow> (int \<times> rline \<times> byte list) option" where
  "readline_loop plen [] st = None"
| "readline_loop plen (c # inp) st =
     (if c = 13 \<or> c = 10 then
        Some (int (rl_p st), st\<lparr>rl_buf := (rl_buf st)(rl_p st := 0), rl_out := rl_out st @ [13, 10]\<rparr>, inp)
      else if c = 0 then readline_loop plen inp st
      else if c = 0x03 then Some (-1, st\<lparr>rl_buf := (rl_buf st)(0 := 0)\<rparr>, inp)
      else if c = 0x15 then readline_loop plen inp (erase_line plen st)
      else if c = 0x17 then readline_loop plen inp (delete_word plen (delete_char plen st))
      else if c = 0x08 \<or> c = 0x7F then readline_loop plen inp (delete_char plen st)
      else readline_loop plen inp (type_char c st))"

text \<open>The result, \<open>console_buffer\<close>, the console output and the rest of the input.\<close>

definition readline ::
    "byte list \<Rightarrow> mem \<Rightarrow> byte list \<Rightarrow> byte list \<Rightarrow> (int \<times> mem \<times> byte list \<times> byte list) option" where
  "readline prompt console_buffer inp out =
     (let plen = int (length prompt) in
      map_option (\<lambda>(r, st, inp). (r, rl_buf st, rl_out st, inp))
        (readline_loop plen inp
           \<lparr>rl_buf = console_buffer, rl_p = 0, rl_n = 0, rl_col = plen, rl_out = out @ prompt\<rparr>))"

section \<open>Waiting before the automatic boot\<close>

text \<open>Up to 100 polls in a second: whether a key was pressed, and the polls to come.\<close>

fun poll_key :: "nat \<Rightarrow> byte option list \<Rightarrow> bool \<times> byte option list" where
  "poll_key 0 polls = (False, polls)"
| "poll_key (Suc i) [] = (False, [])"
| "poll_key (Suc i) (t # polls) = (case t of Some c \<Rightarrow> (True, polls) | None \<Rightarrow> poll_key i polls)"

function abort_loop :: "int \<Rightarrow> bool \<Rightarrow> byte option list \<Rightarrow> byte list \<Rightarrow> bool \<times> byte list" where
  "abort_loop bootdelay abort polls out =
     (if bootdelay > 0 \<and> \<not> abort then
        let bootdelay = bootdelay - 1;
            (abort, polls) = poll_key 100 polls;
            bootdelay = (if abort then 0 else bootdelay);
            out = printf ([CHR 0x08, CHR 0x08, CHR 0x08] @ ''%2d '') [ArgInt (word_of_int bootdelay)] out
        in abort_loop bootdelay abort polls out
      else (abort, puts nl out))"
  by pat_completeness auto
termination by (relation "measure (\<lambda>(d, _). nat d)") (auto split: if_splits)

declare abort_loop.simps [simp del]

definition abortboot :: "bool \<Rightarrow> int \<Rightarrow> byte option list \<Rightarrow> byte list \<Rightarrow> bool \<times> byte list" where
  "abortboot CONFIG_ZERO_BOOTDELAY_CHECK bootdelay polls out =
     (let out = printf ''Hit any key to stop autoboot: %2d '' [ArgInt (word_of_int bootdelay)] out;
          (abort, polls, out) =
            (if CONFIG_ZERO_BOOTDELAY_CHECK \<and> bootdelay \<ge> 0 then
               (case polls of
                  Some c # polls \<Rightarrow> (True, polls, puts ([CHR 0x08, CHR 0x08, CHR 0x08] @ '' 0'') out)
                | _ \<Rightarrow> (False, tl polls, out))
             else (False, polls, out))
      in abort_loop bootdelay abort polls out)"

subsection \<open>With keys\<close>

text \<open>The strings of \<open>delaykey\<close>, \<open>None\<close> for NULL. \<open>presskey\<close> is the list of its \<open>presskey_len\<close> characters.\<close>

definition key_len :: "byte list option \<Rightarrow> nat" where
  "key_len str =
     (let len = (case str of None \<Rightarrow> 0 | Some s \<Rightarrow> length s)
      in if len > MAX_DELAY_STOP_STR then MAX_DELAY_STOP_STR else len)"

definition key_max :: "byte list option list \<Rightarrow> nat" where
  "key_max keys = fold (\<lambda>k m. if m > key_len k then m else key_len k) keys 0"

definition key_hit :: "byte list \<Rightarrow> byte list option \<Rightarrow> bool" where
  "key_hit presskey k \<longleftrightarrow>
     key_len k > 0 \<and> length presskey \<ge> key_len k \<and>
     drop (length presskey - key_len k) presskey = take (key_len k) (the k)"

text \<open>
  The loop: every round takes a poll, until the time is up at the end of the list. \<open>None\<close> is the
  shift of an empty \<open>presskey\<close>, whose bound \<open>presskey_max - 1\<close> wraps around.
\<close>

fun keyed_loop :: "byte list option list \<Rightarrow> nat \<Rightarrow> byte list \<Rightarrow> byte option list \<Rightarrow> bool option" where
  "keyed_loop keys presskey_max presskey [] = Some False"
| "keyed_loop keys presskey_max presskey (t # polls) =
     (let abort = list_ex (key_hit presskey) keys in
      case t of
        None \<Rightarrow> if abort then Some True else keyed_loop keys presskey_max presskey polls
      | Some c \<Rightarrow>
          if length presskey < presskey_max
          then (if abort then Some True else keyed_loop keys presskey_max (presskey @ [c]) polls)
          else if presskey_max = 0 then None
          else if abort then Some True else keyed_loop keys presskey_max (tl presskey @ [c]) polls)"

definition abortboot_keyed :: "byte list option list \<Rightarrow> byte option list \<Rightarrow> bool option" where
  "abortboot_keyed keys polls = keyed_loop keys (key_max keys) [] polls"

section \<open>The editor as an editor of lists\<close>

text \<open>What the keys do to the line.\<close>

fun word_erase :: "byte list \<Rightarrow> byte list" where
  "word_erase l = (if l = [] then [] else if last l = 32 then butlast l else word_erase (butlast l))"

declare word_erase.simps [simp del]

definition edit :: "byte list \<Rightarrow> byte \<Rightarrow> byte list" where
  "edit l c =
     (if c = 0 then l else if c = 0x15 then [] else if c = 0x17 then word_erase l
      else if c = 0x08 \<or> c = 0x7F then butlast l
      else if length l < CFG_CBSIZE - 2 then l @ [c] else l)"

text \<open>
  A terminal: the characters left of the cursor and those right of it on its line. Backspace moves
  the cursor, the bell and carriage return leave it where it is.
\<close>

definition tty_char :: "byte list \<times> byte list \<Rightarrow> byte \<Rightarrow> byte list \<times> byte list" where
  "tty_char t c =
     (case t of (l, r) \<Rightarrow>
        if c = 8 then (if l = [] then (l, r) else (butlast l, last l # r))
        else if c = 10 then ([], [])
        else if c = 7 \<or> c = 13 then (l, r)
        else (l @ [c], tl r))"

definition tty :: "byte list \<Rightarrow> byte list \<times> byte list" where
  "tty out = foldl tty_char ([], []) out"

text \<open>The terminal shows the text, with the cursor behind it, and nothing else on the line.\<close>

definition displays :: "byte list \<Rightarrow> byte list \<Rightarrow> bool" where
  "displays out tx \<longleftrightarrow> fst (tty out) = tx \<and> set (snd (tty out)) \<subseteq> {32}"

definition printing :: "byte list \<Rightarrow> bool" where
  "printing s \<longleftrightarrow> {7, 8, 9, 10, 13} \<inter> set s = {}"

fun expand :: "int \<Rightarrow> byte list \<Rightarrow> byte list" where
  "expand col [] = []"
| "expand col (c # s) =
     (if c = 9 then replicate (nat (8 - col mod 8)) 32 @ expand (col + (8 - col mod 8)) s
      else c # expand (col + 1) s)"

definition tab_stop :: "int \<Rightarrow> byte \<Rightarrow> int" where
  "tab_stop col c = (if c = 9 then col + (8 - col mod 8) else col + 1)"

lemma length_expand: "int (length (expand col s)) = foldl tab_stop col s - col"
  by (induction col s rule: expand.induct) (auto simp: tab_stop_def)

lemma expand_append: "expand col (s @ t) = expand col s @ expand (foldl tab_stop col s) t"
  by (induction col s rule: expand.induct) (auto simp: tab_stop_def)

lemma tty_append: "tty (out @ s) = foldl tty_char (tty out) s"
  by (simp add: tty_def)

lemma set_tl: "set (tl xs) \<subseteq> set xs"
  by (cases xs) auto

lemma displays_print: "displays out tx \<Longrightarrow> printing s \<Longrightarrow> displays (out @ s) (tx @ s)"
proof (induction s rule: rev_induct)
  case (snoc c s)
  then have "displays (out @ s) (tx @ s)" "c \<notin> {7, 8, 9, 10, 13}" by (auto simp: printing_def)
  then show ?case
    using set_tl [of "snd (tty (out @ s))"] by (auto simp: displays_def tty_def tty_char_def split: prod.splits)
qed simp

lemma displays_erase: "displays out (tx @ [c]) \<Longrightarrow> displays (out @ erase_seq) tx"
  by (auto simp: displays_def tty_append erase_seq_def tty_char_def split: prod.splits)

lemma displays_bell: "displays out tx \<Longrightarrow> displays (out @ [7]) tx"
  by (auto simp: displays_def tty_append tty_char_def split: prod.splits)

lemma erase_cols_displays:
  "displays out (tx @ s) \<Longrightarrow> col = plen + int (length s) \<Longrightarrow> erase_cols plen col out = (col', out') \<Longrightarrow>
   col' = plen \<and> displays out' tx"
proof (induction s arbitrary: col out rule: rev_induct)
  case Nil
  then show ?case by (simp add: erase_cols.simps [of plen])
next
  case (snoc c s)
  have "displays (out @ erase_seq) (tx @ s)" using snoc.prems(1) by (intro displays_erase) simp
  moreover have "erase_cols plen (col - 1) (out @ erase_seq) = (col', out')"
    using snoc.prems(2,3) by (subst (asm) erase_cols.simps) simp
  ultimately show ?case using snoc.IH [of "out @ erase_seq" "col - 1"] snoc.prems(2) by simp
qed

lemma drop_tab_seq: "0 \<le> col \<Longrightarrow> drop (nat (col mod 8)) tab_seq = replicate (nat (8 - col mod 8)) 32"
  by (simp add: tab_seq_def nat_diff_distrib)

lemma printing_blanks: "printing (replicate k 32)"
  by (simp add: printing_def)

lemma retype_displays:
  "displays out tx \<Longrightarrow> 0 \<le> col \<Longrightarrow> {7, 8, 10, 13} \<inter> set s = {} \<Longrightarrow> retype s col out = (col', out') \<Longrightarrow>
   col' = foldl tab_stop col s \<and> displays out' (tx @ expand col s)"
proof (induction s col out arbitrary: tx rule: retype.induct)
  case (2 c s col out)
  show ?case
  proof (cases "c = 9")
    case True
    have "displays (out @ drop (nat (col mod 8)) tab_seq) (tx @ replicate (nat (8 - col mod 8)) 32)"
      unfolding drop_tab_seq [OF "2.prems"(2)] using "2.prems"(1) printing_blanks by (rule displays_print)
    moreover have "col mod 8 < 8" by (rule pos_mod_bound) simp
    then have "0 \<le> col + (8 - col mod 8)" using "2.prems"(2) by linarith
    ultimately show ?thesis
      using "2.IH"(1) [OF True, of "tx @ replicate (nat (8 - col mod 8)) 32"] "2.prems"(3,4) True by (simp add: tab_stop_def)
  next
    case False
    then have "displays (out @ [c]) (tx @ [c])" using "2.prems"(1,3) by (intro displays_print) (auto simp: printing_def)
    then show ?thesis using "2.IH"(2) [OF False, of "tx @ [c]"] "2.prems"(2,3,4) False by (simp add: tab_stop_def)
  qed
qed simp

text \<open>The variables of \<open>readline\<close> stand for a line.\<close>

definition rl_line :: "byte list \<Rightarrow> rline \<Rightarrow> byte list \<Rightarrow> bool" where
  "rl_line prompt st l \<longleftrightarrow>
     rl_p st = length l \<and> rl_n st = length l \<and> length l \<le> CFG_CBSIZE - 2 \<and> read_bytes (rl_buf st) 0 (length l) = l \<and>
     0 \<notin> set l \<and> {7, 8, 10, 13} \<inter> set l = {} \<and>
     rl_col st = foldl tab_stop (int (length prompt)) l \<and>
     displays (rl_out st) (prompt @ expand (int (length prompt)) l)"

lemma rl_line_erase:
  assumes "rl_line prompt st l"
  shows "rl_line prompt (erase_line (int (length prompt)) st) []"
proof -
  let ?plen = "int (length prompt)"
  obtain col out where e: "erase_cols ?plen (rl_col st) (rl_out st) = (col, out)" by fastforce
  have "rl_col st = ?plen + int (length (expand ?plen l))" using assms by (simp add: rl_line_def length_expand)
  from erase_cols_displays [OF _ this e, of prompt] assms have "col = ?plen \<and> displays out prompt" by (simp add: rl_line_def)
  then show ?thesis by (simp add: rl_line_def erase_line_def e)
qed

lemma rl_line_delete:
  assumes "rl_line prompt st l"
  shows "rl_line prompt (delete_char (int (length prompt)) st) (butlast l) \<and>
    (l \<noteq> [] \<longrightarrow> rl_buf (delete_char (int (length prompt)) st) (length l - 1) = last l)"
proof (cases "l = []")
  case True
  then show ?thesis using assms by (simp add: delete_char_def rl_line_def)
next
  case False
  then obtain s c where l: "l = s @ [c]" by (metis append_butlast_last_id)
  let ?plen = "int (length prompt)" and ?buf = "rl_buf st"
  have "read_bytes ?buf 0 (length s + 1) = read_bytes ?buf 0 (length s) @ [?buf (length s)]"
    by (simp add: read_bytes_add read_bytes_Suc del: Suc_eq_plus1 add_Suc_right)
  moreover have "read_bytes ?buf 0 (length s + 1) = s @ [c]" using assms by (simp add: l rl_line_def)
  ultimately have buf: "read_bytes ?buf 0 (length s) = s" "?buf (length s) = c" by simp_all
  have st: "rl_p st = length s + 1" "rl_n st = length s + 1"
    "length s + 1 \<le> CFG_CBSIZE - 2" "0 \<notin> set s" "{7, 8, 10, 13} \<inter> set s = {}"
    "rl_col st = tab_stop (foldl tab_stop ?plen s) c"
    "displays (rl_out st) (prompt @ expand ?plen s @ expand (foldl tab_stop ?plen s) [c])"
    using assms unfolding l rl_line_def expand_append by auto
  show ?thesis
  proof (cases "c = 9")
    case False
    then have "displays (rl_out st @ erase_seq) (prompt @ expand ?plen s)"
      using st(7) displays_erase [of "rl_out st" "prompt @ expand ?plen s" c] by simp
    then show ?thesis using st buf False by (simp add: l delete_char_def rl_line_def Let_def tab_stop_def)
  next
    case True
    obtain col out where e: "erase_cols ?plen (rl_col st) (rl_out st) = (col, out)" by fastforce
    have "rl_col st = ?plen + int (length (expand ?plen l))" using assms by (simp add: rl_line_def length_expand)
    from erase_cols_displays [OF _ this e, of prompt] assms have er: "col = ?plen" "displays out prompt" by (simp_all add: rl_line_def)
    obtain col' out' where r: "retype s col out = (col', out')" by fastforce
    from retype_displays [OF er(2) _ st(5) this] er(1)
    have "col' = foldl tab_stop ?plen s" "displays out' (prompt @ expand ?plen s)" by simp_all
    then show ?thesis using st buf by (simp add: l delete_char_def rl_line_def Let_def True e [unfolded st(6) True] r)
  qed
qed


lemma rl_line_delete_word:
  assumes "rl_line prompt st l"
  shows "rl_line prompt (delete_word (int (length prompt)) (delete_char (int (length prompt)) st)) (word_erase l)"
  using assms
proof (induction l arbitrary: st rule: rev_induct)
  case Nil
  then have "rl_line prompt (delete_char (int (length prompt)) st) []" using rl_line_delete [of prompt st "[]"] by simp
  moreover from this have "delete_word (int (length prompt)) (delete_char (int (length prompt)) st) = delete_char (int (length prompt)) st"
    by (subst delete_word.simps) (simp add: rl_line_def)
  moreover have "word_erase [] = []" by (simp add: word_erase.simps)
  ultimately show ?case by simp
next
  case (snoc c l)
  let ?st = "delete_char (int (length prompt)) st"
  have d: "rl_line prompt ?st l" "rl_buf ?st (length l) = c" using rl_line_delete [OF snoc.prems] by simp_all
  then have n: "rl_n ?st = length l" "rl_p ?st = length l" by (simp_all add: rl_line_def)
  show ?case
  proof (cases "c = 32 \<or> l = []")
    case True
    then have "delete_word (int (length prompt)) ?st = ?st" using n d(2) by (subst delete_word.simps) auto
    moreover have "word_erase (l @ [c]) = l"
      using True by (subst word_erase.simps) (auto simp: word_erase.simps [of "[]"])
    ultimately show ?thesis using d(1) by simp
  next
    case False
    then have "delete_word (int (length prompt)) ?st = delete_word (int (length prompt)) (delete_char (int (length prompt)) ?st)"
      using n d(2) by (subst delete_word.simps) simp
    then show ?thesis using snoc.IH [OF d(1)] False by (simp add: word_erase.simps [of "l @ [c]"])
  qed
qed

lemma rl_line_type:
  assumes "rl_line prompt st l" "c \<notin> {0, 7, 8, 10, 13}"
  shows "rl_line prompt (type_char c st) (if length l < CFG_CBSIZE - 2 then l @ [c] else l)"
proof (cases "length l < CFG_CBSIZE - 2")
  case False
  then show ?thesis using assms displays_bell by (auto simp: type_char_def rl_line_def)
next
  case True
  let ?plen = "int (length prompt)" and ?col = "rl_col st"
  have st: "rl_p st = length l" "rl_n st = length l" "read_bytes (rl_buf st) 0 (length l) = l" "0 \<notin> set l"
    "{7, 8, 10, 13} \<inter> set l = {}" "?col = foldl tab_stop ?plen l" "displays (rl_out st) (prompt @ expand ?plen l)"
    using assms(1) by (simp_all add: rl_line_def)
  have "read_bytes ((rl_buf st)(length l := c)) 0 (length l + 1) =
      read_bytes ((rl_buf st)(length l := c)) 0 (length l) @ [c]"
    by (simp add: read_bytes_add read_bytes_Suc del: Suc_eq_plus1 add_Suc_right)
  also have "read_bytes ((rl_buf st)(length l := c)) 0 (length l) = read_bytes (rl_buf st) 0 (length l)"
    by (rule nth_equalityI) simp_all
  finally have buf: "read_bytes ((rl_buf st)(length l := c)) 0 (length l + 1) = l @ [c]" unfolding st(3) .
  have col: "0 \<le> ?col" using length_expand [of ?plen l] unfolding st(6) by linarith
  have "displays (rl_out st @ (if c = 9 then drop (nat (?col mod 8)) tab_seq else [c])) (prompt @ expand ?plen (l @ [c]))"
  proof (cases "c = 9")
    case True
    then show ?thesis
      unfolding expand_append drop_tab_seq [OF col]
      using displays_print [OF st(7) printing_blanks] st(6) by simp
  next
    case False
    then show ?thesis
      using displays_print [OF st(7), of "[c]"] assms(2) by (simp add: expand_append printing_def)
  qed
  moreover have "rl_p (type_char c st) = length (l @ [c])" "rl_n (type_char c st) = length (l @ [c])"
    "rl_buf (type_char c st) = (rl_buf st)(length l := c)" "rl_col (type_char c st) = tab_stop ?col c"
    "rl_out (type_char c st) = rl_out st @ (if c = 9 then drop (nat (?col mod 8)) tab_seq else [c])"
    using True st(1,2) by (simp_all add: type_char_def tab_stop_def)
  moreover have "0 \<notin> set (l @ [c])" "{7, 8, 10, 13} \<inter> set (l @ [c]) = {}" using st(4,5) assms(2) by auto
  ultimately show ?thesis
    using True st(6) buf unfolding rl_line_def by (simp del: insert_disjoint disjoint_insert)
qed

text \<open>The keys that edit, and what is typed: everything but the ends of a line, \<open>^C\<close> and the bell.\<close>

definition typed :: "byte \<Rightarrow> bool" where
  "typed c \<longleftrightarrow> c \<notin> {3, 7, 10, 13}"

lemma readline_loop_edits:
  "rl_line prompt st l \<Longrightarrow> \<forall>c \<in> set keys. typed c \<Longrightarrow>
   \<exists>st'. readline_loop (int (length prompt)) (keys @ inp) st = readline_loop (int (length prompt)) inp st' \<and>
     rl_line prompt st' (foldl edit l keys)"
proof (induction keys arbitrary: st l)
  case (Cons c keys)
  have c: "c \<notin> {3, 7, 10, 13}" using Cons.prems(2) by (simp add: typed_def)
  define st1 where "st1 =
    (if c = 0 then st else if c = 0x15 then erase_line (int (length prompt)) st
     else if c = 0x17 then delete_word (int (length prompt)) (delete_char (int (length prompt)) st)
     else if c = 0x08 \<or> c = 0x7F then delete_char (int (length prompt)) st else type_char c st)"
  have "rl_line prompt st1 (edit l c)"
    using Cons.prems(1) c rl_line_erase rl_line_delete_word rl_line_delete rl_line_type [of prompt st l c]
    by (auto simp: st1_def edit_def)
  moreover have "readline_loop (int (length prompt)) ((c # keys) @ inp) st = readline_loop (int (length prompt)) (keys @ inp) st1"
    using c by (simp add: st1_def)
  ultimately show ?case using Cons.IH [of st1 "edit l c"] Cons.prems(2) by simp
qed auto

lemma read_bytes_nth0: "read_bytes m 0 (length l) = l \<Longrightarrow> i < length l \<Longrightarrow> m i = l ! i"
  using nth_read_bytes [of i "length l" m 0] by simp

text \<open>
  C28. The line editor does what it shows: for every sequence of printing characters, tabs, backspaces,
  \<open>^W\<close> and \<open>^U\<close> before the end of the line, \<open>readline\<close> returns the length of the edited line, which
  stands in \<open>console_buffer\<close> with its NUL (within the 256 bytes of the buffer), and the terminal shows
  exactly the prompt and this line, tabs expanded.
\<close>

theorem readline_edits:
  assumes "printing prompt" "tty out = ([], [])" "\<forall>c \<in> set keys. typed c" "e = 13 \<or> e = 10"
  shows "\<exists>buf out'. readline prompt console_buffer (keys @ e # rest) out =
      Some (int (length (foldl edit [] keys)), buf, out' @ [13, 10], rest) \<and>
    cstr buf 0 (foldl edit [] keys) \<and> length (foldl edit [] keys) + 1 < CFG_CBSIZE \<and>
    displays out' (prompt @ expand (int (length prompt)) (foldl edit [] keys))"
proof -
  let ?plen = "int (length prompt)" and ?l = "foldl edit [] keys"
  let ?st = "\<lparr>rl_buf = console_buffer, rl_p = 0, rl_n = 0, rl_col = ?plen, rl_out = out @ prompt\<rparr>"
  have "displays out []" using assms(2) by (simp add: displays_def)
  from displays_print [OF this assms(1)] have "rl_line prompt ?st []" by (simp add: rl_line_def)
  from readline_loop_edits [OF this assms(3), of "e # rest"] obtain st where
    st: "readline_loop ?plen (keys @ e # rest) ?st = readline_loop ?plen (e # rest) st" "rl_line prompt st ?l" by blast
  have "read_bytes (rl_buf st) 0 (length ?l) = ?l" "0 \<notin> set ?l" using st(2) by (simp_all add: rl_line_def)
  then have "cstr ((rl_buf st)(length ?l := 0)) 0 ?l"
    using read_bytes_nth0 by (simp add: cstr_iff)
  then show ?thesis
    using st assms(4) by (auto simp: readline_def Let_def rl_line_def CFG_CBSIZE_def)
qed

theorem readline_edits_witness:
  "\<exists>buf out'. readline (bytes ''> '') (\<lambda>_. 1) (bytes ''rub'' @ [8] @ bytes ''n it'' @ [0x17, 13]) [] =
      Some (3, buf, out' @ [13, 10], []) \<and> cstr buf 0 (bytes ''run'') \<and> displays out' (bytes ''> run'')"
proof -
  have l: "foldl edit [] (bytes ''rub'' @ [8] @ bytes ''n it'' @ [0x17]) = bytes ''run''"
    by (simp add: edit_def CFG_CBSIZE_def word_erase.simps)
  have "printing (bytes ''> '')" "tty [] = ([], [])" "\<forall>c \<in> set (bytes ''rub'' @ [8] @ bytes ''n it'' @ [0x17]). typed c"
    "(13 :: byte) = 13 \<or> (13 :: byte) = 10"
    by (simp_all add: printing_def tty_def typed_def)
  from readline_edits [OF this, of "\<lambda>_. 1" "[]"] show ?thesis
    unfolding l by (simp add: bytes_def) blast
qed

section \<open>The keys that stop the automatic boot\<close>

lemma key_max_upper: "k \<in> set keys \<Longrightarrow> key_len k \<le> key_max keys"
proof -
  have "m \<le> fold (\<lambda>k m. if m > key_len k then m else key_len k) ks m \<and>
      (\<forall>k \<in> set ks. key_len k \<le> fold (\<lambda>k m. if m > key_len k then m else key_len k) ks m)" for ks m
  proof (induction ks arbitrary: m)
    case (Cons a ks)
    show ?case using Cons.IH [of m] Cons.IH [of "key_len a"] by auto
  qed simp
  then show "k \<in> set keys \<Longrightarrow> key_len k \<le> key_max keys" by (simp add: key_max_def)
qed

text \<open>The characters that were there in a list of polls.\<close>

definition pressed :: "byte option list \<Rightarrow> byte list" where
  "pressed polls = map the (filter (\<lambda>t. t \<noteq> None) polls)"

definition latest :: "nat \<Rightarrow> byte list \<Rightarrow> byte list" where
  "latest n s = drop (length s - n) s"

lemma key_hit_latest:
  assumes "key_len k \<le> n"
  shows "key_hit (latest n s) k = key_hit s k"
  using assms by (auto simp: key_hit_def latest_def min_def)

lemma latest_snoc: "0 < n \<Longrightarrow> latest n (s @ [c]) = (if length (latest n s) < n then latest n s @ [c] else tl (latest n s) @ [c])"
  by (auto simp: latest_def tl_drop drop_Suc min_def Suc_diff_le)

lemma keyed_loop_spec:
  assumes "0 < n" "\<forall>k \<in> set keys. key_len k \<le> n"
  shows "keyed_loop keys n (latest n s) polls =
    Some (\<exists>m < length polls. \<exists>k \<in> set keys. key_hit (s @ pressed (take m polls)) k)"
proof (induction polls arbitrary: s)
  case (Cons t polls)
  have hit: "list_ex (key_hit (latest n s)) keys \<longleftrightarrow> (\<exists>k \<in> set keys. key_hit s k)"
    using assms(2) key_hit_latest by (auto simp: list_ex_iff)
  let ?s = "case t of None \<Rightarrow> s | Some c \<Rightarrow> s @ [c]"
  have step: "keyed_loop keys n (latest n s) (t # polls) =
      (if \<exists>k \<in> set keys. key_hit s k then Some True else keyed_loop keys n (latest n ?s) polls)"
    using assms(1) by (auto simp: hit latest_snoc split: option.split)
  have "?s @ pressed (take m polls) = s @ pressed (take (Suc m) (t # polls))" for m
    by (auto simp: pressed_def split: option.split)
  then have "(\<exists>m < length polls. \<exists>k \<in> set keys. key_hit (?s @ pressed (take m polls)) k) \<longleftrightarrow>
      (\<exists>m < length polls. \<exists>k \<in> set keys. key_hit (s @ pressed (take (Suc m) (t # polls))) k)" by simp
  then show ?case
    unfolding step Cons.IH by (auto simp: Ex_less_Suc2 pressed_def)
qed simp

text \<open>
  The keys that stop the boot: if a string is configured, the boot is stopped exactly when, before
  the last poll of the delay, the characters typed so far end with one of the strings (cut to 32
  characters); the window of characters the code keeps is enough. If no string is configured, any
  character typed makes the code shift an empty buffer with an index that wraps around.
\<close>

theorem abortboot_keyed_stops:
  "abortboot_keyed keys polls =
     (if \<exists>k \<in> set keys. 0 < key_len k
      then Some (\<exists>m < length polls. \<exists>k \<in> set keys. key_hit (pressed (take m polls)) k)
      else if pressed polls = [] then Some False else None)"
proof (cases "\<exists>k \<in> set keys. 0 < key_len k")
  case True
  then have "0 < key_max keys" using key_max_upper by fastforce
  from keyed_loop_spec [OF this, of keys "[]" polls] key_max_upper show ?thesis
    using True by (simp add: abortboot_keyed_def latest_def)
next
  case False
  then have "key_max keys = 0" unfolding key_max_def by (induction keys) auto
  moreover have "list_ex (key_hit []) keys = False" using False by (auto simp: list_ex_iff key_hit_def)
  then have "keyed_loop keys 0 [] polls = (if pressed polls = [] then Some False else None)"
    by (induction polls) (auto simp: pressed_def split: option.split)
  ultimately show ?thesis using False by (simp add: abortboot_keyed_def)
qed

end
