(* ===== verification/Shell.thy ===== *)
theory Shell imports Command Console Env begin

text \<open>
  The command interpreter of \<open>common/main.c\<close>: \<open>parse_line\<close>, \<open>process_macros\<close>, \<open>run_command\<close> and
  \<open>do_run\<close>, with \<open>do_bootd\<close> of \<open>common/cmd_bootm.c\<close>, over the environment (theory \<open>Env\<close>) and the table
  of commands (theory \<open>Command\<close>).

  The functions of the table are called through pointers: \<open>run_command\<close> has the function that
  carries a command out as an argument, and \<open>exec\<close> closes the recursion through \<open>run\<close> and
  \<open>bootd\<close> for the commands modelled in this development; its first argument is the depth of calls
  that the stack has room for, \<open>None\<close> is a stack overflow.

  Strings are lists of bytes. \<open>cmdbuf\<close> and \<open>finaltoken\<close> are arrays on the stack: the byte before the
  first and what follows the second up to its next NUL are read when quotes begin a line and when
  \<open>finaltoken\<close> has no NUL; they are components of the record \<open>port\<close>.
\<close>

definition CFG_MAXARGS :: nat where "CFG_MAXARGS = 16"

abbreviation BS :: byte where "BS \<equiv> chr CHR 0x5C"
abbreviation QUOTE :: byte where "QUOTE \<equiv> chr CHR 0x27"
abbreviation DOLLAR :: byte where "DOLLAR \<equiv> chr CHR 0x24"
abbreviation SEMI :: byte where "SEMI \<equiv> chr CHR '';''"

section \<open>Words\<close>

definition blank :: "byte \<Rightarrow> bool" where "blank c \<longleftrightarrow> c = 32 \<or> c = 9"

text \<open>The arguments from \<open>nargs = CFG_MAXARGS - n\<close> on, and whether the bound was reached.\<close>

fun parse_args :: "nat \<Rightarrow> byte list \<Rightarrow> byte list list \<times> bool" where
  "parse_args 0 line = ([], True)"
| "parse_args (Suc n) line =
     (let line = dropWhile blank line in
      if line = [] then ([], False)
      else
        let arg = takeWhile (\<lambda>c. \<not> blank c) line;
            line = dropWhile (\<lambda>c. \<not> blank c) line
        in if line = [] then ([arg], False)
           else case parse_args n (tl line) of (argv, over) \<Rightarrow> (arg # argv, over))"

definition parse_line :: "byte list \<Rightarrow> byte list \<Rightarrow> byte list list \<times> byte list" where
  "parse_line line out =
     (case parse_args CFG_MAXARGS line of
        (argv, over) \<Rightarrow>
          (argv, if over then printf (''** Too many args (max. %d) **'' @ nl) [ArgInt (of_nat CFG_MAXARGS)] out else out))"

section \<open>Variables in a line\<close>

text \<open>The local variables of \<open>process_macros\<close>; \<open>varname_start\<close> is the input from there on.\<close>

record macro =
  ma_state :: nat
  ma_prev :: byte
  ma_var :: "byte list"
  ma_out :: "byte list"
  ma_cnt :: nat

definition emit :: "byte \<Rightarrow> macro \<Rightarrow> macro" where
  "emit c s = s\<lparr>ma_out := ma_out s @ [c], ma_cnt := ma_cnt s - 1\<rparr>"

primrec copy_value :: "mem \<Rightarrow> nat \<Rightarrow> nat \<Rightarrow> byte list" where
  "copy_value env i 0 = []"
| "copy_value env i (Suc n) = (if env i = 0 then [] else env i # copy_value env (i + 1) n)"

text \<open>The \<open>switch\<close>: \<open>input\<close> is the input behind \<open>c\<close>.\<close>

definition macro_char :: "nat \<Rightarrow> mem \<Rightarrow> byte \<Rightarrow> byte list \<Rightarrow> macro \<Rightarrow> macro option" where
  "macro_char env_size env c input s =
     (if ma_state s = 0 then
        (if c = QUOTE \<and> ma_prev s \<noteq> BS then Some (s\<lparr>ma_state := 3\<rparr>)
         else if c = DOLLAR \<and> ma_prev s \<noteq> BS then Some (s\<lparr>ma_state := 1\<rparr>)
         else Some (emit c s))
      else if ma_state s = 1 then
        (if c = chr CHR ''('' \<or> c = chr CHR ''{'' then Some (s\<lparr>ma_state := 2, ma_var := input\<rparr>)
         else let s = emit DOLLAR (s\<lparr>ma_state := 0\<rparr>) in Some (if ma_cnt s \<noteq> 0 then emit c s else s))
      else if ma_state s = 2 then
        (if c = chr CHR '')'' \<or> c = chr CHR ''}'' then
           let envcnt = length (ma_var s) - length input - 1;
               envname = take envcnt (ma_var s)
           in (case getenv env_size env envname of
                 None \<Rightarrow> None
               | Some None \<Rightarrow> Some (s\<lparr>ma_state := 0\<rparr>)
               | Some (Some envval) \<Rightarrow>
                   let val = copy_value env envval (ma_cnt s)
                   in Some (s\<lparr>ma_state := 0, ma_out := ma_out s @ val, ma_cnt := ma_cnt s - length val\<rparr>))
         else Some s)
      else
        (if c = QUOTE \<and> ma_prev s \<noteq> BS then Some (s\<lparr>ma_state := 0\<rparr>) else Some (emit c s)))"

fun macro_loop :: "nat \<Rightarrow> mem \<Rightarrow> byte list \<Rightarrow> macro \<Rightarrow> macro option" where
  "macro_loop env_size env [] s = Some s"
| "macro_loop env_size env (c # input) s =
     (if ma_cnt s = 0 then Some s
      else if ma_state s \<noteq> 3 \<and> c = BS \<and> ma_prev s \<noteq> BS then
        (case input of
           [] \<Rightarrow> Some s
         | d # input \<Rightarrow>
             (case macro_char env_size env d input (s\<lparr>ma_prev := c\<rparr>) of
                None \<Rightarrow> None
              | Some s \<Rightarrow> macro_loop env_size env input (s\<lparr>ma_prev := d\<rparr>)))
      else
        (case macro_char env_size env c input s of
           None \<Rightarrow> None
         | Some s \<Rightarrow> macro_loop env_size env input (s\<lparr>ma_prev := c\<rparr>)))"

text \<open>The bytes stored, and \<open>outputcnt\<close>: a NUL follows the bytes unless it is 0.\<close>

definition process_macros :: "nat \<Rightarrow> mem \<Rightarrow> byte list \<Rightarrow> (byte list \<times> nat) option" where
  "process_macros env_size env input =
     map_option (\<lambda>s. (ma_out s, ma_cnt s))
       (macro_loop env_size env input
          \<lparr>ma_state = 0, ma_prev = 0, ma_var = [], ma_out = [], ma_cnt = CFG_CBSIZE\<rparr>)"

section \<open>Running a command line\<close>

record 'c shell =
  sh_env :: "'c env_state"
  sh_ctrlc :: bool

record ('f, 'c) port =
  po_board :: "'c board"
  po_env_size :: nat
  po_table :: "'f cmd_tbl list"
  po_bootd :: 'f
  po_before :: byte
  po_behind :: "byte list"

type_synonym ('f, 'c) cmd_fun = "'f cmd_tbl \<Rightarrow> u32 \<Rightarrow> byte list list \<Rightarrow> 'c shell \<Rightarrow> (int \<times> 'c shell) option"

definition sh_print :: "(byte list \<Rightarrow> byte list) \<Rightarrow> 'c shell \<Rightarrow> 'c shell" where
  "sh_print f st = st\<lparr>sh_env := (sh_env st)\<lparr>en_out := f (en_out (sh_env st))\<rparr>\<rparr>"

text \<open>
  The next separator: the token before it and what follows. \<open>first\<close> is \<open>sep == str\<close>, \<open>before\<close> is
  \<open>*(sep - 1)\<close>.
\<close>

fun find_sep :: "bool \<Rightarrow> byte \<Rightarrow> bool \<Rightarrow> byte list \<Rightarrow> byte list \<times> byte list" where
  "find_sep first before inquotes [] = ([], [])"
| "find_sep first before inquotes (c # s) =
     (let inquotes = (if c = QUOTE \<and> before \<noteq> BS then \<not> inquotes else inquotes)
      in if \<not> inquotes \<and> c = SEMI \<and> \<not> first \<and> before \<noteq> BS then ([], s)
         else case find_sep False c inquotes s of (token, rest) \<Rightarrow> (c # token, rest))"

lemma find_sep_le: "length (snd (find_sep first before inquotes s)) \<le> length s"
  by (induction s arbitrary: first before inquotes) (simp_all add: Let_def case_prod_beta le_SucI)

lemma find_sep_shorter: "s \<noteq> [] \<Longrightarrow> length (snd (find_sep True before inquotes s)) < length s"
  by (cases s) (simp_all add: Let_def case_prod_beta find_sep_le le_imp_less_Suc)

lemma find_sep_rest: "s \<noteq> [] \<Longrightarrow> (token, rest) = find_sep True before inquotes s \<Longrightarrow> length rest < length s"
  using find_sep_shorter [of s before inquotes] by (metis snd_conv)

text \<open>One token: what the body of the loop does, with its \<open>rc\<close>, \<open>flag\<close> and \<open>repeatable\<close>.\<close>

datatype 'c token_result = Next u32 int int "'c shell" | Stopped "'c shell"

definition run_argv ::
    "('f, 'c) port \<Rightarrow> ('f, 'c) cmd_fun \<Rightarrow> byte list list \<Rightarrow> u32 \<Rightarrow> int \<Rightarrow> int \<Rightarrow> 'c shell \<Rightarrow> 'c token_result option" where
  "run_argv po exec argv flg rc repeatable st =
     (if argv = [] then Some (Next flg (-1) repeatable st)
      else case find_cmd (po_table po) (hd argv) of
        None \<Rightarrow>
          Some (Next flg (-1) repeatable
            (sh_print (printf (''Unknown command '' @ [CHR 0x27] @ ''%s'' @ [CHR 0x27] @ '' - try '' @ [CHR 0x27] @
               ''help'' @ [CHR 0x27] @ nl) [ArgStr (Some (hd argv))]) st))
      | Some cmdtp \<Rightarrow>
          if int (length argv) > ct_maxargs cmdtp then
            Some (Next flg (-1) repeatable
              (sh_print (printf (''Usage:'' @ nl @ ''%s'' @ nl) [ArgStr (ct_usage cmdtp)]) st))
          else if ct_cmd cmdtp = po_bootd po \<and> flg AND CMD_FLAG_BOOTD \<noteq> 0 then
            Some (Next flg (-1) repeatable
              (sh_print (puts ([CHR 0x27] @ ''bootd'' @ [CHR 0x27] @ '' recursion detected'' @ nl)) st))
          else
            let flg = (if ct_cmd cmdtp = po_bootd po then flg OR CMD_FLAG_BOOTD else flg)
            in (case exec cmdtp flg argv st of
                  None \<Rightarrow> None
                | Some (r, st) \<Rightarrow>
                    let rc = (if r \<noteq> 0 then -1 else rc);
                        repeatable = repeatable AND ct_repeatable cmdtp
                    in Some (if sh_ctrlc st then Stopped st else Next flg rc repeatable st)))"

definition run_token ::
    "('f, 'c) port \<Rightarrow> ('f, 'c) cmd_fun \<Rightarrow> byte list \<Rightarrow> u32 \<Rightarrow> int \<Rightarrow> int \<Rightarrow> 'c shell \<Rightarrow> 'c token_result option" where
  "run_token po exec token flg rc repeatable st =
     (case process_macros (po_env_size po) (en_env (sh_env st)) token of
        None \<Rightarrow> None
      | Some (final, outputcnt) \<Rightarrow>
          let finaltoken = (if outputcnt = 0 then final @ po_behind po else final);
              (argv, out) = parse_line finaltoken (en_out (sh_env st))
          in run_argv po exec argv flg rc repeatable (sh_print (\<lambda>_. out) st))"

function run_loop ::
    "('f, 'c) port \<Rightarrow> ('f, 'c) cmd_fun \<Rightarrow> byte \<Rightarrow> byte list \<Rightarrow> u32 \<Rightarrow> int \<Rightarrow> int \<Rightarrow> 'c shell \<Rightarrow> (int \<times> 'c shell) option" where
  "run_loop po exec before str flg rc repeatable st =
     (if str = [] then Some (if rc \<noteq> 0 then rc else repeatable, st)
      else case find_sep True before False str of
        (token, str') \<Rightarrow>
          (case run_token po exec token flg rc repeatable st of
             None \<Rightarrow> None
           | Some (Stopped st) \<Rightarrow> Some (0, st)
           | Some (Next flg rc repeatable st) \<Rightarrow> run_loop po exec 0 str' flg rc repeatable st))"
  by pat_completeness auto
termination
  by (relation "measure (\<lambda>(_, _, _, str, _). length str)") (simp_all add: find_sep_rest)

declare run_loop.simps [simp del]

text \<open>\<open>None\<close> as the command is NULL.\<close>

definition run_command ::
    "('f, 'c) port \<Rightarrow> ('f, 'c) cmd_fun \<Rightarrow> byte list option \<Rightarrow> u32 \<Rightarrow> 'c shell \<Rightarrow> (int \<times> 'c shell) option" where
  "run_command po exec cmd flg st =
     (let st = st\<lparr>sh_ctrlc := False\<rparr> in
      case cmd of
        None \<Rightarrow> Some (-1, st)
      | Some cmd \<Rightarrow>
          if cmd = [] then Some (-1, st)
          else if length cmd \<ge> CFG_CBSIZE then Some (-1, sh_print (puts (''## Command too long!'' @ nl)) st)
          else run_loop po exec (po_before po) cmd flg 0 1 st)"

section \<open>Commands that run commands\<close>

text \<open>The value of a variable as a string; the outer \<open>option\<close> as for \<open>getenv\<close>.\<close>

definition getenv_str :: "nat \<Rightarrow> mem \<Rightarrow> byte list \<Rightarrow> byte list option option" where
  "getenv_str env_size env name =
     (case getenv env_size env name of
        None \<Rightarrow> None
      | Some None \<Rightarrow> Some None
      | Some (Some i) \<Rightarrow> map_option (\<lambda>n. Some (read_bytes env i n)) (strlen env i))"

fun run_vars ::
    "('f, 'c) port \<Rightarrow> ('f, 'c) cmd_fun \<Rightarrow> u32 \<Rightarrow> byte list list \<Rightarrow> 'c shell \<Rightarrow> (int \<times> 'c shell) option" where
  "run_vars po exec flg [] st = Some (0, st)"
| "run_vars po exec flg (name # names) st =
     (case getenv_str (po_env_size po) (en_env (sh_env st)) name of
        None \<Rightarrow> None
      | Some None \<Rightarrow>
          Some (1, sh_print (printf (''## Error: '' @ [CHR 0x22] @ ''%s'' @ [CHR 0x22] @ '' not defined'' @ nl)
            [ArgStr (Some name)]) st)
      | Some (Some value) \<Rightarrow>
          (case run_command po exec (Some value) flg st of
             None \<Rightarrow> None
           | Some (r, st) \<Rightarrow> if r = -1 then Some (1, st) else run_vars po exec flg names st))"

definition do_run ::
    "('f, 'c) port \<Rightarrow> ('f, 'c) cmd_fun \<Rightarrow> byte list option \<Rightarrow> u32 \<Rightarrow> byte list list \<Rightarrow> 'c shell \<Rightarrow> (int \<times> 'c shell) option" where
  "do_run po exec usage flg argv st =
     (if length argv < 2 then Some (1, sh_print (printf (''Usage:'' @ nl @ ''%s'' @ nl) [ArgStr usage]) st)
      else run_vars po exec flg (tl argv) st)"

definition do_bootd :: "('f, 'c) port \<Rightarrow> ('f, 'c) cmd_fun \<Rightarrow> u32 \<Rightarrow> 'c shell \<Rightarrow> (int \<times> 'c shell) option" where
  "do_bootd po exec flg st =
     (case getenv_str (po_env_size po) (en_env (sh_env st)) (bytes ''bootcmd'') of
        None \<Rightarrow> None
      | Some cmd \<Rightarrow> map_option (\<lambda>(r, st). (if r < 0 then 1 else 0, st)) (run_command po exec cmd flg st))"

section \<open>The commands modelled here\<close>

datatype builtin = Do_version | Do_echo | Do_help | Do_printenv | Do_setenv | Do_run | Do_bootd

text \<open>The entries that \<open>U_BOOT_CMD\<close> makes of them.\<close>

definition cmd_version :: "builtin cmd_tbl" where
  "cmd_version = \<lparr>ct_name = bytes ''version'', ct_maxargs = 1, ct_repeatable = 1, ct_cmd = Do_version,
     ct_usage = Some (bytes (''version - print monitor version'' @ nl)), ct_help = None\<rparr>"

definition cmd_echo :: "builtin cmd_tbl" where
  "cmd_echo = \<lparr>ct_name = bytes ''echo'', ct_maxargs = int CFG_MAXARGS, ct_repeatable = 1, ct_cmd = Do_echo,
     ct_usage = Some (bytes (''echo    - echo args to console'' @ nl)),
     ct_help = Some (bytes (''[args..]'' @ nl @ ''    - echo args to console; '' @ [CHR 0x5C] @ ''c suppresses newline'' @ nl))\<rparr>"

definition cmd_printenv :: "builtin cmd_tbl" where
  "cmd_printenv = \<lparr>ct_name = bytes ''printenv'', ct_maxargs = int CFG_MAXARGS, ct_repeatable = 1, ct_cmd = Do_printenv,
     ct_usage = Some (bytes (''printenv- print environment variables'' @ nl)),
     ct_help = Some (bytes (nl @ ''    - print values of all environment variables'' @ nl @ ''printenv name ...'' @ nl @
       ''    - print value of environment variable '' @ [CHR 0x27] @ ''name'' @ [CHR 0x27] @ nl))\<rparr>"

definition cmd_setenv :: "builtin cmd_tbl" where
  "cmd_setenv = \<lparr>ct_name = bytes ''setenv'', ct_maxargs = int CFG_MAXARGS, ct_repeatable = 0, ct_cmd = Do_setenv,
     ct_usage = Some (bytes (''setenv  - set environment variables'' @ nl)),
     ct_help = Some (bytes (''name value ...'' @ nl @ ''    - set environment variable '' @ [CHR 0x27] @ ''name'' @
       [CHR 0x27] @ '' to '' @ [CHR 0x27] @ ''value ...'' @ [CHR 0x27] @ nl @ ''setenv name'' @ nl @
       ''    - delete environment variable '' @ [CHR 0x27] @ ''name'' @ [CHR 0x27] @ nl))\<rparr>"

definition cmd_run :: "builtin cmd_tbl" where
  "cmd_run = \<lparr>ct_name = bytes ''run'', ct_maxargs = int CFG_MAXARGS, ct_repeatable = 1, ct_cmd = Do_run,
     ct_usage = Some (bytes (''run     - run commands in an environment variable'' @ nl)),
     ct_help = Some (bytes (''var [...]'' @ nl @ ''    - run the commands in the environment variable(s) '' @
       [CHR 0x27] @ ''var'' @ [CHR 0x27] @ nl))\<rparr>"

definition cmd_boot :: "builtin cmd_tbl" where
  "cmd_boot = \<lparr>ct_name = bytes ''boot'', ct_maxargs = 1, ct_repeatable = 1, ct_cmd = Do_bootd,
     ct_usage = Some (bytes (''boot    - boot default, i.e., run '' @ [CHR 0x27] @ ''bootcmd'' @ [CHR 0x27] @ nl)), ct_help = None\<rparr>"

definition cmd_bootd :: "builtin cmd_tbl" where
  "cmd_bootd = \<lparr>ct_name = bytes ''bootd'', ct_maxargs = 1, ct_repeatable = 1, ct_cmd = Do_bootd,
     ct_usage = Some (bytes (''bootd   - boot default, i.e., run '' @ [CHR 0x27] @ ''bootcmd'' @ [CHR 0x27] @ nl)), ct_help = None\<rparr>"

definition cmd_question_mark :: "builtin cmd_tbl" where
  "cmd_question_mark = \<lparr>ct_name = bytes ''?'', ct_maxargs = int CFG_MAXARGS, ct_repeatable = 1, ct_cmd = Do_help,
     ct_usage = Some (bytes (''?       - alias for '' @ [CHR 0x27] @ ''help'' @ [CHR 0x27] @ nl)), ct_help = None\<rparr>"

text \<open>
  The functions of the commands: \<open>ver\<close> is \<open>version_string\<close>, \<open>ctrlc k\<close> what \<open>ctrlc\<close> returns after line \<open>k\<close>
  of a listing. A listing returns 1 only when it was stopped. \<open>ex\<close> carries out the commands of a line that
  \<open>run\<close> or \<open>bootd\<close> runs; \<open>exec\<close> closes the recursion, with a stack for \<open>d\<close> nested commands.
\<close>

definition exec_with :: "(builtin, 'c) cmd_fun \<Rightarrow> (builtin, 'c) port \<Rightarrow> byte list \<Rightarrow> (nat \<Rightarrow> bool) \<Rightarrow> (builtin, 'c) cmd_fun" where
  "exec_with ex po ver ctrlc cmdtp flg argv st =
     (let e = sh_env st in
      case ct_cmd cmdtp of
        Do_version \<Rightarrow>
          (case do_version ver (en_out e) of (r, out) \<Rightarrow> Some (r, sh_print (\<lambda>_. out) st))
      | Do_echo \<Rightarrow>
          (case do_echo argv (en_out e) of (r, out) \<Rightarrow> Some (r, sh_print (\<lambda>_. out) st))
      | Do_help \<Rightarrow>
          (case do_help (po_table po) ctrlc argv (en_out e) of
             (r, out) \<Rightarrow> Some (r, (sh_print (\<lambda>_. out) st)\<lparr>sh_ctrlc := (length argv = 1 \<and> r = 1) \<or> sh_ctrlc st\<rparr>))
      | Do_printenv \<Rightarrow>
          map_option (\<lambda>(r, e). (r, st\<lparr>sh_env := e, sh_ctrlc := (length argv = 1 \<and> r = 1) \<or> sh_ctrlc st\<rparr>))
            (do_printenv (po_board po) ctrlc (tl argv) e)
      | Do_setenv \<Rightarrow>
          map_option (\<lambda>(r, e). (r, st\<lparr>sh_env := e\<rparr>))
            (do_setenv (po_board po) (case ct_usage cmdtp of None \<Rightarrow> [] | Some u \<Rightarrow> u) (map Some argv) e)
      | Do_run \<Rightarrow> do_run po ex (ct_usage cmdtp) flg argv st
      | Do_bootd \<Rightarrow> do_bootd po ex flg st)"

declare exec_with_def [simp]

fun exec :: "nat \<Rightarrow> (builtin, 'c) port \<Rightarrow> byte list \<Rightarrow> (nat \<Rightarrow> bool) \<Rightarrow> (builtin, 'c) cmd_fun" where
  "exec 0 po ver ctrlc cmdtp flg argv st = None"
| "exec (Suc d) po ver ctrlc cmdtp flg argv st = exec_with (exec d po ver ctrlc) po ver ctrlc cmdtp flg argv st"

section \<open>What a line is expanded to\<close>

text \<open>
  A line as pieces: characters that stand for themselves, characters behind a backslash, text in
  quotes and references to variables.
\<close>

datatype piece = Plain byte | Escaped byte | Quoted "byte list" | Ref "byte list"

fun piece_text :: "piece \<Rightarrow> byte list" where
  "piece_text (Plain c) = [c]"
| "piece_text (Escaped c) = [BS, c]"
| "piece_text (Quoted s) = [QUOTE] @ s @ [QUOTE]"
| "piece_text (Ref name) = [DOLLAR, chr CHR ''{''] @ name @ [chr CHR ''}'']"

fun piece_value :: "var list \<Rightarrow> piece \<Rightarrow> byte list" where
  "piece_value vs (Plain c) = [c]"
| "piece_value vs (Escaped c) = [c]"
| "piece_value vs (Quoted s) = s"
| "piece_value vs (Ref name) = (case map_of vs name of None \<Rightarrow> [] | Some v \<Rightarrow> v)"

fun good_piece :: "piece \<Rightarrow> bool" where
  "good_piece (Plain c) \<longleftrightarrow> c \<notin> {QUOTE, DOLLAR, BS}"
| "good_piece (Escaped c) \<longleftrightarrow> c \<noteq> BS"
| "good_piece (Quoted s) \<longleftrightarrow> {QUOTE, BS} \<inter> set s = {}"
| "good_piece (Ref name) \<longleftrightarrow> good_name name \<and> {chr CHR '')'', chr CHR ''}'', BS} \<inter> set name = {}"

definition line_text :: "piece list \<Rightarrow> byte list" where
  "line_text ps = concat (map piece_text ps)"

definition line_value :: "var list \<Rightarrow> piece list \<Rightarrow> byte list" where
  "line_value vs ps = concat (map (piece_value vs) ps)"

text \<open>What has been filled, in terms of what is to be filled.\<close>

definition filled :: "macro \<Rightarrow> byte list \<Rightarrow> bool" where
  "filled s t \<longleftrightarrow> ma_out s = take CFG_CBSIZE t \<and> ma_cnt s = CFG_CBSIZE - length t"

definition idle :: "macro \<Rightarrow> byte list \<Rightarrow> bool" where
  "idle s t \<longleftrightarrow> filled s t \<and> (ma_cnt s \<noteq> 0 \<longrightarrow> ma_state s = 0 \<and> ma_prev s \<noteq> BS)"

lemma macro_full: "ma_cnt s = 0 \<Longrightarrow> macro_loop n env input s = Some s"
  by (cases input) simp_all

lemma filled_full: "filled s t \<Longrightarrow> ma_cnt s = 0 \<Longrightarrow> filled s (t @ u)"
  by (simp add: filled_def)

lemma filled_emit: "filled s t \<Longrightarrow> ma_cnt s \<noteq> 0 \<Longrightarrow> filled (emit c s) (t @ [c])"
  by (simp add: filled_def emit_def)

lemma filled_update [simp]:
  "filled (s\<lparr>ma_state := a\<rparr>) t = filled s t" "filled (s\<lparr>ma_prev := b\<rparr>) t = filled s t" "filled (s\<lparr>ma_var := v\<rparr>) t = filled s t"
  by (simp_all add: filled_def)

lemma emit_fields [simp]:
  "ma_state (emit c s) = ma_state s" "ma_prev (emit c s) = ma_prev s" "ma_var (emit c s) = ma_var s"
  by (simp_all add: emit_def)

text \<open>Inside quotes and inside the name of a variable.\<close>

lemma quoted_step:
  "filled s t \<Longrightarrow> ma_state s = 3 \<Longrightarrow> ma_prev s \<noteq> BS \<Longrightarrow> {QUOTE, BS} \<inter> set q = {} \<Longrightarrow>
   \<exists>s'. macro_loop n env (q @ QUOTE # rest) s = macro_loop n env rest s' \<and> idle s' (t @ q)"
proof (induction q arbitrary: s t)
  case Nil
  let ?s = "if ma_cnt s = 0 then s else s\<lparr>ma_state := 0, ma_prev := QUOTE\<rparr>"
  have "macro_loop n env (QUOTE # rest) s = macro_loop n env rest ?s"
    using Nil.prems by (simp add: macro_char_def macro_full)
  moreover have "idle ?s t" using Nil.prems by (simp add: idle_def)
  ultimately show ?case unfolding append_Nil append_Nil2 by blast
next
  case (Cons c q)
  show ?case
  proof (cases "ma_cnt s = 0")
    case True
    have "idle s (t @ c # q)" using filled_full [OF Cons.prems(1) True] True by (simp add: idle_def)
    then show ?thesis using True macro_full [of s n env] by metis
  next
    case False
    let ?s = "(emit c s)\<lparr>ma_prev := c\<rparr>"
    have "macro_loop n env ((c # q) @ QUOTE # rest) s = macro_loop n env (q @ QUOTE # rest) ?s"
      using Cons.prems False by (auto simp: macro_char_def)
    moreover have "filled ?s (t @ [c])" using filled_emit [OF Cons.prems(1) False] by simp
    from Cons.IH [OF this] Cons.prems have "\<exists>s'. macro_loop n env (q @ QUOTE # rest) ?s = macro_loop n env rest s' \<and> idle s' ((t @ [c]) @ q)"
      by simp
    ultimately show ?thesis by simp
  qed
qed

lemma name_step:
  "ma_state s = 2 \<Longrightarrow> ma_cnt s \<noteq> 0 \<Longrightarrow> ma_prev s \<noteq> BS \<Longrightarrow> {chr CHR '')'', chr CHR ''}'', BS} \<inter> set q = {} \<Longrightarrow>
   \<exists>p. p \<noteq> BS \<and> macro_loop n env (q @ rest) s = macro_loop n env rest (s\<lparr>ma_prev := p\<rparr>)"
proof (induction q arbitrary: s)
  case Nil
  have "s\<lparr>ma_prev := ma_prev s\<rparr> = s" by simp
  then show ?case using Nil.prems(3) by (metis append_Nil)
next
  case (Cons c q)
  have "macro_loop n env ((c # q) @ rest) s = macro_loop n env (q @ rest) (s\<lparr>ma_prev := c\<rparr>)"
    using Cons.prems by (auto simp: macro_char_def)
  moreover have "\<exists>p. p \<noteq> BS \<and> macro_loop n env (q @ rest) (s\<lparr>ma_prev := c\<rparr>) = macro_loop n env rest (s\<lparr>ma_prev := c\<rparr>\<lparr>ma_prev := p\<rparr>)"
    using Cons.prems by (intro Cons.IH) auto
  ultimately show ?case by simp
qed

lemma copy_value_holds: "holds env i (val @ [0]) \<Longrightarrow> 0 \<notin> set val \<Longrightarrow> copy_value env i n = take n val"
proof (induction val arbitrary: i n)
  case Nil
  then show ?case by (cases n) simp_all
next
  case (Cons c val)
  then show ?case by (cases n) simp_all
qed

lemma piece_step:
  assumes env: "env_holds bo st vs" "ENV_SIZE bo \<le> n" and s: "idle s t" and g: "good_piece g"
  shows "\<exists>s'. macro_loop n (en_env st) (piece_text g @ rest) s = macro_loop n (en_env st) rest s' \<and>
    idle s' (t @ piece_value vs g)"
proof (cases "ma_cnt s = 0")
  case True
  then have "idle s (t @ piece_value vs g)" using filled_full [of s t] s by (simp add: idle_def)
  then show ?thesis using True macro_full [of s n "en_env st"] by metis
next
  case False
  let ?env = "en_env st"
  have st: "filled s t" "ma_state s = 0" "ma_prev s \<noteq> BS" using s False by (simp_all add: idle_def)
  show ?thesis
  proof (cases g)
    case (Plain c)
    let ?s = "(emit c s)\<lparr>ma_prev := c\<rparr>"
    have "macro_loop n ?env (piece_text g @ rest) s = macro_loop n ?env rest ?s"
      using Plain g st False by (auto simp: macro_char_def)
    moreover have "idle ?s (t @ piece_value vs g)"
      using Plain g st filled_emit [OF st(1) False] by (simp add: idle_def)
    ultimately show ?thesis by blast
  next
    case (Escaped c)
    let ?s = "(emit c (s\<lparr>ma_prev := BS\<rparr>))\<lparr>ma_prev := c\<rparr>"
    have "macro_loop n ?env (piece_text g @ rest) s = macro_loop n ?env rest ?s"
      using Escaped st False by (simp add: macro_char_def)
    moreover have "idle ?s (t @ piece_value vs g)"
      using Escaped g st filled_emit [of "s\<lparr>ma_prev := BS\<rparr>" t c] False by (simp add: idle_def)
    ultimately show ?thesis by blast
  next
    case (Quoted q)
    let ?s = "s\<lparr>ma_state := 3, ma_prev := QUOTE\<rparr>"
    have "macro_loop n ?env (piece_text g @ rest) s = macro_loop n ?env (q @ QUOTE # rest) ?s"
      using Quoted st False by (simp add: macro_char_def)
    then show ?thesis using quoted_step [of ?s t q n ?env rest] Quoted g st by simp
  next
    case (Ref name)
    let ?var = "name @ chr CHR ''}'' # rest"
    let ?s = "s\<lparr>ma_state := 2, ma_var := ?var, ma_prev := chr CHR ''{''\<rparr>"
    have nm: "good_name name" "{chr CHR '')'', chr CHR ''}'', BS} \<inter> set name = {}" using g Ref by simp_all
    have "macro_loop n ?env (piece_text g @ rest) s = macro_loop n ?env ?var ?s"
      using Ref st False by (simp add: macro_char_def)
    moreover obtain p where p: "p \<noteq> BS"
      "macro_loop n ?env ?var ?s = macro_loop n ?env (chr CHR ''}'' # rest) (?s\<lparr>ma_prev := p\<rparr>)"
      using name_step [of ?s name n ?env "chr CHR ''}'' # rest"] nm(2) False by auto
    moreover have "\<exists>s'. macro_loop n ?env (chr CHR ''}'' # rest) (?s\<lparr>ma_prev := p\<rparr>) = macro_loop n ?env rest s' \<and>
        idle s' (t @ piece_value vs g)"
    proof (cases "map_of vs name")
      case None
      then have "getenv n ?env name = Some None" using getenv_at [OF env(1) nm(1) env(2)] by (simp add: getenv_def)
      then show ?thesis
        using p(1) False st Ref None by (intro exI [of _ "?s\<lparr>ma_state := 0, ma_prev := chr CHR ''}''\<rparr>"])
          (simp add: macro_char_def idle_def)
    next
      case (Some val)
      then obtain i where i: "getenv n ?env name = Some (Some i)" "holds ?env i (val @ [0])" "0 \<notin> set val"
        using getenv_at [OF env(1) nm(1) env(2)] by (auto simp: getenv_def)
      let ?v = "take (ma_cnt s) val"
      let ?s' = "?s\<lparr>ma_state := 0, ma_out := ma_out s @ ?v, ma_cnt := ma_cnt s - length ?v, ma_prev := chr CHR ''}''\<rparr>"
      have "macro_loop n ?env (chr CHR ''}'' # rest) (?s\<lparr>ma_prev := p\<rparr>) = macro_loop n ?env rest ?s'"
        using p(1) False i(1) copy_value_holds [OF i(2,3)] by (simp add: macro_char_def)
      moreover have "idle ?s' (t @ piece_value vs g)"
        using st(1) Some Ref by (auto simp: idle_def filled_def min_def)
      ultimately show ?thesis by blast
    qed
    ultimately show ?thesis by metis
  qed
qed

lemma pieces_step:
  assumes env: "env_holds bo st vs" "ENV_SIZE bo \<le> n"
  shows "idle s t \<Longrightarrow> \<forall>g \<in> set ps. good_piece g \<Longrightarrow>
    \<exists>s'. macro_loop n (en_env st) (line_text ps) s = Some s' \<and> idle s' (t @ line_value vs ps)"
proof (induction ps arbitrary: s t)
  case Nil
  then show ?case by (simp add: line_text_def line_value_def)
next
  case (Cons g ps)
  then obtain s' where "macro_loop n (en_env st) (piece_text g @ line_text ps) s = macro_loop n (en_env st) (line_text ps) s'"
    "idle s' (t @ piece_value vs g)"
    using piece_step [OF env Cons.prems(1), of g "line_text ps"] by auto
  then show ?case using Cons.IH [of s' "t @ piece_value vs g"] Cons.prems(2) by (auto simp: line_text_def line_value_def)
qed

lemma process_macros_line:
  assumes "env_holds bo st vs" "ENV_SIZE bo \<le> n" "\<forall>g \<in> set ps. good_piece g"
  shows "process_macros n (en_env st) (line_text ps) =
    Some (take CFG_CBSIZE (line_value vs ps), CFG_CBSIZE - length (line_value vs ps))"
proof -
  have "idle \<lparr>ma_state = 0, ma_prev = 0, ma_var = [], ma_out = [], ma_cnt = CFG_CBSIZE\<rparr> []"
    by (simp add: idle_def filled_def)
  from pieces_step [OF assms(1,2) this assms(3)] show ?thesis
    by (auto simp: process_macros_def idle_def filled_def)
qed

section \<open>Quoting a line\<close>

definition quote_word :: "byte list \<Rightarrow> byte list" where
  "quote_word w = concat (map (\<lambda>c. if c \<in> {QUOTE, DOLLAR, SEMI} then [BS, c] else [c]) w)"

text \<open>Words that survive: no blank, NUL or backslash.\<close>

definition word_ok :: "byte list \<Rightarrow> bool" where
  "word_ok w \<longleftrightarrow> w \<noteq> [] \<and> {0, 9, 32, BS} \<inter> set w = {}"

definition word_pieces :: "byte list \<Rightarrow> piece list" where
  "word_pieces w = map (\<lambda>c. if c \<in> {QUOTE, DOLLAR, SEMI} then Escaped c else Plain c) w"

lemma word_pieces:
  "line_text (word_pieces w) = quote_word w" "line_value vs (word_pieces w) = w"
  "BS \<notin> set w \<Longrightarrow> g \<in> set (word_pieces w) \<Longrightarrow> good_piece g"
  by (induction w) (auto simp: line_text_def line_value_def word_pieces_def quote_word_def split: if_splits)

lemma line_append:
  "line_text (ps @ qs) = line_text ps @ line_text qs" "line_value vs (ps @ qs) = line_value vs ps @ line_value vs qs"
  by (simp_all add: line_text_def line_value_def)

fun line_pieces :: "byte list list \<Rightarrow> piece list" where
  "line_pieces [] = []"
| "line_pieces (w # ws) = Plain 32 # word_pieces w @ line_pieces ws"

lemma line_pieces:
  "line_text (line_pieces ws) = join 32 (map quote_word ws)" "line_value vs (line_pieces ws) = join 32 ws"
  "\<forall>w \<in> set ws. word_ok w \<Longrightarrow> g \<in> set (line_pieces ws) \<Longrightarrow> good_piece g"
proof -
  have "line_text (Plain c # ps) = c # line_text ps" "line_value vs (Plain c # ps) = c # line_value vs ps" for c ps
    by (simp_all add: line_text_def line_value_def)
  moreover have "line_text [] = []" "line_value vs [] = []" by (simp_all add: line_text_def line_value_def)
  ultimately show "line_text (line_pieces ws) = join 32 (map quote_word ws)" "line_value vs (line_pieces ws) = join 32 ws"
    by (induction ws) (simp_all add: line_append word_pieces)
  show "\<forall>w \<in> set ws. word_ok w \<Longrightarrow> g \<in> set (line_pieces ws) \<Longrightarrow> good_piece g"
    by (induction ws) (auto simp: word_ok_def dest: word_pieces(3) [rotated])
qed

lemma quote_process:
  assumes "env_holds bo st vs" "ENV_SIZE bo \<le> n" "\<forall>w \<in> set ws. word_ok w" "length (value_of ws) < CFG_CBSIZE"
  shows "process_macros n (en_env st) (value_of (map quote_word ws)) = Some (value_of ws, CFG_CBSIZE - length (value_of ws))"
proof (cases ws)
  case Nil
  then show ?thesis using process_macros_line [OF assms(1,2), of "[]"]
    by (simp add: value_of_def line_text_def line_value_def)
next
  case (Cons w ws')
  let ?ps = "word_pieces w @ line_pieces ws'"
  have "line_text ?ps = value_of (map quote_word ws)" "line_value vs ?ps = value_of ws"
    using Cons by (simp_all add: line_append word_pieces line_pieces value_of_Cons)
  moreover have "\<forall>g \<in> set ?ps. good_piece g"
    using assms(3) Cons line_pieces(3) [of ws'] word_pieces(3) [of w] by (auto simp: word_ok_def)
  ultimately show ?thesis using process_macros_line [OF assms(1,2), of ?ps] assms(4) by simp
qed

lemma takeWhile_word: "word_ok w \<Longrightarrow> takeWhile (\<lambda>c. \<not> blank c) (w @ join 32 ws) = w \<and>
    dropWhile (\<lambda>c. \<not> blank c) (w @ join 32 ws) = join 32 ws"
proof -
  assume "word_ok w"
  then have "\<forall>c \<in> set w. \<not> blank c" by (auto simp: word_ok_def blank_def)
  then show ?thesis by (cases ws) (simp_all add: takeWhile_append2 dropWhile_append2 blank_def takeWhile_eq_all_conv)
qed

lemma parse_args_words:
  "\<forall>w \<in> set ws. word_ok w \<Longrightarrow> word_ok w \<Longrightarrow> length ws < n \<Longrightarrow> parse_args n (w @ join 32 ws) = (w # ws, False)"
proof (induction ws arbitrary: w n)
  case Nil
  then obtain c w' where "w = c # w'" "\<not> blank c" by (cases w) (auto simp: word_ok_def blank_def)
  then show ?case using takeWhile_word [OF Nil.prems(2), of "[]"] Nil.prems(3) by (cases n) simp_all
next
  case (Cons v ws)
  then obtain c w' where "w = c # w'" "\<not> blank c" by (cases w) (auto simp: word_ok_def blank_def)
  then have "dropWhile blank (w @ join 32 (v # ws)) = w @ join 32 (v # ws)" "w @ join 32 (v # ws) \<noteq> []" by simp_all
  moreover obtain m where "n = Suc m" "length ws < m" using Cons.prems(3) by (cases n) auto
  ultimately show ?case
    using takeWhile_word [OF Cons.prems(2), of "v # ws"] Cons.IH [of v m] Cons.prems(1) by simp
qed

lemma parse_line_words:
  assumes "\<forall>w \<in> set ws. word_ok w" "length ws \<le> CFG_MAXARGS"
  shows "parse_line (value_of ws) out = (ws, out)"
proof (cases ws)
  case Nil
  then show ?thesis by (simp add: parse_line_def value_of_def CFG_MAXARGS_def eval_nat_numeral)
next
  case (Cons w ws')
  then show ?thesis using parse_args_words [of ws' w CFG_MAXARGS] assms by (simp add: parse_line_def value_of_Cons)
qed

lemma find_sep_word:
  "\<exists>f' b'. find_sep f b False (quote_word w @ rest) =
     (quote_word w @ fst (find_sep f' b' False rest), snd (find_sep f' b' False rest))"
proof (induction w arbitrary: f b)
  case Nil
  then show ?case by (intro exI [of _ f] exI [of _ b]) (simp add: quote_word_def)
next
  case (Cons c w)
  then obtain f' b' where "find_sep False c False (quote_word w @ rest) =
      (quote_word w @ fst (find_sep f' b' False rest), snd (find_sep f' b' False rest))" by blast
  then show ?case by (intro exI [of _ f'] exI [of _ b']) (auto simp: quote_word_def)
qed

lemma find_sep_words: "find_sep f b False (join 32 (map quote_word ws)) = (join 32 (map quote_word ws), [])"
proof (induction ws arbitrary: f b)
  case (Cons w ws)
  obtain f' b' where "find_sep False 32 False (quote_word w @ join 32 (map quote_word ws)) =
      (quote_word w @ fst (find_sep f' b' False (join 32 (map quote_word ws))), snd (find_sep f' b' False (join 32 (map quote_word ws))))"
    using find_sep_word by blast
  then show ?case using Cons.IH [of f' b'] by simp
qed simp

lemma find_sep_line: "find_sep f b False (value_of (map quote_word ws)) = (value_of (map quote_word ws), [])"
proof (cases ws)
  case (Cons w ws')
  then show ?thesis
    using find_sep_word [of f b w "join 32 (map quote_word ws')"] find_sep_words [of _ _ ws']
    by (auto simp: value_of_Cons)
qed (simp add: value_of_def)

lemma length_quote: "length w \<le> length (quote_word w)"
  by (induction w) (auto simp: quote_word_def)

lemma length_value_quote: "length (value_of ws) \<le> length (value_of (map quote_word ws))"
proof -
  have "length (join b ws) \<le> length (join b (map quote_word ws))" for b ws
    by (induction ws arbitrary: b) (use length_quote in \<open>auto intro: add_mono\<close>)
  then show ?thesis unfolding value_of_def by (simp add: diff_le_mono)
qed

lemma value_of_eq_Nil: "\<forall>w \<in> set ws. w \<noteq> [] \<Longrightarrow> value_of ws = [] \<longleftrightarrow> ws = []"
  by (cases ws) (auto simp: value_of_Cons value_of_def)

lemma sh_print_same [simp]: "sh_print (\<lambda>_. en_out (sh_env st)) st = st"
  by (simp add: sh_print_def)

lemma run_line:
  assumes "env_holds bo (sh_env st) vs" "ENV_SIZE bo \<le> po_env_size po" "\<forall>w \<in> set ws. word_ok w"
    and "ws \<noteq> []" "length ws \<le> CFG_MAXARGS" "length (value_of (map quote_word ws)) < CFG_CBSIZE"
  shows "run_command po e (Some (value_of (map quote_word ws))) flg st =
    (case run_argv po e ws flg 0 1 (st\<lparr>sh_ctrlc := False\<rparr>) of
       None \<Rightarrow> None
     | Some (Stopped st') \<Rightarrow> Some (0, st')
     | Some (Next flg' rc rep st') \<Rightarrow> Some (if rc \<noteq> 0 then rc else rep, st'))"
proof -
  let ?line = "value_of (map quote_word ws)" and ?st = "st\<lparr>sh_ctrlc := False\<rparr>"
  have short: "length (value_of ws) < CFG_CBSIZE" using length_value_quote [of ws] assms(6) by simp
  have "process_macros (po_env_size po) (en_env (sh_env ?st)) ?line = Some (value_of ws, CFG_CBSIZE - length (value_of ws))"
    using quote_process [OF assms(1-3) short] by simp
  then have token: "run_token po e ?line flg 0 1 ?st = run_argv po e ws flg 0 1 ?st"
    using short parse_line_words [OF assms(3,5), of "en_out (sh_env ?st)"] sh_print_same [of ?st]
    unfolding run_token_def Let_def by (simp del: sh_print_same)
  have "?line \<noteq> []"
    using assms(3,4) value_of_eq_Nil [of ws] length_value_quote [of ws] by (auto simp: word_ok_def)
  moreover have "run_loop po e b [] f r rep s = Some (if r \<noteq> 0 then r else rep, s)" for b f r rep s
    by (simp add: run_loop.simps)
  ultimately have "run_loop po e (po_before po) ?line flg 0 1 ?st =
      (case run_argv po e ws flg 0 1 ?st of None \<Rightarrow> None | Some (Stopped st') \<Rightarrow> Some (0, st')
        | Some (Next flg' rc rep st') \<Rightarrow> Some (if rc \<noteq> 0 then rc else rep, st'))"
    by (subst run_loop.simps) (simp add: find_sep_line token split: option.split token_result.split)
  then show ?thesis using \<open>?line \<noteq> []\<close> assms(6) unfolding run_command_def Let_def by simp
qed

section \<open>How deep commands nest\<close>

lemma find_loop_in: "find_loop cmd len tbl tmp n = Some c \<Longrightarrow> c \<in> set tbl \<or> tmp = Some c"
  by (induction cmd len tbl tmp n rule: find_loop.induct) (auto split: if_splits)

lemma find_cmd_in: "find_cmd tbl cmd = Some c \<Longrightarrow> c \<in> set tbl"
  using find_loop_in unfolding find_cmd_def Let_def by fastforce

lemma flag_set: "(flg OR CMD_FLAG_BOOTD) AND CMD_FLAG_BOOTD \<noteq> 0"
proof -
  have "bit ((flg OR CMD_FLAG_BOOTD) AND CMD_FLAG_BOOTD) 1" by (simp add: CMD_FLAG_BOOTD_def bit_simps)
  then show ?thesis by (metis bit_0_eq bot_apply bot_bool_def)
qed

text \<open>
  Two ways to execute commands that agree on the calls that can occur: with \<open>CMD_FLAG_BOOTD\<close> set
  (\<open>k\<close>) \<open>bootd\<close> is not called, otherwise it is called with the flag set.
\<close>

definition agree :: "('f, 'c) port \<Rightarrow> bool \<Rightarrow> ('f, 'c) cmd_fun \<Rightarrow> ('f, 'c) cmd_fun \<Rightarrow> bool" where
  "agree po k e1 e2 \<longleftrightarrow>
     (\<forall>c f a s. c \<in> set (po_table po) \<longrightarrow> (ct_cmd c = po_bootd po \<longrightarrow> \<not> k \<and> f AND CMD_FLAG_BOOTD \<noteq> 0) \<longrightarrow>
        e1 c f a s = e2 c f a s)"

lemma run_argv_agree:
  assumes "agree po k e1 e2" "k \<longrightarrow> flg AND CMD_FLAG_BOOTD \<noteq> 0"
  shows "run_argv po e1 argv flg rc rep st = run_argv po e2 argv flg rc rep st \<and>
    (run_argv po e1 argv flg rc rep st = Some (Next flg' rc' rep' st') \<longrightarrow> k \<longrightarrow> flg' AND CMD_FLAG_BOOTD \<noteq> 0)"
proof (cases "argv = []")
  case False
  show ?thesis
  proof (cases "find_cmd (po_table po) (hd argv)")
    case (Some c)
    define f where "f = (if ct_cmd c = po_bootd po then flg OR CMD_FLAG_BOOTD else flg)"
    have same: "\<not> (ct_cmd c = po_bootd po \<and> flg AND CMD_FLAG_BOOTD \<noteq> 0) \<Longrightarrow> e1 c f argv st = e2 c f argv st"
      using assms find_cmd_in [OF Some] flag_set [of flg] unfolding agree_def f_def by auto
    have keep: "k \<longrightarrow> f AND CMD_FLAG_BOOTD \<noteq> 0" using assms(2) flag_set [of flg] by (simp add: f_def)
    have eq: "run_argv po ex argv flg rc rep st =
        (if int (length argv) > ct_maxargs c then
           Some (Next flg (-1) rep (sh_print (printf (''Usage:'' @ nl @ ''%s'' @ nl) [ArgStr (ct_usage c)]) st))
         else if ct_cmd c = po_bootd po \<and> flg AND CMD_FLAG_BOOTD \<noteq> 0 then
           Some (Next flg (-1) rep (sh_print (puts ([CHR 0x27] @ ''bootd'' @ [CHR 0x27] @ '' recursion detected'' @ nl)) st))
         else case ex c f argv st of None \<Rightarrow> None | Some (r, st) \<Rightarrow>
           Some (if sh_ctrlc st then Stopped st else Next f (if r \<noteq> 0 then -1 else rc) (rep AND ct_repeatable c) st))" for ex
      using False Some unfolding run_argv_def f_def Let_def by simp
    have "run_argv po e1 argv flg rc rep st = run_argv po e2 argv flg rc rep st"
      unfolding eq using same by (auto cong: if_cong)
    moreover have "run_argv po e1 argv flg rc rep st = Some (Next flg' rc' rep' st') \<Longrightarrow> flg' = flg \<or> flg' = f"
      unfolding eq by (auto split: option.splits if_splits)
    ultimately show ?thesis using keep assms(2) by blast
  qed (use False assms(2) in \<open>auto simp: run_argv_def\<close>)
qed (use assms(2) in \<open>auto simp: run_argv_def\<close>)

lemma run_loop_agree:
  assumes "agree po k e1 e2"
  shows "k \<longrightarrow> flg AND CMD_FLAG_BOOTD \<noteq> 0 \<Longrightarrow>
    run_loop po e1 before str flg rc rep st = run_loop po e2 before str flg rc rep st"
proof (induction "length str" arbitrary: before str flg rc rep st rule: less_induct)
  case less
  show ?case
  proof (cases "str = []")
    case False
    obtain token str' where sep: "find_sep True before False str = (token, str')" by fastforce
    then have shorter: "length str' < length str" using find_sep_rest [OF False] by metis
    have same: "run_token po e1 token flg rc rep st = run_token po e2 token flg rc rep st"
      using run_argv_agree [OF assms less.prems] unfolding run_token_def Let_def
      by (auto split: option.split prod.split)
    have keep: "run_token po e2 token flg rc rep st = Some (Next flg' rc' rep' st') \<Longrightarrow> k \<longrightarrow> flg' AND CMD_FLAG_BOOTD \<noteq> 0"
      for flg' rc' rep' st'
      using run_argv_agree [OF assms less.prems] unfolding same [symmetric] run_token_def Let_def
      by (auto split: option.splits prod.splits)
    have rest: "run_token po e2 token flg rc rep st = Some (Next flg' rc' rep' st') \<Longrightarrow>
        run_loop po e1 0 str' flg' rc' rep' st' = run_loop po e2 0 str' flg' rc' rep' st'" for flg' rc' rep' st'
      using less.hyps [OF shorter keep] by blast
    have step: "run_loop po ex before str flg rc rep st =
        (case run_token po ex token flg rc rep st of None \<Rightarrow> None | Some (Stopped st) \<Rightarrow> Some (0, st)
         | Some (Next flg rc rep st) \<Rightarrow> run_loop po ex 0 str' flg rc rep st)" for ex
      using False sep by (subst run_loop.simps) simp
    show ?thesis unfolding step same using rest by (simp split: option.split token_result.split)
  qed (simp add: run_loop.simps)
qed

lemma run_command_agree:
  "agree po k e1 e2 \<Longrightarrow> k \<longrightarrow> flg AND CMD_FLAG_BOOTD \<noteq> 0 \<Longrightarrow> run_command po e1 cmd flg st = run_command po e2 cmd flg st"
  using run_loop_agree [of po k e1 e2 flg] unfolding run_command_def Let_def by (auto split: option.split)


lemma do_bootd_agree:
  "agree po True e1 e2 \<Longrightarrow> f AND CMD_FLAG_BOOTD \<noteq> 0 \<Longrightarrow> do_bootd po e1 f st = do_bootd po e2 f st"
  using run_command_agree [of po True e1 e2 f] unfolding do_bootd_def by (simp split: option.split)

lemma exec_with_agree:
  assumes "po_bootd po = Do_bootd" "\<forall>c \<in> set (po_table po). ct_cmd c \<noteq> Do_run"
  shows "agree po True (exec_with e1 po ver ctrlc) (exec_with e2 po ver ctrlc)"
    and "agree po False (exec_with (exec_with e1 po ver ctrlc) po ver ctrlc) (exec_with (exec_with e2 po ver ctrlc) po ver ctrlc)"
proof -
  have other: "exec_with e1 po ver ctrlc c f argv st = exec_with e2 po ver ctrlc c f argv st"
    if "ct_cmd c \<noteq> Do_bootd" "ct_cmd c \<noteq> Do_run" for e1 e2 c f argv st
    using that by (cases "ct_cmd c") simp_all
  then show flagged: "agree po True (exec_with e1 po ver ctrlc) (exec_with e2 po ver ctrlc)" for e1 e2
    using assms unfolding agree_def by metis
  have "exec_with (exec_with e1 po ver ctrlc) po ver ctrlc c f argv st = exec_with (exec_with e2 po ver ctrlc) po ver ctrlc c f argv st"
    if "ct_cmd c = Do_bootd" "f AND CMD_FLAG_BOOTD \<noteq> 0" for c f argv st
    using do_bootd_agree [OF flagged that(2)] that(1) unfolding exec_with_def [of "exec_with _ _ _ _"] by simp
  with other show "agree po False (exec_with (exec_with e1 po ver ctrlc) po ver ctrlc) (exec_with (exec_with e2 po ver ctrlc) po ver ctrlc)"
    using assms unfolding agree_def by metis
qed

lemma exec_Suc: "exec (Suc d) po ver ctrlc = exec_with (exec d po ver ctrlc) po ver ctrlc"
  by (rule ext)+ (simp del: exec_with_def)


lemma holds_cstr: "holds env i (val @ [0]) \<Longrightarrow> 0 \<notin> set val \<Longrightarrow> cstr env i val"
  by (induction val arbitrary: i) auto

lemma run_named:
  assumes "find_cmd (po_table po) (bytes ''run'') = Some cmd_run" "po_bootd po \<noteq> Do_run" "ENV_SIZE bo \<le> po_env_size po"
    and "good_name name" "word_ok name" "{QUOTE, DOLLAR, SEMI} \<inter> set name = {}" "length name < 200"
    and "env_holds bo (sh_env st) vs"
  shows "run_command po e (Some (bytes ''run '' @ name)) flg st =
    (case e cmd_run flg [bytes ''run'', name] (st\<lparr>sh_ctrlc := False\<rparr>) of
       None \<Rightarrow> None
     | Some (r, st') \<Rightarrow> Some (if sh_ctrlc st' then 0 else if r \<noteq> 0 then -1 else 1, st'))"
proof -
  let ?ws = "[bytes ''run'', name]"
  have "quote_word name = name" using assms(6) by (induction name) (auto simp: quote_word_def)
  then have line: "value_of (map quote_word ?ws) = bytes ''run '' @ name"
    by (simp add: value_of_Cons quote_word_def)
  have "run_argv po e ?ws flg 0 1 st1 =
      (case e cmd_run flg ?ws st1 of None \<Rightarrow> None
       | Some (r, st') \<Rightarrow> Some (if sh_ctrlc st' then Stopped st' else Next flg (if r \<noteq> 0 then -1 else 0) 1 st'))" for st1
    using assms(1,2) by (simp add: run_argv_def cmd_run_def CFG_MAXARGS_def Let_def split: option.split)
  moreover have "\<forall>w \<in> set ?ws. word_ok w" using assms(5) by (simp add: word_ok_def)
  ultimately show ?thesis
    using run_line [OF assms(8,3), of ?ws e flg] assms(7) unfolding line
    by (simp add: CFG_MAXARGS_def CFG_CBSIZE_def split: option.split)
qed

lemma getenv_str_value:
  assumes "env_holds bo (sh_env st) vs" "good_name name" "ENV_SIZE bo \<le> n" "map_of vs name = Some val"
  shows "getenv_str n (en_env (sh_env st)) name = Some (Some val)"
proof -
  obtain i where i: "getenv n (en_env (sh_env st)) name = Some (Some i)" "holds (en_env (sh_env st)) i (val @ [0])" "0 \<notin> set val"
    using getenv_at [OF assms(1-3)] assms(4) by (auto simp: getenv_def)
  have "cstr (en_env (sh_env st)) i val" using i(2,3) by (rule holds_cstr)
  then show ?thesis using i(1) strlen_cstr cstr_read unfolding getenv_str_def by fastforce
qed

text \<open>With \<open>run\<close> nothing bounds the depth: a variable that runs itself exhausts every stack.\<close>

lemma run_recursion:
  assumes table: "find_cmd (po_table po) (bytes ''run'') = Some cmd_run" "po_bootd po \<noteq> Do_run" "ENV_SIZE bo \<le> po_env_size po"
    and name: "good_name name" "word_ok name" "{QUOTE, DOLLAR, SEMI} \<inter> set name = {}" "length name < 200"
    and var: "map_of vs name = Some (bytes ''run '' @ name)"
  shows "env_holds bo (sh_env st) vs \<Longrightarrow>
    run_command po (exec d po ver ctrlc) (Some (bytes ''run '' @ name)) flg st = None"
proof (induction d arbitrary: st flg)
  case 0
  then show ?case using run_named [OF table name 0, of _ flg] by simp
next
  case (Suc d)
  let ?st = "st\<lparr>sh_ctrlc := False\<rparr>"
  have env: "env_holds bo (sh_env ?st) vs" using Suc.prems by simp
  have "getenv_str (po_env_size po) (en_env (sh_env ?st)) name = Some (Some (bytes ''run '' @ name))"
    using getenv_str_value [OF env name(1) table(3)] var by simp
  moreover have "run_command po (exec d po ver ctrlc) (Some (bytes ''run '' @ name)) flg ?st = None"
    by (rule Suc.IH [OF env])
  ultimately have "exec (Suc d) po ver ctrlc cmd_run flg [bytes ''run'', name] ?st = None"
    by (simp add: cmd_run_def do_run_def)
  then show ?case using run_named [OF table name Suc.prems, of _ flg] by simp
qed

section \<open>Properties\<close>

definition table0 :: "builtin cmd_tbl list" where
  "table0 = [cmd_version, cmd_echo, cmd_printenv, cmd_setenv, cmd_run, cmd_boot, cmd_bootd, cmd_question_mark]"

definition port0 :: "(builtin, unit) port" where
  "port0 = \<lparr>po_board = board0, po_env_size = 64, po_table = table0, po_bootd = Do_bootd, po_before = 0, po_behind = [1, 2]\<rparr>"

definition shell0 :: "unit shell" where
  "shell0 = \<lparr>sh_env = state0, sh_ctrlc = True\<rparr>"

lemma shell0_holds: "env_holds board0 (sh_env shell0) vars0" "ENV_SIZE board0 \<le> po_env_size port0"
  using state0_holds by (simp_all add: shell0_def port0_def board0_def)

text \<open>
  C30. A quoted line is read back: words of any characters but blanks and backslashes, each \<open>'\<close>, \<open>$\<close> and
  \<open>;\<close> in them behind a backslash, reach the command exactly as they are: \<open>run_command\<close> finds no separator
  in the line, expands nothing and calls the command with these arguments; the result is -1 after an
  error, 0 after an interrupt and for commands that are not repeatable, and 1 otherwise.
\<close>

theorem quoted_line_runs:
  assumes "env_holds bo (sh_env st) vs" "ENV_SIZE bo \<le> po_env_size po" "\<forall>w \<in> set ws. word_ok w"
    and "ws \<noteq> []" "length ws \<le> CFG_MAXARGS" "length (value_of (map quote_word ws)) < CFG_CBSIZE"
  shows "run_command po e (Some (value_of (map quote_word ws))) flg st =
    (case run_argv po e ws flg 0 1 (st\<lparr>sh_ctrlc := False\<rparr>) of
       None \<Rightarrow> None
     | Some (Stopped st') \<Rightarrow> Some (0, st')
     | Some (Next flg' rc rep st') \<Rightarrow> Some (if rc \<noteq> 0 then rc else rep, st'))"
  using assms by (rule run_line)

theorem quoted_line_runs_witness:
  "run_command port0 (exec 1 port0 [] (\<lambda>_. False))
     (Some (bytes (''echo it'' @ [CHR 0x5C, CHR 0x27] @ ''s '' @ [CHR 0x5C] @ ''$5'' @ [CHR 0x5C] @ '';''))) 0 shell0 =
   Some (1, \<lparr>sh_env = state0\<lparr>en_out := bytes (''it'' @ [CHR 0x27] @ ''s $5;'' @ nl)\<rparr>, sh_ctrlc = False\<rparr>)"
proof -
  let ?ws = "[bytes ''echo'', bytes (''it'' @ [CHR 0x27] @ ''s''), bytes ''$5;'']"
  have line: "value_of (map quote_word ?ws) =
      bytes (''echo it'' @ [CHR 0x5C, CHR 0x27] @ ''s '' @ [CHR 0x5C] @ ''$5'' @ [CHR 0x5C] @ '';'')"
    by (simp add: value_of_Cons quote_word_def)
  have "find_cmd table0 (bytes ''echo'') = Some cmd_echo"
    by (simp add: find_cmd_def table0_def cmd_version_def cmd_echo_def)
  moreover have "en_out state0 = []" by (simp add: state0_def env_crc_update_def)
  ultimately have "run_argv port0 (exec 1 port0 [] (\<lambda>_. False)) ?ws 0 0 1 (shell0\<lparr>sh_ctrlc := False\<rparr>) =
      Some (Next 0 0 1 \<lparr>sh_env = state0\<lparr>en_out := bytes (''it'' @ [CHR 0x27] @ ''s $5;'' @ nl)\<rparr>, sh_ctrlc = False\<rparr>)"
    by (simp add: run_argv_def port0_def shell0_def cmd_echo_def CFG_MAXARGS_def do_echo_def puts_def sh_print_def)
  moreover have "\<forall>w \<in> set ?ws. word_ok w" by (simp add: word_ok_def)
  ultimately show ?thesis
    using quoted_line_runs [OF shell0_holds, of ?ws "exec 1 port0 [] (\<lambda>_. False)" 0] unfolding line
    by (simp add: CFG_MAXARGS_def CFG_CBSIZE_def)
qed

text \<open>
  C31. Expansion of a line, and where it goes wrong: for lines of plain and escaped characters, quoted text
  and references to variables, the arguments are the words of the line with the references replaced
  by the values; but if this text has 256 bytes or more, only 256 are stored, without a NUL, and the
  words are read on from whatever is behind the buffer.
\<close>

theorem run_token_expands:
  assumes "env_holds bo (sh_env st) vs" "ENV_SIZE bo \<le> po_env_size po" "\<forall>g \<in> set ps. good_piece g"
  shows "run_token po e (line_text ps) flg rc rep st =
    (let v = line_value vs ps;
         (argv, out) = parse_line (if length v < CFG_CBSIZE then v else take CFG_CBSIZE v @ po_behind po) (en_out (sh_env st))
     in run_argv po e argv flg rc rep (sh_print (\<lambda>_. out) st))"
  using process_macros_line [OF assms] unfolding run_token_def Let_def by auto

theorem run_token_expands_witness:
  "run_token port0 (exec 1 port0 [] (\<lambda>_. False)) (bytes (''echo ${ip}x '' @ [CHR 0x5C] @ ''$'' @ [CHR 0x27] @ '';  '' @ [CHR 0x27])) 0 0 1 shell0 =
     run_argv port0 (exec 1 port0 [] (\<lambda>_. False)) [bytes ''echo'', bytes ''10x'', bytes ''$;''] 0 0 1 shell0"
proof -
  let ?ps = "map Plain (bytes ''echo '') @ [Ref (bytes ''ip'')] @ map Plain (bytes ''x '') @
    [Escaped DOLLAR, Quoted (bytes '';  '')]"
  have "line_text ?ps = bytes (''echo ${ip}x '' @ [CHR 0x5C] @ ''$'' @ [CHR 0x27] @ '';  '' @ [CHR 0x27])"
    "line_value vars0 ?ps = bytes ''echo 10x $;  ''"
    by (simp_all add: line_text_def line_value_def vars0_def)
  moreover have "\<forall>g \<in> set ?ps. good_piece g" by (simp add: good_name_def)
  moreover have "parse_line (bytes ''echo 10x $;  '') out = ([bytes ''echo'', bytes ''10x'', bytes ''$;''], out)" for out
  proof -
    have m: "CFG_MAXARGS = Suc (Suc (Suc (Suc 12)))" by (simp add: CFG_MAXARGS_def)
    have a: "parse_args (Suc (Suc (Suc (Suc n)))) (bytes ''echo 10x $;  '') = ([bytes ''echo'', bytes ''10x'', bytes ''$;''], False)" for n
      by (simp add: blank_def)
    show ?thesis unfolding parse_line_def m a by simp
  qed
  ultimately show ?thesis
    using run_token_expands [OF shell0_holds, of ?ps "exec 1 port0 [] (\<lambda>_. False)" 0 0 1] by (simp add: CFG_CBSIZE_def)
qed

definition port1 :: "(builtin, unit) port" where
  "port1 = port0\<lparr>po_table := [cmd_echo, cmd_boot]\<rparr>"

text \<open>A block in which \<open>bootcmd\<close> boots again: the guard stops it in the second level.\<close>

definition vars2 :: "var list" where
  "vars2 = [(bytes ''bootcmd'', bytes ''boot'')]"

definition shell2 :: "unit shell" where
  "shell2 = \<lparr>sh_env = state0\<lparr>en_env := write_bytes (\<lambda>_. 0xFF) 0 (env_bytes vars2)\<rparr>, sh_ctrlc = False\<rparr>"

lemma shell2_holds: "env_holds board0 (sh_env shell2) vars2"
  by (simp add: env_holds_def shell2_def holds_write)
    (simp add: board0_def vars2_def env_bytes_def good_var_def good_name_def)

lemma boot_line:
  assumes "env_holds board0 (sh_env st) vars2"
  shows "run_command port1 ex (Some (bytes ''boot'')) flg st =
    (case run_argv port1 ex [bytes ''boot''] flg 0 1 (st\<lparr>sh_ctrlc := False\<rparr>) of
       None \<Rightarrow> None
     | Some (Stopped st') \<Rightarrow> Some (0, st')
     | Some (Next flg' rc rep st') \<Rightarrow> Some (if rc \<noteq> 0 then rc else rep, st'))"
proof -
  have line: "value_of (map quote_word [bytes ''boot'']) = bytes ''boot''" by (simp add: value_of_Cons quote_word_def)
  have "ENV_SIZE board0 \<le> po_env_size port1" "\<forall>w \<in> set [bytes ''boot'']. word_ok w" "[bytes ''boot''] \<noteq> []"
    "length [bytes ''boot''] \<le> CFG_MAXARGS" "length (value_of (map quote_word [bytes ''boot''])) < CFG_CBSIZE"
    unfolding line by (simp_all add: board0_def port1_def port0_def word_ok_def CFG_MAXARGS_def CFG_CBSIZE_def)
  from run_line [OF assms this] show ?thesis unfolding line .
qed

lemma guard_reached:
  "run_command port1 (exec_with (exec_with ex port1 [] (\<lambda>_. False)) port1 [] (\<lambda>_. False)) (Some (bytes ''boot'')) 0 shell2 =
     Some (-1, sh_print (puts ([CHR 0x27] @ ''bootd'' @ [CHR 0x27] @ '' recursion detected'' @ nl)) shell2)"
proof -
  let ?e1 = "exec_with ex port1 [] (\<lambda>_. False)"
  let ?msg = "[CHR 0x27] @ ''bootd'' @ [CHR 0x27] @ '' recursion detected'' @ nl"
  have find: "find_cmd (po_table port1) (bytes ''boot'') = Some cmd_boot" "po_bootd port1 = Do_bootd"
    by (simp_all add: find_cmd_def port1_def port0_def cmd_echo_def cmd_boot_def)
  have clear: "shell2\<lparr>sh_ctrlc := False\<rparr> = shell2" by (simp add: shell2_def)
  have "CMD_FLAG_BOOTD AND CMD_FLAG_BOOTD \<noteq> 0" by (simp add: CMD_FLAG_BOOTD_def)
  then have "run_argv port1 ?e1 [bytes ''boot''] CMD_FLAG_BOOTD 0 1 shell2 =
      Some (Next CMD_FLAG_BOOTD (-1) 1 (sh_print (puts ?msg) shell2))"
    using find by (simp add: run_argv_def cmd_boot_def)
  then have inner: "run_command port1 ?e1 (Some (bytes ''boot'')) CMD_FLAG_BOOTD shell2 =
      Some (-1, sh_print (puts ?msg) shell2)"
    unfolding boot_line [OF shell2_holds] clear by simp
  have "getenv_str (po_env_size port1) (en_env (sh_env shell2)) (bytes ''bootcmd'') = Some (Some (bytes ''boot''))"
    using getenv_str_value [OF shell2_holds, of "bytes ''bootcmd''" _ "bytes ''boot''"]
    by (simp add: good_name_def board0_def port1_def port0_def vars2_def)
  then have "exec_with ?e1 port1 [] (\<lambda>_. False) cmd_boot CMD_FLAG_BOOTD [bytes ''boot''] shell2 =
      Some (1, sh_print (puts ?msg) shell2)"
    using inner by (simp add: cmd_boot_def do_bootd_def exec_with_def [of ?e1] del: exec_with_def)
  moreover have "\<not> sh_ctrlc (sh_print (puts ?msg) shell2)" by (simp add: sh_print_def shell2_def)
  ultimately have "run_argv port1 (exec_with ?e1 port1 [] (\<lambda>_. False)) [bytes ''boot''] 0 0 1 shell2 =
      Some (Next CMD_FLAG_BOOTD (-1) 1 (sh_print (puts ?msg) shell2))"
    using find by (simp add: run_argv_def cmd_boot_def)
  then show ?thesis unfolding boot_line [OF shell2_holds] clear by simp
qed


end
