(* ===== verification/Lists.thy ===== *)
theory Lists imports CMem CString "HOL-Library.Monad_Syntax" "HOL-Library.Signed_Division" begin

text \<open>
  The resizable lists of \<open>common/lists.c\<close> (declared in \<open>include/lists.h\<close>), which hold the console
  devices: a list is a handle, a record with a pointer to a block of memory and its size; the block
  holds a header and then the items, all of the same size, one after the other. Theory \<open>Devices\<close> is
  the client.

  The state is an arena: the lists by the address of their handle, and the addresses that \<open>malloc\<close>
  and \<open>realloc\<close> return from now on (0 is the failure). The fields of the header are fields of
  the record \<open>ListStruct\<close>, the rest of the block is the list of its bytes, which is as long as
  the block: 4 bytes more than the items have room for, for \<open>itemList[1]\<close> and its padding are counted by
  \<open>sizeof\<close>. \<open>None\<close> is undefined behaviour: an access outside the block, a NULL list,
  an \<open>int\<close> that overflows.

  The locale \<open>item_list\<close> states what a client relies on: a sequence of items with insertion that may fail
  for want of memory and then changes nothing. The lists are shown to implement it.
\<close>

section \<open>Handles\<close>

text \<open>\<open>ls_ptr\<close> and \<open>ls_size\<close> are the fields of \<open>HandleRecord\<close>, the others are those of the block.\<close>

record ListStruct =
  ls_ptr :: nat
  ls_size :: u32
  signature :: int
  percentIncrease :: int
  minNumItemsIncrease :: int
  listSize :: int
  itemSize :: int
  numItems :: int
  itemList :: "byte list"

record arena =
  ar_lists :: "nat \<Rightarrow> ListStruct option"
  ar_mallocs :: "nat list"

definition put_list :: "nat \<Rightarrow> ListStruct \<Rightarrow> arena \<Rightarrow> arena" where
  "put_list h l a = a\<lparr>ar_lists := (ar_lists a)(h := Some l)\<rparr>"

definition malloc_next :: "arena \<Rightarrow> nat \<times> arena" where
  "malloc_next a = (case ar_mallocs a of [] \<Rightarrow> (NULL, a) | p # ps \<Rightarrow> (p, a\<lparr>ar_mallocs := ps\<rparr>))"

definition LIST_START :: int where "LIST_START = -1"
definition LIST_END :: int where "LIST_END = 0"

text \<open>\<open>sizeof (ListStruct)\<close> and the offset of \<open>itemList\<close> in it.\<close>

definition sizeof_ListStruct :: int where "sizeof_ListStruct = 28"
definition itemList_offset :: nat where "itemList_offset = 24"

text \<open>A new handle and its block; the code's \<open>calloc\<close> is \<open>malloc\<close>, the memory is not cleared.\<close>

definition NewHandle :: "u32 \<Rightarrow> arena \<Rightarrow> (nat \<times> nat) \<times> arena" where
  "NewHandle numBytes a =
     (let (memPtr, a) = malloc_next a;
          (hanPtr, a) = malloc_next a
      in if hanPtr \<noteq> NULL \<and> (memPtr \<noteq> NULL \<or> numBytes = 0) then ((hanPtr, memPtr), a)
         else ((NULL, NULL), a))"

definition DisposeHandle :: "nat \<Rightarrow> arena \<Rightarrow> arena" where
  "DisposeHandle h a = (if h \<noteq> NULL then a\<lparr>ar_lists := (ar_lists a)(h := None)\<rparr> else a)"

definition GetHandleSize :: "nat \<Rightarrow> arena \<Rightarrow> u32 option" where
  "GetHandleSize h a = map_option ls_size (ar_lists a h)"

text \<open>
  \<open>realloc\<close> keeps what fits, and the code clears what is new. A block that is too short for the
  header leaves its fields undefined.
\<close>

definition resize :: "nat \<Rightarrow> byte list \<Rightarrow> byte list" where
  "resize n xs = take n xs @ replicate (n - length xs) 0"

definition SetHandleSize :: "nat \<Rightarrow> u32 \<Rightarrow> arena \<Rightarrow> (int \<times> arena) option" where
  "SetHandleSize h newSize a = do {
     l \<leftarrow> ar_lists a h;
     if ls_size l = newSize then Some (1, a)
     else let (newPtr, a) = malloc_next a in
       if newPtr \<noteq> NULL \<or> newSize = 0 then
         if unat newSize < itemList_offset then None
         else Some (1, put_list h (l\<lparr>ls_ptr := newPtr, ls_size := newSize,
                                     itemList := resize (unat newSize - itemList_offset) (itemList l)\<rparr>) a)
       else Some (0, a) }"

section \<open>Blocks of items\<close>

definition c_int :: "int \<Rightarrow> int option" where
  "c_int i = (if - (2 ^ 31) \<le> i \<and> i < 2 ^ 31 then Some i else None)"

text \<open>\<open>ITEMPTR\<close> as an offset into \<open>itemList\<close>, and reads and writes there.\<close>

definition ITEMPTR :: "ListStruct \<Rightarrow> int \<Rightarrow> int" where
  "ITEMPTR l i = itemSize l * i"

definition get_block :: "ListStruct \<Rightarrow> int \<Rightarrow> int \<Rightarrow> byte list option" where
  "get_block l off n =
     (if n = 0 then Some []
      else if 0 \<le> off \<and> 0 < n \<and> off + n \<le> int (length (itemList l))
      then Some (take (nat n) (drop (nat off) (itemList l))) else None)"

definition put_block :: "ListStruct \<Rightarrow> int \<Rightarrow> byte list \<Rightarrow> ListStruct option" where
  "put_block l off xs =
     (if xs = [] then Some l
      else if 0 \<le> off \<and> off + int (length xs) \<le> int (length (itemList l))
      then Some (l\<lparr>itemList := take (nat off) (itemList l) @ xs @ drop (nat off + length xs) (itemList l)\<rparr>)
      else None)"

text \<open>The first \<open>n\<close> bytes of an object outside the lists.\<close>

definition src_bytes :: "byte list \<Rightarrow> int \<Rightarrow> byte list option" where
  "src_bytes xs n = (if 0 \<le> n \<and> n \<le> int (length xs) then Some (take (nat n) xs) else None)"

text \<open>What is stored for \<open>ptrToItems\<close>: the items it points to, zeros where it is NULL.\<close>

definition new_items :: "ListStruct \<Rightarrow> byte list option \<Rightarrow> int \<Rightarrow> byte list option" where
  "new_items l src n =
     (case src of Some xs \<Rightarrow> src_bytes xs (itemSize l * n)
      | None \<Rightarrow> if 0 \<le> itemSize l * n then Some (replicate (nat (itemSize l * n)) 0) else None)"

section \<open>Growing and creating lists\<close>

definition NUMITEMSPERALLOC :: "ListStruct \<Rightarrow> int option" where
  "NUMITEMSPERALLOC l = do {
     n \<leftarrow> c_int (listSize l * (percentIncrease l + 100));
     Some (max (n sdiv 100) (minNumItemsIncrease l)) }"

definition ExpandListSpace :: "nat \<Rightarrow> int \<Rightarrow> arena \<Rightarrow> (int \<times> arena) option" where
  "ExpandListSpace h numNewItems a = do {
     l \<leftarrow> ar_lists a h;
     n \<leftarrow> (if numNewItems = 0 then NUMITEMSPERALLOC l
          else if numNewItems < 0 then map_option (\<lambda>k. - numNewItems + k) (NUMITEMSPERALLOC l)
          else Some numNewItems);
     bytes \<leftarrow> c_int ((listSize l + n) * itemSize l);
     (r, a) \<leftarrow> SetHandleSize h (of_int (sizeof_ListStruct + bytes)) a;
     if r \<noteq> 0 then do {
       l \<leftarrow> ar_lists a h;
       Some (1, put_list h (l\<lparr>listSize := listSize l + n\<rparr>) a) }
     else Some (0, a) }"

definition ListCompact :: "nat \<Rightarrow> arena \<Rightarrow> arena option" where
  "ListCompact h a = do {
     l \<leftarrow> ar_lists a h;
     bytes \<leftarrow> c_int (numItems l * itemSize l);
     (r, a) \<leftarrow> SetHandleSize h (of_int (sizeof_ListStruct + bytes)) a;
     if r = 0 then Some a
     else do { l \<leftarrow> ar_lists a h; Some (put_list h (l\<lparr>listSize := numItems l\<rparr>) a) } }"

text \<open>\<open>junk\<close> is what the new memory holds behind the header, \<open>0x4C495354\<close> the bytes of \<open>LIST\<close>.\<close>

definition ListCreate :: "byte list \<Rightarrow> int \<Rightarrow> arena \<Rightarrow> nat \<times> arena" where
  "ListCreate junk elementSize a =
     (let ((h, p), a) = NewHandle (of_int sizeof_ListStruct) a in
      if h \<noteq> NULL then
        (h, put_list h \<lparr>ls_ptr = p, ls_size = of_int sizeof_ListStruct, signature = 0x4C495354,
             percentIncrease = 10, minNumItemsIncrease = 4, listSize = 0, itemSize = elementSize, numItems = 0,
             itemList = resize (nat sizeof_ListStruct - itemList_offset) junk\<rparr> a)
      else (NULL, a))"

definition ListSetAllocationPolicy :: "nat \<Rightarrow> int \<Rightarrow> int \<Rightarrow> arena \<Rightarrow> arena option" where
  "ListSetAllocationPolicy h minItemsPerAlloc percentIncreasePerAlloc a =
     map_option (\<lambda>l. put_list h (l\<lparr>percentIncrease := percentIncreasePerAlloc,
                                   minNumItemsIncrease := minItemsPerAlloc\<rparr>) a) (ar_lists a h)"

definition ListDispose :: "nat \<Rightarrow> arena \<Rightarrow> arena" where
  "ListDispose h a = DisposeHandle h a"

definition ListNumItems :: "nat \<Rightarrow> arena \<Rightarrow> int option" where
  "ListNumItems h a = map_option numItems (ar_lists a h)"

definition ListGetItemSize :: "nat \<Rightarrow> arena \<Rightarrow> int option" where
  "ListGetItemSize h a = map_option itemSize (ar_lists a h)"

text \<open>Pointers into the block: addresses, from the block's address on.\<close>

definition ListGetDataPtr :: "nat \<Rightarrow> arena \<Rightarrow> int option" where
  "ListGetDataPtr h a = map_option (\<lambda>l. int (ls_ptr l + itemList_offset)) (ar_lists a h)"

definition ListGetPtrToItem :: "nat \<Rightarrow> int \<Rightarrow> arena \<Rightarrow> int option" where
  "ListGetPtrToItem h itemPosition a = do {
     l \<leftarrow> ar_lists a h;
     let pos = (if itemPosition = LIST_START then 1 else if itemPosition = LIST_END then numItems l else itemPosition)
     in Some (int (ls_ptr l + itemList_offset) + ITEMPTR l (pos - 1)) }"

text \<open>The bytes of the item at a position, as the code reads them through that pointer.\<close>

definition item_at :: "nat \<Rightarrow> int \<Rightarrow> arena \<Rightarrow> byte list option" where
  "item_at h pos a = do { l \<leftarrow> ar_lists a h; get_block l (ITEMPTR l (pos - 1)) (itemSize l) }"

section \<open>Operations on one list\<close>

definition ListClear :: "nat \<Rightarrow> arena \<Rightarrow> arena option" where
  "ListClear h a =
     (if h = NULL then Some a else map_option (\<lambda>l. put_list h (l\<lparr>numItems := 0\<rparr>) a) (ar_lists a h))"

definition ListInsertItems :: "nat \<Rightarrow> byte list option \<Rightarrow> int \<Rightarrow> int \<Rightarrow> arena \<Rightarrow> (int \<times> arena) option" where
  "ListInsertItems h src firstItemPosition numItemsToInsert a = do {
     l \<leftarrow> ar_lists a h;
     let n = numItems l; pos = (if firstItemPosition = n + 1 then LIST_END else firstItemPosition) in
     if pos \<noteq> LIST_END \<and> pos > n then Some (0, a)
     else do {
       (r, a) \<leftarrow> (if numItems l \<ge> listSize l then ExpandListSpace h (- numItemsToInsert) a else Some (1, a));
       if r = 0 then Some (0, a)
       else do {
         l \<leftarrow> ar_lists a h;
         let pos = (if pos = LIST_START then if n = 0 then LIST_END else 1 else pos) in
         if pos = LIST_END then do {
           xs \<leftarrow> new_items l src numItemsToInsert;
           l \<leftarrow> put_block l (ITEMPTR l n) xs;
           Some (1, put_list h (l\<lparr>numItems := numItems l + numItemsToInsert\<rparr>) a) }
         else do {
           ys \<leftarrow> get_block l (ITEMPTR l (pos - 1)) ((n + 1 - pos) * itemSize l);
           l \<leftarrow> put_block l (ITEMPTR l (pos - 1 + numItemsToInsert)) ys;
           xs \<leftarrow> new_items l src numItemsToInsert;
           l \<leftarrow> put_block l (ITEMPTR l (pos - 1)) xs;
           Some (1, put_list h (l\<lparr>numItems := numItems l + numItemsToInsert\<rparr>) a) } } } }"

definition ListInsertItem :: "nat \<Rightarrow> byte list option \<Rightarrow> int \<Rightarrow> arena \<Rightarrow> (int \<times> arena) option" where
  "ListInsertItem h src itemPosition a = ListInsertItems h src itemPosition 1 a"

definition ListReplaceItems :: "nat \<Rightarrow> byte list \<Rightarrow> int \<Rightarrow> int \<Rightarrow> arena \<Rightarrow> arena option" where
  "ListReplaceItems h src firstItemPosition numItemsToReplace a = do {
     l \<leftarrow> ar_lists a h;
     let pos = (if firstItemPosition = LIST_END then numItems l
                else if firstItemPosition = LIST_START then 1 else firstItemPosition);
     xs \<leftarrow> src_bytes src (itemSize l * numItemsToReplace);
     l \<leftarrow> put_block l (ITEMPTR l (pos - 1)) xs;
     Some (put_list h l a) }"

definition ListReplaceItem :: "nat \<Rightarrow> byte list \<Rightarrow> int \<Rightarrow> arena \<Rightarrow> arena option" where
  "ListReplaceItem h src itemPosition a = ListReplaceItems h src itemPosition 1 a"

text \<open>The bytes stored at \<open>itemsDestination\<close>.\<close>

definition ListGetItems :: "nat \<Rightarrow> int \<Rightarrow> int \<Rightarrow> arena \<Rightarrow> byte list option" where
  "ListGetItems h firstItemPosition numItemsToGet a = do {
     l \<leftarrow> ar_lists a h;
     let pos = (if firstItemPosition = LIST_START then 1
                else if firstItemPosition = LIST_END then numItems l else firstItemPosition);
     get_block l (ITEMPTR l (pos - 1)) (itemSize l * numItemsToGet) }"

definition ListGetItem :: "nat \<Rightarrow> int \<Rightarrow> arena \<Rightarrow> byte list option" where
  "ListGetItem h itemPosition a = ListGetItems h itemPosition 1 a"

text \<open>\<open>dest\<close>: whether \<open>itemsDestination\<close> is not NULL; the result has the bytes stored there.\<close>

definition ListRemoveItems :: "nat \<Rightarrow> bool \<Rightarrow> int \<Rightarrow> int \<Rightarrow> arena \<Rightarrow> (byte list \<times> arena) option" where
  "ListRemoveItems h dest firstItemPosition numItemsToRemove a = do {
     l \<leftarrow> ar_lists a h;
     let pos = (if firstItemPosition = LIST_START then 1
                else if firstItemPosition = LIST_END then numItems l else firstItemPosition);
     out \<leftarrow> (if dest then get_block l (ITEMPTR l (pos - 1)) (itemSize l * numItemsToRemove) else Some []);
     let firstItemAfterChunk = pos + numItemsToRemove;
     let numToMove = numItems l - (firstItemAfterChunk - 1);
     l \<leftarrow> (if numToMove > 0 then do {
              ys \<leftarrow> get_block l (ITEMPTR l (firstItemAfterChunk - 1)) (itemSize l * numToMove);
              put_block l (ITEMPTR l (pos - 1)) ys }
            else Some l);
     Some (out, put_list h (l\<lparr>numItems := numItems l - numItemsToRemove\<rparr>) a) }"

definition ListRemoveItem :: "nat \<Rightarrow> bool \<Rightarrow> int \<Rightarrow> arena \<Rightarrow> (byte list \<times> arena) option" where
  "ListRemoveItem h dest itemPosition a = ListRemoveItems h dest itemPosition 1 a"

definition ListPreAllocate :: "nat \<Rightarrow> int \<Rightarrow> arena \<Rightarrow> (int \<times> arena) option" where
  "ListPreAllocate h n a = do {
     l \<leftarrow> ar_lists a h;
     if listSize l - numItems l < n then ExpandListSpace h (n - (listSize l - numItems l)) a
     else Some (1, a) }"

section \<open>Operations on two lists\<close>

definition ListCopy :: "byte list \<Rightarrow> nat \<Rightarrow> arena \<Rightarrow> (nat \<times> arena) option" where
  "ListCopy junk originalList a =
     (if originalList = NULL then Some (NULL, a)
      else do {
        orig \<leftarrow> ar_lists a originalList;
        let (temp, a) = ListCreate junk (itemSize orig) a in
        if temp = NULL then Some (NULL, a)
        else do {
          bytes \<leftarrow> c_int (numItems orig * itemSize orig);
          (r, a) \<leftarrow> SetHandleSize temp (of_int (sizeof_ListStruct + bytes)) a;
          if r = 0 then Some (NULL, ListDispose temp a)
          else do {
            t \<leftarrow> ar_lists a temp;
            let t = t\<lparr>percentIncrease := percentIncrease orig, minNumItemsIncrease := minNumItemsIncrease orig,
                      listSize := numItems orig, itemSize := itemSize orig, numItems := numItems orig\<rparr>;
            xs \<leftarrow> get_block orig (ITEMPTR orig 0) (numItems orig * itemSize t);
            t \<leftarrow> put_block t (ITEMPTR t 0) xs;
            Some (temp, put_list temp t a) } } })"

definition ListAppend :: "nat \<Rightarrow> nat \<Rightarrow> arena \<Rightarrow> (int \<times> arena) option" where
  "ListAppend list1 list2 a =
     (if list2 = NULL then Some (1, a)
      else if list1 = NULL then Some (0, a)
      else do {
        l1 \<leftarrow> ar_lists a list1;
        l2 \<leftarrow> ar_lists a list2;
        if itemSize l1 \<noteq> itemSize l2 then Some (0, a)
        else let n1 = numItems l1; n2 = numItems l2 in
          if n2 = 0 then Some (1, a)
          else do {
            bytes \<leftarrow> c_int ((n1 + n2) * itemSize l1);
            (r, a) \<leftarrow> SetHandleSize list1 (of_int (sizeof_ListStruct + bytes)) a;
            if r = 0 then Some (0, a)
            else do {
              l1 \<leftarrow> ar_lists a list1;
              let a = put_list list1 (l1\<lparr>listSize := n1 + n2, numItems := n1 + n2\<rparr>) a;
              l2 \<leftarrow> ar_lists a list2;
              xs \<leftarrow> get_block l2 (ITEMPTR l2 0) (n2 * itemSize l2);
              l1 \<leftarrow> ar_lists a list1;
              l1 \<leftarrow> put_block l1 (ITEMPTR l1 n1) xs;
              Some (1, put_list list1 l1 a) } } })"

text \<open>\<open>list1\<close>'s item size is compared with itself, as in the code.\<close>

fun block_cmp :: "byte list \<Rightarrow> byte list \<Rightarrow> int" where
  "block_cmp (x # xs) (y # ys) =
     (let res = int (unat x) - int (unat y) in if res \<noteq> 0 then res else block_cmp xs ys)"
| "block_cmp xs ys = 0"

definition ListEqual :: "nat \<Rightarrow> nat \<Rightarrow> arena \<Rightarrow> int option" where
  "ListEqual list1 list2 a =
     (if list1 = list2 then Some 1
      else if list1 = NULL \<or> list2 = NULL then Some 0
      else do {
        l1 \<leftarrow> ar_lists a list1;
        l2 \<leftarrow> ar_lists a list2;
        if itemSize l1 = itemSize l1 \<and> numItems l1 = numItems l2 then do {
          xs \<leftarrow> get_block l1 (ITEMPTR l1 0) (itemSize l1 * numItems l1);
          ys \<leftarrow> get_block l2 (ITEMPTR l2 0) (itemSize l1 * numItems l1);
          Some (if block_cmp xs ys = 0 then 1 else 0) }
        else Some 0 })"

section \<open>Comparing and searching\<close>

type_synonym compare_fun = "(byte list \<Rightarrow> byte list \<Rightarrow> int) option"

definition ListMemBlockCmp :: "byte list \<Rightarrow> byte list \<Rightarrow> int \<Rightarrow> int" where
  "ListMemBlockCmp a b n = block_cmp (take (nat n) a) (take (nat n) b)"

definition item_cmp :: "compare_fun \<Rightarrow> int \<Rightarrow> byte list \<Rightarrow> byte list \<Rightarrow> int" where
  "item_cmp compareFunction n x y =
     (case compareFunction of Some f \<Rightarrow> f x y | None \<Rightarrow> ListMemBlockCmp x y n)"

definition word_of_bytes :: "byte list \<Rightarrow> 'a::len word" where
  "word_of_bytes xs = foldl (\<lambda>w b. push_bit 8 w OR ucast b) 0 xs"

definition ShortCompare :: "byte list \<Rightarrow> byte list \<Rightarrow> int" where
  "ShortCompare a b =
     (let x = sint (word_of_bytes (take 2 a) :: u16); y = sint (word_of_bytes (take 2 b) :: u16)
      in if x < y then -1 else if x > y then 1 else 0)"

definition IntCompare :: "byte list \<Rightarrow> byte list \<Rightarrow> int" where
  "IntCompare a b =
     (let x = sint (word_of_bytes (take 4 a) :: u32); y = sint (word_of_bytes (take 4 b) :: u32)
      in if x < y then -1 else if x > y then 1 else 0)"

definition CStringCompare :: "mem \<Rightarrow> byte list \<Rightarrow> byte list \<Rightarrow> int option" where
  "CStringCompare m a b =
     strcmp m (unat (word_of_bytes (take 4 a) :: u32)) (unat (word_of_bytes (take 4 b) :: u32))"

text \<open>The array holds \<open>numElements\<close> elements of \<open>elementSize\<close> bytes.\<close>

definition element :: "byte list \<Rightarrow> int \<Rightarrow> int \<Rightarrow> byte list" where
  "element arr es i = take (nat es) (drop (nat (i * es)) arr)"

function bin_loop :: "(int \<Rightarrow> int) \<Rightarrow> int \<Rightarrow> int \<Rightarrow> int \<Rightarrow> int \<Rightarrow> int" where
  "bin_loop f low high mid cmp =
     (if low \<le> high then
        let mid = (low + high) div 2; cmp = f mid in
        if cmp = 0 then mid
        else if cmp < 0 then bin_loop f low (mid - 1) mid cmp
        else bin_loop f (mid + 1) high mid cmp
      else let mid = (if cmp > 0 then mid + 1 else mid) in - mid - 1)"
  by pat_completeness auto
termination
  by (relation "measure (\<lambda>(f, low, high, mid, cmp). nat (high - low + 1))") auto

declare bin_loop.simps [simp del]

definition BinSearch :: "byte list \<Rightarrow> int \<Rightarrow> int \<Rightarrow> byte list \<Rightarrow> compare_fun \<Rightarrow> int" where
  "BinSearch arr numElements elementSize it compareFunction =
     bin_loop (\<lambda>mid. item_cmp compareFunction elementSize it (element arr elementSize mid))
       0 (numElements - 1) 0 (-1)"

definition ListBinSearch :: "nat \<Rightarrow> byte list \<Rightarrow> compare_fun \<Rightarrow> arena \<Rightarrow> int option" where
  "ListBinSearch h it compareFunction a = do {
     l \<leftarrow> ar_lists a h;
     let index = BinSearch (itemList l) (numItems l) (itemSize l) it compareFunction;
     Some (if index \<ge> 0 then index + 1 else 0) }"

function find_item_loop :: "nat \<Rightarrow> compare_fun \<Rightarrow> ListStruct \<Rightarrow> byte list \<Rightarrow> int \<Rightarrow> int \<Rightarrow> int option" where
  "find_item_loop h compareFunction l it index n =
     (if index \<le> n then do {
        x \<leftarrow> get_block l (ITEMPTR l (index - 1)) (itemSize l);
        if item_cmp compareFunction (itemSize l) it x = 0 then Some index
        else find_item_loop h compareFunction l it (index + 1) n }
      else Some 0)"
  by pat_completeness auto
termination
  by (relation "measure (\<lambda>(h, c, l, it, index, n). nat (n - index + 1))") auto

declare find_item_loop.simps [simp del]

definition ListFindItem :: "nat \<Rightarrow> byte list \<Rightarrow> int \<Rightarrow> compare_fun \<Rightarrow> arena \<Rightarrow> int option" where
  "ListFindItem h it startingPosition compareFunction a = do {
     l \<leftarrow> ar_lists a h;
     if numItems l = 0 then Some 0
     else let start = (if startingPosition = LIST_START then 1
                       else if startingPosition = LIST_END then numItems l else startingPosition)
       in find_item_loop h compareFunction l it start (numItems l) }"

partial_function (option) dup_inner ::
    "nat \<Rightarrow> compare_fun \<Rightarrow> int \<Rightarrow> int \<Rightarrow> int \<Rightarrow> arena \<Rightarrow> (int \<times> arena) option" where
  "dup_inner h compareFunction index start n a =
     (if start \<le> n then do {
        it \<leftarrow> item_at h index a;
        dup \<leftarrow> ListFindItem h it start compareFunction a;
        if dup > 0 then do {
          (out, a) \<leftarrow> ListRemoveItem h False dup a;
          dup_inner h compareFunction index dup (n - 1) a }
        else Some (n, a) }
      else Some (n, a))"

partial_function (option) dup_outer :: "nat \<Rightarrow> compare_fun \<Rightarrow> int \<Rightarrow> int \<Rightarrow> arena \<Rightarrow> arena option" where
  "dup_outer h compareFunction index n a =
     (if index < n then do {
        (n, a) \<leftarrow> dup_inner h compareFunction index (index + 1) n a;
        dup_outer h compareFunction (index + 1) n a }
      else Some a)"

definition ListRemoveDuplicates :: "nat \<Rightarrow> compare_fun \<Rightarrow> arena \<Rightarrow> arena option" where
  "ListRemoveDuplicates h compareFunction a = do {
     n \<leftarrow> ListNumItems h a;
     dup_outer h compareFunction 1 n a }"

section \<open>Traversals\<close>

text \<open>
  The called function gets the position, the pointer to the item and the state of the client, and may
  change the lists.
\<close>

type_synonym 's apply_fun = "int \<Rightarrow> int \<Rightarrow> arena \<times> 's \<Rightarrow> (int \<times> arena \<times> 's) option"

partial_function (option) apply_up :: "nat \<Rightarrow> 's apply_fun \<Rightarrow> int \<Rightarrow> int \<Rightarrow> arena \<times> 's \<Rightarrow> (int \<times> arena \<times> 's) option" where
  "apply_up h f index result s = do {
     n \<leftarrow> ListNumItems h (fst s);
     if index \<le> n then do {
       p \<leftarrow> ListGetPtrToItem h index (fst s);
       (result, s) \<leftarrow> f index p s;
       if result < 0 then Some (result, s) else apply_up h f (index + 1) result s }
     else Some (result, s) }"

partial_function (option) apply_down :: "nat \<Rightarrow> 's apply_fun \<Rightarrow> int \<Rightarrow> int \<Rightarrow> arena \<times> 's \<Rightarrow> (int \<times> arena \<times> 's) option" where
  "apply_down h f index result s = do {
     n \<leftarrow> ListNumItems h (fst s);
     if index > 0 \<and> index \<le> n then do {
       p \<leftarrow> ListGetPtrToItem h index (fst s);
       (result, s) \<leftarrow> f index p s;
       if result < 0 then Some (result, s) else apply_down h f (index - 1) result s }
     else Some (result, s) }"

definition ListApplyToEach :: "nat \<Rightarrow> bool \<Rightarrow> 's apply_fun option \<Rightarrow> arena \<times> 's \<Rightarrow> (int \<times> arena \<times> 's) option" where
  "ListApplyToEach h ascending funcToApply s =
     (case funcToApply of
        None \<Rightarrow> Some (0, s)
      | Some f \<Rightarrow>
          if h = NULL then Some (0, s)
          else if ascending then apply_up h f 1 0 s
          else do { n \<leftarrow> ListNumItems h (fst s); apply_down h f n 0 s })"

text \<open>The pointers given to \<open>free\<close>, and the arena without the list.\<close>

fun free_items :: "ListStruct \<Rightarrow> int list \<Rightarrow> u32 list option" where
  "free_items l [] = Some []"
| "free_items l (i # is) = do {
     x \<leftarrow> get_block l (ITEMPTR l (i - 1)) 4;
     ps \<leftarrow> free_items l is;
     Some (word_of_bytes x # ps) }"

definition ListDisposePtrList :: "nat \<Rightarrow> arena \<Rightarrow> (u32 list \<times> arena) option" where
  "ListDisposePtrList h a =
     (if h = NULL then Some ([], a)
      else do {
        l \<leftarrow> ar_lists a h;
        ps \<leftarrow> free_items l [1..numItems l];
        Some (ps, ListDispose h a) })"

section \<open>What a list holds\<close>

definition items :: "ListStruct \<Rightarrow> byte list list" where
  "items l = map (\<lambda>i. element (itemList l) (itemSize l) (int i)) [0..<nat (numItems l)]"

text \<open>\<open>l\<close> stores the items \<open>xs\<close>, and \<open>rest\<close> follows them in the block.\<close>

definition stores :: "ListStruct \<Rightarrow> byte list list \<Rightarrow> byte list \<Rightarrow> bool" where
  "stores l xs rest \<longleftrightarrow> itemList l = concat xs @ rest \<and> (\<forall>x \<in> set xs. int (length x) = itemSize l) \<and>
     numItems l = int (length xs)"

text \<open>
  The invariant of a list that holds at most \<open>M\<close> items and has the default allocation policy. The last
  part says that no size overflows.
\<close>

definition list_ok :: "nat \<Rightarrow> ListStruct \<Rightarrow> bool" where
  "list_ok M l \<longleftrightarrow> percentIncrease l = 10 \<and> minNumItemsIncrease l = 4 \<and> 0 < itemSize l \<and>
     0 \<le> numItems l \<and> numItems l \<le> listSize l \<and> numItems l \<le> int M \<and> listSize l \<le> 3 * int M + 5 \<and>
     int (length (itemList l)) = listSize l * itemSize l + 4 \<and>
     ls_size l = of_nat (itemList_offset + length (itemList l)) \<and>
     (3 * int M + 5) * (itemSize l + 110) + 28 < 2 ^ 31"

lemma length_concat_const: "\<forall>x \<in> set xs. length x = n \<Longrightarrow> length (concat xs) = length xs * n"
  by (induction xs) auto

lemma concat_element:
  "\<forall>x \<in> set xs. length x = n \<Longrightarrow> i < length xs \<Longrightarrow> take n (drop (i * n) (concat xs @ rest)) = xs ! i"
proof (induction xs arbitrary: i)
  case (Cons x xs)
  then show ?case by (cases i) auto
qed simp

lemma stores_size:
  assumes "stores l xs rest" and "x \<in> set xs"
  shows "0 \<le> itemSize l" "length x = nat (itemSize l)"
proof -
  have "itemSize l = int (length x)" using assms by (simp add: stores_def)
  then show "0 \<le> itemSize l" "length x = nat (itemSize l)" by simp_all
qed

lemma stores_length:
  assumes "stores l xs rest"
  shows "int (length (concat xs)) = numItems l * itemSize l"
proof (cases xs)
  case Nil
  then show ?thesis using assms by (simp add: stores_def)
next
  case (Cons x ys)
  have "length (concat xs) = length xs * nat (itemSize l)"
    using stores_size(2) [OF assms] by (intro length_concat_const) simp
  then show ?thesis using assms stores_size(1) [OF assms, of x] Cons by (simp add: stores_def algebra_simps)
qed

lemma items_stores:
  assumes "stores l xs rest"
  shows "items l = xs"
proof (rule nth_equalityI)
  show "length (items l) = length xs" using assms by (simp add: items_def stores_def)
  fix i assume "i < length (items l)"
  then have i: "i < length xs" "i < nat (numItems l)" using assms by (simp_all add: items_def stores_def)
  have sz: "\<forall>x \<in> set xs. length x = nat (itemSize l)" using stores_size(2) [OF assms] by simp
  have "itemSize l \<ge> 0" using stores_size(1) [OF assms nth_mem [OF i(1)]] .
  then have "nat (int i * itemSize l) = i * nat (itemSize l)" by (simp add: nat_mult_distrib)
  then show "items l ! i = xs ! i"
    using assms concat_element [OF sz i(1)] i by (simp add: items_def stores_def element_def)
qed

lemma element_cut:
  "concat (map (\<lambda>i. take n (drop (i * n) xs)) [0..<k]) = take (k * n) xs"
proof (induction k)
  case (Suc k)
  have "take (k * n) xs @ take n (drop (k * n) xs) = take (Suc k * n) xs"
    by (simp add: take_add [symmetric] add.commute)
  then show ?case using Suc by simp
qed simp

lemma items_nth: "list_ok M l \<Longrightarrow> items l = map (\<lambda>i. take (nat (itemSize l)) (drop (i * nat (itemSize l)) (itemList l))) [0..<nat (numItems l)]"
  by (auto simp: items_def element_def nat_mult_distrib list_ok_def)

lemma stores_items:
  assumes ok: "list_ok M l"
  obtains rest where "stores l (items l) rest" "int (length rest) = (listSize l - numItems l) * itemSize l + 4"
proof -
  let ?n = "nat (numItems l)" and ?s = "nat (itemSize l)"
  have le: "?n * ?s + 4 \<le> length (itemList l)"
  proof -
    have "numItems l * itemSize l \<le> listSize l * itemSize l"
      using ok by (intro mult_right_mono) (auto simp: list_ok_def)
    then have "int (?n * ?s + 4) \<le> int (length (itemList l))" using ok by (simp add: list_ok_def)
    then show ?thesis by linarith
  qed
  have c: "concat (items l) = take (?n * ?s) (itemList l)"
    unfolding items_nth [OF ok] by (rule element_cut)
  have "length x = ?s" if mem: "x \<in> set (items l)" for x
  proof -
    obtain i where i: "i < ?n" "x = take ?s (drop (i * ?s) (itemList l))"
      using mem unfolding items_nth [OF ok] by auto
    have "Suc i * ?s \<le> ?n * ?s" using i(1) by (intro mult_le_mono1) simp
    then have "?s \<le> length (drop (i * ?s) (itemList l))" using le by simp
    then show ?thesis unfolding i(2) by (simp only: length_take min_absorb2)
  qed
  then have st: "stores l (items l) (drop (?n * ?s) (itemList l))"
    using ok c by (auto simp: stores_def list_ok_def items_def)
  have "int (length (drop (?n * ?s) (itemList l))) = (listSize l - numItems l) * itemSize l + 4"
    using le ok by (simp add: list_ok_def of_nat_diff left_diff_distrib)
  then show ?thesis using st that by blast
qed

lemma length_items: "list_ok M l \<Longrightarrow> int (length (items l)) = numItems l"
  by (simp add: items_def list_ok_def)

lemma item_length: "list_ok M l \<Longrightarrow> x \<in> set (items l) \<Longrightarrow> int (length x) = itemSize l"
  using stores_items [of M l] by (metis stores_def)

subsection \<open>Blocks\<close>

lemma get_block_mid:
  "itemList l = u @ v @ w \<Longrightarrow> off = int (length u) \<Longrightarrow> n = int (length v) \<Longrightarrow> get_block l off n = Some v"
  by (simp add: get_block_def)

lemma put_block_mid:
  "itemList l = u @ v @ w \<Longrightarrow> off = int (length u) \<Longrightarrow> length xs = length v \<Longrightarrow>
   put_block l off xs = Some (l\<lparr>itemList := u @ xs @ w\<rparr>)"
  by (auto simp: put_block_def)

lemma list_sel [simp]: "ar_lists (put_list h l a) = (ar_lists a)(h := Some l)"
  by (simp add: put_list_def)

lemma malloc_next_lists [simp]: "ar_lists (snd (malloc_next a)) = ar_lists a"
  by (simp add: malloc_next_def split: list.split)

lemma sdiv_pos: "0 \<le> a \<Longrightarrow> 0 < b \<Longrightarrow> a sdiv b = (a :: int) div b"
  by (cases "a = 0") (simp_all add: signed_divide_int_def)

section \<open>Growing\<close>

lemma SetHandleSize_grow:
  assumes l: "ar_lists a h = Some l" "ls_size l = of_nat (itemList_offset + length (itemList l))"
    and n: "length (itemList l) < n" "itemList_offset + n < 2 ^ 32"
  obtains (grown) a' p where "SetHandleSize h (of_nat (itemList_offset + n)) a = Some (1, a')"
      "ar_lists a' = (ar_lists a)(h := Some (l\<lparr>ls_ptr := p, ls_size := of_nat (itemList_offset + n),
        itemList := itemList l @ replicate (n - length (itemList l)) 0\<rparr>))" "p = fst (malloc_next a)"
  | (full) a' where "SetHandleSize h (of_nat (itemList_offset + n)) a = Some (0, a')" "ar_lists a' = ar_lists a" "fst (malloc_next a) = NULL"
proof -
  have u: "unat (of_nat (itemList_offset + n) :: u32) = itemList_offset + n"
    using n(2) by (simp only: unat_of_nat) simp
  have "unat (ls_size l) = itemList_offset + length (itemList l)"
    unfolding l(2) using n by (simp only: unat_of_nat) simp
  then have ne: "ls_size l \<noteq> of_nat (itemList_offset + n)" using u n(1) by (metis add_left_cancel less_irrefl)
  have nz: "(of_nat (itemList_offset + n) :: u32) \<noteq> 0"
    using u unfolding itemList_offset_def by (metis add_is_0 numeral_neq_zero unsigned_0)
  obtain p a1 where m: "malloc_next a = (p, a1)" by (cases "malloc_next a")
  have a1: "ar_lists a1 = ar_lists a" using malloc_next_lists [of a] m by simp
  show ?thesis
  proof (cases "p = NULL")
    case True
    then have "SetHandleSize h (of_nat (itemList_offset + n)) a = Some (0, a1)"
      using l(1) ne nz m by (simp add: SetHandleSize_def)
    then show ?thesis using full a1 True m by simp
  next
    case False
    have "SetHandleSize h (of_nat (itemList_offset + n)) a =
        Some (1, put_list h (l\<lparr>ls_ptr := p, ls_size := of_nat (itemList_offset + n),
          itemList := resize (unat (of_nat (itemList_offset + n) :: u32) - itemList_offset) (itemList l)\<rparr>) a1)"
      using l(1) ne nz m False u by (simp add: SetHandleSize_def)
    also have "resize (unat (of_nat (itemList_offset + n) :: u32) - itemList_offset) (itemList l) =
        itemList l @ replicate (n - length (itemList l)) 0"
      unfolding u using n(1) by (simp add: resize_def)
    finally show ?thesis using grown a1 m by (metis list_sel fst_conv)
  qed
qed

text \<open>The two ways a growing operation may end.\<close>

definition grows :: "nat \<Rightarrow> nat \<Rightarrow> nat \<Rightarrow> ListStruct \<Rightarrow> arena \<Rightarrow> (int \<times> arena) option \<Rightarrow> bool" where
  "grows M k h l a r \<longleftrightarrow>
     (\<exists>a'. r = Some (0, a') \<and> ar_lists a' = ar_lists a \<and> fst (malloc_next a) = NULL) \<or>
     (\<exists>a' l'. r = Some (1, a') \<and> ar_lists a' = (ar_lists a)(h := Some l') \<and> list_ok M l' \<and>
        itemSize l' = itemSize l \<and> numItems l' = numItems l \<and> numItems l + int k \<le> listSize l' \<and>
        (\<exists>zs. itemList l' = itemList l @ zs) \<and> ls_ptr l' = fst (malloc_next a))"

lemma expand_grows:
  assumes l: "ar_lists a h = Some l" "list_ok M l"
    and full: "listSize l = numItems l" and k: "1 \<le> k" "numItems l + int k \<le> int M"
  shows "grows M k h l a (ExpandListSpace h (- int k) a)"
proof -
  let ?K = "3 * int M + 5" and ?z = "itemSize l"
  define inc where "inc = max (listSize l * 110 div 100) 4"
  have ok: "percentIncrease l = 10" "minNumItemsIncrease l = 4" "0 < ?z" "0 \<le> numItems l" "listSize l \<le> ?K"
    "int (length (itemList l)) = listSize l * ?z + 4" "ls_size l = of_nat (itemList_offset + length (itemList l))"
    "?K * (?z + 110) + 28 < 2 ^ 31"
    using l(2) by (simp_all add: list_ok_def)
  have inc: "4 \<le> inc" "listSize l + int k + inc \<le> ?K" using k full ok(4) unfolding inc_def by auto
  let ?n = "listSize l + (int k + inc)"
  have b110: "listSize l * 110 \<le> ?K * 110" using ok(5) by simp
  have z0: "0 \<le> ?K * ?z" "0 \<le> listSize l * 110" using ok(3,4) full by auto
  have split: "?K * (?z + 110) = ?K * ?z + ?K * 110" by (simp add: distrib_left)
  have c110: "c_int (listSize l * 110) = Some (listSize l * 110)"
    using b110 z0 split ok(8) by (simp add: c_int_def)
  have num: "NUMITEMSPERALLOC l = Some inc"
    using c110 z0 by (simp add: NUMITEMSPERALLOC_def ok inc_def sdiv_pos)
  have bz: "?n * ?z \<le> ?K * ?z" using inc ok(3) by (intro mult_right_mono) auto
  have n0: "listSize l * ?z + 4 < ?n * ?z + 4"
  proof -
    have "listSize l * ?z < ?n * ?z" using inc k ok(3) by (intro mult_strict_right_mono) auto
    then show ?thesis by simp
  qed
  have lz: "0 \<le> listSize l * ?z" using ok(3,4) full by simp
  have cn: "c_int (?n * ?z) = Some (?n * ?z)"
    using bz z0 n0 lz split ok(8) by (simp add: c_int_def)
  let ?m = "nat (?n * ?z + 4)"
  have m: "length (itemList l) < ?m" "itemList_offset + ?m < 2 ^ 32" "int ?m = ?n * ?z + 4"
    using n0 lz ok(6) bz split z0 ok(8) by (simp_all add: itemList_offset_def)
  have "sizeof_ListStruct + ?n * ?z = int (itemList_offset + ?m)"
    using m(3) by (simp add: sizeof_ListStruct_def itemList_offset_def)
  then have arg: "(of_int (sizeof_ListStruct + ?n * ?z) :: u32) = of_nat (itemList_offset + ?m)" by (metis of_int_of_nat_eq)
  have E: "ExpandListSpace h (- int k) a = do {
      (r, a) \<leftarrow> SetHandleSize h (of_nat (itemList_offset + ?m)) a;
      if r \<noteq> 0 then do { l \<leftarrow> ar_lists a h; Some (1, put_list h (l\<lparr>listSize := listSize l + (int k + inc)\<rparr>) a) }
      else Some (0, a) }"
    unfolding arg [symmetric] using k by (simp add: ExpandListSpace_def l(1) num cn)
  show ?thesis
    using l(1) ok(7) m(1,2)
  proof (cases rule: SetHandleSize_grow)
    case (grown a' p)
    let ?l = "l\<lparr>ls_ptr := p, ls_size := of_nat (itemList_offset + ?m),
        itemList := itemList l @ replicate (?m - length (itemList l)) 0, listSize := ?n\<rparr>"
    have "ExpandListSpace h (- int k) a = Some (1, put_list h ?l a')"
      unfolding E grown by (simp add: grown)
    moreover have "list_ok M ?l" using l(2) m inc k full by (auto simp: list_ok_def)
    ultimately show ?thesis
      using inc full unfolding grows_def
      by (intro disjI2 exI [of _ "put_list h ?l a'"] exI [of _ ?l]) (simp add: grown(2,3))
  next
    case (full a')
    then show ?thesis unfolding grows_def E by simp
  qed
qed

section \<open>Insertion and removal\<close>

text \<open>A list with other items in the same block is as good.\<close>

lemma list_ok_update:
  assumes ok: "list_ok M l" and n: "0 \<le> n" "n \<le> listSize l" "n \<le> int M" and d: "length d = length (itemList l)"
  shows "list_ok M (l\<lparr>itemList := d, numItems := n\<rparr>)"
  using assms by (simp add: list_ok_def)

text \<open>The index an insertion at a position stands for.\<close>

definition insert_index :: "int \<Rightarrow> int \<Rightarrow> nat option" where
  "insert_index n pos =
     (if pos = LIST_END \<or> pos = n + 1 then Some (nat n) else if pos = LIST_START then Some 0
      else if 1 \<le> pos \<and> pos \<le> n then Some (nat (pos - 1)) else None)"

text \<open>The items a client passes, zeros where it passes NULL.\<close>

definition gives_items :: "int \<Rightarrow> byte list option \<Rightarrow> byte list list \<Rightarrow> bool" where
  "gives_items sz src ys \<longleftrightarrow> (\<forall>y \<in> set ys. int (length y) = sz) \<and>
     (case src of Some s \<Rightarrow> \<exists>t. s = concat ys @ t | None \<Rightarrow> \<forall>y \<in> set ys. set y \<subseteq> {0})"

lemma set_zero: "set y \<subseteq> {0} \<Longrightarrow> y = replicate (length y) (0 :: byte)"
  by (metis replicate_length_same singletonD subsetD)

lemma new_items_concat:
  assumes g: "gives_items (itemSize l) src ys" and sz: "0 < itemSize l"
  shows "new_items l src (int (length ys)) = Some (concat ys)"
proof -
  have "length (concat ys) = length ys * nat (itemSize l)"
    using g sz by (intro length_concat_const) (auto simp: gives_items_def)
  then have len: "itemSize l * int (length ys) = int (length (concat ys))" using sz by simp
  show ?thesis
  proof (cases src)
    case None
    then have "set (concat ys) \<subseteq> {0}" using g by (auto simp: gives_items_def)
    then show ?thesis using set_zero [of "concat ys"] None unfolding new_items_def len by simp
  next
    case (Some s)
    then show ?thesis using g unfolding new_items_def len src_bytes_def by (auto simp: gives_items_def)
  qed
qed

text \<open>The part of \<open>ListInsertItems\<close> after the block has grown.\<close>

definition insert_now :: "byte list option \<Rightarrow> int \<Rightarrow> int \<Rightarrow> ListStruct \<Rightarrow> ListStruct option" where
  "insert_now src pos k l =
     (let n = numItems l; pos = (if pos = LIST_START then if n = 0 then LIST_END else 1 else pos) in
      if pos = LIST_END then do {
        xs \<leftarrow> new_items l src k;
        l \<leftarrow> put_block l (ITEMPTR l n) xs;
        Some (l\<lparr>numItems := numItems l + k\<rparr>) }
      else do {
        ys \<leftarrow> get_block l (ITEMPTR l (pos - 1)) ((n + 1 - pos) * itemSize l);
        l \<leftarrow> put_block l (ITEMPTR l (pos - 1 + k)) ys;
        xs \<leftarrow> new_items l src k;
        l \<leftarrow> put_block l (ITEMPTR l (pos - 1)) xs;
        Some (l\<lparr>numItems := numItems l + k\<rparr>) })"

lemma insert_now_stores:
  assumes st: "stores l xs rest" and sz: "0 < itemSize l" and g: "gives_items (itemSize l) src ys"
    and room: "length (concat ys) \<le> length rest"
    and pos: "insert_index (numItems l) pos = Some p" "pos \<noteq> numItems l + 1"
  obtains d rest' where "insert_now src pos (int (length ys)) l =
      Some (l\<lparr>itemList := d, numItems := numItems l + int (length ys)\<rparr>)"
    "d = concat (take p xs @ ys @ drop p xs) @ rest'" "length d = length (itemList l)"
proof -
  let ?Y = "concat ys" and ?k = "int (length ys)"
  have ylen: "int (length ?Y) = ?k * itemSize l"
  proof -
    have "length ?Y = length ys * nat (itemSize l)"
      using g sz by (intro length_concat_const) (auto simp: gives_items_def)
    then show ?thesis using sz by simp
  qed
  have n: "numItems l = int (length xs)" and data: "itemList l = concat xs @ rest" using st by (simp_all add: stores_def)
  have new: "new_items l' src ?k = Some ?Y" if "itemSize l' = itemSize l" for l'
    using new_items_concat [of l' src ys] g sz that by simp
  have flen: "int (length (concat zs)) = int (length zs) * itemSize l" if "set zs \<subseteq> set xs" for zs
  proof -
    have "length (concat zs) = length zs * nat (itemSize l)"
      using that stores_size(2) [OF st] by (intro length_concat_const) blast
    then show ?thesis using sz by simp
  qed
  define pos' where "pos' = (if pos = LIST_START then if numItems l = 0 then LIST_END else 1 else pos)"
  show ?thesis
  proof (cases "pos' = LIST_END")
    case True
    then have p: "p = length xs" using pos n by (auto simp: pos'_def insert_index_def LIST_END_def LIST_START_def split: if_splits)
    have "put_block l (ITEMPTR l (numItems l)) ?Y = Some (l\<lparr>itemList := concat xs @ ?Y @ drop (length ?Y) rest\<rparr>)"
    proof (rule put_block_mid)
      show "itemList l = concat xs @ take (length ?Y) rest @ drop (length ?Y) rest" by (simp add: data)
      show "ITEMPTR l (numItems l) = int (length (concat xs))" using flen [of xs] n by (simp add: ITEMPTR_def)
    qed (use room in simp)
    then have "insert_now src pos ?k l =
        Some (l\<lparr>itemList := concat xs @ ?Y @ drop (length ?Y) rest, numItems := numItems l + ?k\<rparr>)"
      using True unfolding insert_now_def pos'_def [symmetric] Let_def by (simp add: new)
    then show ?thesis using that p room by (auto simp: data)
  next
    case False
    then have p: "p \<le> length xs" "pos' - 1 = int p" "p < length xs"
      using pos n by (auto simp: pos'_def insert_index_def LIST_END_def LIST_START_def split: if_splits)
    let ?A = "concat (take p xs)" and ?B = "concat (drop p xs)"
    have AB: "concat xs = ?A @ ?B" by (metis append_take_drop_id concat_append)
    have lenA: "int (length ?A) = int p * itemSize l"
      using flen [of "take p xs"] p set_take_subset by (metis length_take min_absorb2)
    have lenB: "int (length ?B) = (int (length xs) - int p) * itemSize l"
      using flen [of "drop p xs"] p set_drop_subset [of p xs] by (simp add: of_nat_diff)
    have get: "get_block l (ITEMPTR l (pos' - 1)) ((numItems l + 1 - pos') * itemSize l) = Some ?B"
    proof (rule get_block_mid)
      show "itemList l = ?A @ ?B @ rest" using AB data by simp
      show "ITEMPTR l (pos' - 1) = int (length ?A)" using p lenA by (simp add: ITEMPTR_def)
      have "numItems l + 1 - pos' = int (length xs) - int p" using p n by linarith
      then show "(numItems l + 1 - pos') * itemSize l = int (length ?B)" using lenB by simp
    qed
    let ?X = "?B @ rest" and ?y = "length ?Y"
    let ?d1 = "?A @ take ?y ?X @ ?B @ drop (length ?B) (drop ?y ?X)"
    let ?l1 = "l\<lparr>itemList := ?d1\<rparr>"
    have put1: "put_block l (ITEMPTR l (pos' - 1 + ?k)) ?B = Some (l\<lparr>itemList := (?A @ take ?y ?X) @ ?B @ drop (length ?B) (drop ?y ?X)\<rparr>)"
    proof (rule put_block_mid)
      have "drop ?y ?X = take (length ?B) (drop ?y ?X) @ drop (length ?B) (drop ?y ?X)" by (simp only: append_take_drop_id)
      then show "itemList l = (?A @ take ?y ?X) @ take (length ?B) (drop ?y ?X) @ drop (length ?B) (drop ?y ?X)"
        unfolding data AB by (metis append.assoc append_take_drop_id)
      show "ITEMPTR l (pos' - 1 + ?k) = int (length (?A @ take ?y ?X))"
        using p(2) lenA ylen room by (simp add: ITEMPTR_def algebra_simps)
      show "length ?B = length (take (length ?B) (drop ?y ?X))" using room by simp
    qed
    let ?R = "drop (length ?B) (drop ?y ?X)"
    have put2: "put_block ?l1 (ITEMPTR ?l1 (pos' - 1)) ?Y = Some (?l1\<lparr>itemList := ?A @ ?Y @ ?B @ ?R\<rparr>)"
    proof (rule put_block_mid)
      show "itemList ?l1 = ?A @ take ?y ?X @ ?B @ ?R" by simp
      show "ITEMPTR ?l1 (pos' - 1) = int (length ?A)" using p lenA by (simp add: ITEMPTR_def)
    qed (use room in simp)
    have "insert_now src pos ?k l = Some (l\<lparr>itemList := ?A @ ?Y @ ?B @ ?R, numItems := numItems l + ?k\<rparr>)"
      using False get put1 put2 unfolding insert_now_def pos'_def [symmetric] Let_def by (simp add: new)
    moreover have "length (?A @ ?Y @ ?B @ ?R) = length (itemList l)"
      unfolding data AB using room by simp
    ultimately show ?thesis using that by simp
  qed
qed

text \<open>
  What an insertion does: it fails and leaves the list alone, or the items stand at their place. All
  other lists stay as they are.
\<close>

definition replaced :: "nat \<Rightarrow> nat \<Rightarrow> ListStruct \<Rightarrow> byte list list \<Rightarrow> arena \<Rightarrow> arena \<Rightarrow> bool" where
  "replaced M h l xs a a' \<longleftrightarrow>
     (\<exists>l'. ar_lists a' = (ar_lists a)(h := Some l') \<and> list_ok M l' \<and> itemSize l' = itemSize l \<and> items l' = xs)"

text \<open>Up to the growing of the block, and what follows.\<close>

lemma insert_index_end:
  assumes "0 \<le> n" "insert_index n pos = Some p"
  defines "q \<equiv> if pos = n + 1 then LIST_END else pos"
  shows "insert_index n q = Some p" "q \<noteq> n + 1" "\<not> (q \<noteq> LIST_END \<and> q > n)"
  using assms by (auto simp: insert_index_def LIST_END_def LIST_START_def split: if_splits)

lemma ListInsertItems_now:
  fixes k :: int
  assumes l: "ar_lists a h = Some l" and n0: "0 \<le> numItems l"
    and pos: "insert_index (numItems l) pos = Some p"
  defines "q \<equiv> if pos = numItems l + 1 then LIST_END else pos"
    and "grow \<equiv> if listSize l \<le> numItems l then ExpandListSpace h (- k) a else Some (1, a)"
  shows "grow = Some (0, a') \<Longrightarrow> ListInsertItems h src pos k a = Some (0, a')"
    and "grow = Some (1, a') \<Longrightarrow> ar_lists a' h = Some l' \<Longrightarrow> numItems l' = numItems l \<Longrightarrow>
      insert_now src q k l' = Some l'' \<Longrightarrow> ListInsertItems h src pos k a = Some (1, put_list h l'' a')"
proof -
  let ?n = "numItems l"
  have q: "\<not> (q \<noteq> LIST_END \<and> q > ?n)" unfolding q_def by (rule insert_index_end(3) [OF n0 pos])
  have unfold: "ListInsertItems h src pos k a = do {
      (r, a) \<leftarrow> grow;
      if r = 0 then Some (0, a)
      else do {
        l \<leftarrow> ar_lists a h;
        let pos = (if q = LIST_START then if ?n = 0 then LIST_END else 1 else q) in
        if pos = LIST_END then do {
          xs \<leftarrow> new_items l src k;
          l \<leftarrow> put_block l (ITEMPTR l ?n) xs;
          Some (1, put_list h (l\<lparr>numItems := numItems l + k\<rparr>) a) }
        else do {
          ys \<leftarrow> get_block l (ITEMPTR l (pos - 1)) ((?n + 1 - pos) * itemSize l);
          l \<leftarrow> put_block l (ITEMPTR l (pos - 1 + k)) ys;
          xs \<leftarrow> new_items l src k;
          l \<leftarrow> put_block l (ITEMPTR l (pos - 1)) xs;
          Some (1, put_list h (l\<lparr>numItems := numItems l + k\<rparr>) a) } } }"
    by (simp only: ListInsertItems_def l bind.bind_lunit Let_def q_def [symmetric] grow_def if_not_P [OF q])
  show "grow = Some (0, a') \<Longrightarrow> ListInsertItems h src pos k a = Some (0, a')"
    unfolding unfold by simp
  show "grow = Some (1, a') \<Longrightarrow> ar_lists a' h = Some l' \<Longrightarrow> numItems l' = numItems l \<Longrightarrow>
      insert_now src q k l' = Some l'' \<Longrightarrow> ListInsertItems h src pos k a = Some (1, put_list h l'' a')"
    unfolding unfold insert_now_def by (auto simp: Let_def split: if_splits Option.bind_splits)
qed

lemma insert_now_ok:
  assumes l: "list_ok M l" and l': "list_ok M l'" "itemSize l' = itemSize l" "numItems l' = numItems l"
      "itemList l' = itemList l @ zs"
    and g: "gives_items (itemSize l) src ys" and max: "length (items l) + length ys \<le> M"
    and room: "numItems l + int (length ys) \<le> listSize l'"
    and pos: "insert_index (numItems l) q = Some p" "q \<noteq> numItems l + 1"
  shows "\<exists>l''. insert_now src q (int (length ys)) l' = Some l'' \<and> list_ok M l'' \<and> itemSize l'' = itemSize l \<and>
    items l'' = take p (items l) @ ys @ drop p (items l)"
proof -
  let ?k = "int (length ys)" and ?n = "numItems l" and ?xs = "take p (items l) @ ys @ drop p (items l)"
  have n0: "0 \<le> ?n" and sz: "0 < itemSize l'" using l l'(2) by (simp_all add: list_ok_def)
  have len: "int (length (items l)) = ?n" using l by (rule length_items)
  obtain rest where st: "stores l (items l) rest" using stores_items [OF l] by blast
  then have st': "stores l' (items l) (rest @ zs)" using l' by (simp add: stores_def)
  obtain rest' where r': "stores l' (items l') rest'" "int (length rest') = (listSize l' - ?n) * itemSize l + 4"
    using stores_items [OF l'(1)] l' by metis
  have same: "items l' = items l" using items_stores [OF st'] .
  have lr: "length rest' = length (rest @ zs)"
    using r'(1) st' unfolding stores_def same by (metis append_same_eq length_append add_left_cancel)
  have "length (concat ys) = length ys * nat (itemSize l)"
    using g by (intro length_concat_const) (auto simp: gives_items_def)
  then have "int (length (concat ys)) = ?k * itemSize l" using l by (simp add: list_ok_def)
  moreover have "?k * itemSize l \<le> (listSize l' - ?n) * itemSize l"
    using room l by (intro mult_right_mono) (auto simp: list_ok_def)
  ultimately have "length (concat ys) \<le> length (rest @ zs)" using r'(2) lr by linarith
  then obtain d R where d: "insert_now src q ?k l' = Some (l'\<lparr>itemList := d, numItems := numItems l' + ?k\<rparr>)"
    "d = concat ?xs @ R" "length d = length (itemList l')"
    using insert_now_stores [OF st' sz, of src ys q p] g pos l' by metis
  let ?l = "l'\<lparr>itemList := d, numItems := numItems l' + ?k\<rparr>"
  have ok: "list_ok M ?l" using list_ok_update [OF l'(1), of "?n + ?k" d] d(3) l' n0 max len room by simp
  have "\<forall>x \<in> set (items l). int (length x) = itemSize l" using item_length [OF l] by blast
  then have "\<forall>x \<in> set ?xs. int (length x) = itemSize l"
    using g by (auto simp: gives_items_def dest: in_set_takeD in_set_dropD)
  moreover have "length ?xs = length (items l) + length ys" by simp
  ultimately have "stores ?l ?xs R" using d(2) l' len by (simp add: stores_def)
  then show ?thesis using d(1) ok l'(2) items_stores by auto
qed

lemma insert_items:
  assumes l: "ar_lists a h = Some l" "list_ok M l" and g: "gives_items (itemSize l) src ys" and ne: "ys \<noteq> []"
    and max: "length (items l) + length ys \<le> M"
    and pos: "insert_index (numItems l) pos = Some p"
    and room: "numItems l + int (length ys) \<le> listSize l \<or> numItems l = listSize l"
  shows "(\<exists>a'. ListInsertItems h src pos (int (length ys)) a = Some (0, a') \<and> ar_lists a' = ar_lists a \<and>
       fst (malloc_next a) = NULL) \<or>
    (\<exists>a'. ListInsertItems h src pos (int (length ys)) a = Some (1, a') \<and>
       replaced M h l (take p (items l) @ ys @ drop p (items l)) a a')"
proof -
  let ?k = "int (length ys)" and ?n = "numItems l"
  have n0: "0 \<le> ?n" using l(2) by (simp add: list_ok_def)
  note now = ListInsertItems_now [OF l(1) n0 pos, of ?k] and q = insert_index_end [OF n0 pos]
  note fin = insert_now_ok [OF l(2) _ _ _ _ g max _ q(1,2)]
  show ?thesis
  proof (cases "listSize l \<le> ?n")
    case True
    then have full: "listSize l = ?n" using l(2) by (simp add: list_ok_def)
    have "grows M (length ys) h l a (ExpandListSpace h (- ?k) a)"
      using ne max length_items [OF l(2)] by (intro expand_grows [OF l full]) (cases ys; simp)+
    then consider (fail) a' where "ExpandListSpace h (- ?k) a = Some (0, a')" "ar_lists a' = ar_lists a" "fst (malloc_next a) = NULL"
      | (grown) a' l' zs where "ExpandListSpace h (- ?k) a = Some (1, a')" "ar_lists a' = (ar_lists a)(h := Some l')" "list_ok M l'"
        "itemSize l' = itemSize l" "numItems l' = ?n" "?n + ?k \<le> listSize l'" "itemList l' = itemList l @ zs"
      unfolding grows_def by blast
    then show ?thesis
    proof cases
      case fail
      then show ?thesis using now(1) [of a'] True by auto
    next
      case grown
      show ?thesis using fin [OF grown(3-5,7,6)] now(2) [of a' l'] grown True by (auto simp: replaced_def)
    qed
  next
    case False
    then show ?thesis using fin [of l "[]"] now(2) [of a l] l room by (auto simp: replaced_def)
  qed
qed

text \<open>The index of the first item a removal or a reading starts at.\<close>

definition item_index :: "int \<Rightarrow> int \<Rightarrow> nat option" where
  "item_index n pos =
     (if pos = LIST_START then Some 0 else if pos = LIST_END then if n \<ge> 1 then Some (nat (n - 1)) else None
      else if 1 \<le> pos then Some (nat (pos - 1)) else None)"

lemma concat_parts:
  assumes "p + k \<le> length xs"
  shows "concat xs = concat (take p xs) @ concat (take k (drop p xs)) @ concat (drop (p + k) xs)"
  using assms by (metis append_take_drop_id concat_append drop_drop add.commute)

lemma length_concat_part:
  assumes "stores l xs rest" "set ys \<subseteq> set xs" "0 < itemSize l"
  shows "int (length (concat ys)) = int (length ys) * itemSize l"
proof -
  have "length (concat ys) = length ys * nat (itemSize l)"
    using assms(2) stores_size(2) [OF assms(1)] by (intro length_concat_const) blast
  then show ?thesis using assms(3) by simp
qed

lemma get_items:
  assumes st: "stores l xs rest" and sz: "0 < itemSize l" and p: "p + k \<le> length xs"
  shows "get_block l (ITEMPTR l (int p)) (itemSize l * int k) = Some (concat (take k (drop p xs)))"
proof (rule get_block_mid)
  note len = length_concat_part [OF st _ sz]
  show "itemList l = concat (take p xs) @ concat (take k (drop p xs)) @ (concat (drop (p + k) xs) @ rest)"
    using st concat_parts [OF p] by (simp add: stores_def)
  show "ITEMPTR l (int p) = int (length (concat (take p xs)))"
    using len [OF set_take_subset, of p] p by (simp add: ITEMPTR_def)
  have "set (take k (drop p xs)) \<subseteq> set xs" by (meson order.trans set_take_subset set_drop_subset)
  then show "itemSize l * int k = int (length (concat (take k (drop p xs))))"
    using len p by simp
qed

lemma get_item:
  assumes "stores l xs rest" "0 < itemSize l" "1 \<le> pos" "pos \<le> int (length xs)"
  shows "get_block l (ITEMPTR l (pos - 1)) (itemSize l) = Some (xs ! nat (pos - 1))"
proof -
  have i: "nat (pos - 1) < length xs" "int (nat (pos - 1)) = pos - 1" using assms(3,4) by auto
  have "take 1 (drop (nat (pos - 1)) xs) = [xs ! nat (pos - 1)]"
    using i(1) by (simp add: Cons_nth_drop_Suc [symmetric])
  then show ?thesis using get_items [OF assms(1,2), of "nat (pos - 1)" 1] i by simp
qed

lemma item_at_nth:
  assumes "ar_lists a h = Some l" "list_ok M l" "1 \<le> pos" "pos \<le> numItems l"
  shows "item_at h pos a = Some (items l ! nat (pos - 1))"
proof -
  obtain rest where "stores l (items l) rest" using stores_items [OF assms(2)] by blast
  then have "get_block l (ITEMPTR l (pos - 1)) (itemSize l) = Some (items l ! nat (pos - 1))"
    using assms by (intro get_item) (auto simp: list_ok_def stores_def)
  then show ?thesis using assms(1) by (simp add: item_at_def)
qed

text \<open>Closing the gap that removed items leave.\<close>

lemma close_gap:
  assumes st: "stores l xs rest" and sz: "0 < itemSize l" and k: "p + k \<le> length xs" and pos': "pos - 1 = int p"
  obtains d R where "(if numItems l - (pos + int k - 1) > 0 then do {
        ys \<leftarrow> get_block l (ITEMPTR l (pos + int k - 1)) (itemSize l * (numItems l - (pos + int k - 1)));
        put_block l (ITEMPTR l (pos - 1)) ys } else Some l) = Some (l\<lparr>itemList := d\<rparr>)"
    "length d = length (itemList l)" "d = concat (take p xs @ drop (p + k) xs) @ R"
proof -
  let ?A = "concat (take p xs)" and ?B = "concat (drop (p + k) xs)" and ?n = "numItems l"
  have n: "?n = int (length xs)" using st by (simp add: stores_def)
  note len = length_concat_part [OF st _ sz]
  show ?thesis
  proof (cases "?n - (pos + int k - 1) > 0")
    case True
    have rest_k: "take (length xs - (p + k)) (drop (p + k) xs) = drop (p + k) xs" by simp
    have get: "get_block l (ITEMPTR l (pos + int k - 1)) (itemSize l * (?n - (pos + int k - 1))) = Some ?B"
    proof -
      have e: "pos + int k - 1 = int (p + k)" "?n - int (p + k) = int (length xs - (p + k))" using pos' n k by auto
      show ?thesis unfolding e using get_items [OF st sz, of "p + k" "length xs - (p + k)"] k rest_k by simp
    qed
    let ?X = "concat (take k (drop p xs)) @ ?B @ rest"
    have data: "itemList l = ?A @ take (length ?B) ?X @ drop (length ?B) ?X"
      using st concat_parts [OF k] by (simp add: stores_def del: take_append drop_append)
    have "put_block l (ITEMPTR l (pos - 1)) ?B = Some (l\<lparr>itemList := ?A @ ?B @ drop (length ?B) ?X\<rparr>)"
      using data
    proof (rule put_block_mid)
      show "ITEMPTR l (pos - 1) = int (length ?A)"
        using len [OF set_take_subset, of p] k pos' by (simp add: ITEMPTR_def)
    qed simp
    moreover have "length (?A @ ?B @ drop (length ?B) ?X) = length (itemList l)" unfolding data by simp
    ultimately show ?thesis using that True get by auto
  next
    case False
    then have nil: "drop (p + k) xs = []" using pos' n k by simp
    have "itemList l = (?A @ ?B) @ concat (take k (drop p xs)) @ rest"
      using st unfolding stores_def concat_parts [OF k] nil by simp
    then show ?thesis using that [of "itemList l" "concat (take k (drop p xs)) @ rest"] False by auto
  qed
qed

lemma remove_items:
  assumes l: "ar_lists a h = Some l" "list_ok M l" and pos: "item_index (numItems l) pos = Some p"
    and k: "p + k \<le> length (items l)"
  shows "\<exists>a'. ListRemoveItems h dest pos (int k) a =
      Some (if dest then concat (take k (drop p (items l))) else [], a') \<and>
    replaced M h l (take p (items l) @ drop (p + k) (items l)) a a' \<and> ar_mallocs a' = ar_mallocs a"
proof -
  let ?xs = "items l" and ?n = "numItems l"
  have sz: "0 < itemSize l" and n0: "0 \<le> ?n" using l(2) by (simp_all add: list_ok_def)
  obtain rest where st: "stores l ?xs rest" using stores_items [OF l(2)] by blast
  then have n: "?n = int (length ?xs)" by (simp add: stores_def)
  define pos' where "pos' = (if pos = LIST_START then 1 else if pos = LIST_END then ?n else pos)"
  have pos': "pos' - 1 = int p" using pos by (auto simp: pos'_def item_index_def LIST_START_def LIST_END_def split: if_splits)
  define out where "out = (if dest then concat (take k (drop p ?xs)) else [])"
  obtain d R where d: "(if ?n - (pos' + int k - 1) > 0 then do {
        ys \<leftarrow> get_block l (ITEMPTR l (pos' + int k - 1)) (itemSize l * (?n - (pos' + int k - 1)));
        put_block l (ITEMPTR l (pos' - 1)) ys } else Some l) = Some (l\<lparr>itemList := d\<rparr>)"
    "length d = length (itemList l)" "d = concat (take p ?xs @ drop (p + k) ?xs) @ R"
    using close_gap [OF st sz k pos'] by blast
  let ?l = "l\<lparr>itemList := d, numItems := ?n - int k\<rparr>"
  have get_out: "(if dest then get_block l (ITEMPTR l (pos' - 1)) (itemSize l * int k) else Some []) = Some out"
    using get_items [OF st sz k] pos' by (simp add: out_def)
  have "ListRemoveItems h dest pos (int k) a = Some (out, put_list h ?l a)"
    by (simp only: ListRemoveItems_def l(1) bind.bind_lunit Let_def pos'_def [symmetric] get_out d(1)) simp
  moreover have "list_ok M ?l" using list_ok_update [OF l(2), of "?n - int k" d] d(2) n k l(2) by (simp add: list_ok_def)
  moreover have "items ?l = take p ?xs @ drop (p + k) ?xs"
  proof -
    have "stores ?l (take p ?xs @ drop (p + k) ?xs) R"
      using d(3) st k by (auto simp: stores_def dest: in_set_takeD in_set_dropD)
    then show ?thesis by (rule items_stores)
  qed
  ultimately show ?thesis unfolding out_def by (auto simp: replaced_def put_list_def)
qed

section \<open>Searching\<close>

lemma block_cmp_eq: "length xs = length ys \<Longrightarrow> block_cmp xs ys = 0 \<longleftrightarrow> xs = ys"
  by (induction xs ys rule: block_cmp.induct) (auto simp: Let_def simp flip: word_unat_eq_iff word_uint_eq_iff)

text \<open>It is \<open>memcmp\<close> on the bytes of the two blocks.\<close>

lemma block_cmp_memcmp: "block_cmp (read_bytes m s n) (read_bytes m t n) = memcmp m s t n"
  by (induction n arbitrary: s t) (simp_all add: read_bytes_Suc)

text \<open>
  \<open>f\<close> gives the sign of the comparison with each element. In a sorted array it goes from positive to
  negative.
\<close>

definition sign_sorted :: "(int \<Rightarrow> int) \<Rightarrow> int \<Rightarrow> bool" where
  "sign_sorted f n \<longleftrightarrow> (\<forall>i j. 0 \<le> i \<and> i < j \<and> j < n \<longrightarrow> (f j > 0 \<longrightarrow> f i > 0) \<and> (f i < 0 \<longrightarrow> f j < 0))"

definition found_at :: "(int \<Rightarrow> int) \<Rightarrow> int \<Rightarrow> int \<Rightarrow> bool" where
  "found_at f n r \<longleftrightarrow>
     (if r \<ge> 0 then r < n \<and> f r = 0
      else 0 \<le> - r - 1 \<and> - r - 1 \<le> n \<and> (\<forall>j. 0 \<le> j \<and> j < - r - 1 \<longrightarrow> f j > 0) \<and>
        (\<forall>j. - r - 1 \<le> j \<and> j < n \<longrightarrow> f j < 0))"

lemma bin_loop_found:
  assumes "sign_sorted f n" "0 \<le> low" "low \<le> high + 1" "high < n"
    and "\<forall>j. 0 \<le> j \<and> j < low \<longrightarrow> f j > 0" "\<forall>j. high < j \<and> j < n \<longrightarrow> f j < 0"
    and "low \<le> high \<or> (if cmp > 0 then mid + 1 else mid) = low"
  shows "found_at f n (bin_loop f low high mid cmp)"
  using assms
proof (induction f low high mid cmp rule: bin_loop.induct)
  case (1 f low high mid cmp)
  let ?m = "(low + high) div 2"
  show ?case
  proof (cases "low \<le> high")
    case True
    then have m: "low \<le> ?m" "?m \<le> high" by auto
    consider (eq) "f ?m = 0" | (lt) "f ?m < 0" | (gt) "f ?m > 0" by linarith
    then show ?thesis
    proof cases
      case eq
      then show ?thesis
        using True m "1.prems"(2,4) by (subst bin_loop.simps) (simp add: found_at_def)
    next
      case lt
      have "found_at f n (bin_loop f low (?m - 1) ?m (f ?m))"
      proof (rule "1.IH"(1) [OF True refl refl])
        show "\<forall>j. ?m - 1 < j \<and> j < n \<longrightarrow> f j < 0"
        proof (intro allI impI)
          fix j assume j: "?m - 1 < j \<and> j < n"
          show "f j < 0"
          proof (cases "j = ?m")
            case False
            then show ?thesis using j lt m "1.prems"(1,2) unfolding sign_sorted_def by (metis order.trans zle_diff1_eq linorder_not_less order_le_less)
          qed (use lt in simp)
        qed
      qed (use lt m "1.prems" in auto)
      then show ?thesis using True lt by (subst bin_loop.simps) (simp add: Let_def)
    next
      case gt
      have "found_at f n (bin_loop f (?m + 1) high ?m (f ?m))"
      proof (rule "1.IH"(2) [OF True refl refl])
        show "\<forall>j. 0 \<le> j \<and> j < ?m + 1 \<longrightarrow> f j > 0"
        proof (intro allI impI)
          fix j assume j: "0 \<le> j \<and> j < ?m + 1"
          show "f j > 0"
          proof (cases "j = ?m")
            case False
            then have "j < ?m" "?m < n" using j m "1.prems"(4) by auto
            then show ?thesis using j gt "1.prems"(1) unfolding sign_sorted_def by blast
          qed (use gt in simp)
        qed
      qed (use gt m "1.prems" in auto)
      then show ?thesis using True gt by (subst bin_loop.simps) (simp add: Let_def)
    qed
  next
    case False
    then have "low = high + 1" "(if cmp > 0 then mid + 1 else mid) = low" using "1.prems" by auto
    then show ?thesis
      using False "1.prems" by (subst bin_loop.simps) (auto simp: found_at_def Let_def)
  qed
qed

text \<open>
  The binary search of a sorted array returns the index of an element that compares equal, and if there is
  none it returns \<open>-i-1\<close>, where \<open>i\<close> is the only index at which the item can be inserted: all elements before
  compare less, all from there on greater. It takes at most as many steps as the array has elements.
\<close>

theorem BinSearch_correct:
  assumes "0 \<le> n" "sign_sorted (\<lambda>i. item_cmp cmp sz it (element arr sz i)) n"
  shows "found_at (\<lambda>i. item_cmp cmp sz it (element arr sz i)) n (BinSearch arr n sz it cmp)"
  unfolding BinSearch_def using assms by (intro bin_loop_found) auto

theorem BinSearch_correct_witness:
  "found_at (\<lambda>i. item_cmp None 1 [4] (element [1, 3, 5] 1 i)) 3 (BinSearch [1, 3, 5] 3 1 [4] None) \<and>
   BinSearch [1, 3, 5] 3 1 [4] None = -3"
proof
  let ?f = "\<lambda>i. item_cmp None 1 [4] (element [1, 3, 5] 1 i)"
  have "?f 0 = 3" "?f 1 = 1" "?f 2 = -1" by (simp_all add: item_cmp_def ListMemBlockCmp_def element_def)
  moreover have "i = 0 \<or> i = 1 \<or> i = 2" if "0 \<le> i" "i < 3" for i :: int using that by linarith
  ultimately have "sign_sorted ?f 3" unfolding sign_sorted_def by (smt (verit, best))
  then show "found_at ?f 3 (BinSearch [1, 3, 5] 3 1 [4] None)" by (intro BinSearch_correct) simp
  show "BinSearch [1, 3, 5] 3 1 [4] None = -3"
    by (simp add: BinSearch_def bin_loop.simps item_cmp_def ListMemBlockCmp_def element_def Let_def)
qed

text \<open>The first match from a position on, as a position, 0 if there is none.\<close>

primrec first_match :: "(byte list \<Rightarrow> bool) \<Rightarrow> int \<Rightarrow> byte list list \<Rightarrow> int" where
  "first_match P pos [] = 0"
| "first_match P pos (x # xs) = (if P x then pos else first_match P (pos + 1) xs)"

lemma find_item_loop_first:
  assumes st: "stores l xs rest" and sz: "0 < itemSize l" and pos: "1 \<le> pos"
  shows "find_item_loop h cmp l it pos (numItems l) =
    Some (first_match (\<lambda>x. item_cmp cmp (itemSize l) it x = 0) pos (drop (nat (pos - 1)) xs))"
  using pos
proof (induction "nat (numItems l - pos + 1)" arbitrary: pos)
  case 0
  then have "numItems l < pos" "length xs \<le> nat (pos - 1)" using st by (auto simp: stores_def)
  then show ?case by (simp add: find_item_loop.simps)
next
  case (Suc n)
  have n: "numItems l = int (length xs)" using st by (simp add: stores_def)
  from Suc.hyps(2) have le: "pos \<le> int (length xs)" using n by linarith
  then have i: "nat (pos - 1) < length xs" using Suc.prems by linarith
  have "nat (pos + 1 - 1) = Suc (nat (pos - 1))" using Suc.prems by linarith
  moreover have "find_item_loop h cmp l it (pos + 1) (numItems l) =
      Some (first_match (\<lambda>x. item_cmp cmp (itemSize l) it x = 0) (pos + 1) (drop (nat (pos + 1 - 1)) xs))"
    using Suc.hyps(2) Suc.prems by (intro Suc.hyps(1)) auto
  ultimately show ?case
    using get_item [OF st sz Suc.prems le] le n Cons_nth_drop_Suc [OF i]
    by (subst find_item_loop.simps) (simp add: Cons_nth_drop_Suc [OF i, symmetric])
qed

lemma ListFindItem_first:
  assumes "ar_lists a h = Some l" "list_ok M l" "1 \<le> pos"
  shows "ListFindItem h it pos cmp a =
    Some (first_match (\<lambda>x. item_cmp cmp (itemSize l) it x = 0) pos (drop (nat (pos - 1)) (items l)))"
proof -
  obtain rest where st: "stores l (items l) rest" using stores_items [OF assms(2)] by blast
  have sz: "0 < itemSize l" using assms(2) by (simp add: list_ok_def)
  show ?thesis
  proof (cases "numItems l = 0")
    case True
    then have "items l = []" using st by (simp add: stores_def)
    then show ?thesis using assms(1) True by (simp add: ListFindItem_def)
  next
    case False
    then show ?thesis using assms(1,3) find_item_loop_first [OF st sz assms(3)]
      by (simp add: ListFindItem_def LIST_START_def LIST_END_def)
  qed
qed

section \<open>Removing duplicates\<close>

function keep_first :: "('a \<Rightarrow> 'a \<Rightarrow> bool) \<Rightarrow> 'a list \<Rightarrow> 'a list" where
  "keep_first same [] = []"
| "keep_first same (x # xs) = x # keep_first same (filter (\<lambda>y. \<not> same x y) xs)"
  by pat_completeness auto
termination
  by (relation "measure (\<lambda>(same, xs). length xs)") (auto simp: less_Suc_eq_le)

lemma remdups_snoc: "remdups (xs @ [x]) = remdups (filter (\<lambda>y. y \<noteq> x) xs) @ [x]"
  by (induction xs) auto

lemma keep_first_remdups: "keep_first (=) xs = rev (remdups (rev xs))"
proof (induction "(=) :: 'a \<Rightarrow> 'a \<Rightarrow> bool" xs rule: keep_first.induct)
  case (2 x xs)
  then show ?case by (simp add: remdups_snoc rev_filter [symmetric] eq_commute [of x])
qed simp

lemma keep_first_cong: "(\<And>x y. x \<in> set xs \<Longrightarrow> y \<in> set xs \<Longrightarrow> same x y = same' x y) \<Longrightarrow> keep_first same xs = keep_first same' xs"
proof (induction same xs rule: keep_first.induct)
  case (2 same x xs)
  have "filter (\<lambda>y. \<not> same x y) xs = filter (\<lambda>y. \<not> same' x y) xs" using "2.prems" by (intro filter_cong) auto
  then show ?case using "2.IH" "2.prems" by simp
qed simp

text \<open>The first match, and what stands before it.\<close>

lemma first_match_split:
  assumes "1 \<le> pos"
  obtains (none) "first_match P pos xs = 0" "\<forall>x \<in> set xs. \<not> P x"
  | (some) ys z zs where "xs = ys @ z # zs" "P z" "\<forall>y \<in> set ys. \<not> P y" "first_match P pos xs = pos + int (length ys)"
proof (cases "\<exists>x \<in> set xs. P x")
  case False
  then have "first_match P pos xs = 0" by (induction xs arbitrary: pos) auto
  then show ?thesis using none False by blast
next
  case True
  then obtain ys z zs where xs: "xs = ys @ z # zs" "P z" "\<forall>y \<in> set ys. \<not> P y"
    using split_list_first_prop [of xs P] by blast
  moreover have "first_match P pos (ys @ z # zs) = pos + int (length ys)" if "\<forall>y \<in> set ys. \<not> P y" for pos
    using that xs(2) by (induction ys arbitrary: pos) auto
  ultimately show ?thesis using some by metis
qed

lemma replaced_refl: "ar_lists a h = Some l \<Longrightarrow> list_ok M l \<Longrightarrow> replaced M h l (items l) a a"
  unfolding replaced_def by (intro exI [of _ l]) (simp add: fun_upd_idem)

lemma replaced_trans:
  "replaced M h l xs a a' \<Longrightarrow> ar_lists a' h = Some l' \<Longrightarrow> replaced M h l' ys a' a'' \<Longrightarrow> replaced M h l ys a a''"
  by (auto simp: replaced_def)

abbreviation same_item :: "compare_fun \<Rightarrow> int \<Rightarrow> byte list \<Rightarrow> byte list \<Rightarrow> bool" where
  "same_item cmp sz x y \<equiv> item_cmp cmp sz x y = 0"

lemma dup_inner_filter:
  assumes "ar_lists a h = Some l" "list_ok M l" "1 \<le> i" "i < s" "i \<le> numItems l" "x = items l ! nat (i - 1)"
    and "s \<le> numItems l + 1"
  shows "\<exists>a'. dup_inner h cmp i s (numItems l) a =
      Some (int (length (take (nat (s - 1)) (items l) @ filter (\<lambda>y. \<not> same_item cmp (itemSize l) x y) (drop (nat (s - 1)) (items l)))), a') \<and>
    replaced M h l (take (nat (s - 1)) (items l) @ filter (\<lambda>y. \<not> same_item cmp (itemSize l) x y) (drop (nat (s - 1)) (items l))) a a'"
  using assms
proof (induction "nat (numItems l + 1 - s)" arbitrary: a l s rule: less_induct)
  case less
  let ?xs = "items l" and ?P = "same_item cmp (itemSize l) x" and ?k = "nat (s - 1)"
  have len: "int (length ?xs) = numItems l" using less.prems(2) by (rule length_items)
  have k: "?k \<le> length ?xs" "int ?k = s - 1" using less.prems(3,4,7) len by auto
  have self: "replaced M h l ?xs a a" using less.prems(1,2) by (rule replaced_refl)
  have item: "item_at h i a = Some x" using item_at_nth [of a h l M i] less.prems by simp
  have find: "ListFindItem h x s cmp a = Some (first_match ?P s (drop ?k ?xs))"
    using less.prems by (intro ListFindItem_first) auto
  note step = dup_inner.simps [of h cmp i s "numItems l" a]
  have "1 \<le> s" using less.prems by linarith
  then show ?case
  proof (cases rule: first_match_split [where P = ?P and xs = "drop ?k ?xs"])
    case none
    then have f: "filter (\<lambda>y. \<not> ?P y) (drop ?k ?xs) = drop ?k ?xs" by (simp add: filter_id_conv)
    have "dup_inner h cmp i s (numItems l) a = Some (numItems l, a)"
      using step none(1) find item by (cases "s \<le> numItems l") simp_all
    then show ?thesis using self len unfolding f append_take_drop_id by simp
  next
    case (some ys z zs)
    let ?dup = "s + int (length ys)" and ?p = "?k + length ys"
    have xs: "?xs = take ?k ?xs @ ys @ z # zs" using some(1) by (metis append_take_drop_id)
    have lens: "length ?xs = ?k + length ys + 1 + length zs" using arg_cong [OF xs, of length] k(1) by simp
    have dup: "?dup \<noteq> LIST_START" "?dup \<noteq> LIST_END" "1 \<le> ?dup" "s \<le> numItems l" "nat (?dup - 1) = ?p"
      using less.prems(3,4) len lens k by (auto simp: LIST_START_def LIST_END_def)
    then have "item_index (numItems l) ?dup = Some ?p" by (simp add: item_index_def)
    then obtain a' where a': "ListRemoveItems h False ?dup (int 1) a = Some ([], a')"
      "replaced M h l (take ?p ?xs @ drop (?p + 1) ?xs) a a'"
      using remove_items [OF less.prems(1,2), of ?dup ?p 1 False] lens by auto
    then obtain l' where l': "ar_lists a' = (ar_lists a)(h := Some l')" "list_ok M l'" "itemSize l' = itemSize l"
      "items l' = take ?p ?xs @ drop (?p + 1) ?xs" unfolding replaced_def by blast
    have it': "items l' = take ?k ?xs @ ys @ zs" unfolding l'(4) by (subst (1 2) xs) (use k in simp)
    have n': "numItems l' = numItems l - 1" using length_items [OF l'(2)] len lens k unfolding it' by simp
    have "dup_inner h cmp i s (numItems l) a = dup_inner h cmp i ?dup (numItems l') a'"
      using step dup(3,4) item find some(4) a'(1) n' by (simp add: ListRemoveItem_def)
    moreover have "x = items l' ! nat (i - 1)"
    proof -
      have "nat (i - 1) < ?k" using less.prems(3,4) k by linarith
      then show ?thesis unfolding it' less.prems(6) using k(1) by (simp add: nth_append)
    qed
    moreover have "take (nat (?dup - 1)) (items l') = take ?k ?xs @ ys" "drop (nat (?dup - 1)) (items l') = zs"
      unfolding dup(5) it' using k by simp_all
    moreover have "filter (\<lambda>y. \<not> ?P y) (drop ?k ?xs) = ys @ filter (\<lambda>y. \<not> ?P y) zs"
      unfolding some(1) using some(2,3) by (simp add: filter_id_conv)
    moreover have "ar_lists a' h = Some l'" using l'(1) by simp
    moreover have "nat (numItems l' + 1 - ?dup) < nat (numItems l + 1 - s)" "?dup \<le> numItems l' + 1" "i < ?dup" "i \<le> numItems l'"
      using n' dup(4) len lens k less.prems(4) by auto
    ultimately show ?thesis
      using less.hyps [of l' ?dup a'] l'(2,3) less.prems(3) replaced_trans [OF a'(2)] by auto
  qed
qed

lemma dup_outer_keep:
  assumes "ar_lists a h = Some l" "list_ok M l" "1 \<le> i"
  shows "\<exists>a'. dup_outer h cmp i (numItems l) a = Some a' \<and>
    replaced M h l (take (nat (i - 1)) (items l) @ keep_first (same_item cmp (itemSize l)) (drop (nat (i - 1)) (items l))) a a'"
  using assms
proof (induction "nat (numItems l - i)" arbitrary: a l i rule: less_induct)
  case less
  let ?xs = "items l" and ?k = "nat (i - 1)" and ?same = "same_item cmp (itemSize l)"
  have len: "int (length ?xs) = numItems l" using less.prems(2) by (rule length_items)
  have self: "replaced M h l ?xs a a" using less.prems(1,2) by (rule replaced_refl)
  note step = dup_outer.simps [of h cmp i "numItems l" a]
  show ?case
  proof (cases "i < numItems l")
    case False
    then have "length (drop ?k ?xs) \<le> 1" using len less.prems(3) by simp
    then have "keep_first ?same (drop ?k ?xs) = drop ?k ?xs" by (cases "drop ?k ?xs") auto
    then show ?thesis using step False self by simp
  next
    case True
    then have k: "?k < length ?xs" "nat (i + 1 - 1) = Suc ?k" using len less.prems(3) by auto
    let ?x = "?xs ! ?k"
    let ?ys = "take (Suc ?k) ?xs @ filter (\<lambda>y. \<not> ?same ?x y) (drop (Suc ?k) ?xs)"
    obtain a' where a': "dup_inner h cmp i (i + 1) (numItems l) a = Some (int (length ?ys), a')" "replaced M h l ?ys a a'"
      using dup_inner_filter [OF less.prems, of "i + 1" ?x cmp] True unfolding k(2) by auto
    then obtain l' where l': "ar_lists a' = (ar_lists a)(h := Some l')" "list_ok M l'" "itemSize l' = itemSize l" "items l' = ?ys"
      unfolding replaced_def by blast
    have n': "numItems l' = int (length ?ys)" using length_items [OF l'(2)] l'(4) by simp
    have "length ?ys \<le> length ?xs"
      by (metis append_take_drop_id length_append add_left_mono length_filter_le)
    then have shorter: "numItems l' \<le> numItems l" using n' len by simp
    have "dup_outer h cmp i (numItems l) a = dup_outer h cmp (i + 1) (numItems l') a'"
      using step True a'(1) n' by simp
    moreover have "ar_lists a' h = Some l'" "nat (numItems l' - (i + 1)) < nat (numItems l - i)" "1 \<le> i + 1"
      using l'(1) shorter True less.prems(3) by auto
    moreover have "take (Suc ?k) (items l') = take ?k ?xs @ [?x]"
      "drop (Suc ?k) (items l') = filter (\<lambda>y. \<not> ?same ?x y) (drop (Suc ?k) ?xs)"
      unfolding l'(4) using k(1) by (simp_all add: take_Suc_conv_app_nth)
    moreover have "keep_first ?same (drop ?k ?xs) = ?x # keep_first ?same (filter (\<lambda>y. \<not> ?same ?x y) (drop (Suc ?k) ?xs))"
      unfolding Cons_nth_drop_Suc [OF k(1), symmetric] by simp
    ultimately show ?thesis
      using less.hyps [of l' "i + 1" a'] l'(2,3) replaced_trans [OF a'(2)] unfolding k(2) by auto
  qed
qed

text \<open>An insertion into a full list moves it to the memory that \<open>realloc\<close> returns.\<close>

lemma insert_now_ptr: "insert_now src pos k l = Some l' \<Longrightarrow> ls_ptr l' = ls_ptr l"
  by (auto simp: insert_now_def put_block_def Let_def Option.bind_eq_Some_conv split: if_splits)

lemma insert_moves:
  assumes l: "ar_lists a h = Some l" "list_ok M l" and g: "gives_items (itemSize l) src [y]"
    and max: "length (items l) < M" and full: "numItems l = listSize l" and mem: "fst (malloc_next a) \<noteq> NULL"
  shows "\<exists>a' l'. ListInsertItem h src LIST_END a = Some (1, a') \<and> ar_lists a' = (ar_lists a)(h := Some l') \<and>
    list_ok M l' \<and> ls_ptr l' = fst (malloc_next a)"
proof -
  have n0: "0 \<le> numItems l" using l(2) by (simp add: list_ok_def)
  then have pos: "insert_index (numItems l) LIST_END = Some (nat (numItems l))" by (simp add: insert_index_def)
  have q: "(if LIST_END = numItems l + 1 then LIST_END else LIST_END) = LIST_END" by simp
  have "grows M 1 h l a (ExpandListSpace h (- int 1) a)"
    using full max length_items [OF l(2)] by (intro expand_grows [OF l]) auto
  then obtain a1 l1 zs where a1: "ExpandListSpace h (- 1) a = Some (1, a1)" "ar_lists a1 = (ar_lists a)(h := Some l1)" "list_ok M l1"
    "itemSize l1 = itemSize l" "numItems l1 = numItems l" "numItems l + 1 \<le> listSize l1" "itemList l1 = itemList l @ zs"
    "ls_ptr l1 = fst (malloc_next a)" using mem unfolding grows_def by auto
  obtain l2 where l2: "insert_now src LIST_END 1 l1 = Some l2" "list_ok M l2"
    using insert_now_ok [OF l(2) a1(3-5,7) g _ _ insert_index_end(1,2) [OF n0 pos, unfolded q]] max a1(6) by auto
  have "ListInsertItem h src LIST_END a = Some (1, put_list h l2 a1)"
    using ListInsertItems_now(2) [OF l(1) n0 pos, of 1 a1 l1 src l2] a1 l2 full unfolding q by (simp add: ListInsertItem_def)
  then show ?thesis using l2 a1 insert_now_ptr [OF l2(1)] by auto
qed

section \<open>The interface\<close>

datatype 'i list_op = Insert nat 'i | Delete nat

fun spec_step :: "'i list_op \<times> bool \<Rightarrow> 'i list \<Rightarrow> 'i list" where
  "spec_step (op, False) xs = xs"
| "spec_step (Insert p x, True) xs = take p xs @ x # drop p xs"
| "spec_step (Delete p, True) xs = take p xs @ drop (Suc p) xs"

text \<open>
  A sequence of at most \<open>limit\<close> items. The operations are defined in the ranges of positions given, and an
  insertion that reports failure has changed nothing; \<open>plenty n\<close> says that \<open>n\<close> insertions do not fail.
\<close>

locale item_list =
  fixes ok :: "'s \<Rightarrow> bool" and contents :: "'s \<Rightarrow> 'i list" and valid :: "'i \<Rightarrow> bool" and limit :: nat
    and insert_at :: "nat \<Rightarrow> 'i \<Rightarrow> 's \<Rightarrow> (bool \<times> 's) option" and delete_at :: "nat \<Rightarrow> 's \<Rightarrow> 's option"
    and read_at :: "nat \<Rightarrow> 's \<Rightarrow> 'i option" and plenty :: "nat \<Rightarrow> 's \<Rightarrow> bool"
  assumes insert_law: "ok s \<Longrightarrow> valid x \<Longrightarrow> p \<le> length (contents s) \<Longrightarrow> length (contents s) < limit \<Longrightarrow>
      \<exists>r s'. insert_at p x s = Some (r, s') \<and> ok s' \<and> contents s' = spec_step (Insert p x, r) (contents s) \<and>
        (\<forall>n. plenty (Suc n) s \<longrightarrow> r \<and> plenty n s')"
    and delete_law: "ok s \<Longrightarrow> p < length (contents s) \<Longrightarrow>
      \<exists>s'. delete_at p s = Some s' \<and> ok s' \<and> contents s' = spec_step (Delete p, True) (contents s) \<and>
        (\<forall>n. plenty n s \<longrightarrow> plenty n s')"
    and plenty_less: "plenty (Suc n) s \<Longrightarrow> plenty n s"
    and read_law: "ok s \<Longrightarrow> p < length (contents s) \<Longrightarrow> read_at p s = Some (contents s ! p)"
begin

text \<open>Calls one after the other, with nothing checked before a call: what each returned, and the state.\<close>

definition step :: "'i list_op \<Rightarrow> 's \<Rightarrow> (bool \<times> 's) option" where
  "step op s =
     (case op of Insert p x \<Rightarrow> insert_at p x s | Delete p \<Rightarrow> map_option (Pair True) (delete_at p s))"

primrec run :: "'i list_op list \<Rightarrow> 's \<Rightarrow> (bool list \<times> 's) option" where
  "run [] s = Some ([], s)"
| "run (op # ops) s =
     (case step op s of None \<Rightarrow> None
      | Some (r, s) \<Rightarrow> map_option (\<lambda>(rs, s). (r # rs, s)) (run ops s))"

text \<open>The positions that a list has at the moment of a call, and a run that keeps to them.\<close>

definition in_range :: "'i list_op \<Rightarrow> 'i list \<Rightarrow> bool" where
  "in_range op xs = (case op of Insert p x \<Rightarrow> p \<le> length xs \<and> length xs < limit \<and> valid x | Delete p \<Rightarrow> p < length xs)"

primrec all_in_range :: "'i list_op list \<Rightarrow> 'i list \<Rightarrow> bool" where
  "all_in_range [] xs = True"
| "all_in_range (op # ops) xs = (in_range op xs \<and> all_in_range ops (spec_step (op, True) xs))"

lemma step_ok:
  assumes "ok s" "in_range op (contents s)"
  shows "\<exists>r s'. step op s = Some (r, s') \<and> ok s' \<and> contents s' = spec_step (op, r) (contents s) \<and>
    (\<forall>n. plenty (Suc n) s \<longrightarrow> r \<and> plenty n s')"
proof (cases op)
  case (Insert p x)
  then show ?thesis using insert_law [OF assms(1), of x p] assms(2) by (auto simp: step_def in_range_def)
next
  case (Delete p)
  then show ?thesis using delete_law [OF assms(1), of p] assms(2) plenty_less
    by (intro exI [of _ True]) (auto simp: step_def in_range_def)
qed

text \<open>
  Any run of calls is defined up to the first one that is out of range, and what it leaves is given by
  which insertions succeeded.
\<close>

lemma run_ok:
  "ok s \<Longrightarrow> \<exists>k rs s'. k \<le> length ops \<and> run (take k ops) s = Some (rs, s') \<and> length rs = k \<and> ok s' \<and>
     contents s' = fold spec_step (zip ops rs) (contents s) \<and>
     (k < length ops \<longrightarrow> \<not> in_range (ops ! k) (contents s'))"
proof (induction ops arbitrary: s)
  case (Cons op ops)
  show ?case
  proof (cases "in_range op (contents s)")
    case True
    obtain r s1 where s1: "step op s = Some (r, s1)" "ok s1" "contents s1 = spec_step (op, r) (contents s)"
      using step_ok [OF Cons.prems True] by blast
    obtain k rs s' where "k \<le> length ops" "run (take k ops) s1 = Some (rs, s')" "length rs = k" "ok s'"
      "contents s' = fold spec_step (zip ops rs) (contents s1)" "k < length ops \<longrightarrow> \<not> in_range (ops ! k) (contents s')"
      using Cons.IH [OF s1(2)] by blast
    then show ?thesis using s1 by (intro exI [of _ "Suc k"] exI [of _ "r # rs"] exI [of _ s']) simp
  next
    case False
    then show ?thesis using Cons.prems by (intro exI [of _ 0] exI [of _ "[]"] exI [of _ s]) simp
  qed
qed simp

text \<open>With enough memory a run that keeps to the positions is what its operations mean.\<close>

definition ideal :: "'i list_op \<Rightarrow> 'i list \<Rightarrow> 'i list" where
  "ideal op xs = spec_step (op, True) xs"

lemma run_plenty:
  "ok s \<Longrightarrow> plenty (length ops) s \<Longrightarrow> all_in_range ops (contents s) \<Longrightarrow>
   \<exists>s'. run ops s = Some (replicate (length ops) True, s') \<and> ok s' \<and> contents s' = fold ideal ops (contents s)"
proof (induction ops arbitrary: s)
  case (Cons op ops)
  have "in_range op (contents s)" using Cons.prems(3) by simp
  then obtain s1 where s1: "step op s = Some (True, s1)" "ok s1" "contents s1 = ideal op (contents s)" "plenty (length ops) s1"
    using step_ok [OF Cons.prems(1), of op] Cons.prems(2) unfolding ideal_def by (metis length_Cons)
  then have "all_in_range ops (contents s1)" using Cons.prems(3) by (simp add: ideal_def)
  then show ?case using Cons.IH [OF s1(2,4)] s1(1,3) by auto
qed simp

text \<open>Items appended one by one stand in their order, less those refused.\<close>

primrec append_all :: "'i list \<Rightarrow> 's \<Rightarrow> (bool list \<times> 's) option" where
  "append_all [] s = Some ([], s)"
| "append_all (x # xs) s =
     (case insert_at (length (contents s)) x s of None \<Rightarrow> None
      | Some (r, s) \<Rightarrow> map_option (\<lambda>(rs, s). (r # rs, s)) (append_all xs s))"

lemma append_all_ok:
  "ok s \<Longrightarrow> \<forall>x \<in> set xs. valid x \<Longrightarrow> length (contents s) + length xs \<le> limit \<Longrightarrow>
   \<exists>rs s'. append_all xs s = Some (rs, s') \<and> length rs = length xs \<and> ok s' \<and>
     contents s' = contents s @ map fst (filter snd (zip xs rs))"
proof (induction xs arbitrary: s)
  case (Cons x xs)
  obtain r s1 where s1: "insert_at (length (contents s)) x s = Some (r, s1)" "ok s1"
    "contents s1 = contents s @ (if r then [x] else [])"
    using insert_law [OF Cons.prems(1), of x "length (contents s)"] Cons.prems(2,3) by (cases "insert_at (length (contents s)) x s") fastforce+
  obtain rs s' where "append_all xs s1 = Some (rs, s')" "length rs = length xs" "ok s'"
    "contents s' = contents s1 @ map fst (filter snd (zip xs rs))"
    using Cons.IH [OF s1(2)] Cons.prems(2,3) s1(3) by (cases r) auto
  then show ?case using s1 by auto
qed simp

end

definition list_holds :: "nat \<Rightarrow> int \<Rightarrow> nat \<Rightarrow> arena \<Rightarrow> bool" where
  "list_holds M sz h a \<longleftrightarrow> (case ar_lists a h of Some l \<Rightarrow> list_ok M l \<and> itemSize l = sz | None \<Rightarrow> False)"

definition contents_of :: "nat \<Rightarrow> arena \<Rightarrow> byte list list" where
  "contents_of h a = (case ar_lists a h of Some l \<Rightarrow> items l | None \<Rightarrow> [])"

definition insert_at :: "nat \<Rightarrow> nat \<Rightarrow> byte list \<Rightarrow> arena \<Rightarrow> (bool \<times> arena) option" where
  "insert_at h p x a = map_option (\<lambda>(r, a). (r \<noteq> 0, a)) (ListInsertItem h (Some x) (int p + 1) a)"

definition delete_at :: "nat \<Rightarrow> nat \<Rightarrow> arena \<Rightarrow> arena option" where
  "delete_at h p a = map_option snd (ListRemoveItem h False (int p + 1) a)"

definition read_at :: "nat \<Rightarrow> nat \<Rightarrow> arena \<Rightarrow> byte list option" where
  "read_at h p a = ListGetItem h (int p + 1) a"

definition plenty :: "nat \<Rightarrow> arena \<Rightarrow> bool" where
  "plenty n a \<longleftrightarrow> n \<le> length (ar_mallocs a) \<and> NULL \<notin> set (take n (ar_mallocs a))"

text \<open>What the operations take from the allocator: one block at most.\<close>

lemma malloc_next_tl: "malloc_next a = (p, a') \<Longrightarrow> ar_mallocs a' = tl (ar_mallocs a)"
  by (auto simp: malloc_next_def split: list.splits)

lemma SetHandleSize_mallocs:
  "SetHandleSize h n a = Some (r, a') \<Longrightarrow> ar_mallocs a' \<in> {ar_mallocs a, tl (ar_mallocs a)}"
  by (auto simp: SetHandleSize_def put_list_def Let_def split: Option.bind_splits if_splits prod.splits dest: malloc_next_tl)

lemma ExpandListSpace_mallocs:
  "ExpandListSpace h n a = Some (r, a') \<Longrightarrow> ar_mallocs a' \<in> {ar_mallocs a, tl (ar_mallocs a)}"
  by (auto simp: ExpandListSpace_def put_list_def split: Option.bind_splits if_splits dest!: SetHandleSize_mallocs)

lemma ListInsertItem_mallocs:
  assumes "ListInsertItem h src pos a = Some (r, a')"
  shows "ar_mallocs a' \<in> {ar_mallocs a, tl (ar_mallocs a)}"
proof -
  obtain l where l: "ar_lists a h = Some l"
    using assms by (cases "ar_lists a h") (simp_all add: ListInsertItem_def ListInsertItems_def)
  define g where "g = (if listSize l \<le> numItems l then ExpandListSpace h (- 1) a else Some (1, a))"
  have "a' = a \<or> (\<exists>r1 a1. g = Some (r1, a1) \<and> ar_mallocs a' = ar_mallocs a1)"
    using assms unfolding ListInsertItem_def ListInsertItems_def Let_def put_list_def l bind.bind_lunit g_def [symmetric]
    by (auto simp: Option.bind_eq_Some_conv split: if_splits)
  then show ?thesis by (auto simp: g_def split: if_splits dest: ExpandListSpace_mallocs)
qed

lemma plenty_malloc: "plenty (Suc n) a \<Longrightarrow> fst (malloc_next a) \<noteq> NULL"
  by (cases "ar_mallocs a") (auto simp: plenty_def malloc_next_def)

lemma plenty_Suc:
  assumes "plenty (Suc n) a" "ar_mallocs a' \<in> {ar_mallocs a, tl (ar_mallocs a)}"
  shows "plenty n a'"
proof (cases "ar_mallocs a")
  case (Cons p ps)
  have "set (take n (p # ps)) \<subseteq> set (take (Suc n) (p # ps))" by (rule set_take_subset_set_take) simp
  then show ?thesis using assms Cons by (auto simp: plenty_def)
qed (use assms in \<open>simp add: plenty_def\<close>)

lemma list_holdsE: "list_holds M sz h a \<Longrightarrow> \<exists>l. ar_lists a h = Some l \<and> list_ok M l \<and> itemSize l = sz \<and> contents_of h a = items l"
  by (auto simp: list_holds_def contents_of_def split: option.splits)

lemma replaced_holds: "replaced M h l xs a a' \<Longrightarrow> list_holds M (itemSize l) h a' \<and> contents_of h a' = xs"
  by (auto simp: replaced_def list_holds_def contents_of_def)

lemma insert_one:
  assumes l: "ar_lists a h = Some l" "list_ok M l" and g: "gives_items (itemSize l) src [y]"
    and max: "length (items l) < M" and pos: "insert_index (numItems l) pos = Some p"
  shows "(\<exists>a'. ListInsertItem h src pos a = Some (0, a') \<and> ar_lists a' = ar_lists a \<and> fst (malloc_next a) = NULL) \<or>
    (\<exists>a'. ListInsertItem h src pos a = Some (1, a') \<and> replaced M h l (take p (items l) @ y # drop p (items l)) a a')"
proof -
  have "numItems l + 1 \<le> listSize l \<or> numItems l = listSize l" using l(2) by (auto simp: list_ok_def)
  then show ?thesis using insert_items [OF l g, of pos p] max pos by (simp add: ListInsertItem_def)
qed

interpretation lists: item_list "list_holds M sz h" "contents_of h" "\<lambda>x. int (length x) = sz" M "insert_at h" "delete_at h" "read_at h" plenty
  for M sz h
proof
  fix s p and x :: "byte list"
  assume s: "list_holds M sz h s" and p: "p \<le> length (contents_of h s)" and max: "length (contents_of h s) < M"
    and x: "int (length x) = sz"
  obtain l where l: "ar_lists s h = Some l" "list_ok M l" "itemSize l = sz" "contents_of h s = items l"
    using list_holdsE [OF s] by blast
  have "insert_index (numItems l) (int p + 1) = Some p"
    using p length_items [OF l(2)] unfolding l(4) by (auto simp: insert_index_def LIST_END_def LIST_START_def)
  moreover have "gives_items (itemSize l) (Some x) [x]" using x l(3) by (auto simp: gives_items_def)
  ultimately consider a' where "ListInsertItem h (Some x) (int p + 1) s = Some (0, a')" "ar_lists a' = ar_lists s"
      "fst (malloc_next s) = NULL"
    | a' where "ListInsertItem h (Some x) (int p + 1) s = Some (1, a')" "replaced M h l (take p (items l) @ x # drop p (items l)) s a'"
    using insert_one [OF l(1,2)] max unfolding l(4) by blast
  then show "\<exists>r s'. insert_at h p x s = Some (r, s') \<and> list_holds M sz h s' \<and>
      contents_of h s' = spec_step (Insert p x, r) (contents_of h s) \<and> (\<forall>n. plenty (Suc n) s \<longrightarrow> r \<and> plenty n s')"
  proof cases
    case 1
    then have "list_holds M sz h a' = list_holds M sz h s" "contents_of h a' = contents_of h s"
      by (simp_all add: list_holds_def contents_of_def)
    then show ?thesis
      using 1(1,3) s plenty_malloc [of _ s] by (intro exI [of _ False] exI [of _ a']) (auto simp: insert_at_def)
  next
    case 2
    then show ?thesis
      using replaced_holds [OF 2(2)] l(3,4) plenty_Suc [OF _ ListInsertItem_mallocs [OF 2(1)]]
      by (intro exI [of _ True] exI [of _ a']) (simp add: insert_at_def)
  qed
next
  fix s p
  assume s: "list_holds M sz h s" and p: "p < length (contents_of h s)"
  obtain l where l: "ar_lists s h = Some l" "list_ok M l" "itemSize l = sz" "contents_of h s = items l"
    using list_holdsE [OF s] by blast
  have idx: "item_index (numItems l) (int p + 1) = Some p" "p + 1 \<le> length (items l)"
    using p unfolding l(4) by (auto simp: item_index_def LIST_END_def LIST_START_def)
  obtain a' where "ListRemoveItem h False (int p + 1) s = Some ([], a')"
    "replaced M h l (take p (items l) @ drop (p + 1) (items l)) s a'" "ar_mallocs a' = ar_mallocs s"
    using remove_items [OF l(1,2) idx, of False] by (auto simp: ListRemoveItem_def)
  then show "\<exists>s'. delete_at h p s = Some s' \<and> list_holds M sz h s' \<and>
      contents_of h s' = spec_step (Delete p, True) (contents_of h s) \<and> (\<forall>n. plenty n s \<longrightarrow> plenty n s')"
    using replaced_holds l(3,4) by (fastforce simp: delete_at_def plenty_def)
  obtain rest where st: "stores l (items l) rest" using stores_items [OF l(2)] by blast
  have "take 1 (drop p (items l)) = [items l ! p]" using idx(2) by (simp add: Cons_nth_drop_Suc [symmetric])
  then have "get_block l (ITEMPTR l (int p)) (itemSize l * int 1) = Some (items l ! p)"
    using get_items [OF st _ idx(2)] l(2) by (simp add: list_ok_def)
  then show "read_at h p s = Some (contents_of h s ! p)"
    using l by (simp add: read_at_def ListGetItem_def ListGetItems_def LIST_START_def LIST_END_def Let_def)
next
  fix n s assume "plenty (Suc n) s"
  then show "plenty n s" by (rule plenty_Suc) simp
qed

section \<open>Properties\<close>

lemma length_resize [simp]: "length (resize n xs) = n"
  by (simp add: resize_def)

lemma ListCreate_ok:
  assumes "malloc_next a = (p, a1)" "malloc_next a1 = (h, a2)" "p \<noteq> NULL" "h \<noteq> NULL"
    and "0 < sz" "(3 * int M + 5) * (sz + 110) + 28 < 2 ^ 31"
  shows "\<exists>a'. ListCreate junk sz a = (h, a') \<and> list_holds M sz h a' \<and> contents_of h a' = []"
  using assms
  by (auto simp: ListCreate_def NewHandle_def list_holds_def contents_of_def list_ok_def items_def sizeof_ListStruct_def
      itemList_offset_def)

text \<open>Lists for the witnesses, of three items of two bytes, and of one item with room for two more.\<close>

definition list0 :: ListStruct where
  "list0 = \<lparr>ls_ptr = 0x1000, ls_size = 34, signature = 0x4C495354, percentIncrease = 10, minNumItemsIncrease = 4,
     listSize = 3, itemSize = 2, numItems = 3, itemList = [1, 2, 3, 4, 1, 2, 0, 0, 0, 0]\<rparr>"

definition arena0 :: arena where
  "arena0 = \<lparr>ar_lists = [0x2000 \<mapsto> list0], ar_mallocs = [0x3000, 0x4000]\<rparr>"

lemma list0_ok: "ar_lists arena0 0x2000 = Some list0" "list_ok 9 list0" "items list0 = [[1, 2], [3, 4], [1, 2]]"
proof -
  show "ar_lists arena0 0x2000 = Some list0" by (simp add: arena0_def)
  show "list_ok 9 list0" by (simp add: list_ok_def list0_def itemList_offset_def)
  show "items list0 = [[1, 2], [3, 4], [1, 2]]"
    by (rule items_stores [of _ _ "[0, 0, 0, 0]"]) (simp add: stores_def list0_def)
qed

lemma list_holds0: "list_holds 9 2 0x2000 arena0" "contents_of 0x2000 arena0 = [[1, 2], [3, 4], [1, 2]]"
  using list0_ok by (simp_all add: list_holds_def contents_of_def list0_def)

text \<open>
  C24. A list behaves as a sequence. A run of calls that insert or remove one item is defined up to the
  first call whose position the list does not have at that moment (or that would go over \<open>M\<close> items): it
  never reads or writes outside the block, whatever \<open>malloc\<close> and \<open>realloc\<close> return, and the list
  afterwards holds what the calls mean in turn, less the insertions that reported failure. A run that
  keeps to the positions, while memory lasts, is made to its end, each call succeeds, and the list holds
  what the run gives on a sequence.
\<close>

theorem list_runs:
  assumes "list_holds M sz h a"
  shows "(\<exists>k rs a'. k \<le> length ops \<and> lists.run h (take k ops) a = Some (rs, a') \<and> length rs = k \<and>
      list_holds M sz h a' \<and> contents_of h a' = fold spec_step (zip ops rs) (contents_of h a) \<and>
      (k < length ops \<longrightarrow> \<not> lists.in_range sz M (ops ! k) (contents_of h a'))) \<and>
    (plenty (length ops) a \<and> lists.all_in_range sz M ops (contents_of h a) \<longrightarrow>
      (\<exists>a'. lists.run h ops a = Some (replicate (length ops) True, a') \<and> list_holds M sz h a' \<and>
        contents_of h a' = fold (\<lambda>op. spec_step (op, True)) ops (contents_of h a)))"
  using lists.run_ok [OF assms, of ops] lists.run_plenty [OF assms, of ops] unfolding lists.ideal_def by blast

theorem list_runs_witness:
  "\<exists>rs a'. lists.run 0x2000 [Insert 0 [9, 9], Delete 1] arena0 = Some (rs, a') \<and>
     contents_of 0x2000 a' = [[9, 9], [3, 4], [1, 2]]"
proof -
  let ?ops = "[Insert 0 [9, 9], Delete 1] :: byte list list_op list"
  have "plenty (length ?ops) arena0" by (simp add: plenty_def arena0_def)
  moreover have "lists.all_in_range 2 9 ?ops [[1, 2], [3, 4], [1, 2]]"
    unfolding lists.all_in_range.simps lists.in_range_def by simp
  ultimately obtain a' where "lists.run 0x2000 ?ops arena0 = Some (replicate (length ?ops) True, a')"
    "contents_of 0x2000 a' = fold (\<lambda>op. spec_step (op, True)) ?ops [[1, 2], [3, 4], [1, 2]]"
    using list_runs [OF list_holds0(1), of ?ops] unfolding list_holds0(2) by blast
  then show ?thesis by auto
qed

text \<open>
  \<open>ListRemoveDuplicates\<close> terminates and keeps, in their order, the first item of each class of items that
  compare equal; with raw comparison (NULL) that is each different item once. Nothing is accessed outside the
  list and other lists do not change.
\<close>

theorem list_duplicates:
  assumes "ar_lists a h = Some l" "list_ok M l"
  shows "(\<exists>a'. ListRemoveDuplicates h cmp a = Some a' \<and>
      replaced M h l (keep_first (\<lambda>x y. item_cmp cmp (itemSize l) x y = 0) (items l)) a a') \<and>
    (\<exists>a'. ListRemoveDuplicates h None a = Some a' \<and> replaced M h l (rev (remdups (rev (items l)))) a a')"
proof -
  have len: "length x = nat (itemSize l)" if "x \<in> set (items l)" for x using item_length [OF assms(2) that] by simp
  have "item_cmp None (itemSize l) x y = 0 \<longleftrightarrow> x = y" if "x \<in> set (items l)" "y \<in> set (items l)" for x y
    using len [OF that(1)] len [OF that(2)] by (simp add: item_cmp_def ListMemBlockCmp_def block_cmp_eq)
  then have raw: "keep_first (same_item None (itemSize l)) (items l) = rev (remdups (rev (items l)))"
    unfolding keep_first_remdups [symmetric] by (rule keep_first_cong)
  show ?thesis
    using dup_outer_keep [OF assms, of 1 cmp] dup_outer_keep [OF assms, of 1 None] assms(1) raw
    by (simp add: ListRemoveDuplicates_def ListNumItems_def)
qed

theorem list_duplicates_witness:
  "\<exists>a'. ListRemoveDuplicates 0x2000 None arena0 = Some a' \<and> contents_of 0x2000 a' = [[1, 2], [3, 4]]"
proof -
  obtain a' where "ListRemoveDuplicates 0x2000 None arena0 = Some a'"
    "replaced 9 0x2000 list0 (rev (remdups (rev (items list0)))) arena0 a'"
    using list_duplicates [OF list0_ok(1,2)] by blast
  then show ?thesis using replaced_holds unfolding list0_ok(3) by fastforce
qed

text \<open>
  \<open>ListInsertItems\<close> only grows a list that is full: several items appended to a list that has room left, but
  not for all of them, are written past the end of its block (unless the excess fits into the 4 spare bytes).
\<close>

theorem several_items_overrun:
  assumes l: "ar_lists a h = Some l" "list_ok M l" and room: "numItems l < listSize l"
    and many: "\<forall>y \<in> set ys. int (length y) = itemSize l" "(numItems l + int (length ys) - listSize l) * itemSize l > 4"
  shows "ListInsertItems h (Some (concat ys)) LIST_END (int (length ys)) a = None"
proof -
  have sz: "0 < itemSize l" "0 \<le> numItems l" "int (length (itemList l)) = listSize l * itemSize l + 4"
    using l(2) by (simp_all add: list_ok_def)
  have "length (concat ys) = length ys * nat (itemSize l)" using many(1) by (intro length_concat_const) auto
  then have len: "int (length (concat ys)) = int (length ys) * itemSize l" using sz(1) by simp
  have new: "new_items l (Some (concat ys)) (int (length ys)) = Some (concat ys)"
    using many(1) by (intro new_items_concat [OF _ sz(1)]) (simp add: gives_items_def)
  have over: "numItems l * itemSize l + int (length (concat ys)) > int (length (itemList l))"
    unfolding len sz(3) using many(2) by (simp add: algebra_simps)
  moreover have "numItems l * itemSize l \<le> listSize l * itemSize l" using room sz(1) by (intro mult_right_mono) auto
  ultimately have "length (concat ys) \<noteq> 0" unfolding sz(3) by linarith
  then have "put_block l (ITEMPTR l (numItems l)) (concat ys) = None"
    using over by (simp add: put_block_def ITEMPTR_def mult.commute)
  then show ?thesis
    using l(1) room new sz(2) by (simp add: ListInsertItems_def LIST_END_def LIST_START_def Let_def)
qed

definition list1 :: ListStruct where
  "list1 = list0\<lparr>numItems := 1\<rparr>"

theorem several_items_overrun_witness:
  "ListInsertItems 1 (Some [1, 2, 3, 4, 5, 6, 7, 8, 9, 10]) LIST_END 5 (arena0\<lparr>ar_lists := [1 \<mapsto> list1]\<rparr>) = None"
proof -
  have "list_ok 9 list1" by (simp add: list_ok_def list1_def list0_def itemList_offset_def)
  then show ?thesis
    using several_items_overrun [of "arena0\<lparr>ar_lists := [1 \<mapsto> list1]\<rparr>" 1 list1 9 "[[1, 2], [3, 4], [5, 6], [7, 8], [9, 10]]"]
    by (simp add: list1_def list0_def)
qed

end
