(* ===== verification/Devices.thy ===== *)
theory Devices imports Lists Console Env NetHdr begin

text \<open>
  The console devices: the table of devices of \<open>common/devices.c\<close>, kept in a list of \<open>common/lists.c\<close>, the
  standard files and the input and output functions of \<open>common/console.c\<close>, and the command \<open>coninfo\<close>
  (\<open>common/cmd_console.c\<close>).

  A device is a structure of 52 bytes in the block of the list; \<open>stdio_devices\<close> holds the addresses of three of
  them. An address that does not lie in the block has no device: following it is \<open>None\<close>, as is calling a NULL
  pointer. The functions of the drivers are known by their addresses; what a call does to the devices is an argument,
  the record \<open>drivers\<close>. \<open>printf\<close> formats with \<open>sprintf\<close> of theory \<open>Vsprintf\<close>.
\<close>

section \<open>Devices\<close>

definition DEV_FLAGS_INPUT :: u32 where "DEV_FLAGS_INPUT = 0x00000001"
definition DEV_FLAGS_OUTPUT :: u32 where "DEV_FLAGS_OUTPUT = 0x00000002"
definition DEV_FLAGS_SYSTEM :: u32 where "DEV_FLAGS_SYSTEM = 0x80000000"

definition MAX_FILES :: int where "MAX_FILES = 3"
definition CFG_PBSIZE :: nat where "CFG_PBSIZE = CFG_CBSIZE + 9 + 16"

record device =
  dv_flags :: u32
  dv_ext :: u32
  dv_name :: "byte list"
  dv_start :: u32
  dv_stop :: u32
  dv_putc :: u32
  dv_puts :: u32
  dv_tstc :: u32
  dv_getc :: u32
  dv_priv :: u32

definition sizeof_device :: int where "sizeof_device = 52"
definition name_offset :: nat where "name_offset = 8"

definition encode :: "device \<Rightarrow> byte list" where
  "encode d = be32 (dv_flags d) @ be32 (dv_ext d) @ dv_name d @
     concat (map be32 [dv_start d, dv_stop d, dv_putc d, dv_puts d, dv_tstc d, dv_getc d, dv_priv d])"

definition field :: "nat \<Rightarrow> byte list \<Rightarrow> u32" where
  "field off xs = word_of_bytes (take 4 (drop off xs))"

definition decode :: "byte list \<Rightarrow> device" where
  "decode xs = \<lparr>dv_flags = field 0 xs, dv_ext = field 4 xs, dv_name = take 16 (drop name_offset xs),
     dv_start = field 24 xs, dv_stop = field 28 xs, dv_putc = field 32 xs, dv_puts = field 36 xs,
     dv_tstc = field 40 xs, dv_getc = field 44 xs, dv_priv = field 48 xs\<rparr>"

text \<open>The string in a character array.\<close>

definition c_string :: "byte list \<Rightarrow> byte list option" where
  "c_string xs = (if 0 \<in> set xs then Some (takeWhile (\<lambda>b. b \<noteq> 0) xs) else None)"

section \<open>State\<close>

record 'w drivers =
  fn0 :: "u32 \<Rightarrow> 'w \<Rightarrow> int \<times> 'w"
  fn_char :: "u32 \<Rightarrow> byte \<Rightarrow> 'w \<Rightarrow> 'w"
  fn_str :: "u32 \<Rightarrow> byte list \<Rightarrow> 'w \<Rightarrow> 'w"
  serial_getc :: u32
  serial_tstc :: u32
  serial_putc :: u32
  serial_puts :: u32
  serial_printf :: u32
  std_printf :: u32

record jumptable =
  XF_getc :: u32
  XF_tstc :: u32
  XF_putc :: u32
  XF_puts :: u32
  XF_printf :: u32

record 'w console =
  co_arena :: arena
  devlist :: nat
  stdio_devices :: "nat \<Rightarrow> int"
  have_console :: bool
  GD_FLG_DEVINIT :: bool
  GD_FLG_SILENT :: bool
  co_jt :: jumptable
  ctrlc_disabled :: int
  ctrlc_was_pressed :: int
  co_world :: 'w

definition stdin :: int where "stdin = 0"
definition stdout :: int where "stdout = 1"
definition stderr :: int where "stderr = 2"

text \<open>Following a pointer to a device, and calling a function by its address.\<close>

definition device_bytes :: "'w console \<Rightarrow> int \<Rightarrow> byte list option" where
  "device_bytes st dev = do {
     l \<leftarrow> ar_lists (co_arena st) (devlist st);
     get_block l (dev - int (ls_ptr l + itemList_offset)) sizeof_device }"

definition device_at :: "'w console \<Rightarrow> int \<Rightarrow> device option" where
  "device_at st dev = map_option decode (device_bytes st dev)"

definition name_at :: "'w console \<Rightarrow> int \<Rightarrow> byte list option" where
  "name_at st dev = do { xs \<leftarrow> device_bytes st dev; c_string (drop name_offset xs) }"

definition call0 :: "'w drivers \<Rightarrow> u32 \<Rightarrow> 'w console \<Rightarrow> (int \<times> 'w console) option" where
  "call0 dr f st =
     (if f = 0 then None else case fn0 dr f (co_world st) of (r, w) \<Rightarrow> Some (r, st\<lparr>co_world := w\<rparr>))"

definition call_char :: "'w drivers \<Rightarrow> u32 \<Rightarrow> byte \<Rightarrow> 'w console \<Rightarrow> 'w console option" where
  "call_char dr f c st = (if f = 0 then None else Some (st\<lparr>co_world := fn_char dr f c (co_world st)\<rparr>))"

definition call_str :: "'w drivers \<Rightarrow> u32 \<Rightarrow> byte list \<Rightarrow> 'w console \<Rightarrow> 'w console option" where
  "call_str dr f s st = (if f = 0 then None else Some (st\<lparr>co_world := fn_str dr f s (co_world st)\<rparr>))"

section \<open>Input and output\<close>

text \<open>A negative file number indexes \<open>stdio_devices\<close> out of its bounds.\<close>

definition stdio_device :: "int \<Rightarrow> 'w console \<Rightarrow> device option" where
  "stdio_device file st = (if 0 \<le> file then device_at st (stdio_devices st (nat file)) else None)"

definition fgetc :: "'w drivers \<Rightarrow> int \<Rightarrow> 'w console \<Rightarrow> (int \<times> 'w console) option" where
  "fgetc dr file st =
     (if file < MAX_FILES then do { d \<leftarrow> stdio_device file st; call0 dr (dv_getc d) st } else Some (-1, st))"

definition ftstc :: "'w drivers \<Rightarrow> int \<Rightarrow> 'w console \<Rightarrow> (int \<times> 'w console) option" where
  "ftstc dr file st =
     (if file < MAX_FILES then do { d \<leftarrow> stdio_device file st; call0 dr (dv_tstc d) st } else Some (-1, st))"

definition fputc :: "'w drivers \<Rightarrow> int \<Rightarrow> byte \<Rightarrow> 'w console \<Rightarrow> 'w console option" where
  "fputc dr file c st =
     (if file < MAX_FILES then do { d \<leftarrow> stdio_device file st; call_char dr (dv_putc d) c st } else Some st)"

definition fputs :: "'w drivers \<Rightarrow> int \<Rightarrow> byte list \<Rightarrow> 'w console \<Rightarrow> 'w console option" where
  "fputs dr file s st =
     (if file < MAX_FILES then do { d \<leftarrow> stdio_device file st; call_str dr (dv_puts d) s st } else Some st)"

definition getc :: "'w drivers \<Rightarrow> 'w console \<Rightarrow> (int \<times> 'w console) option" where
  "getc dr st = (if GD_FLG_DEVINIT st then fgetc dr stdin st else call0 dr (serial_getc dr) st)"

definition tstc :: "'w drivers \<Rightarrow> 'w console \<Rightarrow> (int \<times> 'w console) option" where
  "tstc dr st = (if GD_FLG_DEVINIT st then ftstc dr stdin st else call0 dr (serial_tstc dr) st)"

definition putc :: "'w drivers \<Rightarrow> byte \<Rightarrow> 'w console \<Rightarrow> 'w console option" where
  "putc dr c st =
     (if GD_FLG_SILENT st then Some st
      else if GD_FLG_DEVINIT st then fputc dr stdout c st else call_char dr (serial_putc dr) c st)"

definition con_puts :: "'w drivers \<Rightarrow> byte list \<Rightarrow> 'w console \<Rightarrow> 'w console option" where
  "con_puts dr s st =
     (if GD_FLG_SILENT st then Some st
      else if GD_FLG_DEVINIT st then fputs dr stdout s st else call_str dr (serial_puts dr) s st)"

text \<open>The text of \<open>printf\<close> goes through a buffer; one that is too long overruns it.\<close>

definition print_buffer :: "string \<Rightarrow> varg list \<Rightarrow> byte list option" where
  "print_buffer fmt args = do { s \<leftarrow> sprintf fmt args; if length s < CFG_PBSIZE then Some s else None }"

definition con_printf :: "'w drivers \<Rightarrow> string \<Rightarrow> varg list \<Rightarrow> 'w console \<Rightarrow> 'w console option" where
  "con_printf dr fmt args st = do { s \<leftarrow> print_buffer fmt args; con_puts dr s st }"

definition fprintf :: "'w drivers \<Rightarrow> int \<Rightarrow> string \<Rightarrow> varg list \<Rightarrow> 'w console \<Rightarrow> 'w console option" where
  "fprintf dr file fmt args st = do { s \<leftarrow> print_buffer fmt args; fputs dr file s st }"

definition do_serial_printf :: "'w drivers \<Rightarrow> string \<Rightarrow> varg list \<Rightarrow> 'w console \<Rightarrow> 'w console option" where
  "do_serial_printf dr fmt args st = do { s \<leftarrow> print_buffer fmt args; call_str dr (serial_puts dr) s st }"

definition ctrlc :: "'w drivers \<Rightarrow> 'w console \<Rightarrow> (int \<times> 'w console) option" where
  "ctrlc dr st =
     (if ctrlc_disabled st = 0 \<and> have_console st then do {
        (t, st) \<leftarrow> tstc dr st;
        if t \<noteq> 0 then do {
          (c, st) \<leftarrow> getc dr st;
          if c = 0x03 then Some (1, st\<lparr>ctrlc_was_pressed := 1\<rparr>) else Some (0, st) }
        else Some (0, st) }
      else Some (0, st))"

definition disable_ctrlc :: "int \<Rightarrow> 'w console \<Rightarrow> int \<times> 'w console" where
  "disable_ctrlc disable st = (ctrlc_disabled st, st\<lparr>ctrlc_disabled := disable\<rparr>)"

definition had_ctrlc :: "'w console \<Rightarrow> int" where
  "had_ctrlc st = ctrlc_was_pressed st"

definition clear_ctrlc :: "'w console \<Rightarrow> 'w console" where
  "clear_ctrlc st = st\<lparr>ctrlc_was_pressed := 0\<rparr>"

section \<open>The table of devices\<close>

text \<open>The result of the insertion is not looked at.\<close>

definition device_register :: "device \<Rightarrow> 'w console \<Rightarrow> (int \<times> 'w console) option" where
  "device_register dev st = do {
     (r, a) \<leftarrow> ListInsertItem (devlist st) (Some (encode dev)) LIST_END (co_arena st);
     Some (0, st\<lparr>co_arena := a\<rparr>) }"

fun find_name :: "byte list \<Rightarrow> int list \<Rightarrow> 'w console \<Rightarrow> (int \<times> int) option" where
  "find_name devname [] st = Some (-1, 0)"
| "find_name devname (i # is) st = do {
     dev \<leftarrow> ListGetPtrToItem (devlist st) i (co_arena st);
     name \<leftarrow> name_at st dev;
     if name = devname then Some (i, dev) else find_name devname is st }"

text \<open>
  The names of the assigned devices are saved in \<open>char temp_names[3][8]\<close>, one after the other, each with the 16
  bytes of the field. What is written behind the array is undefined, except for the first \<open>spare\<close> bytes.
\<close>

definition save_name :: "nat \<Rightarrow> nat \<Rightarrow> byte list \<Rightarrow> byte list \<Rightarrow> byte list option" where
  "save_name spare l name temp =
     (if 8 * l + 16 \<le> 24 + spare then Some (take (8 * l) temp @ name @ drop (8 * l + 16) temp) else None)"

fun save_names :: "nat \<Rightarrow> int \<Rightarrow> nat list \<Rightarrow> 'w console \<Rightarrow> byte list \<Rightarrow> byte list option option" where
  "save_names spare dev [] st temp = Some (Some temp)"
| "save_names spare dev (l # ls) st temp =
     (if stdio_devices st l = dev then Some None
      else do {
        d \<leftarrow> device_at st (stdio_devices st l);
        temp \<leftarrow> save_name spare l (dv_name d) temp;
        save_names spare dev ls st temp })"

fun reassign_files :: "byte list \<Rightarrow> int \<Rightarrow> nat list \<Rightarrow> 'w console \<Rightarrow> 'w console option" where
  "reassign_files temp dev [] st = Some st"
| "reassign_files temp dev (l # ls) st = do {
     name \<leftarrow> name_at st dev;
     saved \<leftarrow> c_string (drop (8 * l) temp);
     reassign_files temp dev ls
       (if name = saved then st\<lparr>stdio_devices := (stdio_devices st)(l := dev)\<rparr> else st) }"

fun reassign :: "byte list \<Rightarrow> int list \<Rightarrow> 'w console \<Rightarrow> 'w console option" where
  "reassign temp [] st = Some st"
| "reassign temp (i # is) st = do {
     dev \<leftarrow> ListGetPtrToItem (devlist st) i (co_arena st);
     st \<leftarrow> reassign_files temp dev [0, 1, 2] st;
     reassign temp is st }"

text \<open>\<open>temp\<close> is what the array and the \<open>spare\<close> bytes hold before.\<close>

definition device_deregister ::
    "nat \<Rightarrow> byte list \<Rightarrow> byte list \<Rightarrow> 'w console \<Rightarrow> (int \<times> 'w console) option" where
  "device_deregister spare temp devname st = do {
     n \<leftarrow> ListNumItems (devlist st) (co_arena st);
     (dev_index, dev) \<leftarrow> find_name devname [1..n] st;
     if dev_index < 0 then Some (0, st)
     else do {
       saved \<leftarrow> save_names spare dev [0, 1, 2] st temp;
       case saved of
         None \<Rightarrow> Some (-1, st)
       | Some temp \<Rightarrow> do {
           (out, a) \<leftarrow> ListRemoveItem (devlist st) False dev_index (co_arena st);
           n \<leftarrow> ListNumItems (devlist st) a;
           st \<leftarrow> reassign temp [1..n] (st\<lparr>co_arena := a\<rparr>);
           Some (0, st) } } }"

definition blank_device :: device where
  "blank_device = \<lparr>dv_flags = 0, dv_ext = 0, dv_name = replicate 16 0, dv_start = 0, dv_stop = 0, dv_putc = 0,
     dv_puts = 0, dv_tstc = 0, dv_getc = 0, dv_priv = 0\<rparr>"

definition set_name :: "string \<Rightarrow> device \<Rightarrow> device" where
  "set_name s d = d\<lparr>dv_name := bytes s @ [0] @ drop (length s + 1) (dv_name d)\<rparr>"

definition serial_device :: "'w drivers \<Rightarrow> device" where
  "serial_device dr =
     (set_name ''serial'' blank_device)\<lparr>dv_flags := DEV_FLAGS_OUTPUT OR DEV_FLAGS_INPUT OR DEV_FLAGS_SYSTEM,
        dv_putc := serial_putc dr, dv_puts := serial_puts dr, dv_getc := serial_getc dr, dv_tstc := serial_tstc dr\<rparr>"

text \<open>The functions of the null device: two for output, one for input.\<close>

definition null_device :: "u32 \<Rightarrow> u32 \<Rightarrow> u32 \<Rightarrow> device" where
  "null_device nulldev_putc nulldev_puts nulldev_input =
     (set_name ''nulldev'' blank_device)\<lparr>dv_flags := DEV_FLAGS_OUTPUT OR DEV_FLAGS_INPUT OR DEV_FLAGS_SYSTEM,
        dv_putc := nulldev_putc, dv_puts := nulldev_puts, dv_getc := nulldev_input, dv_tstc := nulldev_input\<rparr>"

fun register_all :: "device list \<Rightarrow> 'w console \<Rightarrow> 'w console option" where
  "register_all [] st = Some st"
| "register_all (d # ds) st = do { (r, st) \<leftarrow> device_register d st; register_all ds st }"

definition drv_system_init :: "'w drivers \<Rightarrow> device option \<Rightarrow> 'w console \<Rightarrow> 'w console option" where
  "drv_system_init dr nulldev st =
     register_all (serial_device dr # (case nulldev of None \<Rightarrow> [] | Some d \<Rightarrow> [d])) st"

text \<open>
  \<open>early\<close> and \<open>late\<close> are the devices that the configured drivers register before and after; the message
  of failure goes to \<open>stderr\<close>.
\<close>

definition devices_init ::
    "'w drivers \<Rightarrow> byte list \<Rightarrow> device list \<Rightarrow> device option \<Rightarrow> device list \<Rightarrow> 'w console \<Rightarrow> (int \<times> 'w console) option" where
  "devices_init dr junk early nulldev late st =
     (let (h, a) = ListCreate junk sizeof_device (co_arena st); st = st\<lparr>devlist := h, co_arena := a\<rparr> in
      if h = NULL then do {
        st \<leftarrow> fputs dr stderr (bytes (''Cannot initialize the list of devices!'' @ nl)) st;
        Some (-1, st) }
      else do {
        st \<leftarrow> register_all early st;
        st \<leftarrow> drv_system_init dr nulldev st;
        st \<leftarrow> register_all late st;
        Some (0, st) })"

definition devices_done :: "'w console \<Rightarrow> int \<times> 'w console" where
  "devices_done st = (0, st\<lparr>co_arena := ListDispose (devlist st) (co_arena st)\<rparr>)"

section \<open>Assigning devices to files\<close>

definition use_device :: "'w drivers \<Rightarrow> int \<Rightarrow> int \<Rightarrow> device \<Rightarrow> 'w console \<Rightarrow> 'w console" where
  "use_device dr file dev d st =
     (let st = st\<lparr>stdio_devices := (stdio_devices st)(nat file := dev)\<rparr> in
      if file = stdin then st\<lparr>co_jt := (co_jt st)\<lparr>XF_getc := dv_getc d, XF_tstc := dv_tstc d\<rparr>\<rparr>
      else if file = stdout
      then st\<lparr>co_jt := (co_jt st)\<lparr>XF_putc := dv_putc d, XF_puts := dv_puts d, XF_printf := std_printf dr\<rparr>\<rparr>
      else st)"

definition console_setfile :: "'w drivers \<Rightarrow> int \<Rightarrow> int \<Rightarrow> 'w console \<Rightarrow> (int \<times> 'w console) option" where
  "console_setfile dr file dev st =
     (if dev = 0 then Some (-1, st)
      else if file \<in> {stdin, stdout, stderr} then do {
        d \<leftarrow> device_at st dev;
        (error, st) \<leftarrow> (if dv_start d \<noteq> 0 then call0 dr (dv_start d) st else Some (0, st));
        if error < 0 then Some (error, st) else Some (error, use_device dr file dev d st) }
      else Some (-1, st))"

fun assign_loop :: "'w drivers \<Rightarrow> u32 \<Rightarrow> int \<Rightarrow> byte list \<Rightarrow> int list \<Rightarrow> 'w console \<Rightarrow> (int \<times> 'w console) option" where
  "assign_loop dr fl file devname [] st = Some (-1, st)"
| "assign_loop dr fl file devname (i # is) st = do {
     dev \<leftarrow> ListGetPtrToItem (devlist st) i (co_arena st);
     name \<leftarrow> name_at st dev;
     if devname = name then do {
       d \<leftarrow> device_at st dev;
       if dv_flags d AND fl \<noteq> 0 then console_setfile dr file dev st else Some (-1, st) }
     else assign_loop dr fl file devname is st }"

definition console_assign :: "'w drivers \<Rightarrow> int \<Rightarrow> byte list \<Rightarrow> 'w console \<Rightarrow> (int \<times> 'w console) option" where
  "console_assign dr file devname st =
     (if file \<in> {stdin, stdout, stderr} then do {
        n \<leftarrow> ListNumItems (devlist st) (co_arena st);
        assign_loop dr (if file = stdin then DEV_FLAGS_INPUT else DEV_FLAGS_OUTPUT) file devname [1..n] st }
      else Some (-1, st))"

definition console_init_f :: "byte list option \<Rightarrow> bool \<Rightarrow> 'w console \<Rightarrow> int \<times> 'w console" where
  "console_init_f silent silent_console st =
     (0, let st = st\<lparr>have_console := True\<rparr>
         in if silent_console \<and> silent \<noteq> None then st\<lparr>GD_FLG_SILENT := True\<rparr> else st)"

fun search_loop :: "u32 \<Rightarrow> byte list \<Rightarrow> int \<Rightarrow> int list \<Rightarrow> 'w console \<Rightarrow> int option" where
  "search_loop fl name dev [] st = Some dev"
| "search_loop fl name dev (i # is) st = do {
     dev \<leftarrow> ListGetPtrToItem (devlist st) i (co_arena st);
     d \<leftarrow> device_at st dev;
     if dv_flags d AND fl \<noteq> 0 then do {
       s \<leftarrow> name_at st dev;
       if name = s then Some dev else search_loop fl name dev is st }
     else search_loop fl name dev is st }"

definition search_device :: "u32 \<Rightarrow> byte list option \<Rightarrow> 'w console \<Rightarrow> int option" where
  "search_device fl name st = do {
     n \<leftarrow> ListNumItems (devlist st) (co_arena st);
     case name of None \<Rightarrow> Some 0 | Some name \<Rightarrow> search_loop fl name 0 [1..n] st }"

text \<open>A call of \<open>console_setfile\<close> whose result is not used, for a device that was found.\<close>

definition set_if :: "'w drivers \<Rightarrow> int \<Rightarrow> int \<Rightarrow> 'w console \<Rightarrow> 'w console option" where
  "set_if dr file dev st = (if dev \<noteq> 0 then map_option snd (console_setfile dr file dev st) else Some st)"

text \<open>The lines that name the devices in use, and the variables they are stored in.\<close>

definition print_device :: "'w drivers \<Rightarrow> string \<Rightarrow> string \<Rightarrow> int \<Rightarrow> 'w console \<Rightarrow> 'w console option" where
  "print_device dr what none file st = do {
     st \<leftarrow> con_puts dr (bytes what) st;
     if stdio_devices st (nat file) = 0 then con_puts dr (bytes (''No '' @ none @ '' devices available!'' @ nl)) st
     else do {
       name \<leftarrow> name_at st (stdio_devices st (nat file));
       con_printf dr (''%s'' @ nl) [ArgStr (Some name)] st } }"

definition print_devices :: "'w drivers \<Rightarrow> 'w console \<Rightarrow> 'w console option" where
  "print_devices dr st = do {
     st \<leftarrow> print_device dr ''In:    '' ''input'' stdin st;
     st \<leftarrow> print_device dr ''Out:   '' ''output'' stdout st;
     print_device dr ''Err:   '' ''error'' stderr st }"

definition device_vars :: "'w console \<Rightarrow> (byte list \<times> byte list) list option" where
  "device_vars st = do {
     i \<leftarrow> name_at st (stdio_devices st 0);
     out \<leftarrow> name_at st (stdio_devices st 1);
     e \<leftarrow> name_at st (stdio_devices st 2);
     Some [(bytes ''stdin'', i), (bytes ''stdout'', out), (bytes ''stderr'', e)] }"

text \<open>
  \<open>console_init_r\<close> where the devices are named in the environment (\<open>CFG_CONSOLE_IS_IN_ENV\<close>): \<open>names\<close> are the
  values of the variables \<open>stdin\<close>, \<open>stdout\<close>, \<open>stderr\<close>, \<open>overwrite\<close> is \<open>OVERWRITE_CONSOLE\<close>. The result holds the
  variables that are set at the end (\<open>CFG_CONSOLE_ENV_OVERWRITE\<close>).
\<close>

definition console_init_r_env ::
    "'w drivers \<Rightarrow> bool \<Rightarrow> byte list option \<times> byte list option \<times> byte list option \<Rightarrow> 'w console \<Rightarrow>
     (int \<times> (byte list \<times> byte list) list \<times> 'w console) option" where
  "console_init_r_env dr overwrite names st =
     (let (stdinname, stdoutname, stderrname) = names;
          st = st\<lparr>co_jt := (co_jt st)\<lparr>XF_getc := serial_getc dr, XF_tstc := serial_tstc dr,
                 XF_putc := serial_putc dr, XF_puts := serial_puts dr, XF_printf := serial_printf dr\<rparr>\<rparr>
      in do {
        inputdev \<leftarrow> (if \<not> overwrite then search_device DEV_FLAGS_INPUT stdinname st else Some 0);
        outputdev \<leftarrow> (if \<not> overwrite then search_device DEV_FLAGS_OUTPUT stdoutname st else Some 0);
        errdev \<leftarrow> (if \<not> overwrite then search_device DEV_FLAGS_OUTPUT stderrname st else Some 0);
        inputdev \<leftarrow> (if inputdev = 0 then search_device DEV_FLAGS_INPUT (Some (bytes ''serial'')) st else Some inputdev);
        outputdev \<leftarrow> (if outputdev = 0 then search_device DEV_FLAGS_OUTPUT (Some (bytes ''serial'')) st else Some outputdev);
        errdev \<leftarrow> (if errdev = 0 then search_device DEV_FLAGS_OUTPUT (Some (bytes ''serial'')) st else Some errdev);
        st \<leftarrow> set_if dr stdout outputdev st;
        st \<leftarrow> set_if dr stderr errdev st;
        st \<leftarrow> set_if dr stdin inputdev st;
        st \<leftarrow> print_devices dr (st\<lparr>GD_FLG_DEVINIT := True\<rparr>);
        vars \<leftarrow> device_vars st;
        Some (0, vars, st) })"

fun scan_devices :: "int list \<Rightarrow> int \<Rightarrow> int \<Rightarrow> 'w console \<Rightarrow> (int \<times> int) option" where
  "scan_devices [] inputdev outputdev st = Some (inputdev, outputdev)"
| "scan_devices (i # is) inputdev outputdev st =
     (if inputdev = 0 \<or> outputdev = 0 then do {
        dev \<leftarrow> ListGetPtrToItem (devlist st) i (co_arena st);
        d \<leftarrow> device_at st dev;
        scan_devices is
          (if dv_flags d AND DEV_FLAGS_INPUT \<noteq> 0 \<and> inputdev = 0 then dev else inputdev)
          (if dv_flags d AND DEV_FLAGS_OUTPUT \<noteq> 0 \<and> outputdev = 0 then dev else outputdev) st }
      else Some (inputdev, outputdev))"

text \<open>
  The other version: the first devices of the list that can be used. \<open>hide\<close>: the variable \<open>splashimage\<close> is set or
  silent mode is requested, where these are configured.
\<close>

definition console_init_r ::
    "'w drivers \<Rightarrow> bool \<Rightarrow> 'w console \<Rightarrow> (int \<times> (byte list \<times> byte list) list \<times> 'w console) option" where
  "console_init_r dr hide st = do {
     n \<leftarrow> ListNumItems (devlist st) (co_arena st);
     outputdev \<leftarrow> (if hide then search_device DEV_FLAGS_OUTPUT (Some (bytes ''nulldev'')) st else Some 0);
     (inputdev, outputdev) \<leftarrow> scan_devices [1..n] 0 outputdev st;
     st \<leftarrow> set_if dr stdout outputdev st;
     st \<leftarrow> set_if dr stderr outputdev st;
     st \<leftarrow> set_if dr stdin inputdev st;
     st \<leftarrow> print_devices dr (st\<lparr>GD_FLG_DEVINIT := True\<rparr>);
     vars \<leftarrow> device_vars st;
     Some (0, vars, st) }"

section \<open>The command coninfo\<close>

fun coninfo_files :: "'w drivers \<Rightarrow> int \<Rightarrow> (nat \<times> string) list \<Rightarrow> 'w console \<Rightarrow> 'w console option" where
  "coninfo_files dr dev [] st = Some st"
| "coninfo_files dr dev ((l, name) # ls) st = do {
     st \<leftarrow> (if stdio_devices st l = dev then con_printf dr ''%s '' [ArgStr (Some (bytes name))] st else Some st);
     coninfo_files dr dev ls st }"

fun coninfo_loop :: "'w drivers \<Rightarrow> int list \<Rightarrow> 'w console \<Rightarrow> 'w console option" where
  "coninfo_loop dr [] st = Some st"
| "coninfo_loop dr (i # is) st = do {
     dev \<leftarrow> ListGetPtrToItem (devlist st) i (co_arena st);
     d \<leftarrow> device_at st dev;
     name \<leftarrow> name_at st dev;
     st \<leftarrow> con_printf dr ''%-8s %08x %c%c%c ''
            [ArgStr (Some name), ArgInt (dv_flags d),
             ArgInt (of_char (if dv_flags d AND DEV_FLAGS_SYSTEM \<noteq> 0 then CHR ''S'' else CHR ''.'')),
             ArgInt (of_char (if dv_flags d AND DEV_FLAGS_INPUT \<noteq> 0 then CHR ''I'' else CHR ''.'')),
             ArgInt (of_char (if dv_flags d AND DEV_FLAGS_OUTPUT \<noteq> 0 then CHR ''O'' else CHR ''.''))] st;
     st \<leftarrow> coninfo_files dr dev [(0, ''stdin''), (1, ''stdout''), (2, ''stderr'')] st;
     st \<leftarrow> putc dr 10 st;
     coninfo_loop dr is st }"

definition do_coninfo :: "'w drivers \<Rightarrow> 'w console \<Rightarrow> (int \<times> 'w console) option" where
  "do_coninfo dr st = do {
     st \<leftarrow> con_puts dr (bytes (''List of available devices:'' @ nl)) st;
     n \<leftarrow> ListNumItems (devlist st) (co_arena st);
     st \<leftarrow> coninfo_loop dr [1..n] st;
     Some (0, st) }"

section \<open>The table as a list of devices\<close>

lemma word_of_bytes_be32: "word_of_bytes (be32 w) = w"
proof -
  have "push_bit 8 (push_bit 8 (push_bit 8 (ucast (ucast (drop_bit 24 w :: u32) :: byte) :: u32) OR ucast (ucast (drop_bit 16 w :: u32) :: byte)) OR
      ucast (ucast (drop_bit 8 w :: u32) :: byte)) OR ucast (ucast w :: byte) = w"
  proof (rule bit_word_eqI)
    fix n assume n: "n < LENGTH(32)"
    consider "n < 8" | "8 \<le> n" "n < 16" | "16 \<le> n" "n < 24" | "24 \<le> n" by linarith
    then show "bit (push_bit 8 (push_bit 8 (push_bit 8 (ucast (ucast (drop_bit 24 w :: u32) :: byte) :: u32) OR ucast (ucast (drop_bit 16 w :: u32) :: byte)) OR
      ucast (ucast (drop_bit 8 w :: u32) :: byte)) OR ucast (ucast w :: byte)) n = bit w n"
      using n by cases (auto simp: bit_simps)
  qed
  then show ?thesis by (simp add: word_of_bytes_def be32_def)
qed

lemma length_encode: "length (dv_name d) = 16 \<Longrightarrow> int (length (encode d)) = sizeof_device"
  by (simp add: encode_def sizeof_device_def)

lemma field_part: "xs = u @ be32 w @ v \<Longrightarrow> off = length u \<Longrightarrow> field off xs = w"
  by (simp add: field_def word_of_bytes_be32)

lemma decode_encode:
  assumes "length (dv_name d) = 16"
  shows "decode (encode d) = d"
proof -
  let ?b = be32
  have e: "encode d = ?b (dv_flags d) @ ?b (dv_ext d) @ dv_name d @ ?b (dv_start d) @ ?b (dv_stop d) @ ?b (dv_putc d) @
      ?b (dv_puts d) @ ?b (dv_tstc d) @ ?b (dv_getc d) @ ?b (dv_priv d)" by (simp add: encode_def)
  have "field 0 (encode d) = dv_flags d" by (rule field_part [of _ "[]"]) (simp_all add: e)
  moreover have "field 4 (encode d) = dv_ext d" by (rule field_part [of _ "?b (dv_flags d)"]) (simp_all add: e)
  moreover have "field 24 (encode d) = dv_start d"
    by (rule field_part [of _ "?b (dv_flags d) @ ?b (dv_ext d) @ dv_name d"]) (simp_all add: e assms)
  moreover have "field 28 (encode d) = dv_stop d"
    by (rule field_part [of _ "?b (dv_flags d) @ ?b (dv_ext d) @ dv_name d @ ?b (dv_start d)"]) (simp_all add: e assms)
  moreover have "field 32 (encode d) = dv_putc d"
    by (rule field_part [of _ "?b (dv_flags d) @ ?b (dv_ext d) @ dv_name d @ ?b (dv_start d) @ ?b (dv_stop d)"]) (simp_all add: e assms)
  moreover have "field 36 (encode d) = dv_puts d"
    by (rule field_part [of _ "?b (dv_flags d) @ ?b (dv_ext d) @ dv_name d @ ?b (dv_start d) @ ?b (dv_stop d) @ ?b (dv_putc d)"])
      (simp_all add: e assms)
  moreover have "field 40 (encode d) = dv_tstc d"
    by (rule field_part [of _ "?b (dv_flags d) @ ?b (dv_ext d) @ dv_name d @ ?b (dv_start d) @ ?b (dv_stop d) @ ?b (dv_putc d) @
      ?b (dv_puts d)"]) (simp_all add: e assms)
  moreover have "field 44 (encode d) = dv_getc d"
    by (rule field_part [of _ "?b (dv_flags d) @ ?b (dv_ext d) @ dv_name d @ ?b (dv_start d) @ ?b (dv_stop d) @ ?b (dv_putc d) @
      ?b (dv_puts d) @ ?b (dv_tstc d)"]) (simp_all add: e assms)
  moreover have "field 48 (encode d) = dv_priv d"
    by (rule field_part [of _ "?b (dv_flags d) @ ?b (dv_ext d) @ dv_name d @ ?b (dv_start d) @ ?b (dv_stop d) @ ?b (dv_putc d) @
      ?b (dv_puts d) @ ?b (dv_tstc d) @ ?b (dv_getc d)" _ "[]"]) (simp_all add: e assms)
  ultimately show ?thesis using assms by (simp add: decode_def name_offset_def e)
qed

definition table :: "'w console \<Rightarrow> device list" where
  "table st = map decode (contents_of (devlist st) (co_arena st))"

text \<open>The invariant: the list is a list of devices, and their names are strings.\<close>

definition table_ok :: "nat \<Rightarrow> 'w console \<Rightarrow> bool" where
  "table_ok M st \<longleftrightarrow> list_holds M sizeof_device (devlist st) (co_arena st) \<and> (\<forall>d \<in> set (table st). 0 \<in> set (dv_name d))"

definition dev_name :: "device \<Rightarrow> byte list" where
  "dev_name d = takeWhile (\<lambda>b. b \<noteq> 0) (dv_name d)"

text \<open>The address of the device with a given index.\<close>

definition block_at :: "'w console \<Rightarrow> nat" where
  "block_at st = (case ar_lists (co_arena st) (devlist st) of Some l \<Rightarrow> ls_ptr l | None \<Rightarrow> 0)"

definition dev_addr :: "'w console \<Rightarrow> nat \<Rightarrow> int" where
  "dev_addr st i = int (block_at st + itemList_offset) + sizeof_device * int i"

lemma dev_addr_pos [simp]: "dev_addr st i > 0" "dev_addr st i \<noteq> 0"
  unfolding dev_addr_def itemList_offset_def sizeof_device_def by linarith+

lemma dev_addr_inj [simp]: "dev_addr st i = dev_addr st j \<longleftrightarrow> i = j"
  by (simp add: dev_addr_def sizeof_device_def)

lemma table_list:
  assumes "table_ok M st"
  obtains l where "ar_lists (co_arena st) (devlist st) = Some l" "list_ok M l" "itemSize l = sizeof_device"
    "table st = map decode (items l)" "block_at st = ls_ptr l" "numItems l = int (length (table st))"
proof -
  obtain l where l: "ar_lists (co_arena st) (devlist st) = Some l" "list_ok M l" "itemSize l = sizeof_device"
    "contents_of (devlist st) (co_arena st) = items l"
    using assms list_holdsE unfolding table_ok_def by blast
  then show ?thesis using that length_items [OF l(2)] by (simp add: table_def block_at_def)
qed

lemma ListNumItems_table: "table_ok M st \<Longrightarrow> ListNumItems (devlist st) (co_arena st) = Some (int (length (table st)))"
  by (erule table_list) (simp add: ListNumItems_def)

lemma ListGetPtr_table:
  assumes "table_ok M st" "1 \<le> i"
  shows "ListGetPtrToItem (devlist st) i (co_arena st) = Some (dev_addr st (nat (i - 1)))"
  using assms(1)
proof (rule table_list)
  fix l assume l: "ar_lists (co_arena st) (devlist st) = Some l" "itemSize l = sizeof_device" "block_at st = ls_ptr l"
  have "i \<noteq> LIST_START" "i \<noteq> LIST_END" using assms(2) by (auto simp: LIST_START_def LIST_END_def)
  then show ?thesis using l assms(2) by (simp add: ListGetPtrToItem_def ITEMPTR_def dev_addr_def)
qed

lemma device_bytes_table:
  assumes "table_ok M st" "i < length (table st)"
  shows "\<exists>xs. device_bytes st (dev_addr st i) = Some xs \<and> length xs = 52 \<and> decode xs = table st ! i"
  using assms(1)
proof (rule table_list)
  fix l assume l: "ar_lists (co_arena st) (devlist st) = Some l" "list_ok M l" "itemSize l = sizeof_device"
    "table st = map decode (items l)" "block_at st = ls_ptr l"
  have i: "i < length (items l)" using assms(2) l(4) by simp
  obtain rest where st: "stores l (items l) rest" using stores_items [OF l(2)] by blast
  have "take 1 (drop i (items l)) = [items l ! i]" using i by (simp add: Cons_nth_drop_Suc [symmetric])
  moreover have "0 < itemSize l" using l(2) by (simp add: list_ok_def)
  ultimately have "get_block l (ITEMPTR l (int i)) (itemSize l * int 1) = Some (items l ! i)"
    using get_items [OF st, of i 1] i by simp
  then have "device_bytes st (dev_addr st i) = Some (items l ! i)"
    using l by (simp add: device_bytes_def dev_addr_def ITEMPTR_def)
  moreover have "int (length (items l ! i)) = 52" using item_length [OF l(2) nth_mem [OF i]] l(3) by (simp add: sizeof_device_def)
  ultimately show ?thesis using i l(4) by simp
qed

lemma device_at_table: "table_ok M st \<Longrightarrow> i < length (table st) \<Longrightarrow> device_at st (dev_addr st i) = Some (table st ! i)"
  using device_bytes_table [of M st i] by (auto simp: device_at_def)

lemma name_at_table:
  assumes "table_ok M st" "i < length (table st)"
  shows "name_at st (dev_addr st i) = Some (dev_name (table st ! i))"
proof -
  obtain xs where xs: "device_bytes st (dev_addr st i) = Some xs" "length xs = 52" "decode xs = table st ! i"
    using device_bytes_table [OF assms] by blast
  have nul: "0 \<in> set (dv_name (decode xs))" using assms xs(3) by (simp add: table_ok_def)
  have split: "drop name_offset xs = dv_name (decode xs) @ drop 24 xs"
    using append_take_drop_id [of 16 "drop 8 xs"] by (simp add: decode_def name_offset_def)
  have "c_string (drop name_offset xs) = Some (dev_name (decode xs))"
    using nul unfolding split c_string_def dev_name_def by (simp add: takeWhile_append1)
  then show ?thesis using xs by (simp add: name_at_def)
qed

section \<open>Assigning a device\<close>

definition file_flag :: "int \<Rightarrow> u32" where
  "file_flag file = (if file = stdin then DEV_FLAGS_INPUT else DEV_FLAGS_OUTPUT)"

text \<open>The first index from \<open>i\<close> on of a device that satisfies \<open>P\<close>.\<close>

fun find_index :: "('a \<Rightarrow> bool) \<Rightarrow> nat \<Rightarrow> 'a list \<Rightarrow> nat option" where
  "find_index P i [] = None"
| "find_index P i (x # xs) = (if P x then Some i else find_index P (Suc i) xs)"

fun_cases find_index_SomeE: "find_index P i xs = Some j"

lemma find_index_Some: "find_index P i xs = Some j \<Longrightarrow> i \<le> j \<and> j < i + length xs \<and> P (xs ! (j - i))"
proof (induction xs arbitrary: i)
  case (Cons x xs)
  from Cons.prems show ?case
    by (rule find_index_SomeE)
      (use Cons.IH [of "Suc i"] in \<open>auto simp: nth_Cons' not_less_eq_eq split: if_splits\<close>)
qed simp

lemma find_index_None: "find_index P i xs = None \<longleftrightarrow> (\<forall>x \<in> set xs. \<not> P x)"
  by (induction P i xs rule: find_index.induct) auto

text \<open>What starting a device does.\<close>

definition start_device :: "'w drivers \<Rightarrow> device \<Rightarrow> 'w console \<Rightarrow> int \<times> 'w console" where
  "start_device dr d st =
     (if dv_start d = 0 then (0, st)
      else case fn0 dr (dv_start d) (co_world st) of (r, w) \<Rightarrow> (r, st\<lparr>co_world := w\<rparr>))"

text \<open>The result of an assignment over the list of devices.\<close>

definition assign_spec :: "'w drivers \<Rightarrow> int \<Rightarrow> byte list \<Rightarrow> 'w console \<Rightarrow> int \<times> 'w console" where
  "assign_spec dr file devname st =
     (case find_index (\<lambda>d. dev_name d = devname) 0 (table st) of
        None \<Rightarrow> (-1, st)
      | Some i \<Rightarrow>
          let d = table st ! i; (error, st') = start_device dr d st in
          if dv_flags d AND file_flag file = 0 then (-1, st)
          else if error < 0 then (error, st') else (error, use_device dr file (dev_addr st i) d st'))"

lemma console_setfile_table:
  assumes "table_ok M st" "i < length (table st)" "file \<in> {stdin, stdout, stderr}"
  shows "console_setfile dr file (dev_addr st i) st =
    Some (let d = table st ! i; (error, st') = start_device dr d st
          in if error < 0 then (error, st') else (error, use_device dr file (dev_addr st i) d st'))"
  using assms(3) device_at_table [OF assms(1,2)]
  by (auto simp: console_setfile_def start_device_def call0_def split: prod.splits)

lemma upto_cons: "i < n \<Longrightarrow> [int i + 1..int n] = (int i + 1) # [int (Suc i) + 1..int n]"
  by (subst upto.simps) simp

lemma nat_pos_index [simp]: "nat (int i + 1 - 1) = i"
  by simp

lemma assign_loop_table:
  assumes ok: "table_ok M st" and which: "file \<in> {stdin, stdout, stderr}"
  shows "i \<le> length (table st) \<Longrightarrow>
    assign_loop dr fl file devname [int i + 1..int (length (table st))] st =
      (case find_index (\<lambda>d. dev_name d = devname) i (drop i (table st)) of
         None \<Rightarrow> Some (-1, st)
       | Some j \<Rightarrow> if dv_flags (table st ! j) AND fl \<noteq> 0 then console_setfile dr file (dev_addr st j) st else Some (-1, st))"
proof (induction "length (table st) - i" arbitrary: i)
  case 0
  then show ?case by simp
next
  case (Suc k)
  then have i: "i < length (table st)" by simp
  have IH: "assign_loop dr fl file devname [int (Suc i) + 1..int (length (table st))] st =
      (case find_index (\<lambda>d. dev_name d = devname) (Suc i) (drop (Suc i) (table st)) of
         None \<Rightarrow> Some (-1, st)
       | Some j \<Rightarrow> if dv_flags (table st ! j) AND fl \<noteq> 0 then console_setfile dr file (dev_addr st j) st else Some (-1, st))"
    using Suc.hyps(2) i by (intro Suc.hyps(1)) auto
  show ?case
    unfolding upto_cons [OF i] Cons_nth_drop_Suc [OF i, symmetric] assign_loop.simps find_index.simps
    using ListGetPtr_table [OF ok, of "int i + 1"] name_at_table [OF ok i] device_at_table [OF ok i] IH
    by (auto simp: eq_commute [of devname])
qed

lemma assign_console_spec:
  assumes "table_ok M st" "file \<in> {stdin, stdout, stderr}"
  shows "console_assign dr file devname st = Some (assign_spec dr file devname st)"
proof -
  have "console_assign dr file devname st =
      (case find_index (\<lambda>d. dev_name d = devname) 0 (table st) of
         None \<Rightarrow> Some (-1, st)
       | Some j \<Rightarrow> if dv_flags (table st ! j) AND file_flag file \<noteq> 0 then console_setfile dr file (dev_addr st j) st
                  else Some (-1, st))"
    unfolding console_assign_def file_flag_def [symmetric]
    using assign_loop_table [OF assms, of 0] assms(2) ListNumItems_table [OF assms(1)] by simp
  then show ?thesis
    using console_setfile_table [OF assms(1) _ assms(2)] find_index_Some [of "\<lambda>d. dev_name d = devname" 0 "table st"]
    by (auto simp: assign_spec_def Let_def split: option.splits prod.splits)
qed

text \<open>
  \<open>console_assign\<close> picks the first device of the given name. If that device cannot be used in the direction of
  the file, or does not start, the result is negative and the files and the jump table are as before; otherwise the
  file is the device, and its functions are entered in the jump table.
\<close>

theorem console_assign_correct:
  assumes "table_ok M st" "file \<in> {stdin, stdout, stderr}"
  shows "console_assign dr file devname st = Some (assign_spec dr file devname st)"
  using assms by (rule assign_console_spec)

section \<open>Printing a name\<close>

lemma parse_s: "parse_spec (chr CHR ''s'' # fmt) args =
  Some \<lparr>fs_fmt = chr CHR ''s'' # fmt, fs_args = args, fs_flags = 0, fs_width = -1, fs_precision = -1, fs_qualifier = 0\<rparr>"
  by (simp add: parse_spec_def get_width_def is_digit_def get_precision_def get_qualifier_def)

lemma format_str_plain:
  "length s < 2 ^ 32 \<Longrightarrow> format_str \<lparr>fs_fmt = fmt, fs_args = args, fs_flags = 0, fs_width = -1, fs_precision = -1, fs_qualifier = q\<rparr> (Some s) = s"
  by (simp add: format_str_def upto_loop_eq flag_def unsigned_minus_1_eq_mask mask_eq_exp_minus_1)

lemma vsprintf_loop_s:
  assumes "length s < 2 ^ 32"
  shows "vsprintf_loop (chr CHR ''%'' # chr CHR ''s'' # fmt) (ArgStr (Some s) # args) out ns = vsprintf_loop fmt args (out @ s) ns"
  unfolding vsprintf_loop.simps parse_s
  using assms by (simp add: convert_def format_str_plain Let_def)

lemma sprintf_name: "length s < 2 ^ 32 \<Longrightarrow> sprintf (''%s'' @ nl) [ArgStr (Some s)] = Some (s @ [10])"
  using vsprintf_loop_s [of s "[10]" "[]" "[]" "[]"]
  by (simp add: sprintf_def vsprintf_def)

lemma length_dev_name:
  assumes "length (dv_name d) = 16"
  shows "length (dev_name d) \<le> 16"
  using length_takeWhile_le [of "\<lambda>b. b \<noteq> 0" "dv_name d"] assms by (simp add: dev_name_def)

lemma print_buffer_name:
  assumes "length (dv_name d) = 16"
  shows "print_buffer (''%s'' @ nl) [ArgStr (Some (dev_name d))] = Some (dev_name d @ [10])"
  using length_dev_name [OF assms] sprintf_name [of "dev_name d"]
  by (simp add: print_buffer_def CFG_PBSIZE_def CFG_CBSIZE_def)

section \<open>The console stays usable\<close>

text \<open>
  What the drivers promise: a device for input has the functions for input, one for output those for output.
\<close>

definition drivers_ok :: "'w console \<Rightarrow> bool" where
  "drivers_ok st \<longleftrightarrow>
     (\<forall>d \<in> set (table st).
        (dv_flags d AND DEV_FLAGS_INPUT \<noteq> 0 \<longrightarrow> dv_getc d \<noteq> 0 \<and> dv_tstc d \<noteq> 0) \<and>
        (dv_flags d AND DEV_FLAGS_OUTPUT \<noteq> 0 \<longrightarrow> dv_putc d \<noteq> 0 \<and> dv_puts d \<noteq> 0))"

text \<open>\<open>file\<close> is the device of index \<open>i\<close>.\<close>

definition assigned :: "'w console \<Rightarrow> int \<Rightarrow> nat \<Rightarrow> bool" where
  "assigned st file i \<longleftrightarrow> i < length (table st) \<and> stdio_devices st (nat file) = dev_addr st i \<and>
     dv_flags (table st ! i) AND file_flag file \<noteq> 0"

text \<open>
  The invariant of the initialised console: each file is a device that can be used in its direction, and the
  functions of the jump table are those of the devices of \<open>stdin\<close> and \<open>stdout\<close>.
\<close>

definition console_live :: "nat \<Rightarrow> 'w console \<Rightarrow> bool" where
  "console_live M st \<longleftrightarrow> table_ok M st \<and> drivers_ok st \<and> GD_FLG_DEVINIT st \<and>
     (\<exists>i. assigned st stdin i \<and> XF_getc (co_jt st) = dv_getc (table st ! i) \<and> XF_tstc (co_jt st) = dv_tstc (table st ! i)) \<and>
     (\<exists>i. assigned st stdout i \<and> XF_putc (co_jt st) = dv_putc (table st ! i) \<and> XF_puts (co_jt st) = dv_puts (table st ! i)) \<and>
     (\<exists>i. assigned st stderr i)"

lemma table_frame [simp]:
  "table (st\<lparr>co_world := w\<rparr>) = table st" "table (st\<lparr>ctrlc_was_pressed := c\<rparr>) = table st"
  "table (st\<lparr>ctrlc_disabled := c\<rparr>) = table st" "table (st\<lparr>stdio_devices := f\<rparr>) = table st"
  "table (st\<lparr>co_jt := jt\<rparr>) = table st" "table (st\<lparr>GD_FLG_DEVINIT := b\<rparr>) = table st"
  by (simp_all add: table_def)

lemma table_ok_frame [simp]:
  "table_ok M (st\<lparr>co_world := w\<rparr>) = table_ok M st" "table_ok M (st\<lparr>ctrlc_was_pressed := c\<rparr>) = table_ok M st"
  "table_ok M (st\<lparr>ctrlc_disabled := c\<rparr>) = table_ok M st" "table_ok M (st\<lparr>stdio_devices := f\<rparr>) = table_ok M st"
  "table_ok M (st\<lparr>co_jt := jt\<rparr>) = table_ok M st" "table_ok M (st\<lparr>GD_FLG_DEVINIT := b\<rparr>) = table_ok M st"
  by (simp_all add: table_ok_def)

lemma dev_addr_frame [simp]:
  "dev_addr (st\<lparr>co_world := w\<rparr>) = dev_addr st" "dev_addr (st\<lparr>ctrlc_was_pressed := c\<rparr>) = dev_addr st"
  "dev_addr (st\<lparr>ctrlc_disabled := c\<rparr>) = dev_addr st" "dev_addr (st\<lparr>stdio_devices := f\<rparr>) = dev_addr st"
  "dev_addr (st\<lparr>co_jt := jt\<rparr>) = dev_addr st" "dev_addr (st\<lparr>GD_FLG_DEVINIT := b\<rparr>) = dev_addr st"
  by (rule ext, simp add: dev_addr_def block_at_def)+

lemma console_live_frame [simp]:
  "console_live M (st\<lparr>co_world := w\<rparr>) = console_live M st"
  "console_live M (st\<lparr>ctrlc_was_pressed := c\<rparr>) = console_live M st"
  "console_live M (st\<lparr>ctrlc_disabled := c\<rparr>) = console_live M st"
  by (simp_all add: console_live_def drivers_ok_def assigned_def)

lemma live_device:
  assumes "console_live M st" "file \<in> {stdin, stdout, stderr}"
  obtains i where "assigned st file i" "stdio_device file st = Some (table st ! i)" "table st ! i \<in> set (table st)"
proof -
  obtain i where i: "assigned st file i" using assms by (auto simp: console_live_def)
  have "table_ok M st" "0 \<le> file" using assms by (auto simp: console_live_def stdin_def stdout_def stderr_def)
  then have "stdio_device file st = Some (table st ! i)"
    using i device_at_table [of M st i] by (simp add: stdio_device_def assigned_def)
  then show ?thesis using that i by (simp add: assigned_def)
qed

lemma live_input:
  assumes "console_live M st"
  obtains i where "assigned st stdin i" "getc dr st = call0 dr (dv_getc (table st ! i)) st"
    "tstc dr st = call0 dr (dv_tstc (table st ! i)) st" "dv_getc (table st ! i) \<noteq> 0" "dv_tstc (table st ! i) \<noteq> 0"
proof -
  obtain i where i: "assigned st stdin i" "stdio_device stdin st = Some (table st ! i)" "table st ! i \<in> set (table st)"
    using live_device [OF assms] by blast
  then show ?thesis
    using that assms
    by (auto simp: getc_def tstc_def fgetc_def ftstc_def console_live_def drivers_ok_def assigned_def file_flag_def stdin_def MAX_FILES_def)
qed

lemma live_output:
  assumes "console_live M st" "file \<in> {stdout, stderr}"
  obtains i where "assigned st file i" "fputc dr file c st = call_char dr (dv_putc (table st ! i)) c st"
    "fputs dr file s st = call_str dr (dv_puts (table st ! i)) s st" "dv_putc (table st ! i) \<noteq> 0" "dv_puts (table st ! i) \<noteq> 0"
proof -
  obtain i where i: "assigned st file i" "stdio_device file st = Some (table st ! i)" "table st ! i \<in> set (table st)"
    using live_device [OF assms(1)] assms(2) by blast
  then show ?thesis
    using that assms
    by (auto simp: fputc_def fputs_def console_live_def drivers_ok_def assigned_def file_flag_def stdin_def stdout_def stderr_def MAX_FILES_def)
qed

text \<open>What the system does with the console once it is initialised.\<close>

inductive con_step :: "'w drivers \<Rightarrow> 'w console \<Rightarrow> 'w console \<Rightarrow> bool" for dr where
  step_getc: "getc dr st = Some (r, st') \<Longrightarrow> con_step dr st st'"
| step_tstc: "tstc dr st = Some (r, st') \<Longrightarrow> con_step dr st st'"
| step_putc: "putc dr c st = Some st' \<Longrightarrow> con_step dr st st'"
| step_puts: "con_puts dr s st = Some st' \<Longrightarrow> con_step dr st st'"
| step_fputc: "fputc dr file c st = Some st' \<Longrightarrow> con_step dr st st'"
| step_fputs: "fputs dr file s st = Some st' \<Longrightarrow> con_step dr st st'"
| step_ctrlc: "ctrlc dr st = Some (r, st') \<Longrightarrow> con_step dr st st'"
| step_disable: "disable_ctrlc n st = (r, st') \<Longrightarrow> con_step dr st st'"
| step_clear: "con_step dr st (clear_ctrlc st)"
| step_assign: "console_assign dr file devname st = Some (r, st') \<Longrightarrow> con_step dr st st'"

lemma call_frame:
  "call0 dr f st = Some (r, st') \<Longrightarrow> \<exists>w. st' = st\<lparr>co_world := w\<rparr>"
  "call_char dr f c st = Some st' \<Longrightarrow> \<exists>w. st' = st\<lparr>co_world := w\<rparr>"
  "call_str dr f s st = Some st' \<Longrightarrow> \<exists>w. st' = st\<lparr>co_world := w\<rparr>"
  by (auto simp: call0_def call_char_def call_str_def split: if_splits prod.splits)

lemma world_self: "\<exists>w. st = st\<lparr>co_world := w\<rparr>"
  by (rule exI [of _ "co_world st"]) simp

lemma input_frame:
  "getc dr st = Some (r, st') \<Longrightarrow> \<exists>w. st' = st\<lparr>co_world := w\<rparr>"
  "tstc dr st = Some (r, st') \<Longrightarrow> \<exists>w. st' = st\<lparr>co_world := w\<rparr>"
  by (auto simp: getc_def tstc_def fgetc_def ftstc_def stdin_def MAX_FILES_def Option.bind_eq_Some_conv
      split: if_splits dest: call_frame)

lemma fput_frame:
  "fputc dr file c st = Some st' \<Longrightarrow> \<exists>w. st' = st\<lparr>co_world := w\<rparr>"
  "fputs dr file s st = Some st' \<Longrightarrow> \<exists>w. st' = st\<lparr>co_world := w\<rparr>"
  using world_self [of st]
  by (auto simp: fputc_def fputs_def Option.bind_eq_Some_conv split: if_splits dest: call_frame)

lemma output_frame:
  "putc dr c st = Some st' \<Longrightarrow> \<exists>w. st' = st\<lparr>co_world := w\<rparr>"
  "con_puts dr s st = Some st' \<Longrightarrow> \<exists>w. st' = st\<lparr>co_world := w\<rparr>"
  using world_self [of st]
  by (auto simp: putc_def con_puts_def split: if_splits dest: call_frame fput_frame)

lemma ctrlc_frame:
  assumes "ctrlc dr st = Some (r, st')"
  shows "\<exists>w. st' = st\<lparr>co_world := w\<rparr> \<or> st' = st\<lparr>co_world := w, ctrlc_was_pressed := 1\<rparr>"
proof (cases "ctrlc_disabled st = 0 \<and> have_console st")
  case True
  then obtain t st1 where t: "tstc dr st = Some (t, st1)"
    using assms by (auto simp: ctrlc_def Option.bind_eq_Some_conv)
  then obtain w where w: "st1 = st\<lparr>co_world := w\<rparr>" using input_frame(2) by blast
  show ?thesis
  proof (cases "t = 0")
    case False
    then obtain c st2 where c: "getc dr st1 = Some (c, st2)"
      using assms True t by (auto simp: ctrlc_def Option.bind_eq_Some_conv)
    then obtain w' where "st2 = st1\<lparr>co_world := w'\<rparr>" using input_frame(1) by blast
    then show ?thesis using assms True False t c w by (auto simp: ctrlc_def split: if_splits)
  qed (use assms True t w in \<open>auto simp: ctrlc_def\<close>)
qed (use assms world_self [of st] in \<open>auto simp: ctrlc_def\<close>)

lemma use_device_live:
  assumes live: "console_live M st" and i: "i < length (table st)" "dv_flags (table st ! i) AND file_flag file \<noteq> 0"
    and which: "file \<in> {stdin, stdout, stderr}"
  shows "console_live M (use_device dr file (dev_addr st i) (table st ! i) st)"
  using which
proof (elim insertE emptyE)
  assume "file = stdin"
  then show ?thesis using live i
    by (auto simp: console_live_def use_device_def drivers_ok_def assigned_def stdin_def stdout_def stderr_def)
next
  assume "file = stdout"
  then show ?thesis using live i
    by (auto simp: console_live_def use_device_def drivers_ok_def assigned_def stdin_def stdout_def stderr_def)
next
  assume "file = stderr"
  then show ?thesis using live i
    by (auto simp: console_live_def use_device_def drivers_ok_def assigned_def stdin_def stdout_def stderr_def)
qed

lemma start_device_frame: "start_device dr d st = (r, st') \<Longrightarrow> \<exists>w. st' = st\<lparr>co_world := w\<rparr>"
  using world_self [of st] by (auto simp: start_device_def split: if_splits prod.splits)

lemma assign_spec_live:
  assumes live: "console_live M st" and which: "file \<in> {stdin, stdout, stderr}" and res: "assign_spec dr file devname st = (r, st')"
  shows "console_live M st'"
proof (cases "find_index (\<lambda>d. dev_name d = devname) 0 (table st)")
  case None
  then show ?thesis using live res by (simp add: assign_spec_def)
next
  case (Some i)
  then have i: "i < length (table st)" using find_index_Some by fastforce
  obtain e st1 where e: "start_device dr (table st ! i) st = (e, st1)" by (cases "start_device dr (table st ! i) st")
  obtain w where w: "st1 = st\<lparr>co_world := w\<rparr>" using start_device_frame [OF e] by blast
  have "console_live M (use_device dr file (dev_addr st1 i) (table st1 ! i) st1)"
    if "dv_flags (table st ! i) AND file_flag file \<noteq> 0"
    using that live i which unfolding w by (intro use_device_live) simp_all
  then show ?thesis using live res Some e w by (auto simp: assign_spec_def Let_def split: if_splits)
qed

lemma assign_live:
  assumes "console_live M st" "console_assign dr file devname st = Some (r, st')"
  shows "console_live M st'"
proof (cases "file \<in> {stdin, stdout, stderr}")
  case True
  have "table_ok M st" using assms(1) by (simp add: console_live_def)
  then have "console_assign dr file devname st = Some (assign_spec dr file devname st)"
    using True by (rule assign_console_spec)
  then show ?thesis using assms True assign_spec_live by (metis option.inject)
next
  case False
  then show ?thesis using assms by (simp add: console_assign_def)
qed

lemma world_live: "\<exists>w. st' = st\<lparr>co_world := w\<rparr> \<Longrightarrow> console_live M st \<Longrightarrow> console_live M st'"
  by auto

lemma con_step_live:
  assumes "con_step dr st st'" "console_live M st"
  shows "console_live M st'"
  using assms(1)
proof (cases rule: con_step.cases)
  case (step_ctrlc r)
  then show ?thesis using ctrlc_frame [OF step_ctrlc] assms(2) by auto
next
  case (step_disable n r)
  then show ?thesis using assms(2) by (auto simp: disable_ctrlc_def)
next
  case step_clear
  then show ?thesis using assms(2) by (simp add: clear_ctrlc_def)
next
  case (step_assign fd devname r)
  then show ?thesis using assign_live [OF assms(2)] by blast
qed (rule world_live [OF _ assms(2)], blast dest: input_frame output_frame fput_frame)+

lemma con_steps_live: "(con_step dr)\<^sup>*\<^sup>* st st' \<Longrightarrow> console_live M st \<Longrightarrow> console_live M st'"
  by (induction rule: rtranclp_induct) (auto intro: con_step_live)

text \<open>Which calls follow a device at all: those whose file number is one of the three; they then find it.\<close>

lemma live_calls:
  assumes "console_live M st"
  shows "console_assign dr fd devname st \<noteq> None"
    and "fd = stdin \<or> MAX_FILES \<le> fd \<Longrightarrow> fgetc dr fd st \<noteq> None \<and> ftstc dr fd st \<noteq> None"
    and "fd \<in> {stdout, stderr} \<or> MAX_FILES \<le> fd \<Longrightarrow> fputc dr fd c st \<noteq> None \<and> fputs dr fd s st \<noteq> None"
proof -
  have ok: "table_ok M st" and init: "GD_FLG_DEVINIT st" using assms by (simp_all add: console_live_def)
  show "console_assign dr fd devname st \<noteq> None"
    using assign_console_spec [OF ok, of fd dr devname]
    by (cases "fd \<in> {stdin, stdout, stderr}") (simp_all add: console_assign_def)
  have call: "f \<noteq> 0 \<Longrightarrow> call0 dr f st \<noteq> None" "f \<noteq> 0 \<Longrightarrow> call_char dr f c st \<noteq> None" "f \<noteq> 0 \<Longrightarrow> call_str dr f s st \<noteq> None"
    for f by (simp_all add: call0_def call_char_def call_str_def split: prod.splits)
  show "fgetc dr fd st \<noteq> None \<and> ftstc dr fd st \<noteq> None" if "fd = stdin \<or> MAX_FILES \<le> fd"
  proof (cases "fd = stdin")
    case True
    have "getc dr st \<noteq> None" "tstc dr st \<noteq> None" using live_input [OF assms, of dr] call(1) by metis+
    then show ?thesis using True init by (simp add: getc_def tstc_def)
  qed (use that in \<open>simp add: fgetc_def ftstc_def\<close>)
  show "fputc dr fd c st \<noteq> None \<and> fputs dr fd s st \<noteq> None" if "fd \<in> {stdout, stderr} \<or> MAX_FILES \<le> fd"
  proof (cases "fd \<in> {stdout, stderr}")
    case True
    then show ?thesis using live_output [OF assms True, of dr c s] call(2,3) by metis
  qed (use that in \<open>simp add: fputc_def fputs_def\<close>)
qed

text \<open>
  C25. Once the console is initialised it stays usable: after any sequence of input, output, checks for control-C and
  assignments of devices, whether they succeed or not, characters are read from a device for input and written to
  devices for output. No further call is undefined, so no sequence is cut short by one: input from \<open>stdin\<close>, output
  to \<open>stdout\<close> and \<open>stderr\<close>, input and output on any file number from \<open>MAX_FILES\<close> on (refused), checks for control-C,
  and an assignment of any name to any file number follow no pointer that is not a device in the list and call no
  missing function. (Negative file numbers, output to \<open>stdin\<close> and input from the other two are not covered.)
\<close>

theorem console_stays_live:
  assumes "console_live M st" "(con_step dr)\<^sup>*\<^sup>* st st'"
  shows "console_live M st' \<and>
    (\<exists>i. assigned st' stdin i \<and> getc dr st' = call0 dr (dv_getc (table st' ! i)) st' \<and> getc dr st' \<noteq> None \<and> tstc dr st' \<noteq> None) \<and>
    (\<exists>i. assigned st' stdout i \<and> putc dr c st' \<noteq> None \<and> con_puts dr s st' \<noteq> None \<and>
      (\<not> GD_FLG_SILENT st' \<longrightarrow> putc dr c st' = call_char dr (dv_putc (table st' ! i)) c st')) \<and>
    (\<exists>i. assigned st' stderr i \<and> fputs dr stderr s st' = call_str dr (dv_puts (table st' ! i)) s st' \<and> fputs dr stderr s st' \<noteq> None) \<and>
    ctrlc dr st' \<noteq> None \<and>
    (\<forall>fd. console_assign dr fd s st' \<noteq> None \<and>
      (fd = stdin \<or> MAX_FILES \<le> fd \<longrightarrow> fgetc dr fd st' \<noteq> None \<and> ftstc dr fd st' \<noteq> None) \<and>
      (fd \<in> {stdout, stderr} \<or> MAX_FILES \<le> fd \<longrightarrow> fputc dr fd c st' \<noteq> None \<and> fputs dr fd s st' \<noteq> None))"
proof -
  have live: "console_live M st'" using con_steps_live [OF assms(2,1)] .
  have init: "GD_FLG_DEVINIT st'" using live by (simp add: console_live_def)
  note calls = live_calls [OF live, where dr = dr]
  have in_ok: "\<exists>i. assigned st' stdin i \<and> getc dr st' = call0 dr (dv_getc (table st' ! i)) st' \<and> getc dr st' \<noteq> None \<and> tstc dr st' \<noteq> None"
    using live_input [OF live, of dr] calls(2) [where fd = stdin] init unfolding getc_def tstc_def by metis
  have "\<exists>i. assigned st' stdout i \<and> putc dr c st' \<noteq> None \<and> con_puts dr s st' \<noteq> None \<and>
      (\<not> GD_FLG_SILENT st' \<longrightarrow> putc dr c st' = call_char dr (dv_putc (table st' ! i)) c st')"
  proof -
    obtain i where "assigned st' stdout i" "fputc dr stdout c st' = call_char dr (dv_putc (table st' ! i)) c st'"
      using live_output [OF live, of stdout] by blast
    then show ?thesis
      using calls(3) [where fd = stdout and c = c and s = s] init by (intro exI [of _ i]) (simp add: putc_def con_puts_def)
  qed
  moreover have "\<exists>i. assigned st' stderr i \<and> fputs dr stderr s st' = call_str dr (dv_puts (table st' ! i)) s st' \<and> fputs dr stderr s st' \<noteq> None"
    using live_output [OF live, of stderr dr c s] calls(3) [where fd = stderr and c = c and s = s] by (metis insertI1 insertI2)
  moreover have "ctrlc dr st' \<noteq> None"
  proof -
    obtain t st1 where t: "tstc dr st' = Some (t, st1)" using in_ok by auto
    then have "console_live M st1" using con_step_live [OF step_tstc live] by blast
    then have "getc dr st1 \<noteq> None" using live_calls(2) [of M st1 stdin dr, simplified] by (simp add: getc_def console_live_def)
    then show ?thesis using t by (auto simp: ctrlc_def)
  qed
  ultimately show ?thesis using live in_ok calls by blast
qed

section \<open>Initialisation\<close>

lemma table_name_length: "table_ok M st \<Longrightarrow> d \<in> set (table st) \<Longrightarrow> length (dv_name d) = 16"
proof -
  assume ok: "table_ok M st" and d: "d \<in> set (table st)"
  obtain i where i: "i < length (table st)" "d = table st ! i" using d by (auto simp: in_set_conv_nth)
  obtain xs where "length xs = 52" "decode xs = d" using device_bytes_table [OF ok i(1)] i(2) by blast
  then show "length (dv_name d) = 16" by (auto simp: decode_def name_offset_def)
qed

lemma use_device_frame [simp]:
  "table (use_device dr file dev d st) = table st" "table_ok M (use_device dr file dev d st) = table_ok M st"
  "dev_addr (use_device dr file dev d st) = dev_addr st"
  "GD_FLG_DEVINIT (use_device dr file dev d st) = GD_FLG_DEVINIT st"
  "stdio_devices (use_device dr file dev d st) = (stdio_devices st)(nat file := dev)"
  "GD_FLG_SILENT (use_device dr file dev d st) = GD_FLG_SILENT st" "co_world (use_device dr file dev d st) = co_world st"
  by (simp_all add: use_device_def Let_def)

text \<open>The device chosen by the scan where none is chosen yet.\<close>

definition pick :: "int \<Rightarrow> u32 \<Rightarrow> nat \<Rightarrow> 'w console \<Rightarrow> int" where
  "pick dev fl k st =
     (if dev \<noteq> 0 then dev
      else case find_index (\<lambda>d. dv_flags d AND fl \<noteq> 0) k (drop k (table st)) of None \<Rightarrow> 0 | Some i \<Rightarrow> dev_addr st i)"

lemma scan_devices_pick:
  assumes ok: "table_ok M st"
  shows "k \<le> length (table st) \<Longrightarrow>
    scan_devices [int k + 1..int (length (table st))] inputdev outputdev st =
      Some (pick inputdev DEV_FLAGS_INPUT k st, pick outputdev DEV_FLAGS_OUTPUT k st)"
proof (induction "length (table st) - k" arbitrary: k inputdev outputdev)
  case 0
  then show ?case by (simp add: pick_def)
next
  case (Suc n)
  then have k: "k < length (table st)" by simp
  let ?d = "table st ! k"
  let ?i = "if dv_flags ?d AND DEV_FLAGS_INPUT \<noteq> 0 \<and> inputdev = 0 then dev_addr st k else inputdev"
  let ?o = "if dv_flags ?d AND DEV_FLAGS_OUTPUT \<noteq> 0 \<and> outputdev = 0 then dev_addr st k else outputdev"
  have IH: "scan_devices [int (Suc k) + 1..int (length (table st))] ?i ?o st =
      Some (pick ?i DEV_FLAGS_INPUT (Suc k) st, pick ?o DEV_FLAGS_OUTPUT (Suc k) st)"
    using Suc.hyps(2) k by (intro Suc.hyps(1)) auto
  have p: "pick ?i DEV_FLAGS_INPUT (Suc k) st = pick inputdev DEV_FLAGS_INPUT k st"
    "pick ?o DEV_FLAGS_OUTPUT (Suc k) st = pick outputdev DEV_FLAGS_OUTPUT k st"
    unfolding pick_def Cons_nth_drop_Suc [OF k, symmetric] by simp_all
  show ?case
  proof (cases "inputdev = 0 \<or> outputdev = 0")
    case True
    then show ?thesis
      unfolding upto_cons [OF k] scan_devices.simps
      using ListGetPtr_table [OF ok, of "int k + 1"] device_at_table [OF ok k] IH p by simp
  next
    case False
    then show ?thesis unfolding upto_cons [OF k] by (simp add: pick_def)
  qed
qed

text \<open>What starting a device and printing on it make of the world.\<close>

definition started :: "'w drivers \<Rightarrow> device \<Rightarrow> 'w \<Rightarrow> 'w" where
  "started dr d w = (if dv_start d \<noteq> 0 then snd (fn0 dr (dv_start d) w) else w)"

definition said :: "'w drivers \<Rightarrow> bool \<Rightarrow> device \<Rightarrow> byte list list \<Rightarrow> 'w \<Rightarrow> 'w" where
  "said dr silent d ss w = (if silent then w else fold (fn_str dr (dv_puts d)) ss w)"

lemma said_append: "said dr silent d ys (said dr silent d xs w) = said dr silent d (xs @ ys) w"
  by (simp add: said_def)

lemma set_if_table:
  assumes "table_ok M st" "i < length (table st)" "file \<in> {stdin, stdout, stderr}"
    and start: "\<forall>w. fst (fn0 dr (dv_start (table st ! i)) w) \<ge> 0"
  shows "set_if dr file (dev_addr st i) st =
    Some (use_device dr file (dev_addr st i) (table st ! i) (st\<lparr>co_world := started dr (table st ! i) (co_world st)\<rparr>))"
proof -
  have "start_device dr (table st ! i) st = (fst (start_device dr (table st ! i) st), st\<lparr>co_world := started dr (table st ! i) (co_world st)\<rparr>)"
    by (simp add: start_device_def started_def split: prod.splits)
  moreover have "fst (start_device dr (table st ! i) st) \<ge> 0"
    using start [rule_format, of "co_world st"] by (auto simp: start_device_def split: prod.splits)
  ultimately show ?thesis
    using console_setfile_table [OF assms(1-3), of dr] by (simp add: set_if_def Let_def case_prod_unfold) (metis not_less snd_conv)
qed

lemma assigned_world [simp]: "assigned (st\<lparr>co_world := w\<rparr>) = assigned st"
  by (rule ext, rule ext) (simp add: assigned_def)

lemma live_puts:
  assumes "console_live M st" "assigned st stdout j"
  shows "con_puts dr s st = Some (st\<lparr>co_world := said dr (GD_FLG_SILENT st) (table st ! j) [s] (co_world st)\<rparr>)"
proof -
  obtain i where i: "assigned st stdout i" "fputs dr stdout s st = call_str dr (dv_puts (table st ! i)) s st" "dv_puts (table st ! i) \<noteq> 0"
    using live_output [OF assms(1), of stdout] by blast
  then have "i = j" using assms(2) by (simp add: assigned_def)
  then show ?thesis using i assms(1) by (auto simp: con_puts_def console_live_def call_str_def said_def)
qed

lemma live_print_device:
  assumes "console_live M st" "assigned st stdout j" "file \<in> {stdin, stdout, stderr}" "assigned st file i"
  shows "print_device dr what none file st =
    Some (st\<lparr>co_world := said dr (GD_FLG_SILENT st) (table st ! j) [bytes what, dev_name (table st ! i) @ [10]] (co_world st)\<rparr>)"
proof -
  let ?st = "st\<lparr>co_world := said dr (GD_FLG_SILENT st) (table st ! j) [bytes what] (co_world st)\<rparr>"
  have live: "console_live M ?st" and j: "assigned ?st stdout j" and i: "assigned ?st file i" using assms by simp_all
  have ok: "table_ok M ?st" using live by (simp add: console_live_def)
  have name: "name_at ?st (stdio_devices ?st (nat file)) = Some (dev_name (table ?st ! i))"
    using i name_at_table [OF ok, of i] by (simp add: assigned_def)
  have mem: "table ?st ! i \<in> set (table ?st)" using i by (simp add: assigned_def)
  have "print_buffer (''%s'' @ nl) [ArgStr (Some (dev_name (table ?st ! i)))] = Some (dev_name (table ?st ! i) @ [10])"
    using table_name_length [OF ok mem] by (rule print_buffer_name)
  moreover have "stdio_devices ?st (nat file) \<noteq> 0" using i by (simp add: assigned_def)
  moreover note live_puts [OF assms(1,2), of dr "bytes what"] live_puts [OF live j, of dr "dev_name (table ?st ! i) @ [10]"]
  ultimately show ?thesis using name by (simp add: print_device_def con_printf_def said_def)
qed

lemma live_print_devices:
  assumes "console_live M st" "assigned st stdin i" "assigned st stdout j" "assigned st stderr j"
  shows "print_devices dr st = Some (st\<lparr>co_world := said dr (GD_FLG_SILENT st) (table st ! j)
    [bytes ''In:    '', dev_name (table st ! i) @ [10], bytes ''Out:   '', dev_name (table st ! j) @ [10],
     bytes ''Err:   '', dev_name (table st ! j) @ [10]] (co_world st)\<rparr>)"
proof -
  have "print_device dr what none fd (st\<lparr>co_world := w\<rparr>) =
      Some (st\<lparr>co_world := said dr (GD_FLG_SILENT st) (table st ! j) [bytes what, dev_name (table st ! k) @ [10]] w\<rparr>)"
    if "fd \<in> {stdin, stdout, stderr}" "assigned st fd k" for what none fd k w
    using live_print_device [of M "st\<lparr>co_world := w\<rparr>" j fd k dr what none] assms that by simp
  from this [of stdin i _ _ "co_world st"] this [of stdout j] this [of stderr j] show ?thesis
    using assms(2-4) by (simp add: print_devices_def said_append)
qed

text \<open>The three assignments of the initialisation.\<close>

lemma set_three:
  assumes ok: "table_ok M st" "drivers_ok st" and start: "\<forall>d \<in> set (table st). \<forall>w. fst (fn0 dr (dv_start d) w) \<ge> 0"
    and ij: "i < length (table st)" "dv_flags (table st ! i) AND DEV_FLAGS_INPUT \<noteq> 0"
      "j < length (table st)" "dv_flags (table st ! j) AND DEV_FLAGS_OUTPUT \<noteq> 0"
  obtains st1 st2 st3 where "set_if dr stdout (dev_addr st j) st = Some st1" "set_if dr stderr (dev_addr st j) st1 = Some st2"
    "set_if dr stdin (dev_addr st i) st2 = Some st3" "table st3 = table st"
    "assigned st3 stdin i" "assigned st3 stdout j" "assigned st3 stderr j" "console_live M (st3\<lparr>GD_FLG_DEVINIT := True\<rparr>)"
    "GD_FLG_SILENT st3 = GD_FLG_SILENT st"
    "co_world st3 = started dr (table st ! i) (started dr (table st ! j) (started dr (table st ! j) (co_world st)))"
proof -
  have set_step: "set_if dr fd (dev_addr s k) s = Some (use_device dr fd (dev_addr s k) (table s ! k)
      (s\<lparr>co_world := started dr (table s ! k) (co_world s)\<rparr>))"
    if "table s = table st" "table_ok M s" "k < length (table st)" "fd \<in> {stdin, stdout, stderr}" for s k fd
    using set_if_table [of M s k fd dr] that start by simp
  let ?s1 = "use_device dr stdout (dev_addr st j) (table st ! j) (st\<lparr>co_world := started dr (table st ! j) (co_world st)\<rparr>)"
  have w1: "set_if dr stdout (dev_addr st j) st = Some ?s1" using set_step [of st j stdout] ok(1) ij by auto
  let ?s2 = "use_device dr stderr (dev_addr st j) (table st ! j) (?s1\<lparr>co_world := started dr (table st ! j) (co_world ?s1)\<rparr>)"
  have w2: "set_if dr stderr (dev_addr st j) ?s1 = Some ?s2" using set_step [of ?s1 j stderr] ok(1) ij by auto
  let ?w3 = "started dr (table st ! i) (co_world ?s2)"
  have w3: "set_if dr stdin (dev_addr st i) ?s2 =
      Some (use_device dr stdin (dev_addr st i) (table st ! i) (?s2\<lparr>co_world := ?w3\<rparr>))"
    using set_step [of ?s2 i stdin] ok(1) ij by auto
  define s3 where "s3 = use_device dr stdin (dev_addr st i) (table st ! i) (?s2\<lparr>co_world := ?w3\<rparr>)"
  have tab: "table s3 = table st" "table_ok M s3" using ok by (simp_all add: s3_def)
  have as: "assigned s3 stdin i" "assigned s3 stdout j" "assigned s3 stderr j"
    using ij by (simp_all add: s3_def assigned_def file_flag_def stdin_def stdout_def stderr_def)
  have jt: "XF_getc (co_jt s3) = dv_getc (table s3 ! i)" "XF_tstc (co_jt s3) = dv_tstc (table s3 ! i)"
    "XF_putc (co_jt s3) = dv_putc (table s3 ! j)" "XF_puts (co_jt s3) = dv_puts (table s3 ! j)"
    unfolding tab(1) by (simp_all add: s3_def use_device_def stdin_def stdout_def stderr_def Let_def)
  let ?s4 = "s3\<lparr>GD_FLG_DEVINIT := True\<rparr>"
  have "drivers_ok ?s4" using ok(2) tab(1) by (simp add: drivers_ok_def)
  moreover have "assigned ?s4 fd k = assigned s3 fd k" for fd k by (simp add: assigned_def)
  ultimately have "console_live M ?s4"
    unfolding console_live_def using as jt tab(2) by auto
  moreover have "GD_FLG_SILENT s3 = GD_FLG_SILENT st"
    "co_world s3 = started dr (table st ! i) (started dr (table st ! j) (started dr (table st ! j) (co_world st)))"
    by (simp_all add: s3_def)
  ultimately show ?thesis using that w1 w2 w3 [folded s3_def] tab(1) as by blast
qed


section \<open>Registering devices\<close>

definition device_valid :: "device \<Rightarrow> bool" where
  "device_valid d \<longleftrightarrow> length (dv_name d) = 16 \<and> 0 \<in> set (dv_name d)"

lemma insert_end:
  assumes "list_holds M sz h a"
  shows "map_option (\<lambda>(r, a). (r \<noteq> 0, a)) (ListInsertItem h (Some x) LIST_END a) = insert_at h (length (contents_of h a)) x a"
proof -
  obtain l where l: "ar_lists a h = Some l" "list_ok M l" "contents_of h a = items l" using list_holdsE [OF assms] by blast
  have "int (length (contents_of h a)) = numItems l" using length_items [OF l(2)] l(3) by simp
  then show ?thesis using l(1) by (simp add: insert_at_def ListInsertItem_def ListInsertItems_def)
qed

lemma register_one:
  assumes ok: "table_ok M st" and max: "length (table st) < M" and d: "device_valid d"
  shows "\<exists>r st'. device_register d st = Some (0, st') \<and> table_ok M st' \<and> table st' = table st @ (if r then [d] else []) \<and>
    devlist st' = devlist st \<and> (\<forall>n. plenty (Suc n) (co_arena st) \<longrightarrow> r \<and> plenty n (co_arena st'))"
proof -
  let ?h = "devlist st" and ?a = "co_arena st" and ?x = "encode d"
  have holds: "list_holds M sizeof_device ?h ?a" using ok by (simp add: table_ok_def)
  have x: "int (length ?x) = sizeof_device" using d length_encode by (simp add: device_valid_def)
  have len: "length (contents_of ?h ?a) < M" using max by (simp add: table_def)
  obtain r a' where a': "insert_at ?h (length (contents_of ?h ?a)) ?x ?a = Some (r, a')" "list_holds M sizeof_device ?h a'"
    "contents_of ?h a' = spec_step (Insert (length (contents_of ?h ?a)) ?x, r) (contents_of ?h ?a)"
    "\<forall>n. plenty (Suc n) ?a \<longrightarrow> r \<and> plenty n a'"
    using lists.insert_law [OF holds x order.refl len] by blast
  then obtain n where "ListInsertItem ?h (Some ?x) LIST_END ?a = Some (n, a')"
    using insert_end [OF holds, of ?x] by auto
  then have "device_register d st = Some (0, st\<lparr>co_arena := a'\<rparr>)" by (simp add: device_register_def)
  moreover have "table (st\<lparr>co_arena := a'\<rparr>) = table st @ (if r then [d] else [])"
    using a'(3) decode_encode [of d] d by (cases r) (simp_all add: table_def device_valid_def)
  moreover from this have "table_ok M (st\<lparr>co_arena := a'\<rparr>)"
    using ok a'(2) d by (auto simp: table_ok_def device_valid_def split: if_splits)
  ultimately show ?thesis using a'(4) by (intro exI [of _ r] exI [of _ "st\<lparr>co_arena := a'\<rparr>"]) simp
qed

lemma register_all_plenty:
  assumes "table_ok M st" "length (table st) + length ds \<le> M" "\<forall>d \<in> set ds. device_valid d" "plenty (length ds + n) (co_arena st)"
  shows "\<exists>st'. register_all ds st = Some st' \<and> table_ok M st' \<and> table st' = table st @ ds \<and> devlist st' = devlist st \<and>
    plenty n (co_arena st')"
  using assms
proof (induction ds arbitrary: st)
  case (Cons d ds)
  have p: "plenty (Suc (length ds + n)) (co_arena st)" using Cons.prems(4) by simp
  obtain st1 where st1: "device_register d st = Some (0, st1)" "table_ok M st1" "table st1 = table st @ [d]"
    "devlist st1 = devlist st" "plenty (length ds + n) (co_arena st1)"
    using register_one [OF Cons.prems(1), of d] Cons.prems(2,3) p by fastforce
  have "length (table st1) + length ds \<le> M" "\<forall>d \<in> set ds. device_valid d" using Cons.prems(2,3) st1(3) by auto
  from Cons.IH [OF st1(2) this st1(5)] show ?case using st1 by auto
qed simp

text \<open>Of a device with no name but zeros, any other part may be set.\<close>

lemma valid_blank: "length s < 16 \<Longrightarrow> device_valid (set_name s blank_device)"
  by (simp add: device_valid_def set_name_def blank_device_def bytes_def)

lemma serial_valid: "device_valid (serial_device dr)"
  using valid_blank [of "''serial''"] by (simp add: serial_device_def device_valid_def)

text \<open>
  As long as memory lasts \<open>devices_init\<close> builds the table of exactly the devices that the drivers register, in
  their order, with the serial port (and the null device, if configured) between the early and the late ones.
\<close>

theorem devices_init_correct:
  assumes devs: "\<forall>d \<in> set (early @ (case nulldev of None \<Rightarrow> [] | Some d \<Rightarrow> [d]) @ late). device_valid d"
    and M: "length (early @ serial_device dr # (case nulldev of None \<Rightarrow> [] | Some d \<Rightarrow> [d]) @ late) \<le> M"
      "(3 * int M + 5) * 162 + 28 < 2 ^ 31"
    and mem: "plenty (M + 2) (co_arena st)"
  shows "\<exists>st'. devices_init dr junk early nulldev late st = Some (0, st') \<and> table_ok M st' \<and>
    table st' = early @ serial_device dr # (case nulldev of None \<Rightarrow> [] | Some d \<Rightarrow> [d]) @ late"
proof -
  let ?null = "case nulldev of None \<Rightarrow> [] | Some d \<Rightarrow> [d]"
  let ?sys = "serial_device dr # ?null"
  obtain p h ps where ps: "ar_mallocs (co_arena st) = p # h # ps" "p \<noteq> NULL" "h \<noteq> NULL" "M \<le> length ps" "NULL \<notin> set (take M ps)"
  proof -
    obtain p qs where q: "ar_mallocs (co_arena st) = p # qs" using mem by (cases "ar_mallocs (co_arena st)") (auto simp: plenty_def)
    then obtain h ps where "qs = h # ps" using mem by (cases qs) (auto simp: plenty_def)
    then show ?thesis using that [of p h ps] mem q by (auto simp: plenty_def)
  qed
  let ?a1 = "co_arena st\<lparr>ar_mallocs := h # ps\<rparr>" and ?a2 = "co_arena st\<lparr>ar_mallocs := ps\<rparr>"
  have m: "malloc_next (co_arena st) = (p, ?a1)" "malloc_next ?a1 = (h, ?a2)" using ps(1) by (simp_all add: malloc_next_def)
  obtain a' where a': "ListCreate junk sizeof_device (co_arena st) = (h, a')" "list_holds M sizeof_device h a'" "contents_of h a' = []"
    using ListCreate_ok [OF m ps(2,3), of sizeof_device M junk] M(2) by (auto simp: sizeof_device_def)
  have mem': "plenty M a'" using a'(1) m ps by (auto simp: ListCreate_def NewHandle_def put_list_def plenty_def split: prod.splits)
  let ?s0 = "st\<lparr>devlist := h, co_arena := a'\<rparr>"
  have s0: "table_ok M ?s0" "table ?s0 = []" using a'(2,3) by (simp_all add: table_ok_def table_def)
  define k where "k = M - length (early @ ?sys @ late)"
  have k: "M = length early + (length ?sys + (length late + k))" using M(1) by (simp add: k_def)
  have valid: "\<forall>d \<in> set early. device_valid d" "\<forall>d \<in> set ?sys. device_valid d" "\<forall>d \<in> set late. device_valid d"
    using devs serial_valid [of dr] by auto
  have "plenty (length early + (length ?sys + (length late + k))) (co_arena ?s0)" using mem' k by simp
  moreover have "length (table ?s0) + length early \<le> M" using s0(2) k by simp
  ultimately obtain s1 where s1: "register_all early ?s0 = Some s1" "table_ok M s1" "table s1 = early"
    "plenty (length ?sys + (length late + k)) (co_arena s1)"
    using register_all_plenty [OF s0(1) _ valid(1)] s0(2) by fastforce
  have "length (table s1) + length ?sys \<le> M" using s1(3) k by simp
  then obtain s2 where s2: "register_all ?sys s1 = Some s2" "table_ok M s2" "table s2 = early @ ?sys"
    "plenty (length late + k) (co_arena s2)"
    using register_all_plenty [OF s1(2) _ valid(2) s1(4)] s1(3) by fastforce
  have "length (table s2) + length late \<le> M" using s2(3) k by simp
  then obtain s3 where s3: "register_all late s2 = Some s3" "table_ok M s3" "table s3 = early @ ?sys @ late"
    using register_all_plenty [OF s2(2) _ valid(3) s2(4)] s2(3) by fastforce
  have "devices_init dr junk early nulldev late st = Some (0, s3)"
    using a'(1) ps(3) s1(1) s2(1) s3(1) unfolding devices_init_def drv_system_init_def by (simp del: register_all.simps)
  then show ?thesis using s3 by simp
qed

text \<open>
  A device registered once the console is in use may move the list: the files then point to memory that was given
  back.
\<close>

lemma outside_block:
  assumes "ar_lists (co_arena st) (devlist st) = Some l"
    and "dev < int (ls_ptr l + itemList_offset) \<or> int (ls_ptr l + itemList_offset + length (itemList l)) \<le> dev"
  shows "device_at st dev = None"
  using assms by (auto simp: device_at_def device_bytes_def get_block_def sizeof_device_def)

text \<open>
  C39. A device that is registered when the console is in use and the list is full, as the driver of an USB keyboard
  does, breaks the console: \<open>realloc\<close> may move the list, and \<open>stdio_devices\<close> keeps the addresses in the old block. If
  the new block does not overlap the old devices, the next character is read and printed through a pointer
  into memory that is no longer the list's.
\<close>

theorem register_dangles:
  assumes live: "console_live M st" and d: "device_valid d" and max: "length (table st) < M"
    and full: "ar_lists (co_arena st) (devlist st) = Some l" "listSize l = numItems l"
    and moved: "fst (malloc_next (co_arena st)) = p" "p \<noteq> NULL"
      "\<forall>i < length (table st). dev_addr st i < int (p + itemList_offset) \<or>
         int (p + itemList_offset) + (3 * int M + 5) * sizeof_device + 4 \<le> dev_addr st i"
  shows "\<exists>st'. device_register d st = Some (0, st') \<and> getc dr st' = None \<and> fputs dr stdout s st' = None"
proof -
  have ok: "table_ok M st" using live by (simp add: console_live_def)
  obtain l0 where l0: "ar_lists (co_arena st) (devlist st) = Some l0" "list_ok M l0" "itemSize l0 = sizeof_device"
    "table st = map decode (items l0)" using table_list [OF ok] by metis
  have l: "list_ok M l" "itemSize l = sizeof_device" "length (items l) < M" using l0 full(1) max by simp_all
  have g: "gives_items (itemSize l) (Some (encode d)) [encode d]"
    using d length_encode l(2) by (auto simp: gives_items_def device_valid_def)
  obtain a' l' where a': "ListInsertItem (devlist st) (Some (encode d)) LIST_END (co_arena st) = Some (1, a')"
    "ar_lists a' = (ar_lists (co_arena st))(devlist st := Some l')" "list_ok M l'" "ls_ptr l' = p"
    using insert_moves [OF full(1) l(1) g l(3)] full(2) moved(1,2) by metis
  let ?st = "st\<lparr>co_arena := a'\<rparr>"
  have ls: "ar_lists (co_arena ?st) (devlist ?st) = Some l'" using a'(2) by simp
  have z: "itemSize l' = sizeof_device"
  proof -
    obtain r st' where r: "device_register d st = Some (0, st')" "table_ok M st'"
      using register_one [OF ok max d] by blast
    then have "st' = ?st" using a'(1) by (simp add: device_register_def)
    then show ?thesis using r(2) ls by (simp add: table_ok_def list_holds_def)
  qed
  have "int (length (itemList l')) \<le> (3 * int M + 5) * sizeof_device + 4"
    using a'(3) z unfolding list_ok_def sizeof_device_def by (simp add: mult.commute)
  then have gone: "device_at ?st (dev_addr st i) = None" if "i < length (table st)" for i
    using moved(3) that a'(4) by (intro outside_block [OF ls]) fastforce
  have file_gone: "stdio_device fd ?st = None" if "fd \<in> {stdin, stdout, stderr}" for fd
  proof -
    obtain i where "assigned st fd i" using live_device [OF live \<open>fd \<in> _\<close>] by blast
    then show ?thesis using gone [of i] by (simp add: stdio_device_def assigned_def)
  qed
  have "GD_FLG_DEVINIT ?st" using live by (simp add: console_live_def)
  then have "getc dr ?st = None" "fputs dr stdout s ?st = None"
    using file_gone [of stdin] file_gone [of stdout]
    by (simp_all add: getc_def fgetc_def fputs_def stdin_def stdout_def MAX_FILES_def)
  then show ?thesis using a'(1) by (auto simp: device_register_def)
qed

section \<open>Searching a device\<close>

text \<open>
  The search for a name in the environment: where no device has the name, the last device of the list is taken, so
  that the default for names that are not found is never used.
\<close>

lemma search_loop_spec:
  assumes ok: "table_ok M st"
  shows "k \<le> length (table st) \<Longrightarrow>
    search_loop fl name dev [int k + 1..int (length (table st))] st =
      Some (case find_index (\<lambda>d. dv_flags d AND fl \<noteq> 0 \<and> dev_name d = name) k (drop k (table st)) of
              Some i \<Rightarrow> dev_addr st i
            | None \<Rightarrow> if k < length (table st) then dev_addr st (length (table st) - 1) else dev)"
proof (induction "length (table st) - k" arbitrary: k dev)
  case 0
  then show ?case by simp
next
  case (Suc n)
  then have k: "k < length (table st)" by simp
  have IH: "search_loop fl name (dev_addr st k) [int (Suc k) + 1..int (length (table st))] st =
      Some (case find_index (\<lambda>d. dv_flags d AND fl \<noteq> 0 \<and> dev_name d = name) (Suc k) (drop (Suc k) (table st)) of
              Some i \<Rightarrow> dev_addr st i
            | None \<Rightarrow> if Suc k < length (table st) then dev_addr st (length (table st) - 1) else dev_addr st k)"
    using Suc.hyps(2) k by (intro Suc.hyps(1)) auto
  moreover have "\<not> Suc k < length (table st) \<Longrightarrow> length (table st) - 1 = k" using k by simp
  ultimately show ?case
    unfolding upto_cons [OF k] Cons_nth_drop_Suc [OF k, symmetric] search_loop.simps find_index.simps
    using ListGetPtr_table [OF ok, of "int k + 1"] name_at_table [OF ok k] device_at_table [OF ok k] k
    by (auto simp: eq_commute [of name] split: option.splits)
qed

text \<open>
  \<open>search_device\<close> returns the first device of the name that can be used in the wanted direction; but when there
  is none it returns not NULL, as its callers expect, but the last device of the list, whatever its name and direction.
\<close>

theorem search_device_result:
  assumes "table_ok M st" "table st \<noteq> []"
  shows "search_device fl (Some name) st =
    Some (case find_index (\<lambda>d. dv_flags d AND fl \<noteq> 0 \<and> dev_name d = name) 0 (table st) of
            Some i \<Rightarrow> dev_addr st i
          | None \<Rightarrow> dev_addr st (length (table st) - 1))"
  using search_loop_spec [OF assms(1), of 0] assms(2) ListNumItems_table [OF assms(1)]
  by (simp add: search_device_def)

section \<open>Deregistering a device\<close>

lemma find_name_table:
  assumes ok: "table_ok M st"
  shows "k \<le> length (table st) \<Longrightarrow>
    find_name devname [int k + 1..int (length (table st))] st =
      Some (case find_index (\<lambda>d. dev_name d = devname) k (drop k (table st)) of
              Some i \<Rightarrow> (int i + 1, dev_addr st i) | None \<Rightarrow> (-1, 0))"
proof (induction "length (table st) - k" arbitrary: k)
  case 0
  then show ?case by simp
next
  case (Suc n)
  then have k: "k < length (table st)" by simp
  have IH: "find_name devname [int (Suc k) + 1..int (length (table st))] st =
      Some (case find_index (\<lambda>d. dev_name d = devname) (Suc k) (drop (Suc k) (table st)) of
              Some i \<Rightarrow> (int i + 1, dev_addr st i) | None \<Rightarrow> (-1, 0))"
    using Suc.hyps(2) k by (intro Suc.hyps(1)) auto
  then show ?case
    unfolding upto_cons [OF k] Cons_nth_drop_Suc [OF k, symmetric] find_name.simps find_index.simps
    using ListGetPtr_table [OF ok, of "int k + 1"] name_at_table [OF ok k] by simp
qed

lemma takeWhile_nul: "0 \<notin> set ys \<Longrightarrow> takeWhile (\<lambda>b. b \<noteq> 0) (ys @ 0 # zs) = (ys :: byte list)"
  by (induction ys) auto

lemma takeWhile_before_nul: "0 \<in> set ys \<Longrightarrow> takeWhile (\<lambda>b. b \<noteq> 0) (ys @ zs) = takeWhile (\<lambda>b. b \<noteq> 0) (ys :: byte list)"
  by (induction ys) auto

text \<open>A name that fits into its row of the array is read back from there.\<close>

lemma c_string_row:
  assumes "device_valid d" "length (dev_name d) < 8"
  shows "c_string (take 8 (dv_name d) @ xs) = Some (dev_name d)"
proof -
  obtain ys zs where d: "dv_name d = ys @ 0 # zs" "0 \<notin> set ys"
    using assms(1) split_list_first unfolding device_valid_def by metis
  then have name: "dev_name d = ys" by (simp add: dev_name_def takeWhile_nul)
  then have "take 8 (dv_name d) = ys @ 0 # take (7 - length ys) zs"
    using assms(2) Suc_diff_le [of "length ys" 7] unfolding d(1) name by simp
  then show ?thesis using d(2) name by (simp add: c_string_def takeWhile_nul)
qed

lemma c_string_row': "device_valid d \<Longrightarrow> c_string (dv_name d @ xs) = Some (dev_name d)"
  by (simp add: c_string_def device_valid_def dev_name_def takeWhile_before_nul)

lemma save_names_rows:
  assumes len: "length temp = 24 + spare" "8 \<le> spare"
    and dev: "\<forall>l < 3. stdio_devices st l \<noteq> dev \<and> device_at st (stdio_devices st l) = Some (D l)"
    and valid: "\<forall>l < 3. device_valid (D l) \<and> length (dev_name (D l)) < 8"
  shows "\<exists>temp'. save_names spare dev [0, 1, 2] st temp = Some (Some temp') \<and>
    (\<forall>l < 3. c_string (drop (8 * l) temp') = Some (dev_name (D l)))"
proof -
  let ?temp = "take 8 (dv_name (D 0)) @ take 8 (dv_name (D 1)) @ dv_name (D 2) @ drop 32 temp"
  have n: "length (dv_name (D l)) = 16" if "l < 3" for l using valid that by (simp add: device_valid_def)
  have l3: "l < 3 \<longleftrightarrow> l = 0 \<or> l = 1 \<or> l = 2" for l :: nat by auto
  have "save_names spare dev [0, 1, 2] st temp = Some (Some ?temp)"
    using dev len n [of 0] n [of 1] n [of 2] by (simp add: save_name_def)
  moreover have "\<forall>l < 3. c_string (drop (8 * l) ?temp) = Some (dev_name (D l))"
    using valid c_string_row c_string_row' n [of 0] n [of 1] unfolding l3 by (auto simp: numeral_2_eq_2)
  ultimately show ?thesis by blast
qed

lemma reassign_files_result:
  assumes "name_at st dev = Some name" and "\<forall>l < 3. c_string (drop (8 * l) temp) = Some (N l)"
  shows "reassign_files temp dev [0, 1, 2] st =
    Some (st\<lparr>stdio_devices := (\<lambda>l. if l < 3 \<and> name = N l then dev else stdio_devices st l)\<rparr>)"
proof -
  have [simp]: "name_at (st\<lparr>stdio_devices := f\<rparr>) dev = Some name" for f
    using assms(1) by (simp add: name_at_def device_bytes_def)
  have c: "c_string temp = Some (N 0)" "c_string (drop 8 temp) = Some (N 1)" "c_string (drop 16 temp) = Some (N 2)"
    using assms(2) [rule_format, of 0] assms(2) [rule_format, of 1] assms(2) [rule_format, of 2] by simp_all
  have l3: "l < 3 \<longleftrightarrow> l = 0 \<or> l = 1 \<or> l = 2" for l :: nat by auto
  show ?thesis unfolding l3 using assms(1) c
    by (cases "name = N 0"; cases "name = N 1"; cases "name = N 2")
      (auto simp: fun_eq_iff intro!: console.equality)
qed


text \<open>What the last loop leaves: each file with a saved name that a device has gets this device.\<close>

definition reassigned :: "(nat \<Rightarrow> byte list) \<Rightarrow> nat \<Rightarrow> 'w console \<Rightarrow> (nat \<Rightarrow> int) \<Rightarrow> bool" where
  "reassigned N k st f \<longleftrightarrow>
     (\<forall>l i. l < 3 \<and> k \<le> i \<and> i < length (table st) \<and> dev_name (table st ! i) = N l \<longrightarrow> f l = dev_addr st i) \<and>
     (\<forall>l. (\<forall>i. k \<le> i \<and> i < length (table st) \<longrightarrow> dev_name (table st ! i) \<noteq> N l) \<longrightarrow> f l = stdio_devices st l)"

lemma reassign_result:
  assumes ok: "table_ok M st" and N: "\<forall>l < 3. c_string (drop (8 * l) temp) = Some (N l)"
    and dist: "distinct (map dev_name (table st))"
  shows "k \<le> length (table st) \<Longrightarrow> \<exists>f. reassign temp [int k + 1..int (length (table st))] st = Some (st\<lparr>stdio_devices := f\<rparr>) \<and>
    reassigned N k st f"
  using ok dist
proof (induction "length (table st) - k" arbitrary: k st)
  case 0
  then show ?case by (intro exI [of _ "stdio_devices st"]) (auto simp: reassigned_def)
next
  case (Suc n)
  then have k: "k < length (table st)" by simp
  let ?f = "\<lambda>l. if l < 3 \<and> dev_name (table st ! k) = N l then dev_addr st k else stdio_devices st l"
  let ?st = "st\<lparr>stdio_devices := ?f\<rparr>"
  have files: "reassign_files temp (dev_addr st k) [0, 1, 2] st = Some ?st"
    using name_at_table [OF Suc.prems(2) k] N by (intro reassign_files_result)
  have "n = length (table ?st) - Suc k" "Suc k \<le> length (table ?st)" "table_ok M ?st" "distinct (map dev_name (table ?st))"
    using Suc.hyps(2) Suc.prems k by simp_all
  from Suc.hyps(1) [OF this]
  obtain f where f: "reassign temp [int (Suc k) + 1..int (length (table ?st))] ?st = Some (?st\<lparr>stdio_devices := f\<rparr>)"
    "reassigned N (Suc k) ?st f"
    by blast
  have "reassign temp [int k + 1..int (length (table st))] st = Some (st\<lparr>stdio_devices := f\<rparr>)"
    unfolding upto_cons [OF k] reassign.simps
    using ListGetPtr_table [OF Suc.prems(2), of "int k + 1"] files f(1) by (simp del: reassign_files.simps)
  moreover have "reassigned N k st f"
    unfolding reassigned_def
  proof (intro conjI allI impI)
    fix l i assume a: "l < 3 \<and> k \<le> i \<and> i < length (table st) \<and> dev_name (table st ! i) = N l"
    show "f l = dev_addr st i"
    proof (cases "i = k")
      case True
      have "dev_name (table st ! j) \<noteq> N l" if "Suc k \<le> j" "j < length (table st)" for j
        using that a k True nth_eq_iff_index_eq [OF Suc.prems(3), of j k] by auto
      then show ?thesis using f(2) a True by (simp add: reassigned_def)
    next
      case False
      then show ?thesis using f(2) a by (simp add: reassigned_def)
    qed
  next
    fix l assume a: "\<forall>i. k \<le> i \<and> i < length (table st) \<longrightarrow> dev_name (table st ! i) \<noteq> N l"
    then show "f l = stdio_devices st l" using f(2) k by (simp add: reassigned_def)
  qed
  ultimately show ?case by blast
qed

lemma index_after_removal:
  assumes "i < length xs" "k < length xs" "i \<noteq> k"
  obtains i' where "i' < length (take k xs @ drop (Suc k) xs)" "(take k xs @ drop (Suc k) xs) ! i' = xs ! i"
proof -
  have "xs ! i \<in> set (take k xs @ drop (Suc k) xs)"
  proof (cases "i < k")
    case True
    then have "xs ! i = take k xs ! i" "i < length (take k xs)" using assms by simp_all
    then show ?thesis by (metis UnI1 nth_mem set_append)
  next
    case False
    then have "xs ! i = drop (Suc k) xs ! (i - Suc k)" "i - Suc k < length (drop (Suc k) xs)" using assms by auto
    then show ?thesis by (metis UnI2 nth_mem set_append)
  qed
  then show ?thesis using that by (metis in_set_conv_nth)
qed

text \<open>The table after a removal.\<close>

lemma remove_table:
  assumes ok: "table_ok M st" and k: "k < length (table st)"
  shows "\<exists>out a'. ListRemoveItem (devlist st) False (int k + 1) (co_arena st) = Some (out, a') \<and>
    table_ok M (st\<lparr>co_arena := a'\<rparr>) \<and> table (st\<lparr>co_arena := a'\<rparr>) = take k (table st) @ drop (Suc k) (table st)"
proof -
  have holds: "list_holds M sizeof_device (devlist st) (co_arena st)" using ok by (simp add: table_ok_def)
  have "k < length (contents_of (devlist st) (co_arena st))" using k by (simp add: table_def)
  then obtain a' where a': "delete_at (devlist st) k (co_arena st) = Some a'" "list_holds M sizeof_device (devlist st) a'"
    "contents_of (devlist st) a' = spec_step (Delete k, True) (contents_of (devlist st) (co_arena st))"
    using lists.delete_law [OF holds] by blast
  then have t: "table (st\<lparr>co_arena := a'\<rparr>) = take k (table st) @ drop (Suc k) (table st)"
    by (simp add: table_def take_map drop_map)
  then have "table_ok M (st\<lparr>co_arena := a'\<rparr>)"
    using ok a'(2) by (auto simp: table_ok_def dest: in_set_takeD in_set_dropD)
  then show ?thesis using a'(1) t by (auto simp: delete_at_def)
qed

lemma distinct_removed: "distinct xs \<Longrightarrow> distinct (take k xs @ drop (Suc k) xs)"
  using set_take_disj_set_drop_if_distinct [of xs k "Suc k"] by simp

lemma reassigned_file:
  assumes r: "reassigned N 0 st f" and mem: "d \<in> set (table st)" "dev_name d = N l" "l < 3"
    and dist: "distinct (map dev_name (table st))"
  shows "\<exists>i < length (table st). table st ! i = d \<and> f l = dev_addr st i"
  using assms unfolding reassigned_def in_set_conv_nth by auto

lemma file_index: "fd \<in> {stdin, stdout, stderr} \<Longrightarrow> nat fd < 3"
  by (auto simp: stdin_def stdout_def stderr_def)

text \<open>A change of the table that takes the files along keeps the console usable.\<close>

lemma files_follow:
  assumes live: "console_live M st" and ok: "table_ok M st'" and sub: "set (table st') \<subseteq> set (table st)"
    and same: "GD_FLG_DEVINIT st' = GD_FLG_DEVINIT st" "co_jt st' = co_jt st"
    and files: "\<And>fd. fd \<in> {stdin, stdout, stderr} \<Longrightarrow>
      \<exists>i < length (table st'). stdio_device fd st = Some (table st' ! i) \<and> stdio_devices st' (nat fd) = dev_addr st' i"
  shows "console_live M st' \<and> (\<forall>fd \<in> {stdin, stdout, stderr}. stdio_device fd st' = stdio_device fd st)"
proof -
  have as: "\<exists>i. assigned st' fd i \<and> stdio_device fd st = Some (table st' ! i) \<and> stdio_device fd st' = Some (table st' ! i)"
    if fd: "fd \<in> {stdin, stdout, stderr}" for fd
  proof -
    obtain i where i: "i < length (table st')" "stdio_device fd st = Some (table st' ! i)" "stdio_devices st' (nat fd) = dev_addr st' i"
      using files [OF fd] by blast
    obtain j where "assigned st fd j" "stdio_device fd st = Some (table st ! j)" using live_device [OF live fd] by blast
    then have "dv_flags (table st' ! i) AND file_flag fd \<noteq> 0" using i(2) by (simp add: assigned_def)
    moreover have "stdio_device fd st' = Some (table st' ! i)"
      using device_at_table [OF ok i(1)] i(3) fd by (auto simp: stdio_device_def stdin_def stdout_def stderr_def)
    ultimately show ?thesis using i by (auto simp: assigned_def)
  qed
  have jt: "XF_getc (co_jt st) = dv_getc d \<and> XF_tstc (co_jt st) = dv_tstc d" if "stdio_device stdin st = Some d" for d
    using that live device_at_table [of M st] by (auto simp: console_live_def assigned_def stdio_device_def stdin_def)
  have jt': "XF_putc (co_jt st) = dv_putc d \<and> XF_puts (co_jt st) = dv_puts d" if "stdio_device stdout st = Some d" for d
    using that live device_at_table [of M st] by (auto simp: console_live_def assigned_def stdio_device_def stdout_def)
  have "drivers_ok st'" "GD_FLG_DEVINIT st'" using live sub same by (auto simp: console_live_def drivers_ok_def)
  then have "console_live M st'"
    using as [of stdin] as [of stdout] as [of stderr] jt jt' ok same(2) unfolding console_live_def by auto
  then show ?thesis using as by fastforce
qed

text \<open>The devices of the files, none of them the one to be removed.\<close>

lemma other_files:
  assumes live: "console_live M st" and names: "\<forall>d \<in> set (table st). length (dev_name d) < 8"
    and k: "k < length (table st)" "\<forall>l < 3. stdio_devices st l \<noteq> dev_addr st k"
  obtains D where "\<And>l. l < 3 \<Longrightarrow> stdio_device (int l) st = Some (D l) \<and> device_at st (stdio_devices st l) = Some (D l) \<and>
    device_valid (D l) \<and> length (dev_name (D l)) < 8 \<and> D l \<in> set (take k (table st) @ drop (Suc k) (table st))"
proof -
  have ok: "table_ok M st" using live by (simp add: console_live_def)
  have "\<exists>d. stdio_device (int l) st = Some d \<and> device_at st (stdio_devices st l) = Some d \<and>
      device_valid d \<and> length (dev_name d) < 8 \<and> d \<in> set (take k (table st) @ drop (Suc k) (table st))" if l: "l < 3" for l
  proof -
    have "int l \<in> {stdin, stdout, stderr}" using l by (auto simp: stdin_def stdout_def stderr_def)
    then obtain i where i: "assigned st (int l) i" "stdio_device (int l) st = Some (table st ! i)" "table st ! i \<in> set (table st)"
      using live_device [OF live] by blast
    then have "i < length (table st)" "i \<noteq> k" using k(2) l by (auto simp: assigned_def)
    then obtain i' where "i' < length (take k (table st) @ drop (Suc k) (table st))"
      "(take k (table st) @ drop (Suc k) (table st)) ! i' = table st ! i"
      using index_after_removal [OF _ k(1)] by blast
    then have "table st ! i \<in> set (take k (table st) @ drop (Suc k) (table st))" by (metis nth_mem)
    moreover have "device_valid (table st ! i)"
      using table_name_length [OF ok i(3)] ok i(3) by (simp add: device_valid_def table_ok_def)
    ultimately show ?thesis using i names by (simp add: stdio_device_def)
  qed
  then show ?thesis using that by metis
qed

lemma find_distinct:
  assumes ok: "table_ok M st" and dist: "distinct (map dev_name (table st))" and k: "k < length (table st)"
  shows "find_name (dev_name (table st ! k)) [1..int (length (table st))] st = Some (int k + 1, dev_addr st k)"
proof -
  let ?P = "\<lambda>d. dev_name d = dev_name (table st ! k)"
  have "find_index ?P 0 (table st) = Some k"
  proof (cases "find_index ?P 0 (table st)")
    case None
    then show ?thesis using k by (auto simp: find_index_None)
  next
    case (Some i)
    then show ?thesis using find_index_Some [OF Some] k nth_eq_iff_index_eq [OF dist, of i k] by simp
  qed
  then show ?thesis using find_name_table [OF ok, of 0] by simp
qed

text \<open>
  \<open>device_deregister\<close> takes a device that no file uses out of the list, and each file still is the device it
  was, although the devices behind the removed one have moved: provided that the names differ and have at most 7
  characters, and that the 8 bytes behind the array \<open>temp_names\<close>, which are always overwritten, may be.
\<close>

theorem device_deregister_correct:
  assumes live: "console_live M st" and names: "distinct (map dev_name (table st))" "\<forall>d \<in> set (table st). length (dev_name d) < 8"
    and k: "k < length (table st)" "dev_name (table st ! k) = devname" "\<forall>l < 3. stdio_devices st l \<noteq> dev_addr st k"
    and temp: "length temp = 24 + spare" "8 \<le> spare"
  shows "\<exists>st'. device_deregister spare temp devname st = Some (0, st') \<and>
    table st' = take k (table st) @ drop (Suc k) (table st) \<and> console_live M st' \<and>
    (\<forall>fd \<in> {stdin, stdout, stderr}. stdio_device fd st' = stdio_device fd st)"
proof -
  have ok: "table_ok M st" using live by (simp add: console_live_def)
  have find: "find_name devname [1..int (length (table st))] st = Some (int k + 1, dev_addr st k)"
    using find_distinct [OF ok names(1) k(1)] k(2) by simp
  obtain D where D: "\<And>l. l < 3 \<Longrightarrow> stdio_device (int l) st = Some (D l) \<and> device_at st (stdio_devices st l) = Some (D l) \<and>
      device_valid (D l) \<and> length (dev_name (D l)) < 8 \<and> D l \<in> set (take k (table st) @ drop (Suc k) (table st))"
    using other_files [OF live names(2) k(1,3)] by blast
  obtain temp' where temp': "save_names spare (dev_addr st k) [0, 1, 2] st temp = Some (Some temp')"
    "\<forall>l < 3. c_string (drop (8 * l) temp') = Some (dev_name (D l))"
    using save_names_rows [OF temp, of st "dev_addr st k" D] D k(3) by blast
  obtain out a' where a': "ListRemoveItem (devlist st) False (int k + 1) (co_arena st) = Some (out, a')"
    "table_ok M (st\<lparr>co_arena := a'\<rparr>)" "table (st\<lparr>co_arena := a'\<rparr>) = take k (table st) @ drop (Suc k) (table st)"
    using remove_table [OF ok k(1)] by blast
  let ?s = "st\<lparr>co_arena := a'\<rparr>"
  have dist: "distinct (map dev_name (table ?s))"
    using distinct_removed [OF names(1), of k] unfolding a'(3) by (simp add: take_map drop_map)
  obtain f where f: "reassign temp' [1..int (length (table ?s))] ?s = Some (?s\<lparr>stdio_devices := f\<rparr>)"
    "reassigned (dev_name \<circ> D) 0 ?s f"
    using reassign_result [OF a'(2) _ dist, of temp' "dev_name \<circ> D" 0] temp'(2) by auto
  let ?st = "?s\<lparr>stdio_devices := f\<rparr>"
  have n: "ListNumItems (devlist st) (co_arena st) = Some (int (length (table st)))"
    "ListNumItems (devlist st) a' = Some (int (length (table ?s)))"
    using ListNumItems_table [OF ok] ListNumItems_table [OF a'(2)] by simp_all
  have "device_deregister spare temp devname st = Some (0, ?st)"
    by (simp add: device_deregister_def find temp'(1) a'(1) n f(1) del: save_names.simps reassign.simps One_nat_def)
  moreover have "console_live M ?st \<and> (\<forall>fd \<in> {stdin, stdout, stderr}. stdio_device fd ?st = stdio_device fd st)"
  proof (rule files_follow [OF live])
    show "set (table ?st) \<subseteq> set (table st)" using a'(3) by (auto dest: in_set_takeD in_set_dropD)
    fix fd assume fd: "fd \<in> {stdin, stdout, stderr}"
    then have "int (nat fd) = fd" by (auto simp: stdin_def stdout_def stderr_def)
    then show "\<exists>i < length (table ?st). stdio_device fd st = Some (table ?st ! i) \<and> stdio_devices ?st (nat fd) = dev_addr ?st i"
      using reassigned_file [OF f(2) _ _ file_index [OF fd] dist, of "D (nat fd)"] D [OF file_index [OF fd]] a'(3) by auto
  qed (use a'(2) in simp_all)
  ultimately show ?thesis using a'(3) by (intro exI [of _ ?st]) simp
qed

text \<open>With nothing behind the array that may be overwritten, every removal is undefined.\<close>

lemma deregister_overflows:
  assumes live: "console_live M st" and names: "distinct (map dev_name (table st))" "\<forall>d \<in> set (table st). length (dev_name d) < 8"
    and k: "k < length (table st)" "\<forall>l < 3. stdio_devices st l \<noteq> dev_addr st k" and spare: "spare < 8"
  shows "device_deregister spare temp (dev_name (table st ! k)) st = None"
proof -
  have ok: "table_ok M st" using live by (simp add: console_live_def)
  obtain D where D: "\<And>l. l < 3 \<Longrightarrow> stdio_device (int l) st = Some (D l) \<and> device_at st (stdio_devices st l) = Some (D l) \<and>
      device_valid (D l) \<and> length (dev_name (D l)) < 8 \<and> D l \<in> set (take k (table st) @ drop (Suc k) (table st))"
    using other_files [OF live names(2) k] by blast
  have "save_names spare (dev_addr st k) [0, 1, 2] st temp = None"
    using k(2) spare D [of 0] D [of 1] D [of 2] by (simp add: save_name_def)
  then show ?thesis
    using find_distinct [OF ok names(1) k(1)] ListNumItems_table [OF ok]
    by (simp add: device_deregister_def del: save_names.simps One_nat_def)
qed

section \<open>A console for the witnesses\<close>

text \<open>A serial port and a display; the world is what they print. The list is full.\<close>

definition drivers0 :: "byte list drivers" where
  "drivers0 = \<lparr>fn0 = \<lambda>f w. (0, w), fn_char = \<lambda>f c w. w @ [c], fn_str = \<lambda>f s w. w @ s,
     serial_getc = 0x10, serial_tstc = 0x14, serial_putc = 0x18, serial_puts = 0x1c, serial_printf = 0x20, std_printf = 0x24\<rparr>"

definition lcd0 :: device where
  "lcd0 = (set_name ''lcd'' blank_device)\<lparr>dv_flags := DEV_FLAGS_OUTPUT, dv_putc := 0x30, dv_puts := 0x34\<rparr>"

definition list2 :: ListStruct where
  "list2 = \<lparr>ls_ptr = 0x1000, ls_size = 132, signature = 0x4C495354, percentIncrease = 10, minNumItemsIncrease = 4,
     listSize = 2, itemSize = 52, numItems = 2, itemList = encode (serial_device drivers0) @ encode lcd0 @ [0, 0, 0, 0]\<rparr>"

definition console0 :: "byte list console" where
  "console0 = \<lparr>co_arena = \<lparr>ar_lists = [0x2000 \<mapsto> list2], ar_mallocs = [0x9000]\<rparr>, devlist = 0x2000, stdio_devices = \<lambda>_. 0,
     have_console = True, GD_FLG_DEVINIT = False, GD_FLG_SILENT = False,
     co_jt = \<lparr>XF_getc = 0, XF_tstc = 0, XF_putc = 0, XF_puts = 0, XF_printf = 0\<rparr>, ctrlc_disabled = 0, ctrlc_was_pressed = 0,
     co_world = []\<rparr>"

definition console1 :: "byte list console" where
  "console1 = console0\<lparr>GD_FLG_DEVINIT := True, stdio_devices := \<lambda>_. 4120,
     co_jt := \<lparr>XF_getc = 0x10, XF_tstc = 0x14, XF_putc = 0x18, XF_puts = 0x1c, XF_printf = 0x24\<rparr>\<rparr>"

lemma lcd_valid: "device_valid lcd0"
  using valid_blank [of "''lcd''"] by (simp add: lcd0_def device_valid_def)

lemma table0: "table_ok 9 console0" "table console0 = [serial_device drivers0, lcd0]"
proof -
  have len: "length (encode (serial_device drivers0)) = 52" "length (encode lcd0) = 52"
    using length_encode [of "serial_device drivers0"] length_encode [of lcd0] serial_valid [of drivers0] lcd_valid
    by (simp_all add: device_valid_def sizeof_device_def)
  have items: "items list2 = [encode (serial_device drivers0), encode lcd0]"
    by (rule items_stores [of _ _ "[0, 0, 0, 0]"]) (use len in \<open>simp add: stores_def list2_def\<close>)
  then show tab: "table console0 = [serial_device drivers0, lcd0]"
    using serial_valid [of drivers0] lcd_valid
    by (simp add: table_def console0_def contents_of_def decode_encode device_valid_def)
  have "list_ok 9 list2" using len by (simp add: list_ok_def list2_def itemList_offset_def)
  then show "table_ok 9 console0"
    using serial_valid [of drivers0] lcd_valid unfolding table_ok_def tab
    by (simp add: console0_def list_holds_def device_valid_def) (simp add: list2_def sizeof_device_def)
qed

lemma flags0: "dv_flags (serial_device drivers0) AND DEV_FLAGS_INPUT \<noteq> 0" "dv_flags (serial_device drivers0) AND DEV_FLAGS_OUTPUT \<noteq> 0"
  "dv_flags lcd0 AND DEV_FLAGS_INPUT = 0" "dv_flags lcd0 AND DEV_FLAGS_OUTPUT \<noteq> 0"
  by (simp_all add: serial_device_def lcd0_def DEV_FLAGS_INPUT_def DEV_FLAGS_OUTPUT_def DEV_FLAGS_SYSTEM_def)

lemma names0: "dev_name (serial_device drivers0) = bytes ''serial''" "dev_name lcd0 = bytes ''lcd''"
  by (simp_all add: dev_name_def serial_device_def lcd0_def set_name_def)

lemma drivers_ok0: "drivers_ok console0"
  unfolding drivers_ok_def table0(2) using flags0 by (simp add: serial_device_def drivers0_def lcd0_def)

lemma table1: "table_ok 9 console1" "table console1 = [serial_device drivers0, lcd0]"
  using table0 by (simp_all add: console1_def)

lemma addr1: "dev_addr console1 i = 4120 + 52 * int i"
  by (simp add: dev_addr_def block_at_def console1_def console0_def list2_def itemList_offset_def sizeof_device_def)

lemma live1: "console_live 9 console1"
proof -
  have as: "assigned console1 fd 0" for fd
    using flags0 by (simp add: assigned_def table1 addr1 file_flag_def) (simp add: console1_def)
  have "drivers_ok console1" using drivers_ok0 by (simp add: drivers_ok_def console1_def)
  moreover have "GD_FLG_DEVINIT console1" "XF_getc (co_jt console1) = dv_getc (table console1 ! 0)"
    "XF_tstc (co_jt console1) = dv_tstc (table console1 ! 0)" "XF_putc (co_jt console1) = dv_putc (table console1 ! 0)"
    "XF_puts (co_jt console1) = dv_puts (table console1 ! 0)"
    unfolding table1 by (simp_all add: console1_def serial_device_def drivers0_def)
  ultimately show ?thesis unfolding console_live_def using as table1(1) by blast
qed

theorem console_assign_correct_witness:
  "\<exists>st. console_assign drivers0 stdout (bytes ''lcd'') console1 = Some (0, st) \<and> stdio_devices st 1 = 4172"
proof -
  have "start_device drivers0 lcd0 console1 = (0, console1)" by (simp add: start_device_def lcd0_def set_name_def blank_device_def)
  then have "assign_spec drivers0 stdout (bytes ''lcd'') console1 = (0, use_device drivers0 stdout 4172 lcd0 console1)"
    using flags0 by (simp add: assign_spec_def table1 names0 addr1 file_flag_def stdin_def stdout_def)
  then show ?thesis
    using console_assign_correct [OF table1(1), of stdout drivers0 "bytes ''lcd''"] by (simp add: stdout_def)
qed

theorem console_stays_live_witness:
  "\<exists>st. console_assign drivers0 stdout (bytes ''lcd'') console1 = Some (0, st) \<and> putc drivers0 65 st \<noteq> None \<and> ctrlc drivers0 st \<noteq> None"
proof -
  obtain st where st: "console_assign drivers0 stdout (bytes ''lcd'') console1 = Some (0, st)"
  proof -
    have "start_device drivers0 lcd0 console1 = (0, console1)" by (simp add: start_device_def lcd0_def set_name_def blank_device_def)
    then have "assign_spec drivers0 stdout (bytes ''lcd'') console1 = (0, use_device drivers0 stdout 4172 lcd0 console1)"
      using flags0 by (simp add: assign_spec_def table1 names0 addr1 file_flag_def stdin_def stdout_def)
    then show ?thesis using that assign_console_spec [OF table1(1), of stdout drivers0 "bytes ''lcd''"] by simp
  qed
  then have "con_step drivers0 console1 st" by (rule step_assign)
  then have "(con_step drivers0)\<^sup>*\<^sup>* console1 st" by (rule r_into_rtranclp)
  then show ?thesis using st console_stays_live [OF live1, of drivers0 st 65] by blast
qed


theorem devices_init_correct_witness:
  "\<exists>st. devices_init drivers0 [] [lcd0] None [] (console0\<lparr>co_arena := \<lparr>ar_lists = \<lambda>_. None, ar_mallocs = [8, 16, 24, 32]\<rparr>\<rparr>) = Some (0, st) \<and>
     table st = [lcd0, serial_device drivers0]"
  using devices_init_correct [of "[lcd0]" None "[]" drivers0 2 "console0\<lparr>co_arena := \<lparr>ar_lists = \<lambda>_. None, ar_mallocs = [8, 16, 24, 32]\<rparr>\<rparr>" "[]"]
    lcd_valid by (auto simp: plenty_def)

theorem register_dangles_witness:
  "\<exists>st. device_register (null_device 0x50 0x54 0x58) console1 = Some (0, st) \<and> getc drivers0 st = None"
proof -
  have "device_valid (null_device 0x50 0x54 0x58)"
    using valid_blank [of "''nulldev''"] by (simp add: null_device_def device_valid_def)
  moreover have "ar_lists (co_arena console1) (devlist console1) = Some list2" "listSize list2 = numItems list2"
    "fst (malloc_next (co_arena console1)) = 0x9000" "(0x9000 :: nat) \<noteq> NULL"
    by (simp_all add: console1_def console0_def list2_def malloc_next_def)
  moreover have "\<forall>i < length (table console1). dev_addr console1 i < int (0x9000 + itemList_offset) \<or>
      int (0x9000 + itemList_offset) + (3 * int 9 + 5) * sizeof_device + 4 \<le> dev_addr console1 i"
    unfolding table1(2) addr1 by (simp add: itemList_offset_def)
  ultimately show ?thesis
    using register_dangles [OF live1, of "null_device 0x50 0x54 0x58" list2 "0x9000" drivers0] by (auto simp: table1)
qed

theorem search_device_result_witness:
  "search_device DEV_FLAGS_INPUT (Some (bytes ''usbkbd'')) console1 = Some (dev_addr console1 1)"
  using search_device_result [OF table1(1), of DEV_FLAGS_INPUT "bytes ''usbkbd''"]
  by (simp add: table1 names0)

theorem device_deregister_correct_witness:
  "\<exists>st. device_deregister 8 (replicate 32 0) (bytes ''lcd'') console1 = Some (0, st) \<and> table st = [serial_device drivers0] \<and>
     stdio_device stdout st = Some (serial_device drivers0)"
proof -
  have "distinct (map dev_name (table console1))" "\<forall>d \<in> set (table console1). length (dev_name d) < 8"
    unfolding table1(2) by (simp_all add: names0)
  moreover have "1 < length (table console1)" "dev_name (table console1 ! 1) = bytes ''lcd''"
    unfolding table1(2) by (simp_all add: names0)
  moreover have "\<forall>l < 3. stdio_devices console1 l \<noteq> dev_addr console1 1" unfolding addr1 by (simp add: console1_def)
  ultimately obtain st where st: "device_deregister 8 (replicate 32 0) (bytes ''lcd'') console1 = Some (0, st)"
    "table st = take 1 (table console1) @ drop (Suc 1) (table console1)"
    "\<forall>fd \<in> {stdin, stdout, stderr}. stdio_device fd st = stdio_device fd console1"
    using device_deregister_correct [OF live1, of 1 "bytes ''lcd''" "replicate 32 0" 8] by auto
  have "stdio_device stdout console1 = device_at console1 (dev_addr console1 0)"
    unfolding addr1 by (simp add: stdio_device_def stdout_def console1_def)
  then have "stdio_device stdout console1 = Some (serial_device drivers0)"
    using device_at_table [OF table1(1), of 0] by (simp add: table1)
  then show ?thesis using st by (simp add: table1)
qed

end
