(* ===== verification/MemSize.thy ===== *)
theory MemSize imports Prelude begin

text \<open>
  \<open>get_ram_size\<close> of \<open>common/memsize.c\<close>, which finds the size of the memory between \<open>base\<close> and \<open>base + maxsize\<close>: it writes
  a pattern at \<open>base\<close> and at each power of two behind it, largest first, and looks which words hold it.

  The memory is the device under test, so it is an argument: \<open>rd\<close> and \<open>wr\<close> read and write the word with a given index from
  \<open>base\<close> on, and nothing is assumed of them in the definitions. The theorems are about memory that has fewer words
  than addresses. \<open>long\<close> has 32 bits; \<open>save\<close> is the array up to \<open>i\<close>, last element first. \<open>None\<close>: the array of 32
  words is left.
\<close>

section \<open>The code\<close>

function pattern_loop ::
    "(nat \<Rightarrow> 's \<Rightarrow> u32) \<Rightarrow> (nat \<Rightarrow> u32 \<Rightarrow> 's \<Rightarrow> 's) \<Rightarrow> nat \<Rightarrow> u32 list \<Rightarrow> 's \<Rightarrow> (u32 list \<times> 's) option" where
  "pattern_loop rd wr cnt save s =
     (if cnt > 0 then
        if length save < 32 then pattern_loop rd wr (cnt div 2) (rd cnt s # save) (wr cnt (NOT (of_nat cnt)) s) else None
      else Some (save, s))"
  by pat_completeness auto
termination by (relation "measure (\<lambda>(rd, wr, cnt, save, s). cnt)") auto

declare pattern_loop.simps [simp del]

partial_function (option) restore_loop ::
    "(nat \<Rightarrow> u32 \<Rightarrow> 's \<Rightarrow> 's) \<Rightarrow> nat \<Rightarrow> nat \<Rightarrow> u32 list \<Rightarrow> 's \<Rightarrow> 's option" where
  "restore_loop wr cnt n save s =
     (if cnt < n then case save of [] \<Rightarrow> None | x # save \<Rightarrow> restore_loop wr (2 * cnt) n save (wr cnt x s)
      else Some s)"

partial_function (option) check_loop ::
    "(nat \<Rightarrow> 's \<Rightarrow> u32) \<Rightarrow> (nat \<Rightarrow> u32 \<Rightarrow> 's \<Rightarrow> 's) \<Rightarrow> u32 \<Rightarrow> nat \<Rightarrow> nat \<Rightarrow> u32 list \<Rightarrow> 's \<Rightarrow> (u32 \<times> 's) option" where
  "check_loop rd wr maxsize cnt n save s =
     (if cnt < n then
        case save of
          [] \<Rightarrow> None
        | x # save \<Rightarrow>
            let val = rd cnt s; s = wr cnt x s in
            if val \<noteq> NOT (of_nat cnt)
            then map_option (Pair (of_nat (cnt * 4))) (restore_loop wr (2 * cnt) n save s)
            else check_loop rd wr maxsize (2 * cnt) n save s
      else Some (maxsize, s))"

definition get_ram_size ::
    "(nat \<Rightarrow> 's \<Rightarrow> u32) \<Rightarrow> (nat \<Rightarrow> u32 \<Rightarrow> 's \<Rightarrow> 's) \<Rightarrow> u32 \<Rightarrow> 's \<Rightarrow> (u32 \<times> 's) option" where
  "get_ram_size rd wr maxsize s =
     (let n = unat maxsize div 4 in
      case pattern_loop rd wr (n div 2) [] s of
        None \<Rightarrow> None
      | Some (save, s) \<Rightarrow>
          if length save \<ge> 32 then None
          else
            let base = rd 0 s; s = wr 0 0 s in
            if rd 0 s \<noteq> 0
            then map_option (Pair 0) (restore_loop wr 1 n save (wr 0 base s))
            else check_loop rd wr maxsize 1 n save s)"

section \<open>Memory of some size\<close>

text \<open>
  Memory of \<open>N\<close> words: its cells, read and written modulo \<open>N\<close>, as address lines that are not connected make it.
\<close>

definition alias_rd :: "nat \<Rightarrow> nat \<Rightarrow> (nat \<Rightarrow> u32) \<Rightarrow> u32" where
  "alias_rd N a s = s (a mod N)"

definition alias_wr :: "nat \<Rightarrow> nat \<Rightarrow> u32 \<Rightarrow> (nat \<Rightarrow> u32) \<Rightarrow> (nat \<Rightarrow> u32)" where
  "alias_wr N a x s = s(a mod N := x)"

text \<open>The pattern at the powers of two from \<open>2 ^ j\<close> to \<open>2 ^ (k - 1)\<close>.\<close>

definition patterned :: "nat \<Rightarrow> nat \<Rightarrow> (nat \<Rightarrow> u32) \<Rightarrow> nat \<Rightarrow> u32" where
  "patterned j k s a = (if a \<in> (\<lambda>i. 2 ^ i) ` {j..<k} then NOT (of_nat a) else s a)"

lemma patterned_at:
  "patterned j k s a = (if \<exists>i. j \<le> i \<and> i < k \<and> a = 2 ^ i then NOT (of_nat a) else s a)"
  by (auto simp: patterned_def)

lemma pattern_empty [simp]: "k \<le> j \<Longrightarrow> patterned j k s = s"
  by (rule ext) (auto simp: patterned_at)

lemma pattern_zero [simp]: "patterned j k s 0 = s 0"
  by (auto simp: patterned_at)

lemma pattern_top: "patterned 0 (Suc j) s = patterned 0 j (s(2 ^ j := NOT (of_nat (2 ^ j))))"
  by (rule ext) (auto simp: patterned_at less_Suc_eq)

lemma pattern_restore: "j < k \<Longrightarrow> (patterned j k s)(2 ^ j := s (2 ^ j)) = patterned (Suc j) k s"
  by (rule ext) (auto simp: patterned_at Suc_le_eq le_less)

lemma pattern_here: "j < k \<Longrightarrow> patterned j k s (2 ^ j) = NOT (of_nat (2 ^ j))"
  by (auto simp: patterned_at)

lemma alias_low:
  assumes "j < k"
  shows "alias_rd (2 ^ k) (2 ^ j) s = s (2 ^ j)" "alias_wr (2 ^ k) (2 ^ j) x s = s(2 ^ j := x)"
proof -
  have "2 ^ j mod 2 ^ k = (2 ^ j :: nat)" using assms by (intro mod_less power_strict_increasing) auto
  then show "alias_rd (2 ^ k) (2 ^ j) s = s (2 ^ j)" "alias_wr (2 ^ k) (2 ^ j) x s = s(2 ^ j := x)"
    by (simp_all only: alias_rd_def alias_wr_def)
qed

lemma alias_high:
  assumes "k \<le> j"
  shows "alias_rd (2 ^ k) (2 ^ j) s = s 0" "alias_wr (2 ^ k) (2 ^ j) x s = s(0 := x)"
proof -
  have "2 ^ j mod 2 ^ k = (0 :: nat)" using assms by (simp add: le_imp_power_dvd mod_eq_0_iff_dvd)
  then show "alias_rd (2 ^ k) (2 ^ j) s = s 0" "alias_wr (2 ^ k) (2 ^ j) x s = s(0 := x)"
    by (simp_all only: alias_rd_def alias_wr_def)
qed

lemma alias_zero: "alias_rd N 0 s = s 0" "alias_wr N 0 x s = s(0 := x)"
  by (simp_all only: alias_rd_def alias_wr_def mod_0)

lemma pattern_loop_step:
  assumes "length save < 32"
  shows "pattern_loop rd wr (2 ^ j) save s =
     pattern_loop rd wr (2 ^ j div 2) (rd (2 ^ j) s # save) (wr (2 ^ j) (NOT (of_nat (2 ^ j))) s)"
  using assms by (subst pattern_loop.simps) simp

lemma pattern_loop_step_Suc:
  assumes "length save < 32"
  shows "pattern_loop rd wr (2 ^ Suc j) save s =
     pattern_loop rd wr (2 ^ j) (rd (2 ^ Suc j) s # save) (wr (2 ^ Suc j) (NOT (of_nat (2 ^ Suc j))) s)"
proof -
  have "2 ^ Suc j div 2 = (2 ^ j :: nat)" by simp
  then show ?thesis using pattern_loop_step [OF assms, of rd wr "Suc j" s] by (simp only:)
qed

lemma pattern_loop_step_0:
  assumes "length save < 32"
  shows "pattern_loop rd wr (2 ^ 0) save s = Some (rd (2 ^ 0) s # save, wr (2 ^ 0) (NOT (of_nat (2 ^ 0))) s)"
proof -
  have "2 ^ 0 div 2 = (0 :: nat)" by simp
  moreover have "pattern_loop rd wr 0 save s = Some (save, s)" for save s by (subst pattern_loop.simps) simp
  ultimately show ?thesis using pattern_loop_step [OF assms, of rd wr 0 s] by (simp only:)
qed

lemma map_upd_0: "map (\<lambda>i. (s(0 := x)) (2 ^ i)) js = map (\<lambda>i. s (2 ^ i :: nat)) js"
  by (rule map_cong) auto

text \<open>The words that exist are saved and overwritten one by one.\<close>

lemma pattern_loop_low:
  "j < k \<Longrightarrow> length save + j < 32 \<Longrightarrow>
   pattern_loop (alias_rd (2 ^ k)) (alias_wr (2 ^ k)) (2 ^ j) save s =
     Some (map (\<lambda>i. s (2 ^ i)) [0..<Suc j] @ save, patterned 0 (Suc j) s)"
proof (induction j arbitrary: save s)
  case 0
  have "patterned 0 (Suc 0) s = s(2 ^ 0 := NOT (of_nat (2 ^ 0)))" by (simp only: pattern_top pattern_empty)
  moreover have "map (\<lambda>i. s (2 ^ i)) [0..<Suc 0] @ save = s (2 ^ 0) # save" by simp
  ultimately show ?case using 0 by (simp only: pattern_loop_step_0 alias_low add_0_right)
next
  case (Suc j)
  let ?s = "s(2 ^ Suc j := NOT (of_nat (2 ^ Suc j)))"
  have "map (\<lambda>i. ?s (2 ^ i)) [0..<Suc j] = map (\<lambda>i. s (2 ^ i)) [0..<Suc j]"
    by (rule map_cong) (auto simp del: power_Suc)
  moreover have "pattern_loop (alias_rd (2 ^ k)) (alias_wr (2 ^ k)) (2 ^ Suc j) save s =
      pattern_loop (alias_rd (2 ^ k)) (alias_wr (2 ^ k)) (2 ^ j) (s (2 ^ Suc j) # save) ?s"
    using pattern_loop_step_Suc [of save _ _ j s] Suc.prems(2) by (simp only: alias_low [OF Suc.prems(1)])
  moreover have "map (\<lambda>i. s (2 ^ i)) [0..<Suc (Suc j)] @ save = map (\<lambda>i. s (2 ^ i)) [0..<Suc j] @ s (2 ^ Suc j) # save"
    by (simp del: power_Suc)
  ultimately show ?case
    using Suc.IH [of "s (2 ^ Suc j) # save" ?s] Suc.prems by (simp only: pattern_top [of "Suc j" s]) (simp del: fun_upd_apply)
qed

text \<open>The addresses behind the memory all reach its first word: the top of \<open>save\<close> is what is there.\<close>

lemma pattern_loop_high:
  "k \<le> j \<Longrightarrow> length save + j < 32 \<Longrightarrow>
   \<exists>ys. pattern_loop (alias_rd (2 ^ k)) (alias_wr (2 ^ k)) (2 ^ j) save s =
     Some (map (\<lambda>i. s (2 ^ i)) [0..<k] @ ys @ s 0 # save, patterned 0 k (s(0 := NOT (of_nat (2 ^ k))))) \<and> length ys = j - k"
proof (induction j arbitrary: save s)
  case 0
  then have "k = 0" by simp
  then show ?case using 0 by (simp only: pattern_loop_step_0 alias_high add_0_right pattern_empty) (simp del: fun_upd_apply)
next
  case (Suc j)
  let ?s = "s(0 := NOT (of_nat (2 ^ Suc j)))"
  have step: "pattern_loop (alias_rd (2 ^ k)) (alias_wr (2 ^ k)) (2 ^ Suc j) save s =
      pattern_loop (alias_rd (2 ^ k)) (alias_wr (2 ^ k)) (2 ^ j) (s 0 # save) ?s"
    using pattern_loop_step_Suc [of save _ _ j s] Suc.prems(2) by (simp only: alias_high [OF Suc.prems(1)])
  show ?case
  proof (cases "k = Suc j")
    case True
    then have "pattern_loop (alias_rd (2 ^ k)) (alias_wr (2 ^ k)) (2 ^ j) (s 0 # save) ?s =
        Some (map (\<lambda>i. s (2 ^ i)) [0..<k] @ s 0 # save, patterned 0 k ?s)"
      using pattern_loop_low [of j k "s 0 # save" ?s] Suc.prems by (simp only: map_upd_0) (simp del: fun_upd_apply)
    then show ?thesis unfolding step using True by (intro exI [of _ "[]"]) (simp del: fun_upd_apply)
  next
    case False
    then obtain ys where "pattern_loop (alias_rd (2 ^ k)) (alias_wr (2 ^ k)) (2 ^ j) (s 0 # save) ?s =
        Some (map (\<lambda>i. s (2 ^ i)) [0..<k] @ ys @ ?s 0 # s 0 # save, patterned 0 k (s(0 := NOT (of_nat (2 ^ k)))))" "length ys = j - k"
      using Suc.IH [of "s 0 # save" ?s] Suc.prems unfolding map_upd_0 by (auto simp del: fun_upd_apply)
    then show ?thesis
      unfolding step using Suc.prems False by (intro exI [of _ "ys @ [?s 0]"]) (simp add: Suc_diff_le del: power_Suc fun_upd_apply)
  qed
qed

text \<open>The words that hold the pattern are restored; the first one that does not ends the loop.\<close>

lemma check_loop_low:
  assumes "k \<le> m"
  shows "j \<le> k \<Longrightarrow>
    check_loop (alias_rd (2 ^ k)) (alias_wr (2 ^ k)) maxsize (2 ^ j) (2 ^ m) (map (\<lambda>i. s (2 ^ i)) [j..<k] @ save) (patterned j k s) =
    check_loop (alias_rd (2 ^ k)) (alias_wr (2 ^ k)) maxsize (2 ^ k) (2 ^ m) save s"
proof (induction "k - j" arbitrary: j)
  case 0
  then show ?case by simp
next
  case (Suc d)
  then have j: "j < k" by simp
  have less: "(2 ^ j :: nat) < 2 ^ m" using j assms by (auto intro!: power_strict_increasing)
  have "[j..<k] = j # [Suc j..<k]" using j by (rule upt_conv_Cons)
  then have "check_loop (alias_rd (2 ^ k)) (alias_wr (2 ^ k)) maxsize (2 ^ j) (2 ^ m)
        (map (\<lambda>i. s (2 ^ i)) [j..<k] @ save) (patterned j k s) =
      check_loop (alias_rd (2 ^ k)) (alias_wr (2 ^ k)) maxsize (2 ^ Suc j) (2 ^ m)
        (map (\<lambda>i. s (2 ^ i)) [Suc j..<k] @ save) (patterned (Suc j) k s)"
    using less by (subst check_loop.simps) (simp add: alias_low [OF j] pattern_here [OF j] pattern_restore [OF j])
  then show ?case using Suc.hyps(1) [of "Suc j"] Suc.hyps(2) j by simp
qed

lemma restore_loop_high:
  assumes "k \<le> m"
  shows "k \<le> j \<Longrightarrow> j \<le> m \<Longrightarrow> length ys = m - j \<Longrightarrow>
    restore_loop (alias_wr (2 ^ k)) (2 ^ j) (2 ^ m) ys s = Some (if ys = [] then s else s(0 := last ys))"
proof (induction ys arbitrary: j s)
  case Nil
  then show ?case by (subst restore_loop.simps) simp
next
  case (Cons y ys)
  then have j: "j < m" by simp
  have "(2 ^ j :: nat) < 2 ^ m" using j by (intro power_strict_increasing) auto
  then have "restore_loop (alias_wr (2 ^ k)) (2 ^ j) (2 ^ m) (y # ys) s =
      restore_loop (alias_wr (2 ^ k)) (2 ^ Suc j) (2 ^ m) ys (s(0 := y))"
    by (subst restore_loop.simps) (simp add: alias_high [OF Cons.prems(1)])
  also have "\<dots> = Some (if ys = [] then s(0 := y) else (s(0 := y))(0 := last ys))"
    using Cons.prems j by (intro Cons.IH) auto
  finally show ?case by (simp del: fun_upd_apply)
qed

text \<open>Behind the memory the word at \<open>base\<close>, now 0, does not hold the pattern. The last word written back is its own.\<close>

lemma check_loop_high:
  assumes "k < m" "k < 32" "s 0 = 0" "length ys = m - k" "ys \<noteq> []"
  shows "check_loop (alias_rd (2 ^ k)) (alias_wr (2 ^ k)) maxsize (2 ^ k) (2 ^ m) ys s =
    Some (of_nat (4 * 2 ^ k), s(0 := last ys))"
proof -
  obtain y zs where ys: "ys = y # zs" using assms(5) by (cases ys) auto
  have "(2 ^ k :: nat) < 2 ^ m" using assms(1) by (intro power_strict_increasing) auto
  moreover have "NOT (of_nat (2 ^ k)) \<noteq> (0 :: u32)"
  proof
    assume "NOT (of_nat (2 ^ k)) = (0 :: u32)"
    then have "\<not> bit (NOT (of_nat (2 ^ k)) :: u32) (if k = 0 then 1 else 0)" by simp
    then show False by (simp add: bit_not_iff bit_exp_iff split: if_splits)
  qed
  ultimately have "check_loop (alias_rd (2 ^ k)) (alias_wr (2 ^ k)) maxsize (2 ^ k) (2 ^ m) ys s =
      map_option (Pair (of_nat (2 ^ k * 4))) (restore_loop (alias_wr (2 ^ k)) (2 ^ Suc k) (2 ^ m) zs (s(0 := y)))"
    by (subst check_loop.simps) (simp add: ys alias_high [OF order_refl] assms(3) del: fun_upd_apply)
  also have "restore_loop (alias_wr (2 ^ k)) (2 ^ Suc k) (2 ^ m) zs (s(0 := y)) =
      Some (if zs = [] then s(0 := y) else (s(0 := y))(0 := last zs))"
    using assms ys by (intro restore_loop_high) auto
  finally show ?thesis by (simp add: ys mult.commute del: fun_upd_apply)
qed

text \<open>What is in \<open>save\<close> and in the memory when the loop that writes the pattern is over.\<close>

lemma pattern_loop_all:
  assumes "k \<le> m" "m < 32"
  obtains ys x where
    "pattern_loop (alias_rd (2 ^ k)) (alias_wr (2 ^ k)) (2 ^ m div 2) [] s =
       Some (map (\<lambda>i. s (2 ^ i)) [0..<k] @ ys, patterned 0 k (s(0 := x)))"
    "length ys = m - k" "ys \<noteq> [] \<Longrightarrow> last ys = s 0"
proof (cases m)
  case 0
  have "pattern_loop (alias_rd (2 ^ k)) (alias_wr (2 ^ k)) (2 ^ m div 2) [] s = Some ([], s)"
    by (subst pattern_loop.simps) (simp add: 0)
  then show ?thesis using that [of "[]" "s 0"] assms 0 by (simp del: fun_upd_apply)
next
  case (Suc j)
  have half: "2 ^ m div 2 = (2 ^ j :: nat)" by (simp add: Suc)
  show ?thesis
  proof (cases "k = m")
    case True
    then show ?thesis
      using that [of "[]" "s 0"] pattern_loop_low [of j k "[]" s] assms Suc unfolding half
      by (simp del: fun_upd_apply)
  next
    case False
    then obtain ys where "pattern_loop (alias_rd (2 ^ k)) (alias_wr (2 ^ k)) (2 ^ j) [] s =
        Some (map (\<lambda>i. s (2 ^ i)) [0..<k] @ ys @ [s 0], patterned 0 k (s(0 := NOT (of_nat (2 ^ k)))))" "length ys = j - k"
      using pattern_loop_high [of k j "[]" s] assms Suc by (auto simp del: fun_upd_apply)
    then show ?thesis
      using that [of "ys @ [s 0]"] assms False Suc unfolding half by (simp add: Suc_diff_le del: fun_upd_apply)
  qed
qed

lemma pattern_upd_0: "(patterned j k s)(0 := x) = patterned j k (s(0 := x))"
  by (rule ext) (auto simp: patterned_at)

lemma get_ram_size_aliased:
  assumes "k \<le> m" "m < 30"
  shows "get_ram_size (alias_rd (2 ^ k)) (alias_wr (2 ^ k)) (of_nat (4 * 2 ^ m)) s =
    Some (of_nat (4 * 2 ^ k), if k < m then s else s(0 := 0))"
proof -
  have "2 ^ m \<le> (2 ^ 29 :: nat)" using assms(2) by (intro power_increasing) auto
  then have n: "unat (of_nat (4 * 2 ^ m) :: u32) div 4 = 2 ^ m" by (simp only: unsigned_of_nat) (simp add: take_bit_nat_eq_self)
  obtain ys x where save: "pattern_loop (alias_rd (2 ^ k)) (alias_wr (2 ^ k)) (2 ^ m div 2) [] s =
       Some (map (\<lambda>i. s (2 ^ i)) [0..<k] @ ys, patterned 0 k (s(0 := x)))"
    "length ys = m - k" "ys \<noteq> [] \<Longrightarrow> last ys = s 0"
    using assms by (elim pattern_loop_all [of k m s]) auto
  have "get_ram_size (alias_rd (2 ^ k)) (alias_wr (2 ^ k)) (of_nat (4 * 2 ^ m)) s =
      check_loop (alias_rd (2 ^ k)) (alias_wr (2 ^ k)) (of_nat (4 * 2 ^ m)) (2 ^ 0) (2 ^ m)
        (map (\<lambda>i. (s(0 := 0)) (2 ^ i)) [0..<k] @ ys) (patterned 0 k (s(0 := 0)))"
    using save(1,2) assms unfolding get_ram_size_def n map_upd_0
    by (simp add: alias_zero pattern_upd_0 del: fun_upd_apply) simp
  also have "\<dots> = check_loop (alias_rd (2 ^ k)) (alias_wr (2 ^ k)) (of_nat (4 * 2 ^ m)) (2 ^ k) (2 ^ m) ys (s(0 := 0))"
    by (rule check_loop_low [OF assms(1)]) simp
  also have "\<dots> = Some (of_nat (4 * 2 ^ k), if k < m then s else s(0 := 0))"
  proof (cases "k < m")
    case True
    then have "ys \<noteq> []" using save(2) by auto
    then show ?thesis
      using check_loop_high [of k m "s(0 := 0)" ys] True assms save(2,3) by (auto simp del: fun_upd_apply simp: fun_upd_same)
  next
    case False
    then show ?thesis using assms by (subst check_loop.simps) simp
  qed
  finally show ?thesis .
qed

section \<open>No memory\<close>

text \<open>Nothing answers: every read gives what the bus floats to, and writes are lost.\<close>

lemma pattern_loop_nothing:
  "length save + j < 32 \<Longrightarrow>
   pattern_loop (\<lambda>_ _. c) (\<lambda>_ _ s. s) (2 ^ j) save s = Some (replicate (Suc j) c @ save, s)"
proof (induction j arbitrary: save)
  case 0
  then show ?case using pattern_loop_step_0 [of save "\<lambda>_ _. c" "\<lambda>_ _ s. s" s] by simp
next
  case (Suc j)
  then show ?case
    using pattern_loop_step_Suc [of save "\<lambda>_ _. c" "\<lambda>_ _ s. s" j s] by (simp add: replicate_app_Cons_same)
qed

lemma restore_loop_nothing:
  "j \<le> m \<Longrightarrow> length ys = m - j \<Longrightarrow> restore_loop (\<lambda>_ _ s. s) (2 ^ j) (2 ^ m) ys s = Some s"
proof (induction ys arbitrary: j)
  case Nil
  then show ?case by (subst restore_loop.simps) simp
next
  case (Cons y ys)
  then have "(2 ^ j :: nat) < 2 ^ m" by (intro power_strict_increasing) auto
  then show ?case using Cons.IH [of "Suc j"] Cons.prems by (subst restore_loop.simps) simp
qed

lemma get_ram_size_nothing:
  assumes "c \<noteq> 0" "m < 30"
  shows "get_ram_size (\<lambda>_ _. c) (\<lambda>_ _ s. s) (of_nat (4 * 2 ^ m)) s = Some (0, s)"
proof -
  have "2 ^ m \<le> (2 ^ 29 :: nat)" using assms(2) by (intro power_increasing) auto
  then have n: "unat (of_nat (4 * 2 ^ m) :: u32) div 4 = 2 ^ m"
    by (simp only: unsigned_of_nat) (simp add: take_bit_nat_eq_self)
  have "pattern_loop (\<lambda>_ _. c) (\<lambda>_ _ s. s) (2 ^ m div 2) [] s = Some (replicate m c, s)"
  proof (cases m)
    case 0
    then show ?thesis by (subst pattern_loop.simps) simp
  next
    case (Suc j)
    then show ?thesis using pattern_loop_nothing [of "[]" j c s] assms(2) by simp
  qed
  then show ?thesis
    using assms restore_loop_nothing [of 0 m "replicate m c" s] unfolding get_ram_size_def n by simp
qed

section \<open>Correctness\<close>

text \<open>
  C26. \<open>get_ram_size\<close>, asked to look for at most \<open>4 * 2 ^ m\<close> bytes of memory, finds the size of memory that has \<open>2 ^ k\<close>
  words and shows them again and again behind the last one, and no index of \<open>save\<close> is out of range. When the memory is
  smaller than the range every word is afterwards what it was: the words that the pattern overwrote are restored,
  and the first word is restored although each address behind the memory wrote to it. When the memory fills the
  range the first word is 0 afterwards: its old value is in \<open>save\<close>, but only the other words are written back.
\<close>

theorem get_ram_size_correct:
  assumes "k \<le> m" "m < 30"
  shows "get_ram_size (alias_rd (2 ^ k)) (alias_wr (2 ^ k)) (of_nat (4 * 2 ^ m)) s =
    Some (of_nat (4 * 2 ^ k), if k < m then s else s(0 := 0))"
  by (rule get_ram_size_aliased [OF assms])

theorem get_ram_size_correct_witness:
  "get_ram_size (alias_rd 4) (alias_wr 4) 64 (\<lambda>a. of_nat (a + 7)) = Some (16, \<lambda>a. of_nat (a + 7)) \<and>
   get_ram_size (alias_rd 4) (alias_wr 4) 16 (\<lambda>a. of_nat (a + 7)) = Some (16, (\<lambda>a. of_nat (a + 7))(0 := 0))"
  using get_ram_size_correct [of 2 4 "\<lambda>a. of_nat (a + 7)"] get_ram_size_correct [of 2 2 "\<lambda>a. of_nat (a + 7)"]
  by (simp del: fun_upd_apply of_nat_add)

end
