(* ===== verification/Image.thy ===== *)
theory Image imports CMem NetHdr Env RtcDate Display begin

text \<open>
  Boot images: the header of \<open>include/image.h\<close>, the host tool \<open>tools/mkimage.c\<close> that puts it in front of the files of
  an image, and the commands of \<open>common/cmd_bootm.c\<close> that show and verify images, \<open>iminfo\<close> and \<open>imls\<close>.

  Memory is byte-addressed; a \<open>ulong\<close> address is a word that wraps and the global variable \<open>header\<close>, into which a
  header is copied, is an area of memory at the address \<open>hp\<close>. The host is big-endian, so \<open>ntohl\<close> is the identity.
  Modelled is a port with \<open>CONFIG_TIMESTAMP\<close>, without \<open>CONFIG_ARTOS\<close>, \<open>CONFIG_LYNXKDI\<close> and \<open>CONFIG_HAS_DATAFLASH\<close>. The
  options of \<open>mkimage\<close> are a record, the files it reads a function from names to contents; what it prints on the host's
  terminal is left out. \<open>None\<close>: a loop that does not end, or (of \<open>mkimage\<close>) the exit with a message.
\<close>

unbundle bit_operations_syntax

section \<open>The header\<close>

definition IH_OS_INVALID :: byte where "IH_OS_INVALID = 0"
definition IH_OS_NETBSD :: byte where "IH_OS_NETBSD = 2"
definition IH_OS_LINUX :: byte where "IH_OS_LINUX = 5"
definition IH_OS_VXWORKS :: byte where "IH_OS_VXWORKS = 14"
definition IH_OS_QNX :: byte where "IH_OS_QNX = 16"
definition IH_OS_U_BOOT :: byte where "IH_OS_U_BOOT = 17"
definition IH_OS_RTEMS :: byte where "IH_OS_RTEMS = 18"

definition IH_CPU_INVALID :: byte where "IH_CPU_INVALID = 0"
definition IH_CPU_ALPHA :: byte where "IH_CPU_ALPHA = 1"
definition IH_CPU_ARM :: byte where "IH_CPU_ARM = 2"
definition IH_CPU_I386 :: byte where "IH_CPU_I386 = 3"
definition IH_CPU_IA64 :: byte where "IH_CPU_IA64 = 4"
definition IH_CPU_MIPS :: byte where "IH_CPU_MIPS = 5"
definition IH_CPU_MIPS64 :: byte where "IH_CPU_MIPS64 = 6"
definition IH_CPU_PPC :: byte where "IH_CPU_PPC = 7"
definition IH_CPU_S390 :: byte where "IH_CPU_S390 = 8"
definition IH_CPU_SH :: byte where "IH_CPU_SH = 9"
definition IH_CPU_SPARC :: byte where "IH_CPU_SPARC = 10"
definition IH_CPU_SPARC64 :: byte where "IH_CPU_SPARC64 = 11"
definition IH_CPU_M68K :: byte where "IH_CPU_M68K = 12"
definition IH_CPU_NIOS :: byte where "IH_CPU_NIOS = 13"
definition IH_CPU_MICROBLAZE :: byte where "IH_CPU_MICROBLAZE = 14"
definition IH_CPU_NIOS2 :: byte where "IH_CPU_NIOS2 = 15"

definition IH_TYPE_INVALID :: byte where "IH_TYPE_INVALID = 0"
definition IH_TYPE_STANDALONE :: byte where "IH_TYPE_STANDALONE = 1"
definition IH_TYPE_KERNEL :: byte where "IH_TYPE_KERNEL = 2"
definition IH_TYPE_RAMDISK :: byte where "IH_TYPE_RAMDISK = 3"
definition IH_TYPE_MULTI :: byte where "IH_TYPE_MULTI = 4"
definition IH_TYPE_FIRMWARE :: byte where "IH_TYPE_FIRMWARE = 5"
definition IH_TYPE_SCRIPT :: byte where "IH_TYPE_SCRIPT = 6"

definition IH_COMP_NONE :: byte where "IH_COMP_NONE = 0"
definition IH_COMP_GZIP :: byte where "IH_COMP_GZIP = 1"
definition IH_COMP_BZIP2 :: byte where "IH_COMP_BZIP2 = 2"
definition IH_COMP_LZMA :: byte where "IH_COMP_LZMA = 3"

definition IH_MAGIC :: u32 where "IH_MAGIC = 0x27051956"
definition IH_NMLEN :: nat where "IH_NMLEN = 32"

lemmas ih_types = IH_TYPE_INVALID_def IH_TYPE_STANDALONE_def IH_TYPE_KERNEL_def IH_TYPE_RAMDISK_def
  IH_TYPE_MULTI_def IH_TYPE_FIRMWARE_def IH_TYPE_SCRIPT_def

text \<open>\<open>sizeof(image_header_t)\<close> and the fields at their offsets.\<close>

definition HDR_SIZE :: nat where "HDR_SIZE = 64"

definition ih_magic :: "mem \<Rightarrow> nat \<Rightarrow> u32" where "ih_magic m h = NetReadIP m h"
definition ih_hcrc :: "mem \<Rightarrow> nat \<Rightarrow> u32" where "ih_hcrc m h = NetReadIP m (h + 4)"
definition ih_time :: "mem \<Rightarrow> nat \<Rightarrow> u32" where "ih_time m h = NetReadIP m (h + 8)"
definition ih_size :: "mem \<Rightarrow> nat \<Rightarrow> u32" where "ih_size m h = NetReadIP m (h + 12)"
definition ih_load :: "mem \<Rightarrow> nat \<Rightarrow> u32" where "ih_load m h = NetReadIP m (h + 16)"
definition ih_ep :: "mem \<Rightarrow> nat \<Rightarrow> u32" where "ih_ep m h = NetReadIP m (h + 20)"
definition ih_dcrc :: "mem \<Rightarrow> nat \<Rightarrow> u32" where "ih_dcrc m h = NetReadIP m (h + 24)"
definition ih_os :: "mem \<Rightarrow> nat \<Rightarrow> byte" where "ih_os m h = m (h + 28)"
definition ih_arch :: "mem \<Rightarrow> nat \<Rightarrow> byte" where "ih_arch m h = m (h + 29)"
definition ih_type :: "mem \<Rightarrow> nat \<Rightarrow> byte" where "ih_type m h = m (h + 30)"
definition ih_comp :: "mem \<Rightarrow> nat \<Rightarrow> byte" where "ih_comp m h = m (h + 31)"
definition ih_name :: "mem \<Rightarrow> nat \<Rightarrow> byte list" where
  "ih_name m h = takeWhile (\<lambda>c. c \<noteq> 0) (read_bytes m (h + 32) IH_NMLEN)"

lemmas ih_defs = ih_magic_def ih_hcrc_def ih_time_def ih_size_def ih_load_def ih_ep_def ih_dcrc_def
  ih_os_def ih_arch_def ih_type_def ih_comp_def ih_name_def

section \<open>Showing a header\<close>

definition os_string :: "byte \<Rightarrow> string" where
  "os_string os =
     (if os = IH_OS_INVALID then ''Invalid OS''
      else if os = IH_OS_NETBSD then ''NetBSD''
      else if os = IH_OS_LINUX then ''Linux''
      else if os = IH_OS_VXWORKS then ''VxWorks''
      else if os = IH_OS_QNX then ''QNX''
      else if os = IH_OS_U_BOOT then ''U-Boot''
      else if os = IH_OS_RTEMS then ''RTEMS''
      else ''Unknown OS'')"

definition arch_string :: "byte \<Rightarrow> string" where
  "arch_string arch =
     (if arch = IH_CPU_INVALID then ''Invalid CPU''
      else if arch = IH_CPU_ALPHA then ''Alpha''
      else if arch = IH_CPU_ARM then ''ARM''
      else if arch = IH_CPU_I386 then ''Intel x86''
      else if arch = IH_CPU_IA64 then ''IA64''
      else if arch = IH_CPU_MIPS then ''MIPS''
      else if arch = IH_CPU_MIPS64 then ''MIPS 64 Bit''
      else if arch = IH_CPU_PPC then ''PowerPC''
      else if arch = IH_CPU_S390 then ''IBM S390''
      else if arch = IH_CPU_SH then ''SuperH''
      else if arch = IH_CPU_SPARC then ''SPARC''
      else if arch = IH_CPU_SPARC64 then ''SPARC 64 Bit''
      else if arch = IH_CPU_M68K then ''M68K''
      else if arch = IH_CPU_MICROBLAZE then ''Microblaze''
      else if arch = IH_CPU_NIOS then ''Nios''
      else if arch = IH_CPU_NIOS2 then ''Nios-II''
      else ''Unknown Architecture'')"

definition type_string :: "byte \<Rightarrow> string" where
  "type_string ty =
     (if ty = IH_TYPE_INVALID then ''Invalid Image''
      else if ty = IH_TYPE_STANDALONE then ''Standalone Program''
      else if ty = IH_TYPE_KERNEL then ''Kernel Image''
      else if ty = IH_TYPE_RAMDISK then ''RAMDisk Image''
      else if ty = IH_TYPE_MULTI then ''Multi-File Image''
      else if ty = IH_TYPE_FIRMWARE then ''Firmware''
      else if ty = IH_TYPE_SCRIPT then ''Script''
      else ''Unknown Image'')"

definition comp_string :: "byte \<Rightarrow> string" where
  "comp_string c =
     (if c = IH_COMP_NONE then ''uncompressed''
      else if c = IH_COMP_GZIP then ''gzip compressed''
      else if c = IH_COMP_BZIP2 then ''bzip2 compressed''
      else if c = IH_COMP_LZMA then ''lzma compressed''
      else ''unknown compression'')"

definition print_type :: "mem \<Rightarrow> nat \<Rightarrow> byte list \<Rightarrow> byte list" where
  "print_type m hdr out =
     printf ''%s %s %s (%s)'' (map (\<lambda>s. ArgStr (Some (bytes s)))
       [arch_string (ih_arch m hdr), os_string (ih_os m hdr), type_string (ih_type m hdr), comp_string (ih_comp m hdr)]) out"

text \<open>The table of lengths of an image of several files ends with a 0.\<close>

partial_function (option) print_contents :: "mem \<Rightarrow> nat \<Rightarrow> u32 \<Rightarrow> byte list \<Rightarrow> byte list option" where
  "print_contents m len_ptr i out =
     (let len = NetReadIP m len_ptr in
      if len \<noteq> 0
      then print_contents m (len_ptr + 4) (i + 1)
             (print_size len (bytes nl) (printf ''   Image %d: %8ld Bytes = '' [ArgInt i, ArgInt len] out))
      else Some out)"

definition print_image_hdr :: "mem \<Rightarrow> nat \<Rightarrow> byte list \<Rightarrow> byte list option" where
  "print_image_hdr m hdr out =
     (let out = printf (''   Image Name:   %.*s'' @ nl) [ArgInt (of_nat IH_NMLEN), ArgStr (Some (ih_name m hdr))] out in
      case to_tm month_days (sint (ih_time m hdr)) (rtc_time.make 0 0 0 0 0 0 0 0 0) of
        None \<Rightarrow> None
      | Some (tm, _) \<Rightarrow>
          let out = printf (''   Created:      %4d-%02d-%02d  %2d:%02d:%02d UTC'' @ nl)
                (map (\<lambda>x. ArgInt (of_int x)) [tm_year tm, tm_mon tm, tm_mday tm, tm_hour tm, tm_min tm, tm_sec tm]) out;
              out = puts ''   Image Type:   '' out;
              out = print_type m hdr out;
              out = printf (nl @ ''   Data Size:    %d Bytes = '') [ArgInt (ih_size m hdr)] out;
              out = print_size (ih_size m hdr) (bytes nl) out;
              out = printf (''   Load Address: %08x'' @ nl @ ''   Entry Point:  %08x'' @ nl)
                [ArgInt (ih_load m hdr), ArgInt (ih_ep m hdr)] out
          in if ih_type m hdr = IH_TYPE_MULTI
             then print_contents m (hdr + HDR_SIZE) 0 (puts (''   Contents:'' @ nl) out)
             else Some out)"

section \<open>Verifying images\<close>

definition image_info :: "nat \<Rightarrow> u32 \<Rightarrow> mem \<Rightarrow> byte list \<Rightarrow> (int \<times> mem \<times> byte list) option" where
  "image_info hp addr m out =
     (let out = printf (nl @ ''## Checking Image at %08lx ...'' @ nl) [ArgInt addr] out;
          m = fst (memmove m hp (unat addr) HDR_SIZE)
      in if ih_magic m hp \<noteq> IH_MAGIC then Some (1, m, puts (''   Bad Magic Number'' @ nl) out)
         else
           let checksum = ih_hcrc m hp;
               m = write_bytes m (hp + 4) (be32 0)
           in if crc32 m 0 hp HDR_SIZE \<noteq> checksum then Some (1, m, puts (''   Bad Header Checksum'' @ nl) out)
              else case print_image_hdr m (unat addr) out of
                None \<Rightarrow> None
              | Some out \<Rightarrow>
                  let dat = addr + of_nat HDR_SIZE;
                      len = ih_size m hp;
                      out = puts ''   Verifying Checksum ... '' out
                  in if crc32 m 0 (unat dat) (unat len) \<noteq> ih_dcrc m hp
                     then Some (1, m, puts (''   Bad Data CRC'' @ nl) out)
                     else Some (0, m, puts (''OK'' @ nl) out))"

fun iminfo_loop :: "nat \<Rightarrow> byte list list \<Rightarrow> int \<Rightarrow> mem \<Rightarrow> byte list \<Rightarrow> (int \<times> mem \<times> byte list) option" where
  "iminfo_loop hp [] rcode m out = Some (rcode, m, out)"
| "iminfo_loop hp (s # args) rcode m out =
     (case image_info hp (fst (simple_strtoul s 16)) m out of
        None \<Rightarrow> None
      | Some (r, m, out) \<Rightarrow> iminfo_loop hp args (if r \<noteq> 0 then 1 else rcode) m out)"

definition do_iminfo ::
    "nat \<Rightarrow> u32 \<Rightarrow> byte list list \<Rightarrow> mem \<Rightarrow> byte list \<Rightarrow> (int \<times> mem \<times> byte list) option" where
  "do_iminfo hp load_addr argv m out =
     (if length argv < 2 then image_info hp load_addr m out else iminfo_loop hp (tl argv) 0 m out)"

text \<open>One sector of \<open>do_imls\<close>, then the loops over the sectors of a bank and over the banks.\<close>

definition imls_sector :: "nat \<Rightarrow> u32 \<Rightarrow> mem \<times> byte list \<Rightarrow> (mem \<times> byte list) option" where
  "imls_sector hp start st =
     (let (m, out) = st; hdr = unat start in
      if hdr = 0 \<or> ih_magic m hdr \<noteq> IH_MAGIC then Some (m, out)
      else
        let m = fst (memmove m hp hdr HDR_SIZE);
            checksum = ih_hcrc m hp;
            m = write_bytes m (hp + 4) (be32 0)
        in if crc32 m 0 hp HDR_SIZE \<noteq> checksum then Some (m, out)
           else
             let out = printf (''Image at %08lX:'' @ nl) [ArgInt start] out in
             case print_image_hdr m hdr out of
               None \<Rightarrow> None
             | Some out \<Rightarrow>
                 let dat = start + of_nat HDR_SIZE;
                     len = ih_size m hdr;
                     out = puts ''   Verifying Checksum ... '' out;
                     out = (if crc32 m 0 (unat dat) (unat len) \<noteq> ih_dcrc m hdr then puts (''   Bad Data CRC'' @ nl) out else out)
                 in Some (m, puts (''OK'' @ nl) out))"

fun imls_sectors :: "nat \<Rightarrow> u32 list \<Rightarrow> mem \<times> byte list \<Rightarrow> (mem \<times> byte list) option" where
  "imls_sectors hp [] st = Some st"
| "imls_sectors hp (s # ss) st = (case imls_sector hp s st of None \<Rightarrow> None | Some st \<Rightarrow> imls_sectors hp ss st)"

fun imls_banks :: "nat \<Rightarrow> flash_info list \<Rightarrow> mem \<times> byte list \<Rightarrow> (mem \<times> byte list) option" where
  "imls_banks hp [] st = Some st"
| "imls_banks hp (info # banks) st =
     (if fi_flash_id info = FLASH_UNKNOWN then imls_banks hp banks st
      else case imls_sectors hp (take (unat (fi_sector_count info)) (fi_start info)) st of
        None \<Rightarrow> None
      | Some st \<Rightarrow> imls_banks hp banks st)"

definition do_imls :: "nat \<Rightarrow> flash_info list \<Rightarrow> mem \<Rightarrow> byte list \<Rightarrow> (int \<times> mem \<times> byte list) option" where
  "do_imls hp banks m out = map_option (Pair 0) (imls_banks hp banks (m, out))"

section \<open>Making images\<close>

text \<open>
  What the options of \<open>mkimage\<close> set; \<open>mk_ep\<close> is the argument of \<open>-e\<close>, if there was one.
\<close>

record mk_opts =
  mk_os :: byte
  mk_arch :: byte
  mk_type :: byte
  mk_comp :: byte
  mk_addr :: u32
  mk_ep :: "u32 option"
  mk_name :: "byte list"
  mk_xflag :: bool
  mk_datafile :: "byte list"

type_synonym files = "byte list \<Rightarrow> byte list option"

definition COLON :: byte where "COLON = chr CHR '':''"

text \<open>\<open>mmap\<close> of an empty file fails; the file is not appended at all if a write fails, which is not modelled.\<close>

definition copy_file :: "mk_opts \<Rightarrow> files \<Rightarrow> byte list \<Rightarrow> bool \<Rightarrow> byte list \<Rightarrow> byte list option" where
  "copy_file opt fs datafile pad ifd =
     (case fs datafile of
        None \<Rightarrow> None
      | Some dat \<Rightarrow>
          if dat = [] then None
          else if mk_xflag opt \<and> length dat < HDR_SIZE then None
          else if mk_xflag opt \<and> \<not> list_all (\<lambda>c. c = 0xff) (take HDR_SIZE dat) then None
          else
            let offset = (if mk_xflag opt then HDR_SIZE else 0);
                size' = length dat - offset;
                ifd = ifd @ drop offset dat;
                tail = size' mod 4
            in Some (if pad \<and> tail \<noteq> 0 then ifd @ replicate (4 - tail) 0 else ifd))"

text \<open>The name up to the next colon, and what follows the colon if there is one.\<close>

definition file_name :: "byte list \<Rightarrow> byte list" where
  "file_name s = takeWhile (\<lambda>c. c \<noteq> COLON) s"

definition after_colon :: "byte list \<Rightarrow> byte list option" where
  "after_colon s = (if COLON \<in> set s then Some (tl (dropWhile (\<lambda>c. c \<noteq> COLON) s)) else None)"

lemma after_colon_less: "after_colon s = Some t \<Longrightarrow> length t < length s"
proof -
  assume "after_colon s = Some t"
  then have "COLON \<in> set s" "t = tl (dropWhile (\<lambda>c. c \<noteq> COLON) s)" by (auto simp: after_colon_def split: if_splits)
  moreover from this have "dropWhile (\<lambda>c. c \<noteq> COLON) s \<noteq> []" by (auto simp: dropWhile_eq_Nil_conv)
  ultimately show ?thesis using length_dropWhile_le [of "\<lambda>c. c \<noteq> COLON" s]
    by (cases "dropWhile (\<lambda>c. c \<noteq> COLON) s") auto
qed

function write_sizes :: "files \<Rightarrow> byte list option \<Rightarrow> byte list \<Rightarrow> byte list option" where
  "write_sizes fs None ifd = Some (ifd @ be32 0)"
| "write_sizes fs (Some s) ifd =
     (case fs (file_name s) of
        None \<Rightarrow> None
      | Some dat \<Rightarrow> write_sizes fs (after_colon s) (ifd @ be32 (of_nat (length dat))))"
  by pat_completeness auto
termination
  by (relation "measure (\<lambda>(fs, s, ifd). case s of None \<Rightarrow> 0 | Some s \<Rightarrow> Suc (length s))")
    (auto split: option.splits dest: after_colon_less)

function write_files :: "mk_opts \<Rightarrow> files \<Rightarrow> byte list \<Rightarrow> byte list \<Rightarrow> byte list option" where
  "write_files opt fs s ifd =
     (case after_colon s of
        Some rest \<Rightarrow>
          (case copy_file opt fs (file_name s) True ifd of None \<Rightarrow> None | Some ifd \<Rightarrow> write_files opt fs rest ifd)
      | None \<Rightarrow> copy_file opt fs s False ifd)"
  by pat_completeness auto
termination by (relation "measure (\<lambda>(opt, fs, s, ifd). length s)") (auto dest: after_colon_less)

declare write_files.simps [simp del]

text \<open>\<open>strncpy\<close> to a field: what it stores.\<close>

definition name_field :: "byte list \<Rightarrow> byte list" where
  "name_field name = take IH_NMLEN name @ replicate (IH_NMLEN - length name) 0"

text \<open>The header is built in the mapped file, here a memory that holds it at 0; \<open>mtime\<close> is its time of modification.\<close>

definition entry_point :: "mk_opts \<Rightarrow> u32" where
  "entry_point opt =
     (case mk_ep opt of Some ep \<Rightarrow> ep | None \<Rightarrow> if mk_xflag opt then mk_addr opt + of_nat HDR_SIZE else mk_addr opt)"

definition build_header :: "mk_opts \<Rightarrow> u32 \<Rightarrow> byte list \<Rightarrow> byte list" where
  "build_header opt mtime img =
     (let m = write_bytes (\<lambda>_. 0) 0 img;
          n = of_nat (length img) - of_nat HDR_SIZE :: u32;
          checksum = crc32 m 0 HDR_SIZE (unat n);
          m = write_bytes m 0 (be32 IH_MAGIC);
          m = write_bytes m 8 (be32 mtime);
          m = write_bytes m 12 (be32 n);
          m = write_bytes m 16 (be32 (mk_addr opt));
          m = write_bytes m 20 (be32 (entry_point opt));
          m = write_bytes m 24 (be32 checksum);
          m = write_bytes m 28 [mk_os opt];
          m = write_bytes m 29 [mk_arch opt];
          m = write_bytes m 30 [mk_type opt];
          m = write_bytes m 31 [mk_comp opt];
          m = write_bytes m 32 (name_field (mk_name opt));
          checksum = crc32 m 0 0 HDR_SIZE;
          m = write_bytes m 4 (be32 checksum)
      in read_bytes m 0 (length img))"

definition mkimage :: "mk_opts \<Rightarrow> files \<Rightarrow> u32 \<Rightarrow> byte list option" where
  "mkimage opt fs mtime =
     (if mk_xflag opt \<and> entry_point opt \<noteq> mk_addr opt + of_nat HDR_SIZE then None
      else
        let ifd = replicate HDR_SIZE 0 in
        map_option (build_header opt mtime)
          (if mk_type opt = IH_TYPE_MULTI \<or> mk_type opt = IH_TYPE_SCRIPT
           then (case write_sizes fs (Some (mk_datafile opt)) ifd of
                   None \<Rightarrow> None
                 | Some ifd \<Rightarrow> write_files opt fs (mk_datafile opt) ifd)
           else copy_file opt fs (mk_datafile opt) False ifd))"

text \<open>
  \<open>mkimage -l\<close>: \<open>None\<close> is a file that is no image, otherwise whether the warnings for a bad header and for bad data are
  printed.
\<close>

definition list_image :: "byte list \<Rightarrow> (bool \<times> bool) option" where
  "list_image file' =
     (if length file' < HDR_SIZE then None
      else
        let ptr = write_bytes (\<lambda>_. 0) 0 file';
            hdr = write_bytes (\<lambda>_. 0) 0 (take HDR_SIZE file')
        in if ih_magic hdr 0 \<noteq> IH_MAGIC then None
           else
             let checksum = ih_hcrc hdr 0;
                 hdr = write_bytes hdr 4 (be32 0)
             in Some (crc32 hdr 0 0 HDR_SIZE \<noteq> checksum,
                  crc32 ptr 0 HDR_SIZE (length file' - HDR_SIZE) \<noteq> ih_dcrc hdr 0))"

section \<open>What a verified image is\<close>

definition crc_of :: "byte list \<Rightarrow> u32" where
  "crc_of xs = crc32 (write_bytes (\<lambda>_. 0) 0 xs) 0 0 (length xs)"

lemma crc32_crc_of: "crc32 m 0 p n = crc_of (read_bytes m p n)"
proof -
  have "read_bytes (write_bytes (\<lambda>_. 0) 0 (read_bytes m p n)) 0 n = read_bytes m p n"
    using read_write_bytes [of _ 0 "read_bytes m p n"] by simp
  then show ?thesis by (simp add: crc_of_def crc32_run)
qed

text \<open>The bytes of a header with its checksum blanked.\<close>

definition blank_hcrc :: "byte list \<Rightarrow> byte list" where
  "blank_hcrc xs = take 4 xs @ be32 0 @ drop 8 xs"

definition header_ok :: "mem \<Rightarrow> nat \<Rightarrow> bool" where
  "header_ok m p \<longleftrightarrow> ih_magic m p = IH_MAGIC \<and> ih_hcrc m p = crc_of (blank_hcrc (read_bytes m p HDR_SIZE))"

definition image_data :: "mem \<Rightarrow> nat \<Rightarrow> byte list" where
  "image_data m p = read_bytes m (p + HDR_SIZE) (unat (ih_size m p))"

definition data_ok :: "mem \<Rightarrow> nat \<Rightarrow> bool" where
  "data_ok m p \<longleftrightarrow> ih_dcrc m p = crc_of (image_data m p)"

text \<open>The image at \<open>p\<close>, with \<open>n\<close> bytes of data, ends in the address space and does not overlap \<open>header\<close>.\<close>

definition clear_of :: "nat \<Rightarrow> nat \<Rightarrow> nat \<Rightarrow> bool" where
  "clear_of hp p n \<longleftrightarrow> p + HDR_SIZE + n < 2 ^ 32 \<and> (hp + HDR_SIZE \<le> p \<or> p + HDR_SIZE + n \<le> hp)"

lemma read_bytes_part: "read_bytes m p n = xs \<Longrightarrow> k + j \<le> n \<Longrightarrow> read_bytes m (p + k) j = take j (drop k xs)"
  by (rule nth_equalityI) (auto simp: add.assoc)

lemma read_bytes_cong: "(\<And>i. i < n \<Longrightarrow> m (p + i) = m' (q + i)) \<Longrightarrow> read_bytes m p n = read_bytes m' q n"
  by (rule nth_equalityI) simp_all

lemma NetReadIP_cong:
  assumes "\<And>i. i < 4 \<Longrightarrow> m (p + i) = m' (q + i)"
  shows "NetReadIP m p = NetReadIP m' q"
  using assms [of 0] assms [of 1] assms [of 2] assms [of 3] by (simp add: NetReadIP_def)

text \<open>The copy in \<open>header\<close> has the fields of the image, the checksum apart once it is blanked.\<close>

definition fetched :: "nat \<Rightarrow> nat \<Rightarrow> mem \<Rightarrow> mem" where
  "fetched hp p m = write_bytes m hp (read_bytes m p HDR_SIZE)"

definition blanked :: "nat \<Rightarrow> nat \<Rightarrow> mem \<Rightarrow> mem" where
  "blanked hp p m = write_bytes m hp (blank_hcrc (read_bytes m p HDR_SIZE))"

lemma length_blank [simp]: "8 \<le> length xs \<Longrightarrow> length (blank_hcrc xs) = length xs"
  by (simp add: blank_hcrc_def)

lemma fetched_at: "i < HDR_SIZE \<Longrightarrow> fetched hp p m (hp + i) = m (p + i)"
  by (simp add: fetched_def write_bytes_apply)

lemma blanked_at: "i < HDR_SIZE \<Longrightarrow> i < 4 \<or> 8 \<le> i \<Longrightarrow> blanked hp p m (hp + i) = m (p + i)"
  by (auto simp: blanked_def write_bytes_apply blank_hcrc_def nth_append HDR_SIZE_def)

lemma blanked_other: "a < hp \<or> hp + HDR_SIZE \<le> a \<Longrightarrow> blanked hp p m a = m a"
  by (simp add: blanked_def write_bytes_apply HDR_SIZE_def) auto

lemma blanked_fetched: "write_bytes (fetched hp p m) (hp + 4) (be32 0) = blanked hp p m"
proof
  fix a
  show "write_bytes (fetched hp p m) (hp + 4) (be32 0) a = blanked hp p m a"
    by (auto simp: fetched_def blanked_def write_bytes_apply blank_hcrc_def nth_append HDR_SIZE_def)
qed

lemma memmove_fetched: "fst (memmove m hp p HDR_SIZE) = fetched hp p m"
  by (simp add: memmove_correct fetched_def)

lemma fetched_fields:
  "ih_magic (fetched hp p m) hp = ih_magic m p" "ih_hcrc (fetched hp p m) hp = ih_hcrc m p"
  unfolding ih_defs
  by (rule NetReadIP_cong, use fetched_at [of _ hp p m] in \<open>simp add: HDR_SIZE_def\<close>)
    (rule NetReadIP_cong, use fetched_at [of "4 + _" hp p m] in \<open>simp add: HDR_SIZE_def add.assoc\<close>)

lemma blanked_word: "8 \<le> k \<Longrightarrow> k + 4 \<le> HDR_SIZE \<Longrightarrow> NetReadIP (blanked hp p m) (hp + k) = NetReadIP m (p + k)"
  by (rule NetReadIP_cong) (use blanked_at [of "k + _" hp p m] in \<open>simp add: add.assoc\<close>)

lemma blanked_fields:
  "ih_time (blanked hp p m) hp = ih_time m p" "ih_size (blanked hp p m) hp = ih_size m p"
  "ih_load (blanked hp p m) hp = ih_load m p" "ih_ep (blanked hp p m) hp = ih_ep m p"
  "ih_dcrc (blanked hp p m) hp = ih_dcrc m p" "ih_os (blanked hp p m) hp = ih_os m p"
  "ih_arch (blanked hp p m) hp = ih_arch m p" "ih_type (blanked hp p m) hp = ih_type m p"
  "ih_comp (blanked hp p m) hp = ih_comp m p"
  by (simp_all add: ih_defs blanked_word blanked_at HDR_SIZE_def)

lemma crc32_blanked: "crc32 (blanked hp p m) 0 hp HDR_SIZE = crc_of (blank_hcrc (read_bytes m p HDR_SIZE))"
proof -
  have "length (blank_hcrc (read_bytes m p HDR_SIZE)) = HDR_SIZE" by (simp add: HDR_SIZE_def)
  then have "read_bytes (blanked hp p m) hp HDR_SIZE = blank_hcrc (read_bytes m p HDR_SIZE)"
    unfolding blanked_def by (metis read_write_bytes)
  then show ?thesis by (simp add: crc32_crc_of)
qed

text \<open>The image itself is not changed by the copy.\<close>

lemma blanked_image:
  assumes "clear_of hp p n" "j \<le> HDR_SIZE + n"
  shows "i < j \<Longrightarrow> blanked hp p m (p + i) = m (p + i)"
  using assms by (intro blanked_other) (auto simp: clear_of_def)

lemma read_blanked: "clear_of hp p n \<Longrightarrow> k + j \<le> HDR_SIZE + n \<Longrightarrow>
    read_bytes (blanked hp p m) (p + k) j = read_bytes m (p + k) j"
  using blanked_image [of hp p n "k + j" _ m] by (intro read_bytes_cong) (simp add: add.assoc)

lemma data_address: "clear_of hp (unat (addr :: u32)) n \<Longrightarrow> unat (addr + of_nat HDR_SIZE) = unat addr + HDR_SIZE"
  by (subst unat_add_lem [THEN iffD1]) (simp_all add: clear_of_def HDR_SIZE_def)

lemma image_info_result:
  assumes "clear_of hp (unat addr) (unat (ih_size m (unat addr)))"
  shows "image_info hp addr m out =
    (let p = unat addr; out = printf (nl @ ''## Checking Image at %08lx ...'' @ nl) [ArgInt addr] out in
     if ih_magic m p \<noteq> IH_MAGIC then Some (1, fetched hp p m, puts (''   Bad Magic Number'' @ nl) out)
     else if \<not> header_ok m p then Some (1, blanked hp p m, puts (''   Bad Header Checksum'' @ nl) out)
     else case print_image_hdr (blanked hp p m) p out of
       None \<Rightarrow> None
     | Some out \<Rightarrow>
         let out = puts ''   Verifying Checksum ... '' out in
         Some (if data_ok m p then (0, blanked hp p m, puts (''OK'' @ nl) out)
               else (1, blanked hp p m, puts (''   Bad Data CRC'' @ nl) out)))"
proof -
  have "read_bytes (blanked hp (unat addr) m) (unat addr + HDR_SIZE) (unat (ih_size m (unat addr))) =
      image_data m (unat addr)"
    using read_blanked [OF assms, of HDR_SIZE] by (simp add: image_data_def)
  then have "crc32 (blanked hp (unat addr) m) 0 (unat addr + HDR_SIZE) (unat (ih_size m (unat addr))) =
      crc_of (image_data m (unat addr))" by (simp add: crc32_crc_of)
  then show ?thesis
    by (simp add: image_info_def Let_def memmove_fetched fetched_fields blanked_fetched crc32_blanked blanked_fields
        data_address [OF assms] header_ok_def data_ok_def split: option.split)
qed

section \<open>Printing ends\<close>

lemma print_contents_ends:
  "NetReadIP m (p + 4 * k) = 0 \<Longrightarrow> \<exists>out'. print_contents m p i out = Some out'"
proof (induction k arbitrary: p i out)
  case 0
  then show ?case by (subst print_contents.simps) simp
next
  case (Suc k)
  have "NetReadIP m (p + 4 + 4 * k) = 0" using Suc.prems by (simp add: algebra_simps)
  then show ?case using Suc.IH [of "p + 4"] by (subst print_contents.simps) (simp add: Let_def)
qed

lemma to_tm_some: "\<exists>tm' tb. to_tm month_days (sint (t :: u32)) tm = Some (tm', tb)"
proof (cases "0 \<le> sint t")
  case True
  moreover have "sint t < 2 ^ 31" using sint_lt [of t] by simp
  ultimately show ?thesis using to_tm_fields by blast
next
  case False
  then have day: "sint t sdiv SECDAY \<le> 0" unfolding SECDAY_def
    by (simp add: signed_divide_int_def sgn_if pos_imp_zdiv_nonneg_iff)
  then have "year_loop STARTOFTIME (sint t sdiv SECDAY) = (STARTOFTIME, sint t sdiv SECDAY)"
    using days_in_year_pos [of STARTOFTIME] by (subst year_loop.simps) simp
  moreover have "\<not> leapyear STARTOFTIME" by (simp add: leapyear_def STARTOFTIME_def)
  ultimately show ?thesis
    using day by (auto simp: to_tm_def month_days_def GregorianDay_def Let_def STARTOFTIME_def)
qed

lemma print_image_hdr_ends:
  assumes "ih_type m p = IH_TYPE_MULTI \<Longrightarrow> NetReadIP m (p + HDR_SIZE + 4 * k) = 0"
  shows "\<exists>out'. print_image_hdr m p out = Some out'"
  using to_tm_some [of "ih_time m p" "rtc_time.make 0 0 0 0 0 0 0 0 0"] assms print_contents_ends [of m "p + HDR_SIZE" k]
  by (fastforce simp: print_image_hdr_def Let_def)

section \<open>What \<open>mkimage\<close> makes\<close>

definition header_bytes :: "u32 \<Rightarrow> mk_opts \<Rightarrow> u32 \<Rightarrow> byte list \<Rightarrow> byte list" where
  "header_bytes c opt mtime dat =
     be32 IH_MAGIC @ be32 c @ be32 mtime @ be32 (of_nat (length dat)) @ be32 (mk_addr opt) @ be32 (entry_point opt) @
     be32 (crc_of dat) @ [mk_os opt, mk_arch opt, mk_type opt, mk_comp opt] @ name_field (mk_name opt)"

definition image_bytes :: "mk_opts \<Rightarrow> u32 \<Rightarrow> byte list \<Rightarrow> byte list" where
  "image_bytes opt mtime dat = header_bytes (crc_of (header_bytes 0 opt mtime dat)) opt mtime dat @ dat"

lemma length_name_field [simp]: "length (name_field name) = 32"
  by (simp add: name_field_def IH_NMLEN_def min_def)

lemma length_header_bytes [simp]: "length (header_bytes c opt mtime dat) = HDR_SIZE"
  by (simp add: header_bytes_def HDR_SIZE_def)

text \<open>The header is written field by field, front to back, into the zeros.\<close>

lemma write_field:
  assumes "length xs = k" "length ys \<le> n"
  shows "write_bytes (write_bytes m 0 (xs @ replicate n 0 @ zs)) k ys =
    write_bytes m 0 ((xs @ ys) @ replicate (n - length ys) 0 @ zs)"
  using assms by (intro ext) (auto simp: write_bytes_apply nth_append)

lemma write_middle:
  assumes "length xs = k" "length ys' = length ys"
  shows "write_bytes (write_bytes m 0 (xs @ ys @ zs)) k ys' = write_bytes m 0 (xs @ ys' @ zs)"
  using assms by (intro ext) (auto simp: write_bytes_apply nth_append)

lemma build_header_image:
  assumes "length dat < 2 ^ 32"
  shows "build_header opt mtime (replicate HDR_SIZE 0 @ dat) = image_bytes opt mtime dat"
proof -
  let ?m = "write_bytes (\<lambda>_. 0) 0" and ?h = "\<lambda>c. header_bytes c opt mtime dat"
  have n: "of_nat (length (replicate HDR_SIZE 0 @ dat)) - of_nat HDR_SIZE = (of_nat (length dat) :: u32)" by simp
  have "unat (of_nat (length dat) :: u32) = length dat"
    using assms by (simp add: unsigned_of_nat take_bit_nat_eq_self)
  moreover have "read_bytes (?m (replicate HDR_SIZE 0 @ dat)) HDR_SIZE (length dat) = dat"
    using read_bytes_part [OF read_write_bytes, of HDR_SIZE "length dat" "replicate HDR_SIZE 0 @ dat" "\<lambda>_. 0" 0] by simp
  ultimately have dcrc: "crc32 (?m (replicate HDR_SIZE 0 @ dat)) 0 HDR_SIZE (unat (of_nat (length dat) :: u32)) = crc_of dat"
    by (simp add: crc32_crc_of)
  have magic: "write_bytes (?m (replicate HDR_SIZE 0 @ dat)) 0 (be32 IH_MAGIC) =
      ?m ((be32 IH_MAGIC @ be32 0) @ replicate 56 0 @ dat)"
    using write_field [of "[]" 0 "be32 IH_MAGIC" HDR_SIZE _ dat]
    by (simp add: HDR_SIZE_def be32_def numeral_eq_Suc)
  have fields: "write_bytes (write_bytes (write_bytes (write_bytes (write_bytes (write_bytes (write_bytes (write_bytes
      (write_bytes (write_bytes (?m ((be32 IH_MAGIC @ be32 0) @ replicate 56 0 @ dat)) 8 (be32 mtime))
        12 (be32 (of_nat (length dat)))) 16 (be32 (mk_addr opt))) 20 (be32 (entry_point opt))) 24 (be32 (crc_of dat)))
        28 [mk_os opt]) 29 [mk_arch opt]) 30 [mk_type opt]) 31 [mk_comp opt]) 32 (name_field (mk_name opt)) =
      ?m (?h 0 @ dat)"
    by (simp add: write_field del: append_assoc write_bytes.simps) (simp add: header_bytes_def)
  have "read_bytes (?m (?h 0 @ dat)) 0 HDR_SIZE = ?h 0"
    using read_bytes_part [OF read_write_bytes, of 0 HDR_SIZE "?h 0 @ dat" "\<lambda>_. 0" 0] by simp
  then have hcrc: "crc32 (?m (?h 0 @ dat)) 0 0 HDR_SIZE = crc_of (?h 0)" by (simp add: crc32_crc_of)
  have "write_bytes (?m (?h 0 @ dat)) 4 (be32 c) = ?m (?h c @ dat)" for c
    using write_middle [of "be32 IH_MAGIC" 4 "be32 c" "be32 0"] by (simp add: header_bytes_def)
  then show ?thesis
    unfolding build_header_def Let_def n dcrc magic fields hcrc
    using read_write_bytes [of "\<lambda>_. 0" 0 "image_bytes opt mtime dat"] by (simp add: image_bytes_def)
qed

text \<open>Where the bytes of an image stand, they are a verified image.\<close>

lemma image_fields:
  assumes img: "read_bytes m p (length (image_bytes opt mtime dat)) = image_bytes opt mtime dat"
    and "length dat < 2 ^ 32"
  shows "ih_magic m p = IH_MAGIC" "ih_time m p = mtime" "ih_size m p = of_nat (length dat)" "ih_load m p = mk_addr opt"
    "ih_ep m p = entry_point opt" "ih_os m p = mk_os opt" "ih_arch m p = mk_arch opt" "ih_type m p = mk_type opt"
    "ih_comp m p = mk_comp opt" "image_data m p = dat" "header_ok m p" "data_ok m p"
proof -
  let ?c = "crc_of (header_bytes 0 opt mtime dat)"
  have len: "length (image_bytes opt mtime dat) = HDR_SIZE + length dat" by (simp add: image_bytes_def)
  note part = read_bytes_part [OF img, unfolded len]
  have word: "NetReadIP m (p + k) = w" if "take 4 (drop k (image_bytes opt mtime dat)) = be32 w" "k + 4 \<le> HDR_SIZE" for k w
    using part [of k 4] that by (intro NetReadIP_be32) simp
  have byte: "m (p + k) = image_bytes opt mtime dat ! k" if "k < HDR_SIZE" for k
    using arg_cong [OF img, of "\<lambda>xs. xs ! k"] that len by simp
  note layout = image_bytes_def header_bytes_def
  show magic: "ih_magic m p = IH_MAGIC" using word [of 0] by (simp add: ih_defs layout HDR_SIZE_def)
  have hcrc: "ih_hcrc m p = ?c" using word [of 4] by (simp add: ih_defs layout HDR_SIZE_def)
  have dcrc: "ih_dcrc m p = crc_of dat" using word [of 24] by (simp add: ih_defs layout HDR_SIZE_def)
  show "ih_time m p = mtime" using word [of 8] by (simp add: ih_defs layout HDR_SIZE_def)
  show size': "ih_size m p = of_nat (length dat)" using word [of 12] by (simp add: ih_defs layout HDR_SIZE_def)
  show "ih_load m p = mk_addr opt" using word [of 16] by (simp add: ih_defs layout HDR_SIZE_def)
  show "ih_ep m p = entry_point opt" using word [of 20] by (simp add: ih_defs layout HDR_SIZE_def)
  show "ih_os m p = mk_os opt" using byte [of 28] by (simp add: ih_defs layout HDR_SIZE_def nth_append)
  show "ih_arch m p = mk_arch opt" using byte [of 29] by (simp add: ih_defs layout HDR_SIZE_def nth_append)
  show "ih_type m p = mk_type opt" using byte [of 30] by (simp add: ih_defs layout HDR_SIZE_def nth_append)
  show "ih_comp m p = mk_comp opt" using byte [of 31] by (simp add: ih_defs layout HDR_SIZE_def nth_append)
  have "unat (of_nat (length dat) :: u32) = length dat"
    using assms(2) by (simp add: unsigned_of_nat take_bit_nat_eq_self)
  then show dat: "image_data m p = dat"
    using part [of HDR_SIZE "length dat"] by (simp add: image_data_def size' image_bytes_def)
  show "data_ok m p" by (simp add: data_ok_def dcrc dat)
  have "read_bytes m p HDR_SIZE = header_bytes ?c opt mtime dat" using part [of 0 HDR_SIZE] by (simp add: image_bytes_def)
  moreover have "blank_hcrc (header_bytes ?c opt mtime dat) = header_bytes 0 opt mtime dat"
    by (simp add: blank_hcrc_def header_bytes_def)
  ultimately show "header_ok m p" by (simp add: header_ok_def magic hcrc)
qed

section \<open>The files of an image\<close>

function file_names :: "byte list \<Rightarrow> byte list list" where
  "file_names s = file_name s # (case after_colon s of None \<Rightarrow> [] | Some t \<Rightarrow> file_names t)"
  by pat_completeness auto
termination by (relation "measure length") (auto dest: after_colon_less)

declare file_names.simps [simp del]

text \<open>The table of lengths, and the files padded to a multiple of 4 bytes, the last one excepted.\<close>

definition sizes_table :: "byte list list \<Rightarrow> byte list" where
  "sizes_table ds = concat (map (\<lambda>d. be32 (of_nat (length d))) ds) @ be32 0"

fun padded :: "byte list list \<Rightarrow> byte list" where
  "padded [] = []"
| "padded [d] = d"
| "padded (d # ds) = d @ replicate (if length d mod 4 = 0 then 0 else 4 - length d mod 4) 0 @ padded ds"

lemma write_sizes_table:
  "write_sizes fs (Some s) ifd = Some r \<Longrightarrow>
   \<exists>ds. map fs (file_names s) = map Some ds \<and> r = ifd @ sizes_table ds"
proof (induction s arbitrary: ifd rule: file_names.induct)
  case (1 s)
  obtain d where d: "fs (file_name s) = Some d"
    "write_sizes fs (after_colon s) (ifd @ be32 (of_nat (length d))) = Some r"
    using 1(2) by (auto split: option.splits)
  show ?case
  proof (cases "after_colon s")
    case None
    then show ?thesis using d
      by (intro exI [of _ "[d]"]) (simp add: file_names.simps [of s] sizes_table_def)
  next
    case (Some t)
    then obtain ds where "map fs (file_names t) = map Some ds" "r = (ifd @ be32 (of_nat (length d))) @ sizes_table ds"
      using 1(1) [OF Some, of "ifd @ be32 (of_nat (length d))"] d(2) unfolding Some by blast
    then show ?thesis using d(1) Some
      by (intro exI [of _ "d # ds"]) (simp add: file_names.simps [of s] sizes_table_def)
  qed
qed

lemma copy_file_some:
  "copy_file opt fs name pad ifd = Some r \<Longrightarrow> \<not> mk_xflag opt \<Longrightarrow>
   \<exists>d. fs name = Some d \<and> d \<noteq> [] \<and>
     r = ifd @ d @ replicate (if pad \<and> length d mod 4 \<noteq> 0 then 4 - length d mod 4 else 0) 0"
  by (auto simp: copy_file_def Let_def split: option.splits if_splits)

lemma file_names_not_Nil [simp]: "file_names s \<noteq> []"
  by (simp add: file_names.simps [of s])

lemma padded_Cons: "ds \<noteq> [] \<Longrightarrow>
    padded (d # ds) = d @ replicate (if length d mod 4 \<noteq> 0 then 4 - length d mod 4 else 0) 0 @ padded ds"
  by (cases ds) auto

lemma file_name_all: "after_colon s = None \<Longrightarrow> file_name s = s"
  by (auto simp: after_colon_def file_name_def split: if_splits)

lemma write_files_padded:
  "write_files opt fs s ifd = Some r \<Longrightarrow> \<not> mk_xflag opt \<Longrightarrow>
   \<exists>ds. map fs (file_names s) = map Some ds \<and> [] \<notin> set ds \<and> r = ifd @ padded ds"
proof (induction s arbitrary: ifd rule: file_names.induct)
  case (1 s)
  show ?case
  proof (cases "after_colon s")
    case None
    then show ?thesis
      using 1(2) copy_file_some [OF _ 1(3)]
      by (fastforce simp: write_files.simps [of opt fs s] file_names.simps [of s] file_name_all intro: exI [of _ "[_]"])
  next
    case (Some t)
    then obtain r' where "copy_file opt fs (file_name s) True ifd = Some r'" "write_files opt fs t r' = Some r"
      using 1(2) by (auto simp: write_files.simps [of opt fs s] split: option.splits)
    moreover from this obtain d where d: "fs (file_name s) = Some d" "d \<noteq> []"
      "r' = ifd @ d @ replicate (if length d mod 4 \<noteq> 0 then 4 - length d mod 4 else 0) 0"
      using copy_file_some [of opt fs "file_name s" True ifd r'] 1(3) by (auto simp del: replicate_0)
    ultimately obtain ds where ds: "map fs (file_names t) = map Some ds" "[] \<notin> set ds" "r = r' @ padded ds"
      using 1(1) [OF Some _ 1(3), of r'] by blast
    then have "ds \<noteq> []" by auto
    then show ?thesis
      using d ds Some by (intro exI [of _ "d # ds"]) (simp add: file_names.simps [of s] padded_Cons)
  qed
qed

lemma write_files_extends: "write_files opt fs s ifd = Some r \<Longrightarrow> \<exists>dat. r = ifd @ dat"
proof (induction s arbitrary: ifd rule: file_names.induct)
  case (1 s)
  have copy: "copy_file opt fs name pad ifd = Some r \<Longrightarrow> \<exists>dat. r = ifd @ dat" for name pad ifd r
    by (auto simp: copy_file_def Let_def split: option.splits if_splits)
  show ?case
    using 1(2) copy 1(1) by (fastforce simp: write_files.simps [of opt fs s] split: option.splits)
qed

text \<open>The data of an image: one file, or the table and the files.\<close>

definition several :: "mk_opts \<Rightarrow> bool" where
  "several opt \<longleftrightarrow> mk_type opt = IH_TYPE_MULTI \<or> mk_type opt = IH_TYPE_SCRIPT"

lemma mkimage_image:
  assumes made: "mkimage opt fs mtime = Some img" and len: "length img \<le> 2 ^ 32"
  obtains dat where "img = image_bytes opt mtime dat" "length dat < 2 ^ 32"
    "several opt \<Longrightarrow> \<exists>ds rest. dat = sizes_table ds @ rest"
    "\<not> several opt \<Longrightarrow> \<exists>d. fs (mk_datafile opt) = Some d \<and> dat = drop (if mk_xflag opt then HDR_SIZE else 0) d"
    "several opt \<Longrightarrow> \<not> mk_xflag opt \<Longrightarrow>
       \<exists>ds. map fs (file_names (mk_datafile opt)) = map Some ds \<and> [] \<notin> set ds \<and> dat = sizes_table ds @ padded ds"
proof -
  let ?z = "replicate HDR_SIZE 0" and ?s = "mk_datafile opt"
  have "\<exists>dat. img = build_header opt mtime (?z @ dat) \<and>
    (several opt \<longrightarrow> (\<exists>ds rest. dat = sizes_table ds @ rest)) \<and>
    (\<not> several opt \<longrightarrow> (\<exists>d. fs ?s = Some d \<and> dat = drop (if mk_xflag opt then HDR_SIZE else 0) d)) \<and>
    (several opt \<longrightarrow> \<not> mk_xflag opt \<longrightarrow>
      (\<exists>ds. map fs (file_names ?s) = map Some ds \<and> [] \<notin> set ds \<and> dat = sizes_table ds @ padded ds))"
  proof (cases "several opt")
    case True
    then obtain r1 r where r: "write_sizes fs (Some ?s) ?z = Some r1" "write_files opt fs ?s r1 = Some r"
      "img = build_header opt mtime r"
      using made by (auto simp: mkimage_def several_def Let_def split: if_splits option.splits simp del: write_sizes.simps)
    obtain ds where ds: "map fs (file_names ?s) = map Some ds" "r1 = ?z @ sizes_table ds"
      using write_sizes_table [OF r(1)] by blast
    obtain rest where rest: "r = r1 @ rest" using write_files_extends [OF r(2)] by blast
    have "[] \<notin> set ds \<and> rest = padded ds" if "\<not> mk_xflag opt"
      using write_files_padded [OF r(2) that] ds rest by (auto simp: inj_map_eq_map)
    then show ?thesis using r(3) ds rest True by (intro exI [of _ "sizes_table ds @ rest"]) auto
  next
    case False
    then show ?thesis
      using made by (auto simp: mkimage_def several_def Let_def copy_file_def split: if_splits option.splits)
  qed
  then obtain dat where dat: "img = build_header opt mtime (?z @ dat)"
    "several opt \<Longrightarrow> \<exists>ds rest. dat = sizes_table ds @ rest"
    "\<not> several opt \<Longrightarrow> \<exists>d. fs ?s = Some d \<and> dat = drop (if mk_xflag opt then HDR_SIZE else 0) d"
    "several opt \<Longrightarrow> \<not> mk_xflag opt \<Longrightarrow>
      \<exists>ds. map fs (file_names ?s) = map Some ds \<and> [] \<notin> set ds \<and> dat = sizes_table ds @ padded ds"
    by blast
  have "length (build_header opt mtime (?z @ dat)) = HDR_SIZE + length dat" by (simp add: build_header_def Let_def)
  then have "length dat < 2 ^ 32" using len dat(1) by (simp add: HDR_SIZE_def)
  then show ?thesis using that dat build_header_image by metis
qed

section \<open>Damaged images\<close>

lemma be32_NetReadIP: "be32 (NetReadIP m p) = read_bytes m p 4"
proof -
  have "ucast (drop_bit 24 (NetReadIP m p)) = m p" "ucast (drop_bit 16 (NetReadIP m p)) = m (p + 1)"
    "ucast (drop_bit 8 (NetReadIP m p)) = m (p + 2)" "ucast (NetReadIP m p) = m (p + 3)"
    by (rule bit_word_eqI; auto simp: NetReadIP_def bit_simps dest: bit_imp_le_length)+
  then show ?thesis by (simp add: be32_def read_bytes_def upt_rec numeral_3_eq_3)
qed

lemma be32_inj [simp]: "be32 a = be32 b \<longleftrightarrow> a = b"
proof
  assume "be32 a = be32 b"
  moreover have "NetReadIP (write_bytes (\<lambda>_. 0) 0 (be32 w)) 0 = w" for w
    using read_write_bytes [of "\<lambda>_. 0" 0 "be32 w"] by (intro NetReadIP_be32) simp
  ultimately show "a = b" by metis
qed simp

text \<open>The verification of a header, on its bytes.\<close>

definition header_valid :: "byte list \<Rightarrow> bool" where
  "header_valid h \<longleftrightarrow> take 4 h = be32 IH_MAGIC \<and> take 4 (drop 4 h) = be32 (crc_of (blank_hcrc h))"

lemma header_ok_valid: "header_ok m p \<longleftrightarrow> header_valid (read_bytes m p HDR_SIZE)"
proof -
  have "read_bytes m p 4 = take 4 (read_bytes m p HDR_SIZE)" "read_bytes m (p + 4) 4 = take 4 (drop 4 (read_bytes m p HDR_SIZE))"
    using read_bytes_part [OF refl, of 0 4 HDR_SIZE m p] read_bytes_part [OF refl, of 4 4 HDR_SIZE m p]
    by (simp_all add: HDR_SIZE_def)
  then show ?thesis
    unfolding header_ok_def header_valid_def ih_defs using be32_NetReadIP [of m p] be32_NetReadIP [of m "p + 4"]
    by (metis be32_inj)
qed

lemma crc_of_run: "crc_of xs = c32.run (0 XOR 0xffffffff) xs XOR 0xffffffff"
  by (simp only: crc_of_def crc32_run read_write_bytes)

text \<open>Damage of at most 4 consecutive bytes; what it does to a part.\<close>

definition burst :: "byte list \<Rightarrow> byte list \<Rightarrow> bool" where
  "burst xs ys \<longleftrightarrow>
     (\<exists>ps us vs ss. xs = ps @ us @ ss \<and> ys = ps @ vs @ ss \<and> length us = length vs \<and> length us \<le> 4)"

lemma burst_length: "burst xs ys \<Longrightarrow> length ys = length xs"
  by (auto simp: burst_def)

lemma burst_take:
  assumes "burst xs ys"
  shows "burst (take n xs) (take n ys)"
proof -
  obtain ps us vs ss where w: "xs = ps @ us @ ss" "ys = ps @ vs @ ss" "length us = length vs" "length vs \<le> 4"
    using assms unfolding burst_def by auto
  show ?thesis
    unfolding burst_def
    by (insert w(4), rule exI [of _ "take n ps"], rule exI [of _ "take (n - length ps) us"], rule exI [of _ "take (n - length ps) vs"],
        rule exI [of _ "take (n - length ps - length us) ss"]) (simp add: w(1-3))
qed

lemma burst_drop:
  assumes "burst xs ys"
  shows "burst (drop n xs) (drop n ys)"
proof -
  obtain ps us vs ss where w: "xs = ps @ us @ ss" "ys = ps @ vs @ ss" "length us = length vs" "length vs \<le> 4"
    using assms unfolding burst_def by auto
  show ?thesis
    unfolding burst_def
    by (insert w(4), rule exI [of _ "drop n ps"], rule exI [of _ "drop (n - length ps) us"], rule exI [of _ "drop (n - length ps) vs"],
        rule exI [of _ "drop (n - length ps - length us) ss"]) (simp add: w(1-3))
qed

lemma crc_of_burst:
  assumes "burst xs ys" "xs \<noteq> ys"
  shows "crc_of (zs @ xs) \<noteq> crc_of (zs @ ys)"
proof -
  obtain ps us vs ss where w: "xs = ps @ us @ ss" "ys = ps @ vs @ ss" "length us = length vs" "length us \<le> 4"
    using assms(1) unfolding burst_def by blast
  have "us \<noteq> vs" using assms(2) w(1,2) by auto
  then show ?thesis
    using c32.detects_burst [OF w(3,4), of _ "zs @ ps" ss] by (simp add: crc_of_run w(1,2))
qed

lemma header_parts: "xs = take 4 xs @ take 4 (drop 4 xs) @ drop 8 xs"
  using append_take_drop_id [of 4 xs] append_take_drop_id [of 4 "drop 4 xs"] by simp

text \<open>
  The first 8 bytes of a header are its magic number and its checksum, which covers the other fields: damage to one of
  these parts invalidates it.
\<close>

lemma header_burst:
  assumes ok: "header_valid h" and window: "burst h h'" "h' \<noteq> h"
    and place: "take 8 h' = take 8 h \<or> drop 8 h' = drop 8 h"
  shows "\<not> header_valid h'"
proof
  assume ok': "header_valid h'"
  have magic: "take 4 h' = take 4 h" using ok ok' by (simp only: header_valid_def)
  show False
    using place
  proof
    assume eight: "take 8 h' = take 8 h"
    then have "drop 8 h' \<noteq> drop 8 h" using window(2) append_take_drop_id [of 8] by metis
    then have "crc_of (blank_hcrc h) \<noteq> crc_of (blank_hcrc h')"
      using crc_of_burst [OF burst_drop [OF window(1), of 8], of "take 4 h @ be32 0"] unfolding blank_hcrc_def magic append_assoc by metis
    moreover have "take 4 (drop 4 h') = take 4 (drop 4 h)" using arg_cong [OF eight, of "drop 4"] by (simp add: drop_take)
    ultimately show False using ok ok' by (simp add: header_valid_def)
  next
    assume rest: "drop 8 h' = drop 8 h"
    with magic have "take 4 (drop 4 h') = take 4 (drop 4 h)" using ok ok' unfolding header_valid_def blank_hcrc_def by metis
    then have "h' = h" using header_parts [of h] header_parts [of h'] magic rest by metis
    then show False using window(2) by simp
  qed
qed

text \<open>
  At most 4 consecutive bytes of an image are damaged, and not both some of its first 8 bytes (which end with the stored
  checksum of the header) and some behind them.
\<close>

definition one_window :: "byte list \<Rightarrow> byte list \<Rightarrow> bool" where
  "one_window img img' \<longleftrightarrow> burst img img' \<and> img' \<noteq> img \<and> (take 8 img' = take 8 img \<or> drop 8 img' = drop 8 img)"

lemma damaged_image:
  assumes img: "img = image_bytes opt mtime dat" "length dat < 2 ^ 32" and damage: "one_window img img'"
    and at: "read_bytes m p (length img') = img'"
  shows "\<not> header_ok m p \<or> \<not> data_ok m p \<and> ih_size m p = of_nat (length dat) \<and> ih_type m p = mk_type opt"
proof -
  have w: "burst img img'" "img' \<noteq> img" and place: "take 8 img' = take 8 img \<or> drop 8 img' = drop 8 img"
    using damage unfolding one_window_def by blast+
  have "length img = HDR_SIZE + length dat" by (simp add: img(1) image_bytes_def)
  then have len: "length img = HDR_SIZE + length dat" "length img' = HDR_SIZE + length dat" using burst_length [OF w(1)] by simp_all
  define m0 where "m0 = write_bytes m p img"
  have at0: "read_bytes m0 p (length img) = img" by (simp add: m0_def)
  note fields = image_fields [OF at0 [unfolded img(1)] img(2)]
  have h0: "read_bytes m0 p HDR_SIZE = take HDR_SIZE img" using read_bytes_part [OF at0, of 0 HDR_SIZE] len by simp
  have h: "read_bytes m p HDR_SIZE = take HDR_SIZE img'" using read_bytes_part [OF at, of 0 HDR_SIZE] len by simp
  show ?thesis
  proof (cases "take HDR_SIZE img' = take HDR_SIZE img")
    case True
    have same: "m (p + i) = m0 (p + i)" if "i < HDR_SIZE" for i
      using arg_cong [OF h, of "\<lambda>xs. xs ! i"] arg_cong [OF h0, of "\<lambda>xs. xs ! i"] that True by simp
    have word: "NetReadIP m (p + k) = NetReadIP m0 (p + k)" if "k + 4 \<le> HDR_SIZE" for k
      using same [of "k + _"] that by (intro NetReadIP_cong) (simp add: add.assoc)
    have "ih_dcrc m p = ih_dcrc m0 p" "ih_size m p = ih_size m0 p" by (simp_all add: ih_defs word HDR_SIZE_def)
    moreover have "unat (of_nat (length dat) :: u32) = length dat"
      using img(2) by (simp add: unsigned_of_nat take_bit_nat_eq_self)
    moreover have "image_data m0 p = drop HDR_SIZE img" "image_data m p = drop HDR_SIZE img'"
      using read_bytes_part [OF at0, of HDR_SIZE "length dat"] read_bytes_part [OF at, of HDR_SIZE "length dat"]
        len calculation fields(3) by (simp_all add: image_data_def)
    moreover have "drop HDR_SIZE img \<noteq> drop HDR_SIZE img'" using True w(2) append_take_drop_id [of HDR_SIZE] by metis
    moreover have "ih_type m p = mk_type opt" using same [of 30] fields(8) by (simp add: ih_defs HDR_SIZE_def)
    ultimately show ?thesis
      using fields(3,12) crc_of_burst [OF burst_drop [OF w(1), of HDR_SIZE], of "[]"] by (simp add: data_ok_def)
  next
    case False
    have "take 8 (take HDR_SIZE img') = take 8 (take HDR_SIZE img) \<or> drop 8 (take HDR_SIZE img') = drop 8 (take HDR_SIZE img)"
      using place by (auto simp: HDR_SIZE_def drop_take)
    then show ?thesis
      using header_burst [OF _ burst_take [OF w(1)] False] fields(11) unfolding header_ok_valid h h0 by blast
  qed
qed

section \<open>Verification of what was made\<close>

lemma sizes_table_end: "read_bytes m q (length (sizes_table ds)) = sizes_table ds \<Longrightarrow> NetReadIP m (q + 4 * length ds) = 0"
proof (rule NetReadIP_be32)
  have len: "length (concat (map (\<lambda>d. be32 (of_nat (length d))) ds)) = 4 * length ds"
    by (induction ds) simp_all
  assume "read_bytes m q (length (sizes_table ds)) = sizes_table ds"
  from read_bytes_part [OF this, of "4 * length ds" 4] show "read_bytes m (q + 4 * length ds) 4 = be32 0"
    using len by (simp add: sizes_table_def)
qed

lemma image_prints:
  assumes at: "read_bytes m p (length (image_bytes opt mtime dat)) = image_bytes opt mtime dat" "length dat < 2 ^ 32"
    and several: "several opt \<Longrightarrow> \<exists>ds rest. dat = sizes_table ds @ rest"
  shows "\<exists>out'. print_image_hdr m p out = Some out'"
proof (cases "several opt")
  case True
  then obtain ds rest where dat: "dat = sizes_table ds @ rest" using several by blast
  have "read_bytes m (p + HDR_SIZE) (length (sizes_table ds)) = sizes_table ds"
    using read_bytes_part [OF at(1), of HDR_SIZE "length (sizes_table ds)"] by (simp add: image_bytes_def dat)
  then show ?thesis using sizes_table_end print_image_hdr_ends by blast
next
  case False
  then have "ih_type m p \<noteq> IH_TYPE_MULTI" using image_fields(8) [OF at] by (simp add: several_def)
  then show ?thesis using print_image_hdr_ends by blast
qed

lemma header_ok_magic: "header_ok m p \<Longrightarrow> ih_magic m p = IH_MAGIC"
  by (simp add: header_ok_def)

lemma image_info_bad_header:
  "\<not> header_ok m (unat addr) \<Longrightarrow> \<exists>m' out'. image_info hp addr m out = Some (1, m', out')"
  by (auto simp: image_info_def Let_def memmove_fetched fetched_fields blanked_fetched crc32_blanked header_ok_def)

lemma clear_image: "clear_of hp p n \<Longrightarrow> read_bytes (blanked hp p m) p (HDR_SIZE + n) = read_bytes m p (HDR_SIZE + n)"
  using read_blanked [of hp p n 0 "HDR_SIZE + n" m] by simp

lemma list_image_made:
  assumes "length dat < 2 ^ 32"
  shows "list_image (image_bytes opt mtime dat) = Some (False, False)"
proof -
  let ?img = "image_bytes opt mtime dat" and ?m = "write_bytes (\<lambda>_. 0) 0"
  have len: "length ?img = HDR_SIZE + length dat" by (simp add: image_bytes_def)
  note fields = image_fields [OF read_write_bytes assms, of "\<lambda>_. 0" 0 opt mtime]
  let ?h = "?m (take HDR_SIZE ?img)"
  have same: "?h i = ?m ?img i" if "i < HDR_SIZE" for i using that len by (simp add: write_bytes_apply)
  then have bytes: "read_bytes ?h 0 HDR_SIZE = read_bytes (?m ?img) 0 HDR_SIZE" by (intro read_bytes_cong) simp
  then have ok: "header_ok ?h 0" using fields(11) by (simp add: header_ok_valid)
  have "ih_dcrc ?h 0 = ih_dcrc (?m ?img) 0"
    using same [of "24 + _"] unfolding ih_defs by (intro NetReadIP_cong) (simp add: HDR_SIZE_def)
  moreover have "fetched 0 0 ?h = ?h" by (intro ext) (simp add: fetched_def write_bytes_apply)
  then have hcrc0: "write_bytes ?h 4 (be32 0) = blanked 0 0 ?h" using blanked_fetched [of 0 0 ?h] by simp
  moreover have "image_data (?m ?img) 0 = read_bytes (?m ?img) HDR_SIZE (length dat)"
    using assms by (simp add: image_data_def fields unsigned_of_nat take_bit_nat_eq_self)
  ultimately show ?thesis
    using ok fields(12) crc32_blanked [of 0 0 ?h]
    by (simp add: list_image_def len Let_def blanked_fields crc32_crc_of [of "?m ?img"] header_ok_def data_ok_def)
qed

lemma made_image:
  assumes made: "mkimage opt fs mtime = Some img" and at: "read_bytes m (unat addr) (length img) = img"
    and clear: "clear_of hp (unat (addr :: u32)) (length img - HDR_SIZE)"
  obtains dat where "img = image_bytes opt mtime dat" "length dat < 2 ^ 32" "length img = HDR_SIZE + length dat"
    "clear_of hp (unat addr) (length dat)" "clear_of hp (unat addr) (unat (of_nat (length dat) :: u32))"
    "several opt \<Longrightarrow> \<exists>ds rest. dat = sizes_table ds @ rest"
proof -
  have "length img \<le> 2 ^ 32" using clear unfolding clear_of_def HDR_SIZE_def by linarith
  from mkimage_image [OF made this] obtain dat where dat: "img = image_bytes opt mtime dat" "length dat < 2 ^ 32"
    "several opt \<Longrightarrow> \<exists>ds rest. dat = sizes_table ds @ rest" by metis
  moreover have "length img = HDR_SIZE + length dat" by (simp add: dat(1) image_bytes_def)
  moreover have "unat (of_nat (length dat) :: u32) = length dat"
    using dat(2) by (simp add: unsigned_of_nat take_bit_nat_eq_self)
  ultimately show ?thesis using that clear by simp
qed

text \<open>
  C12. An image that \<open>mkimage\<close> made, wherever it is loaded, is accepted by \<open>iminfo\<close>, and \<open>mkimage -l\<close> warns of nothing.
  The header that was read has the load address, entry point, system, architecture, type and compression given to
  \<open>mkimage\<close>, and the size of the data. Several files in an image do not keep the listing of their sizes from ending.
\<close>

theorem mkimage_verified:
  assumes made: "mkimage opt fs mtime = Some img" and at: "read_bytes m (unat addr) (length img) = img"
    and clear: "clear_of hp (unat addr) (length img - HDR_SIZE)"
  shows "\<exists>m' out'. image_info hp addr m out = Some (0, m', out') \<and> list_image img = Some (False, False) \<and>
    ih_load m' hp = mk_addr opt \<and> ih_ep m' hp = entry_point opt \<and> ih_os m' hp = mk_os opt \<and>
    ih_arch m' hp = mk_arch opt \<and> ih_type m' hp = mk_type opt \<and> ih_comp m' hp = mk_comp opt \<and>
    ih_size m' hp = of_nat (length img - HDR_SIZE)"
proof -
  let ?p = "unat addr" and ?out = "printf (nl @ ''## Checking Image at %08lx ...'' @ nl) [ArgInt addr] out"
  obtain dat where img: "img = image_bytes opt mtime dat" "length dat < 2 ^ 32" "length img = HDR_SIZE + length dat"
    "clear_of hp ?p (length dat)" "clear_of hp ?p (unat (of_nat (length dat) :: u32))"
    "several opt \<Longrightarrow> \<exists>ds rest. dat = sizes_table ds @ rest"
    using made_image [OF assms] by metis
  note fields = image_fields [OF at [unfolded img(1)] img(2)]
  have "read_bytes (blanked hp ?p m) ?p (length img) = img" using clear_image [OF img(4)] at img(3) by simp
  then obtain out1 where "print_image_hdr (blanked hp ?p m) ?p ?out = Some out1"
    using image_prints [OF _ img(2,6)] img(1) by metis
  then have "image_info hp addr m out = Some (0, blanked hp ?p m,
      puts (''OK'' @ nl) (puts ''   Verifying Checksum ... '' out1))"
    using image_info_result [of hp addr m out] img(5) fields by (simp add: Let_def)
  then show ?thesis using list_image_made [OF img(2)] by (simp add: img(1,3) blanked_fields fields image_bytes_def)
qed

definition one_file :: "files" where
  "one_file name = (if name = bytes ''vmlinux'' then Some [1, 2, 3, 4, 5] else None)"

definition linux_opts :: "mk_opts" where
  "linux_opts = \<lparr>mk_os = IH_OS_LINUX, mk_arch = IH_CPU_MIPS, mk_type = IH_TYPE_KERNEL, mk_comp = IH_COMP_NONE,
     mk_addr = 0x80060000, mk_ep = Some 0x80060004, mk_name = bytes ''Linux'', mk_xflag = False,
     mk_datafile = bytes ''vmlinux''\<rparr>"

lemma linux_image: "mkimage linux_opts one_file 7 = Some (image_bytes linux_opts 7 [1, 2, 3, 4, 5])"
  using build_header_image [of "[1, 2, 3, 4, 5]" linux_opts 7]
  by (simp add: mkimage_def linux_opts_def copy_file_def one_file_def ih_types)

lemma length_linux_image: "length (image_bytes opt mtime [1, 2, 3, 4, 5]) = 69"
  by (simp add: image_bytes_def HDR_SIZE_def)

lemma linux_image_clear: "clear_of 1000 0x1000 (69 - HDR_SIZE)"
  by (simp add: clear_of_def HDR_SIZE_def)

lemma linux_addr: "mk_addr linux_opts = 0x80060000" "69 - HDR_SIZE = 5"
  by (simp_all add: linux_opts_def HDR_SIZE_def)

theorem mkimage_verified_witness:
  "\<exists>m' out'. image_info 1000 0x1000 (write_bytes (\<lambda>_. 0) 0x1000 (image_bytes linux_opts 7 [1, 2, 3, 4, 5])) [] =
     Some (0, m', out') \<and> ih_load m' 1000 = 0x80060000 \<and> ih_size m' 1000 = 5"
proof -
  let ?img = "image_bytes linux_opts 7 [1, 2, 3, 4, 5]"
  have "read_bytes (write_bytes (\<lambda>_. 0) 0x1000 ?img) (unat (0x1000 :: u32)) (length ?img) = ?img"
    using read_write_bytes [of "\<lambda>_. 0" "0x1000" ?img] by simp
  moreover have "clear_of 1000 (unat (0x1000 :: u32)) (length ?img - HDR_SIZE)"
    using linux_image_clear by (simp add: length_linux_image)
  ultimately have "\<exists>m' out'. image_info 1000 0x1000 (write_bytes (\<lambda>_. 0) 0x1000 ?img) [] = Some (0, m', out') \<and>
      ih_load m' 1000 = mk_addr linux_opts \<and> ih_size m' 1000 = of_nat (length ?img - HDR_SIZE)"
    using mkimage_verified [OF linux_image] by blast
  then show ?thesis by (simp add: length_linux_image linux_addr)
qed

text \<open>
  \<open>iminfo\<close> rejects a damaged image: when at most 4 consecutive bytes of an image that \<open>mkimage\<close> made are changed,
  but not both some of its first 8 bytes (magic number and checksum of the header) and some behind them, the
  result is 1. Only for an image of several files can the listing of the damaged table of sizes fail to end.
\<close>

theorem damage_detected:
  assumes made: "mkimage opt fs mtime = Some img" and damage: "one_window img img'"
    and at: "read_bytes m (unat addr) (length img') = img'" and clear: "clear_of hp (unat addr) (length img' - HDR_SIZE)"
  shows "case image_info hp addr m out of None \<Rightarrow> mk_type opt = IH_TYPE_MULTI | Some (r, _) \<Rightarrow> r = 1"
proof -
  let ?p = "unat addr" and ?out = "printf (nl @ ''## Checking Image at %08lx ...'' @ nl) [ArgInt addr] out"
  have len: "length img' = length img" using damage burst_length by (auto simp: one_window_def)
  obtain dat where img: "img = image_bytes opt mtime dat" "length dat < 2 ^ 32" "length img = HDR_SIZE + length dat"
    "clear_of hp ?p (length dat)" "clear_of hp ?p (unat (of_nat (length dat) :: u32))"
    using made_image [OF made read_write_bytes clear [unfolded len]] by metis
  show ?thesis
  proof (cases "header_ok m ?p")
    case False
    then show ?thesis using image_info_bad_header [OF False, of hp out] by auto
  next
    case True
    then have bad: "\<not> data_ok m ?p" "ih_size m ?p = of_nat (length dat)" "ih_type m ?p = mk_type opt"
      using damaged_image [OF img(1,2) damage at] by auto
    then have "image_info hp addr m out = (case print_image_hdr (blanked hp ?p m) ?p ?out of None \<Rightarrow> None
        | Some out1 \<Rightarrow> Some (1, blanked hp ?p m, puts (''   Bad Data CRC'' @ nl) (puts ''   Verifying Checksum ... '' out1)))"
      using image_info_result [of hp addr m out] img(5) True header_ok_magic [OF True]
      by (simp add: Let_def split: option.split)
    moreover have "mk_type opt = IH_TYPE_MULTI" if "print_image_hdr (blanked hp ?p m) ?p ?out = None"
    proof -
      have "ih_type (blanked hp ?p m) ?p = IH_TYPE_MULTI"
        using print_image_hdr_ends [of "blanked hp ?p m" ?p _ ?out] that by fastforce
      then show ?thesis
        using blanked_image [OF img(4), of HDR_SIZE 30 m] bad(3) by (simp add: ih_defs HDR_SIZE_def)
    qed
    ultimately show ?thesis by (auto split: option.split)
  qed
qed


lemma linux_image_damaged:
  "one_window (image_bytes linux_opts 7 [1, 2, 3, 4, 5])
     (header_bytes (crc_of (header_bytes 0 linux_opts 7 [1, 2, 3, 4, 5])) linux_opts 7 [1, 2, 3, 4, 5] @ [1, 9, 3, 4, 5])"
  unfolding one_window_def image_bytes_def
proof (intro conjI)
  let ?h = "header_bytes (crc_of (header_bytes 0 linux_opts 7 [1, 2, 3, 4, 5])) linux_opts 7 [1, 2, 3, 4, 5]"
  show "burst (?h @ [1, 2, 3, 4, 5]) (?h @ [1, 9, 3, 4, 5])"
    unfolding burst_def
    by (rule exI [of _ "?h @ [1]"], rule exI [of _ "[2]"], rule exI [of _ "[9]"], rule exI [of _ "[3, 4, 5]"]) simp
  show "take 8 (?h @ [1, 9, 3, 4, 5]) = take 8 (?h @ [1, 2, 3, 4, 5]) \<or> drop 8 (?h @ [1, 9, 3, 4, 5]) = drop 8 (?h @ [1, 2, 3, 4, 5])"
    by (rule disjI1) (simp add: HDR_SIZE_def)
qed simp

text \<open>
  The limit is real: the last byte of the stored checksum and three bytes of the time behind it can change together so
  that the header is still valid.
\<close>

lemma damage_across_checksum:
  defines "h \<equiv> header_bytes 0xc2fa2f22 linux_opts 7 [1, 2, 3, 4, 5]"
  defines "h' \<equiv> take 7 h @ [0xea, 0x87, 0x33, 0xb8] @ drop 11 h"
  shows "header_valid h" "header_valid h'" "burst h h'" "h' \<noteq> h"
proof -
  show "header_valid h" unfolding h_def header_valid_def blank_hcrc_def by code_simp
  show "header_valid h'" unfolding h'_def h_def header_valid_def blank_hcrc_def by code_simp
  have "h = take 7 h @ [0x22, 0, 0, 0] @ drop 11 h" unfolding h_def by code_simp
  then show "burst h h'"
    unfolding burst_def h'_def by (intro exI [of _ "take 7 h"] exI [of _ "[0x22, 0, 0, 0]"] exI [of _ "[0xea, 0x87, 0x33, 0xb8]"]
      exI [of _ "drop 11 h"]) simp
  show "h' \<noteq> h" unfolding h'_def h_def by code_simp
qed

theorem damage_detected_witness:
  "\<exists>img'. take 64 img' = take 64 (image_bytes linux_opts 7 [1, 2, 3, 4, 5]) \<and> drop 64 img' = [1, 9, 3, 4, 5] \<and>
     (case image_info 1000 0x1000 (write_bytes (\<lambda>_. 0) 0x1000 img') [] of
        None \<Rightarrow> IH_TYPE_KERNEL = IH_TYPE_MULTI | Some (r, _) \<Rightarrow> r = 1)"
proof -
  let ?img = "header_bytes (crc_of (header_bytes 0 linux_opts 7 [1, 2, 3, 4, 5])) linux_opts 7 [1, 2, 3, 4, 5] @ [1, 9, 3, 4, 5]"
  have ty: "mk_type linux_opts = IH_TYPE_KERNEL" by (simp add: linux_opts_def)
  have len: "length ?img = 69" by (simp add: HDR_SIZE_def)
  then have "read_bytes (write_bytes (\<lambda>_. 0) 0x1000 ?img) (unat (0x1000 :: u32)) (length ?img) = ?img"
    using read_write_bytes [of "\<lambda>_. 0" "0x1000" ?img] by simp
  moreover have "clear_of 1000 (unat (0x1000 :: u32)) (length ?img - HDR_SIZE)"
    using linux_image_clear by (simp only: len) simp
  ultimately have "case image_info 1000 0x1000 (write_bytes (\<lambda>_. 0) 0x1000 ?img) [] of
      None \<Rightarrow> IH_TYPE_KERNEL = IH_TYPE_MULTI | Some (r, _) \<Rightarrow> r = 1"
    using damage_detected [OF linux_image linux_image_damaged] unfolding ty by blast
  then show ?thesis by (intro exI [of _ ?img]) (simp add: image_bytes_def HDR_SIZE_def)
qed

end
