(* ===== verification/LinuxMips.thy ===== *)
theory LinuxMips imports Image begin

text \<open>
  Starting Linux, \<open>lib_mips/mips_linux.c\<close>: the initial ramdisk, the arguments and the environment of the kernel.

  The command line is a list of bytes; a pointer into it is the rest of the string from there on, so \<open>quote < next\<close>
  compares lengths. The arguments and the environment are built in memory at an address that the board gives. The state
  is the environment block with the console (theory \<open>Env\<close>) and memory. The result is what the code does in the end: it returns,
  resets the board, or calls the loaded program. Modelled is the port with \<open>CONFIG_AR7240\<close> and
  \<open>CONFIG_MEMSIZE_IN_BYTES\<close>. An address is the one the program uses: that a cached and an uncached address can name the
  same byte is not modelled.
\<close>

unbundle bit_operations_syntax

record 'c boot =
  bt_env :: "'c env_state"
  bt_mem :: mem

record bd_t =
  bi_boot_params :: u32
  bi_flashstart :: u32
  bi_flashsize :: u32
  ram_size :: u32

text \<open>\<open>Start_kernel\<close> has the entry point, \<open>linux_argc\<close>, \<open>linux_argv\<close>, \<open>linux_env\<close> and the size of the flash.\<close>

datatype outcome =
    Returned int
  | Reset
  | Start_app u32 "byte list list"
  | Start_kernel u32 nat nat nat u32
  | Start_netbsd u32 u32 "byte list" "byte list"
  | Start_rtems u32

definition boot_puts :: "string \<Rightarrow> 'c boot \<Rightarrow> 'c boot" where
  "boot_puts s bt = bt\<lparr>bt_env := (bt_env bt)\<lparr>en_out := puts s (en_out (bt_env bt))\<rparr>\<rparr>"

definition boot_printf :: "string \<Rightarrow> varg list \<Rightarrow> 'c boot \<Rightarrow> 'c boot" where
  "boot_printf s args bt = bt\<lparr>bt_env := (bt_env bt)\<lparr>en_out := printf s args (en_out (bt_env bt))\<rparr>\<rparr>"

definition boot_print_hdr :: "nat \<Rightarrow> 'c boot \<Rightarrow> 'c boot option" where
  "boot_print_hdr hdr bt =
     map_option (\<lambda>out. bt\<lparr>bt_env := (bt_env bt)\<lparr>en_out := out\<rparr>\<rparr>) (print_image_hdr (bt_mem bt) hdr (en_out (bt_env bt)))"

text \<open>The string that \<open>getenv\<close> finds, the inner \<open>None\<close> is NULL.\<close>

definition getenv_val :: "'c board \<Rightarrow> 'c env_state \<Rightarrow> byte list \<Rightarrow> byte list option option" where
  "getenv_val bo st name =
     (case getenv (ENV_SIZE bo) (en_env st) name of
        None \<Rightarrow> None
      | Some None \<Rightarrow> Some None
      | Some (Some i) \<Rightarrow> map_option (\<lambda>k. Some (read_bytes (en_env st) i (k - i))) (scan_nul (en_env st) i))"

section \<open>Arguments and environment\<close>

definition LINUX_MAX_ENVS :: nat where "LINUX_MAX_ENVS = 256"
definition LINUX_MAX_ARGS :: nat where "LINUX_MAX_ARGS = 256"

definition wr32 :: "mem \<Rightarrow> nat \<Rightarrow> u32 \<Rightarrow> mem" where
  "wr32 m p w = write_bytes m p (be32 w)"

record linux_params =
  lx_mem :: mem
  lx_argc :: nat
  lx_argv :: nat
  lx_env :: nat
  lx_env_p :: nat
  lx_env_idx :: nat

definition BLANK :: byte where "BLANK = chr CHR '' ''"
definition QUOTE :: byte where "QUOTE = 34"

text \<open>\<open>strchr\<close> and \<open>strstr\<close>.\<close>

definition str_chr :: "byte \<Rightarrow> byte list \<Rightarrow> byte list option" where
  "str_chr c s = (case dropWhile (\<lambda>x. x \<noteq> c) s of [] \<Rightarrow> None | t \<Rightarrow> Some t)"

fun str_str :: "byte list \<Rightarrow> byte list \<Rightarrow> byte list option" where
  "str_str pat [] = (if pat = [] then Some [] else None)"
| "str_str pat (c # s) = (if take (length pat) (c # s) = pat then Some (c # s) else str_str pat s)"

lemma str_chr_Some: "str_chr c s = Some t \<Longrightarrow> t = c # tl t \<and> length t \<le> length s"
proof -
  assume "str_chr c s = Some t"
  then have t: "t = dropWhile (\<lambda>x. x \<noteq> c) s" "t \<noteq> []" by (auto simp: str_chr_def split: list.splits)
  then have "hd t = c" using hd_dropWhile [of "\<lambda>x. x \<noteq> c" s] by auto
  moreover have "length t \<le> length s" unfolding t(1) by (rule length_dropWhile_le)
  ultimately show ?thesis using t(2) by (cases t) auto
qed

lemma str_chr_less: "str_chr c s = Some t \<Longrightarrow> 0 < length t \<and> length t \<le> length s"
  using str_chr_Some [of c s t] by (cases t) auto

text \<open>The loop over the quotes that are left of the next blank: the blank behind them.\<close>

function skip_quotes :: "byte list option \<Rightarrow> byte list option \<Rightarrow> byte list option" where
  "skip_quotes quote blank' =
     (case (quote, blank') of
        (Some q, Some n) \<Rightarrow>
          if length q > length n
          then (case str_chr QUOTE (tl q) of
                  None \<Rightarrow> None
                | Some r \<Rightarrow> skip_quotes (str_chr QUOTE (tl r)) (str_chr BLANK (tl r)))
          else Some n
      | _ \<Rightarrow> blank')"
  by pat_completeness auto
termination
  by (relation "measure (\<lambda>(q, n). case q of None \<Rightarrow> 0 | Some t \<Rightarrow> Suc (length t))")
    (fastforce split: option.split dest!: str_chr_less)+

declare skip_quotes.simps [simp del]

definition next_arg :: "byte list \<Rightarrow> byte list" where
  "next_arg line = (case skip_quotes (str_chr QUOTE line) (str_chr BLANK line) of None \<Rightarrow> [] | Some n \<Rightarrow> n)"

text \<open>The loop of \<open>linux_params_init\<close>: memory, \<open>linux_argc\<close> and \<open>argp\<close>.\<close>

function args_loop :: "nat \<Rightarrow> byte list \<Rightarrow> nat \<Rightarrow> nat \<Rightarrow> mem \<Rightarrow> mem \<times> nat \<times> nat" where
  "args_loop argv line argc argp m =
     (if line \<noteq> [] \<and> argc < LINUX_MAX_ARGS then
        let rest = next_arg line;
            n = length line - length rest;
            m = wr32 m (argv + 4 * argc) (of_nat argp);
            m = write_bytes m argp (take n line);
            m = m(argp + n := 0)
        in args_loop argv (tl rest) (argc + 1) (argp + n + 1) m
      else (m, argc, argp))"
  by pat_completeness auto
termination by (relation "measure (\<lambda>(argv, line, argc, argp, m). LINUX_MAX_ARGS - argc)") auto

declare args_loop.simps [simp del]

definition linux_params_init :: "bd_t \<Rightarrow> nat \<Rightarrow> byte list option \<Rightarrow> mem \<Rightarrow> linux_params option" where
  "linux_params_init bd start line m =
     (case line of
        None \<Rightarrow> None
      | Some line \<Rightarrow>
          let m = wr32 m start 0;
              argp = start + 4 * LINUX_MAX_ARGS;
              add = (str_str (bytes ''mem='') line = None);
              (m, argc, argp) = args_loop start line 1 argp m
          in case (if add
                   then map_option (\<lambda>memstr. (wr32 (write_bytes m argp (memstr @ [0])) (start + 4 * argc) (of_nat argp),
                               argc + 1, argp + length memstr + 1))
                          (sprintf ''mem=%luM'' [ArgInt (drop_bit 20 (ram_size bd))])
                   else Some (m, argc, argp)) of
               None \<Rightarrow> None
             | Some (m, argc, argp) \<Rightarrow>
                 let env = (argp + 15) div 16 * 16
                 in Some \<lparr>lx_mem = wr32 m env 0, lx_argc = argc, lx_argv = start, lx_env = env,
                      lx_env_p = env + 4 * LINUX_MAX_ENVS, lx_env_idx = 0\<rparr>)"

definition linux_env_set :: "byte list \<Rightarrow> byte list \<Rightarrow> linux_params \<Rightarrow> linux_params" where
  "linux_env_set env_name env_val lx =
     (if lx_env_idx lx < LINUX_MAX_ENVS - 1 then
        let m = wr32 (lx_mem lx) (lx_env lx + 4 * lx_env_idx lx) (of_nat (lx_env_p lx));
            p = lx_env_p lx;
            m = write_bytes m p (env_name @ [0]);
            p = p + length env_name;
            m = write_bytes m p (bytes ''='' @ [0]);
            p = p + 1;
            m = write_bytes m p (env_val @ [0]);
            p = p + length env_val;
            idx = lx_env_idx lx + 1
        in lx\<lparr>lx_mem := wr32 m (lx_env lx + 4 * idx) 0, lx_env_p := p + 1, lx_env_idx := idx\<rparr>
      else lx)"

section \<open>Starting the kernel\<close>

definition KSEG1ADDR :: "u32 \<Rightarrow> u32" where
  "KSEG1ADDR a = (a AND 0x1fffffff) OR 0xa0000000"

definition UNCACHED_SDRAM :: "u32 \<Rightarrow> u32" where
  "UNCACHED_SDRAM a = KSEG1ADDR a"

text \<open>\<open>for (i = 1; len_ptr[i]; ++i) data += 4\<close>; \<open>p\<close> is the address of \<open>len_ptr[i]\<close>.\<close>

partial_function (option) skip_lengths :: "mem \<Rightarrow> nat \<Rightarrow> u32 \<Rightarrow> u32 option" where
  "skip_lengths m p dat = (if NetReadIP m p \<noteq> 0 then skip_lengths m (p + 4) (dat + 4) else Some dat)"

text \<open>The ramdisk given as an argument: \<open>Inl\<close> is the reset of the board, \<open>Inr\<close> has \<open>data\<close> and \<open>len\<close>.\<close>

definition load_ramdisk :: "nat \<Rightarrow> u32 \<Rightarrow> bool \<Rightarrow> 'c boot \<Rightarrow> ('c boot + u32 \<times> u32 \<times> 'c boot) option" where
  "load_ramdisk hp addr verify bt =
     (let bt = boot_printf (''## Loading Ramdisk Image at %08lx ...'' @ nl) [ArgInt addr] bt;
          bt = bt\<lparr>bt_mem := fst (memcpy (bt_mem bt) hp (unat addr) HDR_SIZE)\<rparr>
      in if ih_magic (bt_mem bt) hp \<noteq> IH_MAGIC then Some (Inl (boot_puts (''Bad Magic Number'' @ nl) bt))
         else
           let checksum = ih_hcrc (bt_mem bt) hp;
               bt = bt\<lparr>bt_mem := write_bytes (bt_mem bt) (hp + 4) (be32 0)\<rparr>
           in if crc32 (bt_mem bt) 0 hp HDR_SIZE \<noteq> checksum then Some (Inl (boot_puts (''Bad Header Checksum'' @ nl) bt))
              else case boot_print_hdr hp bt of
                None \<Rightarrow> None
              | Some bt \<Rightarrow>
                  let dat = addr + of_nat HDR_SIZE;
                      len = ih_size (bt_mem bt) hp;
                      bt' = boot_puts ''   Verifying Checksum ... '' bt
                  in if verify \<and> crc32 (bt_mem bt) 0 (unat dat) (unat len) \<noteq> ih_dcrc (bt_mem bt) hp
                     then Some (Inl (boot_puts (''Bad Data CRC'' @ nl) bt'))
                     else
                       let bt = (if verify then boot_puts (''OK'' @ nl) bt' else bt)
                       in if ih_os (bt_mem bt) hp \<noteq> IH_OS_LINUX \<or> ih_arch (bt_mem bt) hp \<noteq> IH_CPU_MIPS \<or>
                             ih_type (bt_mem bt) hp \<noteq> IH_TYPE_RAMDISK
                          then Some (Inl (boot_puts (''No Linux MIPS Ramdisk Image'' @ nl) bt))
                          else Some (Inr (dat, len, bt)))"

text \<open>The second file of an image of several, behind the table and the first file with its padding.\<close>

definition second_file :: "u32 \<Rightarrow> mem \<Rightarrow> (u32 \<times> u32) option" where
  "second_file len_ptr m =
     (let p = unat len_ptr;
          tail = NetReadIP m p mod 4
      in case skip_lengths m (p + 4) (len_ptr + 8) of
           None \<Rightarrow> None
         | Some dat \<Rightarrow>
             let dat = dat + NetReadIP m p;
                 dat = (if tail \<noteq> 0 then dat + (4 - tail) else dat)
             in Some (dat, NetReadIP m (p + 4)))"

definition find_ramdisk ::
    "nat \<Rightarrow> byte list list \<Rightarrow> u32 \<Rightarrow> bool \<Rightarrow> 'c boot \<Rightarrow> ('c boot + u32 \<times> u32 \<times> 'c boot) option" where
  "find_ramdisk hp argv len_ptr verify bt =
     (if length argv \<ge> 3 then load_ramdisk hp (fst (simple_strtoul (argv ! 2) 16)) verify bt
      else if ih_type (bt_mem bt) hp = IH_TYPE_MULTI \<and> NetReadIP (bt_mem bt) (unat len_ptr + 4) \<noteq> 0
      then map_option (\<lambda>(dat, len). Inr (dat, len, bt)) (second_file len_ptr (bt_mem bt))
      else Some (Inr (0, 0, bt)))"

text \<open>The environment of the kernel and the call.\<close>

definition start_kernel ::
    "bd_t \<Rightarrow> u32 \<Rightarrow> byte list option \<Rightarrow> u32 \<Rightarrow> u32 \<Rightarrow> 'c boot \<Rightarrow> (outcome \<times> 'c boot) option" where
  "start_kernel bd theKernel commandline dat len bt =
     (let initrd_start = (if dat \<noteq> 0 then dat else 0);
          initrd_end = (if dat \<noteq> 0 then initrd_start + len else 0)
      in case linux_params_init bd (unat (UNCACHED_SDRAM (bi_boot_params bd))) commandline (bt_mem bt) of
           None \<Rightarrow> None
         | Some lx \<Rightarrow>
             (case (sprintf ''%lu'' [ArgInt (ram_size bd)],
                    sprintf ''0x%08X'' [ArgInt (UNCACHED_SDRAM initrd_start)],
                    sprintf ''0x%X'' [ArgInt (initrd_end - initrd_start)],
                    sprintf ''0x%08X'' [ArgInt (bi_flashstart bd)],
                    sprintf ''0x%X'' [ArgInt (bi_flashsize bd)]) of
                (Some s1, Some s2, Some s3, Some s4, Some s5) \<Rightarrow>
                  let lx = linux_env_set (bytes ''memsize'') s1 lx;
                      lx = linux_env_set (bytes ''initrd_start'') s2 lx;
                      lx = linux_env_set (bytes ''initrd_size'') s3 lx;
                      lx = linux_env_set (bytes ''flash_start'') s4 lx;
                      lx = linux_env_set (bytes ''flash_size'') s5 lx;
                      bt = boot_printf (nl @ ''Starting kernel ...'' @ nl @ nl) [] (bt\<lparr>bt_mem := lx_mem lx\<rparr>)
                  in Some (Start_kernel theKernel (lx_argc lx) (lx_argv lx) (lx_env lx)
                       (bi_flashsize bd div (1024 * 1024)), bt)
              | _ \<Rightarrow> None))"

definition do_bootm_linux ::
    "bd_t \<Rightarrow> 'c board \<Rightarrow> nat \<Rightarrow> byte list list \<Rightarrow> u32 \<Rightarrow> bool \<Rightarrow> 'c boot \<Rightarrow> (outcome \<times> 'c boot) option" where
  "do_bootm_linux bd bo hp argv len_ptr verify bt =
     (case getenv_val bo (bt_env bt) (bytes ''bootargs'') of None \<Rightarrow> None | Some commandline \<Rightarrow>
      let theKernel = ih_ep (bt_mem bt) hp in
      case find_ramdisk hp argv len_ptr verify bt of
        None \<Rightarrow> None
      | Some (Inl bt) \<Rightarrow> Some (Reset, bt)
      | Some (Inr (dat, len, bt)) \<Rightarrow> start_kernel bd theKernel commandline dat len bt)"

section \<open>The words of a command line\<close>

text \<open>
  Reference: a word ends at a blank that is not between two quotes, or at the end; a quote that is not closed reaches
  to the end.
\<close>

primrec word_length :: "bool \<Rightarrow> byte list \<Rightarrow> nat" where
  "word_length q [] = 0"
| "word_length q (c # s) =
     (if c = QUOTE then Suc (word_length (\<not> q) s)
      else if c = BLANK \<and> \<not> q then 0
      else Suc (word_length q s))"

function line_words :: "byte list \<Rightarrow> byte list list" where
  "line_words s =
     (if s = [] then []
      else take (word_length False s) s # line_words (drop (Suc (word_length False s)) s))"
  by pat_completeness auto
termination by (relation "measure length") auto

declare line_words.simps [simp del]

lemma quote_blank [simp]: "QUOTE \<noteq> BLANK" "BLANK \<noteq> QUOTE"
  by (simp_all add: QUOTE_def BLANK_def)

lemma str_chr_simps [simp]:
  "str_chr c [] = None" "str_chr c (x # s) = (if x = c then Some (x # s) else str_chr c s)"
  by (simp_all add: str_chr_def)

lemma word_length_le: "word_length q s \<le> length s"
  by (induction s arbitrary: q) auto

lemma word_length_quoted:
  "word_length True s = (case str_chr QUOTE s of None \<Rightarrow> length s | Some t \<Rightarrow> length s - length t + Suc (word_length False (tl t)))"
proof (induction s)
  case (Cons c s)
  show ?case
  proof (cases "c = QUOTE")
    case False
    then show ?thesis using Cons.IH str_chr_less [of QUOTE s] by (auto split: option.split)
  qed simp
qed simp

lemma drop_word_quoted:
  "drop (word_length True s) s = (case str_chr QUOTE s of None \<Rightarrow> [] | Some t \<Rightarrow> drop (word_length False (tl t)) (tl t))"
proof (induction s)
  case (Cons c s)
  show ?case
  proof (cases "c = QUOTE")
    case False
    then show ?thesis using Cons.IH by (auto split: option.split)
  qed simp
qed simp

text \<open>Up to the next quote or blank there is nothing to decide.\<close>

lemma drop_word_plain:
  "drop (word_length False s) s =
     (case (str_chr QUOTE s, str_chr BLANK s) of
        (None, None) \<Rightarrow> []
      | (None, Some n) \<Rightarrow> n
      | (Some q, None) \<Rightarrow> drop (word_length True (tl q)) (tl q)
      | (Some q, Some n) \<Rightarrow> if length q > length n then drop (word_length True (tl q)) (tl q) else n)"
proof (induction s)
  case (Cons c s)
  show ?case
  proof (cases "c = QUOTE \<or> c = BLANK")
    case False
    then show ?thesis using Cons.IH by (auto split: option.split)
  next
    case True
    then show ?thesis using str_chr_less [of QUOTE s] str_chr_less [of BLANK s] by (fastforce split: option.split)
  qed
qed simp

lemma word_no_blank: "str_chr BLANK s = None \<Longrightarrow> drop (word_length q s) s = []"
  by (induction s arbitrary: q) (auto split: if_splits)

lemma next_arg_word: "next_arg s = drop (word_length False s) s"
proof (induction s rule: length_induct)
  case (1 s)
  show ?case
  proof (cases "str_chr BLANK s")
    case None
    then show ?thesis
      using word_no_blank by (simp add: next_arg_def skip_quotes.simps [of "str_chr QUOTE s"] split: option.split)
  next
    case blank': (Some n)
    show ?thesis
    proof (cases "str_chr QUOTE s")
      case None
      then show ?thesis
        using blank' drop_word_plain [of s] by (simp add: next_arg_def skip_quotes.simps [of None])
    next
      case (Some q)
      note step = skip_quotes.simps [of "Some q" "Some n"]
      show ?thesis
      proof (cases "length q > length n")
        case False
        then show ?thesis using blank' Some drop_word_plain [of s] step by (simp add: next_arg_def)
      next
        case True
        show ?thesis
        proof (cases "str_chr QUOTE (tl q)")
          case None
          then show ?thesis
            using True blank' Some drop_word_plain [of s] drop_word_quoted [of "tl q"] step by (simp add: next_arg_def)
        next
          case r: (Some r)
          have "length (tl r) < length s"
            using str_chr_less [OF r] str_chr_less [OF Some] by (cases r) auto
          then have "next_arg (tl r) = drop (word_length False (tl r)) (tl r)" using 1 by blast
          moreover have "next_arg s = next_arg (tl r)" using True blank' Some r step by (simp add: next_arg_def)
          ultimately show ?thesis
            using True blank' Some r drop_word_plain [of s] drop_word_quoted [of "tl q"] by simp
        qed
      qed
    qed
  qed
qed

lemma line_words_step:
  "s \<noteq> [] \<Longrightarrow> line_words s = take (length s - length (next_arg s)) s # line_words (tl (next_arg s))"
  using word_length_le [of False s]
  by (subst line_words.simps) (simp add: next_arg_word drop_Suc tl_drop)

lemma word_no_nul: "0 \<notin> set s \<Longrightarrow> w \<in> set (line_words s) \<Longrightarrow> 0 \<notin> set w"
proof (induction s rule: line_words.induct)
  case (1 s)
  have "s \<noteq> []" using 1(3) by (auto simp: line_words.simps [of s])
  then show ?case
    using 1 line_words.simps [of s] by (auto dest: in_set_takeD in_set_dropD)
qed

section \<open>Strings and the table of their addresses\<close>

text \<open>
  \<open>vec m tab area ws\<close>: the strings \<open>ws\<close> stand one behind the other at \<open>area\<close>, each with its NUL, and their addresses at \<open>tab\<close>.
\<close>

definition blob :: "byte list list \<Rightarrow> byte list" where
  "blob ws = concat (map (\<lambda>w. w @ [0]) ws)"

definition vec :: "mem \<Rightarrow> nat \<Rightarrow> nat \<Rightarrow> byte list list \<Rightarrow> bool" where
  "vec m tab area ws \<longleftrightarrow> read_bytes m area (length (blob ws)) = blob ws \<and>
     (\<forall>i < length ws. NetReadIP m (tab + 4 * i) = of_nat (area + length (blob (take i ws))))"

lemma blob_simps [simp]: "blob [] = []" "blob (w # ws) = w @ 0 # blob ws" "blob (ws @ vs) = blob ws @ blob vs"
  by (simp_all add: blob_def)

lemma vec_Nil [simp]: "vec m tab area []"
  by (simp add: vec_def)

lemma vec_cong:
  assumes "\<And>a. tab \<le> a \<Longrightarrow> a < tab + 4 * length ws \<Longrightarrow> m' a = m a"
    and "\<And>a. area \<le> a \<Longrightarrow> a < area + length (blob ws) \<Longrightarrow> m' a = m a"
  shows "vec m' tab area ws = vec m tab area ws"
proof -
  have "read_bytes m' area (length (blob ws)) = read_bytes m area (length (blob ws))"
    using assms(2) by (intro read_bytes_cong) simp
  moreover have "NetReadIP m' (tab + 4 * i) = NetReadIP m (tab + 4 * i)" if "i < length ws" for i
    using assms(1) that by (intro NetReadIP_cong) simp
  ultimately show ?thesis by (auto simp: vec_def)
qed

text \<open>A string is added behind the others, with its address in the next place.\<close>

lemma vec_snoc:
  assumes vec: "vec m tab area ws" and room: "tab + 4 * Suc (length ws) \<le> area"
    and adr: "NetReadIP m' (tab + 4 * length ws) = of_nat (area + length (blob ws))"
    and str: "read_bytes m' (area + length (blob ws)) (Suc (length w)) = w @ [0]"
    and same: "\<And>a. a < area + length (blob ws) \<Longrightarrow> a < tab + 4 * length ws \<or> area \<le> a \<Longrightarrow> tab \<le> a \<Longrightarrow> m' a = m a"
  shows "vec m' tab area (ws @ [w])"
proof -
  have "vec m' tab area ws = vec m tab area ws"
    using room by (intro vec_cong same) auto
  then have v: "vec m' tab area ws" using vec by simp
  have "read_bytes m' area (length (blob ws) + Suc (length w)) = blob ws @ w @ [0]"
    using v str by (simp only: read_bytes_add vec_def)
  moreover have "NetReadIP m' (tab + 4 * i) = of_nat (area + length (blob (take i (ws @ [w]))))" if "i < Suc (length ws)" for i
    using that v adr by (cases "i = length ws") (auto simp: vec_def)
  ultimately show ?thesis by (simp add: vec_def)
qed

lemma vec_cstr:
  assumes "vec m tab area ws" "i < length ws" "0 \<notin> set (ws ! i)" "area + length (blob ws) \<le> 2 ^ 32"
  shows "cstr m (unat (NetReadIP m (tab + 4 * i))) (ws ! i)"
proof -
  let ?k = "length (blob (take i ws))"
  have "ws = take i ws @ ws ! i # drop (Suc i) ws" using assms(2) by (rule id_take_nth_drop)
  then have blob: "blob ws = blob (take i ws) @ (ws ! i @ [0]) @ blob (drop (Suc i) ws)"
    by (metis append.assoc append_Cons append_Nil blob_simps(2,3))
  then have "area + ?k < 2 ^ 32" using assms(4) by simp
  then have adr: "unat (NetReadIP m (tab + 4 * i)) = area + ?k"
    using assms(1,2) by (simp add: vec_def unsigned_of_nat take_bit_nat_eq_self del: of_nat_add)
  have "read_bytes m area (length (blob ws)) = blob ws" using assms(1) by (simp add: vec_def)
  from read_bytes_part [OF this, of ?k "Suc (length (ws ! i))"]
  have read: "read_bytes m (area + ?k) (Suc (length (ws ! i))) = ws ! i @ [0]" by (simp add: blob)
  have "m (area + ?k + j) = (ws ! i @ [0]) ! j" if "j < Suc (length (ws ! i))" for j
    using arg_cong [OF read, of "\<lambda>xs. xs ! j"] that by simp
  then show ?thesis unfolding adr using assms(3) by (auto simp: cstr_iff nth_append)
qed

lemma wr32_read [simp]: "NetReadIP (wr32 m p w) p = w"
  using read_write_bytes [of m p "be32 w"] unfolding wr32_def by (intro NetReadIP_be32) simp

lemma wr32_other: "a < p \<or> p + 4 \<le> a \<Longrightarrow> wr32 m p w a = m a"
  by (simp add: wr32_def write_bytes_other)

text \<open>The words are stored until the table is full; \<open>argv[0]\<close> and what is behind the strings is not touched.\<close>

lemma args_loop_vec:
  "vec m (argv + 4) (argv + 1024) ws \<Longrightarrow> length ws \<le> 255 \<Longrightarrow>
   \<exists>m'. args_loop argv line (Suc (length ws)) (argv + 1024 + length (blob ws)) m =
       (m', Suc (length ws + length (take (255 - length ws) (line_words line))),
        argv + 1024 + length (blob (ws @ take (255 - length ws) (line_words line)))) \<and>
     vec m' (argv + 4) (argv + 1024) (ws @ take (255 - length ws) (line_words line)) \<and>
     (\<forall>a. a < argv + 4 \<or> argv + 1024 + length (blob (ws @ take (255 - length ws) (line_words line))) \<le> a \<longrightarrow> m' a = m a)"
proof (induction "length line" arbitrary: line ws m rule: less_induct)
  case less
  show ?case
  proof (cases "line \<noteq> [] \<and> length ws < 255")
    case False
    then have "take (255 - length ws) (line_words line) = []" using less.prems(2) by (auto simp: line_words.simps [of line])
    then show ?thesis using False less.prems by (subst args_loop.simps) (auto simp: LINUX_MAX_ARGS_def)
  next
    case True
    define w where "w = take (length line - length (next_arg line)) line"
    define p where "p = argv + 1024 + length (blob ws)"
    define m1 where "m1 = wr32 m (argv + 4 * Suc (length ws)) (of_nat p)"
    define m' where "m' = write_bytes m1 p (w @ [0])"
    have words: "line_words line = w # line_words (tl (next_arg line))" using True line_words_step by (simp add: w_def)
    have len: "length w = length line - length (next_arg line)" by (simp add: w_def)
    have take_w: "take (length w) line = w" by (simp add: w_def)
    have shorter: "length (tl (next_arg line)) < length line"
      using True by (cases line) (auto simp: next_arg_word)
    have vec': "vec m' (argv + 4) (argv + 1024) (ws @ [w])"
    proof (rule vec_snoc [OF less.prems(1)])
      show "NetReadIP m' (argv + 4 + 4 * length ws) = of_nat (argv + 1024 + length (blob ws))"
      proof -
        have "NetReadIP m' (argv + 4 * Suc (length ws)) = NetReadIP m1 (argv + 4 * Suc (length ws))"
          using True by (intro NetReadIP_cong) (simp add: m'_def write_bytes_other p_def)
        then have "NetReadIP m' (argv + 4 * Suc (length ws)) = of_nat p" by (simp only: m1_def wr32_read)
        then show ?thesis by (simp add: p_def add.assoc del: of_nat_add)
      qed
      show "read_bytes m' (argv + 1024 + length (blob ws)) (Suc (length w)) = w @ [0]"
        using read_write_bytes [of m1 p "w @ [0]"] by (simp add: m'_def p_def)
    qed (use True in \<open>auto simp: m'_def m1_def p_def write_bytes_other wr32_other\<close>)
    have step: "args_loop argv line (Suc (length ws)) p m =
        args_loop argv (tl (next_arg line)) (Suc (length (ws @ [w]))) (argv + 1024 + length (blob (ws @ [w]))) m'"
      using True by (subst args_loop.simps) (simp add: LINUX_MAX_ARGS_def Let_def len [symmetric] take_w
        m'_def m1_def write_bytes_snoc p_def)
    have take_words: "take (255 - length ws) (line_words line) =
        w # take (255 - length (ws @ [w])) (line_words (tl (next_arg line)))"
      using True by (simp add: words take_Cons')
    have frame: "m' a = m a" if "a < argv + 4 \<or> p + Suc (length w) \<le> a" for a
      using that True by (auto simp: m'_def m1_def p_def write_bytes_other wr32_other)
    from less.hyps [OF shorter vec'] True show ?thesis
      unfolding step [unfolded p_def] take_words using frame by (fastforce simp: p_def)
  qed
qed

section \<open>The formats\<close>

definition decimal :: "u32 \<Rightarrow> byte list" where
  "decimal w = digit_chars w 10 0"

lemma parse_l:
  assumes "int_conversion c = Some bf"
  shows "parse_spec (chr CHR ''l'' # c # fmt) args = Some \<lparr>fs_fmt = c # fmt, fs_args = args, fs_flags = 0, fs_width = -1,
    fs_precision = -1, fs_qualifier = chr CHR ''l''\<rparr>"
  by (simp add: parse_spec_def get_width_def is_digit_def get_precision_def get_qualifier_def)

lemma conv_u: "int_conversion (chr CHR ''u'') = Some (10, 0)"
  by (simp add: int_conversion_def)

lemma parse_08X: "parse_spec (chr CHR ''0'' # chr CHR ''8'' # chr CHR ''X'' # fmt) args =
  Some \<lparr>fs_fmt = chr CHR ''X'' # fmt, fs_args = args, fs_flags = ZEROPAD, fs_width = 8,
        fs_precision = -1, fs_qualifier = 0\<rparr>"
  by (simp add: parse_spec_def get_width_def is_digit_def get_precision_def get_qualifier_def)

lemma vsprintf_loop_lu:
  "vsprintf_loop (chr CHR ''%'' # chr CHR ''l'' # chr CHR ''u'' # fmt) (ArgInt w # args) out ns =
   vsprintf_loop fmt args (out @ decimal w) ns"
  unfolding vsprintf_loop.simps parse_l [OF conv_u]
  by (simp add: convert_int conv_u [simplified] int_arg_def Let_def number_plain plain_flags decimal_def sign_chars_def
    prefix_chars_def)

lemma vsprintf_loop_08X:
  "vsprintf_loop (chr CHR ''%'' # chr CHR ''0'' # chr CHR ''8'' # chr CHR ''X'' # fmt) (ArgInt w # args) out ns =
   vsprintf_loop fmt args (out @ fixed_hex 8 w) ns"
  using number_fixed_hex [of w 8] unsigned_less [of w, where ?'a = nat]
  unfolding vsprintf_loop.simps parse_08X
  by (simp add: convert_int conv_X [simplified] int_arg_def Let_def)

lemma sprintf_lu: "sprintf ''%lu'' [ArgInt w] = Some (decimal w)"
  using vsprintf_loop_lu [of "[]" w "[]" "[]" "[]"] by (simp add: sprintf_def vsprintf_def)

lemma sprintf_mem: "sprintf ''mem=%luM'' [ArgInt w] = Some (bytes ''mem='' @ decimal w @ bytes ''M'')"
  using vsprintf_loop_lu [of "bytes ''M''" w "[]" "bytes ''mem=''" "[]"] by (simp add: sprintf_def vsprintf_def)

lemma sprintf_08X: "sprintf ''0x%08X'' [ArgInt w] = Some (bytes ''0x'' @ fixed_hex 8 w)"
  using vsprintf_loop_08X [of "[]" w "[]" "bytes ''0x''" "[]"]
  by (simp add: sprintf_def vsprintf_def del: fixed_hex.simps)

lemma sprintf_X: "sprintf ''0x%X'' [ArgInt w] = Some (bytes ''0x'' @ digit_chars w 16 LARGE)"
  using vsprintf_loop_int [of "chr CHR ''X''" 16 LARGE "[]" w "[]" "bytes ''0x''" "[]"]
  by (simp add: sprintf_def vsprintf_def int_conversion_def plain_flags sign_chars_def flag_simps)

text \<open>The arguments of the kernel.\<close>

definition kernel_args :: "bd_t \<Rightarrow> byte list \<Rightarrow> byte list list" where
  "kernel_args bd line =
     line_words line @ (if str_str (bytes ''mem='') line = None
       then [bytes ''mem='' @ decimal (drop_bit 20 (ram_size bd)) @ bytes ''M''] else [])"

lemma linux_params_vec:
  assumes few: "length (kernel_args bd line) \<le> 255"
  shows "\<exists>lx. linux_params_init bd start (Some line) m = Some lx \<and> lx_argc lx = Suc (length (kernel_args bd line)) \<and>
    lx_argv lx = start \<and> NetReadIP (lx_mem lx) start = 0 \<and>
    vec (lx_mem lx) (start + 4) (start + 1024) (kernel_args bd line) \<and>
    lx_env lx = (start + 1024 + length (blob (kernel_args bd line)) + 15) div 16 * 16 \<and>
    lx_env_p lx = lx_env lx + 1024 \<and> lx_env_idx lx = 0 \<and> NetReadIP (lx_mem lx) (lx_env lx) = 0 \<and>
    (\<forall>a. a < start \<or> lx_env lx + 4 \<le> a \<longrightarrow> lx_mem lx a = m a)"
proof -
  let ?add = "str_str (bytes ''mem='') line = None"
  let ?mem = "bytes ''mem='' @ decimal (drop_bit 20 (ram_size bd)) @ bytes ''M''"
  let ?ws = "line_words line" and ?all = "kernel_args bd line"
  let ?env = "(start + 1024 + length (blob ?all) + 15) div 16 * 16"
  note ms = sprintf_mem [of "drop_bit 20 (ram_size bd)"]
  have ws: "take (255 - length ([] :: byte list list)) ?ws = ?ws" using few by (simp add: kernel_args_def)
  obtain m1 where m1: "args_loop start line 1 (start + 1024) (wr32 m start 0) =
      (m1, Suc (length ?ws), start + 1024 + length (blob ?ws))"
    "vec m1 (start + 4) (start + 1024) ?ws"
    "\<forall>a. a < start + 4 \<or> start + 1024 + length (blob ?ws) \<le> a \<longrightarrow> m1 a = wr32 m start 0 a"
    using args_loop_vec [of "wr32 m start 0" start "[]" line] unfolding ws by auto
  define m2 where "m2 = (if ?add then wr32 (write_bytes m1 (start + 1024 + length (blob ?ws)) (?mem @ [0]))
      (start + 4 * Suc (length ?ws)) (of_nat (start + 1024 + length (blob ?ws))) else m1)"
  define lx where "lx = \<lparr>lx_mem = wr32 m2 ?env 0, lx_argc = Suc (length ?all), lx_argv = start, lx_env = ?env,
    lx_env_p = ?env + 1024, lx_env_idx = 0\<rparr>"
  have len: "length (?mem @ [0]) = length ?mem + 1" by simp
  have init: "linux_params_init bd start (Some line) m = Some lx"
  proof (cases ?add)
    case True
    have all: "Suc (length ?all) = Suc (length ?ws) + 1"
      "start + 1024 + length (blob ?all) = start + 1024 + length (blob ?ws) + length ?mem + 1"
      using True by (simp_all add: kernel_args_def del: bytes_Cons)
    show ?thesis
      using m1(1) ms True unfolding linux_params_init_def Let_def lx_def m2_def all
      by (simp add: LINUX_MAX_ARGS_def LINUX_MAX_ENVS_def del: bytes_Cons)
  next
    case False
    then obtain y where y: "str_str (bytes ''mem='') line = Some y" by auto
    then have "?all = ?ws" by (simp add: kernel_args_def)
    then show ?thesis
      using m1(1) y unfolding linux_params_init_def Let_def lx_def m2_def
      by (simp add: LINUX_MAX_ARGS_def LINUX_MAX_ENVS_def del: bytes_Cons)
  qed
  have env: "start + 1024 + length (blob ?all) \<le> ?env" by linarith
  have v2: "vec m2 (start + 4) (start + 1024) ?all"
  proof (cases ?add)
    case True
    then have all: "?all = ?ws @ [?mem]" by (simp add: kernel_args_def)
    have m2: "m2 = wr32 (write_bytes m1 (start + 1024 + length (blob ?ws)) (?mem @ [0]))
      (start + 4 * Suc (length ?ws)) (of_nat (start + 1024 + length (blob ?ws)))" using True by (simp add: m2_def)
    have n: "Suc (length ?ws) \<le> 255" using few all by simp
    show ?thesis unfolding all
    proof (rule vec_snoc [OF m1(2)])
      show "NetReadIP m2 (start + 4 + 4 * length ?ws) = of_nat (start + 1024 + length (blob ?ws))"
        using wr32_read [of _ "start + 4 * Suc (length ?ws)"] unfolding m2 by (simp add: add.assoc del: of_nat_add)
      have "read_bytes m2 (start + 1024 + length (blob ?ws)) (Suc (length ?mem)) =
          read_bytes (write_bytes m1 (start + 1024 + length (blob ?ws)) (?mem @ [0])) (start + 1024 + length (blob ?ws)) (Suc (length ?mem))"
        unfolding m2 using n by (intro read_bytes_cong wr32_other) auto
      then show "read_bytes m2 (start + 1024 + length (blob ?ws)) (Suc (length ?mem)) = ?mem @ [0]"
        using read_write_bytes [of m1 "start + 1024 + length (blob ?ws)" "?mem @ [0]"] by simp
    qed (use n in \<open>auto simp: m2 write_bytes_other wr32_other\<close>)
  next
    case False
    then obtain y where "str_str (bytes ''mem='') line = Some y" by auto
    then show ?thesis using m1(2) by (simp add: m2_def kernel_args_def del: bytes_Cons)
  qed
  have "vec (wr32 m2 ?env 0) (start + 4) (start + 1024) ?all = vec m2 (start + 4) (start + 1024) ?all"
    using env few by (intro vec_cong wr32_other) auto
  moreover have "NetReadIP (wr32 m2 ?env 0) start = NetReadIP (wr32 m start 0) start"
    using env m1(3) few by (intro NetReadIP_cong) (auto simp: wr32_other m2_def write_bytes_other)
  moreover have "wr32 m2 ?env 0 a = m a" if "a < start \<or> ?env + 4 \<le> a" for a
  proof -
    have "a < start \<or> start + 1024 + length (blob ?all) \<le> a" "?env + 4 \<le> a \<or> a < ?env" using that env by auto
    moreover from this have "m1 a = m a" using m1(3) wr32_other [of a start m 0] by (auto simp: kernel_args_def)
    ultimately show ?thesis
      using that few by (auto simp: wr32_other m2_def write_bytes_other kernel_args_def)
  qed
  ultimately show ?thesis using v2 init by (intro exI [of _ lx]) (simp add: lx_def)
qed

section \<open>The environment of the kernel\<close>

definition env_ok :: "linux_params \<Rightarrow> byte list list \<Rightarrow> bool" where
  "env_ok lx es \<longleftrightarrow> vec (lx_mem lx) (lx_env lx) (lx_env lx + 1024) es \<and> lx_env_idx lx = length es \<and>
     lx_env_p lx = lx_env lx + 1024 + length (blob es) \<and> NetReadIP (lx_mem lx) (lx_env lx + 4 * length es) = 0"

lemma linux_env_set_ok:
  assumes ok: "env_ok lx es" and few: "length es < 255"
  shows "env_ok (linux_env_set nam val lx) (es @ [nam @ bytes ''='' @ val])"
    and "\<And>a. a < lx_env lx \<or> lx_env_p (linux_env_set nam val lx) \<le> a \<Longrightarrow> lx_mem (linux_env_set nam val lx) a = lx_mem lx a"
    and "lx_env (linux_env_set nam val lx) = lx_env lx" "lx_argc (linux_env_set nam val lx) = lx_argc lx"
      "lx_argv (linux_env_set nam val lx) = lx_argv lx"
proof -
  let ?w = "nam @ bytes ''='' @ val" and ?lx = "linux_env_set nam val lx" and ?p = "lx_env_p lx" and ?e = "lx_env lx"
  define m1 where "m1 = wr32 (lx_mem lx) (?e + 4 * length es) (of_nat ?p)"
  define m2 where "m2 = write_bytes m1 ?p (?w @ [0])"
  define m3 where "m3 = wr32 m2 (?e + 4 * Suc (length es)) 0"
  have idx: "lx_env_idx lx = length es" and p: "?p = ?e + 1024 + length (blob es)" using ok by (simp_all add: env_ok_def)
  have over: "write_bytes (write_bytes (write_bytes m1 ?p (nam @ [0])) (?p + length nam) (bytes ''='' @ [0]))
      (?p + length nam + 1) (val @ [0]) = m2"
    unfolding m2_def by (intro ext) (auto simp: write_bytes_apply nth_append nth_Cons')
  have lx: "?lx = lx\<lparr>lx_mem := m3, lx_env_p := ?p + length ?w + 1, lx_env_idx := Suc (length es)\<rparr>"
    using few over by (simp add: linux_env_set_def idx LINUX_MAX_ENVS_def Let_def m1_def m3_def)
  then show "lx_env ?lx = lx_env lx" "lx_argc ?lx = lx_argc lx" "lx_argv ?lx = lx_argv lx" by simp_all
  show frame: "lx_mem ?lx a = lx_mem lx a" if "a < lx_env lx \<or> lx_env_p ?lx \<le> a" for a
    using that few by (auto simp: lx m3_def m2_def m1_def wr32_other write_bytes_other p)
  have "vec m3 ?e (?e + 1024) (es @ [?w])"
  proof (rule vec_snoc)
    show "vec (lx_mem lx) ?e (?e + 1024) es" using ok by (simp add: env_ok_def)
    have "NetReadIP m3 (?e + 4 * length es) = NetReadIP m1 (?e + 4 * length es)"
      using few by (intro NetReadIP_cong) (simp add: m3_def m2_def wr32_other write_bytes_other p)
    then show "NetReadIP m3 (?e + 4 * length es) = of_nat (?e + 1024 + length (blob es))"
      by (simp only: m1_def wr32_read p)
    have "read_bytes m3 ?p (Suc (length ?w)) = read_bytes m2 ?p (Suc (length ?w))"
      using few by (intro read_bytes_cong) (simp add: m3_def wr32_other p)
    then show "read_bytes m3 (?e + 1024 + length (blob es)) (Suc (length ?w)) = ?w @ [0]"
      using read_write_bytes [of m1 ?p "?w @ [0]"] by (simp add: m2_def p)
  qed (use few in \<open>auto simp: m3_def m2_def m1_def wr32_other write_bytes_other p\<close>)
  then show "env_ok ?lx (es @ [?w])" by (simp add: env_ok_def lx p m3_def)
qed

lemma linux_env_sets_ok:
  "env_ok lx es \<Longrightarrow> length es + length kvs \<le> 255 \<Longrightarrow>
   env_ok (fold (\<lambda>(k, v). linux_env_set k v) kvs lx) (es @ map (\<lambda>(k, v). k @ bytes ''='' @ v) kvs) \<and>
   lx_env (fold (\<lambda>(k, v). linux_env_set k v) kvs lx) = lx_env lx \<and>
   lx_argc (fold (\<lambda>(k, v). linux_env_set k v) kvs lx) = lx_argc lx \<and>
   lx_argv (fold (\<lambda>(k, v). linux_env_set k v) kvs lx) = lx_argv lx \<and>
   (\<forall>a. a < lx_env lx \<or> lx_env_p (fold (\<lambda>(k, v). linux_env_set k v) kvs lx) \<le> a \<longrightarrow>
      lx_mem (fold (\<lambda>(k, v). linux_env_set k v) kvs lx) a = lx_mem lx a)"
proof (induction kvs arbitrary: lx es)
  case (Cons kv kvs)
  obtain k v where kv: "kv = (k, v)" by (cases kv)
  let ?w = "k @ bytes ''='' @ v" and ?lx = "linux_env_set k v lx"
  have few: "length es < 255" "length (es @ [?w]) + length kvs \<le> 255" using Cons.prems(2) by simp_all
  note one = linux_env_set_ok [where nam = k and val = v, OF Cons.prems(1) few(1)]
  note IH = Cons.IH [OF one(1) few(2)]
  have "lx_env_p ?lx \<le> lx_env_p (fold (\<lambda>(k, v). linux_env_set k v) kvs ?lx)"
    using IH one(1,3) unfolding env_ok_def by simp
  then show ?case using IH one kv by fastforce
qed simp

definition kernel_env :: "bd_t \<Rightarrow> u32 \<Rightarrow> u32 \<Rightarrow> byte list list" where
  "kernel_env bd dat len =
     [bytes ''memsize='' @ decimal (ram_size bd),
      bytes ''initrd_start=0x'' @ fixed_hex 8 (UNCACHED_SDRAM dat),
      bytes ''initrd_size=0x'' @ digit_chars (if dat = 0 then 0 else len) 16 LARGE,
      bytes ''flash_start=0x'' @ fixed_hex 8 (bi_flashstart bd),
      bytes ''flash_size=0x'' @ digit_chars (bi_flashsize bd) 16 LARGE]"

definition boot_area :: "bd_t \<Rightarrow> nat" where
  "boot_area bd = unat (UNCACHED_SDRAM (bi_boot_params bd))"

text \<open>Where the environment is, and the end of its strings.\<close>

definition env_at :: "bd_t \<Rightarrow> byte list \<Rightarrow> nat" where
  "env_at bd line = (boot_area bd + 1024 + length (blob (kernel_args bd line)) + 15) div 16 * 16"

definition params_end :: "bd_t \<Rightarrow> byte list \<Rightarrow> u32 \<Rightarrow> u32 \<Rightarrow> nat" where
  "params_end bd line dat len = env_at bd line + 1024 + length (blob (kernel_env bd dat len))"

lemma start_kernel_vec:
  assumes few: "length (kernel_args bd line) \<le> 255"
  shows "\<exists>bt'. start_kernel bd ep (Some line) dat len bt =
      Some (Start_kernel ep (Suc (length (kernel_args bd line))) (boot_area bd) (env_at bd line)
        (bi_flashsize bd div (1024 * 1024)), bt') \<and>
    vec (bt_mem bt') (boot_area bd + 4) (boot_area bd + 1024) (kernel_args bd line) \<and>
    vec (bt_mem bt') (env_at bd line) (env_at bd line + 1024) (kernel_env bd dat len) \<and>
    NetReadIP (bt_mem bt') (env_at bd line + 4 * length (kernel_env bd dat len)) = 0 \<and>
    (\<forall>a. a < boot_area bd \<or> params_end bd line dat len \<le> a \<longrightarrow> bt_mem bt' a = bt_mem bt a)"
proof -
  let ?all = "kernel_args bd line" and ?st = "boot_area bd" and ?e = "env_at bd line"
  obtain lx0 where init: "linux_params_init bd ?st (Some line) (bt_mem bt) = Some lx0"
    and lx0: "lx_argc lx0 = Suc (length ?all)" "lx_argv lx0 = ?st" "vec (lx_mem lx0) (?st + 4) (?st + 1024) ?all"
      "lx_env lx0 = ?e" "lx_env_p lx0 = ?e + 1024" "lx_env_idx lx0 = 0" "NetReadIP (lx_mem lx0) ?e = 0"
      "\<forall>a. a < ?st \<or> ?e + 4 \<le> a \<longrightarrow> lx_mem lx0 a = bt_mem bt a"
    using linux_params_vec [OF few, of ?st "bt_mem bt"] unfolding env_at_def by metis
  have ok0: "env_ok lx0 []" using lx0 by (simp add: env_ok_def)
  define kvs where "kvs = [(bytes ''memsize'', decimal (ram_size bd)),
      (bytes ''initrd_start'', bytes ''0x'' @ fixed_hex 8 (UNCACHED_SDRAM dat)),
      (bytes ''initrd_size'', bytes ''0x'' @ digit_chars (if dat = 0 then 0 else len) 16 LARGE),
      (bytes ''flash_start'', bytes ''0x'' @ fixed_hex 8 (bi_flashstart bd)),
      (bytes ''flash_size'', bytes ''0x'' @ digit_chars (bi_flashsize bd) 16 LARGE)]"
  define lx where "lx = fold (\<lambda>(k, v). linux_env_set k v) kvs lx0"
  have env: "[] @ map (\<lambda>(k, v). k @ bytes ''='' @ v) kvs = kernel_env bd dat len"
    by (simp add: kvs_def kernel_env_def)
  have lx: "env_ok lx (kernel_env bd dat len)" "lx_env lx = ?e" "lx_argc lx = Suc (length ?all)" "lx_argv lx = ?st"
    "\<forall>a. a < ?e \<or> lx_env_p lx \<le> a \<longrightarrow> lx_mem lx a = lx_mem lx0 a"
    using linux_env_sets_ok [OF ok0, of kvs] lx0(1,2,4) unfolding env lx_def [symmetric] by (simp_all add: kvs_def)
  define bt' where "bt' = boot_printf (nl @ ''Starting kernel ...'' @ nl @ nl) [] (bt\<lparr>bt_mem := lx_mem lx\<rparr>)"
  have mem: "bt_mem bt' = lx_mem lx" by (simp add: bt'_def boot_printf_def)
  have initrd: "(if dat \<noteq> 0 then dat else 0) = dat" "(if dat \<noteq> 0 then dat + len else 0) - dat = (if dat = 0 then 0 else len)"
    by simp_all
  have "start_kernel bd ep (Some line) dat len bt =
      Some (Start_kernel ep (lx_argc lx) (lx_argv lx) (lx_env lx) (bi_flashsize bd div (1024 * 1024)), bt')"
    unfolding start_kernel_def Let_def boot_area_def [symmetric] init initrd sprintf_lu sprintf_08X sprintf_X
    by (simp add: lx_def kvs_def bt'_def del: bytes_Cons fixed_hex.simps)
  moreover have "vec (lx_mem lx) (?st + 4) (?st + 1024) ?all = vec (lx_mem lx0) (?st + 4) (?st + 1024) ?all"
    using lx(5) few by (intro vec_cong) (auto simp: env_at_def)
  moreover have "params_end bd line dat len = lx_env_p lx" using lx(1,2) by (simp add: params_end_def env_ok_def)
  moreover have "lx_mem lx a = bt_mem bt a" if "a < ?st \<or> lx_env_p lx \<le> a" for a
  proof -
    have "?st < ?e" unfolding env_at_def by linarith
    moreover have "?e + 1024 \<le> lx_env_p lx" using lx(1,2) by (simp add: env_ok_def)
    ultimately have "a < ?e \<or> lx_env_p lx \<le> a" "a < ?st \<or> ?e + 4 \<le> a" using that by linarith+
    then show ?thesis using lx(5) lx0(8) by metis
  qed
  ultimately show ?thesis using lx lx0(3) unfolding env_ok_def by (intro exI [of _ bt']) (simp add: mem)
qed

section \<open>Strings without NUL\<close>

lemma hex_char_no_nul: "d < 16 \<Longrightarrow> lower_digits ! d \<noteq> 0" "d < 16 \<Longrightarrow> upper_digits ! d \<noteq> 0"
  using hex_digit_lower [of d] hex_digit_upper [of d] by (simp_all add: hex_digit_def)

lemma number_digits_no_nul:
  assumes "ds = lower_digits \<or> ds = upper_digits" "2 \<le> base" "base \<le> 16"
  shows "0 \<notin> set (number_digits ds num base)"
  using assms(2)
proof (induction num rule: digits_induct)
  case zero
  then show ?case by simp
next
  case (step num)
  have "unat (num mod base) < 16"
    using word_mod_lt [OF assms(2), of num] assms(3) by (simp add: word_less_nat_alt word_le_nat_alt)
  then show ?case
    using step assms(1) hex_char_no_nul [of "unat (num mod base)"] number_digits_step [of num base ds] assms(2) by auto
qed

lemma digit_chars_no_nul: "base \<in> {10, 16} \<Longrightarrow> 0 \<notin> set (digit_chars w base fl)"
  using number_digits_no_nul [of lower_digits "word_of_int base"] number_digits_no_nul [of upper_digits "word_of_int base"]
  by (auto simp: digit_chars_def Let_def)

lemma fixed_hex_no_nul: "0 \<notin> set (fixed_hex k w)"
proof (induction k arbitrary: w)
  case (Suc k)
  have "unat (w mod 16) < 16" using word_mod_lt [of 16 w] by (simp add: word_less_nat_alt)
  then show ?case using Suc hex_char_no_nul(2) by auto
qed simp

lemma kernel_args_no_nul: "0 \<notin> set line \<Longrightarrow> w \<in> set (kernel_args bd line) \<Longrightarrow> 0 \<notin> set w"
  using word_no_nul [of line w] digit_chars_no_nul by (auto simp: kernel_args_def decimal_def split: if_splits)

lemma kernel_env_no_nul: "w \<in> set (kernel_env bd dat len) \<Longrightarrow> 0 \<notin> set w"
  using digit_chars_no_nul fixed_hex_no_nul by (auto simp: kernel_env_def decimal_def simp del: fixed_hex.simps)

lemma length_kernel_env [simp]: "length (kernel_env bd dat len) = 5"
  by (simp add: kernel_env_def)

section \<open>What the kernel is given\<close>

text \<open>The strings that the addresses from \<open>p\<close> on are of.\<close>

definition strings_at :: "mem \<Rightarrow> nat \<Rightarrow> byte list list \<Rightarrow> bool" where
  "strings_at m p ws \<longleftrightarrow> list_all (\<lambda>i. cstr m (unat (NetReadIP m (p + 4 * i))) (ws ! i)) [0..<length ws]"

lemma vec_strings_at:
  "vec m tab area ws \<Longrightarrow> (\<And>w. w \<in> set ws \<Longrightarrow> 0 \<notin> set w) \<Longrightarrow> area + length (blob ws) \<le> 2 ^ 32 \<Longrightarrow> strings_at m tab ws"
  using vec_cstr [of m tab area ws] by (auto simp: strings_at_def list_all_iff)

lemma start_kernel_strings:
  assumes few: "length (kernel_args bd line) \<le> 255" and nul: "0 \<notin> set line"
    and room: "params_end bd line dat len \<le> 2 ^ 32"
  shows "\<exists>bt'. start_kernel bd ep (Some line) dat len bt =
      Some (Start_kernel ep (Suc (length (kernel_args bd line))) (boot_area bd) (env_at bd line)
        (bi_flashsize bd div (1024 * 1024)), bt') \<and>
    strings_at (bt_mem bt') (boot_area bd + 4) (kernel_args bd line) \<and>
    strings_at (bt_mem bt') (env_at bd line) (kernel_env bd dat len) \<and>
    NetReadIP (bt_mem bt') (env_at bd line + 20) = 0 \<and>
    (\<forall>a. a < boot_area bd \<or> params_end bd line dat len \<le> a \<longrightarrow> bt_mem bt' a = bt_mem bt a)"
proof -
  have "boot_area bd + 1024 + length (blob (kernel_args bd line)) \<le> env_at bd line" unfolding env_at_def by linarith
  then have "boot_area bd + 1024 + length (blob (kernel_args bd line)) \<le> 2 ^ 32"
    "env_at bd line + 1024 + length (blob (kernel_env bd dat len)) \<le> 2 ^ 32"
    using room unfolding params_end_def by linarith+
  moreover obtain bt' where bt': "start_kernel bd ep (Some line) dat len bt =
      Some (Start_kernel ep (Suc (length (kernel_args bd line))) (boot_area bd) (env_at bd line)
        (bi_flashsize bd div (1024 * 1024)), bt')"
    "vec (bt_mem bt') (boot_area bd + 4) (boot_area bd + 1024) (kernel_args bd line)"
    "vec (bt_mem bt') (env_at bd line) (env_at bd line + 1024) (kernel_env bd dat len)"
    "NetReadIP (bt_mem bt') (env_at bd line + 20) = 0"
    "\<forall>a. a < boot_area bd \<or> params_end bd line dat len \<le> a \<longrightarrow> bt_mem bt' a = bt_mem bt a"
    using start_kernel_vec [OF few, of ep dat len bt] unfolding length_kernel_env by auto
  ultimately have "strings_at (bt_mem bt') (boot_area bd + 4) (kernel_args bd line)"
    and "strings_at (bt_mem bt') (env_at bd line) (kernel_env bd dat len)"
    using kernel_args_no_nul [OF nul] kernel_env_no_nul by (blast intro: vec_strings_at)+
  with bt' show ?thesis by blast
qed

lemma getenv_val_map_of:
  assumes "env_holds bo st vs" "good_name name"
  shows "getenv_val bo st name = Some (map_of vs name)"
  using getenv_at [OF assms order_refl] read_holds
  by (auto simp: getenv_val_def getenv_def scan_nul_holds holds_append split: option.splits)

lemma env_holds_no_nul: "env_holds bo st vs \<Longrightarrow> map_of vs name = Some val \<Longrightarrow> 0 \<notin> set val"
  by (auto simp: env_holds_def good_var_def dest: map_of_SomeD)

lemma good_bootargs: "good_name (bytes ''bootargs'')"
  by (simp add: good_name_def)

text \<open>Without the variable \<open>bootargs\<close> the NULL pointer is followed by \<open>strstr\<close>.\<close>

lemma no_bootargs:
  assumes "env_holds bo (bt_env bt) vs" "map_of vs (bytes ''bootargs'') = None"
    and "find_ramdisk hp argv len_ptr verify bt = Some (Inr r)"
  shows "do_bootm_linux bd bo hp argv len_ptr verify bt = None"
  using getenv_val_map_of [OF assms(1) good_bootargs] assms(2,3)
  by (cases r) (simp add: do_bootm_linux_def start_kernel_def linux_params_init_def Let_def)

section \<open>Properties\<close>

text \<open>
  C13. The kernel is started at the entry point of the image with the words of \<open>bootargs\<close> (a quoted part is not split, and
  the size of the memory is added when the line does not give it) as its arguments, and with the memory size,
  ramdisk and flash as its environment, which ends with NULL: each pointer of the two tables is the address of
  the string. Outside this area the memory, the loaded kernel included, is unchanged.
\<close>

theorem linux_started:
  assumes env: "env_holds bo (bt_env bt) vs" "map_of vs (bytes ''bootargs'') = Some line"
    and disk: "find_ramdisk hp argv len_ptr verify bt = Some (Inr (dat, len, bt1))"
    and few: "length (kernel_args bd line) \<le> 255" and room: "params_end bd line dat len \<le> 2 ^ 32"
  shows "\<exists>bt'. do_bootm_linux bd bo hp argv len_ptr verify bt =
      Some (Start_kernel (ih_ep (bt_mem bt) hp) (Suc (length (kernel_args bd line))) (boot_area bd) (env_at bd line)
        (bi_flashsize bd div (1024 * 1024)), bt') \<and>
    strings_at (bt_mem bt') (boot_area bd + 4) (kernel_args bd line) \<and>
    strings_at (bt_mem bt') (env_at bd line) (kernel_env bd dat len) \<and>
    NetReadIP (bt_mem bt') (env_at bd line + 20) = 0 \<and>
    (\<forall>a. a < boot_area bd \<or> params_end bd line dat len \<le> a \<longrightarrow> bt_mem bt' a = bt_mem bt1 a)"
  using start_kernel_strings [OF few env_holds_no_nul [OF env] room] getenv_val_map_of [OF env(1) good_bootargs] env(2) disk
  by (simp add: do_bootm_linux_def)

definition bd0 :: bd_t where
  "bd0 = \<lparr>bi_boot_params = 0x81000000, bi_flashstart = 0x9f000000, bi_flashsize = 0x800000, ram_size = 0x4000000\<rparr>"

definition vars_boot :: "var list" where
  "vars_boot = [(bytes ''bootargs'', bytes ''a b'')]"

definition env_boot :: "unit env_state" where
  "env_boot = state0\<lparr>en_env := write_bytes (\<lambda>_. 0) 0 (env_bytes vars_boot)\<rparr>"

lemma env_boot_holds: "env_holds board0 env_boot vars_boot"
  unfolding env_holds_def
  by (auto simp: env_boot_def holds_write vars_boot_def good_var_def good_name_def env_bytes_def size0)

lemma line_words_ab: "line_words (bytes ''a b'') = [bytes ''a'', bytes ''b'']"
  by (simp add: line_words.simps QUOTE_def BLANK_def)

lemma decimal_length: "length (decimal w) \<le> 32"
  by (simp add: decimal_def digit_chars_def Let_def number_digits_length)

lemma fixed_hex_length: "length (fixed_hex k w) = k"
  by (induction k arbitrary: w) simp_all

lemma kernel_args_ab: "kernel_args bd (bytes ''a b'') =
    [bytes ''a'', bytes ''b'', bytes ''mem='' @ decimal (drop_bit 20 (ram_size bd)) @ bytes ''M'']"
  unfolding kernel_args_def line_words_ab by simp

lemma params_end_ab: "params_end bd0 (bytes ''a b'') dat len \<le> 2 ^ 32"
proof -
  have "boot_area bd0 = 0xa1000000" by (simp add: boot_area_def UNCACHED_SDRAM_def KSEG1ADDR_def bd0_def)
  moreover have "length (digit_chars w 16 LARGE) \<le> 32" for w
    by (simp add: digit_chars_def Let_def number_digits_length)
  from this [of "if dat = 0 then 0 else len"] this [of "bi_flashsize bd0"] have "length (blob (kernel_env bd0 dat len)) \<le> 400"
    using decimal_length [of "ram_size bd0"] by (simp add: kernel_env_def fixed_hex_length del: fixed_hex.simps)
  moreover have "length (blob (kernel_args bd0 (bytes ''a b''))) \<le> 60"
    using decimal_length [of "drop_bit 20 (ram_size bd0)"] unfolding kernel_args_ab by simp
  ultimately show ?thesis unfolding params_end_def env_at_def by simp
qed


theorem linux_started_witness:
  "\<exists>bt' env. do_bootm_linux bd0 board0 100 [bytes ''bootm''] 0 True \<lparr>bt_env = env_boot, bt_mem = \<lambda>_. 0\<rparr> =
      Some (Start_kernel 0 4 0xa1000000 env 8, bt') \<and>
    strings_at (bt_mem bt') 0xa1000004
      [bytes ''a'', bytes ''b'', bytes ''mem='' @ decimal (drop_bit 20 0x4000000) @ bytes ''M'']"
proof -
  let ?bt = "\<lparr>bt_env = env_boot, bt_mem = \<lambda>_. 0\<rparr>"
  have "find_ramdisk 100 [bytes ''bootm''] 0 True ?bt = Some (Inr (0, 0, ?bt))"
    by (simp add: find_ramdisk_def ih_defs ih_types)
  moreover have "map_of vars_boot (bytes ''bootargs'') = Some (bytes ''a b'')" by (simp add: vars_boot_def)
  moreover have "length (kernel_args bd0 (bytes ''a b'')) = 3" unfolding kernel_args_ab by simp
  moreover have "boot_area bd0 = 0xa1000000" "bi_flashsize bd0 div (1024 * 1024) = 8" "ram_size bd0 = 0x4000000"
    by (simp_all add: boot_area_def UNCACHED_SDRAM_def KSEG1ADDR_def bd0_def)
  moreover have "ih_ep (\<lambda>_. 0) 100 = 0" by (simp add: ih_defs NetReadIP_def)
  ultimately show ?thesis
    using linux_started [of board0 ?bt vars_boot "bytes ''a b''" 100 "[bytes ''bootm'']" 0 True 0 0 ?bt bd0]
      env_boot_holds params_end_ab kernel_args_ab [of bd0] by (auto simp del: bytes_Cons)
qed

text \<open>
  C40. The table of arguments has 256 places. When the command line has 255 words or more and does not give the size of the
  memory, the argument \<open>mem=\<close> that is added has the place 256: its address is stored over the first 4 bytes of the
  first argument, to which \<open>argv[1]\<close> points.
\<close>

theorem args_overflow:
  assumes many: "255 \<le> length (line_words line)" and add: "str_str (bytes ''mem='') line = None"
  shows "\<exists>lx. linux_params_init bd start (Some line) m = Some lx \<and> lx_argc lx = 257 \<and>
    NetReadIP (lx_mem lx) (start + 4) = of_nat (start + 1024) \<and>
    read_bytes (lx_mem lx) (start + 1024) 4 = be32 (of_nat (start + 1024 + length (blob (take 255 (line_words line)))))"
proof -
  let ?ws = "take 255 (line_words line)" and ?mem = "bytes ''mem='' @ decimal (drop_bit 20 (ram_size bd)) @ bytes ''M''"
  have len: "length ?ws = 255" using many by simp
  obtain m1 where m1: "args_loop start line 1 (start + 1024) (wr32 m start 0) = (m1, 256, start + 1024 + length (blob ?ws))"
    "vec m1 (start + 4) (start + 1024) ?ws"
    using args_loop_vec [of "wr32 m start 0" start "[]" line] len by auto
  define p where "p = start + 1024 + length (blob ?ws)"
  define m2 where "m2 = wr32 (write_bytes m1 p (?mem @ [0])) (start + 1024) (of_nat p)"
  define e where "e = (p + length ?mem + 1 + 15) div 16 * 16"
  have blob: "length ws \<le> length (blob ws)" for ws by (induction ws) simp_all
  then have p: "start + 1024 + 255 \<le> p" using blob [of ?ws] len unfolding p_def by linarith
  moreover have "p \<le> e" unfolding e_def by linarith
  ultimately have e: "start + 1024 + 255 \<le> e" by linarith
  have "linux_params_init bd start (Some line) m =
      Some \<lparr>lx_mem = wr32 m2 e 0, lx_argc = 257, lx_argv = start, lx_env = e, lx_env_p = e + 1024, lx_env_idx = 0\<rparr>"
    using m1(1) add unfolding linux_params_init_def Let_def sprintf_mem
    by (simp add: LINUX_MAX_ARGS_def LINUX_MAX_ENVS_def m2_def e_def p_def del: bytes_Cons)
  moreover have "NetReadIP (wr32 m2 e 0) (start + 4) = NetReadIP m1 (start + 4)"
    using e p by (intro NetReadIP_cong) (simp add: wr32_other m2_def write_bytes_other)
  moreover have "NetReadIP m1 (start + 4) = of_nat (start + 1024)" using m1(2) len by (auto simp: vec_def dest: spec [of _ 0])
  moreover have "read_bytes (wr32 m2 e 0) (start + 1024) 4 = read_bytes m2 (start + 1024) 4"
    using e by (intro read_bytes_cong) (simp add: wr32_other)
  moreover have "read_bytes m2 (start + 1024) 4 = be32 (of_nat p)"
    using read_write_bytes [of "write_bytes m1 p (?mem @ [0])" "start + 1024" "be32 (of_nat p)"] by (simp add: m2_def wr32_def)
  ultimately show ?thesis by (simp add: p_def)
qed

lemma many_words: "line_words (concat (replicate n [65, BLANK])) = replicate n [65]"
proof (induction n)
  case 0
  then show ?case by (simp add: line_words.simps)
next
  case (Suc n)
  then show ?case by (subst line_words.simps) (simp add: QUOTE_def BLANK_def)
qed

lemma many_words_mem: "str_str (bytes ''mem='') (concat (replicate n [65, BLANK])) = None"
  by (induction n) (simp_all add: BLANK_def)

theorem args_overflow_witness:
  "\<exists>lx. linux_params_init bd0 0x1000 (Some (concat (replicate 300 [65, BLANK]))) (\<lambda>_. 0) = Some lx \<and> lx_argc lx = 257 \<and>
     NetReadIP (lx_mem lx) 0x1004 = 0x1400 \<and> read_bytes (lx_mem lx) 0x1400 4 = be32 (of_nat (0x1400 + 510))"
proof -
  have "length (blob (replicate n [65])) = 2 * n" for n by (induction n) simp_all
  from this [of 255] have "length (blob (take 255 (line_words (concat (replicate 300 [65, BLANK]))))) = 510"
    unfolding many_words by simp
  then show ?thesis
    using args_overflow [of "concat (replicate 300 [65, BLANK])" bd0 "0x1000" "\<lambda>_. 0"] many_words_mem
    unfolding many_words by simp
qed

end
