(* ===== verification/Bootm.thy ===== *)
theory Bootm imports LinuxMips begin

text \<open>
  The command \<open>bootm\<close>, \<open>do_bootm\<close> of \<open>common/cmd_bootm.c\<close> with \<open>gunzip\<close> and the starts of NetBSD and RTEMS: it
  verifies the image at an address, moves or decompresses the program to its load address and starts it.

  Of zlib, \<open>inflateInit2\<close> and \<open>inflate\<close> are arguments; a call of a loaded program or of \<open>do_reset\<close> does not
  come back. Modelled is a MIPS port without watchdog, \<open>CONFIG_LZMA\<close>, \<open>CONFIG_BZIP2\<close>, \<open>CFG_CMD_ELF\<close> and \<open>CONFIG_SILENT_CONSOLE\<close>;
  the flushing of the caches and the disabled interrupts have no effect on the state, and \<open>malloc\<close> of the command line
  of NetBSD does not fail.
\<close>

unbundle bit_operations_syntax

section \<open>Decompression\<close>

text \<open>
  \<open>inflate\<close> gets memory, \<open>next_in\<close>, \<open>avail_in\<close>, \<open>next_out\<close> and \<open>avail_out\<close> and gives its result, memory and the new \<open>next_out\<close>.
\<close>

record zlib =
  inflateInit2 :: int
  inflate :: "mem \<Rightarrow> nat \<Rightarrow> u32 \<Rightarrow> nat \<Rightarrow> u32 \<Rightarrow> int \<times> mem \<times> nat"

definition HEAD_CRC :: byte where "HEAD_CRC = 2"
definition EXTRA_FIELD :: byte where "EXTRA_FIELD = 4"
definition ORIG_NAME :: byte where "ORIG_NAME = 8"
definition COMMENT :: byte where "COMMENT = 0x10"
definition RESERVED :: byte where "RESERVED = 0xe0"
definition DEFLATED :: byte where "DEFLATED = 8"

partial_function (option) skip_string :: "mem \<Rightarrow> nat \<Rightarrow> nat \<Rightarrow> nat option" where
  "skip_string m src i = (if m (src + i) \<noteq> 0 then skip_string m src (i + 1) else Some (i + 1))"

text \<open>The result, \<open>*lenp\<close>, and the state.\<close>

definition gunzip :: "zlib \<Rightarrow> nat \<Rightarrow> u32 \<Rightarrow> nat \<Rightarrow> u32 \<Rightarrow> 'c boot \<Rightarrow> (int \<times> u32 \<times> 'c boot) option" where
  "gunzip z dst dstlen src len bt =
     (let m = bt_mem bt; flags = m (src + 3) in
      if m (src + 2) \<noteq> DEFLATED \<or> flags AND RESERVED \<noteq> 0
      then Some (-1, len, boot_puts (''Error: Bad gzipped data'' @ nl) bt)
      else
        let i = (if flags AND EXTRA_FIELD \<noteq> 0 then 12 + unat (m (src + 10)) + 256 * unat (m (src + 11)) else 10) in
        case (if flags AND ORIG_NAME \<noteq> 0 then skip_string m src i else Some i) of None \<Rightarrow> None | Some i \<Rightarrow>
        case (if flags AND COMMENT \<noteq> 0 then skip_string m src i else Some i) of None \<Rightarrow> None | Some i \<Rightarrow>
        let i = (if flags AND HEAD_CRC \<noteq> 0 then i + 2 else i) in
        if i \<ge> unat len then Some (-1, len, boot_puts (''Error: gunzip out of data in header'' @ nl) bt)
        else if inflateInit2 z \<noteq> 0
        then Some (-1, len, boot_printf (''Error: inflateInit2() returned %d'' @ nl) [ArgInt (of_int (inflateInit2 z))] bt)
        else
          (case inflate z m (src + i) (len - of_nat i) dst dstlen of (r, m, next_out) \<Rightarrow>
             let bt = bt\<lparr>bt_mem := m\<rparr> in
             if r \<noteq> 0 \<and> r \<noteq> 1
             then Some (-1, len, boot_printf (''Error: inflate() returned %d'' @ nl) [ArgInt (of_int r)] bt)
             else Some (0, of_nat (next_out - dst), bt)))"

section \<open>Other systems\<close>

primrec join_args :: "bool \<Rightarrow> byte list list \<Rightarrow> byte list" where
  "join_args first [] = []"
| "join_args first (s # args) = (if first then s else BLANK # s) @ join_args False args"

definition do_bootm_netbsd ::
    "'c board \<Rightarrow> nat \<Rightarrow> byte list list \<Rightarrow> u32 \<Rightarrow> u32 \<Rightarrow> 'c boot \<Rightarrow> (outcome \<times> 'c boot) option" where
  "do_bootm_netbsd bo hp argv addr len_ptr bt =
     (let m = bt_mem bt;
          img_addr = (if ih_type m hp = IH_TYPE_MULTI \<and> NetReadIP m (unat len_ptr + 4) \<noteq> 0 then addr else 0)
      in case (if length argv > 2 then Some (join_args True (drop 2 argv))
               else case getenv_val bo (bt_env bt) (bytes ''bootargs'') of
                 None \<Rightarrow> None
               | Some None \<Rightarrow> Some []
               | Some (Some s) \<Rightarrow> Some s) of
           None \<Rightarrow> None
         | Some cmdline \<Rightarrow>
             Some (Start_netbsd (ih_ep m hp) img_addr [] cmdline,
               boot_printf (''## Transferring control to NetBSD stage-2 loader (at address %08lx) ...'' @ nl)
                 [ArgInt (ih_ep m hp)] bt))"

definition do_bootm_rtems :: "nat \<Rightarrow> 'c boot \<Rightarrow> (outcome \<times> 'c boot) option" where
  "do_bootm_rtems hp bt =
     Some (Start_rtems (ih_ep (bt_mem bt) hp),
       boot_printf (''## Transferring control to RTEMS (at address %08lx) ...'' @ nl) [ArgInt (ih_ep (bt_mem bt) hp)] bt)"

section \<open>The command\<close>

definition CFG_BOOTM_LEN :: u32 where "CFG_BOOTM_LEN = 0x800000"

text \<open>The checks: \<open>Inl\<close> is the return of 1.\<close>

definition bootm_data :: "nat \<Rightarrow> u32 \<Rightarrow> bool \<Rightarrow> 'c boot \<Rightarrow> 'c boot + 'c boot" where
  "bootm_data hp addr verify bt =
     (let m = bt_mem bt;
          dat = addr + of_nat HDR_SIZE;
          len = ih_size m hp;
          bt' = boot_puts ''   Verifying Checksum ... '' bt
      in if verify \<and> crc32 m 0 (unat dat) (unat len) \<noteq> ih_dcrc m hp
         then Inl (boot_printf (''Bad Data CRC'' @ nl) [] bt')
         else
           let bt = (if verify then boot_puts (''OK'' @ nl) bt' else bt)
           in if ih_arch m hp \<noteq> IH_CPU_MIPS
              then Inl (boot_printf (''Unsupported Architecture 0x%x'' @ nl) [ArgInt (ucast (ih_arch m hp))] bt)
              else Inr bt)"

definition bootm_check :: "nat \<Rightarrow> u32 \<Rightarrow> bool \<Rightarrow> 'c boot \<Rightarrow> ('c boot + 'c boot) option" where
  "bootm_check hp addr verify bt =
     (let bt = boot_printf (''## Booting image at %08lx ...'' @ nl) [ArgInt addr] bt;
          m = fst (memmove (bt_mem bt) hp (unat addr) HDR_SIZE)
      in if ih_magic m hp \<noteq> IH_MAGIC then Some (Inl (boot_puts (''Bad Magic Number'' @ nl) (bt\<lparr>bt_mem := m\<rparr>)))
         else
           let checksum = ih_hcrc m hp;
               m = write_bytes m (hp + 4) (be32 0)
           in if crc32 m 0 hp HDR_SIZE \<noteq> checksum
              then Some (Inl (boot_puts (''Bad Header Checksum'' @ nl) (bt\<lparr>bt_mem := m\<rparr>)))
              else map_option (bootm_data hp addr verify) (boot_print_hdr (unat addr) (bt\<lparr>bt_mem := m\<rparr>)))"

text \<open>The type of the image: its name, where the program is and how long.\<close>

definition bootm_type ::
    "nat \<Rightarrow> byte list \<Rightarrow> byte list list \<Rightarrow> u32 \<Rightarrow> 'c boot \<Rightarrow> ('c boot + string \<times> u32 \<times> u32 \<times> 'c boot) option" where
  "bootm_type hp cmd_name argv dat bt =
     (let m = bt_mem bt; ty = ih_type m hp; len = ih_size m hp in
      if ty = IH_TYPE_STANDALONE then
        Some (Inr (''Standalone Application'', dat, len,
          if length argv > 2 then bt\<lparr>bt_mem := write_bytes m (hp + 16) (be32 (fst (simple_strtoul (argv ! 2) 16)))\<rparr> else bt))
      else if ty = IH_TYPE_KERNEL then Some (Inr (''Kernel Image'', dat, len, bt))
      else if ty = IH_TYPE_MULTI then
        (case skip_lengths m (unat dat + 4) (dat + 8) of
           None \<Rightarrow> None
         | Some dat' \<Rightarrow> Some (Inr (''Multi-File Image'', dat', NetReadIP m (unat dat), bt)))
      else Some (Inl (boot_printf (''Wrong Image Type for %s command'' @ nl) [ArgStr (Some cmd_name)] bt)))"

text \<open>The program at its load address: \<open>Inl\<close> is the end of the command.\<close>

definition bootm_load ::
    "zlib \<Rightarrow> nat \<Rightarrow> u32 \<Rightarrow> string \<Rightarrow> u32 \<Rightarrow> u32 \<Rightarrow> 'c boot \<Rightarrow> ((outcome \<times> 'c boot) + u32 \<times> 'c boot) option" where
  "bootm_load z hp addr name dat len bt =
     (let m = bt_mem bt; load = ih_load m hp; comp' = ih_comp m hp in
      if comp' = IH_COMP_NONE then
        (let bt = (if load = addr then boot_printf ''   XIP %s ... '' [ArgStr (Some (bytes name))] bt
                   else bt\<lparr>bt_mem := fst (memmove m (unat load) (unat dat) (unat len))\<rparr>)
         in Some (Inr (len, boot_puts (''OK'' @ nl) bt)))
      else if comp' = IH_COMP_GZIP then
        (let bt = boot_printf ''   Uncompressing %s ... '' [ArgStr (Some (bytes name))] bt in
         case gunzip z (unat load) CFG_BOOTM_LEN (unat dat) len bt of
           None \<Rightarrow> None
         | Some (r, len, bt) \<Rightarrow>
             if r \<noteq> 0 then Some (Inl (Reset, boot_puts (''GUNZIP ERROR - must RESET board to recover'' @ nl) bt))
             else Some (Inr (len, boot_puts (''OK'' @ nl) bt)))
      else Some (Inl (Returned 1, boot_printf (''Unimplemented compression type %d'' @ nl) [ArgInt (ucast comp')] bt)))"

definition bootm_start ::
    "bd_t \<Rightarrow> 'c board \<Rightarrow> nat \<Rightarrow> byte list list \<Rightarrow> u32 \<Rightarrow> u32 \<Rightarrow> bool \<Rightarrow> u32 \<Rightarrow> 'c boot \<Rightarrow> (outcome \<times> 'c boot) option" where
  "bootm_start bd bo hp argv addr len_ptr verify len bt =
     (let m = bt_mem bt; ty = ih_type m hp in
      if ty = IH_TYPE_STANDALONE then
        (case getenv_val bo (bt_env bt) (bytes ''autostart'') of
           None \<Rightarrow> None
         | Some s \<Rightarrow>
             if s = Some (bytes ''no'')
             then (case sprintf ''%lX'' [ArgInt len] of
                     None \<Rightarrow> None
                   | Some buf \<Rightarrow> map_option (\<lambda>e. (Returned 0, bt\<lparr>bt_env := e\<rparr>)) (setenv bo (bytes ''filesize'') (Some buf) (bt_env bt)))
             else Some (Start_app (ih_ep m hp) (tl argv), bt))
      else if ty = IH_TYPE_KERNEL \<or> ty = IH_TYPE_MULTI then
        (if ih_os m hp = IH_OS_NETBSD then do_bootm_netbsd bo hp argv addr len_ptr bt
         else if ih_os m hp = IH_OS_RTEMS then do_bootm_rtems hp bt
         else do_bootm_linux bd bo hp argv len_ptr verify bt)
      else Some (Returned 1, boot_printf (''Can'' @ [CHR 0x27] @ ''t boot image type %d'' @ nl) [ArgInt (ucast ty)] bt))"

definition do_bootm ::
    "zlib \<Rightarrow> bd_t \<Rightarrow> 'c board \<Rightarrow> nat \<Rightarrow> byte list \<Rightarrow> byte list list \<Rightarrow> 'c boot \<Rightarrow> (outcome \<times> 'c boot) option" where
  "do_bootm z bd bo hp cmd_name argv bt =
     (case getenv_val bo (bt_env bt) (bytes ''verify'') of None \<Rightarrow> None | Some s \<Rightarrow>
      let verify = (case s of None \<Rightarrow> True | Some s \<Rightarrow> peek s \<noteq> chr CHR ''n'');
          addr = (if length argv < 2 then en_load_addr (bt_env bt) else fst (simple_strtoul (argv ! 1) 16))
      in case bootm_check hp addr verify bt of
           None \<Rightarrow> None
         | Some (Inl bt) \<Rightarrow> Some (Returned 1, bt)
         | Some (Inr bt) \<Rightarrow>
             let len_ptr = addr + of_nat HDR_SIZE in
             case bootm_type hp cmd_name argv len_ptr bt of
               None \<Rightarrow> None
             | Some (Inl bt) \<Rightarrow> Some (Returned 1, bt)
             | Some (Inr (name, dat, len, bt)) \<Rightarrow>
                 case bootm_load z hp addr name dat len bt of
                   None \<Rightarrow> None
                 | Some (Inl r) \<Rightarrow> Some r
                 | Some (Inr (len, bt)) \<Rightarrow> bootm_start bd bo hp argv addr len_ptr verify len bt)"

section \<open>The checks\<close>

lemma boot_out [simp]:
  "bt_mem (boot_puts s bt) = bt_mem bt" "bt_mem (boot_printf s args bt) = bt_mem bt"
  "en_env (bt_env (boot_puts s bt)) = en_env (bt_env bt)" "en_env (bt_env (boot_printf s args bt)) = en_env (bt_env bt)"
  by (simp_all add: boot_puts_def boot_printf_def)

lemma boot_print_hdr_some:
  "boot_print_hdr p bt = Some bt' \<Longrightarrow> bt_mem bt' = bt_mem bt \<and> en_env (bt_env bt') = en_env (bt_env bt)"
  by (auto simp: boot_print_hdr_def)

lemma boot_print_hdr_none: "boot_print_hdr p bt = None \<longleftrightarrow> print_image_hdr (bt_mem bt) p (en_out (bt_env bt)) = None"
  by (simp add: boot_print_hdr_def)

lemma bootm_check_bad_header:
  assumes "\<not> header_ok (bt_mem bt) (unat addr)"
  shows "\<exists>bt'. bootm_check hp addr verify bt = Some (Inl bt') \<and>
    (\<forall>a. a < hp \<or> hp + HDR_SIZE \<le> a \<longrightarrow> bt_mem bt' a = bt_mem bt a)"
proof -
  have "fetched hp p m a = m a" if "a < hp \<or> hp + HDR_SIZE \<le> a" for a p m
    using that by (simp add: fetched_def write_bytes_apply) auto
  then show ?thesis
    using assms blanked_other
    by (auto simp: bootm_check_def Let_def memmove_fetched fetched_fields blanked_fetched crc32_blanked header_ok_def)
qed

lemma bootm_data_result:
  assumes mem: "bt_mem bt1 = blanked hp (unat addr) m" and clear: "clear_of hp (unat addr) (unat (ih_size m (unat addr)))"
  shows "case bootm_data hp addr verify bt1 of
      Inl bt' \<Rightarrow> bt_mem bt' = bt_mem bt1 \<and> (verify \<and> \<not> data_ok m (unat addr) \<or> ih_arch m (unat addr) \<noteq> IH_CPU_MIPS)
    | Inr bt' \<Rightarrow> bt_mem bt' = bt_mem bt1 \<and> en_env (bt_env bt') = en_env (bt_env bt1) \<and>
        (verify \<longrightarrow> data_ok m (unat addr)) \<and> ih_arch m (unat addr) = IH_CPU_MIPS"
proof -
  have "read_bytes (bt_mem bt1) (unat addr + HDR_SIZE) (unat (ih_size m (unat addr))) = image_data m (unat addr)"
    using read_blanked [OF clear, of HDR_SIZE] by (simp add: mem image_data_def)
  then have crc: "(crc32 (bt_mem bt1) 0 (unat (addr + of_nat HDR_SIZE)) (unat (ih_size (bt_mem bt1) hp)) \<noteq> ih_dcrc (bt_mem bt1) hp) =
      (\<not> data_ok m (unat addr))"
    by (auto simp: mem blanked_fields crc32_crc_of data_ok_def data_address [OF clear])
  have arch: "ih_arch (bt_mem bt1) hp = ih_arch m (unat addr)" by (simp add: mem blanked_fields)
  show ?thesis unfolding bootm_data_def Let_def crc arch by simp
qed

lemma bootm_check_data:
  assumes ok: "header_ok (bt_mem bt) (unat addr)"
    and clear: "clear_of hp (unat addr) (unat (ih_size (bt_mem bt) (unat addr)))"
  shows "case bootm_check hp addr verify bt of
      None \<Rightarrow> \<exists>out. print_image_hdr (blanked hp (unat addr) (bt_mem bt)) (unat addr) out = None
    | Some (Inl bt') \<Rightarrow> bt_mem bt' = blanked hp (unat addr) (bt_mem bt) \<and>
        (verify \<and> \<not> data_ok (bt_mem bt) (unat addr) \<or> ih_arch (bt_mem bt) (unat addr) \<noteq> IH_CPU_MIPS)
    | Some (Inr bt') \<Rightarrow> bt_mem bt' = blanked hp (unat addr) (bt_mem bt) \<and> en_env (bt_env bt') = en_env (bt_env bt) \<and>
        (verify \<longrightarrow> data_ok (bt_mem bt) (unat addr)) \<and> ih_arch (bt_mem bt) (unat addr) = IH_CPU_MIPS"
proof -
  define bt0 where "bt0 = boot_printf (''## Booting image at %08lx ...'' @ nl) [ArgInt addr] bt"
  define bt1 where "bt1 = bt0\<lparr>bt_mem := blanked hp (unat addr) (bt_mem bt)\<rparr>"
  have mem0: "bt_mem bt0 = bt_mem bt" and env1: "en_env (bt_env bt1) = en_env (bt_env bt)"
    and mem1: "bt_mem bt1 = blanked hp (unat addr) (bt_mem bt)"
    by (simp_all add: bt0_def bt1_def)
  have check: "bootm_check hp addr verify bt = map_option (bootm_data hp addr verify) (boot_print_hdr (unat addr) bt1)"
    using ok unfolding bootm_check_def bt0_def [symmetric]
    by (simp add: Let_def mem0 memmove_fetched fetched_fields blanked_fetched crc32_blanked header_ok_def bt1_def)
  show ?thesis
  proof (cases "boot_print_hdr (unat addr) bt1")
    case None
    then show ?thesis using boot_print_hdr_none [of "unat addr" bt1] unfolding check mem1 by auto
  next
    case (Some bt2)
    then have bt2: "bt_mem bt2 = blanked hp (unat addr) (bt_mem bt)" "en_env (bt_env bt2) = en_env (bt_env bt)"
      using boot_print_hdr_some [OF Some] env1 mem1 by simp_all
    then show ?thesis
      using bootm_data_result [OF bt2(1) clear, of verify] unfolding check Some
      by (cases "bootm_data hp addr verify bt2") simp_all
  qed
qed

section \<open>From the checks to the system\<close>

definition bootm_verify :: "byte list option \<Rightarrow> bool" where
  "bootm_verify s = (case s of None \<Rightarrow> True | Some s \<Rightarrow> peek s \<noteq> chr CHR ''n'')"

definition bootm_addr :: "byte list list \<Rightarrow> 'c boot \<Rightarrow> u32" where
  "bootm_addr argv bt = (if length argv < 2 then en_load_addr (bt_env bt) else fst (simple_strtoul (argv ! 1) 16))"

lemma bootm_to_linux:
  fixes bt :: "'c boot"
  assumes p: "p = unat addr" and verified: "getenv_val bo (bt_env bt) (bytes ''verify'') = Some s" "addr = bootm_addr argv bt"
    and ok: "header_ok (bt_mem bt) p" "data_ok (bt_mem bt) p" "clear_of hp p (unat (ih_size (bt_mem bt) p))"
    and prints: "\<And>out. \<exists>out'. print_image_hdr (blanked hp p (bt_mem bt)) p out = Some out'"
    and hdr: "ih_arch (bt_mem bt) p = IH_CPU_MIPS" "ih_comp (bt_mem bt) p = IH_COMP_NONE"
      "ih_os (bt_mem bt) p = IH_OS_LINUX" "ih_type (bt_mem bt) p \<in> {IH_TYPE_KERNEL, IH_TYPE_MULTI}"
      "ih_load (bt_mem bt) p \<noteq> addr"
    and ty: "\<And>bt1 :: 'c boot. bt_mem bt1 = blanked hp p (bt_mem bt) \<Longrightarrow>
      bootm_type hp cmd argv (addr + of_nat HDR_SIZE) bt1 = Some (Inr (nam, dat, len, bt1))"
    and apart: "hp + HDR_SIZE \<le> unat (ih_load (bt_mem bt) p) \<or> unat (ih_load (bt_mem bt) p) + unat len \<le> hp"
  shows "\<exists>bt2. bt_mem bt2 = write_bytes (blanked hp p (bt_mem bt)) (unat (ih_load (bt_mem bt) p))
        (read_bytes (blanked hp p (bt_mem bt)) (unat dat) (unat len)) \<and>
      en_env (bt_env bt2) = en_env (bt_env bt) \<and>
      do_bootm z bd bo hp cmd argv bt = do_bootm_linux bd bo hp argv (addr + of_nat HDR_SIZE) (bootm_verify s) bt2"
proof -
  let ?m = "blanked hp p (bt_mem bt)" and ?load = "ih_load (bt_mem bt) p"
  obtain bt1 where bt1: "bootm_check hp addr (bootm_verify s) bt = Some (Inr bt1)" "bt_mem bt1 = ?m"
    "en_env (bt_env bt1) = en_env (bt_env bt)"
  proof (cases "bootm_check hp addr (bootm_verify s) bt")
    case None
    then obtain out where "print_image_hdr (blanked hp p (bt_mem bt)) p out = None"
      using bootm_check_data [of bt addr hp "bootm_verify s"] ok unfolding p by auto
    then show ?thesis using prints [of out] by simp
  next
    case (Some r)
    then show ?thesis
      using that bootm_check_data [of bt addr hp "bootm_verify s"] ok hdr(1) unfolding p by (cases r) simp_all
  qed
  let ?m2 = "write_bytes ?m (unat ?load) (read_bytes ?m (unat dat) (unat len))"
  define bt2 where "bt2 = boot_puts (''OK'' @ nl) (bt1\<lparr>bt_mem := ?m2\<rparr>)"
  have load: "bootm_load z hp addr nam dat len bt1 = Some (Inr (len, bt2))"
    using hdr(2,5) by (simp add: bootm_load_def Let_def bt1(2) blanked_fields memmove_correct bt2_def)
  have same: "?m2 (hp + i) = ?m (hp + i)" if "i < HDR_SIZE" for i
    using apart that by (intro write_bytes_other) auto
  have fields: "ih_type ?m2 hp = ih_type (bt_mem bt) p" "ih_os ?m2 hp = ih_os (bt_mem bt) p"
    using blanked_fields [of hp p "bt_mem bt"] same [of 30] same [of 28] by (simp_all add: ih_defs HDR_SIZE_def)
  have "ih_type (bt_mem bt) p \<noteq> IH_TYPE_STANDALONE" "IH_OS_LINUX \<noteq> IH_OS_NETBSD" "IH_OS_LINUX \<noteq> IH_OS_RTEMS"
    using hdr(4) by (auto simp: ih_types IH_OS_LINUX_def IH_OS_NETBSD_def IH_OS_RTEMS_def)
  then have start: "bootm_start bd bo hp argv addr len_ptr v l bt2 = do_bootm_linux bd bo hp argv len_ptr v bt2" for len_ptr v l
    using hdr(3,4) by (auto simp: bootm_start_def Let_def bt2_def fields)
  have "do_bootm z bd bo hp cmd argv bt = do_bootm_linux bd bo hp argv (addr + of_nat HDR_SIZE) (bootm_verify s) bt2"
    using verified bt1(1) ty [OF bt1(2)] load start
    by (simp add: do_bootm_def bootm_addr_def bootm_verify_def Let_def)
  then show ?thesis using bt1(3) by (intro exI [of _ bt2]) (simp add: bt2_def)
qed

section \<open>Images that \<open>mkimage\<close> made\<close>

text \<open>What is needed to boot an image: loaded at the address of the command, for Linux on MIPS, uncompressed, and its
  program neither overlaps \<open>header\<close> nor runs from where it is.\<close>

definition bootable :: "mk_opts \<Rightarrow> nat \<Rightarrow> u32 \<Rightarrow> nat \<Rightarrow> bool" where
  "bootable opt hp addr n \<longleftrightarrow> mk_arch opt = IH_CPU_MIPS \<and> mk_os opt = IH_OS_LINUX \<and> mk_comp opt = IH_COMP_NONE \<and>
     \<not> mk_xflag opt \<and> mk_addr opt \<noteq> addr \<and>
     (hp + HDR_SIZE \<le> unat (mk_addr opt) \<or> unat (mk_addr opt) + n \<le> hp)"

lemma loaded_fields:
  assumes "hp + HDR_SIZE \<le> L \<or> L + length xs \<le> hp"
  shows "ih_type (write_bytes (blanked hp p m) L xs) hp = ih_type m p"
    "ih_ep (write_bytes (blanked hp p m) L xs) hp = ih_ep m p"
proof -
  have same: "write_bytes (blanked hp p m) L xs (hp + i) = blanked hp p m (hp + i)" if "i < HDR_SIZE" for i
    using assms that by (intro write_bytes_other) auto
  show "ih_type (write_bytes (blanked hp p m) L xs) hp = ih_type m p"
    using same [of 30] blanked_fields(8) [of hp p m] by (simp add: ih_defs HDR_SIZE_def)
  have "ih_ep (write_bytes (blanked hp p m) L xs) hp = ih_ep (blanked hp p m) hp"
    unfolding ih_defs using same [of "20 + _"] by (intro NetReadIP_cong) (simp add: HDR_SIZE_def add.assoc)
  then show "ih_ep (write_bytes (blanked hp p m) L xs) hp = ih_ep m p" by (simp add: blanked_fields)
qed

lemma boot_made_image:
  fixes bt :: "'c boot"
  assumes env: "env_holds bo (bt_env bt) vs" and addr: "bootm_addr argv bt = addr"
    and img: "img = image_bytes opt mtime dat" "length dat < 2 ^ 32" "several opt \<Longrightarrow> \<exists>ds rest. dat = sizes_table ds @ rest"
    and at: "read_bytes (bt_mem bt) (unat addr) (length img) = img" and clear: "clear_of hp (unat addr) (length dat)"
    and boot: "bootable opt hp addr n" "mk_type opt \<in> {IH_TYPE_KERNEL, IH_TYPE_MULTI}"
    and ty: "\<And>bt1 :: 'c boot. bt_mem bt1 = blanked hp (unat addr) (bt_mem bt) \<Longrightarrow>
      bootm_type hp cmd argv (addr + of_nat HDR_SIZE) bt1 = Some (Inr (nam, prog, of_nat n, bt1))"
    and n: "unat prog = unat addr + HDR_SIZE + k" "k + n \<le> length dat"
  shows "\<exists>bt2. bt_mem bt2 = write_bytes (blanked hp (unat addr) (bt_mem bt)) (unat (mk_addr opt)) (take n (drop k dat)) \<and>
    en_env (bt_env bt2) = en_env (bt_env bt) \<and> ih_type (bt_mem bt2) hp = mk_type opt \<and> ih_ep (bt_mem bt2) hp = entry_point opt \<and>
    do_bootm z bd bo hp cmd argv bt =
      do_bootm_linux bd bo hp argv (addr + of_nat HDR_SIZE) (bootm_verify (map_of vs (bytes ''verify''))) bt2"
proof -
  let ?p = "unat addr" and ?m = "bt_mem bt"
  note fields = image_fields [OF at [unfolded img(1)] img(2)]
  have len: "length img = HDR_SIZE + length dat" by (simp add: img(1) image_bytes_def)
  have n32: "unat (of_nat n :: u32) = n"
    using n(2) img(2) by (simp add: unsigned_of_nat take_bit_nat_eq_self)
  have d32: "unat (of_nat (length dat) :: u32) = length dat"
    using img(2) by (simp add: unsigned_of_nat take_bit_nat_eq_self)
  have at': "read_bytes (blanked hp ?p ?m) ?p (length img) = img" using clear_image [OF clear] at len by simp
  have prints: "\<exists>out'. print_image_hdr (blanked hp ?p ?m) ?p out = Some out'" for out
    using image_prints [OF _ img(2,3)] at' img(1) by metis
  have prog: "read_bytes (blanked hp ?p ?m) (unat prog) n = take n (drop k dat)"
    using read_bytes_part [OF at', of "HDR_SIZE + k" n] n len by (simp add: img(1) image_bytes_def add.assoc)
  have verify: "getenv_val bo (bt_env bt) (bytes ''verify'') = Some (map_of vs (bytes ''verify''))"
    using env by (intro getenv_val_map_of) (simp_all add: good_name_def)
  have apart: "hp + HDR_SIZE \<le> unat (ih_load ?m ?p) \<or> unat (ih_load ?m ?p) + unat (of_nat n :: u32) \<le> hp"
    using boot(1) by (simp add: bootable_def fields n32)
  obtain bt2 where bt2: "bt_mem bt2 = write_bytes (blanked hp ?p ?m) (unat (mk_addr opt)) (take n (drop k dat))"
    "en_env (bt_env bt2) = en_env (bt_env bt)"
    "do_bootm z bd bo hp cmd argv bt =
      do_bootm_linux bd bo hp argv (addr + of_nat HDR_SIZE) (bootm_verify (map_of vs (bytes ''verify''))) bt2"
    using bootm_to_linux [OF refl verify addr [symmetric], where hp = hp and nam = nam and dat = prog and len = "of_nat n" and cmd = cmd
        and z = z and bd = bd] fields clear d32 prints boot ty apart
    by (auto simp: bootable_def n32 prog)
  have "hp + HDR_SIZE \<le> unat (mk_addr opt) \<or> unat (mk_addr opt) + length (take n (drop k dat)) \<le> hp"
    using boot(1) n(2) by (auto simp: bootable_def)
  then show ?thesis using loaded_fields bt2 fields by (intro exI [of _ bt2]) auto
qed

lemma bootable_type_kernel:
  "ih_type (bt_mem bt1) hp = IH_TYPE_KERNEL \<Longrightarrow>
   bootm_type hp cmd argv dat bt1 = Some (Inr (''Kernel Image'', dat, ih_size (bt_mem bt1) hp, bt1))"
  by (simp add: bootm_type_def Let_def ih_types)

lemma env_holds_same: "en_env e = en_env e' \<Longrightarrow> env_holds bo e vs = env_holds bo e' vs"
  by (simp add: env_holds_def)

text \<open>What the kernel gets, whatever the ramdisk; what lies outside the area of the parameters stays.\<close>

lemma linux_from_loaded:
  assumes disk: "find_ramdisk hp argv lp v bt = Some (Inr (dat, len, bt))" and ep: "ih_ep (bt_mem bt) hp = ep"
    and env: "env_holds bo (bt_env bt) vs" "map_of vs (bytes ''bootargs'') = Some line"
    and few: "length (kernel_args bd line) \<le> 255" and room: "params_end bd line dat len \<le> 2 ^ 32"
  shows "\<exists>bt'. do_bootm_linux bd bo hp argv lp v bt =
      Some (Start_kernel ep (Suc (length (kernel_args bd line))) (boot_area bd) (env_at bd line)
        (bi_flashsize bd div (1024 * 1024)), bt') \<and>
    (\<forall>p n. p + n \<le> boot_area bd \<or> params_end bd line dat len \<le> p \<longrightarrow> read_bytes (bt_mem bt') p n = read_bytes (bt_mem bt) p n) \<and>
    strings_at (bt_mem bt') (boot_area bd + 4) (kernel_args bd line) \<and>
    strings_at (bt_mem bt') (env_at bd line) (kernel_env bd dat len)"
proof -
  obtain bt' where bt': "start_kernel bd ep (Some line) dat len bt =
      Some (Start_kernel ep (Suc (length (kernel_args bd line))) (boot_area bd) (env_at bd line)
        (bi_flashsize bd div (1024 * 1024)), bt')"
    "strings_at (bt_mem bt') (boot_area bd + 4) (kernel_args bd line)"
    "strings_at (bt_mem bt') (env_at bd line) (kernel_env bd dat len)"
    "\<forall>a. a < boot_area bd \<or> params_end bd line dat len \<le> a \<longrightarrow> bt_mem bt' a = bt_mem bt a"
    using start_kernel_strings [OF few env_holds_no_nul [OF env] room] by metis
  have "\<forall>p n. p + n \<le> boot_area bd \<or> params_end bd line dat len \<le> p \<longrightarrow> read_bytes (bt_mem bt') p n = read_bytes (bt_mem bt) p n"
    using bt'(4) by (auto intro!: read_bytes_cong)
  moreover have "do_bootm_linux bd bo hp argv lp v bt = start_kernel bd ep (Some line) dat len bt"
    using disk ep getenv_val_map_of [OF env(1) good_bootargs] env(2) by (simp add: do_bootm_linux_def)
  ultimately show ?thesis using bt'(1-3) by auto
qed

text \<open>
  C1. From the host to the running kernel: a kernel that \<open>mkimage\<close> put into an uncompressed image for Linux on MIPS is
  found by \<open>bootm\<close> at the address it was loaded to, passes the checks, is moved as it was to its load address (also when
  that overlaps the image) and is started at its entry point, with the words of \<open>bootargs\<close> as arguments and the
  environment that says there is no ramdisk.
\<close>

theorem bootm_starts_kernel:
  assumes made: "mkimage opt fs mtime = Some img" "fs (mk_datafile opt) = Some vmlinux"
    and at: "read_bytes (bt_mem bt) (unat addr) (length img) = img" and clear: "clear_of hp (unat addr) (length img - HDR_SIZE)"
    and boot: "bootable opt hp addr (length vmlinux)" "mk_type opt = IH_TYPE_KERNEL"
    and cmd: "bootm_addr argv bt = addr" "length argv < 3"
    and env: "env_holds bo (bt_env bt) vs" "map_of vs (bytes ''bootargs'') = Some line"
    and few: "length (kernel_args bd line) \<le> 255" and room: "params_end bd line 0 0 \<le> 2 ^ 32"
    and apart: "unat (mk_addr opt) + length vmlinux \<le> boot_area bd \<or> params_end bd line 0 0 \<le> unat (mk_addr opt)"
  shows "\<exists>bt'. do_bootm z bd bo hp cmd argv bt =
      Some (Start_kernel (entry_point opt) (Suc (length (kernel_args bd line))) (boot_area bd) (env_at bd line)
        (bi_flashsize bd div (1024 * 1024)), bt') \<and>
    read_bytes (bt_mem bt') (unat (mk_addr opt)) (length vmlinux) = vmlinux \<and>
    strings_at (bt_mem bt') (boot_area bd + 4) (kernel_args bd line) \<and>
    strings_at (bt_mem bt') (env_at bd line) (kernel_env bd 0 0)"
proof -
  let ?p = "unat addr" and ?L = "unat (mk_addr opt)"
  have "length img \<le> 2 ^ 32" using clear unfolding clear_of_def HDR_SIZE_def by linarith
  moreover have one: "\<not> several opt" using boot(2) by (simp add: several_def ih_types)
  ultimately have img: "img = image_bytes opt mtime vmlinux" "length vmlinux < 2 ^ 32"
    using mkimage_image [OF made(1)] made(2) boot(1) unfolding bootable_def by (metis drop0 option.inject)+
  then have len: "length img = HDR_SIZE + length vmlinux" by (simp add: image_bytes_def)
  then have clear': "clear_of hp ?p (length vmlinux)" using clear by simp
  note fields = image_fields [OF at [unfolded img(1)] img(2)]
  have ty: "bootm_type hp cmd argv (addr + of_nat HDR_SIZE) bt1 =
      Some (Inr (''Kernel Image'', addr + of_nat HDR_SIZE, of_nat (length vmlinux), bt1))"
    if "bt_mem bt1 = blanked hp ?p (bt_mem bt)" for bt1 :: "'a boot"
    using bootable_type_kernel [of bt1 hp] fields boot(2) by (simp add: that blanked_fields)
  obtain bt2 where bt2: "bt_mem bt2 = write_bytes (blanked hp ?p (bt_mem bt)) ?L vmlinux"
    "en_env (bt_env bt2) = en_env (bt_env bt)" "ih_type (bt_mem bt2) hp = mk_type opt"
    "ih_ep (bt_mem bt2) hp = entry_point opt"
    "do_bootm z bd bo hp cmd argv bt =
      do_bootm_linux bd bo hp argv (addr + of_nat HDR_SIZE) (bootm_verify (map_of vs (bytes ''verify''))) bt2"
    using boot_made_image [OF env(1) cmd(1) img(1,2) _ at clear' boot(1) _ ty, of 0 z bd] one boot(2) data_address [OF clear']
    by auto
  have env2: "env_holds bo (bt_env bt2) vs" using env_holds_same [OF bt2(2)] env(1) by simp
  have disk: "find_ramdisk hp argv lp v bt2 = Some (Inr (0, 0, bt2))" for lp v
    using cmd(2) bt2(3) boot(2) by (simp add: find_ramdisk_def ih_types)
  show ?thesis
    using linux_from_loaded [OF disk [of _ "bootm_verify (map_of vs (bytes ''verify''))"] bt2(4) env2 env(2) few room]
      apart bt2(1,5) read_write_bytes [of _ ?L vmlinux] by metis
qed

text \<open>
  C2. \<open>bootm\<close> does not start a damaged image: while the variable \<open>verify\<close> does not begin with \<open>n\<close>, an image in which
  some of at most 4 consecutive bytes were changed, but not both some of the first 8 bytes (the magic number and the
  stored checksum of the header) and some behind them, makes the command return 1, with no byte of memory changed but the
  copy of the header. So any single damaged byte is found, and any 4 consecutive bytes from the ninth on. Damage to the
  stored checksum and the time behind it together can go unnoticed (\<open>damage_across_checksum\<close> in \<open>Image\<close>). For an image
  of several files the listing of the table of sizes, which is printed before the data are verified, may also fail to end.
\<close>

theorem bootm_rejects_damage:
  assumes made: "mkimage opt fs mtime = Some img" and damage: "one_window img img'"
    and at: "read_bytes (bt_mem bt) (unat addr) (length img') = img'" and clear: "clear_of hp (unat addr) (length img' - HDR_SIZE)"
    and cmd: "bootm_addr argv bt = addr"
    and env: "env_holds bo (bt_env bt) vs" "bootm_verify (map_of vs (bytes ''verify''))"
  shows "case do_bootm z bd bo hp cmd argv bt of
      None \<Rightarrow> mk_type opt = IH_TYPE_MULTI
    | Some (r, bt') \<Rightarrow> r = Returned 1 \<and> (\<forall>a. a < hp \<or> hp + HDR_SIZE \<le> a \<longrightarrow> bt_mem bt' a = bt_mem bt a)"
proof -
  let ?p = "unat addr" and ?m = "bt_mem bt" and ?c = "bootm_check hp addr True bt"
  have len: "length img' = length img" using damage burst_length by (auto simp: one_window_def)
  obtain dat where img: "img = image_bytes opt mtime dat" "length dat < 2 ^ 32"
    "clear_of hp ?p (length dat)" "clear_of hp ?p (unat (of_nat (length dat) :: u32))"
    using made_image [OF made read_write_bytes clear [unfolded len]] by metis
  have verify: "getenv_val bo (bt_env bt) (bytes ''verify'') = Some (map_of vs (bytes ''verify''))"
    using env(1) by (intro getenv_val_map_of) (simp_all add: good_name_def)
  have start: "do_bootm z bd bo hp cmd argv bt = Some (Returned 1, bt')" if "?c = Some (Inl bt')" for bt'
    using that verify env(2) cmd by (simp add: do_bootm_def bootm_addr_def bootm_verify_def Let_def)
  have start0: "do_bootm z bd bo hp cmd argv bt = None" if "?c = None"
    using that verify env(2) cmd by (simp add: do_bootm_def bootm_addr_def bootm_verify_def Let_def)
  show ?thesis
  proof (cases "header_ok ?m ?p")
    case False
    then show ?thesis using bootm_check_bad_header [OF False, of hp True] start by auto
  next
    case True
    then have bad: "\<not> data_ok ?m ?p" "ih_size ?m ?p = of_nat (length dat)" "ih_type ?m ?p = mk_type opt"
      using damaged_image [OF img(1,2) damage at] by auto
    have check: "case ?c of None \<Rightarrow> mk_type opt = IH_TYPE_MULTI | Some (Inl bt') \<Rightarrow> bt_mem bt' = blanked hp ?p ?m | Some (Inr bt') \<Rightarrow> False"
    proof (cases ?c)
      case None
      then obtain out where "print_image_hdr (blanked hp ?p ?m) ?p out = None"
        using bootm_check_data [OF True, of hp True] img(4) bad(2) by auto
      then have "ih_type (blanked hp ?p ?m) ?p = IH_TYPE_MULTI"
        using print_image_hdr_ends [of "blanked hp ?p ?m" ?p _ out] by fastforce
      then show ?thesis
        using None blanked_image [OF img(3), of HDR_SIZE 30 ?m] bad(3) by (simp add: ih_defs HDR_SIZE_def)
    next
      case (Some r)
      then show ?thesis using bootm_check_data [OF True, of hp True] img(4) bad by (cases r) auto
    qed
    show ?thesis
    proof (cases ?c)
      case None
      then show ?thesis using check start0 by simp
    next
      case (Some r)
      then obtain bt' where "r = Inl bt'" using check by (cases r) auto
      then show ?thesis using Some check start [of bt'] blanked_other [of _ hp ?p ?m] by auto
    qed
  qed
qed

text \<open>The image of the theory \<open>Image\<close> at the address 0x1000, or a damaged one.\<close>

definition boot_at :: "byte list \<Rightarrow> unit boot" where
  "boot_at img = \<lparr>bt_env = env_boot\<lparr>en_load_addr := 0x1000\<rparr>, bt_mem = write_bytes (\<lambda>_. 0) 0x1000 img\<rparr>"

definition no_zlib :: zlib where
  "no_zlib = \<lparr>inflateInit2 = -1, inflate = \<lambda>m _ _ dst _. (-1, m, dst)\<rparr>"

lemma boot_at:
  "bootm_addr [bytes ''bootm''] (boot_at img) = 0x1000" "env_holds board0 (bt_env (boot_at img)) vars_boot"
  "read_bytes (bt_mem (boot_at img)) (unat (0x1000 :: u32)) (length img) = img"
  using env_holds_same [of "bt_env (boot_at img)" env_boot board0 vars_boot] env_boot_holds
    read_write_bytes [of "\<lambda>_. 0" "0x1000" img]
  by (simp_all add: bootm_addr_def boot_at_def)

lemma linux_bootable: "bootable linux_opts 1000 0x1000 (length [1, 2, 3, 4, 5 :: byte])" "mk_type linux_opts = IH_TYPE_KERNEL"
  by (simp_all add: bootable_def linux_opts_def HDR_SIZE_def)

theorem bootm_starts_kernel_witness:
  "\<exists>bt' env. do_bootm no_zlib bd0 board0 1000 (bytes ''bootm'') [bytes ''bootm''] (boot_at (image_bytes linux_opts 7 [1, 2, 3, 4, 5])) =
      Some (Start_kernel 0x80060004 4 0xa1000000 env 8, bt') \<and>
    read_bytes (bt_mem bt') 0x80060000 5 = [1, 2, 3, 4, 5]"
proof -
  let ?img = "image_bytes linux_opts 7 [1, 2, 3, 4, 5]" and ?line = "bytes ''a b''"
  have clear: "clear_of 1000 (unat (0x1000 :: u32)) (length ?img - HDR_SIZE)"
    using linux_image_clear by (simp add: length_linux_image)
  have data1: "one_file (mk_datafile linux_opts) = Some [1, 2, 3, 4, 5]" by (simp add: one_file_def linux_opts_def)
  have len5: "length [1, 2, 3, 4, 5 :: byte] = 5" by simp
  have line: "map_of vars_boot (bytes ''bootargs'') = Some ?line" by (simp add: vars_boot_def)
  have args: "length (kernel_args bd0 ?line) = 3" unfolding kernel_args_ab by simp
  have nums: "boot_area bd0 = 0xa1000000" "bi_flashsize bd0 div (1024 * 1024) = 8" "entry_point linux_opts = 0x80060004"
    "unat (mk_addr linux_opts) = 0x80060000"
    by (simp_all add: boot_area_def UNCACHED_SDRAM_def KSEG1ADDR_def bd0_def linux_opts_def entry_point_def)
  have "unat (mk_addr linux_opts) + length [1, 2, 3, 4, 5 :: byte] \<le> boot_area bd0" by (simp add: nums)
  from bootm_starts_kernel [OF linux_image data1 boot_at(3) clear linux_bootable boot_at(1) _ boot_at(2) line _ params_end_ab disjI1 [OF this],
      of no_zlib "bytes ''bootm''"]
  show ?thesis unfolding args nums len5 by (auto simp: args simp del: bytes_Cons)
qed

theorem bootm_rejects_damage_witness:
  "\<exists>img'. take 64 img' = take 64 (image_bytes linux_opts 7 [1, 2, 3, 4, 5]) \<and> drop 64 img' = [1, 9, 3, 4, 5] \<and>
     (case do_bootm no_zlib bd0 board0 1000 (bytes ''bootm'') [bytes ''bootm''] (boot_at img') of
        None \<Rightarrow> IH_TYPE_KERNEL = IH_TYPE_MULTI
      | Some (r, bt') \<Rightarrow> r = Returned 1 \<and> (\<forall>a. a < 1000 \<or> 1000 + HDR_SIZE \<le> a \<longrightarrow> bt_mem bt' a = bt_mem (boot_at img') a))"
proof -
  let ?img = "header_bytes (crc_of (header_bytes 0 linux_opts 7 [1, 2, 3, 4, 5])) linux_opts 7 [1, 2, 3, 4, 5] @ [1, 9, 3, 4, 5]"
  have len: "length ?img = 69" by (simp add: HDR_SIZE_def)
  have clear: "clear_of 1000 (unat (0x1000 :: u32)) (length ?img - HDR_SIZE)"
    using linux_image_clear by (simp only: len) simp
  have "bootm_verify (map_of vars_boot (bytes ''verify''))" by (simp add: bootm_verify_def vars_boot_def)
  from bootm_rejects_damage [OF linux_image linux_image_damaged boot_at(3) clear boot_at(1,2) this,
      of no_zlib bd0 "bytes ''bootm''"]
  show ?thesis unfolding linux_bootable(2) by (intro exI [of _ ?img]) (simp add: image_bytes_def HDR_SIZE_def)
qed

section \<open>Images of several files\<close>

lemma table_word:
  assumes "read_bytes m q (length (sizes_table ds)) = sizes_table ds" "i < length ds"
  shows "NetReadIP m (q + 4 * i) = of_nat (length (ds ! i))"
proof (rule NetReadIP_be32)
  have part: "i < length ds \<Longrightarrow> take 4 (drop (4 * i) (sizes_table ds)) = be32 (of_nat (length (ds ! i)))" for ds :: "byte list list" and i
  proof (induction ds arbitrary: i)
    case (Cons d ds)
    then show ?case by (cases i) (simp_all add: sizes_table_def)
  qed simp
  have "length (sizes_table ds) = 4 * length ds + 4" unfolding sizes_table_def by (induction ds) simp_all
  then show "read_bytes m (q + 4 * i) 4 = be32 (of_nat (length (ds ! i)))"
    using read_bytes_part [OF assms(1), of "4 * i" 4] assms(2) part [OF assms(2)] by simp
qed

lemma length_sizes_table [simp]: "length (sizes_table ds) = 4 * length ds + 4"
  unfolding sizes_table_def by (induction ds) simp_all

lemma skip_lengths_zero:
  "(\<And>j. j < k \<Longrightarrow> NetReadIP m (p + 4 * j) \<noteq> 0) \<Longrightarrow> NetReadIP m (p + 4 * k) = 0 \<Longrightarrow>
   skip_lengths m p dat = Some (dat + of_nat (4 * k))"
proof (induction k arbitrary: p dat)
  case 0
  then show ?case by (simp add: skip_lengths.simps)
next
  case (Suc k)
  have "NetReadIP m p \<noteq> 0" using Suc.prems(1) [of 0] by simp
  moreover have "skip_lengths m (p + 4) (dat + 4) = Some (dat + 4 + of_nat (4 * k))"
    using Suc.prems(1) [of "Suc _"] Suc.prems(2) by (intro Suc.IH) (simp_all add: algebra_simps)
  ultimately show ?case by (simp add: skip_lengths.simps [of m p] algebra_simps)
qed

lemma skip_table:
  assumes table: "read_bytes m q (length (sizes_table ds)) = sizes_table ds" and ds: "ds \<noteq> []" "\<And>d. d \<in> set ds \<Longrightarrow> d \<noteq> [] \<and> length d < 2 ^ 32"
  shows "skip_lengths m (q + 4) (dat + 8) = Some (dat + of_nat (length (sizes_table ds)))"
proof -
  have "NetReadIP m (q + 4 * Suc j) \<noteq> 0" if "Suc j < length ds" for j
  proof -
    have "unat (of_nat (length (ds ! Suc j)) :: u32) = length (ds ! Suc j)"
      using ds(2) nth_mem [OF that] by (simp add: unsigned_of_nat take_bit_nat_eq_self)
    then have "(of_nat (length (ds ! Suc j)) :: u32) \<noteq> 0" using ds(2) [OF nth_mem [OF that]] by force
    then show ?thesis using table_word [OF table that] by (simp only: simp_thms)
  qed
  moreover have "NetReadIP m (q + 4 * length ds) = 0" by (rule sizes_table_end [OF table])
  ultimately have "skip_lengths m (q + 4) (dat + 8) = Some (dat + 8 + of_nat (4 * (length ds - 1)))"
    using ds(1) by (intro skip_lengths_zero) (auto simp: algebra_simps Suc_diff_le neq_Nil_conv)
  moreover have "dat + 8 + of_nat (4 * (length ds - 1)) = dat + of_nat (length (sizes_table ds))"
    using ds(1) by (cases ds) simp_all
  ultimately show ?thesis by simp
qed

text \<open>Where the second file is: behind the table and the first file, filled up to a multiple of 4.\<close>

definition fill :: "byte list \<Rightarrow> nat" where
  "fill d = (if length d mod 4 = 0 then 0 else 4 - length d mod 4)"

lemma padded_two: "\<exists>rest. padded (d0 # d1 # ds) = d0 @ replicate (fill d0) 0 @ d1 @ rest"
  by (cases ds) (auto simp: fill_def)

lemma length_padded: "d \<in> set ds \<Longrightarrow> length d \<le> length (padded ds)"
  by (induction ds rule: padded.induct) auto

lemma fill_word:
  fixes x :: u32
  assumes "t < 4"
  shows "(if (of_nat t :: u32) \<noteq> 0 then x + (4 - of_nat t) else x) = x + of_nat (if t = 0 then 0 else 4 - t)"
proof -
  consider "t = 0" | "t = 1" | "t = 2" | "t = 3" using assms by linarith
  then show ?thesis by cases simp_all
qed

lemma second_file_table:
  assumes table: "read_bytes m (unat lp) (length (sizes_table (d0 # d1 # ds))) = sizes_table (d0 # d1 # ds)"
    and ds: "\<And>d. d \<in> set (d0 # d1 # ds) \<Longrightarrow> d \<noteq> [] \<and> length d < 2 ^ 32"
  shows "second_file lp m =
    Some (lp + of_nat (length (sizes_table (d0 # d1 # ds)) + length d0 + fill d0), of_nat (length d1))"
proof -
  have words: "NetReadIP m (unat lp) = of_nat (length d0)" "NetReadIP m (unat lp + 4) = of_nat (length d1)"
    using table_word [OF table, of 0] table_word [OF table, of 1] by simp_all
  have d0: "unat (of_nat (length d0) mod 4 :: u32) = length d0 mod 4"
    using ds [of d0] by (simp add: unat_mod unsigned_of_nat take_bit_nat_eq_self)
  have "length d0 mod 4 < 2 ^ 32" by (rule less_trans [OF mod_less_divisor]) simp_all
  then have "unat (of_nat (length d0 mod 4) :: u32) = length d0 mod 4"
    by (simp add: unsigned_of_nat take_bit_nat_eq_self)
  then have tail: "(of_nat (length d0) :: u32) mod 4 = of_nat (length d0 mod 4)"
    using d0 by (simp add: word_unat_eq_iff)
  have full: "(if (of_nat (length d0 mod 4) :: u32) \<noteq> 0 then x + (4 - of_nat (length d0 mod 4)) else x) =
      x + of_nat (fill d0)" for x :: u32
    unfolding fill_def by (rule fill_word) (rule mod_less_divisor, simp)
  have skip: "skip_lengths m (unat lp + 4) (lp + 8) = Some (lp + of_nat (length (sizes_table (d0 # d1 # ds))))"
    by (rule skip_table [OF table]) (use ds in auto)
  show ?thesis unfolding second_file_def Let_def words tail skip option.case full by (simp only: of_nat_add add.assoc)
qed

lemma fill_round: "length d + fill d = (length d + 3) div 4 * 4"
  unfolding fill_def by presburger

lemma bootm_type_multi:
  assumes "ih_type (bt_mem bt) hp = IH_TYPE_MULTI"
    and table: "read_bytes (bt_mem bt) (unat lp) (length (sizes_table (d0 # ds))) = sizes_table (d0 # ds)"
    and ds: "\<And>d. d \<in> set (d0 # ds) \<Longrightarrow> d \<noteq> [] \<and> length d < 2 ^ 32"
  shows "bootm_type hp cmd argv lp bt =
    Some (Inr (''Multi-File Image'', lp + of_nat (length (sizes_table (d0 # ds))), of_nat (length d0), bt))"
proof -
  have "skip_lengths (bt_mem bt) (unat lp + 4) (lp + 8) = Some (lp + of_nat (length (sizes_table (d0 # ds))))"
    by (rule skip_table [OF table]) (use ds in auto)
  moreover have "NetReadIP (bt_mem bt) (unat lp) = of_nat (length d0)" using table_word [OF table, of 0] by simp
  moreover have "IH_TYPE_MULTI \<noteq> IH_TYPE_STANDALONE" "IH_TYPE_MULTI \<noteq> IH_TYPE_KERNEL" by (simp_all add: ih_types)
  ultimately show ?thesis unfolding bootm_type_def Let_def assms(1) by (simp only: if_False if_True option.case refl)
qed

text \<open>What \<open>mkimage\<close> makes of several files.\<close>

lemma table_image:
  assumes made: "mkimage opt fs mtime = Some img" "map fs (file_names (mk_datafile opt)) = map Some ds"
    and len: "length img \<le> 2 ^ 32" and opt: "several opt" "\<not> mk_xflag opt"
  shows "img = image_bytes opt mtime (sizes_table ds @ padded ds)" "length (sizes_table ds @ padded ds) < 2 ^ 32"
    and "d \<in> set ds \<Longrightarrow> d \<noteq> [] \<and> length d < 2 ^ 32"
proof -
  from mkimage_image [OF made(1) len] opt obtain dat es where img: "img = image_bytes opt mtime dat" "length dat < 2 ^ 32"
    "map fs (file_names (mk_datafile opt)) = map Some es" "[] \<notin> set es" "dat = sizes_table es @ padded es" by metis
  have "map Some es = map Some ds" using img(3) made(2) by simp
  then have es: "es = ds" by (metis inj_Some inj_map_eq_map)
  show "img = image_bytes opt mtime (sizes_table ds @ padded ds)" "length (sizes_table ds @ padded ds) < 2 ^ 32"
    using img(1,2,5) unfolding es by simp_all
  show "d \<noteq> [] \<and> length d < 2 ^ 32" if "d \<in> set ds"
    using that img(2,4,5) length_padded [OF that] unfolding es by auto
qed

definition several_data :: "byte list \<Rightarrow> byte list \<Rightarrow> byte list list \<Rightarrow> byte list \<Rightarrow> byte list" where
  "several_data d0 d1 ds rest = sizes_table (d0 # d1 # ds) @ d0 @ replicate (fill d0) 0 @ d1 @ rest"

lemma several_image:
  assumes made: "mkimage opt fs mtime = Some img" "map fs (file_names (mk_datafile opt)) = map Some (d0 # d1 # ds)"
    and len: "length img \<le> 2 ^ 32" and opt: "mk_type opt = IH_TYPE_MULTI" "\<not> mk_xflag opt"
  obtains rest where "img = image_bytes opt mtime (several_data d0 d1 ds rest)"
    "\<And>d. d \<in> set (d0 # d1 # ds) \<Longrightarrow> d \<noteq> [] \<and> length d < 2 ^ 32"
    "length img = HDR_SIZE + length (several_data d0 d1 ds rest)"
proof -
  obtain rest where rest: "padded (d0 # d1 # ds) = d0 @ replicate (fill d0) 0 @ d1 @ rest" using padded_two by blast
  have "several opt" using opt(1) by (simp add: several_def)
  note img = table_image [OF made len this opt(2)]
  have "img = image_bytes opt mtime (several_data d0 d1 ds rest)" using img(1) unfolding several_data_def rest by simp
  then show ?thesis using that [of rest] img(3) by (simp add: image_bytes_def)
qed

lemma image_address:
  "clear_of hp (unat (addr :: u32)) n \<Longrightarrow> k \<le> n \<Longrightarrow> unat (addr + of_nat HDR_SIZE + of_nat k) = unat addr + HDR_SIZE + k"
proof -
  assume clear: "clear_of hp (unat addr) n" and k: "k \<le> n"
  then have small: "unat addr + HDR_SIZE + k < 2 ^ 32" by (simp add: clear_of_def)
  then have "unat (of_nat k :: u32) = k" by (simp add: unsigned_of_nat take_bit_nat_eq_self)
  then show ?thesis
    using small by (subst unat_add_lem [THEN iffD1]) (simp_all add: data_address [OF clear])
qed

lemma image_part:
  "read_bytes m p (length (image_bytes opt mtime dat)) = image_bytes opt mtime dat \<Longrightarrow> k + j \<le> length dat \<Longrightarrow>
   read_bytes m (p + HDR_SIZE + k) j = take j (drop k dat)"
  using read_bytes_part [of m p "length (image_bytes opt mtime dat)" "image_bytes opt mtime dat" "HDR_SIZE + k" j]
  by (simp add: image_bytes_def add.assoc)

lemma several_parts:
  assumes at: "read_bytes m p (length (image_bytes opt mtime (several_data d0 d1 ds rest))) =
      image_bytes opt mtime (several_data d0 d1 ds rest)"
  shows "read_bytes m (p + HDR_SIZE) (length (sizes_table (d0 # d1 # ds))) = sizes_table (d0 # d1 # ds)"
    and "read_bytes m (p + HDR_SIZE + (length (sizes_table (d0 # d1 # ds)) + length d0 + fill d0)) (length d1) = d1"
  using image_part [OF at, of 0 "length (sizes_table (d0 # d1 # ds))"]
    image_part [OF at, of "length (sizes_table (d0 # d1 # ds)) + length d0 + fill d0" "length d1"]
  unfolding several_data_def by (simp_all add: add.assoc del: length_sizes_table)

text \<open>The second file is found as the ramdisk while the image is in memory.\<close>

lemma several_ramdisk:
  assumes at: "read_bytes (bt_mem bt) (unat addr) (length (image_bytes opt mtime (several_data d0 d1 ds rest))) =
      image_bytes opt mtime (several_data d0 d1 ds rest)"
    and clear: "clear_of hp (unat addr) (length (several_data d0 d1 ds rest))"
    and ds: "\<And>d. d \<in> set (d0 # d1 # ds) \<Longrightarrow> d \<noteq> [] \<and> length d < 2 ^ 32"
    and ty: "ih_type (bt_mem bt) hp = IH_TYPE_MULTI" and argv: "length argv < 3"
    and pos: "pos = unat addr + HDR_SIZE + 4 * (length ds + 3) + (length d0 + 3) div 4 * 4"
  shows "find_ramdisk hp argv (addr + of_nat HDR_SIZE) v bt = Some (Inr (of_nat pos, of_nat (length d1), bt))"
    and "read_bytes (bt_mem bt) pos (length d1) = d1"
proof -
  let ?lp = "addr + of_nat HDR_SIZE" and ?k = "length (sizes_table (d0 # d1 # ds)) + length d0 + fill d0"
  note lp = data_address [OF clear]
  have table: "read_bytes (bt_mem bt) (unat ?lp) (length (sizes_table (d0 # d1 # ds))) = sizes_table (d0 # d1 # ds)"
    using several_parts(1) [OF at] lp by simp
  have pos_k: "pos = unat addr + HDR_SIZE + ?k" using fill_round [of d0] by (simp add: pos)
  then have pos_word: "?lp + of_nat ?k = of_nat pos" by (simp add: algebra_simps)
  have "unat (of_nat (length d1) :: u32) = length d1"
    using ds [of d1] by (simp add: unsigned_of_nat take_bit_nat_eq_self)
  then have "(of_nat (length d1) :: u32) \<noteq> 0" using ds [of d1] by force
  then have "NetReadIP (bt_mem bt) (unat ?lp + 4) \<noteq> 0" using table_word [OF table, of 1] by simp
  then show "find_ramdisk hp argv ?lp v bt = Some (Inr (of_nat pos, of_nat (length d1), bt))"
    using argv ty second_file_table [OF table ds] pos_word
    by (simp add: find_ramdisk_def del: length_sizes_table of_nat_add)
  show "read_bytes (bt_mem bt) pos (length d1) = d1" using several_parts(2) [OF at] by (simp only: pos_k)
qed

text \<open>The loaded first file starts, and the image stays as it is.\<close>

lemma boot_several:
  fixes bt :: "'c boot"
  assumes img: "img = image_bytes opt mtime (several_data d0 d1 ds rest)"
    and ds: "\<And>d. d \<in> set (d0 # d1 # ds) \<Longrightarrow> d \<noteq> [] \<and> length d < 2 ^ 32"
    and at: "read_bytes (bt_mem bt) (unat addr) (length img) = img"
    and clear: "clear_of hp (unat addr) (length (several_data d0 d1 ds rest))"
    and boot: "bootable opt hp addr (length d0)" "mk_type opt = IH_TYPE_MULTI"
    and load: "unat addr + length img \<le> unat (mk_addr opt) \<or> unat (mk_addr opt) + length d0 \<le> unat addr"
    and cmd: "bootm_addr argv bt = addr" and env: "env_holds bo (bt_env bt) vs"
  shows "\<exists>bt2. read_bytes (bt_mem bt2) (unat (mk_addr opt)) (length d0) = d0 \<and>
    read_bytes (bt_mem bt2) (unat addr) (length img) = img \<and> env_holds bo (bt_env bt2) vs \<and>
    ih_type (bt_mem bt2) hp = IH_TYPE_MULTI \<and> ih_ep (bt_mem bt2) hp = entry_point opt \<and>
    do_bootm z bd bo hp cmd argv bt =
      do_bootm_linux bd bo hp argv (addr + of_nat HDR_SIZE) (bootm_verify (map_of vs (bytes ''verify''))) bt2"
proof -
  let ?p = "unat addr" and ?dat = "several_data d0 d1 ds rest" and ?lp = "addr + of_nat HDR_SIZE"
  let ?T = "length (sizes_table (d0 # d1 # ds))" and ?m = "blanked hp (unat addr) (bt_mem bt)"
  have dlen: "length ?dat < 2 ^ 32" using clear by (simp add: clear_of_def)
  have at': "read_bytes ?m ?p (length img) = img"
    using clear_image [OF clear] at by (simp add: img image_bytes_def)
  note fields = image_fields [OF at [unfolded img] dlen]
  have ty: "bootm_type hp cmd argv ?lp bt1 = Some (Inr (''Multi-File Image'', ?lp + of_nat ?T, of_nat (length d0), bt1))"
    if "bt_mem bt1 = ?m" for bt1 :: "'c boot"
    by (rule bootm_type_multi [OF _ _ ds])
      (use several_parts(1) [OF at' [unfolded img]] fields boot(2) data_address [OF clear] in \<open>simp_all add: that blanked_fields del: length_sizes_table\<close>)
  have k: "?T + length d0 \<le> length ?dat" "take (length d0) (drop ?T ?dat) = d0"
    unfolding several_data_def by (simp_all del: length_sizes_table)
  have sev: "\<exists>es rest'. ?dat = sizes_table es @ rest'" unfolding several_data_def by (intro exI) (rule refl)
  obtain bt2 where bt2: "bt_mem bt2 = write_bytes ?m (unat (mk_addr opt)) d0"
    "en_env (bt_env bt2) = en_env (bt_env bt)" "ih_type (bt_mem bt2) hp = IH_TYPE_MULTI"
    "ih_ep (bt_mem bt2) hp = entry_point opt"
    "do_bootm z bd bo hp cmd argv bt =
      do_bootm_linux bd bo hp argv ?lp (bootm_verify (map_of vs (bytes ''verify''))) bt2"
    using boot_made_image [OF env cmd img dlen sev at clear boot(1) _ ty, of ?T z bd] boot(2) k
      image_address [OF clear add_leD1 [OF k(1)]] by auto
  have "read_bytes (bt_mem bt2) ?p (length img) = read_bytes ?m ?p (length img)"
    unfolding bt2(1) using load by (intro read_bytes_cong write_bytes_other) auto
  then show ?thesis
    using bt2 at' env_holds_same [OF bt2(2)] env by (intro exI [of _ bt2]) simp
qed

text \<open>
  C9. An image of several files: the first, the kernel, is moved to its load address and started; the second is the initial ramdisk.
  It is still in the image, behind the table of sizes and the first file with the zeros that \<open>mkimage\<close> filled it up with to a multiple
  of 4, and the kernel is told where (the uncached address) and its length. The load address is outside the image.
\<close>

theorem bootm_starts_multi:
  assumes made: "mkimage opt fs mtime = Some img" "map fs (file_names (mk_datafile opt)) = map Some (vmlinux # initrd # extra)"
    and at: "read_bytes (bt_mem bt) (unat addr) (length img) = img" and clear: "clear_of hp (unat addr) (length img - HDR_SIZE)"
    and boot: "bootable opt hp addr (length vmlinux)" "mk_type opt = IH_TYPE_MULTI"
    and load: "unat addr + length img \<le> unat (mk_addr opt) \<or> unat (mk_addr opt) + length vmlinux \<le> unat addr"
    and cmd: "bootm_addr argv bt = addr" "length argv < 3"
    and env: "env_holds bo (bt_env bt) vs" "map_of vs (bytes ''bootargs'') = Some line"
    and pos: "pos = unat addr + HDR_SIZE + 4 * (length extra + 3) + (length vmlinux + 3) div 4 * 4"
    and few: "length (kernel_args bd line) \<le> 255" and room: "params_end bd line (of_nat pos) (of_nat (length initrd)) \<le> 2 ^ 32"
    and apart: "unat (mk_addr opt) + length vmlinux \<le> boot_area bd \<or>
        params_end bd line (of_nat pos) (of_nat (length initrd)) \<le> unat (mk_addr opt)"
      "unat addr + length img \<le> boot_area bd \<or> params_end bd line (of_nat pos) (of_nat (length initrd)) \<le> unat addr"
  shows "\<exists>bt'. do_bootm z bd bo hp cmd argv bt =
      Some (Start_kernel (entry_point opt) (Suc (length (kernel_args bd line))) (boot_area bd) (env_at bd line)
        (bi_flashsize bd div (1024 * 1024)), bt') \<and>
    read_bytes (bt_mem bt') (unat (mk_addr opt)) (length vmlinux) = vmlinux \<and>
    read_bytes (bt_mem bt') pos (length initrd) = initrd \<and>
    strings_at (bt_mem bt') (boot_area bd + 4) (kernel_args bd line) \<and>
    strings_at (bt_mem bt') (env_at bd line) (kernel_env bd (of_nat pos) (of_nat (length initrd)))"
proof -
  let ?p = "unat addr" and ?L = "unat (mk_addr opt)" and ?lp = "addr + of_nat HDR_SIZE"
  have "length img \<le> 2 ^ 32" using clear unfolding clear_of_def HDR_SIZE_def by linarith
  from several_image [OF made this boot(2)] obtain rest
    where img: "img = image_bytes opt mtime (several_data vmlinux initrd extra rest)"
      and ds: "\<And>d. d \<in> set (vmlinux # initrd # extra) \<Longrightarrow> d \<noteq> [] \<and> length d < 2 ^ 32"
      and len: "length img = HDR_SIZE + length (several_data vmlinux initrd extra rest)"
    using boot(1) unfolding bootable_def by metis
  have clear': "clear_of hp ?p (length (several_data vmlinux initrd extra rest))" using clear len by simp
  obtain bt2 where bt2: "read_bytes (bt_mem bt2) ?L (length vmlinux) = vmlinux" "read_bytes (bt_mem bt2) ?p (length img) = img"
    "env_holds bo (bt_env bt2) vs" "ih_type (bt_mem bt2) hp = IH_TYPE_MULTI" "ih_ep (bt_mem bt2) hp = entry_point opt"
    "do_bootm z bd bo hp cmd argv bt = do_bootm_linux bd bo hp argv ?lp (bootm_verify (map_of vs (bytes ''verify''))) bt2"
    using boot_several [OF img ds at clear' boot load cmd(1) env(1)] by metis
  note disk = several_ramdisk [OF bt2(2) [unfolded img] clear' ds bt2(4) cmd(2) pos]
  have "?p \<le> pos" "pos + length initrd \<le> ?p + length img"
    using fill_round [of vmlinux] unfolding pos len several_data_def by simp_all
  then have "pos + length initrd \<le> boot_area bd \<or> params_end bd line (of_nat pos) (of_nat (length initrd)) \<le> pos"
    using apart(2) by linarith
  then show ?thesis
    using linux_from_loaded [OF disk(1) bt2(5,3) env(2) few room, of "bootm_verify (map_of vs (bytes ''verify''))"]
      apart(1) bt2(1,6) disk(2) by metis
qed

definition multi_opts :: "mk_opts" where
  "multi_opts = linux_opts\<lparr>mk_type := IH_TYPE_MULTI, mk_datafile := bytes ''k:r''\<rparr>"

definition two_files :: "files" where
  "two_files name = (if name = bytes ''k'' then Some [1, 2, 3, 4, 5] else if name = bytes ''r'' then Some [6, 7, 8] else None)"

abbreviation multi_img :: "byte list" where
  "multi_img \<equiv> image_bytes multi_opts 7 (several_data [1, 2, 3, 4, 5] [6, 7, 8] [] [])"

lemma multi_names: "after_colon (bytes ''k:r'') = Some (bytes ''r'')" "after_colon (bytes ''r'') = None"
  "file_name (bytes ''k:r'') = bytes ''k''" "file_name (bytes ''r'') = bytes ''r''"
  by (simp_all add: after_colon_def file_name_def COLON_def)

lemma multi_files: "two_files (bytes ''k'') = Some [1, 2, 3, 4, 5]" "two_files (bytes ''r'') = Some [6, 7, 8]"
  by (simp_all add: two_files_def)

lemma multi_image: "mkimage multi_opts two_files 7 = Some multi_img"
proof -
  have opt: "mk_type multi_opts = IH_TYPE_MULTI" "mk_datafile multi_opts = bytes ''k:r''" "\<not> mk_xflag multi_opts"
    by (simp_all add: multi_opts_def linux_opts_def)
  have "write_sizes two_files (Some (bytes ''k:r'')) ifd = Some (ifd @ sizes_table [[1, 2, 3, 4, 5], [6, 7, 8]])" for ifd
    unfolding write_sizes.simps multi_names multi_files option.case by (simp add: sizes_table_def)
  moreover have "write_files multi_opts two_files (bytes ''k:r'') ifd =
      Some (ifd @ [1, 2, 3, 4, 5] @ replicate (fill [1, 2, 3, 4, 5]) 0 @ [6, 7, 8])" for ifd
    unfolding write_files.simps [of _ _ "bytes _"] multi_names multi_files option.case
    by (simp add: copy_file_def multi_files opt fill_def Let_def del: bytes_Cons)
  ultimately show ?thesis
    using build_header_image [of "several_data [1, 2, 3, 4, 5] [6, 7, 8] [] []" multi_opts 7]
    by (simp add: mkimage_def opt Let_def several_data_def fill_def del: bytes_Cons write_sizes.simps)
qed

lemma length_multi_img: "length multi_img = 87"
  by (simp add: image_bytes_def HDR_SIZE_def several_data_def fill_def)

theorem bootm_starts_multi_witness:
  "\<exists>bt' env. do_bootm no_zlib bd0 board0 1000 (bytes ''bootm'') [bytes ''bootm''] (boot_at multi_img) =
      Some (Start_kernel 0x80060004 4 0xa1000000 env 8, bt') \<and>
    read_bytes (bt_mem bt') 0x80060000 5 = [1, 2, 3, 4, 5] \<and> read_bytes (bt_mem bt') 0x1054 3 = [6, 7, 8] \<and>
    strings_at (bt_mem bt') env (kernel_env bd0 0x1054 3)"
proof -
  let ?line = "bytes ''a b''"
  have clear: "clear_of 1000 (unat (0x1000 :: u32)) (length multi_img - HDR_SIZE)"
    unfolding length_multi_img by (simp add: clear_of_def HDR_SIZE_def)
  have "file_names (bytes ''k:r'') = [bytes ''k'', bytes ''r'']"
    by (simp add: file_names.simps [of "bytes _"] multi_names del: bytes_Cons)
  then have names: "map two_files (file_names (mk_datafile multi_opts)) = map Some [[1, 2, 3, 4, 5], [6, 7, 8]]"
    by (simp add: multi_opts_def multi_files del: bytes_Cons)
  have boot: "bootable multi_opts 1000 0x1000 (length [1, 2, 3, 4, 5 :: byte])" "mk_type multi_opts = IH_TYPE_MULTI"
    by (simp_all add: bootable_def multi_opts_def linux_opts_def HDR_SIZE_def)
  have line: "map_of vars_boot (bytes ''bootargs'') = Some ?line" by (simp add: vars_boot_def)
  have args: "length (kernel_args bd0 ?line) = 3" unfolding kernel_args_ab by simp
  have nums: "boot_area bd0 = 0xa1000000" "bi_flashsize bd0 div (1024 * 1024) = 8" "entry_point multi_opts = 0x80060004"
    "unat (mk_addr multi_opts) = 0x80060000"
    by (simp_all add: boot_area_def UNCACHED_SDRAM_def KSEG1ADDR_def bd0_def multi_opts_def linux_opts_def entry_point_def)
  have pos: "0x1054 = unat (0x1000 :: u32) + HDR_SIZE + 4 * (length ([] :: byte list list) + 3) + (length [1, 2, 3, 4, 5 :: byte] + 3) div 4 * 4"
    by (simp add: HDR_SIZE_def)
  have len: "length [1, 2, 3, 4, 5 :: byte] = 5" "length [6, 7, 8 :: byte] = 3" by simp_all
  have apart: "unat (0x1000 :: u32) + length multi_img \<le> unat (mk_addr multi_opts)"
    "unat (mk_addr multi_opts) + length [1, 2, 3, 4, 5 :: byte] \<le> boot_area bd0" "unat (0x1000 :: u32) + length multi_img \<le> boot_area bd0"
    unfolding length_multi_img by (simp_all add: nums)
  from bootm_starts_multi [OF multi_image names boot_at(3) clear boot disjI1 [OF apart(1)] boot_at(1) _ boot_at(2) line pos _ params_end_ab
      disjI1 [OF apart(2)] disjI1 [OF apart(3)], of no_zlib "bytes ''bootm''"]
  show ?thesis unfolding args nums len by (auto simp: args simp del: bytes_Cons)
qed

end
