(* ===== verification/Autoscript.thy ===== *)
theory Autoscript imports Shell Bootm begin

text \<open>
  Scripts in images, \<open>common/cmd_autoscript.c\<close>: \<open>autoscript\<close> verifies an image of the type \<open>IH_TYPE_SCRIPT\<close> (theory \<open>Image\<close>) and runs
  the lines of its first file with \<open>run_command\<close> (theory \<open>Shell\<close>), the port without \<open>CFG_HUSH_PARSER\<close>.

  The state is that of the command interpreter and memory. The script is copied before its first line runs: what the commands
  do to memory, which the state of the interpreter does not have, cannot change it. Whether \<open>malloc\<close> has room for so many bytes is an
  argument, as is \<open>CFG_LOAD_ADDR\<close>.
\<close>

abbreviation NL :: byte where "NL \<equiv> 10"

text \<open>The loop over the text: \<open>line\<close> are the characters from the variable \<open>line\<close> up to \<open>next\<close>.\<close>

fun run_script ::
    "('f, 'c) port \<Rightarrow> ('f, 'c) cmd_fun \<Rightarrow> byte list \<Rightarrow> byte list \<Rightarrow> 'c shell \<Rightarrow> (int \<times> 'c shell) option" where
  "run_script po ex line [] st = Some (0, st)"
| "run_script po ex line (c # cs) st =
     (if c = NL then
        if length line > 1
        then (case run_command po ex (Some line) 0 st of
                None \<Rightarrow> None
              | Some (r, st) \<Rightarrow> if r < 0 then Some (1, st) else run_script po ex [] cs st)
        else run_script po ex [] cs st
      else run_script po ex (line @ [c]) cs st)"

definition autoscript ::
    "('f, 'c) port \<Rightarrow> ('f, 'c) cmd_fun \<Rightarrow> (nat \<Rightarrow> bool) \<Rightarrow> nat \<Rightarrow> u32 \<Rightarrow> 'c shell \<Rightarrow> mem \<Rightarrow> (int \<times> 'c shell \<times> mem) option" where
  "autoscript po ex room hp addr st m =
     (case getenv_val (po_board po) (sh_env st) (bytes ''verify'') of None \<Rightarrow> None | Some cmd \<Rightarrow>
      let verify = (case cmd of None \<Rightarrow> True | Some s \<Rightarrow> peek s \<noteq> chr CHR ''n'');
          m = fst (memmove m hp (unat addr) HDR_SIZE)
      in if ih_magic m hp \<noteq> IH_MAGIC then Some (1, sh_print (puts (''Bad magic number'' @ nl)) st, m)
         else
           let crc = ih_hcrc m hp;
               m = write_bytes m (hp + 4) (be32 0)
           in if crc32 m 0 hp HDR_SIZE \<noteq> crc then Some (1, sh_print (puts (''Bad header crc'' @ nl)) st, m)
              else
                let dat = addr + of_nat HDR_SIZE;
                    len = ih_size m hp
                in if verify \<and> crc32 m 0 (unat dat) (unat len) \<noteq> ih_dcrc m hp
                   then Some (1, sh_print (puts (''Bad data crc'' @ nl)) st, m)
                   else if ih_type m hp \<noteq> IH_TYPE_SCRIPT then Some (1, sh_print (puts (''Bad image type'' @ nl)) st, m)
                   else
                     let len = NetReadIP m (unat dat) in
                     if len = 0 then Some (1, sh_print (puts (''Empty Script'' @ nl)) st, m)
                     else if \<not> room (unat (len + 1)) then Some (1, st, m)
                     else case skip_lengths m (unat dat) dat of
                       None \<Rightarrow> None
                     | Some p \<Rightarrow>
                         let script = takeWhile (\<lambda>c. c \<noteq> 0) (read_bytes m (unat (p + 4)) (unat len))
                         in map_option (\<lambda>(r, st). (r, st, m)) (run_script po ex [] script st))"

definition do_autoscript ::
    "('f, 'c) port \<Rightarrow> ('f, 'c) cmd_fun \<Rightarrow> (nat \<Rightarrow> bool) \<Rightarrow> nat \<Rightarrow> u32 \<Rightarrow> byte list list \<Rightarrow> 'c shell \<Rightarrow> mem \<Rightarrow>
      (int \<times> 'c shell \<times> mem) option" where
  "do_autoscript po ex room hp load argv st m =
     (let addr = (if length argv < 2 then load else fst (simple_strtoul (argv ! 1) 16))
      in autoscript po ex room hp addr (sh_print (printf (''## Executing script at %08lx'' @ nl) [ArgInt addr]) st) m)"

section \<open>The lines that run\<close>

text \<open>Reference: the lines that end with a newline; of these, the ones of two characters or more run until one fails.\<close>

function full_lines :: "byte list \<Rightarrow> byte list list" where
  "full_lines s = (if NL \<in> set s then takeWhile (\<lambda>c. c \<noteq> NL) s # full_lines (tl (dropWhile (\<lambda>c. c \<noteq> NL) s)) else [])"
  by pat_completeness auto
termination
proof (relation "measure length")
  fix s :: "byte list"
  assume "NL \<in> set s"
  then have "dropWhile (\<lambda>c. c \<noteq> NL) s \<noteq> []" by (auto simp: dropWhile_eq_Nil_conv)
  then show "(tl (dropWhile (\<lambda>c. c \<noteq> NL) s), s) \<in> measure length"
    using length_dropWhile_le [of "\<lambda>c. c \<noteq> NL" s] by (cases "dropWhile (\<lambda>c. c \<noteq> NL) s") auto
qed simp

declare full_lines.simps [simp del]

fun run_lines :: "('f, 'c) port \<Rightarrow> ('f, 'c) cmd_fun \<Rightarrow> byte list list \<Rightarrow> 'c shell \<Rightarrow> (int \<times> 'c shell) option" where
  "run_lines po ex [] st = Some (0, st)"
| "run_lines po ex (line # ls) st =
     (case run_command po ex (Some line) 0 st of
        None \<Rightarrow> None
      | Some (r, st) \<Rightarrow> if r < 0 then Some (1, st) else run_lines po ex ls st)"

lemma full_lines_simps [simp]: "full_lines [] = []" "full_lines (NL # s) = [] # full_lines s"
  by (simp_all add: full_lines.simps)

lemma full_lines_line: "NL \<notin> set line \<Longrightarrow> full_lines (line @ NL # s) = line # full_lines s"
  by (subst full_lines.simps) (induction line, auto)

lemma run_script_line: "NL \<notin> set t \<Longrightarrow> run_script po ex line (t @ s) st = run_script po ex (line @ t) s st"
  by (induction t arbitrary: line) auto

lemma run_script_lines: "run_script po ex [] s st = run_lines po ex (filter (\<lambda>l. 1 < length l) (full_lines s)) st"
proof (induction s arbitrary: st rule: full_lines.induct)
  case (1 s)
  show ?case
  proof (cases "NL \<in> set s")
    case False
    then show ?thesis using run_script_line [OF False, of po ex "[]" "[]"] by (simp add: full_lines.simps)
  next
    case True
    then obtain line rest where s: "s = line @ NL # rest" "NL \<notin> set line" by (metis split_list_first)
    have "tl (dropWhile (\<lambda>c. c \<noteq> NL) s) = rest" using s(2) unfolding s(1) by (induction line) auto
    then have IH: "run_script po ex [] rest st = run_lines po ex (filter (\<lambda>l. 1 < length l) (full_lines rest)) st" for st
      using 1 True by simp
    show ?thesis using s full_lines_line [OF s(2), of rest]
      by (simp add: run_script_line IH split: option.split)
  qed
qed

text \<open>The last line is lost when no newline ends it, and so is a line of one character, for example the command \<open>?\<close>.\<close>

lemma last_line_lost: "NL \<notin> set t \<Longrightarrow> run_script po ex [] (s @ NL # t) st = run_script po ex [] (s @ [NL]) st"
proof -
  assume t: "NL \<notin> set t"
  have "full_lines (s @ NL # t) = full_lines (s @ [NL])"
  proof (induction s rule: length_induct)
    case (1 s)
    show ?case
    proof (cases "NL \<in> set s")
      case False
      then show ?thesis using t full_lines_line [OF False] by (simp add: full_lines.simps)
    next
      case True
      then obtain u v where "s = u @ NL # v" "NL \<notin> set u" by (metis split_list_first)
      then show ?thesis using 1 by (simp add: full_lines_line)
    qed
  qed
  then show ?thesis by (simp add: run_script_lines)
qed

section \<open>Scripts that \<open>mkimage\<close> made\<close>

lemma autoscript_verified:
  fixes addr :: u32
  assumes verify: "getenv_val (po_board po) (sh_env st) (bytes ''verify'') = Some v"
    and ok: "header_ok m (unat addr)" "data_ok m (unat addr)" "clear_of hp (unat addr) (unat (ih_size m (unat addr)))"
    and ty: "ih_type m (unat addr) = IH_TYPE_SCRIPT"
    and first: "NetReadIP (blanked hp (unat addr) m) (unat addr + HDR_SIZE) = len" "len \<noteq> 0" "room (unat (len + 1))"
    and skip: "skip_lengths (blanked hp (unat addr) m) (unat addr + HDR_SIZE) (addr + of_nat HDR_SIZE) = Some p"
    and chars: "takeWhile (\<lambda>c. c \<noteq> 0) (read_bytes (blanked hp (unat addr) m) (unat (p + 4)) (unat len)) = script"
  shows "autoscript po ex room hp addr st m =
    map_option (\<lambda>(r, st). (r, st, blanked hp (unat addr) m)) (run_script po ex [] script st)"
proof -
  let ?m = "blanked hp (unat addr) m"
  have "read_bytes ?m (unat addr + HDR_SIZE) (unat (ih_size m (unat addr))) = image_data m (unat addr)"
    using read_blanked [OF ok(3), of HDR_SIZE] by (simp add: image_data_def)
  then have crc: "crc32 ?m 0 (unat addr + HDR_SIZE) (unat (ih_size m (unat addr))) = ih_dcrc m (unat addr)"
    using ok(2) by (simp add: crc32_crc_of data_ok_def)
  show ?thesis
    using verify ok(1) ty first skip chars
    by (simp add: autoscript_def Let_def memmove_fetched fetched_fields blanked_fetched crc32_blanked header_ok_def
        blanked_fields data_address [OF ok(3)] crc)
qed

lemma small_word: "n < 2 ^ 32 \<Longrightarrow> unat (of_nat n :: u32) = n"
  by (simp add: unsigned_of_nat take_bit_nat_eq_self)

lemma padded_first: "\<exists>rest. padded (d # ds) = d @ rest"
  by (cases ds) auto

text \<open>The first file behind the table of sizes.\<close>

lemma first_file:
  fixes addr :: u32
  assumes at: "read_bytes m (unat addr) (length (image_bytes opt mtime (sizes_table (d # ds) @ d @ rest))) =
      image_bytes opt mtime (sizes_table (d # ds) @ d @ rest)"
    and clear: "clear_of hp (unat addr) (length (sizes_table (d # ds) @ d @ rest))"
    and ds: "\<And>e. e \<in> set (d # ds) \<Longrightarrow> e \<noteq> [] \<and> length e < 2 ^ 32"
  shows "NetReadIP m (unat addr + HDR_SIZE) = of_nat (length d)" "(of_nat (length d) :: u32) \<noteq> 0"
    "skip_lengths m (unat addr + HDR_SIZE) (addr + of_nat HDR_SIZE) =
      Some (addr + of_nat HDR_SIZE - 4 + of_nat (length (sizes_table (d # ds))))"
    "read_bytes m (unat (addr + of_nat HDR_SIZE - 4 + of_nat (length (sizes_table (d # ds))) + 4)) (unat (of_nat (length d) :: u32)) = d"
proof -
  let ?q = "unat addr + HDR_SIZE" and ?lp = "addr + of_nat HDR_SIZE" and ?T = "length (sizes_table (d # ds))"
  have table: "read_bytes m ?q ?T = sizes_table (d # ds)" and chars: "read_bytes m (?q + ?T) (length d) = d"
    using image_part [OF at, of 0 ?T] image_part [OF at, of ?T "length d"] by (simp_all del: length_sizes_table)
  show first: "NetReadIP m ?q = of_nat (length d)" using table_word [OF table, of 0] by simp
  have len: "unat (of_nat (length d) :: u32) = length d" using ds [of d] by (simp add: small_word)
  then show nonzero: "(of_nat (length d) :: u32) \<noteq> 0" using ds [of d] by force
  have "skip_lengths m (?q + 4) (?lp - 4 + 8) = Some (?lp - 4 + of_nat ?T)"
    by (rule skip_table [OF table]) (use ds in auto)
  then show "skip_lengths m ?q ?lp = Some (?lp - 4 + of_nat ?T)"
    using first nonzero by (subst skip_lengths.simps) (simp add: add.commute del: length_sizes_table)
  have "unat (?lp + of_nat ?T) = ?q + ?T" using image_address [OF clear, of ?T] by (simp del: length_sizes_table)
  moreover have "?lp - 4 + of_nat ?T + 4 = ?lp + of_nat ?T" by (simp del: length_sizes_table)
  ultimately show "read_bytes m (unat (?lp - 4 + of_nat ?T + 4)) (unat (of_nat (length d) :: u32)) = d"
    using chars by (simp only: len)
qed

text \<open>
  C14. A script that \<open>mkimage\<close> put into an image of the type \<open>script\<close>, alone or in front of other files, is accepted by
  \<open>autoscript\<close> wherever it is loaded: exactly its lines of two or more characters that end with a newline are run as commands,
  in their order, up to the first that fails, which makes the result 1; it is 0 if none fails.
\<close>

theorem script_runs:
  assumes made: "mkimage opt fs mtime = Some img" "map fs (file_names (mk_datafile opt)) = map Some (script # extra)"
    and opt: "mk_type opt = IH_TYPE_SCRIPT" "\<not> mk_xflag opt"
    and at: "read_bytes m (unat addr) (length img) = img" and clear: "clear_of hp (unat addr) (length img - HDR_SIZE)"
    and env: "env_holds (po_board po) (sh_env st) vs" and room: "room (length script + 1)" and nul: "0 \<notin> set script"
  shows "autoscript po ex room hp addr st m =
    map_option (\<lambda>(r, st). (r, st, blanked hp (unat addr) m))
      (run_lines po ex (filter (\<lambda>l. 1 < length l) (full_lines script)) st)"
proof -
  let ?p = "unat addr" and ?ds = "script # extra" and ?lp = "addr + of_nat HDR_SIZE"
  let ?m = "blanked hp (unat addr) m" and ?T = "length (sizes_table (script # extra))"
  have "length img \<le> 2 ^ 32" using clear unfolding clear_of_def HDR_SIZE_def by linarith
  moreover have "several opt" using opt(1) by (simp add: several_def)
  ultimately have img: "img = image_bytes opt mtime (sizes_table ?ds @ padded ?ds)" "length (sizes_table ?ds @ padded ?ds) < 2 ^ 32"
    and ds: "\<And>d. d \<in> set ?ds \<Longrightarrow> d \<noteq> [] \<and> length d < 2 ^ 32"
    using table_image [OF made] opt(2) by blast+
  obtain rest where rest: "padded ?ds = script @ rest" using padded_first by blast
  let ?dat = "sizes_table ?ds @ script @ rest"
  have dlen: "length ?dat < 2 ^ 32" using img(2) by (simp only: rest)
  have img': "img = image_bytes opt mtime ?dat" using img(1) by (simp only: rest)
  have "length img = HDR_SIZE + length ?dat" by (simp add: img' image_bytes_def)
  then have clear': "clear_of hp ?p (length ?dat)" using clear by (simp only: diff_add_inverse)
  have at': "read_bytes ?m ?p (length img) = img" using clear_image [OF clear'] at by (simp add: img' image_bytes_def)
  note fields = image_fields [OF at [unfolded img'] dlen]
  note first = first_file [OF at' [unfolded img'] clear' ds]
  have "length script + 1 < 2 ^ 32" using dlen by simp
  then have "unat (of_nat (length script + 1) :: u32) = length script + 1" by (rule small_word)
  then have room': "room (unat (of_nat (length script) + 1 :: u32))" using room by (simp only: of_nat_add of_nat_1)
  have script: "takeWhile (\<lambda>c. c \<noteq> 0) (read_bytes ?m (unat (?lp - 4 + of_nat ?T + 4)) (unat (of_nat (length script) :: u32))) = script"
    using first(4) nul by (simp only: takeWhile_eq_all_conv) blast
  have verify: "getenv_val (po_board po) (sh_env st) (bytes ''verify'') = Some (map_of vs (bytes ''verify''))"
    using env by (intro getenv_val_map_of) (simp_all add: good_name_def)
  have "clear_of hp ?p (unat (ih_size m ?p))"
    using clear' dlen unfolding fields(3) by (simp only: small_word)
  then show ?thesis
    using autoscript_verified [OF verify fields(11,12) _ _ first(1,2) _ first(3) script, of room ex] room' fields(8) opt(1)
    by (simp add: run_script_lines)
qed

definition script_opts :: "mk_opts" where
  "script_opts = linux_opts\<lparr>mk_type := IH_TYPE_SCRIPT, mk_datafile := bytes ''s''\<rparr>"

text \<open>A line of one character, a line of two and a last line without newline.\<close>

definition script0 :: "byte list" where
  "script0 = bytes ''x'' @ [NL] @ bytes ''xy'' @ [NL] @ bytes ''z''"

abbreviation script_img :: "byte list" where
  "script_img \<equiv> image_bytes script_opts 7 (sizes_table [script0] @ script0)"

lemma script_image: "mkimage script_opts (\<lambda>_. Some script0) 7 = Some script_img"
proof -
  have opt: "mk_type script_opts = IH_TYPE_SCRIPT" "mk_datafile script_opts = bytes ''s''" "\<not> mk_xflag script_opts"
    by (simp_all add: script_opts_def linux_opts_def)
  have names: "after_colon (bytes ''s'') = None" "file_name (bytes ''s'') = bytes ''s''"
    by (simp_all add: after_colon_def file_name_def COLON_def)
  have "write_sizes (\<lambda>_. Some script0) (Some (bytes ''s'')) ifd = Some (ifd @ sizes_table [script0])" for ifd
    unfolding write_sizes.simps names option.case by (simp add: sizes_table_def)
  moreover have "write_files script_opts (\<lambda>_. Some script0) (bytes ''s'') ifd = Some (ifd @ script0)" for ifd
    unfolding write_files.simps [of _ _ "bytes _"] names option.case
    by (simp add: copy_file_def opt Let_def script0_def del: bytes_Cons)
  moreover have "length (sizes_table [script0] @ script0) < 2 ^ 32" by (simp add: script0_def)
  ultimately show ?thesis
    using build_header_image [of "sizes_table [script0] @ script0" script_opts 7]
    by (simp add: mkimage_def opt Let_def del: bytes_Cons write_sizes.simps)
qed

theorem script_runs_witness:
  "autoscript port0 (exec 1 port0 [] (\<lambda>_. False)) (\<lambda>n. n < 100) 1000 0x1000 shell0 (write_bytes (\<lambda>_. 0) 0x1000 script_img) =
    map_option (\<lambda>(r, st). (r, st, blanked 1000 0x1000 (write_bytes (\<lambda>_. 0) 0x1000 script_img)))
      (run_lines port0 (exec 1 port0 [] (\<lambda>_. False)) [bytes ''xy''] shell0)"
proof -
  let ?m = "write_bytes (\<lambda>_. 0) 0x1000 script_img"
  have names: "map (\<lambda>_. Some script0) (file_names (mk_datafile script_opts)) = map Some [script0]"
    by (subst file_names.simps) (simp add: script_opts_def after_colon_def COLON_def)
  have opt: "mk_type script_opts = IH_TYPE_SCRIPT" "\<not> mk_xflag script_opts" by (simp_all add: script_opts_def linux_opts_def)
  have at: "read_bytes ?m (unat (0x1000 :: u32)) (length script_img) = script_img"
    using read_write_bytes [of "\<lambda>_. 0" "0x1000" script_img] by simp
  have "length script_img = 78" by (simp add: image_bytes_def HDR_SIZE_def script0_def)
  then have clear: "clear_of 1000 (unat (0x1000 :: u32)) (length script_img - HDR_SIZE)"
    by (simp add: clear_of_def HDR_SIZE_def)
  have env: "env_holds (po_board port0) (sh_env shell0) vars0" using shell0_holds(1) by (simp add: port0_def)
  have lines: "filter (\<lambda>l. 1 < length l) (full_lines script0) = [bytes ''xy'']"
    by (simp add: script0_def full_lines.simps)
  have script: "length script0 + 1 < 100" "0 \<notin> set script0" by (simp_all add: script0_def)
  show ?thesis
    using script_runs [OF script_image names opt at clear env, where room = "\<lambda>n. n < 100" and ex = "exec 1 port0 [] (\<lambda>_. False)", OF script]
    unfolding lines by simp
qed

end
