(* ===== verification/MemCmd.thy ===== *)
theory MemCmd imports Console Command Image begin

text \<open>
  The memory commands of \<open>common/cmd_mem.c\<close>: \<open>md\<close>, \<open>mm\<close>, \<open>nm\<close>, \<open>mw\<close>, \<open>cmp\<close>, \<open>cp\<close>, \<open>base\<close>, \<open>crc32\<close> (both versions), \<open>loop\<close> and the quick
  version of \<open>mtest\<close>.

  The state is memory with the file's variables and the console: \<open>console_buffer\<close>, the characters that arrive for \<open>readline\<close>
  (theory \<open>Console\<close>), the answers of \<open>ctrlc\<close>, one for each call, and what was printed. Addresses are words that wrap; memory
  is read and written byte by byte, so there is no exception for an address that is not aligned. The usage text of
  the command's table entry is an argument. The flash of \<open>cp\<close> is that of theory \<open>Flash\<close>, with the driver as an argument. A port without
  \<open>CONFIG_HAS_DATAFLASH\<close>, \<open>CFG_CMD_MMC\<close>, \<open>CONFIG_BOOT_RETRY_TIME\<close>, \<open>CONFIG_MX_CYCLIC\<close>, \<open>CONFIG_LOOPW\<close> and \<open>CFG_ALT_MEMTEST\<close> is modelled. \<open>None\<close>: a
  loop or a wait that does not end.
\<close>

unbundle bit_operations_syntax

section \<open>The state\<close>

record memcmd =
  mc_mem :: mem
  mc_dp_addr :: u32
  mc_dp_size :: int
  mc_dp_length :: u32
  mc_mm_addr :: u32
  mc_mm_size :: int
  mc_base :: u32
  mc_buf :: mem
  mc_in :: "byte list"
  mc_ctrlc :: "bool list"
  mc_out :: "byte list"

definition mc_printf :: "string \<Rightarrow> varg list \<Rightarrow> memcmd \<Rightarrow> memcmd" where
  "mc_printf s args st = st\<lparr>mc_out := printf s args (mc_out st)\<rparr>"

definition usage_error :: "byte list option \<Rightarrow> memcmd \<Rightarrow> int \<times> memcmd" where
  "usage_error usage st = (1, mc_printf (''Usage:'' @ nl @ ''%s'' @ nl) [ArgStr usage] st)"

definition cmd_get_data_size :: "byte list \<Rightarrow> int \<Rightarrow> int" where
  "cmd_get_data_size s default_size =
     (let len = length s in
      if len > 2 \<and> s ! (len - 2) = chr CHR ''.'' then
        (let c = s ! (len - 1) in
         if c = chr CHR ''b'' then 1 else if c = chr CHR ''w'' then 2 else if c = chr CHR ''l'' then 4
         else if c = chr CHR ''s'' then -2 else -1)
      else default_size)"

definition hexarg :: "byte list \<Rightarrow> u32" where
  "hexarg s = fst (simple_strtoul s 16)"

text \<open>An object of 4, 2 or 1 bytes.\<close>

definition get_obj :: "int \<Rightarrow> mem \<Rightarrow> u32 \<Rightarrow> u32" where
  "get_obj sz m addr =
     (if sz = 4 then NetReadIP m (unat addr) else if sz = 2 then ucast (rd16 m (unat addr)) else ucast (m (unat addr)))"

definition obj_bytes :: "int \<Rightarrow> u32 \<Rightarrow> byte list" where
  "obj_bytes sz v = (if sz = 4 then be32 v else if sz = 2 then be16 (ucast v) else [ucast v])"

definition put_obj :: "int \<Rightarrow> u32 \<Rightarrow> u32 \<Rightarrow> mem \<Rightarrow> mem" where
  "put_obj sz addr v m = write_bytes m (unat addr) (obj_bytes sz v)"

definition show_obj :: "int \<Rightarrow> u32 \<Rightarrow> byte list \<Rightarrow> byte list" where
  "show_obj sz v out =
     printf (if sz = 4 then '' %08x'' else if sz = 2 then '' %04x'' else '' %02x'') [ArgInt v] out"

section \<open>Display\<close>

definition DISP_LINE_LEN :: u32 where "DISP_LINE_LEN = 16"

text \<open>The objects of a line: \<open>addr\<close>, \<open>linebuf\<close> and the console.\<close>

fun md_objects :: "int \<Rightarrow> mem \<Rightarrow> nat \<Rightarrow> u32 \<Rightarrow> byte list \<Rightarrow> byte list \<Rightarrow> u32 \<times> byte list \<times> byte list" where
  "md_objects sz m 0 addr linebuf out = (addr, linebuf, out)"
| "md_objects sz m (Suc n) addr linebuf out =
     (let v = get_obj sz m addr
      in md_objects sz m n (addr + of_int sz) (linebuf @ obj_bytes sz v) (show_obj sz v out))"

fun md_chars :: "byte list \<Rightarrow> byte list \<Rightarrow> byte list" where
  "md_chars [] out = out"
| "md_chars (c # cs) out =
     md_chars cs (if c < 0x20 \<or> c > 0x7e then out @ [chr CHR ''.''] else printf ''%c'' [ArgInt (ucast c)] out)"

definition md_line :: "int \<Rightarrow> mem \<Rightarrow> u32 \<Rightarrow> u32 \<Rightarrow> byte list \<Rightarrow> u32 \<times> byte list" where
  "md_line sz m linebytes addr out =
     (let out = printf ''%08lx:'' [ArgInt addr] out;
          (addr, linebuf, out) = md_objects sz m ((unat linebytes + nat sz - 1) div nat sz) addr [] out;
          out = puts ''    '' out
      in (addr, md_chars (take (unat linebytes) linebuf) out @ [10]))"

text \<open>One answer of \<open>ctrlc\<close>; the list is long enough for a command that returns.\<close>

function md_lines :: "int \<Rightarrow> u32 \<Rightarrow> u32 \<Rightarrow> memcmd \<Rightarrow> (int \<times> u32 \<times> memcmd) option" where
  "md_lines sz nbytes addr st =
     (let linebytes = (if nbytes > DISP_LINE_LEN then DISP_LINE_LEN else nbytes);
          (addr, out) = md_line sz (mc_mem st) linebytes addr (mc_out st);
          nbytes' = nbytes - linebytes
      in case mc_ctrlc st of
           [] \<Rightarrow> None
         | brk # brks \<Rightarrow>
             let st = st\<lparr>mc_out := out, mc_ctrlc := brks\<rparr> in
             if brk then Some (1, addr, st)
             else if nbytes' > 0 then md_lines sz nbytes' addr st
             else Some (0, addr, st))"
  by pat_completeness auto
termination by (relation "measure (\<lambda>(sz, nbytes, addr, st). length (mc_ctrlc st))") auto

declare md_lines.simps [simp del]

definition do_mem_md :: "byte list option \<Rightarrow> u32 \<Rightarrow> byte list list \<Rightarrow> memcmd \<Rightarrow> (int \<times> memcmd) option" where
  "do_mem_md usage flg argv st =
     (if length argv < 2 then Some (usage_error usage st)
      else
        let new = (flg AND CMD_FLAG_REPEAT = 0);
            sz = (if new then cmd_get_data_size (argv ! 0) 4 else mc_dp_size st);
            addr = (if new then hexarg (argv ! 1) + mc_base st else mc_dp_addr st);
            len = (if new \<and> length argv > 2 then hexarg (argv ! 2) else mc_dp_length st)
        in if new \<and> sz < 0 then Some (1, st)
           else case md_lines sz (len * of_int sz) addr st of
             None \<Rightarrow> None
           | Some (rc, addr, st) \<Rightarrow> Some (rc, st\<lparr>mc_dp_addr := addr, mc_dp_length := len, mc_dp_size := sz\<rparr>))"

section \<open>Write, compare, copy\<close>

fun mw_loop :: "int \<Rightarrow> nat \<Rightarrow> u32 \<Rightarrow> u32 \<Rightarrow> mem \<Rightarrow> mem" where
  "mw_loop sz 0 addr writeval m = m"
| "mw_loop sz (Suc cnt) addr writeval m = mw_loop sz cnt (addr + of_int sz) writeval (put_obj sz addr writeval m)"

definition do_mem_mw :: "byte list option \<Rightarrow> byte list list \<Rightarrow> memcmd \<Rightarrow> int \<times> memcmd" where
  "do_mem_mw usage argv st =
     (if length argv < 3 \<or> length argv > 4 then usage_error usage st
      else
        let sz = cmd_get_data_size (argv ! 0) 4 in
        if sz < 1 then (1, st)
        else
          let addr = hexarg (argv ! 1) + mc_base st;
              writeval = hexarg (argv ! 2);
              cnt = (if length argv = 4 then hexarg (argv ! 3) else 1)
          in (0, st\<lparr>mc_mem := mw_loop sz (unat cnt) addr writeval (mc_mem st)\<rparr>))"

definition differ_text :: "int \<Rightarrow> u32 \<Rightarrow> u32 \<Rightarrow> u32 \<Rightarrow> u32 \<Rightarrow> byte list \<Rightarrow> byte list" where
  "differ_text sz addr1 v1 addr2 v2 out =
     printf ((if sz = 4 then ''word at 0x%08lx (0x%08lx) != word at 0x%08lx (0x%08lx)''
              else if sz = 2 then ''halfword at 0x%08lx (0x%04x) != halfword at 0x%08lx (0x%04x)''
              else ''byte at 0x%08lx (0x%02x) != byte at 0x%08lx (0x%02x)'') @ nl)
       [ArgInt addr1, ArgInt v1, ArgInt addr2, ArgInt v2] out"

text \<open>The loop of \<open>cmp\<close>: \<open>rcode\<close>, \<open>ngood\<close> and the console.\<close>

fun cmp_loop :: "int \<Rightarrow> mem \<Rightarrow> nat \<Rightarrow> u32 \<Rightarrow> u32 \<Rightarrow> u32 \<Rightarrow> byte list \<Rightarrow> int \<times> u32 \<times> byte list" where
  "cmp_loop sz m 0 addr1 addr2 ngood out = (0, ngood, out)"
| "cmp_loop sz m (Suc cnt) addr1 addr2 ngood out =
     (let v1 = get_obj sz m addr1; v2 = get_obj sz m addr2 in
      if v1 \<noteq> v2 then (1, ngood, differ_text sz addr1 v1 addr2 v2 out)
      else cmp_loop sz m cnt (addr1 + of_int sz) (addr2 + of_int sz) (ngood + 1) out)"

definition do_mem_cmp :: "byte list option \<Rightarrow> byte list list \<Rightarrow> memcmd \<Rightarrow> int \<times> memcmd" where
  "do_mem_cmp usage argv st =
     (if length argv \<noteq> 4 then usage_error usage st
      else
        let sz = cmd_get_data_size (argv ! 0) 4 in
        if sz < 0 then (1, st)
        else
          let addr1 = hexarg (argv ! 1) + mc_base st;
              addr2 = hexarg (argv ! 2) + mc_base st;
              cnt = hexarg (argv ! 3);
              (rcode, ngood, out) = cmp_loop sz (mc_mem st) (unat cnt) addr1 addr2 0 (mc_out st)
          in (rcode, mc_printf (''Total of %ld %s%s were the same'' @ nl)
               [ArgInt ngood, ArgStr (Some (bytes (if sz = 4 then ''word'' else if sz = 2 then ''halfword'' else ''byte''))),
                ArgStr (Some (bytes (if ngood = 1 then '''' else ''s'')))] (st\<lparr>mc_out := out\<rparr>)))"

fun cp_loop :: "int \<Rightarrow> nat \<Rightarrow> u32 \<Rightarrow> u32 \<Rightarrow> mem \<Rightarrow> mem" where
  "cp_loop sz 0 addr dest m = m"
| "cp_loop sz (Suc cnt) addr dest m =
     cp_loop sz cnt (addr + of_int sz) (dest + of_int sz) (put_obj sz dest (get_obj sz m addr) m)"

text \<open>With the contents of the flash, that only its driver changes.\<close>

definition do_mem_cp ::
    "(flash_info \<Rightarrow> byte list \<Rightarrow> u32 \<Rightarrow> u32 \<Rightarrow> 'f \<Rightarrow> int \<times> 'f) \<Rightarrow> flash_info list \<Rightarrow> byte list option \<Rightarrow> byte list list \<Rightarrow>
     memcmd \<Rightarrow> 'f \<Rightarrow> int \<times> memcmd \<times> 'f" where
  "do_mem_cp write_buff banks usage argv st f =
     (if length argv \<noteq> 4 then (case usage_error usage st of (r, st) \<Rightarrow> (r, st, f))
      else
        let sz = cmd_get_data_size (argv ! 0) 4 in
        if sz < 0 then (1, st, f)
        else
          let addr = hexarg (argv ! 1) + mc_base st;
              dest = hexarg (argv ! 2) + mc_base st;
              cnt = hexarg (argv ! 3)
          in if cnt = 0 then (1, mc_printf (''Zero length ???'' @ nl) [] st, f)
             else if addr2info banks dest \<noteq> None then
               let st = mc_printf ''Copy to Flash... '' [] st;
                   n = cnt * of_int sz;
                   (rc, f) = flash_write write_buff banks (read_bytes (mc_mem st) (unat addr) (unat n)) dest n f
               in if rc \<noteq> 0 then (1, st\<lparr>mc_out := flash_perror rc (mc_out st)\<rparr>, f)
                  else (0, mc_printf (''done'' @ nl) [] st, f)
             else (0, st\<lparr>mc_mem := cp_loop sz (unat cnt) addr dest (mc_mem st)\<rparr>, f))"

definition do_mem_base :: "byte list list \<Rightarrow> memcmd \<Rightarrow> int \<times> memcmd" where
  "do_mem_base argv st =
     (let st = (if length argv > 1 then st\<lparr>mc_base := hexarg (argv ! 1)\<rparr> else st)
      in (0, mc_printf (''Base Address: 0x%08lx'' @ nl) [ArgInt (mc_base st)] st))"

text \<open>The loops of \<open>loop\<close> only read, for ever.\<close>

definition do_mem_loop :: "byte list option \<Rightarrow> byte list list \<Rightarrow> memcmd \<Rightarrow> (int \<times> memcmd) option" where
  "do_mem_loop usage argv st =
     (if length argv < 3 then Some (usage_error usage st)
      else if cmd_get_data_size (argv ! 0) 4 < 0 then Some (1, st)
      else None)"

section \<open>Modify\<close>

text \<open>The loop of \<open>mod_mem\<close>; \<open>incr\<close> is \<open>incrflag\<close>. The result is \<open>addr\<close>.\<close>

partial_function (option) mm_loop :: "bool \<Rightarrow> int \<Rightarrow> u32 \<Rightarrow> memcmd \<Rightarrow> (u32 \<times> memcmd) option" where
  "mm_loop incr sz addr st =
     (let out = show_obj sz (get_obj sz (mc_mem st) addr) (printf ''%08lx:'' [ArgInt addr] (mc_out st)) in
      case readline (bytes '' ? '') (mc_buf st) (mc_in st) out of
        None \<Rightarrow> None
      | Some (nbytes, buf, out, inp) \<Rightarrow>
          let st = st\<lparr>mc_buf := buf, mc_out := out, mc_in := inp\<rparr> in
          if nbytes = 0 \<or> nbytes = 1 \<and> buf 0 = chr CHR ''-''
          then mm_loop incr sz (if incr then addr + of_int (if nbytes \<noteq> 0 then - sz else sz) else addr) st
          else case strlen buf 0 of
            None \<Rightarrow> None
          | Some n \<Rightarrow>
              let (i, endp) = simple_strtoul (read_bytes buf 0 n) 16 in
              if length endp = n then Some (addr, st)
              else mm_loop incr sz (if incr then addr + of_int sz else addr)
                     (st\<lparr>mc_mem := put_obj sz addr i (mc_mem st)\<rparr>))"

definition mod_mem :: "byte list option \<Rightarrow> bool \<Rightarrow> u32 \<Rightarrow> byte list list \<Rightarrow> memcmd \<Rightarrow> (int \<times> memcmd) option" where
  "mod_mem usage incr flg argv st =
     (if length argv \<noteq> 2 then Some (usage_error usage st)
      else
        let new = (flg AND CMD_FLAG_REPEAT = 0);
            sz = (if new then cmd_get_data_size (argv ! 0) 4 else mc_mm_size st);
            addr = (if new then hexarg (argv ! 1) + mc_base st else mc_mm_addr st)
        in if new \<and> sz < 0 then Some (1, st)
           else map_option (\<lambda>(addr, st). (0, st\<lparr>mc_mm_addr := addr, mc_mm_size := sz\<rparr>)) (mm_loop incr sz addr st))"

definition do_mem_mm :: "byte list option \<Rightarrow> u32 \<Rightarrow> byte list list \<Rightarrow> memcmd \<Rightarrow> (int \<times> memcmd) option" where
  "do_mem_mm usage flg argv st = mod_mem usage True flg argv st"

definition do_mem_nm :: "byte list option \<Rightarrow> u32 \<Rightarrow> byte list list \<Rightarrow> memcmd \<Rightarrow> (int \<times> memcmd) option" where
  "do_mem_nm usage flg argv st = mod_mem usage False flg argv st"

section \<open>Checksums\<close>

definition crc_text :: "u32 \<Rightarrow> u32 \<Rightarrow> u32 \<Rightarrow> memcmd \<Rightarrow> memcmd" where
  "crc_text addr len crc st =
     mc_printf (''CRC32 for %08lx ... %08lx ==> %08lx'' @ nl) [ArgInt addr, ArgInt (addr + len - 1), ArgInt crc] st"

text \<open>Without \<open>CONFIG_CRC32_VERIFY\<close>, and with it.\<close>

definition do_mem_crc :: "byte list option \<Rightarrow> byte list list \<Rightarrow> memcmd \<Rightarrow> int \<times> memcmd" where
  "do_mem_crc usage argv st =
     (if length argv < 3 then usage_error usage st
      else
        let addr = hexarg (argv ! 1) + mc_base st;
            len = hexarg (argv ! 2);
            crc = crc32 (mc_mem st) 0 (unat addr) (unat len);
            st = crc_text addr len crc st
        in (0, if length argv > 3 then st\<lparr>mc_mem := put_obj 4 (hexarg (argv ! 3)) crc (mc_mem st)\<rparr> else st))"

definition do_mem_crc_verify :: "byte list option \<Rightarrow> byte list list \<Rightarrow> memcmd \<Rightarrow> int \<times> memcmd" where
  "do_mem_crc_verify usage argv st =
     (if length argv < 3 then usage_error usage st
      else
        let verify = (argv ! 1 = bytes ''-v'');
            av = (if verify then drop 2 argv else drop 1 argv)
        in if verify \<and> length av < 3 then usage_error usage st
           else
             let addr = hexarg (av ! 0) + mc_base st;
                 len = hexarg (av ! 1);
                 crc = crc32 (mc_mem st) 0 (unat addr) (unat len)
             in if \<not> verify then
                  let st = crc_text addr len crc st
                  in (0, if length av > 2 then st\<lparr>mc_mem := put_obj 4 (hexarg (av ! 2)) crc (mc_mem st)\<rparr> else st)
                else
                  let vcrc = hexarg (av ! 2) in
                  if vcrc \<noteq> crc
                  then (1, mc_printf (''CRC32 for %08lx ... %08lx ==> %08lx != %08lx ** ERROR **'' @ nl)
                         [ArgInt addr, ArgInt (addr + len - 1), ArgInt crc, ArgInt vcrc] st)
                  else (0, st))"

section \<open>The test of memory\<close>

text \<open>
  Memory is the device under test: \<open>rd\<close> and \<open>wr\<close> read and write the word with an index from \<open>start\<close> on, \<open>n\<close> is the number of words, as
  in theory \<open>MemSize\<close>. The loop only ends when \<open>ctrlc\<close> says so, its argument are the answers.
\<close>

fun mt_write :: "(nat \<Rightarrow> u32 \<Rightarrow> 's \<Rightarrow> 's) \<Rightarrow> nat \<Rightarrow> nat \<Rightarrow> u32 \<Rightarrow> u32 \<Rightarrow> 's \<Rightarrow> 's" where
  "mt_write wr 0 i val incr s = s"
| "mt_write wr (Suc n) i val incr s = mt_write wr n (Suc i) (val + incr) incr (wr i val s)"

definition mem_error :: "u32 \<Rightarrow> u32 \<Rightarrow> u32 \<Rightarrow> byte list \<Rightarrow> byte list" where
  "mem_error addr readback val out =
     printf (nl @ ''Mem error @ 0x%08X: found %08lX, expected %08lX'' @ nl) [ArgInt addr, ArgInt readback, ArgInt val] out"

fun mt_read :: "(nat \<Rightarrow> 's \<Rightarrow> u32) \<Rightarrow> u32 \<Rightarrow> nat \<Rightarrow> nat \<Rightarrow> u32 \<Rightarrow> u32 \<Rightarrow> 's \<Rightarrow> byte list \<Rightarrow> byte list" where
  "mt_read rd start 0 i val incr s out = out"
| "mt_read rd start (Suc n) i val incr s out =
     (let readback = rd i s;
          out = (if readback \<noteq> val then mem_error (start + 4 * of_nat i) readback val out else out)
      in mt_read rd start n (Suc i) (val + incr) incr s out)"

fun mtest_loop ::
    "(nat \<Rightarrow> 's \<Rightarrow> u32) \<Rightarrow> (nat \<Rightarrow> u32 \<Rightarrow> 's \<Rightarrow> 's) \<Rightarrow> u32 \<Rightarrow> nat \<Rightarrow> bool list \<Rightarrow> u32 \<Rightarrow> u32 \<Rightarrow> 's \<Rightarrow> byte list \<Rightarrow>
      (int \<times> 's \<times> byte list) option" where
  "mtest_loop rd wr start n [] pattern incr s out = None"
| "mtest_loop rd wr start n (brk # brks) pattern incr s out =
     (if brk then Some (1, s, out @ [10])
      else
        let out = printf ([CHR 0x0D] @ ''Pattern %08lX  Writing...'' @ ''%12s'' @ replicate 10 (CHR 0x08))
              [ArgInt pattern, ArgStr (Some [])] out;
            s = mt_write wr n 0 pattern incr s;
            out = puts ''Reading...'' out;
            out = mt_read rd start n 0 pattern incr s out;
            pattern = (if pattern AND 0x80000000 \<noteq> 0 then - pattern else NOT pattern)
        in mtest_loop rd wr start n brks pattern (- incr) s out)"

definition do_mem_mtest ::
    "(u32 \<Rightarrow> nat \<Rightarrow> 's \<Rightarrow> u32) \<Rightarrow> (u32 \<Rightarrow> nat \<Rightarrow> u32 \<Rightarrow> 's \<Rightarrow> 's) \<Rightarrow> u32 \<Rightarrow> u32 \<Rightarrow> bool list \<Rightarrow> byte list list \<Rightarrow> 's \<Rightarrow> byte list \<Rightarrow>
      (int \<times> 's \<times> byte list) option" where
  "do_mem_mtest rd wr CFG_MEMTEST_START CFG_MEMTEST_END brks argv s out =
     (let start = (if length argv > 1 then hexarg (argv ! 1) else CFG_MEMTEST_START);
          end' = (if length argv > 2 then hexarg (argv ! 2) else CFG_MEMTEST_END);
          pattern = (if length argv > 3 then hexarg (argv ! 3) else 0);
          n = (unat end' - unat start + 3) div 4
      in if unat start + 4 * n \<ge> 2 ^ 32 \<and> (case brks of [] \<Rightarrow> False | brk # _ \<Rightarrow> \<not> brk) then None
         else mtest_loop (rd start) (wr start) start n brks pattern 1 s out)"

section \<open>Objects are bytes\<close>

lemma be16_rd16: "be16 (rd16 m p) = read_bytes m p 2"
proof -
  have "ucast (drop_bit 8 (rd16 m p)) = m p" "ucast (rd16 m p) = m (p + 1)"
    by (rule bit_word_eqI; auto simp: rd16_def bit_simps dest: bit_imp_le_length)+
  then show ?thesis by (simp add: be16_def read_bytes_Suc numeral_2_eq_2)
qed

lemma ucast_back: "ucast (ucast (x :: byte) :: u32) = x" "ucast (ucast (y :: u16) :: u32) = y"
  by (rule bit_word_eqI; simp add: bit_simps)+

definition obj_size :: "int \<Rightarrow> bool" where
  "obj_size sz \<longleftrightarrow> sz = 1 \<or> sz = 2 \<or> sz = 4"

lemma length_obj_bytes [simp]: "obj_size sz \<Longrightarrow> length (obj_bytes sz v) = nat sz"
  by (auto simp: obj_size_def obj_bytes_def)

lemma obj_bytes_get: "obj_size sz \<Longrightarrow> obj_bytes sz (get_obj sz m addr) = read_bytes m (unat addr) (nat sz)"
  by (auto simp: obj_size_def obj_bytes_def get_obj_def be32_NetReadIP be16_rd16 read_bytes_Suc ucast_back)

lemma get_obj_eq:
  assumes "obj_size sz"
  shows "get_obj sz m a = get_obj sz m b \<longleftrightarrow> read_bytes m (unat a) (nat sz) = read_bytes m (unat b) (nat sz)"
proof
  assume "read_bytes m (unat a) (nat sz) = read_bytes m (unat b) (nat sz)"
  then show "get_obj sz m a = get_obj sz m b"
    using assms be32_inj [of "NetReadIP m (unat a)" "NetReadIP m (unat b)"] rd16_be16 [of m "unat a" "rd16 m (unat b)"]
    by (auto simp: obj_size_def get_obj_def read_bytes_Suc be32_NetReadIP be16_rd16)
next
  assume "get_obj sz m a = get_obj sz m b"
  then show "read_bytes m (unat a) (nat sz) = read_bytes m (unat b) (nat sz)"
    using obj_bytes_get [OF assms] by metis
qed

lemma next_addr:
  assumes "obj_size sz" "unat (addr :: u32) + nat sz < 2 ^ 32"
  shows "unat (addr + of_int sz) = unat addr + nat sz"
proof -
  have "unat (of_int sz :: u32) = nat sz" using assms(1) by (auto simp: obj_size_def)
  then show ?thesis using assms(2) by (subst unat_add_lem [THEN iffD1]) simp_all
qed

section \<open>Copying and comparing\<close>

text \<open>Upwards, as the loop does it, a copy is right if the destination is not inside the rest of the source.\<close>

lemma cp_loop_copies:
  assumes "obj_size sz" "unat addr + n * nat sz \<le> 2 ^ 32" "unat dest + n * nat sz \<le> 2 ^ 32"
    and "dest \<le> addr \<or> unat addr + n * nat sz \<le> unat dest"
  shows "cp_loop sz n addr dest m = write_bytes m (unat dest) (read_bytes m (unat addr) (n * nat sz))"
  using assms(2-)
proof (induction n arbitrary: addr dest m)
  case (Suc n)
  let ?m = "write_bytes m (unat dest) (read_bytes m (unat addr) (nat sz))"
  have put: "put_obj sz dest (get_obj sz m addr) m = ?m"
    using obj_bytes_get [OF assms(1)] by (simp add: put_obj_def)
  show ?case
  proof (cases n)
    case 0
    then show ?thesis using put by simp
  next
    case (Suc k)
    have pos: "0 < nat sz" using assms(1) by (auto simp: obj_size_def)
    then have "nat sz < Suc n * nat sz" unfolding Suc by simp
    then have fits: "unat addr + nat sz < 2 ^ 32" "unat dest + nat sz < 2 ^ 32" using Suc.prems(1,2) by linarith+
    note nxt = next_addr [OF assms(1) fits(1)] next_addr [OF assms(1) fits(2)]
    have "cp_loop sz n (addr + of_int sz) (dest + of_int sz) ?m =
        write_bytes ?m (unat dest + nat sz) (read_bytes ?m (unat addr + nat sz) (n * nat sz))"
      using Suc.prems unfolding nxt [symmetric]
      by (intro Suc.IH) (auto simp: nxt word_le_nat_alt)
    moreover have "read_bytes ?m (unat addr + nat sz) (n * nat sz) = read_bytes m (unat addr + nat sz) (n * nat sz)"
      using Suc.prems(3) by (intro read_bytes_cong write_bytes_other) (auto simp: word_le_nat_alt)
    moreover have "read_bytes m (unat addr) (Suc n * nat sz) =
        read_bytes m (unat addr) (nat sz) @ read_bytes m (unat addr + nat sz) (n * nat sz)"
      by (simp add: read_bytes_add)
    ultimately show ?thesis by (simp add: put write_bytes_append)
  qed
qed simp

text \<open>The first object that differs.\<close>

lemma cmp_loop_same:
  "\<forall>i < n. get_obj sz m (a + of_nat i * of_int sz) = get_obj sz m (b + of_nat i * of_int sz) \<Longrightarrow>
   cmp_loop sz m n a b ngood out = (0, ngood + of_nat n, out)"
proof (induction n arbitrary: a b ngood)
  case (Suc n)
  have "cmp_loop sz m n (a + of_int sz) (b + of_int sz) (ngood + 1) out = (0, ngood + 1 + of_nat n, out)"
    using Suc.prems by (intro Suc.IH) (auto simp: algebra_simps dest: spec [of _ "Suc _"])
  then show ?case using Suc.prems [rule_format, of 0] by (simp add: algebra_simps)
qed simp

lemma obj_addr:
  assumes "obj_size sz" "unat (a :: u32) + n * nat sz \<le> 2 ^ 32" "i < n"
  shows "unat (a + of_nat i * of_int sz) = unat a + i * nat sz"
  using assms(2,3)
proof (induction i)
  case (Suc i)
  have "0 < nat sz" using assms(1) by (auto simp: obj_size_def)
  moreover have "Suc (Suc i) * nat sz \<le> n * nat sz" using Suc.prems(2) by (intro mult_le_mono1) simp
  ultimately have "unat a + i * nat sz + nat sz < 2 ^ 32" using Suc.prems(1) unfolding mult_Suc by linarith
  moreover have IH: "unat (a + of_nat i * of_int sz) = unat a + i * nat sz" using Suc by simp
  ultimately have "unat (a + of_nat i * of_int sz + of_int sz) = unat a + i * nat sz + nat sz"
    using next_addr [OF assms(1)] by simp
  then show ?case by (simp add: algebra_simps)
qed simp

lemma cmp_loop_differs:
  "k < n \<Longrightarrow> \<forall>i < k. get_obj sz m (a + of_nat i * of_int sz) = get_obj sz m (b + of_nat i * of_int sz) \<Longrightarrow>
   get_obj sz m (a + of_nat k * of_int sz) \<noteq> get_obj sz m (b + of_nat k * of_int sz) \<Longrightarrow>
   \<exists>out'. cmp_loop sz m n a b ngood out = (1, ngood + of_nat k, out')"
proof (induction k arbitrary: n a b ngood)
  case 0
  then show ?case by (cases n) (simp_all add: Let_def)
next
  case (Suc k)
  then obtain n' where n: "n = Suc n'" "k < n'" by (cases n) auto
  have "\<exists>out'. cmp_loop sz m n' (a + of_int sz) (b + of_int sz) (ngood + 1) out = (1, ngood + 1 + of_nat k, out')"
    using Suc.prems n(2) by (intro Suc.IH) (auto simp: algebra_simps dest: spec [of _ "Suc _"])
  then show ?case using Suc.prems(2) [rule_format, of 0] by (simp add: n(1) algebra_simps)
qed

text \<open>\<open>cmp\<close> tells whether two areas are the same.\<close>

lemma cmp_loop_areas:
  assumes "obj_size sz" "unat a + n * nat sz \<le> 2 ^ 32" "unat b + n * nat sz \<le> 2 ^ 32"
  shows "fst (cmp_loop sz m n a b ngood out) = 0 \<longleftrightarrow> read_bytes m (unat a) (n * nat sz) = read_bytes m (unat b) (n * nat sz)"
proof -
  let ?same = "\<lambda>i. get_obj sz m (a + of_nat i * of_int sz) = get_obj sz m (b + of_nat i * of_int sz)"
  have same: "?same i \<longleftrightarrow> read_bytes m (unat a + i * nat sz) (nat sz) = read_bytes m (unat b + i * nat sz) (nat sz)"
    if "i < n" for i
    using get_obj_eq [OF assms(1)] obj_addr [OF assms(1,2) that] obj_addr [OF assms(1,3) that] by simp
  have areas: "read_bytes m p (k * nat sz) = read_bytes m q (k * nat sz) \<longleftrightarrow>
      (\<forall>i < k. read_bytes m (p + i * nat sz) (nat sz) = read_bytes m (q + i * nat sz) (nat sz))" for p q k
  proof (induction k)
    case (Suc k)
    have "read_bytes m x (Suc k * nat sz) = read_bytes m x (k * nat sz) @ read_bytes m (x + k * nat sz) (nat sz)" for x
      using read_bytes_add [of m x "k * nat sz" "nat sz"] by (simp add: add.commute)
    then show ?case using Suc by (auto simp: less_Suc_eq)
  qed simp
  show ?thesis
  proof (cases "\<forall>i < n. ?same i")
    case True
    then show ?thesis using cmp_loop_same [of n sz m a b ngood out] same by (simp add: areas)
  next
    case False
    define k where "k = (LEAST i. \<not> (i < n \<longrightarrow> ?same i))"
    have k: "k < n" "\<not> ?same k" using False LeastI_ex [of "\<lambda>i. \<not> (i < n \<longrightarrow> ?same i)"] unfolding k_def by auto
    have "\<forall>i < k. ?same i" using k(1) not_less_Least [of _ "\<lambda>i. \<not> (i < n \<longrightarrow> ?same i)"] unfolding k_def [symmetric] by auto
    then show ?thesis using cmp_loop_differs [OF k(1) _ k(2), of ngood out] k same by (auto simp: areas)
  qed
qed

text \<open>
  C16. \<open>cp\<close> to memory that is no flash, of bytes, halfwords or words, makes the destination equal to the source as it was
  and changes nothing else; also where the areas overlap, if the destination is not above the source. If they
  do not overlap, \<open>cmp\<close> with the same arguments then finds them the same, and it returns 0 only for areas that are the same.
\<close>

theorem cp_then_cmp:
  assumes sz: "cmd_get_data_size c 4 = sz" "cmd_get_data_size c2 4 = sz" "obj_size sz"
    and args: "src = hexarg a + mc_base st" "dst = hexarg d + mc_base st" "n = unat (hexarg k) * nat sz" "hexarg k \<noteq> 0"
    and fits: "unat src + n \<le> 2 ^ 32" "unat dst + n \<le> 2 ^ 32" and up: "dst \<le> src \<or> unat src + n \<le> unat dst"
    and ram: "addr2info banks dst = None"
  shows "\<exists>st'. do_mem_cp write_buff banks usage [c, a, d, k] st f = (0, st', f) \<and>
    mc_mem st' = write_bytes (mc_mem st) (unat dst) (read_bytes (mc_mem st) (unat src) n) \<and>
    (unat src + n \<le> unat dst \<or> unat dst + n \<le> unat src \<longrightarrow> fst (do_mem_cmp usage2 [c2, a, d, k] st') = 0) \<and>
    (\<forall>st2. mc_base st2 = mc_base st \<longrightarrow>
      (fst (do_mem_cmp usage2 [c2, a, d, k] st2) = 0) = (read_bytes (mc_mem st2) (unat src) n = read_bytes (mc_mem st2) (unat dst) n))"
proof -
  let ?m = "write_bytes (mc_mem st) (unat dst) (read_bytes (mc_mem st) (unat src) n)" and ?st = "st\<lparr>mc_mem :=
    write_bytes (mc_mem st) (unat dst) (read_bytes (mc_mem st) (unat src) n)\<rparr>"
  have pos: "\<not> sz < 0" using sz(3) by (auto simp: obj_size_def)
  have cp: "do_mem_cp write_buff banks usage [c, a, d, k] st f = (0, ?st, f)"
    using cp_loop_copies [OF sz(3), of src "unat (hexarg k)" dst "mc_mem st"] fits up ram args(4) pos
    unfolding do_mem_cp_def Let_def by (simp add: sz(1) args(3) flip: args(1,2))
  have cmp: "(fst (do_mem_cmp usage2 [c2, a, d, k] st2) = 0) =
      (read_bytes (mc_mem st2) (unat src) n = read_bytes (mc_mem st2) (unat dst) n)" if "mc_base st2 = mc_base st" for st2
  proof (cases "cmp_loop sz (mc_mem st2) (unat (hexarg k)) src dst 0 (mc_out st2)")
    case (fields r g out)
    have "fst (do_mem_cmp usage2 [c2, a, d, k] st2) = r"
      using fields pos that unfolding do_mem_cmp_def Let_def by (simp add: sz(2) flip: args(1,2))
    then show ?thesis
      using cmp_loop_areas [OF sz(3), of src "unat (hexarg k)" dst "mc_mem st2" 0 "mc_out st2"] fits fields
      by (simp add: args(3))
  qed
  have "read_bytes ?m (unat src) n = read_bytes ?m (unat dst) n" if "unat src + n \<le> unat dst \<or> unat dst + n \<le> unat src"
  proof -
    have "read_bytes ?m (unat src) n = read_bytes (mc_mem st) (unat src) n"
      using that by (intro read_bytes_cong write_bytes_other) auto
    then show ?thesis using read_write_bytes [of "mc_mem st" "unat dst" "read_bytes (mc_mem st) (unat src) n"] by simp
  qed
  then show ?thesis using cp cmp by (intro exI [of _ ?st]) simp
qed

theorem cp_then_cmp_witness:
  "\<exists>st'. do_mem_cp (\<lambda>_ _ _ _ f. (0, f)) [] None [bytes ''cp.w'', bytes ''10'', bytes ''40'', bytes ''4'']
      \<lparr>mc_mem = \<lambda>a. of_nat a, mc_dp_addr = 0, mc_dp_size = 0, mc_dp_length = 0, mc_mm_addr = 0, mc_mm_size = 0, mc_base = 0,
        mc_buf = \<lambda>_. 0, mc_in = [], mc_ctrlc = [], mc_out = []\<rparr> () = (0, st', ()) \<and>
    mc_mem st' 0x47 = 0x17 \<and> fst (do_mem_cmp None [bytes ''cmp.w'', bytes ''10'', bytes ''40'', bytes ''4''] st') = 0"
proof -
  let ?st = "\<lparr>mc_mem = \<lambda>a. of_nat a, mc_dp_addr = 0, mc_dp_size = 0, mc_dp_length = 0, mc_mm_addr = 0, mc_mm_size = 0, mc_base = 0,
        mc_buf = \<lambda>_. 0, mc_in = [], mc_ctrlc = [], mc_out = []\<rparr>"
  have sz: "cmd_get_data_size (bytes ''cp.w'') 4 = 2" "cmd_get_data_size (bytes ''cmp.w'') 4 = 2" "obj_size 2"
    by (simp_all add: cmd_get_data_size_def obj_size_def)
  have args: "hexarg (bytes ''10'') = 0x10" "hexarg (bytes ''40'') = 0x40" "hexarg (bytes ''4'') = 4"
    by code_simp+
  show ?thesis
    using cp_then_cmp [OF sz refl refl refl, of "bytes ''4''" "bytes ''10''" ?st "bytes ''40''" "[]" "\<lambda>_ _ _ _ f. (0, f)" None "()" None]
    unfolding args by (auto simp: addr2info_def write_bytes_apply)
qed

section \<open>What \<open>mtest\<close> finds\<close>

lemma printf_append: "printf s args out = out @ printf s args []"
  by (simp add: printf_def split: option.split)

lemma mem_error_append: "mem_error addr readback val out = out @ mem_error addr readback val []"
  unfolding mem_error_def by (rule printf_append)

text \<open>Memory in which the bits of \<open>hi i\<close> read as 1 and those of \<open>lo i\<close> as 0, whatever was written.\<close>

definition stuck :: "(nat \<Rightarrow> u32) \<Rightarrow> (nat \<Rightarrow> u32) \<Rightarrow> nat \<Rightarrow> (nat \<Rightarrow> u32) \<Rightarrow> u32" where
  "stuck hi lo i s = (s i OR hi i) AND NOT (lo i)"

definition store_word :: "nat \<Rightarrow> u32 \<Rightarrow> (nat \<Rightarrow> u32) \<Rightarrow> nat \<Rightarrow> u32" where
  "store_word i v s = s(i := v)"

lemma mt_write_words:
  "mt_write store_word n i val incr s = (\<lambda>j. if i \<le> j \<and> j < i + n then val + of_nat (j - i) * incr else s j)"
proof (induction n arbitrary: i val s)
  case (Suc n)
  have shift: "j - i = Suc (j - Suc i)" if "Suc i \<le> j" for j using that by (simp add: Suc_diff_Suc)
  show ?case unfolding mt_write.simps Suc.IH
    by (rule ext) (auto simp: store_word_def shift algebra_simps not_less_eq_eq dest: le_antisym)
qed (auto intro!: ext)

text \<open>The errors of a pass over \<open>n\<close> words that should hold \<open>v\<close>.\<close>

definition errors_in :: "(nat \<Rightarrow> u32) \<Rightarrow> (nat \<Rightarrow> u32) \<Rightarrow> nat \<Rightarrow> (nat \<Rightarrow> u32) \<Rightarrow> (nat \<times> u32 \<times> u32) list" where
  "errors_in hi lo n v = map (\<lambda>i. (i, stuck hi lo i v, v i)) (filter (\<lambda>i. stuck hi lo i v \<noteq> v i) [0..<n])"

lemma errors_in_cong: "(\<And>i. i < n \<Longrightarrow> v i = w i) \<Longrightarrow> errors_in hi lo n v = errors_in hi lo n w"
  by (auto simp: errors_in_def stuck_def intro!: map_cong filter_cong)

definition error_text :: "u32 \<Rightarrow> nat \<times> u32 \<times> u32 \<Rightarrow> byte list" where
  "error_text start e = (case e of (i, found, expected) \<Rightarrow> mem_error (start + 4 * of_nat i) found expected [])"

lemma mt_read_words:
  assumes "\<forall>j. i \<le> j \<and> j < i + n \<longrightarrow> s j = val + of_nat (j - i) * incr"
  shows "mt_read (stuck hi lo) start n i val incr s out =
    out @ concat (map (error_text start) (map (\<lambda>i. (i, stuck hi lo i s, s i)) (filter (\<lambda>i. stuck hi lo i s \<noteq> s i) [i..<i + n])))"
  using assms
proof (induction n arbitrary: i val out)
  case (Suc n)
  have "s i = val" using Suc.prems by (auto dest: spec [of _ i])
  moreover have "\<forall>j. Suc i \<le> j \<and> j < Suc i + n \<longrightarrow> s j = val + incr + of_nat (j - Suc i) * incr"
  proof (intro allI impI)
    fix j
    assume j: "Suc i \<le> j \<and> j < Suc i + n"
    then have "j - i = Suc (j - Suc i)" by (simp add: Suc_diff_Suc)
    then show "s j = val + incr + of_nat (j - Suc i) * incr" using Suc.prems j by (simp add: algebra_simps)
  qed
  note IH = Suc.IH [OF this]
  have upt: "[i..<i + Suc n] = i # [Suc i..<Suc i + n]" by (simp add: upt_rec)
  show ?case
    unfolding upt using IH calculation
    by (simp add: Let_def error_text_def mem_error_append [of _ _ _ out])
qed simp

definition pass_text :: "u32 \<Rightarrow> byte list" where
  "pass_text pattern = puts ''Reading...'' (printf ([CHR 0x0D] @ ''Pattern %08lX  Writing...'' @ ''%12s'' @ replicate 10 (CHR 0x08))
     [ArgInt pattern, ArgStr (Some [])] [])"

lemma mtest_pass:
  "mtest_loop (stuck hi lo) store_word start n (False # brks) pattern incr s out =
     mtest_loop (stuck hi lo) store_word start n brks (if pattern AND 0x80000000 \<noteq> 0 then - pattern else NOT pattern) (- incr)
       (mt_write store_word n 0 pattern incr s)
       (out @ pass_text pattern @ concat (map (error_text start) (errors_in hi lo n (\<lambda>i. pattern + of_nat i * incr))))"
proof -
  let ?s = "mt_write store_word n 0 pattern incr s"
  have "mt_read (stuck hi lo) start n 0 pattern incr ?s out' =
      out' @ concat (map (error_text start) (errors_in hi lo n (\<lambda>i. pattern + of_nat i * incr)))" for out'
  proof -
    have "mt_read (stuck hi lo) start n 0 pattern incr ?s out' = out' @ concat (map (error_text start) (errors_in hi lo n ?s))"
      using mt_read_words [of 0 n ?s pattern incr hi lo start out'] by (simp add: mt_write_words errors_in_def)
    moreover have "errors_in hi lo n ?s = errors_in hi lo n (\<lambda>i. pattern + of_nat i * incr)"
      by (rule errors_in_cong) (simp add: mt_write_words)
    ultimately show ?thesis by simp
  qed
  then show ?thesis
    by (simp add: Let_def pass_text_def puts_def printf_append [of _ _ out])
qed

text \<open>A value and its complement show every stuck bit.\<close>

lemma stuck_seen:
  "stuck hi lo i v = v i \<and> stuck hi lo i w = w i \<and> w i = NOT (v i) \<Longrightarrow> hi i = 0 \<and> lo i = 0"
proof -
  assume seen: "stuck hi lo i v = v i \<and> stuck hi lo i w = w i \<and> w i = NOT (v i)"
  have "\<not> bit (hi i) k \<and> \<not> bit (lo i) k" if "k < 32" for k
  proof -
    have "bit (stuck hi lo i v) k = bit (v i) k" "bit (stuck hi lo i w) k = (\<not> bit (v i) k)" "bit (w i) k = (\<not> bit (v i) k)"
      using seen that by (simp_all add: bit_simps)
    then show ?thesis using that unfolding stuck_def by (auto simp: bit_simps)
  qed
  then show "hi i = 0 \<and> lo i = 0" by (auto intro!: bit_word_eqI)
qed

lemma stuck_none: "hi i = 0 \<Longrightarrow> lo i = 0 \<Longrightarrow> stuck hi lo i v = v i"
  by (simp add: stuck_def)

lemma stuck_iff:
  "w i = NOT (v i) \<Longrightarrow> stuck hi lo i v \<noteq> v i \<or> stuck hi lo i w \<noteq> w i \<longleftrightarrow> hi i \<noteq> 0 \<or> lo i \<noteq> 0"
  using stuck_seen [of hi lo i v w] stuck_none [of hi i lo] by metis

lemma errors_in_iff: "i \<in> fst ` set (errors_in hi lo n v) \<longleftrightarrow> i < n \<and> stuck hi lo i v \<noteq> v i"
  by (force simp: errors_in_def)

text \<open>
  C15. \<open>mtest\<close> finds every stuck bit in two passes: of memory in which some bits always read as 1 and some as 0, it reports in the first
  two passes exactly the words that have such a bit, if the pattern is below 0x80000000, as the default is. It ends
  only when it is interrupted, with 1 whether it found errors or not. A range so close to the end of the address space that the
  pointer wraps before it reaches the end is never left, not even by an interrupt.
\<close>

theorem mtest_finds_stuck:
  assumes range: "start = (if length argv > 1 then hexarg (argv ! 1) else mt_start)"
      "end' = (if length argv > 2 then hexarg (argv ! 2) else mt_end)"
    and pattern: "pattern = (if length argv > 3 then hexarg (argv ! 3) else 0)" "pattern AND 0x80000000 = 0"
  defines "n \<equiv> (unat end' - unat start + 3) div 4"
  shows "if unat start + 4 * n < 2 ^ 32
    then \<exists>s' errs1 errs2.
      do_mem_mtest (\<lambda>_. stuck hi lo) (\<lambda>_. store_word) mt_start mt_end (False # False # True # brks) argv s out =
        Some (1, s', out @ pass_text pattern @ concat (map (error_text start) errs1) @
          pass_text (NOT pattern) @ concat (map (error_text start) errs2) @ [10]) \<and>
      (\<forall>i. i \<in> fst ` set (errs1 @ errs2) \<longleftrightarrow> i < n \<and> (hi i \<noteq> 0 \<or> lo i \<noteq> 0))
    else do_mem_mtest (\<lambda>_. stuck hi lo) (\<lambda>_. store_word) mt_start mt_end (False # brks) argv s out = None"
proof (cases "unat start + 4 * n < 2 ^ 32")
  case True
  let ?v = "\<lambda>i. pattern + of_nat i * 1" and ?w = "\<lambda>i. NOT pattern + of_nat i * (- 1)"
  have compl: "?w i = NOT (?v i)" for i by (simp add: not_eq_complement algebra_simps)
  have "i \<in> fst ` set (errors_in hi lo n ?v @ errors_in hi lo n ?w) \<longleftrightarrow> i < n \<and> (hi i \<noteq> 0 \<or> lo i \<noteq> 0)" for i
  proof -
    have "stuck hi lo i ?v \<noteq> ?v i \<or> stuck hi lo i ?w \<noteq> ?w i \<longleftrightarrow> hi i \<noteq> 0 \<or> lo i \<noteq> 0"
      by (rule stuck_iff) (rule compl)
    then show ?thesis unfolding set_append image_Un Un_iff errors_in_iff by blast
  qed
  moreover have "do_mem_mtest (\<lambda>_. stuck hi lo) (\<lambda>_. store_word) mt_start mt_end (False # False # True # brks) argv s out =
      Some (1, mt_write store_word n 0 (NOT pattern) (- 1) (mt_write store_word n 0 pattern 1 s),
        out @ pass_text pattern @ concat (map (error_text start) (errors_in hi lo n ?v)) @
        pass_text (NOT pattern) @ concat (map (error_text start) (errors_in hi lo n ?w)) @ [10])"
  proof -
    have "do_mem_mtest (\<lambda>_. stuck hi lo) (\<lambda>_. store_word) mt_start mt_end (False # False # True # brks) argv s out =
        mtest_loop (stuck hi lo) store_word start n (False # False # True # brks) pattern 1 s out"
      unfolding do_mem_mtest_def Let_def range [symmetric] pattern(1) [symmetric] n_def [symmetric] using True by simp
    then show ?thesis unfolding mtest_pass using pattern(2) by simp
  qed
  ultimately show ?thesis using True by auto
next
  case False
  then show ?thesis
    unfolding do_mem_mtest_def Let_def range [symmetric] pattern(1) [symmetric] n_def [symmetric] by simp
qed

theorem mtest_finds_stuck_witness:
  "\<exists>s' errs1 errs2.
    do_mem_mtest (\<lambda>_. stuck (\<lambda>_. 0) (\<lambda>i. if i = 2 then 1 else 0)) (\<lambda>_. store_word) 0 16 [False, False, True] [bytes ''mtest''] (\<lambda>_. 0) [] =
      Some (1, s', pass_text 0 @ concat (map (error_text 0) errs1) @ pass_text (NOT 0) @ concat (map (error_text 0) errs2) @ [10]) \<and>
    (\<forall>i. i \<in> fst ` set (errs1 @ errs2) \<longleftrightarrow> i = 2)"
proof -
  let ?lo = "\<lambda>i. if i = 2 then 1 else 0 :: u32" and ?argv = "[bytes ''mtest'']"
  have args: "0 = (if length ?argv > 1 then hexarg (?argv ! 1) else 0)" "16 = (if length ?argv > 2 then hexarg (?argv ! 2) else 16)"
    "0 = (if length ?argv > 3 then hexarg (?argv ! 3) else 0)" "(0 :: u32) AND 0x80000000 = 0"
    by simp_all
  have two: "(i < (unat (16 :: u32) - unat (0 :: u32) + 3) div 4 \<and> ((\<lambda>_. 0 :: u32) i \<noteq> 0 \<or> ?lo i \<noteq> 0)) = (i = 2)" for i by auto
  have fits: "(unat (0 :: u32) + 4 * ((unat (16 :: u32) - unat (0 :: u32) + 3) div 4) < 2 ^ 32) = True" by simp
  show ?thesis
    using mtest_finds_stuck [OF args, where hi = "\<lambda>_. 0" and lo = ?lo and brks = "[]" and s = "\<lambda>_. 0" and out = "[]"]
    unfolding two fits if_True append_Nil .
qed

text \<open>
  With the pattern 0x80000000 the first word is tested with this value only: a bit 0 that is stuck there is not found,
  however long the test runs.
\<close>

lemma mtest_blind:
  assumes "hi 0 = 0" "lo 0 = 1"
  shows "\<exists>s'. mtest_loop (stuck hi lo) store_word start 1 (replicate k False @ True # brks) 0x80000000 incr s out =
    Some (1, s', out @ concat (replicate k (pass_text 0x80000000)) @ [10])"
proof (induction k arbitrary: incr s out)
  case (Suc k)
  have none: "errors_in hi lo 1 (\<lambda>i. 0x80000000 + of_nat i * incr) = []" for incr
    by (simp add: errors_in_def stuck_def assms)
  have same: "(if (0x80000000 :: u32) AND 0x80000000 \<noteq> 0 then - 0x80000000 else NOT 0x80000000) = (0x80000000 :: u32)" by simp
  show ?case
    unfolding replicate_Suc append_Cons mtest_pass none same
    using Suc [of "- incr" "mt_write store_word 1 0 0x80000000 incr s" "out @ pass_text 0x80000000"]
    by (simp only: list.map concat.simps append_Nil2 append_assoc)
qed simp

section \<open>Typing values\<close>

text \<open>Characters that \<open>readline\<close> stores without editing the line.\<close>

definition plain_char :: "byte \<Rightarrow> bool" where
  "plain_char c \<longleftrightarrow> c \<noteq> 0 \<and> c \<noteq> 3 \<and> c \<noteq> 8 \<and> c \<noteq> 10 \<and> c \<noteq> 13 \<and> c \<noteq> 0x15 \<and> c \<noteq> 0x17 \<and> c \<noteq> 0x7F"

lemma type_char_fields:
  assumes "rl_n st < CFG_CBSIZE - 2"
  shows "rl_n (type_char c st) = rl_n st + 1" "rl_p (type_char c st) = rl_p st + 1"
    "rl_buf (type_char c st) = (rl_buf st)(rl_p st := c)"
  using assms by (simp_all add: type_char_def Let_def split: prod.split)

lemma readline_loop_plain:
  "\<forall>c \<in> set s. plain_char c \<Longrightarrow> rl_n st = rl_p st \<Longrightarrow> rl_p st + length s < CFG_CBSIZE - 2 \<Longrightarrow>
   \<exists>st'. readline_loop plen (s @ 13 # rest) st = Some (int (rl_p st + length s), st', rest) \<and>
     read_bytes (rl_buf st') 0 (rl_p st + length s) = read_bytes (rl_buf st) 0 (rl_p st) @ s \<and> rl_buf st' (rl_p st + length s) = 0"
proof (induction s arbitrary: st)
  case Nil
  have "read_bytes ((rl_buf st)(rl_p st := 0)) 0 (rl_p st) = read_bytes (rl_buf st) 0 (rl_p st)"
    by (rule read_bytes_cong) simp
  then show ?case by simp
next
  case (Cons c s)
  then have n: "rl_n st < CFG_CBSIZE - 2" by simp
  note fields = type_char_fields [OF n, of c]
  have "readline_loop plen ((c # s) @ 13 # rest) st = readline_loop plen (s @ 13 # rest) (type_char c st)"
    using Cons.prems(1) by (simp add: plain_char_def)
  moreover have "read_bytes (rl_buf (type_char c st)) 0 (rl_p (type_char c st)) = read_bytes (rl_buf st) 0 (rl_p st) @ [c]"
  proof -
    have "read_bytes ((rl_buf st)(rl_p st := c)) 0 (rl_p st) = read_bytes (rl_buf st) 0 (rl_p st)"
      by (rule read_bytes_cong) simp
    then show ?thesis using read_bytes_add [of "(rl_buf st)(rl_p st := c)" 0 "rl_p st" 1] by (simp add: fields read_bytes_Suc)
  qed
  ultimately show ?case using Cons.IH [of "type_char c st"] Cons.prems by (auto simp: fields simp del: fun_upd_apply readline_loop.simps)
qed

lemma readline_plain:
  assumes "\<forall>c \<in> set s. plain_char c" "length s < CFG_CBSIZE - 2"
  shows "\<exists>buf' out'. readline prompt buf (s @ 13 # rest) out = Some (int (length s), buf', out', rest) \<and>
    strlen buf' 0 = Some (length s) \<and> read_bytes buf' 0 (length s) = s"
proof -
  let ?st = "\<lparr>rl_buf = buf, rl_p = 0, rl_n = 0, rl_col = int (length prompt), rl_out = out @ prompt\<rparr>"
  obtain st' where st': "readline_loop (int (length prompt)) (s @ 13 # rest) ?st = Some (int (length s), st', rest)"
    "read_bytes (rl_buf st') 0 (length s) = s" "rl_buf st' (length s) = 0"
    using readline_loop_plain [OF assms(1), of ?st "int (length prompt)" rest] assms(2) by auto
  have "0 \<notin> set s" using assms(1) by (auto simp: plain_char_def)
  then have "cstr (rl_buf st') 0 s" using st'(2,3) read_bytes_nth0 by (simp add: cstr_iff)
  then show ?thesis using st' strlen_cstr by (auto simp: readline_def Let_def)
qed

text \<open>
  The number at the beginning of a typed line, given by its hexadecimal digits in either case, which may follow \<open>0x\<close>.
\<close>

definition hex_char :: "byte \<Rightarrow> bool" where
  "hex_char c \<longleftrightarrow> c \<in> set (bytes ''0123456789abcdefABCDEF'')"

definition hex_digit_value :: "byte \<Rightarrow> nat" where
  "hex_digit_value c = (if unat c < 58 then unat c - 48 else if unat c < 71 then unat c - 55 else unat c - 87)"

definition hex_value :: "nat \<Rightarrow> byte list \<Rightarrow> nat" where
  "hex_value = foldl (\<lambda>v c. 16 * v + hex_digit_value c)"

definition hex_digits :: "byte list \<Rightarrow> byte list" where
  "hex_digits l =
     (if take 2 l = bytes ''0x'' \<and> 2 < length l \<and> hex_char (l ! 2) then takeWhile hex_char (drop 2 l) else takeWhile hex_char l)"

definition typed_value :: "byte list \<Rightarrow> u32" where
  "typed_value l = of_nat (hex_value 0 (hex_digits l))"

lemma byte_between: "a \<le> c \<Longrightarrow> c \<le> b \<Longrightarrow> list_all P (map of_nat [unat a..<Suc (unat b)]) \<Longrightarrow> P (c :: byte)"
proof -
  assume "a \<le> c" "c \<le> b" and all: "list_all P (map of_nat [unat a..<Suc (unat b)])"
  then have "unat c \<in> set [unat a..<Suc (unat b)]" by (auto simp: word_le_nat_alt)
  then have "P (of_nat (unat c))" using all unfolding list_all_iff set_map by blast
  then show "P c" by simp
qed

lemma hex_char_isxdigit: "hex_char c \<longleftrightarrow> isxdigit c"
proof
  show "hex_char c \<Longrightarrow> isxdigit c" by (auto simp: hex_char_def isxdigit_iff)
  have "list_all hex_char (map of_nat [unat (0x30 :: byte)..<Suc (unat (0x39 :: byte))])"
    "list_all hex_char (map of_nat [unat (0x41 :: byte)..<Suc (unat (0x46 :: byte))])"
    "list_all hex_char (map of_nat [unat (0x61 :: byte)..<Suc (unat (0x66 :: byte))])"
    by (simp_all add: upt_rec hex_char_def)
  note all = byte_between [OF _ _ this(1)] byte_between [OF _ _ this(2)] byte_between [OF _ _ this(3)]
  show "isxdigit c \<Longrightarrow> hex_char c" unfolding isxdigit_iff by (elim disjE conjE; rule all; assumption)
qed

lemma hex_char_value: "hex_char c \<Longrightarrow> (digit_value c :: u32) = of_nat (hex_digit_value c) \<and> (digit_value c :: u32) < 16"
proof -
  have "list_all (\<lambda>c. (digit_value c :: u32) = of_nat (hex_digit_value c) \<and> (digit_value c :: u32) < 16)
      (bytes ''0123456789abcdefABCDEF'')" by code_simp
  then show "hex_char c \<Longrightarrow> ?thesis" unfolding hex_char_def list_all_iff by blast
qed

lemma strtoul_loop_hex:
  "strtoul_loop 16 l (of_nat v :: u32) = (of_nat (hex_value v (takeWhile hex_char l)), dropWhile hex_char l)"
proof (induction l arbitrary: v)
  case (Cons c l)
  show ?case
  proof (cases "hex_char c")
    case True
    then have d: "(digit_value c :: u32) = of_nat (hex_digit_value c)" "(digit_value c :: u32) < 16" "isxdigit c"
      using hex_char_value [OF True] True hex_char_isxdigit by blast+
    have "(of_nat v :: u32) * 16 + of_nat (hex_digit_value c) = of_nat (16 * v + hex_digit_value c)" by simp
    moreover have "strtoul_loop 16 (c # l) (of_nat v :: u32) = strtoul_loop 16 l (of_nat v * 16 + digit_value c)"
      using d(2,3) by simp
    ultimately have "strtoul_loop 16 (c # l) (of_nat v :: u32) = strtoul_loop 16 l (of_nat (16 * v + hex_digit_value c))"
      unfolding d(1) by (simp only:)
    then show ?thesis using Cons.IH [of "16 * v + hex_digit_value c"] True by (simp add: hex_value_def del: strtoul_loop.simps)
  next
    case False
    then show ?thesis by (simp add: hex_char_isxdigit hex_value_def)
  qed
qed (simp add: hex_value_def)

lemma strtoul_line:
  assumes "l \<noteq> []"
  shows "if hex_char (hd l) then fst (simple_strtoul l 16) = typed_value l \<and> length (snd (simple_strtoul l 16)) < length l
    else simple_strtoul l 16 = (0, l)"
proof -
  obtain c s where l: "l = c # s" using assms by (cases l) auto
  have shorter: "length (dropWhile hex_char xs) \<le> length xs" for xs by (rule length_dropWhile_le)
  show ?thesis
  proof (cases "c = chr CHR ''0''")
    case False
    then have "simple_strtoul l 16 = (of_nat (hex_value 0 (takeWhile hex_char l)), dropWhile hex_char l)"
      using strtoul_loop_hex [of l 0] by (simp add: simple_strtoul_def strtoul_prefix_def l)
    moreover have "hex_digits l = takeWhile hex_char l" using False by (simp add: hex_digits_def l)
    ultimately show ?thesis using shorter [of s] by (auto simp: typed_value_def l hex_value_def)
  next
    case True
    have zero: "hex_char c" unfolding True by (simp add: hex_char_def)
    show ?thesis
    proof (cases "peek s = chr CHR ''x'' \<and> isxdigit (peek (tl s))")
      case x: True
      have "\<not> isxdigit 0" by (simp add: isxdigit_iff)
      then obtain d ds where s: "s = chr CHR ''x'' # d # ds" "hex_char d"
        using x by (cases s; cases "tl s") (auto simp: hex_char_isxdigit)
      have "simple_strtoul l 16 = strtoul_loop 16 (d # ds) 0"
        using s by (simp add: simple_strtoul_def strtoul_prefix_def l True hex_char_isxdigit)
      then have "simple_strtoul l 16 = (of_nat (hex_value 0 (takeWhile hex_char (d # ds))), dropWhile hex_char (d # ds))"
        using strtoul_loop_hex [of "d # ds" 0] by simp
      moreover have "hex_digits l = takeWhile hex_char (d # ds)" using s by (simp add: hex_digits_def l True)
      ultimately show ?thesis using zero s shorter [of ds] by (auto simp: typed_value_def l)
    next
      case no: False
      then have "simple_strtoul l 16 = strtoul_loop 16 s 0"
        by (auto simp: simple_strtoul_def strtoul_prefix_def l True)
      then have res: "simple_strtoul l 16 = (of_nat (hex_value 0 (takeWhile hex_char s)), dropWhile hex_char s)"
        using strtoul_loop_hex [of s 0] by simp
      have "hex_digits l = takeWhile hex_char l"
      proof -
        have "\<not> (take 2 l = bytes ''0x'' \<and> 2 < length l \<and> hex_char (l ! 2))"
          using no by (cases s; cases "tl s") (auto simp: l hex_char_isxdigit)
        then show ?thesis unfolding hex_digits_def by (rule if_not_P)
      qed
      moreover have "hex_value 0 (c # xs) = hex_value 0 xs" for xs by (simp add: hex_value_def hex_digit_value_def True)
      ultimately have "typed_value l = of_nat (hex_value 0 (takeWhile hex_char s))" using zero by (simp add: typed_value_def l)
      then show ?thesis using zero res shorter [of s] by (simp add: l)
    qed
  qed
qed

text \<open>
  A line that can be typed without editing, and what a session of such lines makes of the address and of memory: an empty
  line goes on, \<open>-\<close> goes back, a number is stored.
\<close>

definition typed_line :: "byte list \<Rightarrow> bool" where
  "typed_line s \<longleftrightarrow> (\<forall>c \<in> set s. plain_char c) \<and> length s < CFG_CBSIZE - 2"

definition moves :: "byte list \<Rightarrow> bool" where
  "moves l \<longleftrightarrow> l = [] \<or> l = [chr CHR ''-'']"

fun mm_session :: "int \<Rightarrow> byte list list \<Rightarrow> u32 \<times> mem \<Rightarrow> u32 \<times> mem" where
  "mm_session sz [] (addr, m) = (addr, m)"
| "mm_session sz (l # ls) (addr, m) =
     mm_session sz ls
       (if l = [] then (addr + of_int sz, m)
        else if l = [chr CHR ''-''] then (addr - of_int sz, m)
        else (addr + of_int sz, write_bytes m (unat addr) (obj_bytes sz (typed_value l))))"

lemma mm_line:
  assumes line: "typed_line s" and inp: "mc_in st = s @ 13 # rest"
  shows "\<exists>buf out. mm_loop True sz addr st =
    (let st' = st\<lparr>mc_buf := buf, mc_out := out, mc_in := rest\<rparr> in
     if moves s \<or> hex_char (hd s)
     then case mm_session sz [s] (addr, mc_mem st) of (addr', m) \<Rightarrow> mm_loop True sz addr' (st'\<lparr>mc_mem := m\<rparr>)
     else Some (addr, st'))"
proof -
  let ?out = "show_obj sz (get_obj sz (mc_mem st) addr) (printf ''%08lx:'' [ArgInt addr] (mc_out st))"
  have s: "\<forall>c \<in> set s. plain_char c" "length s < CFG_CBSIZE - 2" using line by (auto simp: typed_line_def)
  obtain buf out where r: "readline (bytes '' ? '') (mc_buf st) (mc_in st) ?out = Some (int (length s), buf, out, rest)"
    "strlen buf 0 = Some (length s)" "read_bytes buf 0 (length s) = s"
    using readline_plain [OF s, of "bytes '' ? ''" "mc_buf st" rest ?out] unfolding inp by blast
  let ?st = "st\<lparr>mc_buf := buf, mc_out := out, mc_in := rest\<rparr>"
  have mem: "st\<lparr>mc_buf := buf, mc_out := out, mc_in := rest, mc_mem := mc_mem st\<rparr> = ?st" by simp
  have step: "mm_loop True sz addr st =
      (if int (length s) = 0 \<or> int (length s) = 1 \<and> buf 0 = chr CHR ''-''
       then mm_loop True sz (addr + of_int (if int (length s) \<noteq> 0 then - sz else sz)) ?st
       else if length (snd (simple_strtoul s 16)) = length s then Some (addr, ?st)
       else mm_loop True sz (addr + of_int sz) (?st\<lparr>mc_mem := put_obj sz addr (fst (simple_strtoul s 16)) (mc_mem st)\<rparr>))"
    by (subst mm_loop.simps) (simp add: Let_def r case_prod_beta del: bytes_Cons)
  have minus: "int (length s) = 1 \<and> buf 0 = chr CHR ''-'' \<longleftrightarrow> s = [chr CHR ''-'']"
  proof (cases s)
    case (Cons c t)
    then have "buf 0 = c" using r(3) by (simp add: read_bytes_Suc)
    then show ?thesis using Cons by auto
  qed simp
  show ?thesis
  proof (rule exI [of _ buf], rule exI [of _ out], cases "s = [] \<or> s = [chr CHR ''-'']")
    case True
    then show "mm_loop True sz addr st = (let st' = ?st in
     if moves s \<or> hex_char (hd s)
     then case mm_session sz [s] (addr, mc_mem st) of (addr', m) \<Rightarrow> mm_loop True sz addr' (st'\<lparr>mc_mem := m\<rparr>)
     else Some (addr, st'))"
      unfolding step minus by (auto simp: moves_def Let_def)
  next
    case False
    then have ne: "s \<noteq> []" by simp
    show "mm_loop True sz addr st = (let st' = ?st in
     if moves s \<or> hex_char (hd s)
     then case mm_session sz [s] (addr, mc_mem st) of (addr', m) \<Rightarrow> mm_loop True sz addr' (st'\<lparr>mc_mem := m\<rparr>)
     else Some (addr, st'))"
      using False strtoul_line [OF ne] unfolding step minus by (auto simp: moves_def Let_def put_obj_def split: if_splits)
  qed
qed

lemma mm_session_Cons: "mm_session sz (l # ls) am = mm_session sz ls (mm_session sz [l] am)"
  by (cases am) simp

lemma mm_loop_session:
  assumes "typed_line e" "\<not> moves e" "\<not> hex_char (hd e)"
  shows "\<forall>l \<in> set ls. typed_line l \<and> (moves l \<or> hex_char (hd l)) \<Longrightarrow>
    mc_in st = concat (map (\<lambda>l. l @ [13]) ls) @ e @ 13 # rest \<Longrightarrow>
    \<exists>st'. mm_loop True sz addr st = Some (fst (mm_session sz ls (addr, mc_mem st)), st') \<and>
      mc_mem st' = snd (mm_session sz ls (addr, mc_mem st)) \<and> mc_in st' = rest"
proof (induction ls arbitrary: st addr)
  case Nil
  then show ?case using mm_line [OF assms(1), of st rest sz addr] assms(2,3) by (auto simp: Let_def)
next
  case (Cons l ls)
  have l: "typed_line l" "moves l \<or> hex_char (hd l)" using Cons.prems(1) by auto
  obtain addr' m where am: "mm_session sz [l] (addr, mc_mem st) = (addr', m)" by fastforce
  have "mc_in st = l @ 13 # (concat (map (\<lambda>l. l @ [13]) ls) @ e @ 13 # rest)" using Cons.prems(2) by simp
  from mm_line [OF l(1) this, of sz addr] obtain buf out where step: "mm_loop True sz addr st = mm_loop True sz addr'
      (st\<lparr>mc_buf := buf, mc_out := out, mc_in := concat (map (\<lambda>l. l @ [13]) ls) @ e @ 13 # rest, mc_mem := m\<rparr>)"
    unfolding Let_def am using l(2) by auto
  show ?case
    using Cons.IH [of "st\<lparr>mc_buf := buf, mc_out := out, mc_in := concat (map (\<lambda>l. l @ [13]) ls) @ e @ 13 # rest, mc_mem := m\<rparr>" addr']
      Cons.prems(1) unfolding step mm_session_Cons [of sz l ls] am by auto
qed

text \<open>Numbers only: they are stored one after another.\<close>

lemma mm_session_numbers:
  assumes "obj_size sz"
  shows "\<forall>l \<in> set ls. \<not> moves l \<Longrightarrow> unat addr + length ls * nat sz < 2 ^ 32 \<Longrightarrow>
    unat (fst (mm_session sz ls (addr, m))) = unat addr + length ls * nat sz \<and>
    snd (mm_session sz ls (addr, m)) = write_bytes m (unat addr) (concat (map (\<lambda>l. obj_bytes sz (typed_value l)) ls))"
proof (induction ls arbitrary: addr m)
  case (Cons l ls)
  have addr: "unat (addr + of_int sz) = unat addr + nat sz" using Cons.prems(2) by (intro next_addr [OF assms]) simp
  have "mm_session sz (l # ls) (addr, m) =
      mm_session sz ls (addr + of_int sz, write_bytes m (unat addr) (obj_bytes sz (typed_value l)))"
    using Cons.prems(1) by (simp add: moves_def)
  then show ?case
    using Cons.IH [of "addr + of_int sz" "write_bytes m (unat addr) (obj_bytes sz (typed_value l))"] Cons.prems addr assms
    by (simp add: write_bytes_append)
qed simp

text \<open>
  C29. Memory edited by hand with \<open>mm\<close>: at each prompt an empty line moves on by one object, \<open>-\<close> moves back, and a line that
  begins with a hexadecimal digit stores the number that it begins with (its digits, perhaps behind \<open>0x\<close>, modulo 2 ^ 32) as an
  object of the size of the command and moves on; the first line of any other kind ends the command with 0. Memory and the remembered
  address are what these lines make of them, and what follows is still to be read. In particular numbers alone are stored one
  after another, and nothing else in memory changes. The lines are typed without editing.
\<close>

theorem mm_enters_values:
  assumes args: "cmd_get_data_size c 4 = sz" "obj_size sz" "addr = hexarg a + mc_base st" "flg AND CMD_FLAG_REPEAT = 0"
    and lines: "\<forall>l \<in> set ls. typed_line l \<and> (l = [] \<or> l = [chr CHR ''-''] \<or> hex_char (hd l))"
      "typed_line e" "\<not> (e = [] \<or> e = [chr CHR ''-''] \<or> hex_char (hd e))"
    and inp: "mc_in st = concat (map (\<lambda>l. l @ [13]) ls) @ e @ 13 # rest"
  shows "\<exists>st'. do_mem_mm usage flg [c, a] st = Some (0, st') \<and>
    (mc_mm_addr st', mc_mem st') = mm_session sz ls (addr, mc_mem st) \<and> mc_in st' = rest \<and>
    ([] \<notin> set ls \<and> [chr CHR ''-''] \<notin> set ls \<and> unat addr + length ls * nat sz < 2 ^ 32 \<longrightarrow>
      mc_mem st' = write_bytes (mc_mem st) (unat addr) (concat (map (\<lambda>l. obj_bytes sz (typed_value l)) ls)) \<and>
      unat (mc_mm_addr st') = unat addr + length ls * nat sz)"
proof -
  have l: "\<forall>l \<in> set ls. typed_line l \<and> (moves l \<or> hex_char (hd l))" "\<not> moves e" "\<not> hex_char (hd e)"
    using lines by (auto simp: moves_def)
  obtain st1 where "mm_loop True sz addr st = Some (fst (mm_session sz ls (addr, mc_mem st)), st1)"
    "mc_mem st1 = snd (mm_session sz ls (addr, mc_mem st))" "mc_in st1 = rest"
    using mm_loop_session [OF lines(2) l(2,3) l(1) inp] by blast
  moreover have "\<not> sz < 0" using args(2) by (auto simp: obj_size_def)
  ultimately have "\<exists>st'. do_mem_mm usage flg [c, a] st = Some (0, st') \<and>
      (mc_mm_addr st', mc_mem st') = mm_session sz ls (addr, mc_mem st) \<and> mc_in st' = rest"
    using args(1,4) unfolding do_mem_mm_def mod_mem_def Let_def by (auto simp flip: args(3))
  then show ?thesis
    using mm_session_numbers [OF args(2), of ls addr "mc_mem st"] unfolding moves_def by (metis fst_conv snd_conv)
qed

theorem mm_enters_values_witness:
  "\<exists>st'. do_mem_mm None 0 [bytes ''mm.w'', bytes ''10'']
      \<lparr>mc_mem = \<lambda>a. 0, mc_dp_addr = 0, mc_dp_size = 0, mc_dp_length = 0, mc_mm_addr = 0, mc_mm_size = 0, mc_base = 0,
        mc_buf = \<lambda>_. 0, mc_in = bytes ''1a2B'' @ [13] @ [13] @ bytes ''0x3'' @ [13] @ bytes ''.'' @ [13], mc_ctrlc = [], mc_out = []\<rparr> =
      Some (0, st') \<and> mc_mem st' 0x10 = 0x1a \<and> mc_mem st' 0x11 = 0x2b \<and> mc_mem st' 0x12 = 0 \<and> mc_mem st' 0x15 = 3"
proof -
  let ?st = "\<lparr>mc_mem = \<lambda>a. 0, mc_dp_addr = 0, mc_dp_size = 0, mc_dp_length = 0, mc_mm_addr = 0, mc_mm_size = 0, mc_base = 0,
        mc_buf = \<lambda>_. 0, mc_in = bytes ''1a2B'' @ [13] @ [13] @ bytes ''0x3'' @ [13] @ bytes ''.'' @ [13], mc_ctrlc = [], mc_out = []\<rparr>"
  let ?ls = "[bytes ''1a2B'', [], bytes ''0x3'']"
  have args: "cmd_get_data_size (bytes ''mm.w'') 4 = 2" "obj_size 2" "(0x10 :: u32) = hexarg (bytes ''10'') + mc_base ?st"
    "(0 :: u32) AND CMD_FLAG_REPEAT = 0"
    by (simp_all add: cmd_get_data_size_def obj_size_def) code_simp
  have vals: "typed_value (bytes ''1a2B'') = 0x1a2b" "typed_value (bytes ''0x3'') = 3" by code_simp+
  have typed: "\<forall>l \<in> set ?ls. typed_line l \<and> (l = [] \<or> l = [chr CHR ''-''] \<or> hex_char (hd l))"
    "typed_line (bytes ''.'')" "\<not> (bytes ''.'' = [] \<or> bytes ''.'' = [chr CHR ''-''] \<or> hex_char (hd (bytes ''.'')))"
    by (simp_all add: typed_line_def plain_char_def CFG_CBSIZE_def hex_char_def)
  have session: "mm_session 2 ?ls (0x10, m) =
      (0x16, write_bytes (write_bytes m 0x10 [0x1a, 0x2b]) 0x14 [0, 3])" for m
  proof -
    have "obj_bytes 2 0x1a2b = [0x1a, 0x2b]" "obj_bytes 2 3 = [0, 3]" by code_simp+
    then show ?thesis using vals by simp
  qed
  have inp: "mc_in ?st = concat (map (\<lambda>l. l @ [13]) ?ls) @ bytes ''.'' @ 13 # []" by simp
  from mm_enters_values [OF args typed inp, of None] show ?thesis
    unfolding session by (auto simp: write_bytes_apply)
qed

end
