(* ===== verification/Spec2Isabelle.thy ===== *)
theory Spec2Isabelle imports Prelude CType CMem CString Vsprintf Crc NandEcc CmdDate CmdLoad FlashCmd CircBuf Env NetHdr NetCore Display Tftp Command Console Shell Lists Devices MemSize Image LinuxMips Bootm Autoscript MemCmd begin

text \<open>
  A verification library for the boot loader U-Boot (directory \<open>u-boot\<close> of the repository; all
  file names below are relative to it).

  U-Boot initialises a board, then runs commands: from the variable \<open>bootcmd\<close> of its environment, or
  typed on the console. The commands use a small C library of their own, load data over the serial
  line or the network, check it with checksums, write it to flash, and boot an operating system from it. The theories follow this
  structure, each one the files named in its first text:

  \<^item> \<open>Prelude\<close>: bytes, memory as a function from addresses to bytes, C strings.
  \<^item> The C library: \<open>CType\<close> (\<open>lib_generic/ctype.c\<close>), \<open>CMem\<close> and \<open>CString\<close> (\<open>lib_generic/string.c\<close>),
    \<open>Vsprintf\<close> (\<open>lib_generic/vsprintf.c\<close>). Every function is a definition of the same name; the
    lemmas state what the operations store and return, for overlapping areas too, and that numbers
    printed are read back.
  \<^item> Codes: \<open>Crc\<close> (\<open>lib_generic/crc32.c\<close>, \<open>common/crc16.c\<close>) and \<open>NandEcc\<close> (\<open>drivers/nand/nand_ecc.c\<close>):
    the table-driven routines equal bit-serial references; which errors they detect and correct.
  \<^item> Time: \<open>RtcDate\<close> (\<open>rtc/date.c\<close>) and \<open>CmdDate\<close> (\<open>common/cmd_date.c\<close>) against a calendar.
  \<^item> Loading and flash: \<open>SRecord\<close> (\<open>common/s_record.c\<close>), \<open>Flash\<close> (\<open>common/flash.c\<close>), \<open>CmdLoad\<close>
    (\<open>common/cmd_load.c\<close>, which calls both), \<open>CircBuf\<close> (\<open>common/circbuf.c\<close>). \<open>FlashCmd\<close> (\<open>common/cmd_flash.c\<close>) turns
    address ranges into sectors of the banks (\<open>fill_banks\<close>); its lemmas show that for adjacent banks these are exactly the
    sectors the range touches, so that \<open>erase\<close> and \<open>protect\<close> do what they say, and what happens otherwise.
  \<^item> Memory: \<open>MemSize\<close> (\<open>common/memsize.c\<close>) finds the size of memory that repeats behind its last word; \<open>MemCmd\<close>
    (\<open>common/cmd_mem.c\<close>) has the commands that show, change, copy, compare and test memory.
  \<^item> The environment: \<open>Env\<close> (\<open>common/cmd_nvedit.c\<close>, \<open>common/env_common.c\<close>): the block of strings with its
    checksum, refined to a map from names to values.
  \<^item> The network: \<open>NetHdr\<close> (\<open>include/net.h\<close>), \<open>NetCore\<close> (\<open>net/net.c\<close>: frames, ARP, UDP, ping, dispatch,
    timeouts) and \<open>Tftp\<close> (\<open>net/tftp.c\<close> and the loop \<open>NetLoop\<close>). The global variables of \<open>net.c\<close> are the
    record \<open>net\<close>, extended by those of \<open>tftp.c\<close>; the registered handlers are values of a datatype
    that \<open>run_rx\<close> and \<open>run_time\<close> interpret, as the function pointers do.
  \<^item> The user's side: \<open>Console\<close> (line editor and boot delay of \<open>common/main.c\<close>), \<open>Command\<close>
    (\<open>common/command.c\<close>: table of commands, help, echo, test) and \<open>Shell\<close> (the command interpreter of
    \<open>common/main.c\<close>: quoting, variables, several commands on a line, the command \<open>run\<close>; the guard of
    \<open>do_bootd\<close>).
  \<^item> The console: \<open>Lists\<close> (\<open>common/lists.c\<close>: resizable lists behind handles, refined to sequences) and
    \<open>Devices\<close> (\<open>common/devices.c\<close>, \<open>common/console.c\<close>, \<open>common/cmd_console.c\<close>): the devices are structures in the
    block of such a list, the files \<open>stdin\<close>, \<open>stdout\<close>, \<open>stderr\<close> are pointers into it. The lemmas follow these
    pointers through the growing, moving and shrinking of the list; \<open>setenv_console\<close> below links them to the
    environment.
  \<^item> Booting: \<open>Image\<close> (\<open>include/image.h\<close>, the host tool \<open>tools/mkimage.c\<close>, \<open>iminfo\<close> and \<open>imls\<close> of
    \<open>common/cmd_bootm.c\<close>), \<open>LinuxMips\<close> (\<open>lib_mips/mips_linux.c\<close>) and \<open>Bootm\<close> (\<open>do_bootm\<close> and \<open>gunzip\<close>). \<open>header_ok\<close> and
    \<open>data_ok\<close> say what the checksums mean, \<open>image_bytes\<close> what \<open>mkimage\<close> writes; the lemmas follow an image from the files on
    the host through the checks to the loaded and started kernel with its arguments, its environment and its ramdisk,
    and show that damaged images are rejected. \<open>Autoscript\<close> (\<open>common/cmd_autoscript.c\<close>) runs the script in an image through the
    command interpreter of \<open>Shell\<close>. \<open>Display\<close> (\<open>lib_generic/display_options.c\<close>) prints versions and sizes.

  Conventions. A machine integer is a word of its width where it can wrap; \<open>nat\<close> stands for addresses
  and for counts that are only tested and decremented. Where the code reads a string sequentially a
  string is the list of its bytes without the NUL, where it works in place it is memory. \<open>printf\<close> and
  \<open>puts\<close> append to a list of bytes, the console; characters that arrive are a list too. A result
  \<open>None\<close> is the absence of a result: a NULL pointer that is followed, a scan or a wait that does not
  end. Loops with a bound are total functions with a measure; loops without one are
  \<open>partial_function (option)\<close>, and the theorems state that they return; no fuel is used for them. Only
  \<open>exec\<close> in \<open>Shell\<close>, which runs a command that may run command lines again, has a depth argument, the
  room on the stack: 2 levels are enough where \<open>run\<close> is not used (\<open>bootd_nests_once\<close>), and the lemma
  \<open>run_recursion\<close> shows that with \<open>run\<close> nothing in the code bounds it.

  Interfaces. \<open>item_list\<close> (theory \<open>Lists\<close>) is a sequence with insertions that may fail, interpreted by the lists
  and used by the devices; \<open>byte_queue\<close> (theory \<open>CircBuf\<close>) is a bounded queue, interpreted by the circular buffer;
  \<open>var_store\<close> (theory \<open>Env\<close>) a store of named values with limited room, interpreted by the
  environment; \<open>cyclic_code\<close> and \<open>burst_code\<close> (theory \<open>Crc\<close>) what a table-driven cyclic code needs,
  interpreted by CRC-32 and CRC-16.

  Configuration. The configuration macros are those of a 32-bit big-endian port with one network
  device, as the MIPS boards of this repository have it; each theory names the options it leaves out.

  Not modelled: device drivers, start-up and board code and what else is register accesses or
  assembly; the vendored parts (\<open>dlmalloc\<close>, \<open>zlib\<close>, \<open>bzlib\<close>, LZMA, hush, the x86 emulator); the other
  clients of the network core (BOOTP, RARP, NFS, SNTP, CDP); file systems and partition tables; the
  remaining commands; the starts of operating systems other than Linux on MIPS, NetBSD and RTEMS. \<open>malloc\<close>, the flash
  driver's \<open>write_buff\<close> and \<open>flash_erase\<close>, \<open>inflate\<close> of zlib, the console devices and time are arguments of the definitions that use them.
\<close>

section \<open>Across components\<close>

text \<open>
  C5. What a command line sets, the next one reads: \<open>setenv\<close> with quoted words, typed as a line, sets the
  variable in the environment block (checksum and all other variables right, result 0: not repeatable),
  and from then on every line that refers to it is expanded with the words joined by blanks.
\<close>

theorem set_then_use:
  assumes env: "env_holds (po_board po) (sh_env st) vs" "ENV_SIZE (po_board po) \<le> po_env_size po"
    and table: "find_cmd (po_table po) (bytes ''setenv'') = Some cmd_setenv" "po_bootd po \<noteq> Do_setenv"
    and words: "\<forall>w \<in> set (name # vals). word_ok w" "vals \<noteq> []" "length vals \<le> 14" "plain name"
    and fits: "length (value_of (map quote_word (bytes ''setenv'' # name # vals))) < CFG_CBSIZE"
      "length (env_bytes (others name vs @ [(name, value_of vals)])) \<le> ENV_SIZE (po_board po)"
    and pieces: "\<forall>g \<in> set ps. good_piece g"
  shows "\<exists>st'. run_command po (exec (Suc d) po ver brk) (Some (value_of (map quote_word (bytes ''setenv'' # name # vals)))) flg st =
      Some (0, st') \<and>
    env_holds (po_board po) (sh_env st') (others name vs @ [(name, value_of vals)]) \<and> crc_ok (po_board po) (sh_env st') \<and>
    process_macros (po_env_size po) (en_env (sh_env st')) (line_text ps) =
      Some (take CFG_CBSIZE (line_value (others name vs @ [(name, value_of vals)]) ps),
        CFG_CBSIZE - length (line_value (others name vs @ [(name, value_of vals)]) ps))"
proof -
  let ?argv = "bytes ''setenv'' # name # vals" and ?new = "others name vs @ [(name, value_of vals)]"
  let ?st = "st\<lparr>sh_ctrlc := False\<rparr>"
  have nul: "\<forall>v \<in> set vals. 0 \<notin> set v" using words(1) by (auto simp: word_ok_def)
  have argv: "map Some ?argv = set_args (bytes ''setenv'') name vals" by (simp add: set_args_def)
  have res: "set_result (ENV_SIZE (po_board po)) name vals vs = (0, ?new)"
    using words(2) fits(2) by (simp add: set_result_def Let_def)
  obtain e where e: "do_setenv0 (po_board po) (map Some ?argv) (sh_env st) = Some (0, e)"
    "env_holds (po_board po) e ?new" "crc_ok (po_board po) e"
    using do_setenv0_plain [OF env(1) words(4) nul gives_set_args, of "bytes ''setenv''"]
    unfolding argv set_post_def res by auto
  then have set: "do_setenv (po_board po) u (map Some ?argv) (sh_env st) = Some (0, e)" for u
    using do_setenv_gives [OF gives_set_args] unfolding argv by metis
  let ?st' = "?st\<lparr>sh_env := e\<rparr>"
  have "exec (Suc d) po ver brk cmd_setenv flg ?argv ?st = Some (0, ?st')"
    using set by (simp add: cmd_setenv_def)
  then have "run_argv po (exec (Suc d) po ver brk) ?argv flg 0 1 ?st = Some (Next flg 0 0 ?st')"
    using table words(3) by (simp add: run_argv_def cmd_setenv_def CFG_MAXARGS_def del: exec.simps)
  moreover have "\<forall>w \<in> set ?argv. word_ok w" "length ?argv \<le> CFG_MAXARGS"
    using words(1,3) by (simp_all add: word_ok_def CFG_MAXARGS_def)
  ultimately have "run_command po (exec (Suc d) po ver brk) (Some (value_of (map quote_word ?argv))) flg st = Some (0, ?st')"
    using run_line [OF env _ _ _ fits(1), of "exec (Suc d) po ver brk" flg] by simp
  moreover have "process_macros (po_env_size po) (en_env e) (line_text ps) =
      Some (take CFG_CBSIZE (line_value ?new ps), CFG_CBSIZE - length (line_value ?new ps))"
    using e(2) env(2) pieces by (rule process_macros_line)
  ultimately show ?thesis using e by auto
qed

theorem set_then_use_witness:
  "\<exists>st'. run_command port0 (exec 1 port0 [] (\<lambda>_. False)) (Some (bytes ''setenv b 7 8'')) 0 shell0 = Some (0, st') \<and>
     process_macros 64 (en_env (sh_env st')) (bytes ''echo ${b}'') = Some (bytes ''echo 7 8'', 248)"
proof -
  let ?vals = "[bytes ''7'', bytes ''8'']" and ?ps = "map Plain (bytes ''echo '') @ [Ref (bytes ''b'')]"
  have po: "po_board port0 = board0" "po_env_size port0 = 64" "po_table port0 = table0" "po_bootd port0 = Do_bootd"
    by (simp_all add: port0_def)
  have "find_cmd table0 (bytes ''setenv'') = Some cmd_setenv"
    by (simp add: find_cmd_def table0_def cmd_version_def cmd_echo_def cmd_printenv_def cmd_setenv_def)
  moreover have "\<forall>w \<in> set (bytes ''b'' # ?vals). word_ok w" "plain (bytes ''b'')" "\<forall>g \<in> set ?ps. good_piece g"
    by (simp_all add: word_ok_def plain_def good_name_def)
  moreover have line: "value_of (map quote_word (bytes ''setenv'' # bytes ''b'' # ?vals)) = bytes ''setenv b 7 8''"
    by (simp add: value_of_Cons quote_word_def)
  moreover have new: "others (bytes ''b'') vars0 @ [(bytes ''b'', value_of ?vals)] = vars0 @ [(bytes ''b'', bytes ''7 8'')]"
    by (simp add: others_def vars0_def value_of_Cons)
  moreover have "length (env_bytes (vars0 @ [(bytes ''b'', bytes ''7 8'')])) \<le> ENV_SIZE board0"
    by (simp add: vars0_def env_bytes_def board0_def)
  moreover have "length (bytes ''setenv b 7 8'') < CFG_CBSIZE" by (simp add: CFG_CBSIZE_def)
  moreover have "line_text ?ps = bytes ''echo ${b}''"
    "line_value (vars0 @ [(bytes ''b'', bytes ''7 8'')]) ?ps = bytes ''echo 7 8''"
    by (simp_all add: line_text_def line_value_def vars0_def)
  ultimately show ?thesis
    using set_then_use [of port0 shell0 vars0 "bytes ''b''" ?vals ?ps 0 "[]" "\<lambda>_. False" 0] shell0_holds
    unfolding po by (auto simp: CFG_CBSIZE_def)
qed

section \<open>Console and environment\<close>

lemma setenv_tail_console: "setenv_tail bo argv name st = Some (r, st') \<Longrightarrow> en_console st' = en_console st"
  by (auto simp: setenv_tail_def env_crc_update_def setenv_effects_def Let_def split: if_splits option.splits sum.splits)

lemma do_setenv0_console:
  assumes "do_setenv0 bo argv st = Some (r, st')" "arg argv 1 = Some name" "find_var (en_env st) name 0 = Some (p, nxt, oldval)"
  shows "en_console st' = (if oldval < 0 then en_console st
    else case setenv_checks bo argv name st of Some (Inr st1) \<Rightarrow> en_console st1 | Some (Inl (r, st1)) \<Rightarrow> en_console st1
      | None \<Rightarrow> en_console st')"
  using assms by (auto simp: do_setenv0_def split: if_splits option.splits sum.splits dest: setenv_tail_console)

text \<open>
  C27. What \<open>setenv\<close> of \<open>stdin\<close>, \<open>stdout\<close> or \<open>stderr\<close> does to console and environment. Where the variable exists,
  the first device of the given name is started and assigned: if that fails the command returns 1 and the
  block and its checksum are unchanged, otherwise the file belongs to the device. Where the variable does
  not exist, no device is looked for and the console is as it was. Unless an assignment failed, the variable then has
  the given value, 0 is returned and the checksum follows the block, if the new block fits; if it does
  not, 1 is returned, the variable is deleted, the checksum is that of the old block, and a device
  assigned before stays assigned: console and environment then differ. The console stays usable in each case.
\<close>

theorem setenv_console:
  fixes bo :: "'w console board" and cmd :: "byte list"
  assumes env: "env_holds bo st vs" and live: "console_live M (en_console st)"
    and board: "board.console_assign bo = (\<lambda>f name c. the (Devices.console_assign dr (int f) name c))"
    and name: "std_console name = Some f" "0 \<notin> set devname"
  defines "argv \<equiv> set_args cmd name [devname]"
  shows "\<exists>r st'. do_setenv bo usage argv st = Some (r, st') \<and> console_live M (en_console st') \<and>
    (let present = name \<in> fst ` set vs;
         (error, switched) = assign_spec dr (int f) devname (en_console st);
         new = others name vs @ [(name, devname)]
     in en_console st' = (if present then switched else en_console st) \<and>
        (if present \<and> error < 0 then r = 1 \<and> env_holds bo st' vs \<and> en_crc st' = en_crc st
         else if length (env_bytes new) \<le> ENV_SIZE bo then r = 0 \<and> env_holds bo st' new \<and> crc_ok bo st'
         else r = 1 \<and> env_holds bo st' (others name vs) \<and> en_crc st' = en_crc st))"
proof -
  let ?co = "en_console st" and ?n = "ENV_SIZE bo"
  have f: "int f \<in> {stdin, stdout, stderr}" and good: "good_name name"
    and nm: "name \<noteq> bytes ''serial#''" "name \<noteq> bytes ''ethaddr''" "name \<noteq> bytes ''baudrate''"
    using name(1) by (auto simp: std_console_def stdin_def stdout_def stderr_def good_name_def split: if_splits)
  have ok: "table_ok M ?co" using live by (simp add: console_live_def)
  obtain e c where e: "assign_spec dr (int f) devname ?co = (e, c)" by (cases "assign_spec dr (int f) devname ?co")
  have c: "console_live M c" using assign_spec_live [OF live f e] .
  have vals: "\<forall>v \<in> set [devname]. 0 \<notin> set v" using name(2) by simp
  have argv: "gives argv name [devname]" unfolding argv_def by (rule gives_set_args)
  have arg: "arg argv 1 = Some name" "arg argv 2 = Some devname" "\<not> length argv < 3"
    by (simp_all add: argv_def set_args_def arg_def)
  have "board.console_assign bo f devname ?co = (e, c)" unfolding board assign_console_spec [OF ok f] e by simp
  then have sw: "switch_console bo argv name st = Some (if e < 0 then Inl (1, st\<lparr>en_console := c\<rparr>) else Inr (st\<lparr>en_console := c\<rparr>))"
    using name(1) arg by (simp add: switch_console_def)
  then have checks: "setenv_checks bo argv name st = Some (if e < 0 then Inl (1, st\<lparr>en_console := c\<rparr>) else Inr (st\<lparr>en_console := c\<rparr>))"
    using nm by (simp add: setenv_checks_def switch_baudrate_def)
  note steps = do_setenv0_steps [OF env good vals argv] and do = do_setenv_gives [OF argv]
  have res: "set_result ?n name [devname] vs =
      (if length (env_bytes (others name vs @ [(name, devname)])) \<le> ?n then (0, others name vs @ [(name, devname)])
       else (1, others name vs))"
    by (simp add: set_result_def value_of_Cons Let_def)
  show ?thesis
  proof (cases "name \<in> fst ` set vs")
    case False
    then obtain r st' where r: "do_setenv0 bo argv st = Some (r, st')" "set_post bo name [devname] vs st r st'"
      using steps by auto
    obtain p where "find_var (en_env st) name 0 = Some (p, 0, -1)" using find_var_env(1) [OF env good False] by blast
    then have "en_console st' = ?co" using do_setenv0_console [OF r(1) arg(1)] by simp
    then show ?thesis using r False live unfolding do set_post_def res e by (simp add: Let_def split: if_splits)
  next
    case True
    obtain us val ws where vs: "vs = us @ (name, val) # ws" "name \<notin> fst ` set us"
      using split_list_first_prop [of vs "\<lambda>v. fst v = name"] True by fastforce
    note p = find_var_env(2) [OF env good vs]
    show ?thesis
    proof (cases "e < 0")
      case fail: True
      then have "do_setenv0 bo argv st = Some (1, st\<lparr>en_console := c\<rparr>)" using steps True checks by simp
      moreover have "env_holds bo (st\<lparr>en_console := c\<rparr>) vs" using env env_holds_frame [of "st\<lparr>en_console := c\<rparr>" st bo] by simp
      ultimately show ?thesis using True fail c unfolding do e by (simp add: Let_def)
    next
      case False
      then obtain r st' where r: "do_setenv0 bo argv st = Some (r, st')" "set_post bo name [devname] vs st r st'"
        using steps True checks by auto
      have "en_console st' = c" using do_setenv0_console [OF r(1) arg(1) p] checks False by simp
      then show ?thesis using r True False c unfolding do set_post_def res e by (simp add: Let_def split: if_splits)
    qed
  qed
qed

text \<open>Two blocks: 64 bytes, where the new value fits, and 11 bytes, where it does not.\<close>

definition board1 :: "nat \<Rightarrow> byte list console board" where
  "board1 n = \<lparr>ENV_SIZE = n, baudrate_table = [9600], console_assign = (\<lambda>f name c. the (Devices.console_assign drivers0 (int f) name c)),
     htonl = id\<rparr>"

definition state1 :: "nat \<Rightarrow> byte list console env_state" where
  "state1 n = env_crc_update (board1 n)
     \<lparr>en_env = write_bytes (\<lambda>_. 0xFF) 0 (env_bytes [(bytes ''stdout'', bytes ''s'')]), en_crc = 0, en_in = [], en_out = [],
      en_console = console1, en_baudrate = 9600, en_enetaddr = [], en_ip_addr = 0, en_load_addr = 0, en_bootfile = []\<rparr>"

theorem setenv_console_witness:
  "(\<exists>st'. do_setenv (board1 64) [] (set_args [] (bytes ''stdout'') [bytes ''lcd'']) (state1 64) = Some (0, st') \<and>
      crc_ok (board1 64) st' \<and> env_holds (board1 64) st' [(bytes ''stdout'', bytes ''lcd'')] \<and>
      stdio_devices (en_console st') 1 = 4172) \<and>
   (\<exists>st'. do_setenv (board1 11) [] (set_args [] (bytes ''stdout'') [bytes ''lcd'']) (state1 11) = Some (1, st') \<and>
      env_holds (board1 11) st' [] \<and> stdio_devices (en_console st') 1 = 4172)"
proof -
  have env: "env_holds (board1 n) (state1 n) [(bytes ''stdout'', bytes ''s'')]" if "10 \<le> n" for n
    by (simp add: env_holds_def state1_def env_crc_update_def holds_write)
      (use that in \<open>simp add: board1_def env_bytes_def good_var_def good_name_def\<close>)
  have co: "en_console (state1 n) = console1" for n by (simp add: state1_def env_crc_update_def)
  have present: "(bytes ''stdout'' \<in> fst ` set [(bytes ''stdout'', bytes ''s'')]) = True" by simp
  have new: "others (bytes ''stdout'') [(bytes ''stdout'', bytes ''s'')] = []" by (simp add: others_def)
  have len: "length (env_bytes ([] @ [(bytes ''stdout'', bytes ''lcd'')])) = 12" by (simp add: env_bytes_def)
  have n: "ENV_SIZE (board1 n) = n" for n by (simp add: board1_def)
  have "start_device drivers0 lcd0 console1 = (0, console1)" by (simp add: start_device_def lcd0_def set_name_def blank_device_def)
  then have spec: "assign_spec drivers0 (int 1) (bytes ''lcd'') console1 = (0, use_device drivers0 1 4172 lcd0 console1)"
    using flags0 by (simp add: assign_spec_def table1 names0 addr1 file_flag_def stdin_def)
  have dev: "stdio_devices (use_device drivers0 1 4172 lcd0 console1) 1 = 4172" by simp
  have name: "0 \<notin> set (bytes ''lcd'')" "std_console (bytes ''stdout'') = Some 1" by (simp_all add: std_console_def)
  have board: "board.console_assign (board1 n) = (\<lambda>f name c. the (Devices.console_assign drivers0 (int f) name c))" for n
    by (simp add: board1_def)
  have live: "console_live 9 (en_console (state1 n))" for n unfolding co by (rule live1)
  note set = setenv_console [OF env live board name(2,1), unfolded co spec present new len n Let_def prod.case if_True]
  show ?thesis
    using set [of 64 "[]" "[]"] set [of 11 "[]" "[]"] by (auto simp: dev simp del: bytes_Cons)
qed

end
